(* ===== verification/Prelude.thy ===== *)
theory Prelude
  imports Main "HOL-Library.Word"
begin

text \<open>
  What every component of the library shares: bytes, the exceptions a call can
  throw and the result type that carries them, sequencing of fallible steps and
  its inversion rules, JavaScript's safe-integer bounds, checked loops over
  lists, and the generic list lemmas the component proofs use.

  Conventions.  A \<open>number\<close> or \<open>bigint\<close> of the source is an \<open>int\<close>: both
  are exact over the ranges the code admits, and the code guards every place
  where a \<open>number\<close> could leave \<open>[-(2^53-1), 2^53-1]\<close>.  A \<open>Uint8Array\<close> is a
  \<open>byte list\<close>, a hex identifier a \<open>string\<close>.  A function that can throw
  returns a sum: \<open>Inl e\<close> is the exception, \<open>Inr v\<close> the value.
\<close>

unbundle bit_operations_syntax

type_synonym byte = "8 word"

section \<open>Exceptions and results\<close>

text \<open>The reasons of \<open>ReaderErrorCode\<close> in \<open>packages/wire/src/errors.ts\<close>.\<close>
datatype reader_code =
    Truncated | InvalidTag | WrongMagic | UnsupportedVersion | ChecksumMismatch
  | VlqOverflow | ArrayTooLarge | PositionLimitExceeded | NonCanonicalCode | OutOfDomain

text \<open>The step of the boundary check that failed: \<open>CodecFailure\<close> in
  \<open>packages/types/src/codec.ts\<close>.\<close>
datatype codec_failure = TrailingBytes | NonCanonical | Unencodable | ReaderFault

text \<open>What a call can throw: a \<open>ReaderError\<close>, its subclass \<open>CodecError\<close>, or any
  other \<open>Error\<close>.\<close>
datatype exn = ReaderErr reader_code | CodecErr codec_failure | OtherErr

type_synonym 'a res = "exn + 'a"

definition ebind :: "'e + 'a \<Rightarrow> ('a \<Rightarrow> 'e + 'b) \<Rightarrow> 'e + 'b" where
  "ebind m f = (case m of Inl e \<Rightarrow> Inl e | Inr a \<Rightarrow> f a)"

named_theorems bind_iff \<open>inversion of a successful (or failed) sequence of steps\<close>

lemma ebind_Inl [simp]: "ebind (Inl e) f = Inl e"
  by (simp add: ebind_def)

lemma ebind_Inr [simp]: "ebind (Inr a) f = f a"
  by (simp add: ebind_def)

lemma ebind_cong [fundef_cong]:
  "m = m' \<Longrightarrow> (\<And>a. m' = Inr a \<Longrightarrow> f a = f' a) \<Longrightarrow> ebind m f = ebind m' f'"
  by (cases m') (auto simp: ebind_def)

lemma ebind_eq_Inr [bind_iff]:
  "ebind m f = Inr y \<longleftrightarrow> (\<exists>x. m = Inr x \<and> f x = Inr y)"
  by (cases m) auto

lemma ebind_eq_Inl [bind_iff]:
  "ebind m f = Inl e \<longleftrightarrow> m = Inl e \<or> (\<exists>x. m = Inr x \<and> f x = Inl e)"
  by (cases m) auto

lemma ebind_assoc: "ebind (ebind m f) g = ebind m (\<lambda>x. ebind (f x) g)"
  by (cases m) auto

text \<open>\<open>if (!cond) throw e\<close> at the head of a function.\<close>
definition guard :: "bool \<Rightarrow> 'e \<Rightarrow> 'e + unit" where
  "guard c e = (if c then Inr () else Inl e)"

lemma guard_eq_Inr [simp, bind_iff]: "guard c e = Inr u \<longleftrightarrow> c"
  by (auto simp: guard_def)

lemma guard_eq_Inl [simp, bind_iff]: "guard c e = Inl e' \<longleftrightarrow> \<not> c \<and> e' = e"
  by (auto simp: guard_def)

lemma ebind_guard [simp]: "ebind (guard c e) f = (if c then f () else Inl e)"
  by (simp add: guard_def)

definition is_ok :: "'e + 'a \<Rightarrow> bool" where
  "is_ok m = (case m of Inl _ \<Rightarrow> False | Inr _ \<Rightarrow> True)"

lemma is_ok_simps [simp]: "is_ok (Inr v)" "\<not> is_ok (Inl e)"
  by (auto simp: is_ok_def)

section \<open>Loops that can throw\<close>

text \<open>\<open>for (const x of xs) s = step(x, s)\<close>.\<close>
fun efold :: "('a \<Rightarrow> 's \<Rightarrow> 'e + 's) \<Rightarrow> 'a list \<Rightarrow> 's \<Rightarrow> 'e + 's" where
  "efold f [] s = Inr s"
| "efold f (x # xs) s = ebind (f x s) (efold f xs)"

text \<open>\<open>for (const x of xs) { if (...) return err; }\<close>.\<close>
fun echeck :: "('a \<Rightarrow> 'e + unit) \<Rightarrow> 'a list \<Rightarrow> 'e + unit" where
  "echeck f [] = Inr ()"
| "echeck f (x # xs) = ebind (f x) (\<lambda>_. echeck f xs)"

text \<open>\<open>xs.map(f)\<close> with a throwing \<open>f\<close>.\<close>
fun emap :: "('a \<Rightarrow> 'e + 'b) \<Rightarrow> 'a list \<Rightarrow> 'e + 'b list" where
  "emap f [] = Inr []"
| "emap f (x # xs) = ebind (f x) (\<lambda>y. ebind (emap f xs) (\<lambda>ys. Inr (y # ys)))"

lemma efold_append: "efold f (xs @ ys) s = ebind (efold f xs s) (efold f ys)"
proof (induction xs arbitrary: s)
  case (Cons x xs)
  then show ?case by (cases "f x s") auto
qed simp

lemma echeck_eq_Inr [bind_iff]: "echeck f xs = Inr u \<longleftrightarrow> (\<forall>x\<in>set xs. f x = Inr ())"
  by (induction xs) (auto simp: bind_iff)

lemma efold_invariant:
  assumes "efold f xs s = Inr t" and "P s"
    and "\<And>x s s'. x \<in> set xs \<Longrightarrow> P s \<Longrightarrow> f x s = Inr s' \<Longrightarrow> P s'"
  shows "P t"
  using assms
proof (induction xs arbitrary: s)
  case Nil
  then show ?case by simp
next
  case (Cons x xs)
  from Cons.prems(1) obtain s1 where "f x s = Inr s1" "efold f xs s1 = Inr t"
    by (auto simp: bind_iff)
  with Cons show ?case
    by (metis list.set_intros(1) list.set_intros(2))
qed

lemma emap_total: "\<forall>x\<in>set xs. \<exists>y. f x = Inr y \<Longrightarrow> \<exists>ys. emap f xs = Inr ys"
proof (induction xs)
  case (Cons x xs)
  then obtain y ys where "f x = Inr y" "emap f xs = Inr ys" by auto
  then show ?case by simp
qed simp

lemma emap_eq_Inr_length: "emap f xs = Inr ys \<Longrightarrow> length ys = length xs"
  by (induction xs arbitrary: ys) (auto simp: bind_iff)

lemma emap_eq_Inr_nth:
  "emap f xs = Inr ys \<Longrightarrow> i < length xs \<Longrightarrow> f (xs ! i) = Inr (ys ! i)"
proof (induction xs arbitrary: ys i)
  case (Cons x xs)
  then show ?case by (cases i) (auto simp: bind_iff)
qed simp

section \<open>Numbers\<close>

definition MAX_SAFE_INTEGER :: int where
  "MAX_SAFE_INTEGER = 2 ^ 53 - 1"

text \<open>\<open>Number.isSafeInteger\<close> of an integer.\<close>
definition isSafeInteger :: "int \<Rightarrow> bool" where
  "isSafeInteger n \<longleftrightarrow> - MAX_SAFE_INTEGER \<le> n \<and> n \<le> MAX_SAFE_INTEGER"

lemma MAX_SAFE_INTEGER_val: "MAX_SAFE_INTEGER = 9007199254740991"
  by (simp add: MAX_SAFE_INTEGER_def)

lemma or_disjoint_int:
  fixes a b :: int
  assumes "0 \<le> a" "a < 2 ^ n"
  shows "a OR push_bit n b = a + 2 ^ n * b"
proof -
  have "take_bit n a = a"
    using assms by (simp add: take_bit_int_eq_self)
  then have *: "\<And>k. bit a k \<Longrightarrow> k < n"
    by (metis bit_take_bit_iff)
  have "a AND push_bit n b = 0"
    by (rule bit_eqI) (auto simp: bit_simps dest: *)
  then have "a OR push_bit n b = a + push_bit n b"
    by (simp add: disjunctive_add_eq_or)
  then show ?thesis
    by (simp add: push_bit_eq_mult mult.commute)
qed

lemma byte_of_int_inverse [simp]:
  "0 \<le> v \<Longrightarrow> v < 256 \<Longrightarrow> uint (word_of_int v :: byte) = v"
  by (simp add: uint_word_of_int take_bit_int_eq_self)

lemma byte_uint_range [simp]: "0 \<le> uint (b :: byte)" "uint b < 256" "uint b \<le> 255"
  using uint_lt2p [of b] by simp_all

text \<open>\<open>BigInt\<close> division truncates towards zero.\<close>
definition bdiv :: "int \<Rightarrow> int \<Rightarrow> int" where
  "bdiv a b = sgn a * sgn b * (\<bar>a\<bar> div \<bar>b\<bar>)"

lemma bdiv_nonneg: "0 \<le> a \<Longrightarrow> 0 \<le> b \<Longrightarrow> bdiv a b = a div b"
  by (cases "a = 0"; cases "b = 0") (simp_all add: bdiv_def)

lemma mult_div_le: "0 < (b :: int) \<Longrightarrow> a div b * b \<le> a"
  using pos_mod_sign [of b a] div_mult_mod_eq [of a b] by linarith

lemma div_mult_gt: "0 < (b :: int) \<Longrightarrow> a < (a div b + 1) * b"
proof -
  assume "0 < b"
  moreover have "(a div b + 1) * b = a div b * b + b" by (simp add: distrib_right)
  ultimately show ?thesis using pos_mod_bound [of b a] div_mult_mod_eq [of a b] by linarith
qed

lemma ceil_div_ge: "0 < (b :: int) \<Longrightarrow> a \<le> (a + b - 1) div b * b"
  using div_mult_gt [of b "a + b - 1"] by (simp add: distrib_right)

section \<open>Lists\<close>

lemma sum_list_update_int:
  fixes f :: "'a \<Rightarrow> int"
  shows "i < length xs \<Longrightarrow>
    sum_list (map f (xs[i := x])) = sum_list (map f xs) - f (xs ! i) + f x"
proof (induction xs arbitrary: i)
  case (Cons y ys)
  then show ?case by (cases i) auto
qed simp

lemma sum_list_nonneg_int:
  fixes f :: "'a \<Rightarrow> int"
  shows "(\<And>x. x \<in> set xs \<Longrightarrow> 0 \<le> f x) \<Longrightarrow> 0 \<le> sum_list (map f xs)"
  by (induction xs) auto

lemma sum_list_filter_split:
  fixes f :: "'a \<Rightarrow> int"
  shows "sum_list (map f xs) =
    sum_list (map f (filter P xs)) + sum_list (map f (filter (\<lambda>x. \<not> P x) xs))"
  by (induction xs) auto

lemma sum_list_const_int: "sum_list (map (\<lambda>_. c) xs) = int (length xs) * (c :: int)"
  by (induction xs) (auto simp: algebra_simps)

end
