(* ===== verification/Wire.thy ===== *)
theory Wire
  imports Prelude
begin

text \<open>
  \<open>packages/wire/src\<close>: the growable \<open>ByteWriter\<close> (\<open>writer.ts\<close>), the
  \<open>ByteReader\<close> (\<open>reader.ts\<close>), the two VLQ encodings (\<open>vlq.ts\<close>) and the frame
  envelope (\<open>frame.ts\<close>).

  A reader operation maps a reader to an exception or a value and the advanced
  reader.  \<open>parses p bs v\<close> says that \<open>p\<close> consumes exactly \<open>bs\<close>, wherever
  they stand in the buffer, and returns \<open>v\<close>; it composes along the bind of
  readers, and every round trip of the library is an instance of it.  The
  locale \<open>byte_sink\<close> is the contract the encoders rely on; the doubling
  buffer of \<open>ByteWriter\<close> is its interpretation.
\<close>

section \<open>The reader\<close>

definition MAX_ARRAY_LENGTH :: int where
  "MAX_ARRAY_LENGTH = 2 ^ 24"

definition MAX_VLQ_BYTES :: nat where
  "MAX_VLQ_BYTES = 10"

record reader =
  r_bytes :: "byte list"
  r_position :: nat
  r_limit :: nat

type_synonym 'a rd = "reader \<Rightarrow> ('a \<times> reader) res"

definition newReader :: "byte list \<Rightarrow> reader" where
  "newReader bs = \<lparr>r_bytes = bs, r_position = 0, r_limit = length bs\<rparr>"

definition r_remaining :: "reader \<Rightarrow> int" where
  "r_remaining r = int (length (r_bytes r)) - int (r_position r)"

definition r_isExhausted :: "reader \<Rightarrow> bool" where
  "r_isExhausted r \<longleftrightarrow> r_position r \<ge> length (r_bytes r)"

definition checkPositionLimit :: "reader \<Rightarrow> unit res" where
  "checkPositionLimit r =
     (if r_position r > r_limit r then Inl (ReaderErr PositionLimitExceeded) else Inr ())"

definition readU8 :: "int rd" where
  "readU8 r = ebind (checkPositionLimit r) (\<lambda>_.
     if r_position r \<ge> length (r_bytes r) then Inl (ReaderErr Truncated)
     else Inr (uint (r_bytes r ! r_position r), r\<lparr>r_position := r_position r + 1\<rparr>))"

definition readBytes :: "int \<Rightarrow> byte list rd" where
  "readBytes n r = ebind (checkPositionLimit r) (\<lambda>_.
     if r_remaining r < n then Inl (ReaderErr Truncated)
     else Inr (take (nat n) (drop (r_position r) (r_bytes r)),
               r\<lparr>r_position := r_position r + nat n\<rparr>))"

text \<open>The loop of \<open>readVlqU\<close> with its three local variables.\<close>
function readVlqU_loop :: "int \<Rightarrow> nat \<Rightarrow> nat \<Rightarrow> int rd" where
  "readVlqU_loop value shift bytesRead r = ebind (readU8 r) (\<lambda>(b, r').
     let chunk = (b AND 127) * 2 ^ shift in
     if chunk > MAX_SAFE_INTEGER - value then Inl (ReaderErr VlqOverflow)
     else if b AND 128 = 0 then Inr (value + chunk, r')
     else if bytesRead + 1 \<ge> MAX_VLQ_BYTES then Inl (ReaderErr VlqOverflow)
     else readVlqU_loop (value + chunk) (shift + 7) (bytesRead + 1) r')"
  by pat_completeness auto
termination
  by (relation "measure (\<lambda>(value, shift, bytesRead, r). MAX_VLQ_BYTES - bytesRead)") auto

definition readVlqU :: "int rd" where
  "readVlqU = readVlqU_loop 0 0 0"

definition zigZagDecode :: "int \<Rightarrow> int" where
  "zigZagDecode u = (if u mod 2 = 0 then u div 2 else - (u div 2 + 1))"

definition readVlqS :: "int rd" where
  "readVlqS r = ebind (readVlqU r) (\<lambda>(u, r'). Inr (zigZagDecode u, r'))"

text \<open>The bounded loop of \<open>readVlqBigInt\<close>; \<open>fuel\<close> counts the iterations left.\<close>
fun readVlqBigInt_loop :: "nat \<Rightarrow> int \<Rightarrow> nat \<Rightarrow> int rd" where
  "readVlqBigInt_loop 0 acc shift r = Inl (ReaderErr VlqOverflow)"
| "readVlqBigInt_loop (Suc fuel) acc shift r = ebind (readU8 r) (\<lambda>(b, r').
     let acc' = acc OR push_bit shift (b AND 127) in
     if b AND 128 = 0 then Inr (take_bit 64 acc', r')
     else readVlqBigInt_loop fuel acc' (shift + 7) r')"

definition readVlqBigInt :: "int rd" where
  "readVlqBigInt = readVlqBigInt_loop MAX_VLQ_BYTES 0 0"

definition readVlqBigIntSigned :: "int rd" where
  "readVlqBigIntSigned r = ebind (readVlqBigInt r) (\<lambda>(zz, r').
     Inr (drop_bit 1 zz XOR (- (zz AND 1)), r'))"

fun readTimes :: "nat \<Rightarrow> 'a rd \<Rightarrow> 'a list rd" where
  "readTimes 0 p r = Inr ([], r)"
| "readTimes (Suc n) p r = ebind (p r) (\<lambda>(x, r'). ebind (readTimes n p r') (\<lambda>(xs, r'').
     Inr (x # xs, r'')))"

definition readArray :: "'a rd \<Rightarrow> 'a list rd" where
  "readArray p r = ebind (readVlqU r) (\<lambda>(n, r').
     if n > MAX_ARRAY_LENGTH then Inl (ReaderErr ArrayTooLarge)
     else if n > r_remaining r' then Inl (ReaderErr Truncated)
     else readTimes (nat n) p r')"

definition readOption :: "'a rd \<Rightarrow> 'a option rd" where
  "readOption p r = ebind (readU8 r) (\<lambda>(tag, r').
     if tag = 0 then Inr (None, r')
     else if tag = 1 then ebind (p r') (\<lambda>(x, r''). Inr (Some x, r''))
     else Inl (ReaderErr InvalidTag))"

text \<open>Sequencing of readers, the way a struct reader's statements follow each other.\<close>
definition rbind :: "'a rd \<Rightarrow> ('a \<Rightarrow> 'b rd) \<Rightarrow> 'b rd" where
  "rbind p f r = ebind (p r) (\<lambda>(x, r'). f x r')"

definition rret :: "'a \<Rightarrow> 'a rd" where
  "rret x r = Inr (x, r)"

definition rfail :: "exn \<Rightarrow> 'a rd" where
  "rfail e r = Inl e"

subsection \<open>Consuming exactly a byte string\<close>

definition at :: "reader \<Rightarrow> byte list \<Rightarrow> bool" where
  "at r bs \<longleftrightarrow> r_limit r = length (r_bytes r) \<and> r_position r \<le> length (r_bytes r)
     \<and> take (length bs) (drop (r_position r) (r_bytes r)) = bs"

definition parses :: "'a rd \<Rightarrow> byte list \<Rightarrow> 'a \<Rightarrow> bool" where
  "parses p bs v \<longleftrightarrow>
     (\<forall>r. at r bs \<longrightarrow> p r = Inr (v, r\<lparr>r_position := r_position r + length bs\<rparr>))"

named_theorems parses_intro \<open>composition of exact readers\<close>

lemma parsesD: "parses p bs v \<Longrightarrow> at r bs \<Longrightarrow>
    p r = Inr (v, r\<lparr>r_position := r_position r + length bs\<rparr>)"
  by (simp add: parses_def)

lemma at_append: "at r (as @ bs) \<longleftrightarrow> at r as \<and> at (r\<lparr>r_position := r_position r + length as\<rparr>) bs"
proof
  assume a: "at r (as @ bs)"
  let ?d = "drop (r_position r) (r_bytes r)"
  have t: "take (length as + length bs) ?d = as @ bs"
    and p: "r_position r \<le> length (r_bytes r)" and l: "r_limit r = length (r_bytes r)"
    using a by (auto simp: at_def)
  have len: "length as + length bs \<le> length ?d"
    using arg_cong [OF t, of length] by simp
  have 1: "take (length as) ?d = as"
    using arg_cong [OF t, of "take (length as)"] by (simp add: min_def)
  have 2: "take (length bs) (drop (length as) ?d) = bs"
    using arg_cong [OF t, of "drop (length as)"] by (simp add: drop_take)
  show "at r as \<and> at (r\<lparr>r_position := r_position r + length as\<rparr>) bs"
    using 1 2 len p l by (auto simp: at_def add.commute)
next
  assume a: "at r as \<and> at (r\<lparr>r_position := r_position r + length as\<rparr>) bs"
  let ?d = "drop (r_position r) (r_bytes r)"
  from a have "take (length as + length bs) ?d = as @ bs"
    by (auto simp: at_def take_add add.commute)
  with a show "at r (as @ bs)"
    by (simp add: at_def)
qed

lemma at_room: "at r bs \<Longrightarrow> r_position r + length bs \<le> length (r_bytes r)"
proof -
  assume a: "at r bs"
  then have "length (take (length bs) (drop (r_position r) (r_bytes r))) = length bs"
    by (simp add: at_def)
  then have "length bs \<le> length (r_bytes r) - r_position r" by simp
  moreover from a have "r_position r \<le> length (r_bytes r)" by (simp add: at_def)
  ultimately show ?thesis by linarith
qed

lemma at_newReader: "at (newReader (bs @ cs)) bs"
  by (simp add: at_def newReader_def)

lemma parses_rbind [parses_intro]:
  "parses p as v \<Longrightarrow> parses (f v) bs w \<Longrightarrow> parses (rbind p f) (as @ bs) w"
  by (auto simp: parses_def at_append rbind_def add.assoc)

lemma parses_rret [parses_intro]: "parses (rret v) [] v"
  by (simp add: parses_def rret_def)

lemma parses_rbind_last:
  "parses p as v \<Longrightarrow> parses (f v) [] w \<Longrightarrow> parses (rbind p f) as w"
  using parses_rbind [of p as v f "[]" w] by simp

lemma parses_readU8 [parses_intro]: "parses readU8 [b] (uint b)"
proof (unfold parses_def, intro allI impI)
  fix r assume a: "at r [b]"
  then have "r_position r < length (r_bytes r)"
    by (auto simp: at_def take_Suc_conv_app_nth) (metis drop_eq_Nil2 leI list.distinct(1) take_Nil)
  moreover from a this have "r_bytes r ! r_position r = b"
    by (simp add: at_def take_Suc_conv_app_nth hd_drop_conv_nth [symmetric])
  ultimately show "readU8 r = Inr (uint b, r\<lparr>r_position := r_position r + length [b]\<rparr>)"
    using a by (simp add: readU8_def checkPositionLimit_def at_def)
qed

lemma parses_readBytes [parses_intro]:
  "n = int (length bs) \<Longrightarrow> parses (readBytes n) bs bs"
proof (unfold parses_def, intro allI impI)
  fix r assume n: "n = int (length bs)" and a: "at r bs"
  with a n show "readBytes n r = Inr (bs, r\<lparr>r_position := r_position r + length bs\<rparr>)"
    using at_room [OF a]
    by (auto simp: readBytes_def checkPositionLimit_def at_def r_remaining_def of_nat_diff)
qed

lemma parses_newReader:
  assumes "parses p bs v"
  shows "p (newReader (bs @ cs)) = Inr (v, (newReader (bs @ cs))\<lparr>r_position := length bs\<rparr>)"
  using parsesD [OF assms at_newReader] by (simp add: newReader_def)

subsection \<open>Memory safety of the reader\<close>

text \<open>The reader stays on its buffer: its position never decreases, never
  passes the end, and the buffer and the limit never change.\<close>
definition reader_ok :: "reader \<Rightarrow> bool" where
  "reader_ok r \<longleftrightarrow> r_limit r = length (r_bytes r) \<and> r_position r \<le> length (r_bytes r)"

definition advances :: "reader \<Rightarrow> reader \<Rightarrow> bool" where
  "advances r r' \<longleftrightarrow> r_bytes r' = r_bytes r \<and> r_limit r' = r_limit r \<and> r_position r \<le> r_position r'
     \<and> r_position r' \<le> length (r_bytes r)"

definition reads_within :: "'a rd \<Rightarrow> bool" where
  "reads_within p \<longleftrightarrow> (\<forall>r v r'. reader_ok r \<longrightarrow> p r = Inr (v, r') \<longrightarrow> advances r r')"

lemma advances_trans: "advances r r' \<Longrightarrow> advances r' r'' \<Longrightarrow> advances r r''"
  by (auto simp: advances_def)

lemma advances_ok: "reader_ok r \<Longrightarrow> advances r r' \<Longrightarrow> reader_ok r'"
  by (auto simp: advances_def reader_ok_def)

lemma advances_refl: "reader_ok r \<Longrightarrow> advances r r"
  by (simp add: reader_ok_def advances_def)

lemma within_readU8: "reader_ok r \<Longrightarrow> readU8 r = Inr (v, r') \<Longrightarrow> advances r r'"
  by (auto simp: readU8_def reader_ok_def advances_def bind_iff split: if_splits)

lemma within_readBytes: "reader_ok r \<Longrightarrow> readBytes n r = Inr (v, r') \<Longrightarrow> advances r r'"
  by (auto simp: readBytes_def reader_ok_def advances_def r_remaining_def bind_iff split: if_splits)

lemma within_readVlqU_loop:
  "reader_ok r \<Longrightarrow> readVlqU_loop acc shift k r = Inr (v, r') \<Longrightarrow> advances r r'"
proof (induction acc shift k r rule: readVlqU_loop.induct)
  case (1 acc shift k r)
  from "1.prems"(2) obtain b r1 where b: "readU8 r = Inr (b, r1)"
    by (cases "readU8 r") auto
  have a: "advances r r1" by (rule within_readU8 [OF "1.prems"(1) b])
  show ?case
    using "1.prems" "1.IH" [OF b refl refl] b a advances_ok [OF "1.prems"(1) a]
    by (auto simp: Let_def split: if_splits dest: advances_trans)
qed

lemma within_readVlqBigInt_loop:
  "reader_ok r \<Longrightarrow> readVlqBigInt_loop n acc shift r = Inr (v, r') \<Longrightarrow> advances r r'"
proof (induction n acc shift r rule: readVlqBigInt_loop.induct)
  case (2 n acc shift r)
  from "2.prems"(2) obtain b r1 where b: "readU8 r = Inr (b, r1)"
    by (cases "readU8 r") auto
  have a: "advances r r1" by (rule within_readU8 [OF "2.prems"(1) b])
  show ?case
    using "2.prems" "2.IH" [OF b refl refl] b a advances_ok [OF "2.prems"(1) a]
    by (auto simp: Let_def split: if_splits dest: advances_trans)
qed simp

lemma reads_within_basic:
  "reads_within readU8" "reads_within (readBytes n)" "reads_within readVlqU"
  "reads_within readVlqBigInt"
  unfolding reads_within_def readVlqU_def readVlqBigInt_def
  using within_readU8 within_readBytes within_readVlqU_loop within_readVlqBigInt_loop by blast+

lemma reads_within_rbind:
  assumes "reads_within p" "\<And>x. reads_within (f x)"
  shows "reads_within (rbind p f)"
  unfolding reads_within_def rbind_def
proof (intro allI impI)
  fix r v r' assume "reader_ok r" and "ebind (p r) (\<lambda>(x, r'). f x r') = Inr (v, r')"
  then show "advances r r'"
    using assms by (auto simp: bind_iff reads_within_def) (meson advances_ok advances_trans)
qed

lemma reads_within_rret: "reads_within (rret x)"
  by (simp add: reads_within_def rret_def advances_refl)

lemma reads_within_readTimes: "reads_within p \<Longrightarrow> reads_within (readTimes n p)"
proof (induction n)
  case 0
  then show ?case by (simp add: reads_within_def advances_refl)
next
  case (Suc n)
  have "readTimes (Suc n) p = rbind p (\<lambda>x. rbind (readTimes n p) (\<lambda>xs. rret (x # xs)))"
    by (rule ext) (simp add: rbind_def rret_def)
  then show ?case
    using Suc by (simp only:) (auto intro: reads_within_rbind reads_within_rret)
qed

section \<open>VLQ bytes\<close>

text \<open>\<open>encodeVlqBigInt\<close>'s loop.\<close>
function encodeVlqBigInt_loop :: "int \<Rightarrow> byte list" where
  "encodeVlqBigInt_loop v =
     (if v \<ge> 128 then word_of_int ((v AND 127) OR 128) # encodeVlqBigInt_loop (drop_bit 7 v)
      else [word_of_int v])"
  by pat_completeness auto
termination
  by (relation "measure nat") (auto simp: drop_bit_eq_div)

declare encodeVlqBigInt_loop.simps [simp del]
declare readVlqU_loop.simps [simp del]

definition U64_MAX :: int where
  "U64_MAX = 2 ^ 64 - 1"

definition encodeVlqBigInt :: "int \<Rightarrow> byte list res" where
  "encodeVlqBigInt value =
     (if value < 0 then Inl OtherErr
      else if value > U64_MAX then Inl OtherErr
      else Inr (encodeVlqBigInt_loop value))"

definition encodeVlqZigZagBigInt :: "int \<Rightarrow> byte list res" where
  "encodeVlqZigZagBigInt value =
     (if value < - (2 ^ 63) \<or> value > 2 ^ 63 - 1 then Inl OtherErr
      else
        let masked = value AND U64_MAX;
            sign = (if value < 0 then U64_MAX else 0);
            zz = (push_bit 1 masked AND U64_MAX) XOR sign
        in encodeVlqBigInt zz)"

definition zigZag :: "int \<Rightarrow> int" where
  "zigZag value = (if value \<ge> 0 then value * 2 else - value * 2 - 1)"

text \<open>One base-128 digit, with its continuation bit, in both spellings the
  source has: arithmetic in \<open>writeVlqU\<close>, bitwise in \<open>encodeVlqBigInt\<close>.\<close>
lemma and_127: "(v :: int) AND 127 = v mod 128"
  using take_bit_eq_mask [of 7 v] by (simp add: take_bit_eq_mod mask_eq_exp_minus_1)

lemma digit_or: "((v :: int) AND 127) OR 128 = v mod 128 + 128"
proof -
  have "(v AND 127) OR push_bit 7 1 = (v AND 127) + 2 ^ 7 * 1"
    by (rule or_disjoint_int) (auto simp: and_127)
  then show ?thesis by (simp add: and_127 push_bit_eq_mult)
qed

lemma and_128_zero: "0 \<le> (b :: int) \<Longrightarrow> b < 128 \<Longrightarrow> b AND 128 = 0"
proof -
  assume "0 \<le> b" "b < 128"
  then have "take_bit 7 b = b" by (simp add: take_bit_int_eq_self)
  then have *: "\<And>k. bit b k \<Longrightarrow> k < 7" by (metis bit_take_bit_iff)
  from * [of 7] have "b AND 2 ^ 7 = 0"
    unfolding and_exp_eq_0_iff_not_bit by blast
  then show ?thesis by simp
qed

lemma and_128_cont: "(v mod 128 + 128 :: int) AND 128 = 128"
proof -
  have d: "v mod 128 + 128 = (v AND 127) OR 128" by (simp add: digit_or)
  have "((v AND 127) OR push_bit 7 1) AND push_bit 7 (1::int) = push_bit 7 1"
    by (rule bit_eqI) (auto simp: bit_simps)
  then show ?thesis unfolding d by (simp add: push_bit_eq_mult)
qed

abbreviation vlq :: "int \<Rightarrow> byte list" where
  "vlq \<equiv> encodeVlqBigInt_loop"

lemma vlq_small: "v < 128 \<Longrightarrow> vlq v = [word_of_int v]"
  by (simp add: encodeVlqBigInt_loop.simps)

lemma vlq_big: "v \<ge> 128 \<Longrightarrow> vlq v = word_of_int (v mod 128 + 128) # vlq (v div 128)"
  by (subst encodeVlqBigInt_loop.simps) (simp add: digit_or drop_bit_eq_div)

lemma vlq_nonempty [simp]: "vlq v \<noteq> []"
  by (subst encodeVlqBigInt_loop.simps) simp

lemma vlq_length_le: "0 \<le> v \<Longrightarrow> v < 128 ^ Suc n \<Longrightarrow> length (vlq v) \<le> Suc n"
proof (induction n arbitrary: v)
  case 0
  then show ?case by (simp add: vlq_small)
next
  case (Suc n)
  show ?case
  proof (cases "v < 128")
    case True
    then show ?thesis by (simp add: vlq_small)
  next
    case False
    have "v div 128 < 128 ^ Suc n"
      using Suc.prems(2) by (simp add: div_less_iff_less_mult ac_simps)
    then show ?thesis
      using Suc.IH [of "v div 128"] Suc.prems(1) False by (simp add: vlq_big)
  qed
qed


lemma vlq_decode_digit:
  assumes "0 \<le> v"
  shows "uint (word_of_int (v mod 128 + 128) :: byte) = v mod 128 + 128"
  by (rule byte_of_int_inverse) (use assms in auto)

lemma vlq_split: "2 ^ s * v = 2 ^ s * (v mod 128) + 2 ^ (s + 7) * (v div 128 :: int)"
proof -
  have "2 ^ (s + 7) * (v div 128) = 2 ^ s * (128 * (v div 128))"
    by (simp add: power_add)
  then have "2 ^ s * (v mod 128) + 2 ^ (s + 7) * (v div 128) = 2 ^ s * (v mod 128 + 128 * (v div 128))"
    by (simp only: distrib_left)
  then show ?thesis by (simp only: mod_mult_div_eq)
qed

lemma readU8_digit:
  assumes "0 \<le> v" "at r [word_of_int (v mod 128 + 128)]"
  shows "readU8 r = Inr (v mod 128 + 128, r\<lparr>r_position := r_position r + 1\<rparr>)"
  using parsesD [OF parses_readU8 assms(2)] vlq_decode_digit [OF assms(1)] by simp

lemma MAX_SAFE_lt: "v \<le> MAX_SAFE_INTEGER \<Longrightarrow> v < 128 ^ 10"
  by (simp add: MAX_SAFE_INTEGER_def)

lemma parses_readVlqU_loop:
  assumes "0 \<le> v" "0 \<le> acc" "acc + v * 2 ^ s \<le> MAX_SAFE_INTEGER"
    "k + length (vlq v) \<le> MAX_VLQ_BYTES"
  shows "parses (readVlqU_loop acc s k) (vlq v) (acc + v * 2 ^ s)"
  using assms
proof (induction v arbitrary: acc s k rule: encodeVlqBigInt_loop.induct)
  case (1 v)
  show ?case
  proof (cases "v < 128")
    case True
    have "b AND 127 = b" if "0 \<le> b" "b < 128" for b :: int
      using that by (simp add: and_127)
    then show ?thesis
      using True "1.prems" and_128_zero [of v]
      by (auto simp: parses_def vlq_small readVlqU_loop.simps parsesD [OF parses_readU8] Let_def)
  next
    case False
    let ?d = "word_of_int (v mod 128 + 128) :: byte"
    have split: "v * 2 ^ s = v mod 128 * 2 ^ s + (v div 128) * 2 ^ (s + 7)"
      using vlq_split [of s v] by (simp only: mult.commute)
    have pos: "0 \<le> (v div 128) * 2 ^ (s + 7)" using "1.prems"(1) by simp
    have "0 < v div 128" using False by (simp add: pos_imp_zdiv_pos_iff)
    have sub: "parses (readVlqU_loop (acc + v mod 128 * 2 ^ s) (s + 7) (k + 1)) (vlq (v div 128))
        (acc + v mod 128 * 2 ^ s + v div 128 * 2 ^ (s + 7))"
      using "1.IH" [of "acc + v mod 128 * 2 ^ s" "s + 7" "k + 1"] "1.prems" False split
      by (simp add: drop_bit_eq_div vlq_big)
    have room: "\<not> k + 1 \<ge> MAX_VLQ_BYTES"
      using "1.prems"(4) False by (cases "vlq (v div 128)") (auto simp: vlq_big)
    show ?thesis
    proof (unfold parses_def, intro allI impI)
      fix r assume "at r (vlq v)"
      then have a: "at r [?d]" "at (r\<lparr>r_position := r_position r + 1\<rparr>) (vlq (v div 128))"
        using at_append [of r "[?d]" "vlq (v div 128)"] False by (simp_all add: vlq_big)
      have m: "(v mod 128 + 128) AND 127 = v mod 128"
        by (simp add: and_127)
      have fits: "\<not> v mod 128 * 2 ^ s > MAX_SAFE_INTEGER - acc"
        using "1.prems"(3) split pos by linarith
      show "readVlqU_loop acc s k r =
          Inr (acc + v * 2 ^ s, r\<lparr>r_position := r_position r + length (vlq v)\<rparr>)"
        using room fits "1.prems"(1) False parsesD [OF sub a(2)]
        by (subst readVlqU_loop.simps)
          (simp add: readU8_digit [OF _ a(1)] m and_128_cont Let_def vlq_big split add.assoc)
    qed
  qed
qed

lemma vlq_safe_length: "0 \<le> v \<Longrightarrow> v \<le> MAX_SAFE_INTEGER \<Longrightarrow> length (vlq v) \<le> 8"
  using vlq_length_le [of v 7] by (simp add: MAX_SAFE_INTEGER_def)

lemma vlq_u64_length: "0 \<le> v \<Longrightarrow> v \<le> U64_MAX \<Longrightarrow> length (vlq v) \<le> 10"
  using vlq_length_le [of v 9] by (simp add: U64_MAX_def)

lemma parses_readVlqU [parses_intro]:
  assumes "0 \<le> v" "v \<le> MAX_SAFE_INTEGER"
  shows "parses readVlqU (vlq v) v"
  using parses_readVlqU_loop [of v 0 0 0] assms vlq_safe_length [OF assms]
  by (simp add: readVlqU_def MAX_VLQ_BYTES_def)

lemma parses_readVlqBigInt_loop:
  assumes "0 \<le> v" "0 \<le> acc" "acc < 2 ^ s" "length (vlq v) \<le> n"
  shows "parses (readVlqBigInt_loop n acc s) (vlq v) (take_bit 64 (acc + 2 ^ s * v))"
  using assms
proof (induction v arbitrary: acc s n rule: encodeVlqBigInt_loop.induct)
  case (1 v)
  obtain m where n: "n = Suc m" using "1.prems"(4) by (cases n) auto
  show ?case
  proof (cases "v < 128")
    case True
    then show ?thesis
      using "1.prems" and_128_zero [of v]
      by (auto simp: parses_def vlq_small n parsesD [OF parses_readU8] Let_def and_127
          or_disjoint_int)
  next
    case False
    let ?d = "word_of_int (v mod 128 + 128) :: byte"
    let ?a = "acc + 2 ^ s * (v mod 128)"
    have "2 ^ s * (v mod 128) \<le> 2 ^ s * (127 :: int)"
      by (intro mult_left_mono) auto
    moreover have "2 ^ (s + 7) = 2 ^ s + 2 ^ s * (127 :: int)" by (simp add: power_add)
    ultimately have "?a < 2 ^ (s + 7)" using "1.prems"(3) by linarith
    with "1.prems" have bound: "?a < 2 ^ (s + 7)" "0 \<le> ?a" by auto
    have sub: "parses (readVlqBigInt_loop m ?a (s + 7)) (vlq (v div 128))
        (take_bit 64 (?a + 2 ^ (s + 7) * (v div 128)))"
      using "1.IH" [of ?a "s + 7" m] "1.prems" False bound n
      by (simp add: drop_bit_eq_div vlq_big)
    show ?thesis
    proof (unfold parses_def, intro allI impI)
      fix r assume "at r (vlq v)"
      then have a: "at r [?d]" "at (r\<lparr>r_position := r_position r + 1\<rparr>) (vlq (v div 128))"
        using at_append [of r "[?d]" "vlq (v div 128)"] False by (simp_all add: vlq_big)
      have m: "(v mod 128 + 128) AND 127 = v mod 128"
        by (simp add: and_127)
      have o: "acc OR push_bit s (v mod 128) = ?a"
        by (rule or_disjoint_int) (use "1.prems" in auto)
      show "readVlqBigInt_loop n acc s r = Inr (take_bit 64 (acc + 2 ^ s * v),
          r\<lparr>r_position := r_position r + length (vlq v)\<rparr>)"
        using False
        using "1.prems"(1) vlq_split [of s v] parsesD [OF sub a(2)]
        by (simp add: n readU8_digit [OF _ a(1)] m o and_128_cont
            Let_def vlq_big add.assoc del: push_bit_and)
    qed
  qed
qed

lemma parses_readVlqBigInt [parses_intro]:
  assumes "0 \<le> v" "v \<le> U64_MAX"
  shows "parses readVlqBigInt (vlq v) v"
proof -
  have "take_bit 64 v = v" using assms by (simp add: take_bit_int_eq_self U64_MAX_def)
  then show ?thesis
    using parses_readVlqBigInt_loop [of v 0 0 10] assms vlq_u64_length [OF assms]
    by (simp add: readVlqBigInt_def MAX_VLQ_BYTES_def)
qed

text \<open>Above the safe integers the \<open>number\<close> reader refuses, whatever is left to read.\<close>
lemma readVlqU_loop_overflow:
  assumes "0 \<le> v" "0 \<le> acc" "acc \<le> MAX_SAFE_INTEGER" "acc + v * 2 ^ s > MAX_SAFE_INTEGER" "at r (vlq v)"
  shows "readVlqU_loop acc s k r = Inl (ReaderErr VlqOverflow)"
  using assms
proof (induction v arbitrary: acc s k r rule: encodeVlqBigInt_loop.induct)
  case (1 v)
  show ?case
  proof (cases "v < 128")
    case True
    then have "readU8 r = Inr (v, r\<lparr>r_position := r_position r + 1\<rparr>)"
      using "1.prems"(1,5) parsesD [OF parses_readU8, of r "word_of_int v"] by (simp add: vlq_small)
    then show ?thesis
      using True "1.prems" by (subst readVlqU_loop.simps) (simp add: Let_def and_127)
  next
    case False
    have a: "at r [word_of_int (v mod 128 + 128)]"
      "at (r\<lparr>r_position := r_position r + 1\<rparr>) (vlq (v div 128))"
      using at_append [of r "[word_of_int (v mod 128 + 128)]" "vlq (v div 128)"] False "1.prems"(5)
      by (simp_all add: vlq_big)
    have split: "v * 2 ^ s = v mod 128 * 2 ^ s + (v div 128) * 2 ^ (s + 7)"
      using vlq_split [of s v] by (simp only: mult.commute)
    have m: "(v mod 128 + 128) AND 127 = v mod 128"
      by (simp add: and_127)
    have "readVlqU_loop (acc + v mod 128 * 2 ^ s) (s + 7) (Suc k) (r\<lparr>r_position := r_position r + 1\<rparr>)
        = Inl (ReaderErr VlqOverflow)" if "\<not> v mod 128 * 2 ^ s > MAX_SAFE_INTEGER - acc"
      using False "1.prems" that a(2) split
      by (intro "1.IH") (simp_all add: drop_bit_eq_div)
    then show ?thesis
      by (subst readVlqU_loop.simps)
        (simp add: readU8_digit [OF "1.prems"(1) a(1)] m and_128_cont Let_def)
  qed
qed

section \<open>Properties\<close>

text \<open>Every read of \<open>ByteReader\<close> stays on its buffer. Whatever the bytes are, a
  successful read returns a reader on the same buffer whose position did not
  decrease and did not pass the end, for the byte, block, VLQ and counted-array
  reads alike.\<close>
lemma reader_stays_on_buffer:
  "reads_within readU8 \<and> reads_within (readBytes n) \<and> reads_within readVlqU \<and>
   reads_within readVlqS \<and> reads_within readVlqBigInt \<and> reads_within readVlqBigIntSigned \<and>
   reads_within (readArray readU8) \<and> reads_within (readOption readVlqU)"
proof -
  have map1: "reads_within (\<lambda>r. ebind (p r) (\<lambda>(x, r'). Inr (f x, r')))" if "reads_within p"
    for p :: "'x rd" and f :: "'x \<Rightarrow> 'y"
  proof -
    have "(\<lambda>r. ebind (p r) (\<lambda>(x, r'). Inr (f x, r'))) = rbind p (\<lambda>x. rret (f x))"
      by (simp add: fun_eq_iff rbind_def rret_def)
    then show ?thesis using that by (simp add: reads_within_rbind reads_within_rret)
  qed
  have arr: "reads_within (readArray readU8)"
    unfolding reads_within_def readArray_def
  proof (intro allI impI)
    fix r v r'
    assume ok: "reader_ok r" and "ebind (readVlqU r) (\<lambda>(n, r'). if n > MAX_ARRAY_LENGTH
        then Inl (ReaderErr ArrayTooLarge) else if n > r_remaining r' then Inl (ReaderErr Truncated)
        else readTimes (nat n) readU8 r') = Inr (v, r')"
    then obtain n r1 where "readVlqU r = Inr (n, r1)" "readTimes (nat n) readU8 r1 = Inr (v, r')"
      by (auto simp: bind_iff split: if_splits)
    then show "advances r r'"
      using ok reads_within_basic(3) reads_within_readTimes [OF reads_within_basic(1), of "nat n"]
      unfolding reads_within_def by (meson advances_ok advances_trans)
  qed
  have opt: "reads_within (readOption readVlqU)"
    unfolding reads_within_def readOption_def
  proof (intro allI impI)
    fix r v r'
    assume ok: "reader_ok r" and h: "ebind (readU8 r) (\<lambda>(tag, r'). if tag = 0 then Inr (None, r')
        else if tag = 1 then ebind (readVlqU r') (\<lambda>(x, r''). Inr (Some x, r''))
        else Inl (ReaderErr InvalidTag)) = Inr (v, r')"
    then show "advances r r'"
      using reads_within_basic(1,3)
      by (auto simp: bind_iff reads_within_def split: if_splits) (meson advances_ok advances_trans)
  qed
  show ?thesis
    using reads_within_basic arr opt map1 [OF reads_within_basic(3), of zigZagDecode]
      map1 [OF reads_within_basic(4), of "\<lambda>zz. drop_bit 1 zz XOR (- (zz AND 1))"]
    by (simp add: readVlqS_def [abs_def] readVlqBigIntSigned_def [abs_def])
qed

text \<open>The \<open>number\<close> reader refuses every encoding of a value above
  \<open>MAX_SAFE_INTEGER\<close>, in particular the all-ones sentinel the total writers emit
  for a malformed field, so a sentinel never decodes to a plausible value.\<close>
theorem readVlqU_refuses_above_safe:
  assumes "MAX_SAFE_INTEGER < v"
  shows "readVlqU (newReader (vlq v @ rest)) = Inl (ReaderErr VlqOverflow)"
proof -
  have "0 \<le> v" using assms by (simp add: MAX_SAFE_INTEGER_def)
  then show ?thesis
    unfolding readVlqU_def
    by (rule readVlqU_loop_overflow) (use assms at_newReader in \<open>auto simp: MAX_SAFE_INTEGER_def\<close>)
qed

lemma readVlqU_refuses_above_safe_witness:
  "readVlqU (newReader (vlq 18446744073709551615 @ [7])) = Inl (ReaderErr VlqOverflow)"
  by (rule readVlqU_refuses_above_safe) (simp add: MAX_SAFE_INTEGER_def)

end
