(* ===== verification/Writer.thy ===== *)
theory Writer
  imports Wire
begin

text \<open>
  \<open>packages/wire/src/writer.ts\<close>, the encoders of \<open>vlq.ts\<close> that go through it and
  the frame envelope of \<open>frame.ts\<close>.  The writer is one buffer, doubled when a write
  would overrun it.  The locale \<open>byte_sink\<close> states what an encoder relies
  on: a byte goes to the end or the call throws, and a block goes to the end.
  It is interpreted on the buffer, so that every encoder above this theory may
  be described by the bytes it appends.
\<close>

section \<open>The contract of a byte sink\<close>

definition appends :: "('s \<Rightarrow> bool) \<Rightarrow> ('s \<Rightarrow> byte list) \<Rightarrow> ('s \<Rightarrow> 's res) \<Rightarrow> byte list \<Rightarrow> bool" where
  "appends good content oper bs \<longleftrightarrow>
     (\<forall>s. good s \<longrightarrow> (\<exists>s'. oper s = Inr s' \<and> good s' \<and> content s' = content s @ bs))"

locale byte_sink =
  fixes put :: "int \<Rightarrow> 's \<Rightarrow> 's res"
    and block :: "byte list \<Rightarrow> 's \<Rightarrow> 's"
    and content :: "'s \<Rightarrow> byte list"
    and good :: "'s \<Rightarrow> bool"
  assumes put_range: "\<not> (0 \<le> b \<and> b \<le> 255) \<Longrightarrow> put b s = Inl OtherErr"
    and put_ok: "0 \<le> b \<Longrightarrow> b \<le> 255 \<Longrightarrow> good s \<Longrightarrow>
      \<exists>s'. put b s = Inr s' \<and> good s' \<and> content s' = content s @ [word_of_int b]"
    and block_inv: "good s \<Longrightarrow> good (block bs s)"
    and block_content: "good s \<Longrightarrow> content (block bs s) = content s @ bs"
begin

lemma appends_put: "0 \<le> b \<Longrightarrow> b \<le> 255 \<Longrightarrow> appends good content (put b) [word_of_int b]"
  using put_ok by (simp add: appends_def)

lemma appends_block: "appends good content (\<lambda>s. Inr (block bs s)) bs"
  by (simp add: appends_def block_inv block_content)

lemma appends_seq:
  "appends good content f as \<Longrightarrow> appends good content g bs \<Longrightarrow>
    appends good content (\<lambda>s. ebind (f s) g) (as @ bs)"
  by (force simp: appends_def)

lemma appends_nil: "appends good content Inr []"
  by (simp add: appends_def)

lemma appends_each:
  "(\<And>x. x \<in> set xs \<Longrightarrow> appends good content (f x) (enc x)) \<Longrightarrow>
    appends good content (efold f xs) (concat (map enc xs))"
proof (induction xs)
  case Nil
  then show ?case by (simp add: appends_def)
next
  case (Cons x xs)
  then have "appends good content (\<lambda>s. ebind (f x s) (efold f xs)) (enc x @ concat (map enc xs))"
    by (intro appends_seq) simp_all
  then show ?case by (simp add: appends_def)
qed

lemma bytewise_block:
  assumes "good s"
  shows "\<exists>s'. efold put (map uint bs) s = Inr s' \<and> good s' \<and> content s' = content (block bs s)"
proof -
  have "appends good content (efold put (map uint bs)) (concat (map (\<lambda>b. [word_of_int b]) (map uint bs)))"
    by (rule appends_each) (auto intro: appends_put)
  moreover have "concat (map (\<lambda>b. [word_of_int b :: byte]) (map uint bs)) = bs"
    by (induction bs) auto
  ultimately show ?thesis
    using assms by (auto simp: appends_def block_content)
qed

end

section \<open>The growable buffer\<close>

record writer =
  w_buffer :: "byte list"
  w_length :: nat

definition newWriter :: writer where
  "newWriter = \<lparr>w_buffer = replicate 64 0, w_length = 0\<rparr>"

text \<open>\<open>TypedArray.prototype.set\<close>: overwrite from an offset.\<close>
definition set_at :: "byte list \<Rightarrow> byte list \<Rightarrow> nat \<Rightarrow> byte list" where
  "set_at buf bs off = take off buf @ bs @ drop (off + length bs) buf"

definition reserve :: "nat \<Rightarrow> writer \<Rightarrow> writer" where
  "reserve extra w =
     (let needed = w_length w + extra in
      if needed \<le> length (w_buffer w) then w
      else
        let grown = replicate (max (length (w_buffer w) * 2) needed) 0
        in w\<lparr>w_buffer := set_at grown (take (w_length w) (w_buffer w)) 0\<rparr>)"

definition w_writeU8 :: "int \<Rightarrow> writer \<Rightarrow> writer res" where
  "w_writeU8 b w =
     (if b < 0 \<or> b > 255 then Inl OtherErr
      else
        let w1 = reserve 1 w in
        Inr (w1\<lparr>w_buffer := (w_buffer w1)[w_length w1 := word_of_int b],
               w_length := w_length w1 + 1\<rparr>))"

definition w_writeBytes :: "byte list \<Rightarrow> writer \<Rightarrow> writer" where
  "w_writeBytes bs w =
     (let w1 = reserve (length bs) w in
      w1\<lparr>w_buffer := set_at (w_buffer w1) bs (w_length w1), w_length := w_length w1 + length bs\<rparr>)"

definition toBytes :: "writer \<Rightarrow> byte list" where
  "toBytes w = take (w_length w) (w_buffer w)"

definition writer_ok :: "writer \<Rightarrow> bool" where
  "writer_ok w \<longleftrightarrow> w_length w \<le> length (w_buffer w) \<and> 64 \<le> length (w_buffer w)
     \<and> length (w_buffer w) \<le> max 64 (2 * w_length w)"

lemma newWriter_ok: "writer_ok newWriter" "toBytes newWriter = []"
  by (simp_all add: writer_ok_def newWriter_def toBytes_def)

lemma reserve_facts:
  assumes "w_length w \<le> length (w_buffer w)"
  shows "w_length (reserve n w) = w_length w"
    and "take (w_length w) (w_buffer (reserve n w)) = take (w_length w) (w_buffer w)"
    and "w_length w + n \<le> length (w_buffer (reserve n w))"
    and "length (w_buffer (reserve n w)) =
      (if w_length w + n \<le> length (w_buffer w) then length (w_buffer w)
       else max (length (w_buffer w) * 2) (w_length w + n))"
  using assms by (auto simp: reserve_def Let_def set_at_def)

lemma writer_block:
  assumes "writer_ok w"
  shows "writer_ok (w_writeBytes bs w)" "toBytes (w_writeBytes bs w) = toBytes w @ bs"
proof -
  let ?w = "reserve (length bs) w"
  have ok: "w_length w \<le> length (w_buffer w)" using assms by (simp add: writer_ok_def)
  note r = reserve_facts [OF ok, of "length bs"]
  show "writer_ok (w_writeBytes bs w)"
    using assms r by (cases bs; auto simp: writer_ok_def w_writeBytes_def Let_def set_at_def
        min_def max_def split: if_splits)
  have "length (take (w_length w) (w_buffer ?w)) = w_length w" using ok r(3) by simp
  then show "toBytes (w_writeBytes bs w) = toBytes w @ bs"
    using r by (simp add: w_writeBytes_def Let_def set_at_def toBytes_def)
qed

lemma take_Suc_update: "n < length xs \<Longrightarrow> take (Suc n) (xs[n := x]) = take n xs @ [x]"
  by (simp add: take_Suc_conv_app_nth)

lemma writer_put:
  assumes "writer_ok w" "0 \<le> b" "b \<le> 255"
  shows "\<exists>w'. w_writeU8 b w = Inr w' \<and> writer_ok w' \<and> toBytes w' = toBytes w @ [word_of_int b]"
  using assms reserve_facts [of w 1]
  by (auto simp: writer_ok_def w_writeU8_def Let_def toBytes_def take_Suc_update)

interpretation bw: byte_sink w_writeU8 w_writeBytes toBytes writer_ok
proof unfold_locales
  show "\<not> (0 \<le> b \<and> b \<le> 255) \<Longrightarrow> w_writeU8 b s = Inl OtherErr" for b s
    by (auto simp: w_writeU8_def)
qed (use writer_put writer_block in auto)

section \<open>The writer's VLQ operations\<close>

function w_writeVlqU_loop :: "int \<Rightarrow> writer \<Rightarrow> writer res" where
  "w_writeVlqU_loop v w =
     (if v \<ge> 128 then ebind (w_writeU8 (v mod 128 + 128) w) (w_writeVlqU_loop (v div 128))
      else w_writeU8 v w)"
  by pat_completeness auto
termination
  by (relation "measure (\<lambda>(v, w). nat v)") auto

declare w_writeVlqU_loop.simps [simp del]

definition w_writeVlqU :: "int \<Rightarrow> writer \<Rightarrow> writer res" where
  "w_writeVlqU v w =
     (if v < 0 then Inl OtherErr
      else if v > MAX_SAFE_INTEGER then Inl OtherErr
      else w_writeVlqU_loop v w)"

definition w_writeVlqS :: "int \<Rightarrow> writer \<Rightarrow> writer res" where
  "w_writeVlqS v = w_writeVlqU (zigZag v)"

definition w_writeVlqBigInt :: "int \<Rightarrow> writer \<Rightarrow> writer res" where
  "w_writeVlqBigInt v w = ebind (encodeVlqBigInt v) (\<lambda>bs. Inr (w_writeBytes bs w))"

definition w_writeVlqBigIntSigned :: "int \<Rightarrow> writer \<Rightarrow> writer res" where
  "w_writeVlqBigIntSigned v w = ebind (encodeVlqZigZagBigInt v) (\<lambda>bs. Inr (w_writeBytes bs w))"

definition w_writeArray :: "'a list \<Rightarrow> ('a \<Rightarrow> writer \<Rightarrow> writer res) \<Rightarrow> writer \<Rightarrow> writer res" where
  "w_writeArray items f w = ebind (w_writeVlqU (int (length items)) w) (efold f items)"

definition w_writeOption :: "'a option \<Rightarrow> ('a \<Rightarrow> writer \<Rightarrow> writer res) \<Rightarrow> writer \<Rightarrow> writer res" where
  "w_writeOption x f w =
     (case x of None \<Rightarrow> w_writeU8 0 w | Some y \<Rightarrow> ebind (w_writeU8 1 w) (f y))"

definition encodeVlqU :: "int \<Rightarrow> byte list res" where
  "encodeVlqU v =
     (if v < 0 then Inl OtherErr
      else if v > MAX_SAFE_INTEGER then Inl OtherErr
      else ebind (w_writeVlqU v newWriter) (\<lambda>w. Inr (toBytes w)))"

definition encodeVlqZigZag :: "int \<Rightarrow> byte list res" where
  "encodeVlqZigZag v = encodeVlqU (zigZag v)"

abbreviation w_appends :: "(writer \<Rightarrow> writer res) \<Rightarrow> byte list \<Rightarrow> bool" where
  "w_appends \<equiv> appends writer_ok toBytes"

lemma w_appends_loop: "0 \<le> v \<Longrightarrow> w_appends (w_writeVlqU_loop v) (vlq v)"
proof (induction v rule: encodeVlqBigInt_loop.induct)
  case (1 v)
  show ?case
  proof (cases "v < 128")
    case True
    then have "w_writeVlqU_loop v = w_writeU8 v"
      by (intro ext) (simp add: w_writeVlqU_loop.simps)
    with True "1.prems" show ?thesis
      using bw.appends_put [of v] by (simp add: vlq_small)
  next
    case False
    have eq: "w_writeVlqU_loop v = (\<lambda>w. ebind (w_writeU8 (v mod 128 + 128) w) (w_writeVlqU_loop (v div 128)))"
      using False by (intro ext) (subst w_writeVlqU_loop.simps, simp)
    have range: "0 \<le> v mod 128 + 128" "v mod 128 + 128 \<le> 255"
      using pos_mod_bound [of 128 v] by (simp_all del: pos_mod_bound)
    have "w_appends (w_writeVlqU_loop (v div 128)) (vlq (v div 128))"
      using "1.IH" "1.prems" False by (simp add: drop_bit_eq_div)
    from bw.appends_seq [OF bw.appends_put [OF range] this] False
    show ?thesis by (simp add: eq vlq_big)
  qed
qed

lemma w_appends_vlqU: "0 \<le> v \<Longrightarrow> v \<le> MAX_SAFE_INTEGER \<Longrightarrow> w_appends (w_writeVlqU v) (vlq v)"
  using w_appends_loop [of v] by (auto simp: appends_def w_writeVlqU_def)

lemma w_appends_vlqBigInt: "0 \<le> v \<Longrightarrow> v \<le> U64_MAX \<Longrightarrow> w_appends (w_writeVlqBigInt v) (vlq v)"
  using bw.appends_block [of "vlq v"]
  by (auto simp: appends_def w_writeVlqBigInt_def encodeVlqBigInt_def)

lemma w_appends_array:
  assumes "int (length xs) \<le> MAX_SAFE_INTEGER"
    and "\<And>x. x \<in> set xs \<Longrightarrow> w_appends (f x) (enc x)"
  shows "w_appends (w_writeArray xs f) (vlq (int (length xs)) @ concat (map enc xs))"
  using bw.appends_seq [OF w_appends_vlqU [of "int (length xs)"] bw.appends_each [of xs f enc]] assms
  by (simp add: appends_def w_writeArray_def)

lemma w_appends_option:
  assumes "\<And>y. x = Some y \<Longrightarrow> w_appends (f y) (enc y)"
  shows "w_appends (w_writeOption x f) (case x of None \<Rightarrow> [0] | Some y \<Rightarrow> 1 # enc y)"
proof (cases x)
  case None
  then show ?thesis using bw.appends_put [of 0] by (simp add: appends_def w_writeOption_def)
next
  case (Some y)
  then show ?thesis
    using bw.appends_seq [OF bw.appends_put [of 1] assms [OF Some]]
    by (simp add: appends_def w_writeOption_def)
qed

lemma encodeVlqU_bytes: "0 \<le> v \<Longrightarrow> v \<le> MAX_SAFE_INTEGER \<Longrightarrow> encodeVlqU v = Inr (vlq v)"
  using w_appends_vlqU [of v] newWriter_ok by (force simp: encodeVlqU_def appends_def)

section \<open>ZigZag\<close>

lemma zigZagDecode_zigZag: "zigZagDecode (zigZag v) = v"
  by (simp add: zigZagDecode_def zigZag_def) presburger

lemma zigZag_nonneg: "0 \<le> zigZag v"
  by (simp add: zigZag_def)

lemma zigZag_zigZagDecode: "0 \<le> u \<Longrightarrow> zigZag (zigZagDecode u) = u"
  by (simp add: zigZagDecode_def zigZag_def) presburger

lemma parses_readVlqS [parses_intro]:
  "zigZag v \<le> MAX_SAFE_INTEGER \<Longrightarrow> parses readVlqS (vlq (zigZag v)) v"
  using parses_readVlqU [OF zigZag_nonneg, of v]
  by (simp add: parses_def readVlqS_def zigZagDecode_zigZag)

section \<open>Counted sequences and options\<close>

lemma parses_readTimes:
  "(\<And>x. x \<in> set xs \<Longrightarrow> parses p (enc x) x) \<Longrightarrow>
    parses (readTimes (length xs) p) (concat (map enc xs)) xs"
proof (induction xs)
  case Nil
  then show ?case by (simp add: parses_def)
next
  case (Cons x xs)
  show ?case
  proof (unfold parses_def, intro allI impI)
    fix r assume "at r (concat (map enc (x # xs)))"
    then have a: "at r (enc x)" "at (r\<lparr>r_position := r_position r + length (enc x)\<rparr>) (concat (map enc xs))"
      by (simp_all add: at_append)
    have "parses p (enc x) x" "parses (readTimes (length xs) p) (concat (map enc xs)) xs"
      using Cons by simp_all
    from parsesD [OF this(1) a(1)] parsesD [OF this(2) a(2)]
    show "readTimes (length (x # xs)) p r =
        Inr (x # xs, r\<lparr>r_position := r_position r + length (concat (map enc (x # xs)))\<rparr>)"
      by (simp add: add.assoc)
  qed
qed

lemma length_concat_map_ge:
  "(\<And>x. x \<in> set xs \<Longrightarrow> enc x \<noteq> []) \<Longrightarrow> length xs \<le> length (concat (map enc xs))"
proof (induction xs)
  case (Cons x xs)
  then have "1 \<le> length (enc x)" "length xs \<le> length (concat (map enc xs))"
    by (simp_all add: Suc_le_eq)
  then show ?case by (simp del: length_greater_0_conv length_0_conv)
qed simp

lemma parses_readArray:
  assumes "\<And>x. x \<in> set xs \<Longrightarrow> parses p (enc x) x" "\<And>x. x \<in> set xs \<Longrightarrow> enc x \<noteq> []"
    "int (length xs) \<le> MAX_ARRAY_LENGTH"
  shows "parses (readArray p) (vlq (int (length xs)) @ concat (map enc xs)) xs"
proof (unfold parses_def, intro allI impI)
  let ?n = "vlq (int (length xs))" and ?c = "concat (map enc xs)"
  fix r assume "at r (?n @ ?c)"
  then have a: "at r ?n" "at (r\<lparr>r_position := r_position r + length ?n\<rparr>) ?c"
    by (simp_all add: at_append)
  have safe: "int (length xs) \<le> MAX_SAFE_INTEGER"
    using assms(3) by (simp add: MAX_ARRAY_LENGTH_def MAX_SAFE_INTEGER_def)
  have "length xs \<le> length ?c"
    using assms(2) by (rule length_concat_map_ge)
  moreover have "length ?c \<le> length (r_bytes r) - (r_position r + length ?n)"
    using at_room [OF a(2)] by simp
  moreover have "r_position r + length ?n \<le> length (r_bytes r)" using a(2) by (simp add: at_def)
  ultimately have "\<not> int (length xs) > r_remaining (r\<lparr>r_position := r_position r + length ?n\<rparr>)"
    by (simp add: r_remaining_def)
  moreover have "readVlqU r = Inr (int (length xs), r\<lparr>r_position := r_position r + length ?n\<rparr>)"
    using parsesD [OF parses_readVlqU a(1)] safe by simp
  moreover have "readTimes (length xs) p (r\<lparr>r_position := r_position r + length ?n\<rparr>) =
      Inr (xs, r\<lparr>r_position := r_position r + length ?n + length ?c\<rparr>)"
    using parsesD [OF parses_readTimes a(2)] assms(1) by simp
  ultimately show "readArray p r = Inr (xs, r\<lparr>r_position := r_position r + length (?n @ ?c)\<rparr>)"
    using assms(3) by (simp add: readArray_def add.assoc)
qed

lemma parses_readOption_None [parses_intro]: "parses (readOption p) [0] None"
  using parses_readU8 [of 0] by (simp add: parses_def readOption_def)

lemma parses_readOption_Some [parses_intro]:
  assumes "parses p bs v"
  shows "parses (readOption p) (1 # bs) (Some v)"
proof (unfold parses_def, intro allI impI)
  fix r assume "at r (1 # bs)"
  then have a: "at r [1]" "at (r\<lparr>r_position := r_position r + 1\<rparr>) bs"
    using at_append [of r "[1]" bs] by simp_all
  show "readOption p r = Inr (Some v, r\<lparr>r_position := r_position r + length (1 # bs)\<rparr>)"
    using parsesD [OF parses_readU8 a(1)] parsesD [OF assms a(2)] by (simp add: readOption_def)
qed

end
