(* ===== verification/Frame.thy ===== *)
theory Frame
  imports Writer
begin

text \<open>
  \<open>packages/wire/src/frame.ts\<close>: the envelope of every peer message, and the
  properties of the wire package.  The hash is a parameter, as it is in the code
  (\<open>HashFn\<close>); what the code relies on is that it returns at least four bytes.
\<close>

section \<open>Four bytes big-endian\<close>

definition be4 :: "int \<Rightarrow> int list" where
  "be4 n = (let u = take_bit 32 n in
     [drop_bit 24 u AND 255, drop_bit 16 u AND 255, drop_bit 8 u AND 255, u AND 255])"

definition of_be4 :: "int \<Rightarrow> int \<Rightarrow> int \<Rightarrow> int \<Rightarrow> int" where
  "of_be4 a b c d = take_bit 32 (push_bit 24 a OR push_bit 16 b OR push_bit 8 c OR d)"

lemma and_255: "(v :: int) AND 255 = v mod 256"
  using take_bit_eq_mask [of 8 v] by (simp add: take_bit_eq_mod mask_eq_exp_minus_1)

lemma be4_arith:
  assumes "0 \<le> n" "n < 2 ^ 32"
  shows "be4 n = [n div 16777216 mod 256, n div 65536 mod 256, n div 256 mod 256, n mod 256]"
  using assms by (simp add: be4_def Let_def and_255 take_bit_int_eq_self drop_bit_eq_div)

lemma of_be4_arith:
  assumes "0 \<le> a" "a < 256" "0 \<le> b" "b < 256" "0 \<le> c" "c < 256" "0 \<le> d" "d < 256"
  shows "of_be4 a b c d = 16777216 * a + 65536 * b + 256 * c + d"
proof -
  have 1: "d OR push_bit 8 c = d + 256 * c"
    using or_disjoint_int [of d 8 c] assms by simp
  have 2: "(d + 256 * c) OR push_bit 16 b = d + 256 * c + 65536 * b"
    using or_disjoint_int [of "d + 256 * c" 16 b] assms by simp
  have 3: "(d + 256 * c + 65536 * b) OR push_bit 24 a = d + 256 * c + 65536 * b + 16777216 * a"
    using or_disjoint_int [of "d + 256 * c + 65536 * b" 24 a] assms by simp
  have "push_bit 24 a OR push_bit 16 b OR push_bit 8 c OR d =
      ((d OR push_bit 8 c) OR push_bit 16 b) OR push_bit 24 a"
    by (simp only: or.assoc or.commute or.left_commute)
  also have "\<dots> = d + 256 * c + 65536 * b + 16777216 * a"
    by (simp only: 1 2 3)
  finally have "of_be4 a b c d = take_bit 32 (d + 256 * c + 65536 * b + 16777216 * a)"
    by (simp add: of_be4_def)
  also have "\<dots> = d + 256 * c + 65536 * b + 16777216 * a"
    by (rule take_bit_int_eq_self) (use assms in auto)
  finally show ?thesis by simp
qed

lemma of_be4_be4:
  assumes "0 \<le> n" "n < 2 ^ 32"
  shows "of_be4 (n div 16777216 mod 256) (n div 65536 mod 256) (n div 256 mod 256) (n mod 256) = n"
proof -
  have "n div 16777216 < 256" using assms by (simp add: div_less_iff_less_mult)
  then have top: "n div 16777216 mod 256 = n div 16777216"
    using assms by simp
  have d: "n div 65536 = n div 256 div 256" "n div 16777216 = n div 65536 div 256"
    using zdiv_zmult2_eq [of 256 n 256] zdiv_zmult2_eq [of 256 n 65536] by simp_all
  have "n = 256 * (n div 256) + n mod 256" "n div 256 = 256 * (n div 65536) + n div 256 mod 256"
    "n div 65536 = 256 * (n div 16777216) + n div 65536 mod 256"
    unfolding d by (simp_all only: mult_div_mod_eq)
  moreover have "of_be4 (n div 16777216) (n div 65536 mod 256) (n div 256 mod 256) (n mod 256) =
      16777216 * (n div 16777216) + 65536 * (n div 65536 mod 256) + 256 * (n div 256 mod 256) + n mod 256"
    by (rule of_be4_arith) (use assms \<open>n div 16777216 < 256\<close> in \<open>auto simp: pos_imp_zdiv_nonneg_iff\<close>)
  ultimately show ?thesis unfolding top by linarith
qed

section \<open>The envelope\<close>

definition FRAME_VERSION :: int where
  "FRAME_VERSION = 1"

definition encodeFrame ::
    "int \<Rightarrow> int \<Rightarrow> byte list \<Rightarrow> (byte list \<Rightarrow> byte list) \<Rightarrow> byte list res" where
  "encodeFrame magic code body hashFn =
     ebind (efold w_writeU8 (be4 magic) newWriter) (\<lambda>w.
     ebind (w_writeU8 FRAME_VERSION w) (\<lambda>w.
     ebind (w_writeVlqU code w) (\<lambda>w.
     ebind (w_writeVlqU (int (length body)) w) (\<lambda>w.
     let hash = hashFn body in
     if length hash < 4 then Inl OtherErr
     else Inr (toBytes (w_writeBytes body (w_writeBytes (take 4 hash) w)))))))"

definition readFrame :: "int \<Rightarrow> (byte list \<Rightarrow> byte list) \<Rightarrow> (int \<times> byte list) rd" where
  "readFrame magic hashFn =
     rbind readU8 (\<lambda>b0. rbind readU8 (\<lambda>b1. rbind readU8 (\<lambda>b2. rbind readU8 (\<lambda>b3.
     if of_be4 b0 b1 b2 b3 \<noteq> magic then rfail (ReaderErr WrongMagic)
     else rbind readU8 (\<lambda>version.
     if version > FRAME_VERSION then rfail (ReaderErr UnsupportedVersion)
     else rbind readVlqU (\<lambda>code. rbind readVlqU (\<lambda>len. rbind (readBytes 4) (\<lambda>checksum.
     rbind (readBytes len) (\<lambda>body.
     if checksum \<noteq> take 4 (hashFn body) then rfail (ReaderErr ChecksumMismatch)
     else rret (code, body))))))))))"

definition decodeFrame ::
    "int \<Rightarrow> byte list \<Rightarrow> (byte list \<Rightarrow> byte list) \<Rightarrow> (int \<times> byte list) res" where
  "decodeFrame magic data hashFn =
     ebind (readFrame magic hashFn (newReader data)) (\<lambda>(frame, r). Inr frame)"

definition frame_header :: "int \<Rightarrow> int \<Rightarrow> nat \<Rightarrow> byte list" where
  "frame_header magic code len =
     map word_of_int (be4 magic) @ [1] @ vlq code @ vlq (int len)"

lemma w_appends_be4:
  assumes "0 \<le> n" "n < 2 ^ 32"
  shows "w_appends (efold w_writeU8 (be4 n)) (map word_of_int (be4 n))"
proof -
  have "w_appends (w_writeU8 x) [word_of_int x]" if "x \<in> set (be4 n)" for x
  proof -
    have "0 \<le> x \<and> x < 256" using that by (auto simp: be4_arith [OF assms])
    then show ?thesis by (intro bw.appends_put) auto
  qed
  from bw.appends_each [OF this, of "be4 n" "\<lambda>x. x"] show ?thesis
    by (simp add: be4_arith [OF assms])
qed

lemma encodeFrame_bytes:
  assumes "0 \<le> magic" "magic < 2 ^ 32" "0 \<le> code" "code \<le> MAX_SAFE_INTEGER"
    "int (length body) \<le> MAX_SAFE_INTEGER" "4 \<le> length (hashFn body)"
  shows "encodeFrame magic code body hashFn =
    Inr (frame_header magic code (length body) @ take 4 (hashFn body) @ body)"
proof -
  obtain w1 where w1: "efold w_writeU8 (be4 magic) newWriter = Inr w1" "writer_ok w1"
      "toBytes w1 = map word_of_int (be4 magic)"
    using w_appends_be4 [OF assms(1,2)] newWriter_ok by (force simp: appends_def)
  obtain w2 where w2: "w_writeU8 FRAME_VERSION w1 = Inr w2" "writer_ok w2" "toBytes w2 = toBytes w1 @ [1]"
    using bw.appends_put [of 1] w1(2) by (force simp: appends_def FRAME_VERSION_def)
  obtain w3 where w3: "w_writeVlqU code w2 = Inr w3" "writer_ok w3" "toBytes w3 = toBytes w2 @ vlq code"
    using w_appends_vlqU [OF assms(3,4)] w2(2) by (force simp: appends_def)
  obtain w4 where w4: "w_writeVlqU (int (length body)) w3 = Inr w4" "writer_ok w4"
      "toBytes w4 = toBytes w3 @ vlq (int (length body))"
    using w_appends_vlqU [OF _ assms(5)] w3(2) by (force simp: appends_def)
  have "\<not> length (hashFn body) < 4" using assms(6) by simp
  then show ?thesis
    using w1 w2 w3 w4 writer_block
    by (simp add: encodeFrame_def frame_header_def Let_def)
qed

text \<open>One step of a reader on a buffer known to start with the bytes it consumes.\<close>
lemma rbind_step:
  assumes "parses p as v" "at r (as @ bs)"
  obtains r' where "at r' bs" "\<And>f. rbind p f r = f v r'"
proof (rule that)
  show "at (r\<lparr>r_position := r_position r + length as\<rparr>) bs"
    using assms(2) by (simp add: at_append)
  show "rbind p f r = f v (r\<lparr>r_position := r_position r + length as\<rparr>)" for f :: "_ \<Rightarrow> 'b rd"
    using parsesD [OF assms(1)] assms(2) by (simp add: at_append rbind_def)
qed

lemma rbind_readU8_step:
  assumes "at r (b # bs)"
  obtains r' where "at r' bs" "\<And>f. rbind readU8 f r = f (uint b) r'"
  using rbind_step [OF parses_readU8, of r b bs] assms by auto

text \<open>What the reader makes of any checksum and body behind a well-formed header.\<close>
lemma decodeFrame_parts:
  assumes m: "0 \<le> magic" "magic < 2 ^ 32" and c: "0 \<le> code" "code \<le> MAX_SAFE_INTEGER"
    and l: "int (length body) \<le> MAX_SAFE_INTEGER" and k: "length chk = 4"
  shows "decodeFrame magic (frame_header magic code (length body) @ chk @ body @ rest) hashFn =
    (if chk = take 4 (hashFn body) then Inr (code, body) else Inl (ReaderErr ChecksumMismatch))"
    (is "decodeFrame magic ?data hashFn = _")
proof -
  let ?b = "\<lambda>v. word_of_int (v mod 256) :: byte"
  have digit: "uint (?b v) = v mod 256" for v by simp
  have "at (newReader ?data) (?b (magic div 16777216) # ?b (magic div 65536) # ?b (magic div 256) #
      ?b magic # 1 # vlq code @ vlq (int (length body)) @ chk @ body @ rest)"
    using at_newReader [of ?data "[]"] by (simp add: frame_header_def be4_arith [OF m])
  then obtain r1 where a1: "at r1 (?b (magic div 65536) # ?b (magic div 256) # ?b magic # 1 # vlq code @ vlq (int (length body)) @ chk @ body @ rest)"
    and s1: "\<And>f :: int \<Rightarrow> (int \<times> byte list) rd. rbind readU8 f (newReader ?data) = f (uint (?b (magic div 16777216) :: byte)) r1"
    by (rule rbind_readU8_step) blast
  obtain r2 where a2: "at r2 (?b (magic div 256) # ?b magic # 1 # vlq code @ vlq (int (length body)) @ chk @ body @ rest)"
    and s2: "\<And>f :: int \<Rightarrow> (int \<times> byte list) rd. rbind readU8 f r1 = f (uint (?b (magic div 65536) :: byte)) r2"
    using a1 by (rule rbind_readU8_step) blast
  obtain r3 where a3: "at r3 (?b magic # 1 # vlq code @ vlq (int (length body)) @ chk @ body @ rest)"
    and s3: "\<And>f :: int \<Rightarrow> (int \<times> byte list) rd. rbind readU8 f r2 = f (uint (?b (magic div 256) :: byte)) r3"
    using a2 by (rule rbind_readU8_step) blast
  obtain r4 where a4: "at r4 (1 # vlq code @ vlq (int (length body)) @ chk @ body @ rest)"
    and s4: "\<And>f :: int \<Rightarrow> (int \<times> byte list) rd. rbind readU8 f r3 = f (uint (?b magic :: byte)) r4"
    using a3 by (rule rbind_readU8_step) blast
  obtain r5 where a5: "at r5 (vlq code @ vlq (int (length body)) @ chk @ body @ rest)"
    and s5: "\<And>f :: int \<Rightarrow> (int \<times> byte list) rd. rbind readU8 f r4 = f (uint (1 :: byte)) r5"
    using a4 by (rule rbind_readU8_step) blast
  obtain r6 where b: "at r6 (vlq (int (length body)) @ chk @ body @ rest)"
    and s6: "\<And>f :: int \<Rightarrow> (int \<times> byte list) rd. rbind readVlqU f r5 = f code r6"
    using rbind_step [OF parses_readVlqU [OF c] a5] by blast
  obtain r7 where d: "at r7 (chk @ body @ rest)"
    and s7: "\<And>f :: int \<Rightarrow> (int \<times> byte list) rd. rbind readVlqU f r6 = f (int (length body)) r7"
    using rbind_step [OF parses_readVlqU [OF _ l] b] by auto
  obtain r8 where e: "at r8 (body @ rest)" and s8: "\<And>f :: byte list \<Rightarrow> (int \<times> byte list) rd. rbind (readBytes 4) f r7 = f chk r8"
    using rbind_step [OF parses_readBytes [of 4 chk] d] k by auto
  obtain r9 where s9: "\<And>f :: byte list \<Rightarrow> (int \<times> byte list) rd. rbind (readBytes (int (length body))) f r8 = f body r9"
    using rbind_step [OF parses_readBytes [of "int (length body)" body] e] by auto
  have one: "uint (1 :: byte) = 1" "\<not> FRAME_VERSION < 1" by (simp_all add: FRAME_VERSION_def)
  have "readFrame magic hashFn (newReader ?data) =
      (if chk \<noteq> take 4 (hashFn body) then rfail (ReaderErr ChecksumMismatch) else rret (code, body)) r9"
    unfolding readFrame_def s1 s2 s3 s4
    by (simp only: digit of_be4_be4 [OF m] s5 s6 s7 s8 s9 one not_True_eq_False if_False simp_thms)
  then show ?thesis by (simp add: decodeFrame_def rret_def rfail_def)
qed

section \<open>Properties\<close>

lemma encodeFrame_domain:
  assumes "encodeFrame magic code body hashFn = Inr bs"
  shows "0 \<le> code" "code \<le> MAX_SAFE_INTEGER" "int (length body) \<le> MAX_SAFE_INTEGER"
    "4 \<le> length (hashFn body)"
  using assms by (auto simp: encodeFrame_def bind_iff w_writeVlqU_def Let_def split: if_splits)

text \<open>a frame round-trips. Whenever \<open>encodeFrame\<close> succeeds for a 32-bit magic,
  \<open>decodeFrame\<close> with the same magic and hash returns the same code and body, also
  when more bytes follow the frame in the stream.\<close>
theorem frame_roundtrip:
  assumes "0 \<le> magic" "magic < 2 ^ 32" "encodeFrame magic code body hashFn = Inr bs"
  shows "decodeFrame magic (bs @ rest) hashFn = Inr (code, body)"
proof -
  note d = encodeFrame_domain [OF assms(3)]
  have "bs = frame_header magic code (length body) @ take 4 (hashFn body) @ body"
    using encodeFrame_bytes [of magic code body hashFn] assms d by simp
  then show ?thesis
    using decodeFrame_parts [of magic code body "take 4 (hashFn body)" rest hashFn] assms d by simp
qed

lemma frame_roundtrip_witness:
  "decodeFrame 3405691582 (frame_header 3405691582 300 2 @ [9, 9, 9, 9] @ [1, 2] @ [55])
     (\<lambda>b. replicate 32 9) = Inr (300, [1, 2])"
proof -
  have "encodeFrame 3405691582 300 [1, 2] (\<lambda>b. replicate 32 9) =
      Inr (frame_header 3405691582 300 2 @ [9, 9, 9, 9] @ [1, 2])"
    by (subst encodeFrame_bytes) (simp_all add: MAX_SAFE_INTEGER_def numeral_eq_Suc)
  from frame_roundtrip [OF _ _ this, of "[55]"] show ?thesis by simp
qed

text \<open>The checksum protects the body. A well-formed header followed by any four
  checksum bytes and any body of the announced length decodes exactly when the
  checksum is the hash prefix of that body; otherwise the frame is refused with
  \<open>checksum-mismatch\<close>.\<close>
lemma frame_checksum_decides:
  assumes "0 \<le> magic" "magic < 2 ^ 32" "0 \<le> code" "code \<le> MAX_SAFE_INTEGER"
    "int (length body) \<le> MAX_SAFE_INTEGER" "length chk = 4"
  shows "decodeFrame magic (frame_header magic code (length body) @ chk @ body @ rest) hashFn =
    (if chk = take 4 (hashFn body) then Inr (code, body) else Inl (ReaderErr ChecksumMismatch))"
  using assms by (rule decodeFrame_parts)

lemma frame_checksum_decides_witness:
  "decodeFrame 7 (frame_header 7 1 1 @ [0, 0, 0, 0] @ [5] @ []) (\<lambda>b. b @ b @ b @ b) =
     Inl (ReaderErr ChecksumMismatch)"
  using frame_checksum_decides [of 7 1 "[5]" "[0, 0, 0, 0]" "[]" "\<lambda>b. b @ b @ b @ b"]
  by (simp add: MAX_SAFE_INTEGER_def)

text \<open>The two VLQ encoders are one encoding. Over the common domain the loop of
  \<open>ByteWriter.writeVlqU\<close> on its growable buffer, \<open>encodeVlqU\<close> and the \<open>bigint\<close> path
  produce the same bytes, and both readers take them back.\<close>
theorem vlq_paths_agree:
  assumes "0 \<le> v" "v \<le> MAX_SAFE_INTEGER" "writer_ok w"
  shows "encodeVlqU v = encodeVlqBigInt v \<and>
    (\<exists>w1 w2. w_writeVlqU v w = Inr w1 \<and> w_writeVlqBigInt v w = Inr w2 \<and>
      writer_ok w1 \<and> toBytes w1 = toBytes w @ vlq v \<and> toBytes w2 = toBytes w1) \<and>
    parses readVlqU (vlq v) v \<and> parses readVlqBigInt (vlq v) v"
proof -
  have u: "v \<le> U64_MAX" using assms by (simp add: MAX_SAFE_INTEGER_def U64_MAX_def)
  have "encodeVlqU v = encodeVlqBigInt v"
    using assms u by (simp add: encodeVlqU_bytes encodeVlqBigInt_def)
  moreover have "\<exists>w1 w2. w_writeVlqU v w = Inr w1 \<and> w_writeVlqBigInt v w = Inr w2 \<and>
      writer_ok w1 \<and> toBytes w1 = toBytes w @ vlq v \<and> toBytes w2 = toBytes w1"
    using w_appends_vlqU [OF assms(1,2)] w_appends_vlqBigInt [OF assms(1) u] assms(3)
    by (force simp: appends_def)
  ultimately show ?thesis
    using parses_readVlqU [OF assms(1,2)] parses_readVlqBigInt [OF assms(1) u] by simp
qed

lemma vlq_paths_agree_witness: "encodeVlqU 4294967296 = encodeVlqBigInt 4294967296"
  using vlq_paths_agree [of 4294967296, OF _ _ newWriter_ok(1)] by (simp add: MAX_SAFE_INTEGER_def)

lemma xor_all_ones: "take_bit n x XOR (2 ^ n - 1) = take_bit n (NOT x)" for x :: int
  by (rule bit_eqI) (auto simp: bit_simps mask_eq_exp_minus_1 [symmetric])

lemma encodeVlqZigZagBigInt_bytes:
  assumes "- (2 ^ 63) \<le> v" "v \<le> 2 ^ 63 - 1"
  shows "encodeVlqZigZagBigInt v = Inr (vlq (zigZag v))"
proof -
  have u: "U64_MAX = mask 64" by (simp add: U64_MAX_def mask_eq_exp_minus_1)
  have p: "push_bit 1 (v AND U64_MAX) AND U64_MAX = take_bit 64 (push_bit 1 v)"
    unfolding u take_bit_eq_mask [symmetric]
    by (simp add: take_bit_eq_mod push_bit_eq_mult mod_mult_left_eq)
  have "(push_bit 1 (v AND U64_MAX) AND U64_MAX) XOR (if v < 0 then U64_MAX else 0) = zigZag v"
  proof (cases "v < 0")
    case True
    have "take_bit 64 (push_bit 1 v) XOR U64_MAX = take_bit 64 (NOT (push_bit 1 v))"
      unfolding U64_MAX_def by (rule xor_all_ones)
    also have "\<dots> = NOT (push_bit 1 v)"
      using assms True by (intro take_bit_int_eq_self) (auto simp: not_int_def)
    finally show ?thesis using True unfolding p by (simp add: not_int_def zigZag_def)
  next
    case False
    then have "take_bit 64 (push_bit 1 v) = push_bit 1 v"
      using assms by (intro take_bit_int_eq_self) auto
    then show ?thesis using False unfolding p by (simp add: zigZag_def)
  qed
  then have "encodeVlqZigZagBigInt v = encodeVlqBigInt (zigZag v)"
    unfolding encodeVlqZigZagBigInt_def Let_def using assms by simp
  moreover have "0 \<le> zigZag v" "zigZag v \<le> U64_MAX"
    using assms by (auto simp: zigZag_def U64_MAX_def)
  ultimately show ?thesis by (simp add: encodeVlqBigInt_def)
qed

lemma bit_zigZagDecode: "drop_bit 1 zz XOR (- (zz AND 1)) = zigZagDecode zz"
proof (cases "even zz")
  case True
  then show ?thesis
    by (simp add: zigZagDecode_def drop_bit_eq_div and_one_eq even_iff_mod_2_eq_zero [symmetric])
next
  case False
  then have "zz AND 1 = 1" "zz mod 2 = 1" by (simp_all add: and_one_eq odd_iff_mod_2_eq_one)
  then show ?thesis
    by (simp add: zigZagDecode_def drop_bit_eq_div not_int_def)
qed

text \<open>The \<open>bigint\<close> codecs round-trip over their whole domains: every u64 through
  \<open>encodeVlqBigInt\<close>/\<open>readVlqBigInt\<close> and every i64 through the ZigZag pair, whose
  64-bit register arithmetic never loses a sign, wherever the bytes stand in the
  stream; outside the domain both encoders throw.\<close>
lemma vlq_bigint_roundtrip:
  "(if 0 \<le> v \<and> v \<le> U64_MAX
    then \<exists>bs. encodeVlqBigInt v = Inr bs \<and> length bs \<le> 10 \<and> parses readVlqBigInt bs v
    else encodeVlqBigInt v = Inl OtherErr) \<and>
   (if - (2 ^ 63) \<le> v \<and> v \<le> 2 ^ 63 - 1
    then \<exists>bs. encodeVlqZigZagBigInt v = Inr bs \<and> length bs \<le> 10 \<and> parses readVlqBigIntSigned bs v
    else encodeVlqZigZagBigInt v = Inl OtherErr)"
proof (intro conjI)
  show "if 0 \<le> v \<and> v \<le> U64_MAX
    then \<exists>bs. encodeVlqBigInt v = Inr bs \<and> length bs \<le> 10 \<and> parses readVlqBigInt bs v
    else encodeVlqBigInt v = Inl OtherErr"
    using parses_readVlqBigInt vlq_u64_length by (auto simp: encodeVlqBigInt_def)
  have "\<exists>bs. encodeVlqZigZagBigInt v = Inr bs \<and> length bs \<le> 10 \<and> parses readVlqBigIntSigned bs v"
    if v: "- (2 ^ 63) \<le> v" "v \<le> 2 ^ 63 - 1"
  proof -
    have z: "0 \<le> zigZag v" "zigZag v \<le> U64_MAX" using v by (auto simp: zigZag_def U64_MAX_def)
    have "parses readVlqBigIntSigned (vlq (zigZag v)) v"
      using parses_readVlqBigInt [OF z] bit_zigZagDecode [of "zigZag v"]
      by (simp add: parses_def readVlqBigIntSigned_def zigZagDecode_zigZag)
    then show ?thesis
      using vlq_u64_length [OF z] encodeVlqZigZagBigInt_bytes [OF v] by simp
  qed
  then show "if - (2 ^ 63) \<le> v \<and> v \<le> 2 ^ 63 - 1
    then \<exists>bs. encodeVlqZigZagBigInt v = Inr bs \<and> length bs \<le> 10 \<and> parses readVlqBigIntSigned bs v
    else encodeVlqZigZagBigInt v = Inl OtherErr"
    by (auto simp: encodeVlqZigZagBigInt_def)
qed

end
