(* ===== verification/Codec.thy ===== *)
theory Codec
  imports Frame
begin

text \<open>
  \<open>packages/types/src/codec.ts\<close>: the field primitives, the hex boundary, tag
  tables and the four-step boundary check \<open>decodeStruct\<close>.

  A writer call is described by the bytes it appends to its \<open>ByteWriter\<close>, or the
  exception it throws; \<open>byte_sink\<close> in \<open>Writer\<close> is what makes that a faithful
  reading of the buffer operations.  Values are typed in the model, so the
  source's run-time type tests (\<open>typeof\<close>, \<open>isBytes\<close>, \<open>Array.isArray\<close>) always
  succeed here; the numeric domain tests are kept.

  The locale \<open>struct_codec\<close> is the contract of a \<open>StructCodec\<close>: on the values of
  its domain the reader consumes exactly what the writer wrote.  Injectivity,
  prefix-freeness and the round trip through \<open>decodeStruct\<close> follow once, and every
  struct of the library is an interpretation.
\<close>

section \<open>Sequencing writes\<close>

fun wcat :: "byte list res list \<Rightarrow> byte list res" where
  "wcat [] = Inr []"
| "wcat (a # as) = ebind a (\<lambda>x. ebind (wcat as) (\<lambda>y. Inr (x @ y)))"

lemma wcat_Cons_eq [bind_iff]:
  "wcat (a # as) = Inr bs \<longleftrightarrow> (\<exists>x y. a = Inr x \<and> wcat as = Inr y \<and> bs = x @ y)"
  by (auto simp: bind_iff)

lemma wcat_Nil_eq: "wcat [] = Inr bs \<longleftrightarrow> bs = []"
  by auto

section \<open>Hex\<close>

definition HEX :: string where
  "HEX = ''0123456789abcdef''"

fun indexOf :: "char \<Rightarrow> string \<Rightarrow> int \<Rightarrow> int" where
  "indexOf c [] i = -1"
| "indexOf c (x # xs) i = (if x = c then i else indexOf c xs (i + 1))"

fun hexPairs :: "string \<Rightarrow> byte list option" where
  "hexPairs [] = Some []"
| "hexPairs [c] = None"
| "hexPairs (c # d # cs) =
     (let hi = indexOf c HEX 0; lo = indexOf d HEX 0 in
      if hi < 0 \<or> lo < 0 then None
      else map_option (\<lambda>bs. word_of_int (hi * 16 + lo) # bs) (hexPairs cs))"

definition hexToBytesExact :: "string \<Rightarrow> nat \<Rightarrow> byte list option" where
  "hexToBytesExact hex n = (if length hex \<noteq> n * 2 then None else hexPairs hex)"

definition bytesToHex :: "byte list \<Rightarrow> string" where
  "bytesToHex bs = concat (map (\<lambda>b.
     [HEX ! nat (uint (drop_bit 4 b)), HEX ! nat (uint (b AND 15))]) bs)"

definition hexToBytes :: "string \<Rightarrow> byte list res" where
  "hexToBytes hex = (case hexToBytesExact hex (length hex div 2) of
     None \<Rightarrow> Inl OtherErr | Some bs \<Rightarrow> Inr bs)"

definition isHex64 :: "string \<Rightarrow> bool" where
  "isHex64 v \<longleftrightarrow> hexToBytesExact v 32 \<noteq> None"

definition equalBytes :: "byte list \<Rightarrow> byte list \<Rightarrow> bool" where
  "equalBytes a b \<longleftrightarrow> length a = length b \<and> list_all (\<lambda>i. a ! i = b ! i) [0..<length a]"

lemma equalBytes_iff [simp]: "equalBytes a b \<longleftrightarrow> a = b"
  by (auto simp: equalBytes_def list_all_iff intro: nth_equalityI)

lemma HEX_facts: "distinct HEX" "length HEX = 16"
  by (simp_all add: HEX_def)

lemma indexOf_distinct: "distinct xs \<Longrightarrow> n < length xs \<Longrightarrow> indexOf (xs ! n) xs i = i + int n"
proof (induction xs arbitrary: n i)
  case (Cons x xs)
  then show ?case by (cases n) auto
qed simp

lemma indexOf_HEX_nth:
  "n < 16 \<Longrightarrow> indexOf (HEX ! n) HEX 0 = int n"
  using indexOf_distinct [of HEX n 0] by (simp add: HEX_facts)

lemma indexOf_range: "indexOf c xs i \<noteq> -1 \<Longrightarrow> 0 \<le> i \<Longrightarrow>
    i \<le> indexOf c xs i \<and> indexOf c xs i < i + int (length xs) \<and> xs ! nat (indexOf c xs i - i) = c"
proof (induction xs arbitrary: i)
  case (Cons x xs)
  show ?case
  proof (cases "x = c")
    case True
    then show ?thesis by simp
  next
    case False
    with Cons have "i + 1 \<le> indexOf c xs (i + 1)" "indexOf c xs (i + 1) < i + 1 + int (length xs)"
        "xs ! nat (indexOf c xs (i + 1) - (i + 1)) = c"
      by force+
    moreover from this(1) have "nat (indexOf c xs (i + 1) - i) = Suc (nat (indexOf c xs (i + 1) - (i + 1)))"
      by simp
    ultimately show ?thesis using False by simp
  qed
qed simp

lemma indexOf_HEX_inverse:
  assumes "\<not> indexOf c HEX 0 < 0"
  shows "indexOf c HEX 0 < 16" "HEX ! nat (indexOf c HEX 0) = c"
proof -
  have "indexOf c HEX 0 \<noteq> -1" using assms by linarith
  from indexOf_range [OF this] show "indexOf c HEX 0 < 16" "HEX ! nat (indexOf c HEX 0) = c"
    by (simp_all add: HEX_facts)
qed

lemma nibbles: "uint (drop_bit 4 (b :: byte)) = uint b div 16" "uint (b AND 15) = uint b mod 16"
proof -
  have "uint (b AND 15) = uint b AND uint (15 :: byte)"
    by (rule unsigned_and_eq)
  also have "\<dots> = take_bit 4 (uint b)" by (simp add: take_bit_eq_mask mask_eq_exp_minus_1)
  finally show "uint (b AND 15) = uint b mod 16"
    by (simp add: take_bit_eq_mod)
  show "uint (drop_bit 4 b) = uint b div 16"
    by (simp add: drop_bit_eq_div uint_div)
qed

lemma bytesToHex_length: "length (bytesToHex bs) = 2 * length bs"
  by (induction bs) (auto simp: bytesToHex_def)

lemma hexPairs_bytesToHex: "hexPairs (bytesToHex bs) = Some bs"
proof (induction bs)
  case Nil
  then show ?case by (simp add: bytesToHex_def)
next
  case (Cons b bs)
  have r: "0 \<le> uint b div 16" "uint b div 16 < 16" "0 \<le> uint b mod 16" "uint b mod 16 < 16"
    using byte_uint_range [of b] by (linarith, linarith, simp_all)
  then have "indexOf (HEX ! nat (uint b div 16)) HEX 0 = uint b div 16"
      "indexOf (HEX ! nat (uint b mod 16)) HEX 0 = uint b mod 16"
    using indexOf_HEX_nth [of "nat (uint b div 16)"] indexOf_HEX_nth [of "nat (uint b mod 16)"]
    by simp_all
  with Cons r show ?case
    by (simp add: bytesToHex_def nibbles Let_def)
qed

lemma hexPairs_inverse: "hexPairs s = Some bs \<Longrightarrow> bytesToHex bs = s"
proof (induction s arbitrary: bs rule: hexPairs.induct)
  case (3 c d cs)
  let ?h = "indexOf c HEX 0" and ?l = "indexOf d HEX 0"
  from "3.prems" obtain bs' where p: "\<not> ?h < 0" "\<not> ?l < 0" "hexPairs cs = Some bs'"
    "bs = word_of_int (?h * 16 + ?l) # bs'"
    by (auto simp: Let_def split: if_splits)
  note h = indexOf_HEX_inverse [OF p(1)] and l = indexOf_HEX_inverse [OF p(2)]
  have "uint (word_of_int (?h * 16 + ?l) :: byte) = ?h * 16 + ?l"
    by (rule byte_of_int_inverse) (use p h l in auto)
  then have "bytesToHex (word_of_int (?h * 16 + ?l) # bs') = c # d # bytesToHex bs'"
    using p h l by (simp add: bytesToHex_def nibbles)
  with p "3.IH" show ?case by (simp add: Let_def)
qed (auto simp: bytesToHex_def)

lemma hexToBytesExact_iff: "hexToBytesExact s n = Some bs \<longleftrightarrow> length bs = n \<and> s = bytesToHex bs"
proof
  assume h: "hexToBytesExact s n = Some bs"
  then have "hexPairs s = Some bs" "length s = n * 2"
    by (simp_all add: hexToBytesExact_def split: if_splits)
  moreover from this(1) have "bytesToHex bs = s" by (rule hexPairs_inverse)
  ultimately show "length bs = n \<and> s = bytesToHex bs"
    using bytesToHex_length [of bs] by auto
next
  assume "length bs = n \<and> s = bytesToHex bs"
  then show "hexToBytesExact s n = Some bs"
    by (auto simp: hexToBytesExact_def bytesToHex_length hexPairs_bytesToHex)
qed

lemma bytesToHex_inject [simp]: "bytesToHex a = bytesToHex b \<longleftrightarrow> a = b"
  by (metis hexPairs_bytesToHex option.inject)


section \<open>Field primitives\<close>

definition VLQ_SENTINEL :: int where
  "VLQ_SENTINEL = 18446744073709551615"

definition isEncodableVlqU :: "int \<Rightarrow> bool" where
  "isEncodableVlqU n \<longleftrightarrow> isSafeInteger n \<and> n \<ge> 0"

definition isEncodableVlqS :: "int \<Rightarrow> bool" where
  "isEncodableVlqS n \<longleftrightarrow> isSafeInteger n \<and> isSafeInteger (if n \<ge> 0 then n * 2 else - n * 2 - 1)"

definition writeU8OrThrow :: "int \<Rightarrow> byte list res" where
  "writeU8OrThrow v = (if v < 0 \<or> v > 255 then Inl OtherErr else Inr [word_of_int v])"

definition writeVlqU :: "int \<Rightarrow> byte list res" where
  "writeVlqU v = (if isEncodableVlqU v then encodeVlqU v else encodeVlqBigInt VLQ_SENTINEL)"

definition writeVlqS :: "int \<Rightarrow> byte list res" where
  "writeVlqS v = (if isEncodableVlqS v then encodeVlqZigZag v else encodeVlqBigInt VLQ_SENTINEL)"

definition writeVlqU64OrThrow :: "int \<Rightarrow> byte list res" where
  "writeVlqU64OrThrow v = encodeVlqBigInt v"

definition writeHexNOrThrow :: "string \<Rightarrow> nat \<Rightarrow> byte list res" where
  "writeHexNOrThrow hex n = (case hexToBytesExact hex n of None \<Rightarrow> Inl OtherErr | Some bs \<Rightarrow> Inr bs)"

definition readHexN :: "nat \<Rightarrow> string rd" where
  "readHexN n = rbind (readBytes (int n)) (\<lambda>bs. rret (bytesToHex bs))"

definition writeBytesNOrThrow :: "byte list \<Rightarrow> nat \<Rightarrow> byte list res" where
  "writeBytesNOrThrow bs n = (if length bs \<noteq> n then Inl OtherErr else Inr bs)"

definition readBytesN :: "int \<Rightarrow> byte list rd" where
  "readBytesN n = readBytes n"

definition writeLp :: "byte list \<Rightarrow> byte list res" where
  "writeLp bs = wcat [encodeVlqU (int (length bs)), Inr bs]"

definition readLp :: "byte list rd" where
  "readLp = rbind readVlqU (\<lambda>n. readBytes n)"

definition writeArr :: "'a list \<Rightarrow> ('a \<Rightarrow> byte list res) \<Rightarrow> byte list res" where
  "writeArr items f = wcat (encodeVlqU (int (length items)) # map f items)"

definition readArr :: "'a rd \<Rightarrow> 'a list rd" where
  "readArr f = readArray f"

definition writeOpt :: "'a option \<Rightarrow> ('a \<Rightarrow> byte list res) \<Rightarrow> byte list res" where
  "writeOpt v f = (case v of None \<Rightarrow> Inr [0] | Some x \<Rightarrow> wcat [Inr [1], f x])"

definition readOpt :: "'a rd \<Rightarrow> 'a option rd" where
  "readOpt f = readOption f"

text \<open>The sizes computed without encoding.\<close>
function vlqWidth_loop :: "int \<Rightarrow> int \<Rightarrow> int" where
  "vlqWidth_loop v n = (if v \<ge> 128 then vlqWidth_loop (v div 128) (n + 1) else n)"
  by pat_completeness auto
termination by (relation "measure (\<lambda>(v, n). nat v)") auto

declare vlqWidth_loop.simps [simp del]

definition vlqBigIntWidth :: "int \<Rightarrow> int" where
  "vlqBigIntWidth v = vlqWidth_loop v 1"

definition VLQ_SENTINEL_BYTE_LENGTH :: int where
  "VLQ_SENTINEL_BYTE_LENGTH = vlqBigIntWidth VLQ_SENTINEL"

definition vlqUByteLength :: "int \<Rightarrow> int" where
  "vlqUByteLength v = (if \<not> isEncodableVlqU v then VLQ_SENTINEL_BYTE_LENGTH else vlqWidth_loop v 1)"

definition lpByteLength :: "byte list \<Rightarrow> int" where
  "lpByteLength bs = vlqUByteLength (int (length bs)) + int (length bs)"

definition arrByteLength :: "'a list \<Rightarrow> ('a \<Rightarrow> int) \<Rightarrow> int" where
  "arrByteLength items sizeOf = foldl (\<lambda>t x. t + sizeOf x) (vlqUByteLength (int (length items))) items"

definition enum8_write :: "('a \<times> int) list \<Rightarrow> 'a \<Rightarrow> byte list res" where
  "enum8_write tags v =
     (case map_of tags v of None \<Rightarrow> writeU8OrThrow 255 | Some t \<Rightarrow> writeU8OrThrow t)"

definition enum8_read :: "('a \<times> int) list \<Rightarrow> 'a rd" where
  "enum8_read tags = rbind readU8 (\<lambda>tag.
     case find (\<lambda>p. snd p = tag) tags of
       None \<Rightarrow> rfail (ReaderErr InvalidTag)
     | Some p \<Rightarrow> rret (fst p))"

definition enum8_ok :: "('a \<times> int) list \<Rightarrow> bool" where
  "enum8_ok tags \<longleftrightarrow> distinct (map fst tags) \<and> distinct (map snd tags)
     \<and> list_all (\<lambda>p. 0 \<le> snd p \<and> snd p \<le> 254) tags"

definition u32BE :: "int \<Rightarrow> byte list" where
  "u32BE n = (let v = (if isSafeInteger n \<and> n \<ge> 0 \<and> n < 4294967295 then n else 4294967295)
     in map word_of_int (be4 v))"

subsection \<open>What the primitives write and read back\<close>

lemma VLQ_SENTINEL_U64 [simp]: "VLQ_SENTINEL = U64_MAX"
  by (simp add: VLQ_SENTINEL_def U64_MAX_def)

lemma writeVlqU_bytes:
  "writeVlqU v = Inr (if isEncodableVlqU v then vlq v else vlq U64_MAX)"
  by (auto simp: writeVlqU_def isEncodableVlqU_def isSafeInteger_def encodeVlqU_bytes
      encodeVlqBigInt_def U64_MAX_def)

lemma isEncodableVlqU_iff: "isEncodableVlqU v \<longleftrightarrow> 0 \<le> v \<and> v \<le> MAX_SAFE_INTEGER"
  by (auto simp: isEncodableVlqU_def isSafeInteger_def MAX_SAFE_INTEGER_def)

lemma encodeVlqU_eq [bind_iff]:
  "encodeVlqU v = Inr bs \<longleftrightarrow> 0 \<le> v \<and> v \<le> MAX_SAFE_INTEGER \<and> bs = vlq v"
  using encodeVlqU_bytes [of v]
  by (cases "0 \<le> v \<and> v \<le> MAX_SAFE_INTEGER") (auto, auto simp: encodeVlqU_def split: if_splits)

lemma writeVlqU64_eq [bind_iff]:
  "writeVlqU64OrThrow v = Inr bs \<longleftrightarrow> 0 \<le> v \<and> v \<le> U64_MAX \<and> bs = vlq v"
  by (auto simp: writeVlqU64OrThrow_def encodeVlqBigInt_def)

lemma writeHexN_eq [bind_iff]:
  "writeHexNOrThrow s n = Inr bs \<longleftrightarrow> length bs = n \<and> s = bytesToHex bs"
  unfolding hexToBytesExact_iff [symmetric] by (auto simp: writeHexNOrThrow_def split: option.splits)

lemma writeBytesN_eq [bind_iff]:
  "writeBytesNOrThrow bs n = Inr cs \<longleftrightarrow> length bs = n \<and> cs = bs"
  by (auto simp: writeBytesNOrThrow_def)

lemma writeU8_eq [bind_iff]:
  "writeU8OrThrow v = Inr bs \<longleftrightarrow> 0 \<le> v \<and> v \<le> 255 \<and> bs = [word_of_int v]"
  by (auto simp: writeU8OrThrow_def)

lemma writeLp_eq [bind_iff]:
  "writeLp bs = Inr cs \<longleftrightarrow> int (length bs) \<le> MAX_SAFE_INTEGER \<and> cs = vlq (int (length bs)) @ bs"
  by (auto simp: writeLp_def bind_iff)

lemma parses_writeVlqU:
  "writeVlqU v = Inr bs \<Longrightarrow> isEncodableVlqU v \<Longrightarrow> parses readVlqU bs v"
  by (auto simp: writeVlqU_bytes isEncodableVlqU_iff intro: parses_readVlqU)

lemma parses_writeVlqU64: "writeVlqU64OrThrow v = Inr bs \<Longrightarrow> parses readVlqBigInt bs v"
  by (auto simp: bind_iff intro: parses_readVlqBigInt)

lemma parses_writeHexN: "writeHexNOrThrow s n = Inr bs \<Longrightarrow> parses (readHexN n) bs s"
  by (auto simp: bind_iff readHexN_def intro!: parses_rbind_last parses_readBytes parses_rret)

lemma parses_writeBytesN: "writeBytesNOrThrow cs n = Inr bs \<Longrightarrow> parses (readBytesN (int n)) bs cs"
  by (auto simp: bind_iff readBytesN_def intro: parses_readBytes)

lemma parses_writeU8: "writeU8OrThrow v = Inr bs \<Longrightarrow> parses readU8 bs v"
  using parses_readU8 [of "word_of_int v"] by (auto simp: bind_iff)

lemma parses_writeLp: "writeLp cs = Inr bs \<Longrightarrow> parses readLp bs cs"
  by (auto simp: bind_iff readLp_def intro!: parses_rbind parses_readVlqU parses_readBytes)

lemma parses_writeOpt:
  assumes "writeOpt v f = Inr bs" "\<And>x cs. v = Some x \<Longrightarrow> f x = Inr cs \<Longrightarrow> parses p cs x"
  shows "parses (readOpt p) bs v"
  using assms
  by (auto simp: writeOpt_def readOpt_def bind_iff parses_readOption_None split: option.splits
      intro!: parses_readOption_Some)

lemma wcat_map_concat:
  "wcat (map f xs) = Inr bs \<Longrightarrow> \<exists>enc. (\<forall>x\<in>set xs. f x = Inr (enc x)) \<and> bs = concat (map enc xs)"
proof (induction xs arbitrary: bs)
  case (Cons x xs)
  then obtain b c where "f x = Inr b" "wcat (map f xs) = Inr c" "bs = b @ c"
    by (auto simp: bind_iff)
  moreover obtain enc where "\<forall>x\<in>set xs. f x = Inr (enc x)" "c = concat (map enc xs)"
    using Cons.IH [OF \<open>wcat (map f xs) = Inr c\<close>] by blast
  moreover define e where "e y = projr (f y)" for y
  ultimately have all: "\<forall>y\<in>set (x # xs). f y = Inr (e y)" and m: "map e xs = map enc xs"
    and b: "e x = b" and bs: "bs = b @ concat (map enc xs)"
    by simp_all
  have "bs = concat (map e (x # xs))" by (simp only: list.map concat.simps m b bs)
  with all show ?case by blast
qed auto

lemma parses_writeArr:
  assumes "writeArr xs f = Inr bs" "int (length xs) \<le> MAX_ARRAY_LENGTH"
    and "\<And>x cs. x \<in> set xs \<Longrightarrow> f x = Inr cs \<Longrightarrow> parses p cs x \<and> cs \<noteq> []"
  shows "parses (readArr p) bs xs"
proof -
  obtain c where c: "wcat (map f xs) = Inr c" "bs = vlq (int (length xs)) @ c"
    using assms(1) by (auto simp: writeArr_def bind_iff)
  obtain enc where e: "\<forall>x\<in>set xs. f x = Inr (enc x)" "c = concat (map enc xs)"
    using wcat_map_concat [OF c(1)] by blast
  show ?thesis
    unfolding c(2) e(2) readArr_def
    by (rule parses_readArray) (use assms(2,3) e(1) in auto)
qed

lemma find_tag:
  assumes "distinct (map snd tags)" "(v, t) \<in> set tags"
  shows "find (\<lambda>p. snd p = t) tags = Some (v, t)"
  using assms by (induction tags) (auto simp: rev_image_eqI)

lemma parses_enum8:
  assumes "enum8_ok tags" "enum8_write tags v = Inr bs" "v \<in> fst ` set tags"
  shows "parses (enum8_read tags) bs v"
proof -
  from assms(3) obtain t where t: "map_of tags v = Some t"
    by (metis map_of_eq_None_iff not_None_eq)
  then have m: "(v, t) \<in> set tags" by (rule map_of_SomeD)
  have "parses readU8 bs t"
    using assms(2) t by (auto simp: enum8_write_def intro: parses_writeU8)
  moreover have "find (\<lambda>p. snd p = t) tags = Some (v, t)"
    using find_tag [OF _ m] assms(1) by (simp add: enum8_ok_def)
  ultimately show ?thesis
    unfolding enum8_read_def by (intro parses_rbind_last) (auto simp: parses_rret)
qed

section \<open>The boundary check\<close>

record 'a structCodec =
  c_write :: "'a \<Rightarrow> byte list res"
  c_read :: "'a rd"

definition encodeStruct :: "'a structCodec \<Rightarrow> 'a \<Rightarrow> byte list res" where
  "encodeStruct codec v = c_write codec v"

fun firstDifference_loop :: "byte list \<Rightarrow> byte list \<Rightarrow> int \<Rightarrow> int" where
  "firstDifference_loop (a # as) (b # bs) i =
     (if a \<noteq> b then i else firstDifference_loop as bs (i + 1))"
| "firstDifference_loop [] [] i = -1"
| "firstDifference_loop as bs i = i"

definition firstDifference :: "byte list \<Rightarrow> byte list \<Rightarrow> int" where
  "firstDifference a b = firstDifference_loop a b 0"

definition decodeStruct :: "'a structCodec \<Rightarrow> byte list \<Rightarrow> 'a res" where
  "decodeStruct codec bytes =
     (case c_read codec (newReader bytes) of
        Inl OtherErr \<Rightarrow> Inl (CodecErr ReaderFault)
      | Inl e \<Rightarrow> Inl e
      | Inr (v, reader) \<Rightarrow>
          if \<not> r_isExhausted reader then Inl (CodecErr TrailingBytes)
          else (case encodeStruct codec v of
             Inl _ \<Rightarrow> Inl (CodecErr Unencodable)
           | Inr reencoded \<Rightarrow>
               if firstDifference bytes reencoded \<noteq> -1 then Inl (CodecErr NonCanonical)
               else Inr v))"

lemma firstDifference_loop_eq: "0 \<le> i \<Longrightarrow> firstDifference_loop a b i = -1 \<longleftrightarrow> a = b"
  by (induction a b i rule: firstDifference_loop.induct) auto

lemma firstDifference_eq [simp]: "firstDifference a b = -1 \<longleftrightarrow> a = b"
  by (simp add: firstDifference_def firstDifference_loop_eq)

lemma decodeStruct_canonical:
  "decodeStruct codec bytes = Inr v \<Longrightarrow> encodeStruct codec v = Inr bytes"
  by (auto simp: decodeStruct_def split: sum.splits exn.splits if_splits)

locale struct_codec =
  fixes codec :: "'a structCodec"
    and dom :: "'a \<Rightarrow> bool"
  assumes exact: "dom v \<Longrightarrow> c_write codec v = Inr bs \<Longrightarrow> parses (c_read codec) bs v"
begin

lemma decode_encode:
  assumes "dom v" "encodeStruct codec v = Inr bs"
  shows "decodeStruct codec bs = Inr v"
proof -
  have "parses (c_read codec) bs v"
    using assms by (simp add: encodeStruct_def exact)
  from parses_newReader [OF this, of "[]"] assms(2) show ?thesis
    by (simp add: decodeStruct_def r_isExhausted_def newReader_def encodeStruct_def)
qed

lemma prefix_free:
  assumes "dom v" "dom w" "encodeStruct codec v = Inr bs" "encodeStruct codec w = Inr cs"
    and "bs @ xs = cs @ ys"
  shows "v = w \<and> xs = ys"
proof -
  have p: "parses (c_read codec) bs v" "parses (c_read codec) cs w"
    using assms by (simp_all add: encodeStruct_def exact)
  from parses_newReader [OF p(1), of xs] parses_newReader [OF p(2), of ys] assms(5)
  have "v = w" by simp
  with assms show ?thesis by simp
qed

lemma encode_inject:
  assumes "dom v" "dom w" "encodeStruct codec v = Inr bs" "encodeStruct codec w = Inr bs"
  shows "v = w"
  using prefix_free [OF assms(1-4), of "[]" "[]"] by simp

lemma decode_iff:
  "dom v \<Longrightarrow> decodeStruct codec bs = Inr v \<longleftrightarrow> encodeStruct codec v = Inr bs"
  using decode_encode [of v bs] decodeStruct_canonical [of codec bs v] by metis

end

section \<open>Properties\<close>

lemma vlqWidth_loop_length: "0 \<le> v \<Longrightarrow> vlqWidth_loop v n = int (length (vlq v)) + n - 1"
proof (induction v n rule: vlqWidth_loop.induct)
  case (1 v n)
  show ?case
  proof (cases "v \<ge> 128")
    case True
    with "1.IH" [OF True] show ?thesis by (subst vlqWidth_loop.simps) (simp add: vlq_big)
  next
    case False
    then show ?thesis by (subst vlqWidth_loop.simps) (simp add: vlq_small)
  qed
qed

lemma writeVlqU_width: "writeVlqU v = Inr bs \<Longrightarrow> int (length bs) = vlqUByteLength v"
  by (auto simp: writeVlqU_bytes vlqUByteLength_def VLQ_SENTINEL_BYTE_LENGTH_def vlqBigIntWidth_def
      vlqWidth_loop_length isEncodableVlqU_iff U64_MAX_def split: if_splits)

lemma vlqUByteLength_enc: "isEncodableVlqU v \<Longrightarrow> vlqUByteLength v = int (length (vlq v))"
  using writeVlqU_width [of v "vlq v"] by (simp add: writeVlqU_bytes)

text \<open>The sizers measure exactly what the writers write: a \<open>vlqU\<close> field
  (sentinel branch included), an \<open>lp\<close> field, and an array of \<open>lp\<close> fields, the
  transaction section of a block body.\<close>
theorem byte_length_mirrors_exact:
  assumes "writeVlqU v = Inr a" "writeLp b = Inr c" "writeArr xs writeLp = Inr d"
  shows "vlqUByteLength v = int (length a) \<and> lpByteLength b = int (length c)
    \<and> arrByteLength xs lpByteLength = int (length d)"
proof -
  have lp: "lpByteLength x = int (length y)" if "writeLp x = Inr y" for x y
    using that vlqUByteLength_enc [of "int (length x)"]
    by (auto simp: writeLp_eq lpByteLength_def isEncodableVlqU_iff)
  have fold: "foldl (\<lambda>t x. t + lpByteLength x) n ys = n + int (length e)"
    if "wcat (map writeLp ys) = Inr e" for n ys e
    using that
  proof (induction ys arbitrary: n e)
    case (Cons y ys)
    then show ?case using lp [of y] by (force simp: bind_iff)
  qed simp
  obtain e where "d = vlq (int (length xs)) @ e" "wcat (map writeLp xs) = Inr e"
      "int (length xs) \<le> MAX_SAFE_INTEGER"
    using assms(3) by (auto simp: writeArr_def bind_iff)
  then have "arrByteLength xs lpByteLength = int (length d)"
    using fold vlqUByteLength_enc [of "int (length xs)"]
    by (simp add: arrByteLength_def isEncodableVlqU_iff)
  then show ?thesis
    using writeVlqU_width [OF assms(1)] lp [OF assms(2)] by simp
qed

lemma byte_length_mirrors_exact_witness:
  "vlqUByteLength (-1) = int (length (vlq U64_MAX)) \<and> lpByteLength [7, 8] = int (length (vlq 2 @ [7, 8]))
    \<and> arrByteLength [[7]] lpByteLength = int (length (vlq 1 @ (vlq 1 @ [7])))"
  by (rule byte_length_mirrors_exact)
    (simp_all add: writeVlqU_bytes isEncodableVlqU_iff bind_iff writeArr_def MAX_SAFE_INTEGER_def)

text \<open>The boundary check is canonical for every codec: whatever \<open>decodeStruct\<close>
  accepts re-encodes to the very bytes it was given, so no two byte strings
  decode to one value, however permissive the readers are.\<close>
theorem decodeStruct_one_encoding:
  assumes "decodeStruct codec bytes = Inr v"
  shows "encodeStruct codec v = Inr bytes \<and> (decodeStruct codec bytes' = Inr v \<longrightarrow> bytes' = bytes)"
  using decodeStruct_canonical [OF assms] decodeStruct_canonical [of codec bytes' v] by auto

lemma decodeStruct_one_encoding_witness:
  "encodeStruct \<lparr>c_write = writeU8OrThrow, c_read = readU8\<rparr> 5 = Inr [5] \<and>
   decodeStruct \<lparr>c_write = writeU8OrThrow, c_read = readU8\<rparr> [6] \<noteq> Inr 5"
proof -
  have "decodeStruct \<lparr>c_write = writeU8OrThrow, c_read = readU8\<rparr> [5] = Inr 5"
    by (simp add: decodeStruct_def readU8_def newReader_def checkPositionLimit_def r_isExhausted_def
        encodeStruct_def writeU8OrThrow_def)
  from decodeStruct_one_encoding [OF this, of "[6]"] show ?thesis by auto
qed

text \<open>The hex boundary is a bijection: \<open>hexToBytes\<close> inverts \<open>bytesToHex\<close>, and a
  string it accepts is exactly the lowercase rendering of its bytes, so an
  identifier has one spelling.\<close>
lemma hex_roundtrip:
  "hexToBytes (bytesToHex bs) = Inr bs \<and>
   (hexToBytes s = Inr cs \<longleftrightarrow> s = bytesToHex cs) \<and> length (bytesToHex bs) = 2 * length bs"
proof -
  have iff: "hexToBytes s = Inr cs \<longleftrightarrow> s = bytesToHex cs" for s cs
  proof -
    have "hexToBytes s = Inr cs \<longleftrightarrow> hexToBytesExact s (length s div 2) = Some cs"
      by (auto simp: hexToBytes_def split: option.splits)
    then show ?thesis unfolding hexToBytesExact_iff by (auto simp: bytesToHex_length)
  qed
  show ?thesis by (simp add: iff bytesToHex_length)
qed

end
