(* ===== verification/Boxes.thy ===== *)
theory Boxes
  imports Codec
begin

text \<open>
  \<open>packages/types/src/utxo.ts\<close>, the boxes: the tag table, the box candidates as a
  record of the shared prefix and a datatype of per-type tails, the content
  bytes, the box record (content and provenance), the hash \<open>hash32\<close>
  (\<open>hash.ts\<close>) and the box ids derived from it.  BLAKE2b is not under the
  repository: it is the parameter \<open>H\<close>, a function from bytes to its 64-byte
  digest.
\<close>

section \<open>Box types\<close>

datatype boxType =
    BT_karma | BT_credit | BT_genesis_proof | BT_bond | BT_vouch | BT_emission | BT_treasury
  | BT_fee | BT_karma_pool | BT_like_accrual | BT_vouch_escrow | BT_karma_price | BT_username
  | BT_backer_stake | BT_backer_unstake | BT_backer_pool

definition BOX_TYPE_TAGS :: "(boxType \<times> int) list" where
  "BOX_TYPE_TAGS =
     [(BT_karma, 0), (BT_credit, 1), (BT_genesis_proof, 3), (BT_bond, 4), (BT_vouch, 6),
      (BT_emission, 7), (BT_treasury, 8), (BT_fee, 9), (BT_karma_pool, 10), (BT_like_accrual, 11),
      (BT_vouch_escrow, 12), (BT_karma_price, 13), (BT_username, 14), (BT_backer_stake, 15),
      (BT_backer_unstake, 16), (BT_backer_pool, 17)]"

text \<open>The fields each box type adds to the shared prefix.\<close>
datatype boxTail =
    Karma (karma_owner: "byte list") (karma_income: bool)
  | Credit "byte list" "int option"
  | GenesisProof "byte list"
  | Bond "byte list" "byte list"
  | Vouch "byte list" "byte list"
  | Emission
  | Treasury
  | Fee
  | KarmaPool
  | LikeAccrual "byte list"
  | VouchEscrow "byte list" int
  | KarmaPrice
  | Username "byte list" "byte list"
  | BackerStake "byte list" int
  | BackerUnstake "byte list" int
  | BackerPool int int

fun tail_type :: "boxTail \<Rightarrow> boxType" where
  "tail_type (Karma _ _) = BT_karma"
| "tail_type (Credit _ _) = BT_credit"
| "tail_type (GenesisProof _) = BT_genesis_proof"
| "tail_type (Bond _ _) = BT_bond"
| "tail_type (Vouch _ _) = BT_vouch"
| "tail_type Emission = BT_emission"
| "tail_type Treasury = BT_treasury"
| "tail_type Fee = BT_fee"
| "tail_type KarmaPool = BT_karma_pool"
| "tail_type (LikeAccrual _) = BT_like_accrual"
| "tail_type (VouchEscrow _ _) = BT_vouch_escrow"
| "tail_type KarmaPrice = BT_karma_price"
| "tail_type (Username _ _) = BT_username"
| "tail_type (BackerStake _ _) = BT_backer_stake"
| "tail_type (BackerUnstake _ _) = BT_backer_unstake"
| "tail_type (BackerPool _ _) = BT_backer_pool"

record candidate =
  boxValue :: int
  createdAtBlock :: int
  boxTail :: boxTail

record anyBox = candidate +
  boxId :: string
  boxTxId :: string
  boxIndex :: int

abbreviation boxTypeOf :: "'a candidate_scheme \<Rightarrow> boxType" where
  "boxTypeOf c \<equiv> tail_type (boxTail c)"

definition MAX_GENESIS_PROOF_PAYLOAD_BYTES :: int where
  "MAX_GENESIS_PROOF_PAYLOAD_BYTES = 512"

definition USERNAME_MAX_BYTES :: int where
  "USERNAME_MAX_BYTES = 24"

definition BOX_VALUE_BOUND :: int where
  "BOX_VALUE_BOUND = 2 ^ 63"

section \<open>Content bytes\<close>

fun writeBoxTypeFields :: "boxTail \<Rightarrow> byte list res" where
  "writeBoxTypeFields (Karma owner income) =
     wcat [writeBytesNOrThrow owner 32, writeU8OrThrow (if income then 1 else 0)]"
| "writeBoxTypeFields (Credit owner lockedUntilBlock) =
     wcat [writeBytesNOrThrow owner 32, writeOpt lockedUntilBlock writeVlqU]"
| "writeBoxTypeFields (GenesisProof payload) = writeLp payload"
| "writeBoxTypeFields (Bond inviterId inviteePublicKey) =
     wcat [writeBytesNOrThrow inviterId 32, writeBytesNOrThrow inviteePublicKey 32]"
| "writeBoxTypeFields (Vouch voucherId targetId) =
     wcat [writeBytesNOrThrow voucherId 32, writeBytesNOrThrow targetId 32]"
| "writeBoxTypeFields (LikeAccrual author) = writeBytesNOrThrow author 32"
| "writeBoxTypeFields (Username owner name) =
     wcat [writeBytesNOrThrow owner 32, writeLp name]"
| "writeBoxTypeFields (BackerStake owner weight) =
     wcat [writeBytesNOrThrow owner 32, writeVlqU64OrThrow weight]"
| "writeBoxTypeFields (BackerUnstake owner weight) =
     wcat [writeBytesNOrThrow owner 32, writeVlqU64OrThrow weight]"
| "writeBoxTypeFields (BackerPool staked accrual) =
     wcat [writeVlqU64OrThrow staked, writeVlqU64OrThrow accrual]"
| "writeBoxTypeFields (VouchEscrow owner releaseAtBlock) =
     wcat [writeBytesNOrThrow owner 32, writeVlqU releaseAtBlock]"
| "writeBoxTypeFields Emission = Inr []"
| "writeBoxTypeFields Treasury = Inr []"
| "writeBoxTypeFields Fee = Inr []"
| "writeBoxTypeFields KarmaPool = Inr []"
| "writeBoxTypeFields KarmaPrice = Inr []"

definition canonicalBoxBytes :: "'a candidate_scheme \<Rightarrow> byte list res" where
  "canonicalBoxBytes c = wcat
     [enum8_write BOX_TYPE_TAGS (boxTypeOf c), writeVlqU64OrThrow (boxValue c),
      writeVlqU (createdAtBlock c), writeBoxTypeFields (boxTail c)]"

text \<open>The per-type switch of \<open>readBoxContentFields\<close>.\<close>
fun readBoxTypeFields :: "boxType \<Rightarrow> boxTail rd" where
  "readBoxTypeFields BT_karma = rbind (readBytesN 32) (\<lambda>owner. rbind readU8 (\<lambda>mark.
     if mark = 0 then rret (Karma owner False)
     else if mark = 1 then rret (Karma owner True)
     else rfail (ReaderErr InvalidTag)))"
| "readBoxTypeFields BT_credit = rbind (readBytesN 32) (\<lambda>owner. rbind (readOpt readVlqU) (\<lambda>l.
     rret (Credit owner l)))"
| "readBoxTypeFields BT_genesis_proof = rbind readLp (\<lambda>payload.
     if int (length payload) > MAX_GENESIS_PROOF_PAYLOAD_BYTES then rfail (ReaderErr OutOfDomain)
     else rret (GenesisProof payload))"
| "readBoxTypeFields BT_bond = rbind (readBytesN 32) (\<lambda>a. rbind (readBytesN 32) (\<lambda>b. rret (Bond a b)))"
| "readBoxTypeFields BT_vouch = rbind (readBytesN 32) (\<lambda>a. rbind (readBytesN 32) (\<lambda>b. rret (Vouch a b)))"
| "readBoxTypeFields BT_like_accrual = rbind (readBytesN 32) (\<lambda>a. rret (LikeAccrual a))"
| "readBoxTypeFields BT_username = rbind (readBytesN 32) (\<lambda>owner. rbind readVlqU (\<lambda>nameLen.
     if nameLen > USERNAME_MAX_BYTES then rfail (ReaderErr OutOfDomain)
     else rbind (readBytesN nameLen) (\<lambda>name. rret (Username owner name))))"
| "readBoxTypeFields BT_backer_stake = rbind (readBytesN 32) (\<lambda>owner. rbind readVlqBigInt (\<lambda>w.
     rret (BackerStake owner w)))"
| "readBoxTypeFields BT_backer_unstake = rbind (readBytesN 32) (\<lambda>owner. rbind readVlqBigInt (\<lambda>w.
     rret (BackerUnstake owner w)))"
| "readBoxTypeFields BT_backer_pool = rbind readVlqBigInt (\<lambda>s. rbind readVlqBigInt (\<lambda>a.
     rret (BackerPool s a)))"
| "readBoxTypeFields BT_vouch_escrow = rbind (readBytesN 32) (\<lambda>owner. rbind readVlqU (\<lambda>h.
     rret (VouchEscrow owner h)))"
| "readBoxTypeFields BT_emission = rret Emission"
| "readBoxTypeFields BT_treasury = rret Treasury"
| "readBoxTypeFields BT_fee = rret Fee"
| "readBoxTypeFields BT_karma_pool = rret KarmaPool"
| "readBoxTypeFields BT_karma_price = rret KarmaPrice"

definition readBoxContentFields :: "candidate rd" where
  "readBoxContentFields =
     rbind (enum8_read BOX_TYPE_TAGS) (\<lambda>boxType. rbind readVlqBigInt (\<lambda>v. rbind readVlqU (\<lambda>h.
     rbind (readBoxTypeFields boxType) (\<lambda>tail.
     rret \<lparr>boxValue = v, createdAtBlock = h, boxTail = tail\<rparr>))))"

text \<open>The values a box's fields may take for its bytes to decode.\<close>
fun tail_dom :: "boxTail \<Rightarrow> bool" where
  "tail_dom (Credit _ (Some h)) = isEncodableVlqU h"
| "tail_dom (GenesisProof p) = (int (length p) \<le> MAX_GENESIS_PROOF_PAYLOAD_BYTES)"
| "tail_dom (Username _ name) = (int (length name) \<le> USERNAME_MAX_BYTES)"
| "tail_dom (VouchEscrow _ h) = isEncodableVlqU h"
| "tail_dom _ = True"

definition candidate_dom :: "'a candidate_scheme \<Rightarrow> bool" where
  "candidate_dom c \<longleftrightarrow> isEncodableVlqU (createdAtBlock c) \<and> tail_dom (boxTail c)"

lemma BOX_TYPE_TAGS_ok: "enum8_ok BOX_TYPE_TAGS"
  by (simp add: enum8_ok_def BOX_TYPE_TAGS_def)

lemma BOX_TYPE_TAGS_total: "t \<in> fst ` set BOX_TYPE_TAGS"
  by (cases t) (simp_all add: BOX_TYPE_TAGS_def)

lemma parses_b32: "writeBytesNOrThrow cs 32 = Inr bs \<Longrightarrow> parses (readBytesN 32) bs cs"
  using parses_writeBytesN [of cs 32 bs] by simp

lemmas parses_fields = parses_b32 parses_writeU8 parses_writeVlqU parses_writeVlqU64
  parses_writeLp parses_writeHexN parses_rret

lemma parses_tail:
  assumes "writeBoxTypeFields t = Inr bs" "tail_dom t"
  shows "parses (readBoxTypeFields (tail_type t)) bs t"
proof (cases t)
  case (Karma owner income)
  then show ?thesis using assms
    by (cases income) (auto simp: wcat_Cons_eq wcat_Nil_eq intro!: parses_rbind parses_rret
        intro: parses_fields simp del: append_Nil2 wcat.simps)
next
  case (Credit owner l)
  have "parses (readOpt readVlqU) cs l" if "writeOpt l writeVlqU = Inr cs" for cs
    using that assms Credit by (intro parses_writeOpt [of l writeVlqU]) (auto intro: parses_writeVlqU)
  then show ?thesis using assms Credit
    by (auto simp: wcat_Cons_eq wcat_Nil_eq intro!: parses_rbind parses_rret
        intro: parses_fields simp del: append_Nil2 wcat.simps)
next
  case (Username owner name)
  then obtain x where x: "writeBytesNOrThrow owner 32 = Inr x" "bs = x @ vlq (int (length name)) @ name @ []"
      "int (length name) \<le> MAX_SAFE_INTEGER"
    using assms by (auto simp: wcat_Cons_eq wcat_Nil_eq writeLp_eq simp del: wcat.simps)
  have "parses (readBytesN (int (length name))) name name"
    by (simp add: readBytesN_def parses_readBytes)
  then show ?thesis
    unfolding x(2) Username using assms Username x
    by (auto intro!: parses_rbind parses_rret parses_readVlqU parses_b32 simp del: append_Nil2)
next
  case (GenesisProof payload)
  then have "parses (rbind readLp (\<lambda>payload. if int (length payload) > MAX_GENESIS_PROOF_PAYLOAD_BYTES
      then rfail (ReaderErr OutOfDomain) else rret (GenesisProof payload))) (bs @ []) t"
    using assms by (intro parses_rbind parses_writeLp) (auto intro: parses_rret)
  then show ?thesis using GenesisProof by simp
qed (use assms in \<open>auto simp: wcat_Cons_eq wcat_Nil_eq intro!: parses_rbind parses_rret
    intro: parses_fields parses_rbind_last simp del: append_Nil2 wcat.simps\<close>)

lemma parses_readBoxContentFields:
  assumes "canonicalBoxBytes c = Inr bs" "candidate_dom c"
  shows "parses readBoxContentFields bs
    \<lparr>boxValue = boxValue c, createdAtBlock = createdAtBlock c, boxTail = boxTail c\<rparr>"
proof -
  obtain b1 b2 b3 b4 where b: "enum8_write BOX_TYPE_TAGS (boxTypeOf c) = Inr b1"
      "writeVlqU64OrThrow (boxValue c) = Inr b2" "writeVlqU (createdAtBlock c) = Inr b3"
      "writeBoxTypeFields (boxTail c) = Inr b4" "bs = b1 @ b2 @ b3 @ b4 @ []"
    using assms(1) by (auto simp: canonicalBoxBytes_def wcat_Cons_eq wcat_Nil_eq simp del: wcat.simps)
  have d: "isEncodableVlqU (createdAtBlock c)" "tail_dom (boxTail c)"
    using assms(2) by (simp_all add: candidate_dom_def)
  note p = parses_enum8 [OF BOX_TYPE_TAGS_ok b(1) BOX_TYPE_TAGS_total] parses_writeVlqU64 [OF b(2)]
    parses_writeVlqU [OF b(3) d(1)] parses_tail [OF b(4) d(2)]
  show ?thesis
    unfolding readBoxContentFields_def b(5)
    by (rule parses_rbind, rule p(1), rule parses_rbind, rule p(2), rule parses_rbind, rule p(3),
        rule parses_rbind, rule p(4), rule parses_rret)
qed

lemma parses_candidate:
  fixes c :: candidate
  assumes "canonicalBoxBytes c = Inr bs" "candidate_dom c"
  shows "parses readBoxContentFields bs c"
  using parses_readBoxContentFields [OF assms] by (cases c) simp

lemma canonicalBoxBytes_nonempty: "canonicalBoxBytes c = Inr bs \<Longrightarrow> bs \<noteq> []"
  by (auto simp: canonicalBoxBytes_def wcat_Cons_eq enum8_write_def writeU8_eq
      simp del: wcat.simps split: option.splits)

section \<open>Box records and ids\<close>

type_synonym hash = "byte list \<Rightarrow> byte list"

text \<open>\<open>hash32\<close>: the first 32 bytes of the digest of the parts in order.\<close>
definition hash32 :: "hash \<Rightarrow> byte list list \<Rightarrow> byte list" where
  "hash32 H parts = take 32 (H (concat parts))"

definition ascii :: "string \<Rightarrow> byte list" where
  "ascii s = map (\<lambda>c. word_of_nat (of_char c)) s"

definition BOX_ID_DOMAIN :: "byte list" where
  "BOX_ID_DOMAIN = ascii ''dagsocial/box-id/1''"

record boxRecord =
  rec_candidate :: candidate
  rec_txId :: string
  rec_index :: int

definition BOX_RECORD :: "boxRecord structCodec" where
  "BOX_RECORD = \<lparr>
     c_write = (\<lambda>r. wcat [canonicalBoxBytes (rec_candidate r), writeHexNOrThrow (rec_txId r) 32,
                          writeVlqU (rec_index r)]),
     c_read = rbind readBoxContentFields (\<lambda>c. rbind (readHexN 32) (\<lambda>t. rbind readVlqU (\<lambda>i.
       rret \<lparr>rec_candidate = c, rec_txId = t, rec_index = i\<rparr>)))\<rparr>"

definition boxRecordBytes :: "candidate \<Rightarrow> string \<Rightarrow> int \<Rightarrow> byte list res" where
  "boxRecordBytes c txId index =
     encodeStruct BOX_RECORD \<lparr>rec_candidate = c, rec_txId = txId, rec_index = index\<rparr>"

definition boxRecordFromBytes :: "byte list \<Rightarrow> boxRecord res" where
  "boxRecordFromBytes bytes = decodeStruct BOX_RECORD bytes"

definition candidate_of :: "anyBox \<Rightarrow> candidate" where
  "candidate_of b = \<lparr>boxValue = boxValue b, createdAtBlock = createdAtBlock b, boxTail = boxTail b\<rparr>"

definition computeCandidateBoxId :: "hash \<Rightarrow> candidate \<Rightarrow> string \<Rightarrow> int \<Rightarrow> string res" where
  "computeCandidateBoxId H c txId index =
     ebind (boxRecordBytes c txId index) (\<lambda>bs. Inr (bytesToHex (hash32 H [BOX_ID_DOMAIN, bs])))"

definition computeBoxId :: "hash \<Rightarrow> anyBox \<Rightarrow> string res" where
  "computeBoxId H b = computeCandidateBoxId H (candidate_of b) (boxTxId b) (boxIndex b)"

definition boxRecord_dom :: "boxRecord \<Rightarrow> bool" where
  "boxRecord_dom r \<longleftrightarrow> candidate_dom (rec_candidate r) \<and> isEncodableVlqU (rec_index r)"

interpretation box_record: struct_codec BOX_RECORD boxRecord_dom
proof unfold_locales
  fix r bs assume d: "boxRecord_dom r" and w: "c_write BOX_RECORD r = Inr bs"
  obtain b1 b2 b3 where b: "canonicalBoxBytes (rec_candidate r) = Inr b1"
      "writeHexNOrThrow (rec_txId r) 32 = Inr b2" "writeVlqU (rec_index r) = Inr b3"
      "bs = b1 @ b2 @ b3 @ []"
    using w by (auto simp: BOX_RECORD_def wcat_Cons_eq wcat_Nil_eq simp del: wcat.simps)
  have c: "candidate_dom (rec_candidate r)" "isEncodableVlqU (rec_index r)"
    using d by (simp_all add: boxRecord_dom_def)
  note p = parses_candidate [OF b(1) c(1)]
  have "parses (c_read BOX_RECORD) bs \<lparr>rec_candidate = rec_candidate r, rec_txId = rec_txId r,
      rec_index = rec_index r\<rparr>"
    unfolding BOX_RECORD_def b(4) structCodec.simps
    by (rule parses_rbind, rule p, rule parses_rbind, rule parses_writeHexN [OF b(2)],
        rule parses_rbind, rule parses_writeVlqU [OF b(3) c(2)], rule parses_rret)
  then show "parses (c_read BOX_RECORD) bs r" by (cases r) simp
qed

section \<open>Properties\<close>

text \<open>A box record round-trips for every box type: what the store holds for a
  box decodes, through the whole boundary check, to that box with the provenance
  it was stored with.\<close>
theorem box_record_roundtrip:
  assumes "candidate_dom c" "isEncodableVlqU index" "boxRecordBytes c txId index = Inr bs"
  shows "boxRecordFromBytes bs = Inr \<lparr>rec_candidate = c, rec_txId = txId, rec_index = index\<rparr>"
  using assms box_record.decode_encode
  by (simp add: boxRecordBytes_def boxRecordFromBytes_def boxRecord_dom_def)

definition sampleBox :: candidate where
  "sampleBox = \<lparr>boxValue = 40, createdAtBlock = 300, boxTail = Karma (replicate 32 7) True\<rparr>"

lemma sampleBox_record:
  "boxRecordBytes sampleBox (bytesToHex (replicate 32 255)) 2 =
     Inr ([0] @ vlq 40 @ vlq 300 @ replicate 32 7 @ [1] @ replicate 32 255 @ vlq 2)"
  by (simp add: boxRecordBytes_def encodeStruct_def BOX_RECORD_def wcat_Cons_eq wcat_Nil_eq
      canonicalBoxBytes_def enum8_write_def BOX_TYPE_TAGS_def sampleBox_def writeHexN_eq
      writeU8_eq writeVlqU64_eq writeBytesN_eq writeVlqU_bytes isEncodableVlqU_iff
      MAX_SAFE_INTEGER_def U64_MAX_def del: wcat.simps)

lemma box_record_roundtrip_witness:
  "boxRecordFromBytes ([0] @ vlq 40 @ vlq 300 @ replicate 32 7 @ [1] @ replicate 32 255 @ vlq 2) =
     Inr \<lparr>rec_candidate = sampleBox, rec_txId = bytesToHex (replicate 32 255), rec_index = 2\<rparr>"
  using box_record_roundtrip [OF _ _ sampleBox_record]
  by (simp add: candidate_dom_def isEncodableVlqU_iff MAX_SAFE_INTEGER_def sampleBox_def)

text \<open>C38: a box id binds the whole box and its provenance. Two boxes, of whatever
  types, that share an id are equal in type, value, height, every per-type field,
  creating transaction and index, unless their two different records are an
  explicit collision of the truncated hash.\<close>
theorem box_id_binds_box:
  assumes "candidate_dom c" "candidate_dom c'" "isEncodableVlqU i" "isEncodableVlqU i'"
    and "boxRecordBytes c t i = Inr p" "boxRecordBytes c' t' i' = Inr p'"
    and "computeCandidateBoxId H c t i = computeCandidateBoxId H c' t' i'"
    and "hash32 H [BOX_ID_DOMAIN, p] = hash32 H [BOX_ID_DOMAIN, p'] \<longrightarrow> p = p'"
  shows "c = c' \<and> t = t' \<and> i = i'"
proof -
  have "p = p'" using assms(5-8) by (simp add: computeCandidateBoxId_def)
  then show ?thesis
    using box_record.encode_inject [of "\<lparr>rec_candidate = c, rec_txId = t, rec_index = i\<rparr>"
        "\<lparr>rec_candidate = c', rec_txId = t', rec_index = i'\<rparr>" p] assms
    by (simp add: boxRecordBytes_def boxRecord_dom_def)
qed

lemma box_id_binds_box_witness:
  "sampleBox = sampleBox \<and> bytesToHex (replicate 32 255) = bytesToHex (replicate 32 255) \<and> (2 :: int) = 2"
  using box_id_binds_box [OF _ _ _ _ sampleBox_record sampleBox_record, of "\<lambda>b. b"]
  by (simp add: candidate_dom_def isEncodableVlqU_iff MAX_SAFE_INTEGER_def sampleBox_def)

end
