(* ===== verification/Tx.thy ===== *)
theory Tx
  imports Boxes "HOL-Library.AList" "HOL-Library.List_Lexorder" "HOL-Library.Char_ord" "HOL-Library.Multiset"
begin

text \<open>
  Posts (\<open>packages/types/src/post.ts\<close>, \<open>post-withdraw.ts\<close>), the transaction with its
  id (\<open>utxo.ts\<close>), its wire codec (\<open>serialization.ts\<close>, \<open>TX\<close>), mint ids and box
  selection.  The signature record of the source is an association list in
  insertion order; the codec writes its keys sorted.
\<close>

section \<open>Posts\<close>

datatype postType = Regular | Profile

definition POST_TYPE_TAGS :: "(postType \<times> int) list" where
  "POST_TYPE_TAGS = [(Regular, 0), (Profile, 1)]"

record postCommit =
  contentHash :: "byte list"
  author :: "byte list"
  parentRefs :: "string list"
  pc_protocolVersion :: int
  postType :: postType

definition postFieldBytes :: "postCommit \<Rightarrow> byte list res" where
  "postFieldBytes c = wcat
     [writeBytesNOrThrow (contentHash c) 32, writeBytesNOrThrow (author c) 32,
      writeArr (parentRefs c) (\<lambda>ref. writeHexNOrThrow ref 32),
      writeVlqU (pc_protocolVersion c), enum8_write POST_TYPE_TAGS (postType c)]"

definition readPostCommitFields :: "postCommit rd" where
  "readPostCommitFields =
     rbind (readBytesN 32) (\<lambda>h. rbind (readBytesN 32) (\<lambda>a. rbind (readArr (readHexN 32)) (\<lambda>refs.
     rbind readVlqU (\<lambda>v. rbind (enum8_read POST_TYPE_TAGS) (\<lambda>t.
     rret \<lparr>contentHash = h, author = a, parentRefs = refs, pc_protocolVersion = v, postType = t\<rparr>)))))"

definition POST_COMMIT :: "postCommit structCodec" where
  "POST_COMMIT = \<lparr>c_write = postFieldBytes, c_read = readPostCommitFields\<rparr>"

definition postCommit_dom :: "postCommit \<Rightarrow> bool" where
  "postCommit_dom c \<longleftrightarrow> isEncodableVlqU (pc_protocolVersion c)
     \<and> int (length (parentRefs c)) \<le> MAX_ARRAY_LENGTH"

definition postWithdrawFieldBytes :: "string \<Rightarrow> byte list res" where
  "postWithdrawFieldBytes postId = writeHexNOrThrow postId 32"

definition readPostWithdrawCommitFields :: "string rd" where
  "readPostWithdrawCommitFields = readHexN 32"

definition POST_ID_DOMAIN :: "byte list" where
  "POST_ID_DOMAIN = ascii ''dagsocial/post-id/1''"

definition computePostId :: "hash \<Rightarrow> string \<Rightarrow> int \<Rightarrow> string" where
  "computePostId H txId index = bytesToHex (hash32 H [POST_ID_DOMAIN, ascii txId, u32BE index])"

lemma hex32_element: "writeHexNOrThrow x 32 = Inr cs \<Longrightarrow> parses (readHexN 32) cs x \<and> cs \<noteq> []"
  using parses_writeHexN [of x 32 cs] by (auto simp: writeHexN_eq)

lemma parses_hexArr:
  "writeArr xs (\<lambda>x. writeHexNOrThrow x 32) = Inr bs \<Longrightarrow> int (length xs) \<le> MAX_ARRAY_LENGTH \<Longrightarrow>
    parses (readArr (readHexN 32)) bs xs"
  by (rule parses_writeArr) (auto dest: hex32_element)

lemma POST_TYPE_TAGS_ok: "enum8_ok POST_TYPE_TAGS" "t \<in> fst ` set POST_TYPE_TAGS"
  by (auto simp: enum8_ok_def POST_TYPE_TAGS_def intro: postType.exhaust [of t])

lemma parses_postCommit:
  assumes "postFieldBytes c = Inr bs" "postCommit_dom c"
  shows "parses readPostCommitFields bs c"
proof -
  obtain b1 b2 b3 b4 b5 where b: "writeBytesNOrThrow (contentHash c) 32 = Inr b1"
      "writeBytesNOrThrow (author c) 32 = Inr b2"
      "writeArr (parentRefs c) (\<lambda>ref. writeHexNOrThrow ref 32) = Inr b3"
      "writeVlqU (pc_protocolVersion c) = Inr b4" "enum8_write POST_TYPE_TAGS (postType c) = Inr b5"
      "bs = b1 @ b2 @ b3 @ b4 @ b5 @ []"
    using assms(1) by (auto simp: postFieldBytes_def wcat_Cons_eq wcat_Nil_eq simp del: wcat.simps)
  have d: "isEncodableVlqU (pc_protocolVersion c)" "int (length (parentRefs c)) \<le> MAX_ARRAY_LENGTH"
    using assms(2) by (simp_all add: postCommit_dom_def)
  have "parses readPostCommitFields bs \<lparr>contentHash = contentHash c, author = author c,
      parentRefs = parentRefs c, pc_protocolVersion = pc_protocolVersion c, postType = postType c\<rparr>"
    unfolding readPostCommitFields_def b(6)
    by (rule parses_rbind, rule parses_b32 [OF b(1)], rule parses_rbind, rule parses_b32 [OF b(2)],
        rule parses_rbind, rule parses_hexArr [OF b(3) d(2)], rule parses_rbind,
        rule parses_writeVlqU [OF b(4) d(1)], rule parses_rbind,
        rule parses_enum8 [OF POST_TYPE_TAGS_ok(1) b(5) POST_TYPE_TAGS_ok(2)], rule parses_rret)
  then show ?thesis by (cases c) simp
qed

interpretation post_commit: struct_codec POST_COMMIT postCommit_dom
  by unfold_locales (simp add: POST_COMMIT_def parses_postCommit)

section \<open>Transactions\<close>

record utxoTransaction =
  inputs :: "string list"
  outputs :: "candidate list"
  signatures :: "(string \<times> byte list) list"
  protocolVersion :: int
  likeTarget :: "string option"
  post :: "postCommit option"
  postWithdraw :: "string option"

definition txIdBytes :: "utxoTransaction \<Rightarrow> byte list res" where
  "txIdBytes tx = wcat
     [writeArr (inputs tx) (\<lambda>i. writeHexNOrThrow i 32),
      writeArr (outputs tx) canonicalBoxBytes,
      writeVlqU (protocolVersion tx),
      writeOpt (likeTarget tx) (\<lambda>t. writeHexNOrThrow t 32),
      writeOpt (post tx) postFieldBytes,
      writeOpt (postWithdraw tx) postWithdrawFieldBytes]"

definition readTxIdFields :: "utxoTransaction rd" where
  "readTxIdFields =
     rbind (readArr (readHexN 32)) (\<lambda>is. rbind (readArr readBoxContentFields) (\<lambda>os.
     rbind readVlqU (\<lambda>v. rbind (readOpt (readHexN 32)) (\<lambda>l.
     rbind (readOpt readPostCommitFields) (\<lambda>p. rbind (readOpt readPostWithdrawCommitFields) (\<lambda>w.
     rret \<lparr>inputs = is, outputs = os, signatures = [], protocolVersion = v, likeTarget = l,
           post = p, postWithdraw = w\<rparr>))))))"

definition TX_ID_DOMAIN :: "byte list" where
  "TX_ID_DOMAIN = ascii ''dagsocial/tx-id/1''"

definition computeTxId :: "hash \<Rightarrow> utxoTransaction \<Rightarrow> string res" where
  "computeTxId H tx = ebind (txIdBytes tx) (\<lambda>bs. Inr (bytesToHex (hash32 H [TX_ID_DOMAIN, bs])))"

definition tx_dom :: "utxoTransaction \<Rightarrow> bool" where
  "tx_dom tx \<longleftrightarrow> int (length (inputs tx)) \<le> MAX_ARRAY_LENGTH
     \<and> int (length (outputs tx)) \<le> MAX_ARRAY_LENGTH
     \<and> list_all candidate_dom (outputs tx) \<and> isEncodableVlqU (protocolVersion tx)
     \<and> (case post tx of None \<Rightarrow> True | Some p \<Rightarrow> postCommit_dom p)"

text \<open>The wire codec adds the signatures, their keys sorted.\<close>
definition writeSignature :: "string \<times> byte list \<Rightarrow> byte list res" where
  "writeSignature e = wcat [writeHexNOrThrow (fst e) 32, writeBytesNOrThrow (snd e) 64]"

definition readSignature :: "(string \<times> byte list) rd" where
  "readSignature = rbind (readHexN 32) (\<lambda>k. rbind (readBytesN 64) (\<lambda>s. rret (k, s)))"

definition sortedSignatures :: "utxoTransaction \<Rightarrow> (string \<times> byte list) list" where
  "sortedSignatures tx = map (\<lambda>k. (k, the (map_of (signatures tx) k))) (sort (map fst (signatures tx)))"

definition fromEntries :: "('k \<times> 'v) list \<Rightarrow> ('k \<times> 'v) list" where
  "fromEntries es = fold (\<lambda>(k, v) m. AList.update k v m) es []"

definition TX :: "utxoTransaction structCodec" where
  "TX = \<lparr>c_write = (\<lambda>tx. wcat [txIdBytes tx, writeArr (sortedSignatures tx) writeSignature]),
         c_read = rbind readTxIdFields (\<lambda>tx. rbind (readArr readSignature) (\<lambda>es.
           rret (tx\<lparr>signatures := fromEntries es\<rparr>)))\<rparr>"

definition encodeTx :: "utxoTransaction \<Rightarrow> byte list res" where
  "encodeTx tx = encodeStruct TX tx"

definition decodeTx :: "byte list \<Rightarrow> utxoTransaction res" where
  "decodeTx bytes = decodeStruct TX bytes"

text \<open>The signatures as the codec returns them: one entry per key, in key order.\<close>
definition signed_dom :: "utxoTransaction \<Rightarrow> bool" where
  "signed_dom tx \<longleftrightarrow> tx_dom tx \<and> int (length (signatures tx)) \<le> MAX_ARRAY_LENGTH
     \<and> distinct (map fst (signatures tx)) \<and> sorted (map fst (signatures tx))"

lemma parses_readTxIdFields:
  assumes "txIdBytes tx = Inr bs" "tx_dom tx"
  shows "parses readTxIdFields bs (tx\<lparr>signatures := []\<rparr>)"
proof -
  obtain b1 b2 b3 b4 b5 b6 where b:
      "writeArr (inputs tx) (\<lambda>i. writeHexNOrThrow i 32) = Inr b1"
      "writeArr (outputs tx) canonicalBoxBytes = Inr b2" "writeVlqU (protocolVersion tx) = Inr b3"
      "writeOpt (likeTarget tx) (\<lambda>t. writeHexNOrThrow t 32) = Inr b4"
      "writeOpt (post tx) postFieldBytes = Inr b5"
      "writeOpt (postWithdraw tx) postWithdrawFieldBytes = Inr b6"
      "bs = b1 @ b2 @ b3 @ b4 @ b5 @ b6 @ []"
    using assms(1) by (auto simp: txIdBytes_def wcat_Cons_eq wcat_Nil_eq simp del: wcat.simps)
  note d = assms(2) [unfolded tx_dom_def]
  have p1: "parses (readArr (readHexN 32)) b1 (inputs tx)"
    using parses_hexArr [OF b(1)] d by simp
  have p2: "parses (readArr readBoxContentFields) b2 (outputs tx)"
  proof (rule parses_writeArr [OF b(2)])
    fix x cs assume "x \<in> set (outputs tx)" "canonicalBoxBytes x = Inr cs"
    then show "parses readBoxContentFields cs x \<and> cs \<noteq> []"
      using parses_candidate [of x cs] canonicalBoxBytes_nonempty [of x cs] d
      by (auto simp: list_all_iff)
  qed (use d in simp)
  have p3: "parses readVlqU b3 (protocolVersion tx)" using parses_writeVlqU [OF b(3)] d by simp
  have p4: "parses (readOpt (readHexN 32)) b4 (likeTarget tx)"
    by (rule parses_writeOpt [OF b(4)]) (rule parses_writeHexN)
  have p5: "parses (readOpt readPostCommitFields) b5 (post tx)"
    by (rule parses_writeOpt [OF b(5)]) (use d in \<open>auto intro: parses_postCommit\<close>)
  have p6: "parses (readOpt readPostWithdrawCommitFields) b6 (postWithdraw tx)"
    by (rule parses_writeOpt [OF b(6)])
      (auto simp: postWithdrawFieldBytes_def readPostWithdrawCommitFields_def intro: parses_writeHexN)
  have "parses readTxIdFields bs \<lparr>inputs = inputs tx, outputs = outputs tx, signatures = [],
      protocolVersion = protocolVersion tx, likeTarget = likeTarget tx, post = post tx,
      postWithdraw = postWithdraw tx\<rparr>"
    unfolding readTxIdFields_def b(7)
    by (rule parses_rbind, rule p1, rule parses_rbind, rule p2, rule parses_rbind, rule p3,
        rule parses_rbind, rule p4, rule parses_rbind, rule p5, rule parses_rbind, rule p6,
        rule parses_rret)
  then show ?thesis by (cases tx) simp
qed

lemma sortedSignatures_sorted:
  assumes "distinct (map fst (signatures tx))" "sorted (map fst (signatures tx))"
  shows "sortedSignatures tx = signatures tx"
proof -
  have "map (\<lambda>k. (k, the (map_of es k))) (map fst es) = es" if "distinct (map fst es)"
    for es :: "(string \<times> byte list) list"
    using that by (auto simp: comp_def intro!: map_idI)
  then show ?thesis using assms by (simp add: sortedSignatures_def sort_key_id_if_sorted sorted_sort_id)
qed

lemma fromEntries_distinct:
  assumes "distinct (map fst es)"
  shows "fromEntries es = es"
proof -
  have "fold (\<lambda>(k, v) m. AList.update k v m) es m = m @ es"
    if "distinct (map fst es)" "fst ` set es \<inter> fst ` set m = {}" for m
    using that
  proof (induction es arbitrary: m)
    case (Cons e es)
    have "AList.update (fst e) (snd e) m = m @ [e]" if "fst e \<notin> fst ` set m" for m
      using that by (induction m) auto
    with Cons show ?case by (cases e) auto
  qed simp
  from this [OF assms, of "[]"] show ?thesis by (simp add: fromEntries_def)
qed

lemma parses_signature: "writeSignature e = Inr bs \<Longrightarrow> parses readSignature bs e \<and> bs \<noteq> []"
proof
  assume w: "writeSignature e = Inr bs"
  then obtain a b where b: "writeHexNOrThrow (fst e) 32 = Inr a" "writeBytesNOrThrow (snd e) 64 = Inr b"
      "bs = a @ b @ []"
    by (auto simp: writeSignature_def wcat_Cons_eq wcat_Nil_eq simp del: wcat.simps)
  have "parses readSignature bs (fst e, snd e)"
    unfolding readSignature_def b(3)
    using parses_writeHexN [OF b(1)] parses_writeBytesN [OF b(2)]
    by (intro parses_rbind [where v = "fst e"] parses_rbind [where v = "snd e"]) (simp_all add: parses_rret)
  then show "parses readSignature bs e" by simp
  show "bs \<noteq> []" using b(1,3) by (auto simp: writeHexN_eq)
qed

interpretation tx_codec: struct_codec TX signed_dom
proof unfold_locales
  fix tx bs assume d: "signed_dom tx" and w: "c_write TX tx = Inr bs"
  note d' = d [unfolded signed_dom_def]
  obtain b1 b2 where b: "txIdBytes tx = Inr b1" "writeArr (signatures tx) writeSignature = Inr b2"
      "bs = b1 @ b2 @ []"
    using w sortedSignatures_sorted [of tx] d'
    by (auto simp: TX_def wcat_Cons_eq wcat_Nil_eq simp del: wcat.simps)
  have p1: "parses readTxIdFields b1 (tx\<lparr>signatures := []\<rparr>)"
    using parses_readTxIdFields [OF b(1)] d' by simp
  have p2: "parses (readArr readSignature) b2 (signatures tx)"
    by (rule parses_writeArr [OF b(2)]) (use d' parses_signature in auto)
  have "parses (c_read TX) bs ((tx\<lparr>signatures := []\<rparr>)\<lparr>signatures := fromEntries (signatures tx)\<rparr>)"
    unfolding TX_def b(3) structCodec.simps
    by (rule parses_rbind, rule p1, rule parses_rbind, rule p2, rule parses_rret)
  then show "parses (c_read TX) bs tx"
    using fromEntries_distinct [of "signatures tx"] d' by simp
qed

section \<open>Mint ids\<close>

datatype mintReason = M_genesis | M_genesis_committee | M_genesis_backer

definition MINT_REASON_TAGS :: "(mintReason \<times> int) list" where
  "MINT_REASON_TAGS = [(M_genesis, 6), (M_genesis_committee, 13), (M_genesis_backer, 14)]"

definition MINT_ID_DOMAIN :: "byte list" where
  "MINT_ID_DOMAIN = ascii ''dagsocial/mint-tx-id/1''"

definition mintBytes :: "byte list \<Rightarrow> int \<Rightarrow> mintReason \<Rightarrow> byte list \<Rightarrow> byte list res" where
  "mintBytes genesisProof height reason subject = wcat
     [writeLp genesisProof, writeVlqU height, enum8_write MINT_REASON_TAGS reason, writeLp subject]"

definition computeMintTxId ::
    "hash \<Rightarrow> byte list \<Rightarrow> int \<Rightarrow> mintReason \<Rightarrow> byte list \<Rightarrow> string res" where
  "computeMintTxId H genesisProof height reason subject =
     ebind (mintBytes genesisProof height reason subject)
       (\<lambda>bs. Inr (bytesToHex (hash32 H [MINT_ID_DOMAIN, bs])))"

section \<open>Box selection\<close>

text \<open>\<open>selectBoxes\<close>: a stable sort by value, highest first, then the shortest prefix
  that covers the amount.\<close>
fun takeUntil :: "('a \<Rightarrow> int) \<Rightarrow> int \<Rightarrow> int \<Rightarrow> 'a list \<Rightarrow> 'a list \<times> int" where
  "takeUntil v required acc [] = ([], acc)"
| "takeUntil v required acc (b # bs) =
     (let acc' = acc + v b in
      if acc' \<ge> required then ([b], acc')
      else let (sel, tot) = takeUntil v required acc' bs in (b # sel, tot))"

definition selectBoxes :: "('a \<Rightarrow> int) \<Rightarrow> 'a list \<Rightarrow> int \<Rightarrow> 'a list res" where
  "selectBoxes v boxes requiredAmount =
     (if requiredAmount \<le> 0 then Inr []
      else
        let ordered = sort_key (\<lambda>b. - v b) boxes;
            (selected, accumulated) = takeUntil v requiredAmount 0 ordered
        in if accumulated < requiredAmount then Inl OtherErr else Inr selected)"

lemma takeUntil_prefix:
  assumes "takeUntil v req acc bs = (sel, tot)"
  shows "\<exists>n. sel = take n bs" and "tot = acc + sum_list (map v sel)"
proof -
  have "(\<exists>n. sel = take n bs) \<and> tot = acc + sum_list (map v sel)"
    using assms
  proof (induction bs arbitrary: acc sel tot)
    case Nil
    then show ?case by auto
  next
    case (Cons b bs)
    show ?case
    proof (cases "acc + v b \<ge> req")
      case True
      then show ?thesis using Cons.prems by (auto simp: Let_def intro: exI [of _ 1])
    next
      case False
      then obtain s where s: "takeUntil v req (acc + v b) bs = (s, tot)" "sel = b # s"
        using Cons.prems by (auto simp: Let_def split: prod.splits)
      from Cons.IH [OF s(1)] obtain n where "s = take n bs" "tot = acc + v b + sum_list (map v s)"
        by auto
      then show ?thesis using s(2) by (auto intro: exI [of _ "Suc n"])
    qed
  qed
  then show "\<exists>n. sel = take n bs" "tot = acc + sum_list (map v sel)" by simp_all
qed

lemma takeUntil_minimal:
  "takeUntil v req acc bs = (sel, tot) \<Longrightarrow> n < length sel \<Longrightarrow> n > 0 \<or> acc < req \<Longrightarrow>
    acc + sum_list (map v (take n sel)) < req"
proof (induction bs arbitrary: acc sel tot n)
  case (Cons b bs)
  show ?case
  proof (cases "acc + v b \<ge> req")
    case True
    then show ?thesis using Cons.prems by (cases n) (auto simp: Let_def)
  next
    case False
    then obtain s where s: "takeUntil v req (acc + v b) bs = (s, tot)" "sel = b # s"
      using Cons.prems by (auto simp: Let_def split: prod.splits)
    show ?thesis
    proof (cases n)
      case 0
      then show ?thesis using Cons.prems by simp
    next
      case (Suc m)
      then show ?thesis using Cons.IH [OF s(1), of m] Cons.prems s(2) False by (simp add: add.assoc)
    qed
  qed
qed simp

lemma sum_take_mono:
  fixes v :: "'a \<Rightarrow> int"
  assumes "\<And>b. b \<in> set bs \<Longrightarrow> 0 \<le> v b"
  shows "sum_list (map v (take n bs)) \<le> sum_list (map v bs)"
proof -
  have "sum_list (map v bs) = sum_list (map v (take n bs)) + sum_list (map v (drop n bs))"
    by (metis append_take_drop_id map_append sum_list_append)
  moreover have "0 \<le> sum_list (map v (drop n bs))"
    by (rule sum_list_nonneg_int) (metis assms in_set_dropD)
  ultimately show ?thesis by simp
qed

text \<open>Among the sub-multisets of a descending list, the leading ones weigh most.\<close>
lemma descending_take_max:
  fixes v :: "'a \<Rightarrow> int"
  assumes "sorted (map (\<lambda>b. - v b) bs)" "\<And>b. b \<in> set bs \<Longrightarrow> 0 \<le> v b"
    and "length C \<le> n" "mset C \<subseteq># mset bs"
  shows "sum_list (map v C) \<le> sum_list (map v (take n bs))"
  using assms
proof (induction bs arbitrary: n C)
  case Nil
  then show ?case by simp
next
  case (Cons b bs)
  show ?case
  proof (cases n)
    case 0
    then show ?thesis using Cons.prems by simp
  next
    case (Suc m)
    have le: "v x \<le> v b" if "x \<in> set bs" for x using Cons.prems(1) that by auto
    have srt: "sorted (map (\<lambda>b. - v b) bs)" and nn: "\<And>x. x \<in> set bs \<Longrightarrow> 0 \<le> v x" "0 \<le> v b"
      using Cons.prems(1,2) by auto
    note IH = Cons.IH [OF srt nn(1)]
    show ?thesis
    proof (cases "b \<in> set C")
      case True
      have "mset (remove1 b C) \<subseteq># mset bs"
        using Cons.prems(4) by (simp add: subset_eq_diff_conv)
      moreover have "length (remove1 b C) \<le> m"
        using True Cons.prems(3) Suc by (simp add: length_remove1)
      ultimately have "sum_list (map v (remove1 b C)) \<le> sum_list (map v (take m bs))"
        by (intro IH)
      then show ?thesis
        using sum_list_map_remove1 [OF True, of v] Suc by simp
    next
      case False
      have sub: "mset C \<subseteq># mset bs"
      proof (rule mset_subset_eqI)
        fix x
        have "x = b \<Longrightarrow> count (mset C) x = 0" using False by simp
        then show "count (mset C) x \<le> count (mset bs) x"
          using mset_subset_eq_count [OF Cons.prems(4), of x]
          by (cases "x = b") (simp only: le0, simp)
      qed
      show ?thesis
      proof (cases C)
        case Nil
        have "0 \<le> sum_list (map v (take n (b # bs)))"
          by (rule sum_list_nonneg_int) (use Cons.prems(2) in_set_takeD in metis)
        then show ?thesis using Nil by simp
      next
        case C: (Cons c C')
        have "c \<in> set bs" using sub C by (metis list.set_intros(1) mset_subset_eqD set_mset_mset)
        then have "v c \<le> v b" by (rule le)
        moreover have "mset C' \<subseteq># mset bs"
          using sub by (simp add: C) (metis add_mset_add_single mset_subset_eq_add_left subset_mset.order_trans)
        then have "sum_list (map v C') \<le> sum_list (map v (take m bs))"
          using Cons.prems(3) Suc C by (intro IH) simp_all
        ultimately show ?thesis using Suc C by simp
      qed
    qed
  qed
qed

section \<open>Properties\<close>

text \<open>\<open>selectBoxes\<close> returns a smallest set of boxes that covers the amount: what
  it selects comes from the given boxes, covers the amount, and any choice of
  boxes that covers it has at least as many; it
  throws exactly when all boxes together do not cover it.\<close>
theorem selectBoxes_minimal:
  assumes "\<And>b. b \<in> set boxes \<Longrightarrow> 0 \<le> v b"
  shows "(selectBoxes v boxes amount = Inl OtherErr \<longleftrightarrow> 0 < amount \<and> sum_list (map v boxes) < amount) \<and>
    (\<forall>sel. selectBoxes v boxes amount = Inr sel \<longrightarrow> set sel \<subseteq> set boxes \<and> amount \<le> max 0 (sum_list (map v sel)) \<and>
      (\<forall>C. mset C \<subseteq># mset boxes \<and> amount \<le> sum_list (map v C) \<longrightarrow> length sel \<le> length C))"
proof (cases "amount \<le> 0")
  case True
  then show ?thesis by (simp add: selectBoxes_def)
next
  case False
  let ?o = "sort_key (\<lambda>b. - v b) boxes"
  obtain sel tot where t: "takeUntil v amount 0 ?o = (sel, tot)" by fastforce
  obtain n where n: "sel = take n ?o" and tot: "tot = sum_list (map v sel)"
    using takeUntil_prefix [OF t] by auto
  have sel: "selectBoxes v boxes amount = (if tot < amount then Inl OtherErr else Inr sel)"
    using False t by (simp add: selectBoxes_def)
  have perm: "sum_list (map v ?o) = sum_list (map v boxes)"
  proof -
    have "mset (map v ?o) = mset (map v boxes)" by simp
    then show ?thesis by (simp only: sum_mset_sum_list [symmetric])
  qed
  have nn: "\<And>b. b \<in> set ?o \<Longrightarrow> 0 \<le> v b" using assms by simp
  have le: "tot \<le> sum_list (map v boxes)"
    using sum_take_mono [of ?o v n] nn perm by (simp add: tot n)
  have all: "sum_list (map v boxes) < amount" if "tot < amount"
  proof -
    have "sel = bs" if "takeUntil v amount acc bs = (sel, tot)" "tot < amount" for acc bs sel tot
      using that by (induction bs arbitrary: acc sel) (auto simp: Let_def split: if_splits prod.splits)
    from this [OF t that] that perm show ?thesis by (simp add: tot)
  qed
  have min: "length sel \<le> length C" if "mset C \<subseteq># mset boxes" "amount \<le> sum_list (map v C)" for C
  proof (rule ccontr)
    assume "\<not> length sel \<le> length C"
    then have l: "length C < length sel" by simp
    then have tk: "take (length C) sel = take (length C) ?o"
      by (auto simp: n min_def split: if_splits)
    have "sum_list (map v (take (length C) sel)) < amount"
      using takeUntil_minimal [OF t l] False by simp
    moreover have "sum_list (map v C) \<le> sum_list (map v (take (length C) ?o))"
      by (rule descending_take_max) (use nn that in auto)
    ultimately show False using that(2) tk by simp
  qed
  have sub: "set sel \<subseteq> set boxes" using set_take_subset [of n ?o] by (simp add: n)
  show ?thesis
    using sel le all min sub tot False by (auto split: if_splits)
qed

lemma selectBoxes_minimal_witness:
  "selectBoxes (\<lambda>x. x) [3, 9, 4] 20 = Inl OtherErr \<longleftrightarrow> 0 < (20 :: int) \<and> sum_list (map (\<lambda>x. x) [3, 9, 4 :: int]) < 20"
  by (rule selectBoxes_minimal [THEN conjunct1]) auto

text \<open>C39: a transaction round-trips through its wire codec: whatever the signature
  table holds in key order, every field of the transaction comes back, and no
  encoded transaction is a prefix of another.\<close>
theorem tx_roundtrip:
  assumes "signed_dom tx" "encodeTx tx = Inr bs"
  shows "decodeTx bs = Inr tx \<and>
    (\<forall>tx' bs' xs ys. signed_dom tx' \<and> encodeTx tx' = Inr bs' \<and> bs @ xs = bs' @ ys \<longrightarrow> tx' = tx)"
  using tx_codec.decode_encode [of tx bs] tx_codec.prefix_free [of tx _ bs] assms
  unfolding encodeTx_def decodeTx_def by metis

definition sampleTx :: utxoTransaction where
  "sampleTx = \<lparr>inputs = [bytesToHex (replicate 32 1)], outputs = [sampleBox],
     signatures = [(bytesToHex (replicate 32 2), replicate 64 3)], protocolVersion = 1,
     likeTarget = None, post = None, postWithdraw = None\<rparr>"

lemma sampleTx_bytes:
  "txIdBytes sampleTx = Inr ((vlq 1 @ replicate 32 1) @ (vlq 1 @ [0] @ vlq 40 @ vlq 300 @ replicate 32 7 @ [1]) @
     vlq 1 @ [0] @ [0] @ [0])"
  by (simp add: txIdBytes_def sampleTx_def wcat_Cons_eq wcat_Nil_eq writeArr_def writeOpt_def
      canonicalBoxBytes_def enum8_write_def BOX_TYPE_TAGS_def sampleBox_def writeHexN_eq
      writeU8_eq writeVlqU64_eq writeBytesN_eq writeVlqU_bytes isEncodableVlqU_iff encodeVlqU_eq
      MAX_SAFE_INTEGER_def U64_MAX_def del: wcat.simps)

lemma sampleTx_dom: "tx_dom sampleTx" "signed_dom sampleTx"
  by (simp_all add: tx_dom_def signed_dom_def sampleTx_def sampleBox_def candidate_dom_def
      isEncodableVlqU_iff MAX_SAFE_INTEGER_def MAX_ARRAY_LENGTH_def)

lemma sampleTx_encode: "\<exists>bs. encodeTx sampleTx = Inr bs"
proof -
  have "sortedSignatures sampleTx = [(bytesToHex (replicate 32 2), replicate 64 3)]"
    using sortedSignatures_sorted [of sampleTx] by (simp add: sampleTx_def)
  then have "\<exists>ss. writeArr (sortedSignatures sampleTx) writeSignature = Inr ss"
    by (auto simp: writeArr_def writeSignature_def wcat_Cons_eq wcat_Nil_eq writeHexN_eq writeBytesN_eq
        encodeVlqU_eq MAX_SAFE_INTEGER_def simp del: wcat.simps)
  then show ?thesis
    using sampleTx_bytes
    by (auto simp: encodeTx_def encodeStruct_def TX_def wcat_Cons_eq wcat_Nil_eq simp del: wcat.simps)
qed

lemma tx_roundtrip_witness: "\<exists>bs. decodeTx bs = Inr sampleTx"
  using tx_roundtrip [OF sampleTx_dom(2)] sampleTx_encode by blast

text \<open>C40: a transaction id binds everything a signature has to cover: two
  transactions with one id agree on inputs, outputs, protocol version, like
  target, post and withdrawal (only their signatures may differ), unless their two
  different preimages are an explicit collision of the truncated hash.\<close>
theorem tx_id_binds_all_but_signatures:
  assumes "tx_dom tx" "tx_dom tx'" "txIdBytes tx = Inr p" "txIdBytes tx' = Inr p'"
    and "computeTxId H tx = computeTxId H tx'"
    and "hash32 H [TX_ID_DOMAIN, p] = hash32 H [TX_ID_DOMAIN, p'] \<longrightarrow> p = p'"
  shows "tx\<lparr>signatures := []\<rparr> = tx'\<lparr>signatures := []\<rparr>"
proof -
  have "p = p'" using assms(3-6) by (simp add: computeTxId_def)
  then show ?thesis
    using parses_newReader [OF parses_readTxIdFields [OF assms(3,1)], of "[]"]
      parses_newReader [OF parses_readTxIdFields [OF assms(4,2)], of "[]"] by simp
qed

lemma tx_id_binds_all_but_signatures_witness:
  "sampleTx\<lparr>signatures := []\<rparr> = (sampleTx\<lparr>signatures := []\<rparr>)\<lparr>signatures := []\<rparr>"
proof (rule tx_id_binds_all_but_signatures [where H = "\<lambda>b. b", OF sampleTx_dom(1)])
  have eq: "txIdBytes (sampleTx\<lparr>signatures := []\<rparr>) = txIdBytes sampleTx" by (simp add: txIdBytes_def)
  show "tx_dom (sampleTx\<lparr>signatures := []\<rparr>)" using sampleTx_dom(1) by (simp add: tx_dom_def)
  show "txIdBytes sampleTx = Inr (projr (txIdBytes sampleTx))"
    "txIdBytes (sampleTx\<lparr>signatures := []\<rparr>) = Inr (projr (txIdBytes sampleTx))"
    by (simp_all add: eq sampleTx_bytes)
  show "computeTxId (\<lambda>b. b) sampleTx = computeTxId (\<lambda>b. b) (sampleTx\<lparr>signatures := []\<rparr>)"
    by (simp add: computeTxId_def eq)
qed simp

end
