(* ===== verification/Valuation.thy ===== *)
theory Valuation
  imports Tx
begin

text \<open>
  The identity record with its AVL value (\<open>packages/types/src/identity-record.ts\<close>),
  the karma valuation every component reads (\<open>karma-valuation.ts\<close>) and the
  membership bars (\<open>membership.ts\<close>).  A squaring writes the height it settles
  through; the central fact is that squaring changes nobody's effective karma at
  any later height.
\<close>

section \<open>Identity records\<close>

record identityRecord =
  lastActivityBlock :: int
  lastDecayBlock :: int
  invitedAtBlock :: int
  lifetimeLikesReceived :: int
  memberSinceBlock :: int
  memberBar :: int
  memberVouches :: int
  memberLikes :: int
  invitesUsed :: int

definition EMPTY_IDENTITY_RECORD :: identityRecord where
  "EMPTY_IDENTITY_RECORD = \<lparr>lastActivityBlock = 0, lastDecayBlock = 0, invitedAtBlock = 0,
     lifetimeLikesReceived = 0, memberSinceBlock = 0, memberBar = 0, memberVouches = 0,
     memberLikes = 0, invitesUsed = 0\<rparr>"

definition IDENTITY_RECORD_TAG :: int where
  "IDENTITY_RECORD_TAG = 128"

definition writeIdentityRecord :: "identityRecord \<Rightarrow> byte list res" where
  "writeIdentityRecord r = wcat
     [writeU8OrThrow IDENTITY_RECORD_TAG, writeVlqU (lastActivityBlock r), writeVlqU (lastDecayBlock r),
      writeVlqU (invitedAtBlock r), writeVlqU64OrThrow (lifetimeLikesReceived r),
      writeVlqU (memberSinceBlock r), writeVlqU (memberBar r), writeVlqU (memberVouches r),
      writeVlqU64OrThrow (memberLikes r), writeVlqU (invitesUsed r)]"

definition readIdentityRecord :: "identityRecord rd" where
  "readIdentityRecord = rbind readU8 (\<lambda>tag.
     if tag \<noteq> IDENTITY_RECORD_TAG then rfail (ReaderErr InvalidTag)
     else rbind readVlqU (\<lambda>la. rbind readVlqU (\<lambda>ld. rbind readVlqU (\<lambda>inv.
          rbind readVlqBigInt (\<lambda>ll. rbind readVlqU (\<lambda>ms. rbind readVlqU (\<lambda>mb. rbind readVlqU (\<lambda>mv.
          rbind readVlqBigInt (\<lambda>ml. rbind readVlqU (\<lambda>iu.
          rret \<lparr>lastActivityBlock = la, lastDecayBlock = ld, invitedAtBlock = inv,
            lifetimeLikesReceived = ll, memberSinceBlock = ms, memberBar = mb, memberVouches = mv,
            memberLikes = ml, invitesUsed = iu\<rparr>))))))))))"

definition IDENTITY_RECORD :: "identityRecord structCodec" where
  "IDENTITY_RECORD = \<lparr>c_write = writeIdentityRecord, c_read = readIdentityRecord\<rparr>"

definition identityRecordBytes :: "identityRecord \<Rightarrow> byte list res" where
  "identityRecordBytes r = encodeStruct IDENTITY_RECORD r"

definition identityRecordFromBytes :: "byte list \<Rightarrow> identityRecord res" where
  "identityRecordFromBytes bs = decodeStruct IDENTITY_RECORD bs"

definition identityRecord_dom :: "identityRecord \<Rightarrow> bool" where
  "identityRecord_dom r \<longleftrightarrow> list_all isEncodableVlqU
     [lastActivityBlock r, lastDecayBlock r, invitedAtBlock r, memberSinceBlock r, memberBar r,
      memberVouches r, invitesUsed r]"

interpretation identity_record: struct_codec IDENTITY_RECORD identityRecord_dom
proof unfold_locales
  fix r bs assume d: "identityRecord_dom r" and w: "c_write IDENTITY_RECORD r = Inr bs"
  note d' = d [unfolded identityRecord_dom_def]
  obtain b0 b1 b2 b3 b4 b5 b6 b7 b8 b9 where b: "writeU8OrThrow IDENTITY_RECORD_TAG = Inr b0"
      "writeVlqU (lastActivityBlock r) = Inr b1" "writeVlqU (lastDecayBlock r) = Inr b2"
      "writeVlqU (invitedAtBlock r) = Inr b3" "writeVlqU64OrThrow (lifetimeLikesReceived r) = Inr b4"
      "writeVlqU (memberSinceBlock r) = Inr b5" "writeVlqU (memberBar r) = Inr b6"
      "writeVlqU (memberVouches r) = Inr b7" "writeVlqU64OrThrow (memberLikes r) = Inr b8"
      "writeVlqU (invitesUsed r) = Inr b9"
      "bs = b0 @ b1 @ b2 @ b3 @ b4 @ b5 @ b6 @ b7 @ b8 @ b9 @ []"
    using w by (auto simp: IDENTITY_RECORD_def writeIdentityRecord_def wcat_Cons_eq wcat_Nil_eq
        simp del: wcat.simps)
  have p: "parses readVlqU b1 (lastActivityBlock r)" "parses readVlqU b2 (lastDecayBlock r)"
    "parses readVlqU b3 (invitedAtBlock r)" "parses readVlqU b5 (memberSinceBlock r)"
    "parses readVlqU b6 (memberBar r)" "parses readVlqU b7 (memberVouches r)"
    "parses readVlqU b9 (invitesUsed r)"
    using b d' by (simp_all add: parses_writeVlqU)
  have "parses (c_read IDENTITY_RECORD) bs \<lparr>lastActivityBlock = lastActivityBlock r,
      lastDecayBlock = lastDecayBlock r, invitedAtBlock = invitedAtBlock r,
      lifetimeLikesReceived = lifetimeLikesReceived r, memberSinceBlock = memberSinceBlock r,
      memberBar = memberBar r, memberVouches = memberVouches r, memberLikes = memberLikes r,
      invitesUsed = invitesUsed r\<rparr>"
    unfolding IDENTITY_RECORD_def readIdentityRecord_def b(11) structCodec.simps
    apply (rule parses_rbind, rule parses_writeU8 [OF b(1)])
    apply (simp only: not_True_eq_False if_False simp_thms)
    by (rule parses_rbind, rule p(1), rule parses_rbind, rule p(2), rule parses_rbind, rule p(3),
        rule parses_rbind, rule parses_writeVlqU64 [OF b(5)], rule parses_rbind, rule p(4),
        rule parses_rbind, rule p(5), rule parses_rbind, rule p(6),
        rule parses_rbind, rule parses_writeVlqU64 [OF b(9)], rule parses_rbind, rule p(7),
        rule parses_rret)
  then show "parses (c_read IDENTITY_RECORD) bs r" by (cases r) simp
qed

section \<open>The karma valuation\<close>

definition KARMA_DECAY_AMOUNT :: int where "KARMA_DECAY_AMOUNT = 5"
definition KARMA_MINIMUM :: int where "KARMA_MINIMUM = 10"

record decayCfg =
  staleThresholdBlocks :: int
  decayIntervalBlocks :: int
  decayAmount :: int
  karmaMinimum :: int

definition decayCfgFor :: "int \<Rightarrow> int \<Rightarrow> decayCfg" where
  "decayCfgFor karmaStaleThresholdBlocks karmaDecayIntervalBlocks =
     \<lparr>staleThresholdBlocks = karmaStaleThresholdBlocks, decayIntervalBlocks = karmaDecayIntervalBlocks,
      decayAmount = KARMA_DECAY_AMOUNT, karmaMinimum = KARMA_MINIMUM\<rparr>"

definition or_empty :: "identityRecord option \<Rightarrow> identityRecord" where
  "or_empty r = (case r of None \<Rightarrow> EMPTY_IDENTITY_RECORD | Some x \<Rightarrow> x)"

definition clockStart :: "identityRecord option \<Rightarrow> decayCfg \<Rightarrow> int" where
  "clockStart r cfg = (let clk = or_empty r in
     max (lastActivityBlock clk + staleThresholdBlocks cfg) (lastDecayBlock clk))"

definition owedPeriods :: "identityRecord option \<Rightarrow> int \<Rightarrow> decayCfg \<Rightarrow> int" where
  "owedPeriods r height cfg = (height - clockStart r cfg) div decayIntervalBlocks cfg"

definition decaySettledThrough :: "identityRecord option \<Rightarrow> int \<Rightarrow> decayCfg \<Rightarrow> int" where
  "decaySettledThrough r height cfg =
     clockStart r cfg + owedPeriods r height cfg * decayIntervalBlocks cfg"

definition effectiveKarma :: "int \<Rightarrow> identityRecord option \<Rightarrow> int \<Rightarrow> decayCfg \<Rightarrow> int" where
  "effectiveKarma faceTotal r height cfg =
     (let periods = owedPeriods r height cfg in
      if periods \<le> 0 then faceTotal
      else
        let owed = periods * decayAmount cfg;
            floor = (if faceTotal < karmaMinimum cfg then faceTotal else karmaMinimum cfg);
            decayed = faceTotal - owed
        in if decayed > floor then decayed else floor)"

definition cfg_ok :: "decayCfg \<Rightarrow> bool" where
  "cfg_ok cfg \<longleftrightarrow> 0 < decayIntervalBlocks cfg \<and> 0 \<le> decayAmount cfg"

lemma effectiveKarma_alt:
  "effectiveKarma face r h cfg =
    (if owedPeriods r h cfg \<le> 0 then face
     else max (face - owedPeriods r h cfg * decayAmount cfg) (min face (karmaMinimum cfg)))"
  by (simp add: effectiveKarma_def Let_def max_def min_def)

lemma effectiveKarma_bounds:
  assumes "cfg_ok cfg"
  shows "min face (karmaMinimum cfg) \<le> effectiveKarma face r h cfg" "effectiveKarma face r h cfg \<le> face"
proof -
  have "0 \<le> owedPeriods r h cfg * decayAmount cfg" if "\<not> owedPeriods r h cfg \<le> 0"
    using assms that by (simp add: cfg_ok_def)
  then show "min face (karmaMinimum cfg) \<le> effectiveKarma face r h cfg" "effectiveKarma face r h cfg \<le> face"
    by (auto simp: effectiveKarma_alt)
qed

lemma owedPeriods_mono: "cfg_ok cfg \<Longrightarrow> h \<le> h' \<Longrightarrow> owedPeriods r h cfg \<le> owedPeriods r h' cfg"
  by (simp add: owedPeriods_def cfg_ok_def zdiv_mono1)

lemma effectiveKarma_antimono:
  assumes "cfg_ok cfg" "h \<le> h'"
  shows "effectiveKarma face r h' cfg \<le> effectiveKarma face r h cfg"
proof -
  note m = owedPeriods_mono [OF assms, of r]
  then have "owedPeriods r h cfg * decayAmount cfg \<le> owedPeriods r h' cfg * decayAmount cfg"
    using assms(1) by (simp add: cfg_ok_def mult_right_mono)
  with m effectiveKarma_bounds(2) [OF assms(1), of face r h'] show ?thesis
    by (auto simp: effectiveKarma_alt)
qed

text \<open>The record a squaring leaves behind.\<close>
definition squared :: "identityRecord option \<Rightarrow> int \<Rightarrow> decayCfg \<Rightarrow> identityRecord" where
  "squared r h cfg = (or_empty r)\<lparr>lastDecayBlock := decaySettledThrough r h cfg\<rparr>"

lemma clockStart_squared:
  assumes "cfg_ok cfg" "0 < owedPeriods r h cfg"
  shows "clockStart (Some (squared r h cfg)) cfg = decaySettledThrough r h cfg"
proof -
  have "0 \<le> owedPeriods r h cfg * decayIntervalBlocks cfg"
    using assms by (simp add: cfg_ok_def)
  then show ?thesis
    by (simp add: clockStart_def squared_def decaySettledThrough_def or_empty_def Let_def)
qed

lemma owedPeriods_squared:
  assumes "cfg_ok cfg" "0 < owedPeriods r h cfg"
  shows "owedPeriods (Some (squared r h cfg)) h' cfg = owedPeriods r h' cfg - owedPeriods r h cfg"
proof -
  have "owedPeriods (Some (squared r h cfg)) h' cfg =
      (h' - clockStart r cfg + - owedPeriods r h cfg * decayIntervalBlocks cfg) div decayIntervalBlocks cfg"
    unfolding owedPeriods_def [of "Some (squared r h cfg)"] clockStart_squared [OF assms]
    by (simp add: decaySettledThrough_def algebra_simps)
  also have "\<dots> = - owedPeriods r h cfg + (h' - clockStart r cfg) div decayIntervalBlocks cfg"
    using assms(1) by (subst div_mult_self1) (simp_all add: cfg_ok_def)
  finally show ?thesis by (simp add: owedPeriods_def [of r h'])
qed

section \<open>The membership bars\<close>

definition MEMBER_LIKES_MULTIPLIER :: int where "MEMBER_LIKES_MULTIPLIER = 2"

function icbrt_loop :: "int \<Rightarrow> int \<Rightarrow> int \<Rightarrow> int" where
  "icbrt_loop n lo hi =
     (if lo < hi then
        let mid = lo + drop_bit 1 (hi - lo + 1) in
        if mid * mid * mid \<le> n then icbrt_loop n mid hi else icbrt_loop n lo (mid - 1)
      else lo)"
  by pat_completeness auto
termination
  by (relation "measure (\<lambda>(n, lo, hi). nat (hi - lo))") (auto simp: drop_bit_eq_div)

declare icbrt_loop.simps [simp del]

definition icbrt :: "int \<Rightarrow> int res" where
  "icbrt n =
     (if n < 0 \<or> n > MAX_SAFE_INTEGER then Inl OtherErr
      else if n \<le> 1 then Inr n
      else Inr (icbrt_loop n 1 (min n 208063)))"

definition membershipBar :: "int \<Rightarrow> int \<Rightarrow> int res" where
  "membershipBar memberCount multiplier =
     (if memberCount < 0 \<or> memberCount > MAX_SAFE_INTEGER then Inl OtherErr
      else if multiplier < 0 \<or> multiplier > MAX_SAFE_INTEGER then Inl OtherErr
      else if multiplier > 0 \<and> memberCount > MAX_SAFE_INTEGER div multiplier then Inl OtherErr
      else ebind (icbrt (memberCount * multiplier)) (\<lambda>r. Inr (max 1 r)))"

definition memberLikesBar :: "int \<Rightarrow> int \<Rightarrow> int res" where
  "memberLikesBar memberCount multiplier =
     (if memberCount < 0 \<or> memberCount > MAX_SAFE_INTEGER then Inl OtherErr
      else if multiplier < 0 \<or> multiplier > MAX_SAFE_INTEGER then Inl OtherErr
      else ebind (membershipBar memberCount multiplier) (\<lambda>b. Inr (MEMBER_LIKES_MULTIPLIER * b)))"

abbreviation cube :: "int \<Rightarrow> int" where "cube x \<equiv> x * x * x"

lemma cube_mono: "0 \<le> a \<Longrightarrow> a \<le> b \<Longrightarrow> cube a \<le> cube b"
  by (intro mult_mono) auto

lemma icbrt_loop_correct:
  assumes "0 \<le> lo" "lo \<le> hi" "cube lo \<le> n" "n < cube (hi + 1)"
  shows "cube (icbrt_loop n lo hi) \<le> n \<and> n < cube (icbrt_loop n lo hi + 1) \<and> lo \<le> icbrt_loop n lo hi"
  using assms
proof (induction n lo hi rule: icbrt_loop.induct)
  case (1 n lo hi)
  show ?case
  proof (cases "lo < hi")
    case False
    then have "icbrt_loop n lo hi = lo" by (subst icbrt_loop.simps) simp
    then show ?thesis using "1.prems" False by auto
  next
    case True
    define mid where "mid = lo + drop_bit 1 (hi - lo + 1)"
    have mid: "lo < mid" "mid \<le> hi" using True by (auto simp: mid_def drop_bit_eq_div)
    show ?thesis
    proof (cases "cube mid \<le> n")
      case c: True
      have "icbrt_loop n lo hi = icbrt_loop n mid hi"
        using True c by (subst icbrt_loop.simps) (simp add: mid_def Let_def)
      then show ?thesis
        using "1.IH"(1) [OF True mid_def c] "1.prems" mid c by auto
    next
      case c: False
      have "icbrt_loop n lo hi = icbrt_loop n lo (mid - 1)"
        using True c by (subst icbrt_loop.simps) (simp add: mid_def Let_def)
      then show ?thesis
        using "1.IH"(2) [OF True mid_def c] "1.prems" mid c by auto
    qed
  qed
qed

lemma icbrt_correct:
  assumes "0 \<le> n" "n \<le> MAX_SAFE_INTEGER"
  obtains r where "icbrt n = Inr r" "0 \<le> r" "cube r \<le> n" "n < cube (r + 1)"
proof (cases "n \<le> 1")
  case True
  then have "n = 0 \<or> n = 1" using assms by auto
  then show ?thesis using that [of n] assms True by (auto simp: icbrt_def)
next
  case False
  let ?hi = "min n 208063"
  have "n < cube (?hi + 1)"
  proof (cases "n \<le> 208063")
    case True
    have "1 * 1 \<le> (n + 1) * (n + 1)" using assms by (intro mult_mono) auto
    then have "(n + 1) * 1 \<le> (n + 1) * ((n + 1) * (n + 1))"
      using assms by (intro mult_left_mono) auto
    then show ?thesis using True by (simp add: mult.assoc)
  next
    case False
    then show ?thesis using assms by (simp add: MAX_SAFE_INTEGER_def)
  qed
  then have "cube (icbrt_loop n 1 ?hi) \<le> n \<and> n < cube (icbrt_loop n 1 ?hi + 1) \<and> 1 \<le> icbrt_loop n 1 ?hi"
    using False by (intro icbrt_loop_correct) auto
  then show ?thesis using that [of "icbrt_loop n 1 ?hi"] False assms by (simp add: icbrt_def)
qed

section \<open>Properties\<close>

text \<open>Squaring is invisible. Settling an identity's owed decay at some height,
  by writing its effective karma as its face and the settled-through height in
  its record, leaves its effective karma at every later height what it would have
  been without the squaring, so when a block touches an identity decides nothing.\<close>
theorem squaring_path_independent:
  assumes "cfg_ok cfg" "0 < owedPeriods r h cfg" "h \<le> h'"
  shows "effectiveKarma (effectiveKarma face r h cfg) (Some (squared r h cfg)) h' cfg =
    effectiveKarma face r h' cfg"
proof -
  let ?p = "owedPeriods r h cfg" and ?q = "owedPeriods r h' cfg" and ?d = "decayAmount cfg"
  have le: "?p \<le> ?q" by (rule owedPeriods_mono [OF assms(1,3)])
  have mul: "?q * ?d = ?p * ?d + (?q - ?p) * ?d" by (simp add: algebra_simps)
  have nn: "0 \<le> ?p * ?d" "0 \<le> (?q - ?p) * ?d" using assms le by (simp_all add: cfg_ok_def)
  show ?thesis
    unfolding effectiveKarma_alt [of _ "Some (squared r h cfg)"] owedPeriods_squared [OF assms(1,2)]
    unfolding effectiveKarma_alt mul using assms(2) le nn
    by (auto simp: max_def min_def split: if_splits)
qed

definition sampleCfg :: decayCfg where
  "sampleCfg = decayCfgFor 10 4"

lemma squaring_path_independent_witness:
  "effectiveKarma (effectiveKarma 100 None 30 sampleCfg) (Some (squared None 30 sampleCfg)) 47 sampleCfg = 55"
  by (subst squaring_path_independent)
    (simp_all add: cfg_ok_def sampleCfg_def decayCfgFor_def KARMA_DECAY_AMOUNT_def KARMA_MINIMUM_def
      owedPeriods_def clockStart_def or_empty_def EMPTY_IDENTITY_RECORD_def effectiveKarma_def Let_def)

text \<open>Effective karma is bounded and only falls with height: it never exceeds the
  face, never falls below the smaller of the face and the karma minimum, and an
  earlier height never values lower than a later one.\<close>
theorem effectiveKarma_bounded_antitone:
  assumes "cfg_ok cfg" "h \<le> h'"
  shows "min face (karmaMinimum cfg) \<le> effectiveKarma face r h' cfg \<and>
    effectiveKarma face r h' cfg \<le> effectiveKarma face r h cfg \<and> effectiveKarma face r h cfg \<le> face"
  using effectiveKarma_bounds [OF assms(1)] effectiveKarma_antimono [OF assms] by simp

lemma effectiveKarma_bounded_antitone_witness:
  "effectiveKarma 12 None 30 sampleCfg \<le> effectiveKarma 12 None 14 sampleCfg"
  using effectiveKarma_bounded_antitone [of sampleCfg 14 30 12 None]
  by (simp add: cfg_ok_def sampleCfg_def decayCfgFor_def KARMA_DECAY_AMOUNT_def)

text \<open>C14: \<open>icbrt\<close> is the integer cube root on its whole domain, so the vouch bar is
  \<open>max(1, r)\<close> for the largest \<open>r\<close> with \<open>r^3\<close> at most \<open>k N\<close>, and the likes bar its
  double; the three throw exactly outside the safe integers.\<close>
theorem membership_bars_exact:
  "(\<forall>n r. icbrt n = Inr r \<longleftrightarrow>
      0 \<le> n \<and> n \<le> MAX_SAFE_INTEGER \<and> 0 \<le> r \<and> cube r \<le> n \<and> n < cube (r + 1)) \<and>
   (\<forall>n k b. membershipBar n k = Inr b \<longleftrightarrow>
      0 \<le> n \<and> n \<le> MAX_SAFE_INTEGER \<and> 0 \<le> k \<and> k \<le> MAX_SAFE_INTEGER \<and> n * k \<le> MAX_SAFE_INTEGER \<and>
      (\<exists>r. 0 \<le> r \<and> cube r \<le> n * k \<and> n * k < cube (r + 1) \<and> b = max 1 r)) \<and>
   (\<forall>n k. memberLikesBar n k =
      (case membershipBar n k of Inl e \<Rightarrow> Inl e | Inr b \<Rightarrow> Inr (2 * b)))"
proof -
  have unique: "r = r'" if "0 \<le> r" "0 \<le> r'" "cube r \<le> n" "n < cube (r + 1)" "cube r' \<le> n" "n < cube (r' + 1)"
    for r r' n
    using that cube_mono [of "r + 1" r'] cube_mono [of "r' + 1" r] by (cases r r' rule: linorder_cases) auto
  have root: "icbrt n = Inr r \<longleftrightarrow>
      0 \<le> n \<and> n \<le> MAX_SAFE_INTEGER \<and> 0 \<le> r \<and> cube r \<le> n \<and> n < cube (r + 1)" for n r
  proof (cases "0 \<le> n \<and> n \<le> MAX_SAFE_INTEGER")
    case True
    then obtain r' where "icbrt n = Inr r'" "0 \<le> r'" "cube r' \<le> n" "n < cube (r' + 1)"
      using icbrt_correct [of n] by blast
    then show ?thesis using unique [of r r' n] True by auto
  next
    case False
    then show ?thesis by (auto simp: icbrt_def)
  qed
  have dom: "n * k \<le> MAX_SAFE_INTEGER \<longleftrightarrow> \<not> (k > 0 \<and> n > MAX_SAFE_INTEGER div k)"
    if "0 \<le> k" for n k
  proof (cases "k = 0")
    case True
    then show ?thesis by (simp add: MAX_SAFE_INTEGER_def)
  next
    case False
    then have "0 < k" using that by simp
    have "n * k \<le> MAX_SAFE_INTEGER \<longleftrightarrow> n \<le> MAX_SAFE_INTEGER div k"
    proof
      assume "n * k \<le> MAX_SAFE_INTEGER"
      from zdiv_mono1 [OF this \<open>0 < k\<close>] \<open>0 < k\<close> show "n \<le> MAX_SAFE_INTEGER div k" by simp
    next
      assume "n \<le> MAX_SAFE_INTEGER div k"
      then have "n * k \<le> MAX_SAFE_INTEGER div k * k" using \<open>0 < k\<close> by (simp add: mult_right_mono)
      also have "\<dots> \<le> MAX_SAFE_INTEGER"
        using pos_mod_sign [OF \<open>0 < k\<close>, of MAX_SAFE_INTEGER] div_mult_mod_eq [of MAX_SAFE_INTEGER k]
        by linarith
      finally show "n * k \<le> MAX_SAFE_INTEGER" .
    qed
    then show ?thesis using \<open>0 < k\<close> by auto
  qed
  have bar: "membershipBar n k = Inr b \<longleftrightarrow>
      0 \<le> n \<and> n \<le> MAX_SAFE_INTEGER \<and> 0 \<le> k \<and> k \<le> MAX_SAFE_INTEGER \<and> n * k \<le> MAX_SAFE_INTEGER \<and>
      (\<exists>r. 0 \<le> r \<and> cube r \<le> n * k \<and> n * k < cube (r + 1) \<and> b = max 1 r)" for n k b
    using dom [of k n] by (auto simp: membershipBar_def bind_iff root)
  have "memberLikesBar n k = (case membershipBar n k of Inl e \<Rightarrow> Inl e | Inr b \<Rightarrow> Inr (2 * b))" for n k
  proof (cases "n < 0 \<or> n > MAX_SAFE_INTEGER")
    case True
    then have "memberLikesBar n k = Inl OtherErr" "membershipBar n k = Inl OtherErr"
      unfolding memberLikesBar_def membershipBar_def by (simp_all only: if_P [OF True] if_True)
    then show ?thesis by simp
  next
    case n: False
    show ?thesis
    proof (cases "k < 0 \<or> k > MAX_SAFE_INTEGER")
      case True
      then have "memberLikesBar n k = Inl OtherErr" "membershipBar n k = Inl OtherErr"
        unfolding memberLikesBar_def membershipBar_def
        by (simp_all only: if_not_P [OF n] if_P [OF True] if_True if_False)
      then show ?thesis by simp
    next
      case False
      then have "memberLikesBar n k = ebind (membershipBar n k) (\<lambda>b. Inr (MEMBER_LIKES_MULTIPLIER * b))"
        unfolding memberLikesBar_def by (simp only: if_not_P [OF n] if_not_P [OF False] if_False)
      then show ?thesis
        by (cases "membershipBar n k") (simp_all add: MEMBER_LIKES_MULTIPLIER_def)
    qed
  qed
  with root bar show ?thesis by blast
qed

end
