(* ===== verification/Coinbase.thy ===== *)
theory Coinbase
  imports Valuation
begin

text \<open>
  \<open>packages/consensus/src/coinbase-split.ts\<close>: which ledger a transaction sits on,
  the actors a block's inclusion bonus counts, the emission schedule, the split
  of the coinbase and the backer pool's per-block arithmetic.  The percentages
  are the source's; every division is \<open>BigInt\<close> division.
\<close>

definition COINBASE_TREASURY_PCT :: int where "COINBASE_TREASURY_PCT = 5"
definition COINBASE_MINER_FLOOR_PCT :: int where "COINBASE_MINER_FLOOR_PCT = 35"
definition COINBASE_BACKER_PCT :: int where "COINBASE_BACKER_PCT = 35"
definition COINBASE_BONUS_PCT :: int where "COINBASE_BONUS_PCT = 25"
definition INCLUSION_BONUS_K :: int where "INCLUSION_BONUS_K = 5"
definition CREDIT_INITIAL_REWARD :: int where "CREDIT_INITIAL_REWARD = 42 * 10 ^ 8"
definition CREDIT_REWARD_REDUCTION :: int where "CREDIT_REWARD_REDUCTION = 1 * 10 ^ 8"

section \<open>Actors\<close>

record embeddedTx =
  e_tx :: utxoTransaction
  e_inputBoxes :: "anyBox list"

definition isCreditSideTx :: "utxoTransaction \<Rightarrow> bool" where
  "isCreditSideTx tx \<longleftrightarrow> length (outputs tx) > 0
     \<and> list_all (\<lambda>o'. boxTypeOf o' = BT_credit \<or> boxTypeOf o' = BT_fee) (outputs tx)"

definition actorOf :: "utxoTransaction \<Rightarrow> anyBox list \<Rightarrow> byte list option" where
  "actorOf tx inputBoxes =
     (case inputBoxes of
        [] \<Rightarrow> None
      | first # _ \<Rightarrow>
          (case boxTail first of
             Karma owner _ \<Rightarrow>
               if post tx = None \<and> postWithdraw tx = None \<and> likeTarget tx = None
                  \<and> list_all (\<lambda>o'. boxTypeOf o' = BT_karma) (outputs tx)
               then None else Some owner
           | Vouch voucherId _ \<Rightarrow> Some voucherId
           | _ \<Rightarrow> None))"

text \<open>The \<open>Set\<close> of hex keys is a list without repetitions.\<close>
fun karmaActors_loop :: "embeddedTx list \<Rightarrow> string \<Rightarrow> string list \<Rightarrow> string list" where
  "karmaActors_loop [] self seen = seen"
| "karmaActors_loop (e # es) self seen =
     (case actorOf (e_tx e) (e_inputBoxes e) of
        None \<Rightarrow> karmaActors_loop es self seen
      | Some actor \<Rightarrow>
          let actorHex = bytesToHex actor in
          karmaActors_loop es self (if actorHex \<noteq> self then List.insert actorHex seen else seen))"

definition countKarmaActors :: "embeddedTx list \<Rightarrow> byte list \<Rightarrow> int" where
  "countKarmaActors embedded validatorId =
     int (length (karmaActors_loop embedded (bytesToHex validatorId) []))"

lemma karmaActors_loop_set:
  "set (karmaActors_loop es self seen) = set seen \<union>
    {bytesToHex a |a. \<exists>e\<in>set es. actorOf (e_tx e) (e_inputBoxes e) = Some a \<and> bytesToHex a \<noteq> self}"
  by (induction es self seen rule: karmaActors_loop.induct)
    (auto simp: Let_def split: option.splits)

lemma karmaActors_loop_distinct: "distinct seen \<Longrightarrow> distinct (karmaActors_loop es self seen)"
  by (induction es self seen rule: karmaActors_loop.induct)
    (auto simp: Let_def split: option.splits)

lemma countKarmaActors_card:
  "countKarmaActors embedded v =
    int (card {a. a \<noteq> v \<and> (\<exists>e\<in>set embedded. actorOf (e_tx e) (e_inputBoxes e) = Some a)})"
proof -
  let ?A = "{a. a \<noteq> v \<and> (\<exists>e\<in>set embedded. actorOf (e_tx e) (e_inputBoxes e) = Some a)}"
  let ?l = "karmaActors_loop embedded (bytesToHex v) []"
  have "length ?l = card (set ?l)"
    using karmaActors_loop_distinct [of "[]" embedded "bytesToHex v"] by (simp add: distinct_card)
  also have "set ?l = bytesToHex ` ?A"
    by (auto simp: karmaActors_loop_set)
  also have "card (bytesToHex ` ?A) = card ?A"
    by (intro card_image) (simp add: inj_on_def)
  finally show ?thesis by (simp add: countKarmaActors_def)
qed

section \<open>The emission schedule\<close>

definition computeBlockReward :: "int \<Rightarrow> int \<Rightarrow> int \<Rightarrow> int" where
  "computeBlockReward height creditFixedRateBlocks creditEpochBlocks =
     (if height \<le> 0 then 0
      else if height \<le> creditFixedRateBlocks then CREDIT_INITIAL_REWARD
      else
        let epochs = (height - creditFixedRateBlocks - 1) div creditEpochBlocks + 1;
            reward = CREDIT_INITIAL_REWARD - epochs * CREDIT_REWARD_REDUCTION
        in if reward > 0 then reward else 0)"

lemma reward_in_epoch:
  assumes "0 < E" "0 \<le> F" "F + k * E < h" "h \<le> F + (k + 1) * E" "0 \<le> k"
  shows "computeBlockReward h F E = max 0 ((41 - k) * 10 ^ 8)"
proof -
  have "0 \<le> k * E" using assms by simp
  then have h: "F < h" "0 < h" using assms(2,3) by linarith+
  have "(h - F - 1) div E = k"
  proof -
    have "h - F - 1 = (h - F - 1 - k * E) + k * E" by simp
    moreover have "0 \<le> h - F - 1 - k * E" "h - F - 1 - k * E < E"
      using assms(3,4) by (simp_all add: distrib_right)
    ultimately show ?thesis using assms(1) by (metis add.commute div_mult_self1 div_pos_pos_trivial add_0_right less_irrefl)
  qed
  then show ?thesis
    using h by (simp add: computeBlockReward_def CREDIT_INITIAL_REWARD_def CREDIT_REWARD_REDUCTION_def max_def)
qed

lemma reward_sum_epochs:
  assumes "0 < E" "0 \<le> F" "n \<le> 42"
  shows "(\<Sum>h\<in>{F + 1..F + int n * E}. computeBlockReward h F E) =
    E * (\<Sum>k<n. (41 - int k) * 10 ^ 8)"
  using assms(3)
proof (induction n)
  case 0
  then show ?case by simp
next
  case (Suc n)
  define m where "m = int n * E"
  have nn: "0 \<le> m" using assms(1) by (simp add: m_def)
  have split: "{F + 1..F + int (Suc n) * E} = {F + 1..F + m} \<union> {F + m + 1..F + (m + E)}"
    using nn assms(1) by (auto simp: distrib_right m_def [symmetric])
  have "(\<Sum>h\<in>{F + m + 1..F + (m + E)}. computeBlockReward h F E) =
      (\<Sum>h\<in>{F + m + 1..F + (m + E)}. (41 - int n) * 10 ^ 8)"
    using reward_in_epoch [OF assms(1,2), of "int n"] Suc.prems
    by (intro sum.cong) (auto simp: m_def distrib_right)
  also have "\<dots> = E * ((41 - int n) * 10 ^ 8)"
    using assms(1) by simp
  finally have "(\<Sum>h\<in>{F + m + 1..F + (m + E)}. computeBlockReward h F E) = E * ((41 - int n) * 10 ^ 8)" .
  moreover have "(\<Sum>h\<in>{F + 1..F + int (Suc n) * E}. computeBlockReward h F E) =
      (\<Sum>h\<in>{F + 1..F + m}. computeBlockReward h F E) +
      (\<Sum>h\<in>{F + m + 1..F + (m + E)}. computeBlockReward h F E)"
    unfolding split by (rule sum.union_disjoint) auto
  moreover have "(\<Sum>h\<in>{F + 1..F + m}. computeBlockReward h F E) = E * (\<Sum>k<n. (41 - int k) * 10 ^ 8)"
    using Suc by (simp add: m_def)
  ultimately show ?case by (simp add: distrib_left)
qed

section \<open>The coinbase split\<close>

record coinbaseSplit =
  cs_treasury :: int
  cs_miner :: int
  cs_unearned :: int

definition splitCoinbase :: "int \<Rightarrow> int \<Rightarrow> int \<Rightarrow> int \<Rightarrow> int \<Rightarrow> coinbaseSplit" where
  "splitCoinbase emission fees rent actors backerDraw =
     (let income = emission + fees + rent;
          taxableIncome = emission + fees;
          treasury = bdiv (emission * COINBASE_TREASURY_PCT) 100 + bdiv (fees * COINBASE_TREASURY_PCT) 100;
          bonusPool = bdiv (taxableIncome * COINBASE_BONUS_PCT) 100;
          earned = bdiv (bonusPool * actors) (actors + INCLUSION_BONUS_K);
          unearned = bonusPool - earned
      in \<lparr>cs_treasury = treasury, cs_miner = income - treasury - unearned - backerDraw, cs_unearned = unearned\<rparr>)"

section \<open>The backer pool\<close>

record backerLegResult =
  bl_releases :: "int list"
  bl_staked :: int
  bl_accrual :: int
  bl_draw :: int

definition backerRelease :: "int \<Rightarrow> int \<Rightarrow> int \<Rightarrow> int" where
  "backerRelease sply accrualBefore weight =
     (if sply > 0 then bdiv (weight * accrualBefore) sply else 0)"

definition backerLeg :: "int \<Rightarrow> int \<Rightarrow> int \<Rightarrow> int \<Rightarrow> int list \<Rightarrow> bool \<Rightarrow> backerLegResult" where
  "backerLeg base sply stakedBefore accrualBefore unstakes inWindow =
     (let releases = map (backerRelease sply accrualBefore) unstakes;
          totalUnstaked = sum_list unstakes;
          staked = stakedBefore - totalUnstaked;
          inc = (if \<not> inWindow then 0
                 else if staked = 0 \<or> 100 * staked \<le> COINBASE_BACKER_PCT * sply then base
                 else bdiv (base * COINBASE_BACKER_PCT * sply) (100 * staked));
          draw = (if staked > 0 \<and> sply > 0 then bdiv (staked * inc + sply - 1) sply else 0);
          accrual = accrualBefore + inc
      in \<lparr>bl_releases = releases, bl_staked = staked, bl_accrual = accrual, bl_draw = draw\<rparr>)"

definition legInc :: "int \<Rightarrow> int \<Rightarrow> int \<Rightarrow> bool \<Rightarrow> int" where
  "legInc base sply staked inWindow =
     (if \<not> inWindow then 0
      else if staked = 0 \<or> 100 * staked \<le> 35 * sply then base
      else base * 35 * sply div (100 * staked))"

lemma legInc_eq:
  assumes "0 \<le> base" "0 \<le> sply" "0 \<le> s"
  shows "(if \<not> w then 0 else if s = 0 \<or> 100 * s \<le> COINBASE_BACKER_PCT * sply then base
      else bdiv (base * COINBASE_BACKER_PCT * sply) (100 * s)) = legInc base sply s w"
  using assms by (simp add: legInc_def COINBASE_BACKER_PCT_def bdiv_nonneg)

lemma backerLeg_eq:
  assumes "0 \<le> base" "0 \<le> sply" "sum_list us \<le> st"
  shows "backerLeg base sply st acc us w =
    (let s = st - sum_list us; inc = legInc base sply s w in
     \<lparr>bl_releases = map (backerRelease sply acc) us, bl_staked = s, bl_accrual = acc + inc,
      bl_draw = (if s > 0 \<and> sply > 0 then bdiv (s * inc + sply - 1) sply else 0)\<rparr>)"
  using legInc_eq [OF assms(1,2), of "st - sum_list us" w] assms(3)
  unfolding backerLeg_def Let_def by simp

lemma backerLeg_simps:
  assumes "0 \<le> base" "0 \<le> sply" "sum_list us \<le> st"
  shows "bl_staked (backerLeg base sply st acc us w) = st - sum_list us"
    and "bl_accrual (backerLeg base sply st acc us w) = acc + legInc base sply (st - sum_list us) w"
    and "bl_releases (backerLeg base sply st acc us w) = map (backerRelease sply acc) us"
  by (simp_all add: backerLeg_eq [OF assms] Let_def)

lemma legInc_nonneg: "0 \<le> base \<Longrightarrow> 0 \<le> sply \<Longrightarrow> 0 \<le> st \<Longrightarrow> 0 \<le> legInc base sply st w"
  by (simp add: legInc_def pos_imp_zdiv_nonneg_iff div_int_pos_iff)

lemma backerLeg_draw:
  assumes "0 \<le> base" "0 < sply" "sum_list us \<le> st"
  shows "bl_draw (backerLeg base sply st acc us w) =
    (let s = st - sum_list us in if s > 0 then (s * legInc base sply s w + sply - 1) div sply else 0)"
proof -
  let ?s = "st - sum_list us"
  have "0 \<le> ?s * legInc base sply ?s w + sply - 1"
  proof -
    have "0 \<le> ?s * legInc base sply ?s w"
      by (rule mult_nonneg_nonneg) (use legInc_nonneg [of base sply ?s w] assms in simp_all)
    then show ?thesis using assms(2) by linarith
  qed
  then have "bdiv (?s * legInc base sply ?s w + sply - 1) sply =
      (?s * legInc base sply ?s w + sply - 1) div sply"
    using assms(2) by (intro bdiv_nonneg) simp_all
  moreover have "0 \<le> sply" using assms(2) by simp
  ultimately show ?thesis
    using assms(2) unfolding backerLeg_eq [OF assms(1) \<open>0 \<le> sply\<close> assms(3)] Let_def by simp
qed

lemma draw_covers_inc:
  assumes "0 \<le> base" "0 < sply" "sum_list us \<le> st"
  shows "(st - sum_list us) * legInc base sply (st - sum_list us) w \<le>
    bl_draw (backerLeg base sply st acc us w) * sply"
proof (cases "st - sum_list us > 0")
  case True
  then show ?thesis using ceil_div_ge [OF assms(2)] by (simp add: backerLeg_draw [OF assms] Let_def)
next
  case False
  then have "st - sum_list us = 0" using assms(3) by simp
  moreover from False have "bl_draw (backerLeg base sply st acc us w) = 0"
    by (simp add: backerLeg_draw [OF assms] Let_def)
  ultimately show ?thesis by (simp only: mult_zero_left order_refl)
qed

lemma draw_capped:
  assumes "0 \<le> base" "0 < sply" "sum_list us \<le> st"
  shows "100 * bl_draw (backerLeg base sply st acc us w) \<le> 35 * base + 99"
proof -
  let ?s = "st - sum_list us" and ?inc = "legInc base sply (st - sum_list us) w"
  let ?draw = "(?s * ?inc + sply - 1) div sply"
  have cap: "100 * (?s * ?inc) \<le> 35 * base * sply" if "?s > 0"
  proof (cases "w \<and> \<not> (?s = 0 \<or> 100 * ?s \<le> 35 * sply)")
    case True
    then have inc: "?inc = base * 35 * sply div (100 * ?s)" unfolding legInc_def by presburger
    have "100 * (?s * ?inc) = ?inc * (100 * ?s)" by (simp only: ac_simps)
    also have "\<dots> \<le> base * 35 * sply"
      unfolding inc using that by (intro mult_div_le) simp
    also have "\<dots> = 35 * base * sply" by (simp only: ac_simps)
    finally show ?thesis .
  next
    case False
    have z: "0 \<le> 35 * base * sply" using assms by simp
    show ?thesis
    proof (cases w)
      case True
      with False \<open>0 < ?s\<close> have le: "100 * ?s \<le> 35 * sply" by auto
      then have "?inc = base" using True by (simp add: legInc_def)
      then have "100 * (?s * ?inc) = (100 * ?s) * base" by (simp only: mult.assoc)
      also have "\<dots> \<le> (35 * sply) * base" by (rule mult_right_mono [OF le assms(1)])
      also have "\<dots> = 35 * base * sply" by (simp only: ac_simps)
      finally show ?thesis .
    next
      case False
      then have "?inc = 0" by (simp add: legInc_def)
      then show ?thesis using z by (simp only: mult_zero_right)
    qed
  qed
  have "100 * ?draw \<le> 35 * base + 99" if s: "?s > 0"
  proof -
    have "?draw * sply \<le> ?s * ?inc + sply - 1" by (rule mult_div_le [OF assms(2)])
    then have "100 * (?draw * sply) \<le> 100 * (?s * ?inc) + 100 * sply - 100" by linarith
    then have "100 * ?draw * sply < (35 * base + 100) * sply"
      using cap [OF s] by (simp add: distrib_right mult.assoc)
    then have "100 * ?draw < 35 * base + 100" using assms(2) by (simp add: mult_less_cancel_right)
    then show ?thesis by linarith
  qed
  then show ?thesis using assms(1) by (simp add: backerLeg_draw [OF assms] Let_def)
qed

lemma release_bound: "0 < sply \<Longrightarrow> 0 \<le> acc \<Longrightarrow> 0 \<le> u \<Longrightarrow>
    0 \<le> backerRelease sply acc u \<and> backerRelease sply acc u * sply \<le> u * acc"
  by (simp add: backerRelease_def bdiv_nonneg mult_div_le pos_imp_zdiv_nonneg_iff)

lemma releases_bound:
  assumes "0 < sply" "0 \<le> acc" "\<forall>u\<in>set us. 0 \<le> u"
  shows "0 \<le> sum_list (map (backerRelease sply acc) us) \<and>
    sum_list (map (backerRelease sply acc) us) * sply \<le> sum_list us * acc"
  using assms(3)
proof (induction us)
  case (Cons u us)
  then show ?case using release_bound [OF assms(1,2), of u] by (auto simp: distrib_right)
qed simp

lemma split_bounds:
  assumes "0 \<le> emission" "0 \<le> fees" "0 \<le> rent" "0 \<le> actors" "base = emission + fees"
    and "100 * draw \<le> 35 * base + 99"
    and "s = splitCoinbase emission fees rent actors draw"
  shows "cs_treasury s + cs_miner s + cs_unearned s + draw = emission + fees + rent \<and>
    0 \<le> cs_treasury s \<and> 100 * cs_treasury s \<le> 5 * base \<and>
    0 \<le> cs_unearned s \<and> cs_unearned s \<le> base * 25 div 100 \<and>
    base * 35 div 100 + rent \<le> cs_miner s"
proof -
  let ?T = "emission * 5 div 100 + fees * 5 div 100" and ?B = "base * 25 div 100"
  let ?E = "?B * actors div (actors + 5)"
  have s: "s = \<lparr>cs_treasury = ?T, cs_miner = emission + fees + rent - ?T - (?B - ?E) - draw,
      cs_unearned = ?B - ?E\<rparr>"
    using assms by (simp add: splitCoinbase_def Let_def bdiv_nonneg COINBASE_TREASURY_PCT_def
        COINBASE_BONUS_PCT_def INCLUSION_BONUS_K_def pos_imp_zdiv_nonneg_iff)
  have T: "100 * ?T \<le> 5 * base" "0 \<le> ?T"
    using mult_div_le [of 100 "emission * 5"] mult_div_le [of 100 "fees * 5"] assms
    by (simp_all add: pos_imp_zdiv_nonneg_iff)
  have B: "100 * ?B \<le> 25 * base" "0 \<le> ?B"
    using mult_div_le [of 100 "base * 25"] assms by (simp_all add: pos_imp_zdiv_nonneg_iff)
  have "?B * actors \<le> ?B * (actors + 5)" using B by (intro mult_left_mono) auto
  then have "?E \<le> ?B * (actors + 5) div (actors + 5)" using assms by (intro zdiv_mono1) auto
  then have E: "?E \<le> ?B" "0 \<le> ?E" using assms B(2) by (simp_all add: pos_imp_zdiv_nonneg_iff)
  have "base * 35 div 100 * 100 \<le> base * 35" by (rule mult_div_le) simp
  then have "base * 35 div 100 + rent \<le> emission + fees + rent - ?T - (?B - ?E) - draw"
    using T B E assms(5,6) by linarith
  then show ?thesis
    unfolding s coinbaseSplit.select_convs using T B E by (intro conjI; linarith)
qed

section \<open>Properties\<close>

text \<open>the backer pool is always solvent. If the pool's value covers what the
  live stakes have accrued (value times sply at least staked times accrual),
  then it covers this block's releases, and after the releases and the draw the
  successor pool covers the remaining stakes at the new accrual, whatever the
  window and however the caps round.\<close>
theorem backer_pool_stays_solvent:
  assumes "0 \<le> base" "0 < sply" "0 \<le> acc" "\<forall>u\<in>set us. 0 \<le> u" "sum_list us \<le> st"
    and "st * acc \<le> pool * sply"
    and "leg = backerLeg base sply st acc us w"
    and "pool' = pool - sum_list (bl_releases leg) + bl_draw leg"
  shows "sum_list (bl_releases leg) \<le> pool \<and> 0 \<le> bl_draw leg \<and> 0 \<le> pool' \<and>
    bl_staked leg * bl_accrual leg \<le> pool' * sply"
proof -
  let ?U = "sum_list us" and ?R = "sum_list (map (backerRelease sply acc) us)"
  let ?inc = "legInc base sply (st - ?U) w"
  note leg = backerLeg_simps [OF assms(1) _ assms(5), of sply acc w]
  have R: "?R * sply \<le> ?U * acc" using releases_bound [OF assms(2-4)] by simp
  have D: "(st - ?U) * ?inc \<le> bl_draw leg * sply"
    unfolding assms(7) by (rule draw_covers_inc [OF assms(1,2,5)])
  have inc: "0 \<le> ?inc" using assms by (intro legInc_nonneg) auto
  have rest: "0 \<le> (st - ?U) * acc" using assms by simp
  have "st * acc = ?U * acc + (st - ?U) * acc" by (simp add: algebra_simps)
  then have 1: "?R * sply \<le> pool * sply" "(st - ?U) * acc \<le> pool * sply - ?R * sply"
    using R rest assms(6) by linarith+
  have "(pool - ?R + bl_draw leg) * sply = pool * sply - ?R * sply + bl_draw leg * sply"
    by (simp add: left_diff_distrib distrib_right)
  moreover have "(st - ?U) * (acc + ?inc) = (st - ?U) * acc + (st - ?U) * ?inc"
    by (simp only: distrib_left)
  ultimately have cover: "(st - ?U) * (acc + ?inc) \<le> (pool - ?R + bl_draw leg) * sply"
    using 1(2) D by linarith
  have "0 \<le> (st - ?U) * ?inc" using inc assms(5) by (intro mult_nonneg_nonneg) simp_all
  with D have "0 \<le> bl_draw leg * sply" by linarith
  then have draw: "0 \<le> bl_draw leg" using assms(2) by (simp add: zero_le_mult_iff)
  have "?R \<le> pool" using 1(1) assms(2) by (simp add: mult_le_cancel_right)
  moreover have "sply \<ge> 0" using assms(2) by simp
  note eqs = leg [OF this, folded assms(7)]
  ultimately show ?thesis using cover draw by (simp add: eqs assms(8))
qed

lemma backer_pool_stays_solvent_witness:
  "sum_list (bl_releases (backerLeg 42 100 80 3 [10, 5] True)) \<le> 3"
  using backer_pool_stays_solvent [of 42 100 3 "[10, 5]" 80 3
      "backerLeg 42 100 80 3 [10, 5] True" True, OF _ _ _ _ _ _ refl refl] by simp

text \<open>The miner's floor is real. With the backer leg's own draw and any number of
  actors, the split adds up to the block's income, gives the treasury at most 5
  percent of the taxable income, never forfeits more than the bonus pool, and
  leaves the miner at least 35 percent of emission and fees (rounded down) plus
  the whole storage rent.\<close>
theorem coinbase_miner_floor:
  assumes "0 \<le> emission" "0 \<le> fees" "0 \<le> rent" "0 \<le> actors" "0 < sply" "sum_list us \<le> st"
    and "base = emission + fees"
    and "draw = bl_draw (backerLeg base sply st acc us w)"
    and "s = splitCoinbase emission fees rent actors draw"
  shows "cs_treasury s + cs_miner s + cs_unearned s + draw = emission + fees + rent \<and>
    0 \<le> cs_treasury s \<and> 100 * cs_treasury s \<le> 5 * base \<and>
    0 \<le> cs_unearned s \<and> cs_unearned s \<le> base * 25 div 100 \<and>
    base * 35 div 100 + rent \<le> cs_miner s"
  using draw_capped [of base sply us st acc w] split_bounds [OF assms(1-4,7) _ assms(9)] assms by simp

lemma coinbase_miner_floor_witness:
  "cs_miner (splitCoinbase 4200000000 77 13 3 (bl_draw (backerLeg 4200000077 1000 999 5 [] True))) \<ge>
     4200000077 * 35 div 100 + 13"
  using coinbase_miner_floor [of 4200000000 77 13 3 1000 "[]" 999 4200000077 _ 5 True, OF _ _ _ _ _ _ _ refl refl]
  by simp

text \<open>The emission curve has exactly the sum the constants are chosen under: over
  the fixed-rate blocks and 41 epochs it pays 42 F + 861 E credits (in base units
  of 10^-8), every later height pays nothing, and no height pays more than its
  predecessor.\<close>
lemma emission_curve_sum:
  assumes "0 < E" "0 \<le> F"
  shows "(\<Sum>h\<in>{1..F + 41 * E}. computeBlockReward h F E) = (42 * F + 861 * E) * 10 ^ 8 \<and>
    (\<forall>h. F + 41 * E < h \<longrightarrow> computeBlockReward h F E = 0) \<and>
    (\<forall>h h'. 0 < h \<longrightarrow> h \<le> h' \<longrightarrow> computeBlockReward h' F E \<le> computeBlockReward h F E)"
proof (intro conjI allI impI)
  have fixed: "(\<Sum>h\<in>{1..F}. computeBlockReward h F E) = (\<Sum>h\<in>{1..F}. 42 * 10 ^ 8)"
    by (intro sum.cong) (auto simp: computeBlockReward_def CREDIT_INITIAL_REWARD_def)
  have ep: "(\<Sum>h\<in>{F + 1..F + 41 * E}. computeBlockReward h F E) = E * (861 * 10 ^ 8)"
    using reward_sum_epochs [OF assms, of 41] by (simp add: numeral_eq_Suc)
  have split: "{1..F + 41 * E} = {1..F} \<union> {F + 1..F + 41 * E}" using assms by auto
  have "(\<Sum>h\<in>{1..F + 41 * E}. computeBlockReward h F E) =
      (\<Sum>h\<in>{1..F}. computeBlockReward h F E) + (\<Sum>h\<in>{F + 1..F + 41 * E}. computeBlockReward h F E)"
    unfolding split by (rule sum.union_disjoint) auto
  then show "(\<Sum>h\<in>{1..F + 41 * E}. computeBlockReward h F E) = (42 * F + 861 * E) * 10 ^ 8"
    using fixed ep assms by (simp add: distrib_right)
next
  fix h assume h: "F + 41 * E < h"
  have "41 \<le> (h - F - 1) div E"
    using zdiv_mono1 [of "41 * E" "h - F - 1" E] h assms by simp
  moreover have "F < h" "0 < h" using h assms by linarith+
  ultimately show "computeBlockReward h F E = 0"
    by (simp add: computeBlockReward_def CREDIT_INITIAL_REWARD_def CREDIT_REWARD_REDUCTION_def Let_def)
next
  fix h h' :: int assume h: "0 < h" "h \<le> h'"
  have m: "(h - F - 1) div E \<le> (h' - F - 1) div E" using h assms by (intro zdiv_mono1) auto
  have p: "0 \<le> (h' - F - 1) div E" if "F < h'"
    using that assms by (simp add: pos_imp_zdiv_nonneg_iff)
  show "computeBlockReward h' F E \<le> computeBlockReward h F E"
    using h m p by (auto simp: computeBlockReward_def CREDIT_INITIAL_REWARD_def CREDIT_REWARD_REDUCTION_def Let_def)
qed

lemma emission_curve_sum_witness:
  "(\<Sum>h\<in>{1..1051200 + 41 * 470000}. computeBlockReward h 1051200 470000) = 448820400 * 10 ^ 8 \<and>
   (\<Sum>h\<in>{1..1000 + 41 * 400}. computeBlockReward h 1000 400) = 386400 * 10 ^ 8"
  using emission_curve_sum [of 470000 1051200] emission_curve_sum [of 400 1000] by simp

text \<open>The inclusion bonus counts people, not transactions: the count is the number
  of distinct actors other than the block's validator, so repeating an actor or
  embedding the validator's own work never raises it.\<close>
lemma karma_actor_count:
  "countKarmaActors embedded v =
     int (card {a. a \<noteq> v \<and> (\<exists>e\<in>set embedded. actorOf (e_tx e) (e_inputBoxes e) = Some a)}) \<and>
   countKarmaActors (embedded @ embedded) v = countKarmaActors embedded v \<and>
   countKarmaActors (filter (\<lambda>e. actorOf (e_tx e) (e_inputBoxes e) \<noteq> Some v) embedded) v =
     countKarmaActors embedded v"
proof -
  have "{a. a \<noteq> v \<and> (\<exists>e\<in>set (filter (\<lambda>e. actorOf (e_tx e) (e_inputBoxes e) \<noteq> Some v) embedded).
        actorOf (e_tx e) (e_inputBoxes e) = Some a)} =
      {a. a \<noteq> v \<and> (\<exists>e\<in>set embedded. actorOf (e_tx e) (e_inputBoxes e) = Some a)}"
    by auto
  then show ?thesis by (simp only: countKarmaActors_card set_append Un_absorb simp_thms)
qed

end
