(* ===== verification/Checks.thy ===== *)
theory Checks
  imports Coinbase
begin

text \<open>
  The first half of \<open>packages/consensus/src/utxo-engine.ts\<close>: what \<open>validateTx\<close> asks
  of a transaction before its transition is looked at.  The envelope and the
  protocol era (\<open>packages/validation/src/verify.ts\<close>, \<open>network.ts\<close>), the closed
  output schema, conservation, spend timing and authorization.

  A check returns \<open>Inr ()\<close> or the first refusal, in the order of the source.
  A refusal carries the source's error text (without the values interpolated
  into it); \<open>Threw\<close> is an exception that leaves the function instead.
  Values are typed, so the run-time type and key-set tests of the source hold by
  typing; the numeric and length domains they also test are kept.
\<close>

datatype refusal = Refused string | Threw

type_synonym verdict = "refusal + unit"

text \<open>A run of \<open>if (bad) return { valid: false, error }\<close>.\<close>
fun firstRefusal :: "(bool \<times> string) list \<Rightarrow> verdict" where
  "firstRefusal [] = Inr ()"
| "firstRefusal ((bad, e) # cs) = (if bad then Inl (Refused e) else firstRefusal cs)"

lemma firstRefusal_ok [simp]:
  "firstRefusal ((bad, e) # cs) = Inr u \<longleftrightarrow> \<not> bad \<and> firstRefusal cs = Inr u"
  by simp

declare firstRefusal.simps(2) [simp del]

lemma firstRefusal_refused: "bad \<Longrightarrow> firstRefusal ((bad, e) # cs) = Inl (Refused e)"
  by (simp add: firstRefusal.simps)

text \<open>An exception of a callee propagates.\<close>
definition orThrow :: "'a res \<Rightarrow> refusal + 'a" where
  "orThrow m = (case m of Inl _ \<Rightarrow> Inl Threw | Inr v \<Rightarrow> Inr v)"

lemma orThrow_eq [bind_iff]: "orThrow m = Inr v \<longleftrightarrow> m = Inr v"
  by (cases m) (auto simp: orThrow_def)

section \<open>Fields of a box\<close>

definition tail_owner :: "boxTail \<Rightarrow> byte list option" where
  "tail_owner t = (case t of
     Karma o' _ \<Rightarrow> Some o' | Credit o' _ \<Rightarrow> Some o' | Username o' _ \<Rightarrow> Some o'
   | VouchEscrow o' _ \<Rightarrow> Some o' | BackerStake o' _ \<Rightarrow> Some o' | BackerUnstake o' _ \<Rightarrow> Some o'
   | _ \<Rightarrow> None)"

definition tail_income :: "boxTail \<Rightarrow> bool" where
  "tail_income t = (case t of Karma _ i \<Rightarrow> i | _ \<Rightarrow> False)"

definition tail_author :: "boxTail \<Rightarrow> byte list option" where
  "tail_author t = (case t of LikeAccrual a \<Rightarrow> Some a | _ \<Rightarrow> None)"

definition tail_voucher :: "boxTail \<Rightarrow> byte list option" where
  "tail_voucher t = (case t of Vouch v _ \<Rightarrow> Some v | _ \<Rightarrow> None)"

definition tail_target :: "boxTail \<Rightarrow> byte list option" where
  "tail_target t = (case t of Vouch _ g \<Rightarrow> Some g | _ \<Rightarrow> None)"

definition tail_inviter :: "boxTail \<Rightarrow> byte list option" where
  "tail_inviter t = (case t of Bond i _ \<Rightarrow> Some i | _ \<Rightarrow> None)"

definition tail_invitee :: "boxTail \<Rightarrow> byte list option" where
  "tail_invitee t = (case t of Bond _ k \<Rightarrow> Some k | _ \<Rightarrow> None)"

definition tail_lock :: "boxTail \<Rightarrow> int option" where
  "tail_lock t = (case t of Credit _ l \<Rightarrow> l | _ \<Rightarrow> None)"

definition tail_release :: "boxTail \<Rightarrow> int option" where
  "tail_release t = (case t of VouchEscrow _ h \<Rightarrow> Some h | _ \<Rightarrow> None)"

definition tail_name :: "boxTail \<Rightarrow> byte list" where
  "tail_name t = (case t of Username _ n \<Rightarrow> n | _ \<Rightarrow> [])"

definition tail_weight :: "boxTail \<Rightarrow> int" where
  "tail_weight t = (case t of BackerStake _ w \<Rightarrow> w | BackerUnstake _ w \<Rightarrow> w | _ \<Rightarrow> 0)"

lemmas tail_defs = tail_owner_def tail_income_def tail_author_def tail_voucher_def tail_target_def
  tail_inviter_def tail_invitee_def tail_lock_def tail_release_def tail_name_def tail_weight_def

definition ofType :: "boxType \<Rightarrow> ('a candidate_scheme) list \<Rightarrow> ('a candidate_scheme) list" where
  "ofType t bs = filter (\<lambda>b. boxTypeOf b = t) bs"

definition valueSum :: "('a candidate_scheme) list \<Rightarrow> int" where
  "valueSum bs = sum_list (map boxValue bs)"

lemma valueSum_simps [simp]:
  "valueSum [] = 0" "valueSum (b # bs) = boxValue b + valueSum bs"
  "valueSum (as @ bs) = valueSum as + valueSum bs"
  by (simp_all add: valueSum_def)

section \<open>Protocol era and envelope\<close>

record protocolEra =
  era_version :: int
  era_fromHeight :: int

fun protocolVersionAt_loop :: "protocolEra list \<Rightarrow> int \<Rightarrow> int option \<Rightarrow> int option" where
  "protocolVersionAt_loop [] height version = version"
| "protocolVersionAt_loop (era # es) height version =
     protocolVersionAt_loop es height
       (if era_fromHeight era \<le> height then Some (era_version era) else version)"

definition protocolVersionAt :: "protocolEra list \<Rightarrow> int \<Rightarrow> int option" where
  "protocolVersionAt schedule height =
     (if \<not> isSafeInteger height \<or> height < 0 then None
      else protocolVersionAt_loop schedule height None)"

definition verifyProtocolVersion :: "int \<Rightarrow> int \<Rightarrow> protocolEra list \<Rightarrow> bool" where
  "verifyProtocolVersion declared height schedule \<longleftrightarrow>
     (case protocolVersionAt schedule height of None \<Rightarrow> False | Some era \<Rightarrow> declared = era)"

definition verifyTxProtocolVersion :: "utxoTransaction \<Rightarrow> int \<Rightarrow> protocolEra list \<Rightarrow> bool" where
  "verifyTxProtocolVersion tx height schedule \<longleftrightarrow>
     verifyProtocolVersion (protocolVersion tx) height schedule \<and>
     (case post tx of None \<Rightarrow> True | Some p \<Rightarrow> verifyProtocolVersion (pc_protocolVersion p) height schedule)"

definition MAX_PARENT_REFS :: int where "MAX_PARENT_REFS = 1"

definition verifyPostCommitDomains :: "postCommit \<Rightarrow> verdict" where
  "verifyPostCommitDomains c = firstRefusal
     [(length (contentHash c) \<noteq> 32, ''Post contentHash must be exactly 32 bytes''),
      (length (author c) \<noteq> 32, ''Post author must be exactly 32 bytes''),
      (\<not> list_all isHex64 (parentRefs c), ''Post parentRef must be 64 lowercase hex characters''),
      (int (length (parentRefs c)) > MAX_PARENT_REFS, ''Too many parent refs''),
      (\<not> (isSafeInteger (pc_protocolVersion c) \<and> pc_protocolVersion c \<ge> 0),
        ''Post protocolVersion must be a non-negative safe integer'')]"

definition verifyPostWithdrawCommitDomains :: "string \<Rightarrow> verdict" where
  "verifyPostWithdrawCommitDomains postId = firstRefusal
     [(\<not> isHex64 postId, ''PostWithdrawCommit postId must be 64 lowercase hex characters'')]"

definition checkHexKeyedByteMap :: "(string \<times> byte list) list \<Rightarrow> nat \<Rightarrow> verdict" where
  "checkHexKeyedByteMap m byteLength = echeck (\<lambda>(key, v). firstRefusal
     [(\<not> isHex64 key, ''signatures key must be 64 lowercase hex characters''),
      (length v \<noteq> byteLength, ''signatures value must be 64 bytes'')]) m"

definition checkTxEnvelope :: "utxoTransaction \<Rightarrow> int \<Rightarrow> protocolEra list \<Rightarrow> verdict" where
  "checkTxEnvelope tx height schedule =
     ebind (echeck (\<lambda>i. firstRefusal [(\<not> isHex64 i, ''inputs must be 64 lowercase hex characters'')]) (inputs tx)) (\<lambda>_.
     ebind (checkHexKeyedByteMap (signatures tx) 64) (\<lambda>_.
     ebind (firstRefusal
       [(\<not> verifyTxProtocolVersion tx height schedule, ''protocolVersion must be the era at height''),
        (length (filter id [likeTarget tx \<noteq> None, post tx \<noteq> None, postWithdraw tx \<noteq> None]) > 1,
          ''at most one payload field allowed''),
        (case likeTarget tx of None \<Rightarrow> False | Some t \<Rightarrow> \<not> isHex64 t,
          ''likeTarget must be 64 lowercase hex characters'')]) (\<lambda>_.
     ebind (case post tx of None \<Rightarrow> Inr () | Some p \<Rightarrow> verifyPostCommitDomains p) (\<lambda>_.
     (case postWithdraw tx of None \<Rightarrow> Inr () | Some w \<Rightarrow> verifyPostWithdrawCommitDomains w)))))"

section \<open>Usernames\<close>

definition isAlphabetByte :: "byte \<Rightarrow> bool" where
  "isAlphabetByte b \<longleftrightarrow> (b \<ge> 0x41 \<and> b \<le> 0x5a) \<or> (b \<ge> 0x61 \<and> b \<le> 0x61 + 25)
     \<or> (b \<ge> 0x30 \<and> b \<le> 0x39) \<or> b = 0x5f"

definition isValidUsernameBytes :: "byte list \<Rightarrow> bool" where
  "isValidUsernameBytes name \<longleftrightarrow>
     (if length name < 1 \<or> int (length name) > USERNAME_MAX_BYTES then False
      else list_all isAlphabetByte name)"

definition canonicalUsernameBytes :: "byte list \<Rightarrow> byte list" where
  "canonicalUsernameBytes name = map (\<lambda>b. if b \<ge> 0x41 \<and> b \<le> 0x5a then b + 0x20 else b) name"

section \<open>Output shape\<close>

datatype fieldVal = FU64 int | FBytes32 "byte list" | FBytes "byte list" | FUint int

fun fieldOk :: "fieldVal \<Rightarrow> bool" where
  "fieldOk (FU64 v) \<longleftrightarrow> v \<ge> 0 \<and> v < BOX_VALUE_BOUND"
| "fieldOk (FBytes32 b) \<longleftrightarrow> length b = 32"
| "fieldOk (FBytes b) \<longleftrightarrow> True"
| "fieldOk (FUint v) \<longleftrightarrow> isSafeInteger v \<and> v \<ge> 0"

datatype creator = User | Settlement

definition outputCreator :: "boxType \<Rightarrow> creator option" where
  "outputCreator t = (case t of
     BT_genesis_proof \<Rightarrow> None
   | BT_emission \<Rightarrow> Some Settlement | BT_treasury \<Rightarrow> Some Settlement
   | BT_karma_pool \<Rightarrow> Some Settlement | BT_backer_pool \<Rightarrow> Some Settlement
   | _ \<Rightarrow> Some User)"

text \<open>The per-type fields of \<open>OUTPUT_SHAPE\<close>; \<open>value\<close> and \<open>createdAtBlock\<close> are common.\<close>
fun tailFields :: "boxTail \<Rightarrow> fieldVal list" where
  "tailFields (Karma owner _) = [FBytes32 owner]"
| "tailFields (Credit owner l) = FBytes32 owner # (case l of None \<Rightarrow> [] | Some h \<Rightarrow> [FUint h])"
| "tailFields (Bond inviter invitee) = [FBytes32 inviter, FBytes32 invitee]"
| "tailFields (Vouch voucher target) = [FBytes32 voucher, FBytes32 target]"
| "tailFields (LikeAccrual a) = [FBytes32 a]"
| "tailFields (VouchEscrow owner h) = [FBytes32 owner, FUint h]"
| "tailFields (Username owner name) = [FBytes32 owner, FBytes name]"
| "tailFields (BackerStake owner w) = [FBytes32 owner, FU64 w]"
| "tailFields (BackerUnstake owner w) = [FBytes32 owner, FU64 w]"
| "tailFields (BackerPool s a) = [FU64 s, FU64 a]"
| "tailFields _ = []"

definition outputFields :: "'a candidate_scheme \<Rightarrow> fieldVal list" where
  "outputFields b = [FU64 (boxValue b), FUint (createdAtBlock b)] @ tailFields (boxTail b)"

definition checkShapeAgainst :: "candidate list \<Rightarrow> bool \<Rightarrow> verdict" where
  "checkShapeAgainst outs settlement = echeck (\<lambda>b. firstRefusal
     [(boxTypeOf b = BT_genesis_proof \<or>
         (\<not> settlement \<and> outputCreator (boxTypeOf b) = Some Settlement),
         ''a box may not be a transaction output''),
      (\<not> settlement \<and> tail_income (boxTail b), ''unexpected key income''),
      (\<not> list_all fieldOk (outputFields b), ''field out of its type'')]) outs"

definition checkOutputShape :: "candidate list \<Rightarrow> verdict" where
  "checkOutputShape outs = checkShapeAgainst outs False"

definition checkSettlementOutputShape :: "candidate list \<Rightarrow> verdict" where
  "checkSettlementOutputShape outs = checkShapeAgainst outs True"

section \<open>Conservation and timing\<close>

definition checkValueConservation :: "anyBox list \<Rightarrow> candidate list \<Rightarrow> string option \<Rightarrow> verdict" where
  "checkValueConservation inputBoxes outs like = firstRefusal
     [(like \<noteq> None \<and> \<not> list_all (\<lambda>b. boxTypeOf b = BT_karma) inputBoxes,
        ''likeTarget is only legal on an all-karma burn transaction''),
      (valueSum inputBoxes \<noteq> valueSum outs, ''Value non-conservation'')]"

definition checkSpendTiming :: "anyBox list \<Rightarrow> int \<Rightarrow> verdict" where
  "checkSpendTiming inputBoxes currentBlockHeight = echeck (\<lambda>box. firstRefusal
     [(case (if boxTypeOf box = BT_credit then tail_lock (boxTail box) else None) of
         None \<Rightarrow> False | Some unlock \<Rightarrow> currentBlockHeight < unlock, ''Box is locked'')]) inputBoxes"

section \<open>Authorization\<close>

datatype authorization = NoUserTransition | Signer "byte list option"

text \<open>The row of \<open>authorizationTable\<close> for a box: \<open>Signer None\<close> is the waiver of a
  rent collection.\<close>
definition authorizationOf :: "utxoTransaction \<Rightarrow> int \<Rightarrow> int \<Rightarrow> anyBox \<Rightarrow> authorization" where
  "authorizationOf tx currentBlockHeight storageRentPeriod box =
     (case boxTail box of
        Karma owner _ \<Rightarrow> Signer (Some owner)
      | Username owner _ \<Rightarrow> Signer (Some owner)
      | BackerStake owner _ \<Rightarrow> Signer (Some owner)
      | Vouch voucherId _ \<Rightarrow> Signer (Some voucherId)
      | Credit owner _ \<Rightarrow>
          if signatures tx = [] \<and> currentBlockHeight - createdAtBlock box > storageRentPeriod
          then Signer None else Signer (Some owner)
      | _ \<Rightarrow> NoUserTransition)"

type_synonym sigVerify = "byte list \<Rightarrow> byte list \<Rightarrow> byte list \<Rightarrow> bool"

definition verifyGuardSignature :: "utxoTransaction \<Rightarrow> byte list \<Rightarrow> byte list \<Rightarrow> sigVerify \<Rightarrow> bool" where
  "verifyGuardSignature tx txHash pubKey verifySignature =
     (case map_of (signatures tx) (bytesToHex pubKey) of
        None \<Rightarrow> False
      | Some signature \<Rightarrow> verifySignature signature txHash pubKey)"

definition authorizeInput ::
    "utxoTransaction \<Rightarrow> byte list \<Rightarrow> int \<Rightarrow> int \<Rightarrow> sigVerify \<Rightarrow> anyBox \<Rightarrow> string list \<Rightarrow> refusal + string list" where
  "authorizeInput tx txHash h rent verify box requiredKeys =
     (case authorizationOf tx h rent box of
        NoUserTransition \<Rightarrow> Inl (Refused ''No user transition consumes box'')
      | Signer None \<Rightarrow> Inr requiredKeys
      | Signer (Some signerKey) \<Rightarrow>
          let signerHex = bytesToHex signerKey in
          if signerHex \<in> set requiredKeys then Inr requiredKeys
          else if \<not> verifyGuardSignature tx txHash signerKey verify
               then Inl (Refused ''Missing or invalid owner signature for box'')
               else Inr (signerHex # requiredKeys))"

definition checkAuthorization ::
    "utxoTransaction \<Rightarrow> string \<Rightarrow> anyBox list \<Rightarrow> int \<Rightarrow> int \<Rightarrow> sigVerify \<Rightarrow> verdict" where
  "checkAuthorization tx txId inputBoxes h rent verify =
     ebind (orThrow (hexToBytes txId)) (\<lambda>txHash.
     ebind (efold (authorizeInput tx txHash h rent verify) inputBoxes []) (\<lambda>requiredKeys.
     echeck (\<lambda>e. firstRefusal
       [(fst e \<notin> set requiredKeys, ''Signature map carries unrequired key'')]) (signatures tx)))"

subsection \<open>What the checks establish\<close>

lemma checkShape_ok:
  assumes "checkShapeAgainst outs settlement = Inr ()" "b \<in> set outs"
  shows "0 \<le> boxValue b" "boxValue b < BOX_VALUE_BOUND" "0 \<le> createdAtBlock b"
    "isSafeInteger (createdAtBlock b)" "boxTypeOf b \<noteq> BT_genesis_proof"
    "list_all fieldOk (tailFields (boxTail b))"
    "\<not> settlement \<Longrightarrow> outputCreator (boxTypeOf b) = Some User"
    "\<not> settlement \<Longrightarrow> \<not> tail_income (boxTail b)"
proof -
  have *: "\<not> (boxTypeOf b = BT_genesis_proof \<or> (\<not> settlement \<and> outputCreator (boxTypeOf b) = Some Settlement))"
    "\<not> (\<not> settlement \<and> tail_income (boxTail b))" "list_all fieldOk (outputFields b)"
    using assms by (auto simp: checkShapeAgainst_def bind_iff)
  then show "0 \<le> boxValue b" "boxValue b < BOX_VALUE_BOUND" "0 \<le> createdAtBlock b"
    "isSafeInteger (createdAtBlock b)" "boxTypeOf b \<noteq> BT_genesis_proof"
    "list_all fieldOk (tailFields (boxTail b))" "\<not> settlement \<Longrightarrow> \<not> tail_income (boxTail b)"
    by (auto simp: outputFields_def)
  show "outputCreator (boxTypeOf b) = Some User" if "\<not> settlement"
    using * that by (cases "boxTypeOf b") (auto simp: outputCreator_def)
qed

lemma checkValueConservation_ok:
  "checkValueConservation ins outs like = Inr () \<Longrightarrow> valueSum ins = valueSum outs"
  by (simp add: checkValueConservation_def)

lemma authorizeInput_ok:
  assumes "authorizeInput tx txHash h rent verify box ks = Inr ks'"
  shows "set ks \<subseteq> set ks'"
    and "\<And>k. k \<in> set ks' \<Longrightarrow> k \<in> set ks \<or> (\<exists>key. authorizationOf tx h rent box = Signer (Some key) \<and> k = bytesToHex key)"
    and "authorizationOf tx h rent box = Signer None \<or>
      (\<exists>key. authorizationOf tx h rent box = Signer (Some key) \<and> bytesToHex key \<in> set ks' \<and>
        (bytesToHex key \<in> set ks \<or> verifyGuardSignature tx txHash key verify))"
  using assms by (auto simp: authorizeInput_def Let_def split: authorization.splits option.splits if_splits)

lemma authorizeInputs_ok:
  assumes "efold (authorizeInput tx txHash h rent verify) boxes ks = Inr ks'"
    and "\<And>k. k \<in> set ks \<Longrightarrow> \<exists>key. k = bytesToHex key \<and> verifyGuardSignature tx txHash key verify"
  shows "set ks \<subseteq> set ks'"
    and "\<And>k. k \<in> set ks' \<Longrightarrow> \<exists>key. k = bytesToHex key \<and> verifyGuardSignature tx txHash key verify"
    and "\<And>k. k \<in> set ks' \<Longrightarrow> k \<in> set ks \<or>
      (\<exists>box\<in>set boxes. \<exists>key. authorizationOf tx h rent box = Signer (Some key) \<and> k = bytesToHex key)"
    and "\<And>box. box \<in> set boxes \<Longrightarrow> authorizationOf tx h rent box = Signer None \<or>
      (\<exists>key. authorizationOf tx h rent box = Signer (Some key) \<and> verifyGuardSignature tx txHash key verify)"
proof -
  have "set ks \<subseteq> set ks' \<and>
    (\<forall>k\<in>set ks'. \<exists>key. k = bytesToHex key \<and> verifyGuardSignature tx txHash key verify) \<and>
    (\<forall>k\<in>set ks'. k \<in> set ks \<or>
      (\<exists>box\<in>set boxes. \<exists>key. authorizationOf tx h rent box = Signer (Some key) \<and> k = bytesToHex key)) \<and>
    (\<forall>box\<in>set boxes. authorizationOf tx h rent box = Signer None \<or>
      (\<exists>key. authorizationOf tx h rent box = Signer (Some key) \<and> verifyGuardSignature tx txHash key verify))"
    using assms
  proof (induction boxes arbitrary: ks)
    case Nil
    then show ?case by auto
  next
    case (Cons box boxes)
    then obtain ks1 where k1: "authorizeInput tx txHash h rent verify box ks = Inr ks1"
        and k2: "efold (authorizeInput tx txHash h rent verify) boxes ks1 = Inr ks'"
      by (auto simp: bind_iff)
    note a = authorizeInput_ok [OF k1]
    have v: "\<exists>key. authorizationOf tx h rent box = Signer (Some key) \<and> verifyGuardSignature tx txHash key verify"
      if "authorizationOf tx h rent box \<noteq> Signer None"
    proof -
      from a(3) that obtain key where key: "authorizationOf tx h rent box = Signer (Some key)"
        "bytesToHex key \<in> set ks \<or> verifyGuardSignature tx txHash key verify" by auto
      then show ?thesis using Cons.prems(2) [of "bytesToHex key"] by auto
    qed
    have ver: "\<exists>key. k = bytesToHex key \<and> verifyGuardSignature tx txHash key verify"
      if "k \<in> set ks1" for k
      using a(2) [OF that] Cons.prems(2) v by auto
    note IH = Cons.IH [OF k2 ver]
    show ?case
    proof (intro conjI)
      show "set ks \<subseteq> set ks'" using a(1) IH by blast
      show "\<forall>k\<in>set ks'. \<exists>key. k = bytesToHex key \<and> verifyGuardSignature tx txHash key verify"
        using IH by blast
      show "\<forall>k\<in>set ks'. k \<in> set ks \<or> (\<exists>box\<in>set (box # boxes). \<exists>key.
          authorizationOf tx h rent box = Signer (Some key) \<and> k = bytesToHex key)"
        using IH a(2) by (metis list.set_intros(1) list.set_intros(2))
      show "\<forall>box\<in>set (box # boxes). authorizationOf tx h rent box = Signer None \<or>
          (\<exists>key. authorizationOf tx h rent box = Signer (Some key) \<and> verifyGuardSignature tx txHash key verify)"
        using IH v by (metis set_ConsD)
    qed
  qed
  then show "set ks \<subseteq> set ks'"
    and "\<And>k. k \<in> set ks' \<Longrightarrow> \<exists>key. k = bytesToHex key \<and> verifyGuardSignature tx txHash key verify"
    and "\<And>k. k \<in> set ks' \<Longrightarrow> k \<in> set ks \<or>
      (\<exists>box\<in>set boxes. \<exists>key. authorizationOf tx h rent box = Signer (Some key) \<and> k = bytesToHex key)"
    and "\<And>box. box \<in> set boxes \<Longrightarrow> authorizationOf tx h rent box = Signer None \<or>
      (\<exists>key. authorizationOf tx h rent box = Signer (Some key) \<and> verifyGuardSignature tx txHash key verify)"
    by blast+
qed

lemma checkAuthorization_ok:
  assumes "checkAuthorization tx txId boxes h rent verify = Inr ()"
  obtains txHash where "hexToBytes txId = Inr txHash"
    "\<And>box. box \<in> set boxes \<Longrightarrow> authorizationOf tx h rent box = Signer None \<or>
      (\<exists>key. authorizationOf tx h rent box = Signer (Some key) \<and> verifyGuardSignature tx txHash key verify)"
    "\<And>k. k \<in> fst ` set (signatures tx) \<Longrightarrow>
      \<exists>box\<in>set boxes. \<exists>key. authorizationOf tx h rent box = Signer (Some key) \<and> k = bytesToHex key \<and>
        verifyGuardSignature tx txHash key verify"
proof -
  obtain txHash ks where t: "hexToBytes txId = Inr txHash"
      and k: "efold (authorizeInput tx txHash h rent verify) boxes [] = Inr ks"
      and s: "\<forall>e\<in>set (signatures tx). fst e \<in> set ks"
    using assms by (auto simp: checkAuthorization_def bind_iff)
  note a = authorizeInputs_ok [OF k]
  have 3: "\<exists>box\<in>set boxes. \<exists>key. authorizationOf tx h rent box = Signer (Some key) \<and> k = bytesToHex key \<and>
        verifyGuardSignature tx txHash key verify"
    if "k \<in> fst ` set (signatures tx)" for k
  proof -
    from that s have "k \<in> set ks" by auto
    with a(3) [of k] obtain box key where box: "box \<in> set boxes"
        "authorizationOf tx h rent box = Signer (Some key)" "k = bytesToHex key" by auto
    from a(4) [OF _ box(1)] box(2) have "verifyGuardSignature tx txHash key verify" by simp
    with box show ?thesis by blast
  qed
  have 4: "authorizationOf tx h rent box = Signer None \<or>
      (\<exists>key. authorizationOf tx h rent box = Signer (Some key) \<and> verifyGuardSignature tx txHash key verify)"
    if "box \<in> set boxes" for box
    by (rule a(4) [OF _ that]) simp
  show ?thesis by (rule that [OF t 4 3])
qed

end
