(* ===== verification/Transitions.thy ===== *)
theory Transitions
  imports Checks "HOL-Library.Multiset"
begin

text \<open>
  Step 9 of \<open>validateTx\<close> in \<open>packages/consensus/src/utxo-engine.ts\<close>: the legal box
  transitions.  The readers the engine is given (\<open>UtxoEngineDeps\<close>) are a record
  of functions; the arms of the \<open>switch\<close> are one definition each, and the
  karma arm is split along its branches.  \<open>Threw\<close> marks where an expression of
  the source raises instead of returning a verdict.
\<close>

section \<open>Constants\<close>

definition POST_PRICE_THREAD :: int where "POST_PRICE_THREAD = 5"
definition POST_PRICE_REPLY :: int where "POST_PRICE_REPLY = 3"
definition REPLY_AUTHOR_SHARE :: int where "REPLY_AUTHOR_SHARE = 1"
definition USERNAME_BURN_PRICE :: int where "USERNAME_BURN_PRICE = 10"
definition LIKE_KARMA_COST :: int where "LIKE_KARMA_COST = 1"
definition VOUCH_KARMA_AMOUNT :: int where "VOUCH_KARMA_AMOUNT = 1"
definition VOUCH_CAST_HEIGHT_WINDOW :: int where "VOUCH_CAST_HEIGHT_WINDOW = 5"
definition BACKER_UNSTAKE_MIN_PCT :: int where "BACKER_UNSTAKE_MIN_PCT = 1"
definition MIN_BOX_VALUE_PER_BYTE :: int where "MIN_BOX_VALUE_PER_BYTE = 156"
definition STORAGE_RENT_PER_BYTE :: int where "STORAGE_RENT_PER_BYTE = 605378"

lemmas price_defs = POST_PRICE_THREAD_def POST_PRICE_REPLY_def REPLY_AUTHOR_SHARE_def
  USERNAME_BURN_PRICE_def LIKE_KARMA_COST_def VOUCH_KARMA_AMOUNT_def

section \<open>What the engine reads\<close>

record usernameRow =
  nameLower :: string
  row_name :: string
  row_owner :: string
  row_boxId :: string
  claimedAtBlock :: int

record networkRecord =
  memberCount :: int

record utxoEngineDeps =
  getBox :: "string \<Rightarrow> anyBox option"
  getKarmaValue :: "byte list \<Rightarrow> int"
  getKarmaOwed :: "byte list \<Rightarrow> int \<Rightarrow> int res"
  getOwnKarmaBoxIds :: "byte list \<Rightarrow> string list"
  getIdentityRecord :: "byte list \<Rightarrow> identityRecord option"
  hasActiveVouchEscrow :: "byte list \<Rightarrow> bool"
  vouchCooldownBlocks :: int
  getTopologyAuthor :: "string \<Rightarrow> byte list option"
  getPendingPostAuthor :: "string \<Rightarrow> byte list option"
  inviteBondMin :: int
  inviteBondMax :: int
  d_decayCfg :: decayCfg
  storageRentPeriodBlocks :: int
  getBoxProvenance :: "string \<Rightarrow> (string \<times> int) option"
  getVouchBox :: "byte list \<Rightarrow> byte list \<Rightarrow> anyBox option"
  getNetworkRecord :: networkRecord
  membershipBarMultiplier :: int
  protocolVersionSchedule :: "protocolEra list"
  getUsername :: "string \<Rightarrow> usernameRow option"
  getUsernameByOwner :: "byte list \<Rightarrow> usernameRow option"
  verifySignature :: sigVerify

section \<open>Membership and the invite budget\<close>

definition isMember :: "identityRecord \<Rightarrow> bool" where
  "isMember r \<longleftrightarrow> memberSinceBlock r > 0 \<and> memberVouches r \<ge> memberBar r"

definition isRoot :: "identityRecord \<Rightarrow> bool" where
  "isRoot r \<longleftrightarrow> memberSinceBlock r > 0 \<and> memberBar r = 0 \<and> invitedAtBlock r = 0"

datatype budget = NoRecord | Root | NoBudget | Budget int

definition availableInvites :: "identityRecord option \<Rightarrow> int res \<Rightarrow> budget res" where
  "availableInvites rcd bar =
     (case rcd of None \<Rightarrow> Inr NoRecord
      | Some r \<Rightarrow>
          if isRoot r then Inr Root
          else if \<not> isMember r then Inr NoBudget
          else ebind bar (\<lambda>b. Inr (Budget (memberVouches r div b - invitesUsed r))))"

section \<open>The karma arm\<close>

text \<open>\<open>KARMA_TRANSITION_VERDICT\<close>: the types a karma spend may create.\<close>
fun KARMA_TRANSITION_VERDICT :: "boxType \<Rightarrow> bool" where
  "KARMA_TRANSITION_VERDICT BT_karma = True"
| "KARMA_TRANSITION_VERDICT BT_bond = True"
| "KARMA_TRANSITION_VERDICT BT_karma_price = True"
| "KARMA_TRANSITION_VERDICT BT_vouch = True"
| "KARMA_TRANSITION_VERDICT BT_like_accrual = True"
| "KARMA_TRANSITION_VERDICT BT_username = True"
| "KARMA_TRANSITION_VERDICT _ = False"

text \<open>\<open>bytesToHex(box.owner)\<close> against a hex key: a box with no owner makes the
  call raise.\<close>
definition ownerIs :: "string \<Rightarrow> byte list option \<Rightarrow> string \<Rightarrow> verdict" where
  "ownerIs e k ownerHex = (case k of None \<Rightarrow> Inl Threw
     | Some key \<Rightarrow> firstRefusal [(bytesToHex key \<noteq> ownerHex, e)])"

lemma ownerIs_ok [simp]: "ownerIs e k (bytesToHex owner) = Inr u \<longleftrightarrow> k = Some owner"
  by (auto simp: ownerIs_def split: option.splits)

definition canonicalUsername :: "byte list \<Rightarrow> string" where
  "canonicalUsername name = map (\<lambda>b. char_of (unat b)) (canonicalUsernameBytes name)"

text \<open>The checks every karma transition passes first.\<close>
definition karmaCommon ::
    "utxoEngineDeps \<Rightarrow> anyBox list \<Rightarrow> candidate list \<Rightarrow> byte list \<Rightarrow> verdict" where
  "karmaCommon deps ins outs owner =
     ebind (firstRefusal [(\<not> list_all (\<lambda>o'. KARMA_TRANSITION_VERDICT (boxTypeOf o')) outs,
       ''Illegal karma transition'')]) (\<lambda>_.
     ebind (echeck (\<lambda>b. ownerIs ''Karma cannot be transferred (karma inputs have different owners)''
       (tail_owner (boxTail b)) (bytesToHex owner)) ins) (\<lambda>_.
     ebind (firstRefusal
       [(length (ofType BT_karma outs) > 1, ''A karma spend emits at most one karma output''),
        (list_ex (\<lambda>k. tail_income (boxTail k)) (ofType BT_karma outs),
          ''A karma output of a user transaction never carries the income mark''),
        (\<not> list_all (\<lambda>i. i \<in> boxId ` set ins) (getOwnKarmaBoxIds deps owner),
          ''The owner's own karma box is not among the inputs'')]) (\<lambda>_.
     echeck (\<lambda>k. ebind (firstRefusal
         [(boxValue k = 0, ''A zero-value karma output is not created; zero means no box'')]) (\<lambda>_.
       ownerIs ''Karma cannot be transferred (owner change on karma box)''
         (tail_owner (boxTail k)) (bytesToHex owner))) (ofType BT_karma outs))))"

definition spendOf :: "candidate list \<Rightarrow> int" where
  "spendOf outs = valueSum (filter (\<lambda>o'. boxTypeOf o' \<noteq> BT_karma) outs)"

definition spendCheck :: "utxoEngineDeps \<Rightarrow> byte list \<Rightarrow> int \<Rightarrow> int \<Rightarrow> bool \<Rightarrow> verdict" where
  "spendCheck deps owner height spend isPost =
     (if spend = 0 then Inr ()
      else ebind (orThrow (getKarmaOwed deps owner height)) (\<lambda>owed.
        let held = getKarmaValue deps owner;
            remaining = held - owed;
            floor = karmaMinimum (d_decayCfg deps)
        in if isPost
           then firstRefusal [(remaining < spend, ''Karma spend exceeds what remains'')]
           else firstRefusal [(remaining - spend < floor, ''Karma spend below the floor'')]))"

definition usernameBurnArm ::
    "utxoEngineDeps \<Rightarrow> candidate list \<Rightarrow> byte list \<Rightarrow> anyBox \<Rightarrow> verdict" where
  "usernameBurnArm deps outs owner uBox =
     (let karmaOutputs = ofType BT_karma outs; priceOutputs = ofType BT_karma_price outs in
      ebind (ownerIs ''Burn: username box owner must match'' (tail_owner (boxTail uBox)) (bytesToHex owner)) (\<lambda>_.
      firstRefusal
       [(length priceOutputs \<noteq> 1, ''Burn: exactly one KarmaPriceBox required''),
        (boxValue (hd priceOutputs) \<noteq> USERNAME_BURN_PRICE, ''Burn: price must be exact''),
        (length (ofType BT_username outs) \<noteq> 0, ''Burn: no username output allowed''),
        (length karmaOutputs > 1 \<or> length outs \<noteq> length karmaOutputs + 1,
          ''Burn: at most one karma output beside the price box'')]))"

definition usernameClaimArm ::
    "utxoEngineDeps \<Rightarrow> candidate list \<Rightarrow> byte list \<Rightarrow> verdict" where
  "usernameClaimArm deps outs owner =
     (let karmaOutputs = ofType BT_karma outs; usernameOutputs = ofType BT_username outs;
          uOut = hd usernameOutputs; name = tail_name (boxTail uOut) in
      ebind (firstRefusal
       [(length usernameOutputs \<noteq> 1, ''Claim: exactly one username output required''),
        (boxValue uOut \<noteq> 0, ''Claim: username box value must be 0''),
        (\<not> isValidUsernameBytes name, ''name invalid'')]) (\<lambda>_.
      ebind (ownerIs ''Claim: username owner must match'' (tail_owner (boxTail uOut)) (bytesToHex owner)) (\<lambda>_.
      firstRefusal
       [(getUsername deps (canonicalUsername name) \<noteq> None, ''name taken''),
        (getUsernameByOwner deps owner \<noteq> None, ''identity holds a name''),
        (length karmaOutputs > 1 \<or> length outs \<noteq> length karmaOutputs + 1,
          ''Claim: at most one karma output beside the username box'')])))"

definition likeArm :: "utxoEngineDeps \<Rightarrow> candidate list \<Rightarrow> byte list \<Rightarrow> string \<Rightarrow> verdict" where
  "likeArm deps outs owner target =
     (let karmaOutputs = ofType BT_karma outs; accrualOutputs = ofType BT_like_accrual outs;
          marker = hd accrualOutputs in
      ebind (firstRefusal
       [(length accrualOutputs \<noteq> 1 \<or> length karmaOutputs > 1 \<or>
           length outs \<noteq> 1 + length karmaOutputs, ''Invalid like transition''),
        (boxValue marker \<noteq> LIKE_KARMA_COST, ''Like marker must carry exactly the cost'')]) (\<lambda>_.
      case getTopologyAuthor deps target of
        None \<Rightarrow> Inl (Refused ''Like target is not confirmed, so it names no author'')
      | Some a \<Rightarrow>
          ebind (ownerIs ''Like marker names another author'' (tail_author (boxTail marker)) (bytesToHex a)) (\<lambda>_.
          firstRefusal [(bytesToHex a = bytesToHex owner, ''A like of one's own post is refused'')])))"

definition postArm :: "utxoEngineDeps \<Rightarrow> candidate list \<Rightarrow> byte list \<Rightarrow> postCommit \<Rightarrow> verdict" where
  "postArm deps outs owner p =
     (let karmaOutputs = ofType BT_karma outs; priceOutputs = ofType BT_karma_price outs;
          accrualOutputs = ofType BT_like_accrual outs; marker = hd accrualOutputs in
      ebind (firstRefusal
        [(author p \<noteq> owner, ''Post author must own the karma the transaction spends'')]) (\<lambda>_.
      if parentRefs p = [] then firstRefusal
        [(length priceOutputs \<noteq> 1 \<or> length accrualOutputs \<noteq> 0 \<or> length karmaOutputs > 1 \<or>
            length outs \<noteq> 1 + length karmaOutputs, ''Invalid thread transition''),
         (boxValue (hd priceOutputs) \<noteq> POST_PRICE_THREAD, ''Thread price must be exact'')]
      else ebind (firstRefusal
        [(length priceOutputs \<noteq> 1 \<or> length accrualOutputs \<noteq> 1 \<or> length karmaOutputs > 1 \<or>
            length outs \<noteq> 2 + length karmaOutputs, ''Invalid reply transition''),
         (boxValue (hd priceOutputs) \<noteq> POST_PRICE_REPLY - REPLY_AUTHOR_SHARE,
            ''Reply price box must be exact''),
         (boxValue marker \<noteq> REPLY_AUTHOR_SHARE, ''Reply accrual marker must be exact'')]) (\<lambda>_.
        let parentId = hd (parentRefs p);
            parentAuthor = (case getTopologyAuthor deps parentId of
              Some a \<Rightarrow> Some a | None \<Rightarrow> getPendingPostAuthor deps parentId)
        in case parentAuthor of
             None \<Rightarrow> Inl (Refused ''Reply parent names no author'')
           | Some a \<Rightarrow> ownerIs ''Reply marker names another author''
               (tail_author (boxTail marker)) (bytesToHex a))))"

definition withdrawArm :: "utxoEngineDeps \<Rightarrow> candidate list \<Rightarrow> byte list \<Rightarrow> string \<Rightarrow> verdict" where
  "withdrawArm deps outs owner postId = firstRefusal
     [(length (ofType BT_karma outs) \<noteq> 1 \<or> length outs \<noteq> 1,
        ''PostWithdraw transition requires exactly one karma output''),
      (case getTopologyAuthor deps postId of None \<Rightarrow> True
         | Some a \<Rightarrow> bytesToHex a \<noteq> bytesToHex owner,
        ''PostWithdraw post is not authored by the karma input's owner'')]"

definition vouchArm :: "utxoEngineDeps \<Rightarrow> candidate list \<Rightarrow> byte list \<Rightarrow> int \<Rightarrow> verdict" where
  "vouchArm deps outs owner height =
     (let vouchOutputs = ofType BT_vouch outs; vouchOut = hd vouchOutputs;
          voucherId = tail_voucher (boxTail vouchOut); targetId = tail_target (boxTail vouchOut) in
      ebind (firstRefusal
       [(length vouchOutputs \<noteq> 1 \<or> length (ofType BT_bond outs) > 0 \<or>
           length (ofType BT_karma_price outs) > 0, ''Invalid vouch transition''),
        (boxValue vouchOut \<noteq> VOUCH_KARMA_AMOUNT, ''Vouch cast must stake exactly the amount'')]) (\<lambda>_.
      ebind (ownerIs ''Vouch voucherId must be the karma input's owner'' voucherId (bytesToHex owner)) (\<lambda>_.
      firstRefusal
       [(hasActiveVouchEscrow deps (the voucherId), ''Vouch cast is locked''),
        (case getIdentityRecord deps (the voucherId) of None \<Rightarrow> True | Some r \<Rightarrow> \<not> isMember r,
           ''Vouch cast requires the voucher to be a member''),
        (getIdentityRecord deps (the targetId) = None, ''Vouch target holds no identity record''),
        (bytesToHex (the voucherId) = bytesToHex (the targetId), ''Cannot vouch for yourself''),
        (getVouchBox deps (the voucherId) (the targetId) \<noteq> None, ''A live vouch already exists''),
        (createdAtBlock vouchOut < height - VOUCH_CAST_HEIGHT_WINDOW,
           ''Vouch createdAtBlock is too old'')])))"

definition bondArm :: "utxoEngineDeps \<Rightarrow> candidate list \<Rightarrow> byte list \<Rightarrow> verdict" where
  "bondArm deps outs owner =
     (let bondOutputs = ofType BT_bond outs; bondOut = hd bondOutputs;
          inviterId = tail_inviter (boxTail bondOut);
          inviteePublicKey = tail_invitee (boxTail bondOut) in
      ebind (firstRefusal
       [(length bondOutputs \<noteq> 1 \<or> length (ofType BT_vouch outs) > 0, ''An invite requires exactly 1 bond output''),
        (boxValue bondOut < inviteBondMin deps \<or> boxValue bondOut > inviteBondMax deps,
           ''An invite bond is out of range'')]) (\<lambda>_.
      ebind (ownerIs ''Bond inviterId must be the karma input's owner'' inviterId (bytesToHex owner)) (\<lambda>_.
      ebind (firstRefusal
       [(getIdentityRecord deps (the inviteePublicKey) \<noteq> None,
           ''An invite may not name an existing account'')]) (\<lambda>_.
      ebind (orThrow (availableInvites (getIdentityRecord deps (the inviterId))
               (membershipBar (memberCount (getNetworkRecord deps)) (membershipBarMultiplier deps)))) (\<lambda>avail.
      case avail of
        NoRecord \<Rightarrow> Inl (Refused ''Inviter holds no identity record'')
      | NoBudget \<Rightarrow> Inl (Refused ''Only a root or a member may invite'')
      | Root \<Rightarrow> Inr ()
      | Budget n \<Rightarrow> firstRefusal [(n < 1, ''Inviter has no invites available'')])))))"

definition karmaArm ::
    "utxoEngineDeps \<Rightarrow> anyBox list \<Rightarrow> candidate list \<Rightarrow> string option \<Rightarrow> postCommit option \<Rightarrow>
     string option \<Rightarrow> int \<Rightarrow> anyBox option \<Rightarrow> verdict" where
  "karmaArm deps ins outs like p pw height usernameInput =
     (case tail_owner (boxTail (hd ins)) of None \<Rightarrow> Inl Threw
      | Some owner \<Rightarrow>
        let spend = spendOf outs; spendVerdict = spendCheck deps owner height spend (p \<noteq> None) in
        ebind (karmaCommon deps ins outs owner) (\<lambda>_.
        ebind (firstRefusal
          [((usernameInput \<noteq> None \<or> list_ex (\<lambda>o'. boxTypeOf o' = BT_username) outs) \<and>
            (like \<noteq> None \<or> p \<noteq> None \<or> pw \<noteq> None),
            ''A username input or output is not legal on a like, post or withdrawal transaction'')]) (\<lambda>_.
        case usernameInput of
          Some uBox \<Rightarrow> ebind (usernameBurnArm deps outs owner uBox) (\<lambda>_. spendVerdict)
        | None \<Rightarrow>
            if list_ex (\<lambda>o'. boxTypeOf o' = BT_username) outs then usernameClaimArm deps outs owner
            else ebind
              (case (like, p, pw) of
                 (Some target, _, _) \<Rightarrow> likeArm deps outs owner target
               | (None, Some c, _) \<Rightarrow> postArm deps outs owner c
               | (None, None, Some postId) \<Rightarrow> withdrawArm deps outs owner postId
               | (None, None, None) \<Rightarrow>
                   if length (ofType BT_karma_price outs) > 0 then
                     Inl (Refused ''A karma_price output requires the transaction to carry its post payload'')
                   else if length (ofType BT_vouch outs) > 0 then vouchArm deps outs owner height
                   else if length (ofType BT_bond outs) > 0 then bondArm deps outs owner
                   else Inr ())
              (\<lambda>_. spendVerdict))))"

section \<open>The credit, vouch and backer arms\<close>

text \<open>The rent loop: the charge of each input and the successor it owes.  The
  source's keys are the strings \<open>owner:remainder\<close>.\<close>
definition rentInput ::
    "utxoEngineDeps \<Rightarrow> int \<Rightarrow> anyBox \<Rightarrow> int \<times> (string \<times> int) list \<Rightarrow>
     refusal + int \<times> (string \<times> int) list" where
  "rentInput deps height credit = (\<lambda>(totalCharge, expected).
     ebind (firstRefusal
       [(\<not> height - createdAtBlock credit > storageRentPeriodBlocks deps,
          ''Rent: input is not past its rent period'')]) (\<lambda>_.
     case getBoxProvenance deps (boxId credit) of
       None \<Rightarrow> Inl (Refused ''Rent: no provenance for input'')
     | Some (ptx, pidx) \<Rightarrow>
         ebind (orThrow (boxRecordBytes (candidate_of credit) ptx pidx)) (\<lambda>bytes.
         let charge = STORAGE_RENT_PER_BYTE * int (length bytes) in
         if boxValue credit \<ge> charge then
           (case tail_owner (boxTail credit) of None \<Rightarrow> Inl Threw
            | Some owner \<Rightarrow>
                Inr (totalCharge + charge, expected @ [(bytesToHex owner, boxValue credit - charge)]))
         else Inr (totalCharge + boxValue credit, expected))))"

definition successorKey :: "candidate \<Rightarrow> string \<times> int" where
  "successorKey c = (bytesToHex (the (tail_owner (boxTail c))), boxValue c)"

definition creditArm ::
    "utxoEngineDeps \<Rightarrow> anyBox list \<Rightarrow> candidate list \<Rightarrow> int \<Rightarrow> bool \<Rightarrow> verdict" where
  "creditArm deps ins outs height isRentShape =
     (let feeOutputs = ofType BT_fee outs; creditOutputs = ofType BT_credit outs in
      ebind (firstRefusal
       [(outs = [] \<or> \<not> list_all (\<lambda>o'. boxTypeOf o' = BT_credit \<or> boxTypeOf o' = BT_fee) outs,
          ''CreditBox can only be spent to create CreditBox or FeeBox outputs''),
        (length feeOutputs > 1, ''A transaction carries at most one FeeBox output''),
        (list_ex (\<lambda>f. boxValue f = 0) feeOutputs, ''A zero-value FeeBox is not created'')]) (\<lambda>_.
      if \<not> isRentShape then Inr ()
      else ebind (efold (rentInput deps height) ins (0, [])) (\<lambda>(totalCharge, expected).
           ebind (echeck (\<lambda>c. firstRefusal
             [(createdAtBlock c \<noteq> height, ''Rent: successor createdAtBlock must equal height''),
              (tail_lock (boxTail c) \<noteq> None, ''Rent: a successor carries no lockedUntilBlock'')])
             creditOutputs) (\<lambda>_.
           firstRefusal
             [(mset expected \<noteq> mset (map successorKey creditOutputs),
                ''Rent: credit outputs do not match the expected successors''),
              (length feeOutputs \<noteq> 1 \<or> boxValue (hd feeOutputs) \<noteq> totalCharge,
                ''Rent: FeeBox must carry exactly the summed charge'')]))))"

definition unvouchArm :: "utxoEngineDeps \<Rightarrow> anyBox list \<Rightarrow> candidate list \<Rightarrow> verdict" where
  "unvouchArm deps ins outs =
     (let escrowOutputs = ofType BT_vouch_escrow outs; staked = hd ins; escrow = hd escrowOutputs in
      firstRefusal
       [(length ins \<noteq> 1, ''Unvouch must consume exactly one VouchBox''),
        (length outs \<noteq> 1 \<or> length escrowOutputs \<noteq> 1,
          ''VouchBox can only be spent to produce exactly one vouch_escrow output''),
        (boxValue escrow \<noteq> boxValue staked, ''Unvouch escrow holds another value''),
        (tail_owner (boxTail escrow) \<noteq> tail_voucher (boxTail staked),
          ''Unvouch escrow owner must be the consumed VouchBox's voucherId''),
        (tail_release (boxTail escrow) \<noteq> Some (createdAtBlock staked + vouchCooldownBlocks deps),
          ''Unvouch escrow releaseAtBlock is pinned'')])"

definition unstakeArm :: "anyBox list \<Rightarrow> candidate list \<Rightarrow> verdict" where
  "unstakeArm ins outs =
     (let stake = hd ins; markerOutputs = ofType BT_backer_unstake outs;
          successorOutputs = ofType BT_backer_stake outs; marker = hd markerOutputs;
          successor = (if length successorOutputs = 1 then Some (hd successorOutputs) else None);
          weightOf = (\<lambda>c. tail_weight (boxTail c)) in
      firstRefusal
       [(length ins \<noteq> 1, ''Unstake must consume exactly one BackerStakeBox''),
        (length markerOutputs \<noteq> 1, ''Unstake must produce exactly one backer_unstake marker''),
        (length successorOutputs > 1, ''Unstake may produce at most one backer_stake successor''),
        (length outs \<noteq> length markerOutputs + length successorOutputs,
          ''Unstake outputs must be the marker and at most one successor''),
        (weightOf marker < 1, ''unstake marker weight must be at least 1''),
        (case successor of None \<Rightarrow> False | Some s \<Rightarrow> weightOf s < 1,
          ''stake successor weight must be at least 1''),
        (weightOf marker + (case successor of None \<Rightarrow> 0 | Some s \<Rightarrow> weightOf s) \<noteq> tail_weight (boxTail stake),
          ''unstake weight not conserved''),
        (weightOf marker * 100 < tail_weight (boxTail stake) * BACKER_UNSTAKE_MIN_PCT, ''unstake below minimum''),
        (tail_owner (boxTail marker) \<noteq> tail_owner (boxTail stake), ''unstake marker names another owner''),
        (case successor of None \<Rightarrow> False | Some s \<Rightarrow> tail_owner (boxTail s) \<noteq> tail_owner (boxTail stake),
          ''stake successor names another owner''),
        (boxValue marker \<noteq> 0, ''backer_unstake value must be 0''),
        (case successor of None \<Rightarrow> False | Some s \<Rightarrow> boxValue s \<noteq> 0,
          ''backer_stake successor value must be 0'')])"

section \<open>checkTransitions\<close>

definition checkTransitions ::
    "anyBox list \<Rightarrow> candidate list \<Rightarrow> utxoEngineDeps \<Rightarrow> string option \<Rightarrow> postCommit option \<Rightarrow>
     string option \<Rightarrow> int \<Rightarrow> bool \<Rightarrow> verdict" where
  "checkTransitions ins outs deps like p pw height isRentShape =
     (let hasParentedPost = (case p of None \<Rightarrow> False | Some c \<Rightarrow> parentRefs c \<noteq> []);
          usernameInput = List.find (\<lambda>b. boxTypeOf b = BT_username) ins in
      ebind (firstRefusal
       [(like = None \<and> \<not> hasParentedPost \<and> list_ex (\<lambda>o'. boxTypeOf o' = BT_like_accrual) outs,
          ''a LikeAccrualBox output is legal only on a like or a reply''),
        (like \<noteq> None \<and> list_ex (\<lambda>b. boxTypeOf b \<noteq> BT_karma) ins,
          ''likeTarget is only legal on an all-karma burn transaction'')]) (\<lambda>_.
      if usernameInput = None \<and> ins = [] then Inl Threw
      else let inputType = (if usernameInput \<noteq> None then BT_karma else boxTypeOf (hd ins)) in
        ebind (firstRefusal
         [(inputType \<noteq> BT_karma \<and> (p \<noteq> None \<or> pw \<noteq> None \<or> like \<noteq> None),
            ''A payload field is legal only on a karma transition'')]) (\<lambda>_.
        case inputType of
          BT_karma \<Rightarrow> karmaArm deps ins outs like p pw height usernameInput
        | BT_bond \<Rightarrow> Inl (Refused ''BondBox can only be consumed by block application (not user transactions)'')
        | BT_credit \<Rightarrow> creditArm deps ins outs height isRentShape
        | BT_karma_price \<Rightarrow> Inl (Refused ''KarmaPriceBox can only be consumed by block application (not user transactions)'')
        | BT_vouch \<Rightarrow> unvouchArm deps ins outs
        | BT_backer_stake \<Rightarrow> unstakeArm ins outs
        | _ \<Rightarrow> Inl (Refused ''Unknown box type''))))"

end
