(* ===== verification/Engine.thy ===== *)
theory Engine
  imports Transitions
begin

text \<open>
  \<open>validateTx\<close>, \<open>materializeOutput\<close> and \<open>applyTx\<close> of
  \<open>packages/consensus/src/utxo-engine.ts\<close>.  \<open>validateTx\<close> is the sequence of the
  checks of the theories before; \<open>applyTx\<close> runs over the operations of a store,
  whose laws are the locale \<open>ledger_store\<close>: what a spend, an insert and a
  record write do to the live boxes and the identity records.
\<close>

section \<open>validateTx\<close>

definition checkInputTypes :: "anyBox list \<Rightarrow> verdict" where
  "checkInputTypes ins =
     (let types = remdups (map boxTypeOf ins) in
      if length types > 1 then
        if \<not> (length types = 2 \<and> BT_karma \<in> set types \<and> BT_username \<in> set types)
        then Inl (Refused ''Mixed input types not allowed'')
        else firstRefusal [(length (ofType BT_username ins) \<noteq> 1, ''At most one username input in a burn'')]
      else firstRefusal [(boxTypeOf (hd ins) = BT_username,
        ''A username input alone is not a valid transaction shape'')])"

definition highestInputHeight :: "anyBox list \<Rightarrow> int" where
  "highestInputHeight ins =
     foldl (\<lambda>h b. if createdAtBlock b > h then createdAtBlock b else h) 0 ins"

definition checkHeights :: "anyBox list \<Rightarrow> candidate list \<Rightarrow> int \<Rightarrow> verdict" where
  "checkHeights ins outs height = echeck (\<lambda>out. firstRefusal
     [(createdAtBlock out > height, ''Output createdAtBlock is ahead of height''),
      (createdAtBlock out < highestInputHeight ins, ''Output createdAtBlock is below highest input height'')]) outs"

definition checkCreditFloor :: "candidate list \<Rightarrow> string \<Rightarrow> verdict" where
  "checkCreditFloor outs txId = echeck (\<lambda>(i, out).
     if boxTypeOf out \<noteq> BT_credit then Inr ()
     else ebind (orThrow (boxRecordBytes out txId (int i))) (\<lambda>bytes.
       firstRefusal [(boxValue out < MIN_BOX_VALUE_PER_BYTE * int (length bytes),
         ''Credit output value is below the per-byte minimum'')])) (enumerate 0 outs)"

definition materializeOutput :: "hash \<Rightarrow> candidate \<Rightarrow> string \<Rightarrow> int \<Rightarrow> anyBox res" where
  "materializeOutput H box txId index =
     (let withProvenance = \<lparr>boxValue = boxValue box, createdAtBlock = createdAtBlock box,
        boxTail = boxTail box, boxId = [], boxTxId = txId, boxIndex = index\<rparr> in
      ebind (computeBoxId H withProvenance) (\<lambda>i. Inr (withProvenance\<lparr>boxId := i\<rparr>)))"

definition materializeOutputs :: "hash \<Rightarrow> candidate list \<Rightarrow> string \<Rightarrow> anyBox list res" where
  "materializeOutputs H outs txId = emap (\<lambda>(i, box). materializeOutput H box txId (int i)) (enumerate 0 outs)"

definition resolveInputs :: "(string \<Rightarrow> anyBox option) \<Rightarrow> string list \<Rightarrow> refusal + anyBox list" where
  "resolveInputs lookup ids = emap (\<lambda>i. case lookup i of
     None \<Rightarrow> Inl (Refused ''Input box not found or already spent'') | Some b \<Rightarrow> Inr b) ids"

definition validateTx ::
    "hash \<Rightarrow> utxoEngineDeps \<Rightarrow> utxoTransaction \<Rightarrow> string \<Rightarrow> int \<Rightarrow> refusal + anyBox list" where
  "validateTx H deps tx txId height =
     ebind (checkTxEnvelope tx height (protocolVersionSchedule deps)) (\<lambda>_.
     ebind (firstRefusal
       [(length (remdups (inputs tx)) \<noteq> length (inputs tx), ''Duplicate input box IDs''),
        (inputs tx = [], ''Transaction must have at least one input'')]) (\<lambda>_.
     ebind (resolveInputs (getBox deps) (inputs tx)) (\<lambda>inputBoxes.
     ebind (checkSpendTiming inputBoxes height) (\<lambda>_.
     ebind (checkInputTypes inputBoxes) (\<lambda>_.
     ebind (checkOutputShape (outputs tx)) (\<lambda>_.
     ebind (checkHeights inputBoxes (outputs tx) height) (\<lambda>_.
     ebind (checkCreditFloor (outputs tx) txId) (\<lambda>_.
     ebind (checkValueConservation inputBoxes (outputs tx) (likeTarget tx)) (\<lambda>_.
     ebind (checkAuthorization tx txId inputBoxes height (storageRentPeriodBlocks deps) (verifySignature deps)) (\<lambda>_.
     ebind (checkTransitions inputBoxes (outputs tx) deps (likeTarget tx) (post tx) (postWithdraw tx)
       height (signatures tx = [])) (\<lambda>_.
     orThrow (materializeOutputs H (outputs tx) txId))))))))))))"

section \<open>applyTx\<close>

text \<open>The operations of the ledger \<open>applyTx\<close> writes through; the writes of
  \<open>UtxoEngineDeps\<close>.\<close>
record 's utxo_store =
  st_getBox :: "'s \<Rightarrow> string \<Rightarrow> anyBox option"
  st_getIdentityRecord :: "'s \<Rightarrow> byte list \<Rightarrow> identityRecord option"
  st_consumeBox :: "string \<Rightarrow> int \<Rightarrow> 's \<Rightarrow> exn + 's"
  st_insertBox :: "anyBox \<Rightarrow> 's \<Rightarrow> exn + 's"
  st_putIdentityRecord :: "byte list \<Rightarrow> identityRecord \<Rightarrow> 's \<Rightarrow> 's"

definition isVouchCounted :: "identityRecord \<Rightarrow> identityRecord \<Rightarrow> bool" where
  "isVouchCounted voucherRecord targetRecord \<longleftrightarrow>
     memberSinceBlock targetRecord = 0 \<or> memberSinceBlock voucherRecord < memberSinceBlock targetRecord"

definition adjustVouchCount ::
    "'s utxo_store \<Rightarrow> byte list \<Rightarrow> byte list \<Rightarrow> int \<Rightarrow> 's \<Rightarrow> exn + 's" where
  "adjustVouchCount ops voucherId targetId delta s =
     (case (st_getIdentityRecord ops s voucherId, st_getIdentityRecord ops s targetId) of
        (Some voucherRecord, Some targetRecord) \<Rightarrow>
          if \<not> isVouchCounted voucherRecord targetRecord then Inr s
          else Inr (st_putIdentityRecord ops targetId
                 (targetRecord\<lparr>memberVouches := memberVouches targetRecord + delta\<rparr>) s)
      | _ \<Rightarrow> Inl OtherErr)"

definition adjustFor :: "'s utxo_store \<Rightarrow> int \<Rightarrow> boxTail \<Rightarrow> 's \<Rightarrow> exn + 's" where
  "adjustFor ops delta t s =
     (case t of Vouch v g \<Rightarrow> adjustVouchCount ops v g delta s | _ \<Rightarrow> Inr s)"

definition applyInput :: "'s utxo_store \<Rightarrow> int \<Rightarrow> string \<Rightarrow> 's \<Rightarrow> exn + 's" where
  "applyInput ops height i s =
     ebind (case st_getBox ops s i of Some box \<Rightarrow> adjustFor ops (-1) (boxTail box) s | None \<Rightarrow> Inr s)
       (st_consumeBox ops i height)"

definition countInvite :: "'s utxo_store \<Rightarrow> boxTail \<Rightarrow> 's \<Rightarrow> 's" where
  "countInvite ops t s =
     (case t of
        Bond inviterId _ \<Rightarrow>
          (case st_getIdentityRecord ops s inviterId of
             Some r \<Rightarrow> st_putIdentityRecord ops inviterId (r\<lparr>invitesUsed := invitesUsed r + 1\<rparr>) s
           | None \<Rightarrow> s)
      | _ \<Rightarrow> s)"

definition applyOutput :: "'s utxo_store \<Rightarrow> anyBox \<Rightarrow> 's \<Rightarrow> exn + 's" where
  "applyOutput ops box s =
     ebind (st_insertBox ops box s) (\<lambda>s1.
     ebind (adjustFor ops 1 (boxTail box) s1) (\<lambda>s2. Inr (countInvite ops (boxTail box) s2)))"

definition applyTx ::
    "'s utxo_store \<Rightarrow> utxoTransaction \<Rightarrow> anyBox list \<Rightarrow> int \<Rightarrow> 's \<Rightarrow> exn + 's" where
  "applyTx ops tx outputsWithIds height s =
     ebind (efold (applyInput ops height) (inputs tx) s) (efold (applyOutput ops) outputsWithIds)"

section \<open>Sums over the live boxes\<close>

type_synonym live = "string \<Rightarrow> anyBox option"

definition liveSum :: "(anyBox \<Rightarrow> int) \<Rightarrow> live \<Rightarrow> int" where
  "liveSum f m = (\<Sum>i\<in>dom m. f (the (m i)))"

lemma liveSum_remove:
  assumes "finite (dom m)" "m i = Some b"
  shows "liveSum f (m(i := None)) = liveSum f m - f b"
proof -
  have "i \<in> dom m" using assms(2) by auto
  then have "liveSum f m = f b + (\<Sum>j\<in>dom m - {i}. f (the (m j)))"
    using assms by (simp add: liveSum_def sum.remove)
  moreover have "liveSum f (m(i := None)) = (\<Sum>j\<in>dom m - {i}. f (the (m j)))"
    by (auto simp: liveSum_def intro!: sum.cong)
  ultimately show ?thesis by simp
qed

lemma liveSum_insert:
  assumes "finite (dom m)" "m i = None"
  shows "liveSum f (m(i \<mapsto> b)) = liveSum f m + f b"
proof -
  have "i \<notin> dom m" using assms(2) by auto
  then have "liveSum f (m(i \<mapsto> b)) = f b + (\<Sum>j\<in>dom m. f (the ((m(i \<mapsto> b)) j)))"
    using assms by (simp add: liveSum_def)
  also have "(\<Sum>j\<in>dom m. f (the ((m(i \<mapsto> b)) j))) = liveSum f m"
    unfolding liveSum_def using \<open>i \<notin> dom m\<close> by (intro sum.cong) auto
  finally show ?thesis by (simp del: fun_upd_apply)
qed

lemma liveSum_cong: "(\<And>i b. m i = Some b \<Longrightarrow> f b = g b) \<Longrightarrow> liveSum f m = liveSum g m"
  unfolding liveSum_def by (intro sum.cong) auto

lemma liveSum_nonneg: "(\<And>b. 0 \<le> f b) \<Longrightarrow> 0 \<le> liveSum f m"
  by (simp add: liveSum_def sum_nonneg)

lemma liveSum_ge_subset:
  assumes "finite (dom m)" "\<And>b. 0 \<le> f b" "A \<subseteq> dom m"
  shows "(\<Sum>i\<in>A. f (the (m i))) \<le> liveSum f m"
  unfolding liveSum_def using assms by (intro sum_mono2) auto

section \<open>The store interface\<close>

text \<open>Whether the vouch \<open>v \<rightarrow> g\<close> counts, by the records, and its weight in
  \<open>m\<close>'s tally.\<close>
definition counted :: "(byte list \<Rightarrow> identityRecord option) \<Rightarrow> byte list \<Rightarrow> byte list \<Rightarrow> bool" where
  "counted recs v g = (case (recs v, recs g) of
     (Some rv, Some rg) \<Rightarrow> isVouchCounted rv rg | _ \<Rightarrow> False)"

definition vouchWeight :: "(byte list \<Rightarrow> identityRecord option) \<Rightarrow> byte list \<Rightarrow> anyBox \<Rightarrow> int" where
  "vouchWeight recs m b = (case boxTail b of
     Vouch v g \<Rightarrow> if g = m \<and> counted recs v g then 1 else 0 | _ \<Rightarrow> 0)"

definition vouchesExact :: "live \<Rightarrow> (byte list \<Rightarrow> identityRecord option) \<Rightarrow> bool" where
  "vouchesExact boxes recs \<longleftrightarrow>
     (\<forall>m r. recs m = Some r \<longrightarrow> memberVouches r = liveSum (vouchWeight recs m) boxes)"

text \<open>Equal up to the two counters \<open>applyTx\<close> writes.\<close>
definition sameStanding ::
    "(byte list \<Rightarrow> identityRecord option) \<Rightarrow> (byte list \<Rightarrow> identityRecord option) \<Rightarrow> bool" where
  "sameStanding r1 r2 \<longleftrightarrow>
     (\<forall>k. map_option (\<lambda>r. r\<lparr>memberVouches := 0, invitesUsed := 0\<rparr>) (r1 k) =
          map_option (\<lambda>r. r\<lparr>memberVouches := 0, invitesUsed := 0\<rparr>) (r2 k))"

lemma sameStanding_refl [simp]: "sameStanding r r"
  by (simp add: sameStanding_def)

lemma sameStanding_trans: "sameStanding a b \<Longrightarrow> sameStanding b c \<Longrightarrow> sameStanding a c"
  by (simp add: sameStanding_def)

lemma sameStanding_upd:
  "recs k = Some r \<Longrightarrow>
    r'\<lparr>memberVouches := 0, invitesUsed := 0\<rparr> = r\<lparr>memberVouches := 0, invitesUsed := 0\<rparr> \<Longrightarrow>
    sameStanding recs (recs(k \<mapsto> r'))"
  by (auto simp: sameStanding_def)

lemma clear_memberSince:
  "r\<lparr>memberVouches := 0, invitesUsed := 0\<rparr> = r'\<lparr>memberVouches := 0, invitesUsed := 0\<rparr> \<Longrightarrow>
    memberSinceBlock r = memberSinceBlock r'"
  by (metis (mono_tags, lifting) identityRecord.select_convs(5) identityRecord.surjective
      identityRecord.update_convs(7) identityRecord.update_convs(9))

lemma counted_sameStanding:
  assumes "sameStanding r1 r2"
  shows "counted r2 v g = counted r1 v g"
proof -
  have rel: "rel_option (\<lambda>a b. memberSinceBlock a = memberSinceBlock b) (r1 k) (r2 k)" for k
    using assms by (cases "r1 k"; cases "r2 k")
      (auto simp: sameStanding_def dest!: spec [where x = k] clear_memberSince)
  show ?thesis
    using rel [of v] rel [of g]
    by (cases "r1 v"; cases "r2 v"; cases "r1 g"; cases "r2 g")
      (auto simp: counted_def isVouchCounted_def)
qed

lemma vouchWeight_sameStanding: "sameStanding r1 r2 \<Longrightarrow> vouchWeight r2 = vouchWeight r1"
  by (intro ext) (auto simp: vouchWeight_def counted_sameStanding split: boxTail.splits)

locale ledger_store =
  fixes ops :: "'s utxo_store" and wf :: "'s \<Rightarrow> bool"
  assumes consume_law: "wf s \<Longrightarrow> st_consumeBox ops i h s = Inr s' \<Longrightarrow>
      wf s' \<and> st_getBox ops s i \<noteq> None \<and> st_getBox ops s' = (st_getBox ops s)(i := None) \<and>
      st_getIdentityRecord ops s' = st_getIdentityRecord ops s"
    and insert_law: "wf s \<Longrightarrow> st_insertBox ops b s = Inr s' \<Longrightarrow>
      wf s' \<and> st_getBox ops s (boxId b) = None \<and> st_getBox ops s' = (st_getBox ops s)(boxId b \<mapsto> b) \<and>
      st_getIdentityRecord ops s' = st_getIdentityRecord ops s"
    and put_law: "wf s \<Longrightarrow>
      wf (st_putIdentityRecord ops k r s) \<and>
      st_getBox ops (st_putIdentityRecord ops k r s) = st_getBox ops s \<and>
      st_getIdentityRecord ops (st_putIdentityRecord ops k r s) = (st_getIdentityRecord ops s)(k \<mapsto> r)"
    and finite_law: "wf s \<Longrightarrow> finite (dom (st_getBox ops s))"
begin

abbreviation boxes :: "'s \<Rightarrow> live" where "boxes \<equiv> st_getBox ops"
abbreviation recs :: "'s \<Rightarrow> byte list \<Rightarrow> identityRecord option" where "recs \<equiv> st_getIdentityRecord ops"

text \<open>The vouch adjustment leaves the boxes, and moves the target's tally by the
  weight of the box.\<close>
lemma adjustFor_effect:
  assumes wf: "wf s" and ok: "adjustFor ops d t s = Inr s'" and t: "t = boxTail b"
  shows "wf s'" "boxes s' = boxes s" "sameStanding (recs s) (recs s')"
    "\<And>m r. recs s m = Some r \<Longrightarrow>
      (\<exists>r'. recs s' m = Some r' \<and> memberVouches r' = memberVouches r + d * vouchWeight (recs s) m b)"
    "\<And>m. recs s m = None \<Longrightarrow> recs s' m = None"
proof -
  have "wf s' \<and> boxes s' = boxes s \<and> sameStanding (recs s) (recs s') \<and>
    (\<forall>m r. recs s m = Some r \<longrightarrow>
      (\<exists>r'. recs s' m = Some r' \<and> memberVouches r' = memberVouches r + d * vouchWeight (recs s) m b)) \<and>
    (\<forall>m. recs s m = None \<longrightarrow> recs s' m = None)"
  proof (cases "\<exists>v g. t = Vouch v g")
    case False
    then have "s' = s" using ok by (cases t) (auto simp: adjustFor_def)
    moreover have "vouchWeight (recs s) m b = 0" for m
      using False t by (auto simp: vouchWeight_def split: boxTail.splits)
    ultimately show ?thesis using wf by simp
  next
    case True
    then obtain v g where vg: "t = Vouch v g" by auto
    then have adj: "adjustVouchCount ops v g d s = Inr s'" using ok by (simp add: adjustFor_def)
    then obtain rv rg where r: "recs s v = Some rv" "recs s g = Some rg"
      by (auto simp: adjustVouchCount_def split: option.splits)
    show ?thesis
    proof (cases "isVouchCounted rv rg")
      case False
      then show ?thesis
        using adj r wf vg t by (auto simp: adjustVouchCount_def vouchWeight_def counted_def)
    next
      case True
      let ?rg = "rg\<lparr>memberVouches := memberVouches rg + d\<rparr>"
      have s': "s' = st_putIdentityRecord ops g ?rg s"
        using adj r True by (simp add: adjustVouchCount_def)
      note p = put_law [OF wf, of g ?rg]
      have st: "sameStanding (recs s) (recs s')"
        using p s' r by (auto intro!: sameStanding_upd)
      have w: "vouchWeight (recs s) m b = (if m = g then 1 else 0)" for m
        using vg t r True by (auto simp: vouchWeight_def counted_def)
      show ?thesis using p s' r st by (auto simp: w)
    qed
  qed
  then show "wf s'" "boxes s' = boxes s" "sameStanding (recs s) (recs s')"
    "\<And>m r. recs s m = Some r \<Longrightarrow>
      (\<exists>r'. recs s' m = Some r' \<and> memberVouches r' = memberVouches r + d * vouchWeight (recs s) m b)"
    "\<And>m. recs s m = None \<Longrightarrow> recs s' m = None"
    by blast+
qed

lemma countInvite_effect:
  assumes wf: "wf s"
  shows "wf (countInvite ops t s)" "boxes (countInvite ops t s) = boxes s"
    "sameStanding (recs s) (recs (countInvite ops t s))"
    "\<And>m. map_option memberVouches (recs (countInvite ops t s) m) = map_option memberVouches (recs s m)"
proof -
  have "wf (countInvite ops t s) \<and> boxes (countInvite ops t s) = boxes s \<and>
    sameStanding (recs s) (recs (countInvite ops t s)) \<and>
    (\<forall>m. map_option memberVouches (recs (countInvite ops t s) m) = map_option memberVouches (recs s m))"
  proof (cases "\<exists>k g r. t = Bond k g \<and> recs s k = Some r")
    case True
    then obtain k g r where kgr: "t = Bond k g" "recs s k = Some r" by auto
    let ?r = "r\<lparr>invitesUsed := invitesUsed r + 1\<rparr>"
    have "countInvite ops t s = st_putIdentityRecord ops k ?r s"
      using kgr by (simp add: countInvite_def)
    moreover note p = put_law [OF wf, of k ?r]
    moreover have "sameStanding (recs s) ((recs s)(k \<mapsto> ?r))"
      using kgr by (intro sameStanding_upd) auto
    ultimately show ?thesis using kgr by auto
  next
    case False
    then have "countInvite ops t s = s"
      by (auto simp: countInvite_def split: boxTail.splits option.splits)
    then show ?thesis using wf by simp
  qed
  then show "wf (countInvite ops t s)" "boxes (countInvite ops t s) = boxes s"
    "sameStanding (recs s) (recs (countInvite ops t s))"
    "\<And>m. map_option memberVouches (recs (countInvite ops t s) m) = map_option memberVouches (recs s m)"
    by blast+
qed

lemma applyInput_effect:
  assumes wf: "wf s" and ok: "applyInput ops h i s = Inr s'"
  obtains b where "boxes s i = Some b" "wf s'" "boxes s' = (boxes s)(i := None)"
    "sameStanding (recs s) (recs s')"
    "vouchesExact (boxes s) (recs s) \<Longrightarrow> vouchesExact (boxes s') (recs s')"
proof -
  obtain s1 where s1: "(case boxes s i of Some box \<Rightarrow> adjustFor ops (-1) (boxTail box) s | None \<Rightarrow> Inr s) = Inr s1"
      and c: "st_consumeBox ops i h s1 = Inr s'"
    using ok by (auto simp: applyInput_def bind_iff)
  show ?thesis
  proof (cases "boxes s i")
    case None
    with s1 have "s1 = s" by simp
    with c consume_law [OF wf] None show ?thesis by blast
  next
    case (Some b)
    with s1 have a: "adjustFor ops (-1) (boxTail b) s = Inr s1" by simp
    note e = adjustFor_effect [OF wf a refl]
    note l = consume_law [OF e(1) c]
    have rs: "recs s' = recs s1" and bs: "boxes s' = (boxes s)(i := None)" using l e(2) by auto
    have st: "sameStanding (recs s) (recs s')" using e(3) rs by simp
    have ex: "vouchesExact (boxes s') (recs s')" if ex: "vouchesExact (boxes s) (recs s)"
      unfolding vouchesExact_def
    proof (intro allI impI)
      fix m r' assume r': "recs s' m = Some r'"
      then obtain r where r: "recs s m = Some r" using e(5) rs by (cases "recs s m") auto
      have "memberVouches r' = memberVouches r - vouchWeight (recs s) m b"
        using e(4) [OF r] r' rs by auto
      also have "\<dots> = liveSum (vouchWeight (recs s) m) (boxes s) - vouchWeight (recs s) m b"
        using ex r by (simp add: vouchesExact_def)
      also have "\<dots> = liveSum (vouchWeight (recs s) m) (boxes s')"
        by (simp only: bs liveSum_remove [OF finite_law [OF wf] Some])
      finally show "memberVouches r' = liveSum (vouchWeight (recs s') m) (boxes s')"
        by (simp add: vouchWeight_sameStanding [OF st])
    qed
    show ?thesis by (rule that [OF Some _ bs st ex]) (use l in auto)
  qed
qed

lemma applyOutput_effect:
  assumes wf: "wf s" and ok: "applyOutput ops b s = Inr s'"
  shows "boxes s (boxId b) = None" "wf s'" "boxes s' = (boxes s)(boxId b \<mapsto> b)"
    "sameStanding (recs s) (recs s')"
    "vouchesExact (boxes s) (recs s) \<Longrightarrow> vouchesExact (boxes s') (recs s')"
proof -
  obtain s1 s2 where i: "st_insertBox ops b s = Inr s1" and a: "adjustFor ops 1 (boxTail b) s1 = Inr s2"
      and s': "s' = countInvite ops (boxTail b) s2"
    using ok by (auto simp: applyOutput_def bind_iff)
  note l = insert_law [OF wf i]
  have wf1: "wf s1" using l by simp
  note e = adjustFor_effect [OF wf1 a refl]
  note c = countInvite_effect [OF e(1), of "boxTail b"]
  show "boxes s (boxId b) = None" using l by simp
  show "wf s'" using c(1) s' by simp
  show bs: "boxes s' = (boxes s)(boxId b \<mapsto> b)" using c(2) e(2) l s' by simp
  show st: "sameStanding (recs s) (recs s')"
    using l e(3) c(3) s' sameStanding_trans by metis
  assume ex: "vouchesExact (boxes s) (recs s)"
  show "vouchesExact (boxes s') (recs s')"
    unfolding vouchesExact_def
  proof (intro allI impI)
    fix m r' assume r': "recs s' m = Some r'"
    then have "map_option memberVouches (recs s2 m) = Some (memberVouches r')"
      using c(4) [of m] s' by simp
    then obtain r2 where r2: "recs s2 m = Some r2" "memberVouches r2 = memberVouches r'" by auto
    then obtain r where r: "recs s1 m = Some r" using e(5) by (cases "recs s1 m") auto
    have "memberVouches r' = memberVouches r + vouchWeight (recs s1) m b"
      using e(4) [OF r] r2 by auto
    also have "\<dots> = liveSum (vouchWeight (recs s) m) (boxes s) + vouchWeight (recs s) m b"
      using ex r l by (simp add: vouchesExact_def)
    also have "\<dots> = liveSum (vouchWeight (recs s) m) (boxes s')"
      using liveSum_insert [OF finite_law [OF wf]] l by (simp only: bs)
    finally show "memberVouches r' = liveSum (vouchWeight (recs s') m) (boxes s')"
      by (simp add: vouchWeight_sameStanding [OF st])
  qed
qed

lemma applyInputs_effect:
  assumes "wf s" "efold (applyInput ops h) is s = Inr s'"
  obtains bs where "map (boxes s) is = map Some bs" "distinct is" "wf s'"
    "boxes s' = (\<lambda>i. if i \<in> set is then None else boxes s i)"
    "\<And>f. liveSum f (boxes s') = liveSum f (boxes s) - sum_list (map f bs)"
    "sameStanding (recs s) (recs s')"
    "vouchesExact (boxes s) (recs s) \<Longrightarrow> vouchesExact (boxes s') (recs s')"
proof -
  have "\<exists>bs. map (boxes s) is = map Some bs \<and> distinct is \<and> wf s' \<and>
    boxes s' = (\<lambda>i. if i \<in> set is then None else boxes s i) \<and>
    (\<forall>f. liveSum f (boxes s') = liveSum f (boxes s) - sum_list (map f bs)) \<and>
    sameStanding (recs s) (recs s') \<and>
    (vouchesExact (boxes s) (recs s) \<longrightarrow> vouchesExact (boxes s') (recs s'))"
    using assms
  proof (induction "is" arbitrary: s)
    case Nil
    then show ?case by simp
  next
    case (Cons i "is")
    then obtain s1 where s1: "applyInput ops h i s = Inr s1" "efold (applyInput ops h) is s1 = Inr s'"
      by (auto simp: bind_iff)
    obtain b where b: "boxes s i = Some b" "wf s1" "boxes s1 = (boxes s)(i := None)"
      "sameStanding (recs s) (recs s1)"
      "vouchesExact (boxes s) (recs s) \<Longrightarrow> vouchesExact (boxes s1) (recs s1)"
      using applyInput_effect [OF Cons.prems(1) s1(1)] by blast
    obtain bs where bs: "map (boxes s1) is = map Some bs" "distinct is" "wf s'"
      "boxes s' = (\<lambda>i. if i \<in> set is then None else boxes s1 i)"
      "\<And>f. liveSum f (boxes s') = liveSum f (boxes s1) - sum_list (map f bs)"
      "sameStanding (recs s1) (recs s')"
      "vouchesExact (boxes s1) (recs s1) \<Longrightarrow> vouchesExact (boxes s') (recs s')"
      using Cons.IH [OF b(2) s1(2)] by blast
    have "i \<notin> set is"
    proof
      assume "i \<in> set is"
      then have "boxes s1 i \<in> set (map Some bs)" using bs(1) by (metis image_eqI list.set_map)
      then show False using b(3) by auto
    qed
    moreover have "map (boxes s) is = map Some bs"
    proof -
      have "map (boxes s) is = map (boxes s1) is"
        using b(3) \<open>i \<notin> set is\<close> by (intro map_cong) auto
      then show ?thesis using bs(1) by simp
    qed
    moreover have "liveSum f (boxes s') = liveSum f (boxes s) - sum_list (map f (b # bs))" for f
      by (simp add: bs(5) b(3) liveSum_remove [OF finite_law [OF Cons.prems(1)] b(1)] del: fun_upd_apply)
    moreover have "boxes s' = (\<lambda>j. if j \<in> set (i # is) then None else boxes s j)"
      using bs(4) b(3) by auto
    moreover have "sameStanding (recs s) (recs s')" using sameStanding_trans [OF b(4) bs(6)] .
    ultimately show ?case using b bs by (intro exI [of _ "b # bs"]) auto
  qed
  then show ?thesis using that by blast
qed

lemma applyOutputs_effect:
  assumes "wf s" "efold (applyOutput ops) outs s = Inr s'"
  shows "wf s'" "distinct (map boxId outs)" "\<And>b. b \<in> set outs \<Longrightarrow> boxes s (boxId b) = None"
    "boxes s' = boxes s ++ map_of (map (\<lambda>b. (boxId b, b)) outs)"
    "\<And>f. liveSum f (boxes s') = liveSum f (boxes s) + sum_list (map f outs)"
    "sameStanding (recs s) (recs s')"
    "vouchesExact (boxes s) (recs s) \<Longrightarrow> vouchesExact (boxes s') (recs s')"
proof -
  have "wf s' \<and> distinct (map boxId outs) \<and> (\<forall>b\<in>set outs. boxes s (boxId b) = None) \<and>
    boxes s' = boxes s ++ map_of (map (\<lambda>b. (boxId b, b)) outs) \<and>
    (\<forall>f. liveSum f (boxes s') = liveSum f (boxes s) + sum_list (map f outs)) \<and>
    sameStanding (recs s) (recs s') \<and>
    (vouchesExact (boxes s) (recs s) \<longrightarrow> vouchesExact (boxes s') (recs s'))"
    using assms
  proof (induction outs arbitrary: s)
    case Nil
    then show ?case by simp
  next
    case (Cons b outs)
    then obtain s1 where s1: "applyOutput ops b s = Inr s1" "efold (applyOutput ops) outs s1 = Inr s'"
      by (auto simp: bind_iff)
    note e = applyOutput_effect [OF Cons.prems(1) s1(1)]
    note IH = Cons.IH [OF e(2) s1(2)]
    have fresh: "boxes s1 (boxId c) = None" if "c \<in> set outs" for c using IH that by blast
    then have nb: "boxId c \<noteq> boxId b" if "c \<in> set outs" for c using e(3) that by fastforce
    have d: "distinct (map boxId (b # outs))" using IH nb by fastforce
    have n: "boxes s (boxId c) = None" if "c \<in> set (b # outs)" for c
      using that e(1) e(3) fresh nb by (cases "c = b") auto
    have mb: "map_of (map (\<lambda>b. (boxId b, b)) outs) (boxId b) = None"
      using nb by (fastforce simp: map_of_eq_None_iff)
    then have "boxes s' = boxes s ++ map_of (map (\<lambda>b. (boxId b, b)) (b # outs))"
      using IH e(3) by (auto simp: map_add_def fun_eq_iff split: option.splits)
    moreover have "liveSum f (boxes s') = liveSum f (boxes s) + sum_list (map f (b # outs))" for f
    proof -
      have "liveSum f (boxes s') = liveSum f (boxes s1) + sum_list (map f outs)" using IH by blast
      moreover have "liveSum f (boxes s1) = liveSum f (boxes s) + f b"
        unfolding e(3) by (rule liveSum_insert [OF finite_law [OF Cons.prems(1)] e(1)])
      ultimately show ?thesis by simp
    qed
    moreover have "sameStanding (recs s) (recs s')" using IH sameStanding_trans [OF e(4)] by blast
    moreover have "vouchesExact (boxes s) (recs s) \<longrightarrow> vouchesExact (boxes s') (recs s')"
      using IH e(5) by blast
    ultimately show ?case using IH d n by blast
  qed
  then show "wf s'" "distinct (map boxId outs)" "\<And>b. b \<in> set outs \<Longrightarrow> boxes s (boxId b) = None"
    "boxes s' = boxes s ++ map_of (map (\<lambda>b. (boxId b, b)) outs)"
    "\<And>f. liveSum f (boxes s') = liveSum f (boxes s) + sum_list (map f outs)"
    "sameStanding (recs s) (recs s')"
    "vouchesExact (boxes s) (recs s) \<Longrightarrow> vouchesExact (boxes s') (recs s')"
    by blast+
qed

text \<open>What a successful \<open>applyTx\<close> does, whatever the transaction.\<close>
lemma applyTx_effect:
  assumes "wf s" "applyTx ops tx outs h s = Inr s'"
  obtains bs where "map (boxes s) (inputs tx) = map Some bs" "distinct (inputs tx)" "wf s'"
    "distinct (map boxId outs)"
    "boxes s' = (\<lambda>i. if i \<in> set (inputs tx) then None else boxes s i) ++ map_of (map (\<lambda>b. (boxId b, b)) outs)"
    "\<And>f. liveSum f (boxes s') = liveSum f (boxes s) - sum_list (map f bs) + sum_list (map f outs)"
    "sameStanding (recs s) (recs s')"
    "vouchesExact (boxes s) (recs s) \<Longrightarrow> vouchesExact (boxes s') (recs s')"
proof -
  obtain s1 where s1: "efold (applyInput ops h) (inputs tx) s = Inr s1" "efold (applyOutput ops) outs s1 = Inr s'"
    using assms(2) by (auto simp: applyTx_def bind_iff)
  obtain bs where bs: "map (boxes s) (inputs tx) = map Some bs" "distinct (inputs tx)" "wf s1"
    "boxes s1 = (\<lambda>i. if i \<in> set (inputs tx) then None else boxes s i)"
    "\<And>f. liveSum f (boxes s1) = liveSum f (boxes s) - sum_list (map f bs)"
    "sameStanding (recs s) (recs s1)"
    "vouchesExact (boxes s) (recs s) \<Longrightarrow> vouchesExact (boxes s1) (recs s1)"
    using applyInputs_effect [OF assms(1) s1(1)] by blast
  note o = applyOutputs_effect [OF bs(3) s1(2)]
  show ?thesis
    by (rule that [OF bs(1,2) o(1,2)]) (use o bs sameStanding_trans in \<open>auto\<close>)
qed

end

end
