(* ===== verification/Samples.thy ===== *)
theory Samples
  imports Engine
begin

text \<open>
  Concrete transactions \<open>validateTx\<close> accepts, one per arm, on which the properties
  of the theories after this one are evaluated: a thread, a reply, a like, an
  invite, an unvouch, an unstake and a rent collection.  The digest is a function
  that tells the outputs of one transaction apart; every signature verifies.
\<close>

definition sampleH :: hash where
  "sampleH bs = last bs # replicate 63 0"

definition kA :: "byte list" where "kA = replicate 32 1"
definition kB :: "byte list" where "kB = replicate 32 2"
definition kC :: "byte list" where "kC = replicate 32 3"

definition idOf :: "char \<Rightarrow> string" where "idOf c = replicate 64 c"

definition sampleRecord :: identityRecord where
  "sampleRecord = EMPTY_IDENTITY_RECORD\<lparr>memberSinceBlock := 1, memberBar := 1, memberVouches := 3, invitesUsed := 1\<rparr>"

definition mkBox :: "char \<Rightarrow> int \<Rightarrow> boxTail \<Rightarrow> string \<times> anyBox" where
  "mkBox c v t = (idOf c, \<lparr>boxValue = v, createdAtBlock = 1, boxTail = t, boxId = idOf c,
     boxTxId = idOf (CHR ''9''), boxIndex = 0\<rparr>)"

definition sampleBoxes :: "(string \<times> anyBox) list" where
  "sampleBoxes =
     [mkBox (CHR ''a'') 40 (Karma kA False), mkBox (CHR ''b'') 1 (Vouch kA kB),
      mkBox (CHR ''c'') 0 (BackerStake kA 200), mkBox (CHR ''d'') 50000000000 (Credit kC None)]"

definition sampleDeps :: utxoEngineDeps where
  "sampleDeps = \<lparr>getBox = map_of sampleBoxes, getKarmaValue = (\<lambda>k. if k = kA then 40 else 0),
     getKarmaOwed = (\<lambda>_ _. Inr 0), getOwnKarmaBoxIds = (\<lambda>k. if k = kA then [idOf (CHR ''a'')] else []),
     getIdentityRecord = (\<lambda>k. if k = kA then Some sampleRecord else None),
     hasActiveVouchEscrow = (\<lambda>_. False), vouchCooldownBlocks = 7,
     getTopologyAuthor = (\<lambda>p. if p = idOf (CHR ''e'') then Some kB else None),
     getPendingPostAuthor = (\<lambda>_. None), inviteBondMin = 5, inviteBondMax = 20,
     d_decayCfg = decayCfgFor 10 4, storageRentPeriodBlocks = 3,
     getBoxProvenance = (\<lambda>_. Some (idOf (CHR ''9''), 0)), getVouchBox = (\<lambda>_ _. None),
     getNetworkRecord = \<lparr>memberCount = 1\<rparr>, membershipBarMultiplier = 1,
     protocolVersionSchedule = [\<lparr>era_version = 1, era_fromHeight = 0\<rparr>],
     getUsername = (\<lambda>_. None), getUsernameByOwner = (\<lambda>_. None), verifySignature = (\<lambda>_ _ _. True)\<rparr>"

definition mkOut :: "int \<Rightarrow> boxTail \<Rightarrow> candidate" where
  "mkOut v t = \<lparr>boxValue = v, createdAtBlock = 5, boxTail = t\<rparr>"

definition mkTx :: "char \<Rightarrow> byte list list \<Rightarrow> candidate list \<Rightarrow> utxoTransaction" where
  "mkTx c keys outs = \<lparr>inputs = [idOf c], outputs = outs,
     signatures = map (\<lambda>k. (bytesToHex k, replicate 64 0)) keys, protocolVersion = 1,
     likeTarget = None, post = None, postWithdraw = None\<rparr>"

definition mkPost :: "string list \<Rightarrow> postCommit" where
  "mkPost refs = \<lparr>contentHash = kC, author = kA, parentRefs = refs, pc_protocolVersion = 1, postType = Regular\<rparr>"

definition threadTx :: utxoTransaction where
  "threadTx = mkTx (CHR ''a'') [kA] [mkOut 35 (Karma kA False), mkOut 5 KarmaPrice]
     \<lparr>post := Some (mkPost [])\<rparr>"

definition replyTx :: utxoTransaction where
  "replyTx = mkTx (CHR ''a'') [kA] [mkOut 37 (Karma kA False), mkOut 2 KarmaPrice, mkOut 1 (LikeAccrual kB)]
     \<lparr>post := Some (mkPost [idOf (CHR ''e'')])\<rparr>"

definition likeTx :: utxoTransaction where
  "likeTx = mkTx (CHR ''a'') [kA] [mkOut 39 (Karma kA False), mkOut 1 (LikeAccrual kB)]
     \<lparr>likeTarget := Some (idOf (CHR ''e''))\<rparr>"

definition inviteTx :: utxoTransaction where
  "inviteTx = mkTx (CHR ''a'') [kA] [mkOut 30 (Karma kA False), mkOut 10 (Bond kA kC)]"

definition unvouchTx :: utxoTransaction where
  "unvouchTx = mkTx (CHR ''b'') [kA] [mkOut 1 (VouchEscrow kA 8)]"

definition unstakeTx :: utxoTransaction where
  "unstakeTx = mkTx (CHR ''c'') [kA] [mkOut 0 (BackerUnstake kA 50), mkOut 0 (BackerStake kA 150)]"

definition rentTx :: utxoTransaction where
  "rentTx = mkTx (CHR ''d'') [] [mkOut (50000000000 - 605378 * 74) (Credit kC None), mkOut (605378 * 74) Fee]"

definition sampleTxId :: string where "sampleTxId = idOf (CHR ''f'')"

lemma threadTx_valid: "is_ok (validateTx sampleH sampleDeps threadTx sampleTxId 5)"
  by code_simp

lemma replyTx_valid: "is_ok (validateTx sampleH sampleDeps replyTx sampleTxId 5)"
  by code_simp

lemma likeTx_valid: "is_ok (validateTx sampleH sampleDeps likeTx sampleTxId 5)"
  by code_simp

lemma inviteTx_valid: "is_ok (validateTx sampleH sampleDeps inviteTx sampleTxId 5)"
  by code_simp

lemma unvouchTx_valid: "is_ok (validateTx sampleH sampleDeps unvouchTx sampleTxId 5)"
  by code_simp

lemma unstakeTx_valid: "is_ok (validateTx sampleH sampleDeps unstakeTx sampleTxId 5)"
  by code_simp

lemma rentTx_valid: "is_ok (validateTx sampleH sampleDeps rentTx sampleTxId 5)"
  by code_simp

lemma ok_result: "is_ok m \<Longrightarrow> \<exists>v. m = Inr v"
  by (cases m) simp_all

lemmas sample_defs = sampleDeps_def sampleBoxes_def mkBox_def mkTx_def mkPost_def mkOut_def
  threadTx_def replyTx_def likeTx_def inviteTx_def unvouchTx_def unstakeTx_def rentTx_def

end
