(* ===== verification/Accepted.thy ===== *)
theory Accepted
  imports Samples
begin

text \<open>
  What \<open>validateTx\<close> guarantees of a transaction it accepts: the inversion of its
  sequence of checks, the arm an accepted transaction took, and the properties of
  the arms.
\<close>

section \<open>Inversion\<close>

lemma materialize_candidate:
  assumes "materializeOutput H c txId i = Inr b"
  shows "candidate_of b = c" "boxValue b = boxValue c" "boxTail b = boxTail c"
    "createdAtBlock b = createdAtBlock c" "boxTxId b = txId" "boxIndex b = i"
    "computeCandidateBoxId H c txId i = Inr (boxId b)"
  using assms by (cases c; auto simp: materializeOutput_def bind_iff Let_def candidate_of_def computeBoxId_def)+

lemma materialize_outputs:
  assumes "materializeOutputs H cs txId = Inr bs"
  shows "length bs = length cs"
    "\<And>i. i < length cs \<Longrightarrow> materializeOutput H (cs ! i) txId (int i) = Inr (bs ! i)"
proof -
  show l: "length bs = length cs"
    using emap_eq_Inr_length [OF assms [unfolded materializeOutputs_def]] by simp
  fix i assume "i < length cs"
  then show "materializeOutput H (cs ! i) txId (int i) = Inr (bs ! i)"
    using emap_eq_Inr_nth [OF assms [unfolded materializeOutputs_def], of i]
    by (simp add: nth_enumerate_eq)
qed

lemma materialize_map:
  assumes m: "materializeOutputs H cs txId = Inr bs"
    and f: "\<And>c i b. materializeOutput H c txId i = Inr b \<Longrightarrow> f b = g c"
  shows "map f bs = map g cs"
proof (rule nth_equalityI)
  fix i assume "i < length (map f bs)"
  then have "i < length cs" "i < length bs" using materialize_outputs(1) [OF m] by simp_all
  then show "map f bs ! i = map g cs ! i" using f [OF materialize_outputs(2) [OF m]] by simp
qed (simp add: materialize_outputs(1) [OF m])

lemma materialize_candidates: "materializeOutputs H cs txId = Inr bs \<Longrightarrow> map candidate_of bs = cs"
  using materialize_map [of H cs txId bs candidate_of "\<lambda>c. c"] materialize_candidate(1) by simp

lemma ofType_candidates: "map candidate_of (ofType t bs) = ofType t (map candidate_of bs)"
  by (induction bs) (simp_all add: ofType_def candidate_of_def)

lemma valueSum_candidates [simp]: "valueSum (map candidate_of bs) = valueSum bs"
  by (induction bs) (simp_all add: candidate_of_def)

lemma resolveInputs_ok: "resolveInputs lookup ids = Inr ins \<longleftrightarrow> map lookup ids = map Some ins"
  by (induction ids arbitrary: ins)
    (auto simp: resolveInputs_def bind_iff split: option.splits)

lemma validateTx_inv:
  assumes "validateTx H deps tx txId height = Inr outs"
  obtains ins where
    "map (getBox deps) (inputs tx) = map Some ins" "distinct (inputs tx)" "ins \<noteq> []"
    "checkSpendTiming ins height = Inr ()" "checkInputTypes ins = Inr ()"
    "checkOutputShape (outputs tx) = Inr ()" "checkHeights ins (outputs tx) height = Inr ()"
    "checkValueConservation ins (outputs tx) (likeTarget tx) = Inr ()"
    "checkAuthorization tx txId ins height (storageRentPeriodBlocks deps) (verifySignature deps) = Inr ()"
    "checkTransitions ins (outputs tx) deps (likeTarget tx) (post tx) (postWithdraw tx)
       height (signatures tx = []) = Inr ()"
    "materializeOutputs H (outputs tx) txId = Inr outs"
    "checkCreditFloor (outputs tx) txId = Inr ()"
    "checkTxEnvelope tx height (protocolVersionSchedule deps) = Inr ()"
proof -
  from assms obtain ins where r: "resolveInputs (getBox deps) (inputs tx) = Inr ins"
    and d: "length (remdups (inputs tx)) = length (inputs tx)" "inputs tx \<noteq> []"
    and rest: "checkSpendTiming ins height = Inr ()" "checkInputTypes ins = Inr ()"
    "checkOutputShape (outputs tx) = Inr ()" "checkHeights ins (outputs tx) height = Inr ()"
    "checkValueConservation ins (outputs tx) (likeTarget tx) = Inr ()"
    "checkAuthorization tx txId ins height (storageRentPeriodBlocks deps) (verifySignature deps) = Inr ()"
    "checkTransitions ins (outputs tx) deps (likeTarget tx) (post tx) (postWithdraw tx)
       height (signatures tx = []) = Inr ()"
    "materializeOutputs H (outputs tx) txId = Inr outs"
    "checkCreditFloor (outputs tx) txId = Inr ()"
    "checkTxEnvelope tx height (protocolVersionSchedule deps) = Inr ()"
    by (auto simp: validateTx_def bind_iff)
  have di: "distinct (inputs tx)" using d(1) by (metis length_remdups_card_conv card_distinct)
  have ne: "ins \<noteq> []" using r d(2) by (auto simp: resolveInputs_ok)
  show ?thesis by (rule that [OF r [unfolded resolveInputs_ok] di ne rest])
qed

section \<open>The arm an accepted transaction took\<close>

lemma find_none: "List.find P xs = None \<longleftrightarrow> (\<forall>x\<in>set xs. \<not> P x)"
  by (auto simp: find_None_iff)

lemma checkInputTypes_ok:
  assumes "checkInputTypes ins = Inr ()" "ins \<noteq> []"
  shows "(\<exists>t. t \<noteq> BT_username \<and> (\<forall>b\<in>set ins. boxTypeOf b = t)) \<or>
    ((\<forall>b\<in>set ins. boxTypeOf b = BT_karma \<or> boxTypeOf b = BT_username) \<and>
      (\<exists>b\<in>set ins. boxTypeOf b = BT_karma) \<and> length (ofType BT_username ins) = 1)"
proof -
  let ?ts = "remdups (map boxTypeOf ins)"
  show ?thesis
  proof (cases "length ?ts > 1")
    case True
    with assms have *: "length ?ts = 2" "BT_karma \<in> set ?ts" "BT_username \<in> set ?ts"
        "length (ofType BT_username ins) = 1"
      by (auto simp: checkInputTypes_def Let_def split: if_splits)
    have "card (set ?ts) = 2" using *(1) by (metis distinct_card distinct_remdups)
    moreover have "{BT_karma, BT_username} \<subseteq> set ?ts" using * by auto
    ultimately have "set ?ts = {BT_karma, BT_username}"
      by (intro card_seteq [symmetric]) auto
    then have s: "boxTypeOf ` set ins = {BT_karma, BT_username}" by simp
    have "\<forall>b\<in>set ins. boxTypeOf b \<in> {BT_karma, BT_username}" unfolding s [symmetric] by simp
    then have "\<forall>b\<in>set ins. boxTypeOf b = BT_karma \<or> boxTypeOf b = BT_username" by simp
    moreover have "BT_karma \<in> boxTypeOf ` set ins" unfolding s by simp
    then have "\<exists>b\<in>set ins. boxTypeOf b = BT_karma" by (metis imageE)
    ultimately show ?thesis using *(4) by blast
  next
    case False
    then have c: "card (boxTypeOf ` set ins) \<le> Suc 0"
      by (simp add: length_remdups_card_conv not_less)
    have f: "finite (boxTypeOf ` set ins)" by simp
    have "\<forall>x\<in>boxTypeOf ` set ins. \<forall>y\<in>boxTypeOf ` set ins. x = y"
      by (rule iffD1 [OF card_le_Suc0_iff_eq [OF f] c])
    moreover have "hd ins \<in> set ins" using assms(2) by simp
    ultimately have "\<forall>b\<in>set ins. boxTypeOf b = boxTypeOf (hd ins)" by blast
    moreover have "boxTypeOf (hd ins) \<noteq> BT_username"
      using assms(1) False by (auto simp: checkInputTypes_def Let_def)
    ultimately show ?thesis by blast
  qed
qed

datatype arm = KarmaArm | CreditArm | UnvouchArm | UnstakeArm

text \<open>The types of the inputs, and the arm that judged them.\<close>
lemma checkTransitions_arm:
  assumes ok: "checkTransitions ins outs deps like p pw height rent = Inr ()"
    and ty: "checkInputTypes ins = Inr ()" and ne: "ins \<noteq> []"
  shows "(\<forall>b\<in>set ins. boxTypeOf b = BT_karma \<or> boxTypeOf b = BT_username) \<and>
      karmaArm deps ins outs like p pw height (List.find (\<lambda>b. boxTypeOf b = BT_username) ins) = Inr () \<or>
    (like = None \<and> p = None \<and> pw = None) \<and>
     ((\<forall>b\<in>set ins. boxTypeOf b = BT_credit) \<and> creditArm deps ins outs height rent = Inr () \<or>
      (\<forall>b\<in>set ins. boxTypeOf b = BT_vouch) \<and> unvouchArm deps ins outs = Inr () \<or>
      (\<forall>b\<in>set ins. boxTypeOf b = BT_backer_stake) \<and> unstakeArm ins outs = Inr ())"
proof -
  let ?u = "List.find (\<lambda>b. boxTypeOf b = BT_username) ins"
  from checkInputTypes_ok [OF ty ne] show ?thesis
  proof
    assume "\<exists>t. t \<noteq> BT_username \<and> (\<forall>b\<in>set ins. boxTypeOf b = t)"
    then obtain t where t: "t \<noteq> BT_username" "\<forall>b\<in>set ins. boxTypeOf b = t" by auto
    then have u: "?u = None" by (auto simp: find_None_iff)
    have hd: "boxTypeOf (hd ins) = t" using t ne by simp
    from ok have sw: "(t \<noteq> BT_karma \<longrightarrow> p = None \<and> pw = None \<and> like = None) \<and> (case t of
        BT_karma \<Rightarrow> karmaArm deps ins outs like p pw height ?u
      | BT_bond \<Rightarrow> Inl (Refused ''BondBox can only be consumed by block application (not user transactions)'')
      | BT_credit \<Rightarrow> creditArm deps ins outs height rent
      | BT_karma_price \<Rightarrow> Inl (Refused ''KarmaPriceBox can only be consumed by block application (not user transactions)'')
      | BT_vouch \<Rightarrow> unvouchArm deps ins outs
      | BT_backer_stake \<Rightarrow> unstakeArm ins outs
      | _ \<Rightarrow> Inl (Refused ''Unknown box type'')) = Inr ()"
      unfolding checkTransitions_def Let_def by (auto simp: bind_iff u hd ne)
    show ?thesis using sw t by (cases t) auto
  next
    assume m: "(\<forall>b\<in>set ins. boxTypeOf b = BT_karma \<or> boxTypeOf b = BT_username) \<and>
      (\<exists>b\<in>set ins. boxTypeOf b = BT_karma) \<and> length (ofType BT_username ins) = 1"
    then have "ofType BT_username ins \<noteq> []" by auto
    then have "?u \<noteq> None" by (auto simp: find_None_iff ofType_def filter_empty_conv)
    then have "karmaArm deps ins outs like p pw height ?u = Inr ()"
      using ok unfolding checkTransitions_def Let_def by (simp add: bind_iff split: if_splits)
    then show ?thesis using m by blast
  qed
qed

section \<open>The karma arm\<close>

lemma ofType_set [simp]: "b \<in> set (ofType t bs) \<longleftrightarrow> b \<in> set bs \<and> boxTypeOf b = t"
  by (auto simp: ofType_def)

lemma karmaCommon_ok:
  assumes "karmaCommon deps ins outs owner = Inr ()"
  shows "\<And>b. b \<in> set ins \<Longrightarrow> tail_owner (boxTail b) = Some owner"
    "\<And>k. k \<in> set outs \<Longrightarrow> KARMA_TRANSITION_VERDICT (boxTypeOf k)"
    "length (ofType BT_karma outs) \<le> 1"
    "\<And>k. k \<in> set outs \<Longrightarrow> boxTypeOf k = BT_karma \<Longrightarrow>
      boxValue k \<noteq> 0 \<and> tail_owner (boxTail k) = Some owner \<and> \<not> tail_income (boxTail k)"
    "set (getOwnKarmaBoxIds deps owner) \<subseteq> boxId ` set ins"
  using assms by (auto simp: karmaCommon_def bind_iff list_all_iff list_ex_iff)

lemma claim_spends_nothing:
  assumes "usernameClaimArm deps outs owner = Inr ()"
  shows "spendOf outs = 0"
proof -
  let ?ks = "ofType BT_karma outs" and ?us = "ofType BT_username outs"
  let ?ns = "filter (\<lambda>o'. boxTypeOf o' \<noteq> BT_karma) outs"
  have *: "length ?us = 1" "boxValue (hd ?us) = 0" "length outs = length ?ks + 1"
    using assms by (auto simp: usernameClaimArm_def Let_def bind_iff)
  have "length outs = length ?ks + length ?ns"
    using sum_length_filter_compl [of "\<lambda>o'. boxTypeOf o' = BT_karma" outs] by (simp add: ofType_def)
  then have "length ?ns = 1" using *(3) by simp
  then obtain n where n: "?ns = [n]" by (auto simp: length_Suc_conv)
  obtain u where u: "?us = [u]" using *(1) by (auto simp: length_Suc_conv)
  have "?us = filter (\<lambda>o'. boxTypeOf o' = BT_username) ?ns"
    unfolding ofType_def filter_filter by (rule filter_cong) auto
  then have "n = u" using n u by (auto split: if_splits)
  then show ?thesis using n u *(2) by (simp add: spendOf_def)
qed

lemma karmaArm_ok:
  assumes "karmaArm deps ins outs like p pw height un = Inr ()"
  obtains owner where "tail_owner (boxTail (hd ins)) = Some owner"
    "karmaCommon deps ins outs owner = Inr ()"
    "spendOf outs = 0 \<or> spendCheck deps owner height (spendOf outs) (p \<noteq> None) = Inr ()"
proof -
  from assms obtain owner where o: "tail_owner (boxTail (hd ins)) = Some owner"
    and c: "karmaCommon deps ins outs owner = Inr ()"
    by (auto simp: karmaArm_def Let_def bind_iff split: option.splits)
  have "spendOf outs = 0 \<or> spendCheck deps owner height (spendOf outs) (p \<noteq> None) = Inr ()"
  proof (cases un)
    case (Some u)
    then show ?thesis using assms o by (auto simp: karmaArm_def Let_def bind_iff)
  next
    case None
    show ?thesis
    proof (cases "list_ex (\<lambda>o'. boxTypeOf o' = BT_username) outs")
      case True
      then have "usernameClaimArm deps outs owner = Inr ()"
        using assms o None unfolding karmaArm_def Let_def by (simp add: bind_iff)
      then show ?thesis using claim_spends_nothing by blast
    next
      case False
      then show ?thesis using assms o None unfolding karmaArm_def Let_def by (simp add: bind_iff)
    qed
  qed
  then show ?thesis using that o c by blast
qed

section \<open>Properties of accepted transactions\<close>

lemma input_box:
  assumes "map (getBox deps) (inputs tx) = map Some ins"
  shows "i \<in> set (inputs tx) \<Longrightarrow> \<exists>b\<in>set ins. getBox deps i = Some b"
    and "b \<in> set ins \<Longrightarrow> \<exists>i\<in>set (inputs tx). getBox deps i = Some b"
proof -
  have eq: "getBox deps ` set (inputs tx) = Some ` set ins"
    using assms by (metis list.set_map)
  show "i \<in> set (inputs tx) \<Longrightarrow> \<exists>b\<in>set ins. getBox deps i = Some b"
    using eq by (metis imageE imageI)
  show "b \<in> set ins \<Longrightarrow> \<exists>i\<in>set (inputs tx). getBox deps i = Some b"
    using eq by (metis imageE imageI)
qed

text \<open>C7: an accepted transaction conserves value: its inputs are distinct live
  boxes whose summed value is that of its outputs, no output is negative or out of
  the value domain, and the outputs are the ones the transaction declares.\<close>
theorem accepted_tx_conserves:
  assumes "validateTx H deps tx txId height = Inr outs"
  shows "\<exists>ins. map (getBox deps) (inputs tx) = map Some ins \<and> distinct (inputs tx) \<and> ins \<noteq> [] \<and>
    valueSum ins = valueSum outs \<and> map candidate_of outs = outputs tx \<and>
    (\<forall>b\<in>set outs. 0 \<le> boxValue b \<and> boxValue b < BOX_VALUE_BOUND)"
proof -
  obtain ins where v: "map (getBox deps) (inputs tx) = map Some ins" "distinct (inputs tx)" "ins \<noteq> []"
    "checkOutputShape (outputs tx) = Inr ()" "checkValueConservation ins (outputs tx) (likeTarget tx) = Inr ()"
    "materializeOutputs H (outputs tx) txId = Inr outs"
    by (rule validateTx_inv [OF assms], rule that)
  have c: "map candidate_of outs = outputs tx" by (rule materialize_candidates [OF v(6)])
  have "0 \<le> boxValue b \<and> boxValue b < BOX_VALUE_BOUND" if "b \<in> set outs" for b
  proof -
    have "candidate_of b \<in> set (outputs tx)" using that c by (metis image_eqI list.set_map)
    then show ?thesis
      using checkShape_ok(1,2) [OF v(4) [unfolded checkOutputShape_def]] by (fastforce simp: candidate_of_def)
  qed
  moreover have "valueSum ins = valueSum outs"
    using checkValueConservation_ok [OF v(5)] c by (metis valueSum_candidates)
  ultimately show ?thesis using v c by blast
qed

lemma accepted_tx_conserves_witness:
  "\<exists>outs ins. validateTx sampleH sampleDeps threadTx sampleTxId 5 = Inr outs \<and>
    map (getBox sampleDeps) (inputs threadTx) = map Some ins \<and> valueSum ins = valueSum outs"
proof -
  obtain outs where o: "validateTx sampleH sampleDeps threadTx sampleTxId 5 = Inr outs"
    using ok_result [OF threadTx_valid] by blast
  from accepted_tx_conserves [OF o] o show ?thesis by blast
qed

text \<open>The key's signature over the transaction id is in the map and verifies.\<close>
definition signedBy :: "utxoEngineDeps \<Rightarrow> utxoTransaction \<Rightarrow> string \<Rightarrow> byte list \<Rightarrow> bool" where
  "signedBy deps tx txId key \<longleftrightarrow>
     (case (hexToBytes txId, map_of (signatures tx) (bytesToHex key)) of
        (Inr txHash, Some sig) \<Rightarrow> verifySignature deps sig txHash key | _ \<Rightarrow> False)"

text \<open>Who may spend a box of an accepted transaction.\<close>
definition mayspend :: "utxoEngineDeps \<Rightarrow> utxoTransaction \<Rightarrow> string \<Rightarrow> int \<Rightarrow> anyBox \<Rightarrow> bool" where
  "mayspend deps tx txId height b \<longleftrightarrow>
     (case boxTail b of
        Karma owner _ \<Rightarrow> signedBy deps tx txId owner
      | Username owner _ \<Rightarrow> signedBy deps tx txId owner
      | BackerStake owner _ \<Rightarrow> signedBy deps tx txId owner
      | Vouch voucherId _ \<Rightarrow> signedBy deps tx txId voucherId
      | Credit owner _ \<Rightarrow> signedBy deps tx txId owner \<or>
          signatures tx = [] \<and> height - createdAtBlock b > storageRentPeriodBlocks deps
      | _ \<Rightarrow> False)"

lemma verifyGuard_signed:
  "hexToBytes txId = Inr txHash \<Longrightarrow> verifyGuardSignature tx txHash key (verifySignature deps) \<Longrightarrow>
    signedBy deps tx txId key"
  by (auto simp: verifyGuardSignature_def signedBy_def split: option.splits)

text \<open>What the authorisation step leaves of every input.\<close>
lemma inputs_mayspend:
  assumes "validateTx H deps tx txId height = Inr outs"
  obtains ins txHash where "map (getBox deps) (inputs tx) = map Some ins" "hexToBytes txId = Inr txHash"
    "\<And>b. b \<in> set ins \<Longrightarrow> mayspend deps tx txId height b"
    "\<And>k. k \<in> fst ` set (signatures tx) \<Longrightarrow>
      \<exists>box\<in>set ins. \<exists>key. authorizationOf tx height (storageRentPeriodBlocks deps) box = Signer (Some key) \<and>
        k = bytesToHex key \<and> signedBy deps tx txId key"
proof -
  let ?rent = "storageRentPeriodBlocks deps" and ?ver = "verifySignature deps"
  obtain ins where v: "map (getBox deps) (inputs tx) = map Some ins"
    "checkAuthorization tx txId ins height ?rent ?ver = Inr ()"
    by (rule validateTx_inv [OF assms], rule that)
  obtain txHash where h: "hexToBytes txId = Inr txHash"
    and a: "\<And>box. box \<in> set ins \<Longrightarrow> authorizationOf tx height ?rent box = Signer None \<or>
      (\<exists>key. authorizationOf tx height ?rent box = Signer (Some key) \<and> verifyGuardSignature tx txHash key ?ver)"
    and k: "\<And>k. k \<in> fst ` set (signatures tx) \<Longrightarrow>
      \<exists>box\<in>set ins. \<exists>key. authorizationOf tx height ?rent box = Signer (Some key) \<and> k = bytesToHex key \<and>
        verifyGuardSignature tx txHash key ?ver"
    using that by (rule checkAuthorization_ok [OF v(2)])
  note sg = verifyGuard_signed [OF h]
  have "mayspend deps tx txId height b" if "b \<in> set ins" for b
  proof -
    have "authorizationOf tx height ?rent b = Signer None \<or>
      (\<exists>key. authorizationOf tx height ?rent b = Signer (Some key) \<and> signedBy deps tx txId key)"
      using a [OF that] sg by blast
    then show ?thesis
      unfolding mayspend_def authorizationOf_def by (cases "boxTail b") (simp_all split: if_splits)
  qed
  then show ?thesis using that [OF v(1) h] k sg by blast
qed

lemma signer_named:
  "authorizationOf tx height rent b = Signer (Some key) \<Longrightarrow>
    tail_owner (boxTail b) = Some key \<or> tail_voucher (boxTail b) = Some key"
  unfolding authorizationOf_def
  by (cases "boxTail b") (auto simp: tail_owner_def tail_voucher_def split: if_splits)

text \<open>C8: every input of an accepted transaction is a live box of a type users may
  spend, and its owner signed the transaction's id, unless the transaction is
  unsigned and the box is a credit past its rent period; and the signature map
  holds no key but a signer's.\<close>
theorem accepted_tx_authorised:
  assumes "validateTx H deps tx txId height = Inr outs"
  shows "(\<forall>i\<in>set (inputs tx). \<exists>b. getBox deps i = Some b \<and> mayspend deps tx txId height b) \<and>
    (\<forall>k\<in>fst ` set (signatures tx). \<exists>key. k = bytesToHex key \<and> signedBy deps tx txId key \<and>
      (\<exists>i\<in>set (inputs tx). \<exists>b. getBox deps i = Some b \<and>
        (tail_owner (boxTail b) = Some key \<or> tail_voucher (boxTail b) = Some key)))"
proof -
  obtain ins where v: "map (getBox deps) (inputs tx) = map Some ins"
    and m: "\<And>b. b \<in> set ins \<Longrightarrow> mayspend deps tx txId height b"
    and k: "\<And>k. k \<in> fst ` set (signatures tx) \<Longrightarrow>
      \<exists>box\<in>set ins. \<exists>key. authorizationOf tx height (storageRentPeriodBlocks deps) box = Signer (Some key) \<and>
        k = bytesToHex key \<and> signedBy deps tx txId key"
    by (rule inputs_mayspend [OF assms], rule that)
  have "\<exists>key. kh = bytesToHex key \<and> signedBy deps tx txId key \<and>
      (\<exists>i\<in>set (inputs tx). \<exists>b. getBox deps i = Some b \<and>
        (tail_owner (boxTail b) = Some key \<or> tail_voucher (boxTail b) = Some key))"
    if "kh \<in> fst ` set (signatures tx)" for kh
    using k [OF that] input_box(2) [OF v] signer_named by blast
  then show ?thesis using m input_box(1) [OF v] by blast
qed

lemma accepted_tx_authorised_witness: "signedBy sampleDeps threadTx sampleTxId kA"
proof -
  obtain outs where o: "validateTx sampleH sampleDeps threadTx sampleTxId 5 = Inr outs"
    using ok_result [OF threadTx_valid] by blast
  have "idOf (CHR ''a'') \<in> set (inputs threadTx)" by (simp add: sample_defs)
  then obtain b where "getBox sampleDeps (idOf (CHR ''a'')) = Some b" "mayspend sampleDeps threadTx sampleTxId 5 b"
    using accepted_tx_authorised [OF o] by blast
  then show ?thesis by (auto simp: sampleDeps_def sampleBoxes_def mkBox_def mayspend_def)
qed

lemma two_types_only:
  assumes "length outs = length (ofType s outs) + length (ofType t outs)" "s \<noteq> t" "b \<in> set outs"
  shows "boxTypeOf b = s \<or> boxTypeOf b = t"
proof (rule ccontr)
  assume n: "\<not> ?thesis"
  have le: "length (ofType s bs) + length (ofType t bs) \<le> length bs" for bs :: "'a candidate_scheme list"
    using assms(2) by (induction bs) (auto simp: ofType_def)
  obtain xs ys where "outs = xs @ b # ys" using assms(3) by (auto simp: in_set_conv_decomp)
  then show False using assms(1) le [of xs] le [of ys] n by (simp add: ofType_def)
qed

lemma unstake_outputs:
  assumes "unstakeArm ins outs = Inr ()"
  shows "b \<in> set outs \<Longrightarrow> boxTypeOf b = BT_backer_unstake \<or> boxTypeOf b = BT_backer_stake"
  using assms two_types_only [of outs BT_backer_unstake BT_backer_stake b]
  by (simp add: unstakeArm_def Let_def)

lemma unvouch_outputs:
  assumes "unvouchArm deps ins outs = Inr ()"
  obtains e where "outs = [e]" "boxTypeOf e = BT_vouch_escrow" "length ins = 1"
    "boxValue e = boxValue (hd ins)" "tail_owner (boxTail e) = tail_voucher (boxTail (hd ins))"
    "tail_release (boxTail e) = Some (createdAtBlock (hd ins) + vouchCooldownBlocks deps)"
proof -
  have *: "length ins = 1" "length outs = 1" "length (ofType BT_vouch_escrow outs) = 1"
    "boxValue (hd (ofType BT_vouch_escrow outs)) = boxValue (hd ins)"
    "tail_owner (boxTail (hd (ofType BT_vouch_escrow outs))) = tail_voucher (boxTail (hd ins))"
    "tail_release (boxTail (hd (ofType BT_vouch_escrow outs))) =
      Some (createdAtBlock (hd ins) + vouchCooldownBlocks deps)"
    using assms by (simp_all add: unvouchArm_def Let_def)
  from *(2) obtain e where e: "outs = [e]" by (auto simp: length_Suc_conv)
  with *(3) have t: "boxTypeOf e = BT_vouch_escrow" by (auto simp: ofType_def split: if_splits)
  then have "ofType BT_vouch_escrow outs = [e]" using e by (simp add: ofType_def)
  then show ?thesis using that [OF e t *(1)] * by simp
qed

lemma credit_outputs:
  "creditArm deps ins outs height rent = Inr () \<Longrightarrow> b \<in> set outs \<Longrightarrow>
    boxTypeOf b = BT_credit \<or> boxTypeOf b = BT_fee"
  by (auto simp: creditArm_def Let_def bind_iff list_all_iff)

lemma karma_arm:
  assumes "validateTx H deps tx txId height = Inr outs"
    and "(\<exists>i\<in>set (inputs tx). \<exists>b. getBox deps i = Some b \<and> boxTypeOf b = BT_karma) \<or>
      (\<exists>k\<in>set (outputs tx). boxTypeOf k = BT_karma)"
  obtains ins owner where "map (getBox deps) (inputs tx) = map Some ins"
    "\<forall>b\<in>set ins. boxTypeOf b = BT_karma \<or> boxTypeOf b = BT_username"
    "karmaCommon deps ins (outputs tx) owner = Inr ()"
proof -
  obtain ins where v: "map (getBox deps) (inputs tx) = map Some ins" "ins \<noteq> []"
    "checkInputTypes ins = Inr ()"
    "checkTransitions ins (outputs tx) deps (likeTarget tx) (post tx) (postWithdraw tx)
       height (signatures tx = []) = Inr ()"
    by (rule validateTx_inv [OF assms(1)], rule that)
  have k: "(\<exists>b\<in>set ins. boxTypeOf b = BT_karma) \<or> (\<exists>k\<in>set (outputs tx). boxTypeOf k = BT_karma)"
    using assms(2) input_box(1) [OF v(1)] by (metis option.inject)
  from checkTransitions_arm [OF v(4,3,2)] unstake_outputs credit_outputs k
  have ka: "(\<forall>b\<in>set ins. boxTypeOf b = BT_karma \<or> boxTypeOf b = BT_username) \<and>
      karmaArm deps ins (outputs tx) (likeTarget tx) (post tx) (postWithdraw tx) height
        (List.find (\<lambda>b. boxTypeOf b = BT_username) ins) = Inr ()"
    by (elim disjE conjE) (fastforce elim: unvouch_outputs)+
  then show ?thesis using karmaArm_ok that v(1) by metis
qed

text \<open>C9: karma is never transferred: if an accepted transaction spends a karma box or
  creates one, there is one owner such that all its inputs are karma or username boxes of
  that owner and every unmarked karma box the owner holds is among them, and it creates no
  karma at all or one box, positive, unmarked and the same owner's.\<close>
theorem karma_never_transferred:
  assumes "validateTx H deps tx txId height = Inr outs"
    and "(\<exists>i\<in>set (inputs tx). \<exists>b. getBox deps i = Some b \<and> boxTypeOf b = BT_karma) \<or>
      (\<exists>k\<in>set (outputs tx). boxTypeOf k = BT_karma)"
  shows "\<exists>owner ins. map (getBox deps) (inputs tx) = map Some ins \<and>
    (\<forall>b\<in>set ins. tail_owner (boxTail b) = Some owner \<and> (boxTypeOf b = BT_karma \<or> boxTypeOf b = BT_username)) \<and>
    set (getOwnKarmaBoxIds deps owner) \<subseteq> boxId ` set ins \<and>
    (ofType BT_karma (outputs tx) = [] \<or>
     (\<exists>k. ofType BT_karma (outputs tx) = [k] \<and> 0 < boxValue k \<and> boxTail k = Karma owner False))"
proof -
  obtain ins owner where a: "map (getBox deps) (inputs tx) = map Some ins"
    "\<forall>b\<in>set ins. boxTypeOf b = BT_karma \<or> boxTypeOf b = BT_username"
    "karmaCommon deps ins (outputs tx) owner = Inr ()"
    using karma_arm [OF assms] by blast
  note c = karmaCommon_ok [OF a(3)]
  have shape: "checkOutputShape (outputs tx) = Inr ()"
    by (rule validateTx_inv [OF assms(1)])
  have one: "0 < boxValue k \<and> boxTail k = Karma owner False" if k: "ofType BT_karma (outputs tx) = [k]" for k
  proof -
    have m: "k \<in> set (outputs tx)" "boxTypeOf k = BT_karma"
      using ofType_set [of k BT_karma "outputs tx"] k by simp_all
    then have "0 \<le> boxValue k" using checkShape_ok(1) shape by (simp add: checkOutputShape_def)
    then show ?thesis
      using c(4) [OF m] m(2) by (cases "boxTail k") (auto simp: tail_owner_def tail_income_def)
  qed
  have "ofType BT_karma (outputs tx) = [] \<or>
     (\<exists>k. ofType BT_karma (outputs tx) = [k] \<and> 0 < boxValue k \<and> boxTail k = Karma owner False)"
    using c(3) one by (cases "ofType BT_karma (outputs tx)") auto
  then show ?thesis using a(1,2) c(1,5) by blast
qed

text \<open>A thread paid with a whole karma box: the poster holds 35 more in an income box.\<close>
definition paidDeps :: utxoEngineDeps where
  "paidDeps = sampleDeps\<lparr>getBox := map_of [mkBox (CHR ''a'') 35 (Karma kA True), mkBox (CHR ''b'') 5 (Karma kA False)],
     getOwnKarmaBoxIds := (\<lambda>k. if k = kA then [idOf (CHR ''b'')] else [])\<rparr>"

definition paidTx :: utxoTransaction where
  "paidTx = mkTx (CHR ''b'') [kA] [mkOut 5 KarmaPrice]\<lparr>post := Some (mkPost [])\<rparr>"

lemma paidTx_valid: "is_ok (validateTx sampleH paidDeps paidTx sampleTxId 5)"
  by code_simp

lemma karma_never_transferred_witness:
  "ofType BT_karma (outputs paidTx) = [] \<and> (\<exists>b. getBox paidDeps (idOf (CHR ''b'')) = Some b \<and>
    boxTypeOf b = BT_karma \<and> tail_owner (boxTail b) = Some kA \<and>
    set (getOwnKarmaBoxIds paidDeps kA) \<subseteq> {boxId b})"
proof -
  obtain outs where o: "validateTx sampleH paidDeps paidTx sampleTxId 5 = Inr outs"
    using ok_result [OF paidTx_valid] by blast
  have i: "inputs paidTx = [idOf (CHR ''b'')]" "ofType BT_karma (outputs paidTx) = []"
    by (simp_all add: paidTx_def mkTx_def mkOut_def ofType_def)
  have g: "getBox paidDeps (idOf (CHR ''b'')) = Some (snd (mkBox (CHR ''b'') 5 (Karma kA False)))"
    by (simp add: paidDeps_def mkBox_def idOf_def)
  have k: "\<exists>i\<in>set (inputs paidTx). \<exists>b. getBox paidDeps i = Some b \<and> boxTypeOf b = BT_karma"
    using g by (simp add: i mkBox_def)
  from karma_never_transferred [OF o disjI1 [OF k]] obtain owner ins where w: "map (getBox paidDeps) (inputs paidTx) = map Some ins"
    "\<forall>b\<in>set ins. tail_owner (boxTail b) = Some owner" "set (getOwnKarmaBoxIds paidDeps owner) \<subseteq> boxId ` set ins"
    by blast
  then have "ins = [snd (mkBox (CHR ''b'') 5 (Karma kA False))]" using i(1) g by auto
  then show ?thesis using w(2,3) g i(2) by (auto simp: mkBox_def tail_owner_def)
qed

end
