(* ===== verification/Arms.thy ===== *)
theory Arms
  imports Accepted
begin

text \<open>
  Properties of the transition arms of an accepted transaction: the spend floor,
  post and like prices, invites, unvouch, unstake and the rent collection.
\<close>

section \<open>Which arm\<close>

lemma accepted_karma:
  assumes "validateTx H deps tx txId height = Inr outs"
    and "i \<in> set (inputs tx)" "getBox deps i = Some b"
    and "boxTypeOf b = BT_karma \<or> boxTypeOf b = BT_username"
  obtains ins where "map (getBox deps) (inputs tx) = map Some ins" "ins \<noteq> []"
    "\<forall>b\<in>set ins. boxTypeOf b = BT_karma \<or> boxTypeOf b = BT_username"
    "karmaArm deps ins (outputs tx) (likeTarget tx) (post tx) (postWithdraw tx) height
        (List.find (\<lambda>b. boxTypeOf b = BT_username) ins) = Inr ()"
proof -
  obtain ins where v: "map (getBox deps) (inputs tx) = map Some ins" "ins \<noteq> []"
    "checkInputTypes ins = Inr ()"
    "checkTransitions ins (outputs tx) deps (likeTarget tx) (post tx) (postWithdraw tx)
       height (signatures tx = []) = Inr ()"
    by (rule validateTx_inv [OF assms(1)], rule that)
  obtain b' where "b' \<in> set ins" "b' = b"
    using input_box(1) [OF v(1) assms(2)] assms(3) by auto
  then have "karmaArm deps ins (outputs tx) (likeTarget tx) (post tx) (postWithdraw tx) height
        (List.find (\<lambda>b. boxTypeOf b = BT_username) ins) = Inr () \<and>
      (\<forall>b\<in>set ins. boxTypeOf b = BT_karma \<or> boxTypeOf b = BT_username)"
    using checkTransitions_arm [OF v(4,3,2)] assms(4) by auto
  then show ?thesis using that v(1,2) by blast
qed

lemma payload_is_karma:
  assumes "validateTx H deps tx txId height = Inr outs"
    and "likeTarget tx \<noteq> None \<or> post tx \<noteq> None \<or> postWithdraw tx \<noteq> None"
  obtains ins where "map (getBox deps) (inputs tx) = map Some ins" "ins \<noteq> []"
    "karmaArm deps ins (outputs tx) (likeTarget tx) (post tx) (postWithdraw tx) height
        (List.find (\<lambda>b. boxTypeOf b = BT_username) ins) = Inr ()"
proof -
  obtain ins where v: "map (getBox deps) (inputs tx) = map Some ins" "ins \<noteq> []"
    "checkInputTypes ins = Inr ()"
    "checkTransitions ins (outputs tx) deps (likeTarget tx) (post tx) (postWithdraw tx)
       height (signatures tx = []) = Inr ()"
    by (rule validateTx_inv [OF assms(1)], rule that)
  then show ?thesis
    using checkTransitions_arm [OF v(4,3,2)] assms(2) that v(1,2) by auto
qed

text \<open>A payload, no username: the branch of the payload ran.\<close>
lemma karmaArm_payload:
  assumes k: "karmaArm deps ins outs like p pw height un = Inr ()"
    and pl: "like \<noteq> None \<or> p \<noteq> None \<or> pw \<noteq> None"
    and o: "tail_owner (boxTail (hd ins)) = Some owner"
  shows "karmaCommon deps ins outs owner = Inr () \<and> un = None \<and>
    (case (like, p, pw) of
       (Some target, _, _) \<Rightarrow> likeArm deps outs owner target
     | (None, Some c, _) \<Rightarrow> postArm deps outs owner c
     | (None, None, Some postId) \<Rightarrow> withdrawArm deps outs owner postId
     | (None, None, None) \<Rightarrow> Inr ()) = Inr ()"
proof -
  from k o pl have *: "karmaCommon deps ins outs owner = Inr ()"
    "un = None" "\<not> list_ex (\<lambda>o'. boxTypeOf o' = BT_username) outs"
    unfolding karmaArm_def Let_def by (auto simp: bind_iff)
  then show ?thesis
    using k o pl unfolding karmaArm_def Let_def
    by (cases like; cases p; cases pw) (simp_all add: bind_iff)
qed

section \<open>The spend floor\<close>

text \<open>C12: a karma transaction that spends leaves the owner's effective karma above
  the floor: what the owner holds less the decay it owes covers the spend, and for
  anything but a post leaves \<open>karmaMinimum\<close> standing.\<close>
theorem karma_spend_keeps_floor:
  assumes "validateTx H deps tx txId height = Inr outs"
    and "i \<in> set (inputs tx)" "getBox deps i = Some b" "boxTail b = Karma owner income"
    and "spendOf (outputs tx) \<noteq> 0"
  shows "\<exists>owed. getKarmaOwed deps owner height = Inr owed \<and>
    (if post tx = None then karmaMinimum (d_decayCfg deps) else 0)
      \<le> getKarmaValue deps owner - owed - spendOf (outputs tx)"
proof -
  have bt: "boxTypeOf b = BT_karma \<or> boxTypeOf b = BT_username" using assms(4) by simp
  obtain ins where v: "map (getBox deps) (inputs tx) = map Some ins" "ins \<noteq> []"
    "karmaArm deps ins (outputs tx) (likeTarget tx) (post tx) (postWithdraw tx) height
        (List.find (\<lambda>b. boxTypeOf b = BT_username) ins) = Inr ()"
    by (rule accepted_karma [OF assms(1-3) bt])
  obtain o' where o: "tail_owner (boxTail (hd ins)) = Some o'" "karmaCommon deps ins (outputs tx) o' = Inr ()"
    "spendOf (outputs tx) = 0 \<or> spendCheck deps o' height (spendOf (outputs tx)) (post tx \<noteq> None) = Inr ()"
    by (rule karmaArm_ok [OF v(3)])
  have "b \<in> set ins" using input_box(1) [OF v(1) assms(2)] assms(3) by auto
  then have "o' = owner" using karmaCommon_ok(1) [OF o(2)] assms(4) by (fastforce simp: tail_owner_def)
  with o(3) assms(5) show ?thesis
    by (auto simp: spendCheck_def Let_def bind_iff split: if_splits)
qed

lemma karma_spend_keeps_floor_witness:
  "\<exists>owed. getKarmaOwed sampleDeps kA 5 = Inr owed \<and>
    10 \<le> getKarmaValue sampleDeps kA - owed - spendOf (outputs inviteTx)"
proof -
  obtain outs where o: "validateTx sampleH sampleDeps inviteTx sampleTxId 5 = Inr outs"
    using ok_result [OF inviteTx_valid] by blast
  have "getBox sampleDeps (idOf (CHR ''a'')) = Some (snd (mkBox (CHR ''a'') 40 (Karma kA False)))"
    by (simp add: sampleDeps_def sampleBoxes_def mkBox_def)
  from karma_spend_keeps_floor [OF o _ this, of kA False] show ?thesis
    by (simp add: mkBox_def inviteTx_def mkTx_def mkOut_def spendOf_def sampleDeps_def decayCfgFor_def KARMA_MINIMUM_def)
qed

section \<open>Posts and likes\<close>

lemma one_element: "length xs = 1 \<Longrightarrow> xs = [hd xs]"
  by (auto simp: length_Suc_conv)

text \<open>A like moves exactly its cost: the outputs are one marker of
  \<open>LIKE_KARMA_COST\<close> naming the recorded author of the target and at most one
  change box, and the author is not the liker.\<close>
theorem like_earmarks_author:
  assumes "validateTx H deps tx txId height = Inr outs" and "likeTarget tx = Some target"
  shows "\<exists>marker author liker. ofType BT_like_accrual (outputs tx) = [marker] \<and>
    boxValue marker = 1 \<and> tail_author (boxTail marker) = Some author \<and>
    getTopologyAuthor deps target = Some author \<and> author \<noteq> liker \<and>
    (\<forall>i\<in>set (inputs tx). \<exists>b. getBox deps i = Some b \<and> tail_owner (boxTail b) = Some liker) \<and>
    length (ofType BT_karma (outputs tx)) \<le> 1 \<and>
    length (outputs tx) = 1 + length (ofType BT_karma (outputs tx))"
proof -
  obtain ins where v: "map (getBox deps) (inputs tx) = map Some ins" "ins \<noteq> []"
    "karmaArm deps ins (outputs tx) (likeTarget tx) (post tx) (postWithdraw tx) height
        (List.find (\<lambda>b. boxTypeOf b = BT_username) ins) = Inr ()"
    by (rule payload_is_karma [OF assms(1)]) (use assms(2) in auto)
  obtain liker where o: "tail_owner (boxTail (hd ins)) = Some liker" by (rule karmaArm_ok [OF v(3)])
  have c: "karmaCommon deps ins (outputs tx) liker = Inr ()"
    and l: "likeArm deps (outputs tx) liker target = Inr ()"
    using karmaArm_payload [OF v(3) _ o] assms(2) by auto
  let ?m = "hd (ofType BT_like_accrual (outputs tx))"
  from l obtain a where a: "getTopologyAuthor deps target = Some a" "tail_author (boxTail ?m) = Some a"
    "a \<noteq> liker" "length (ofType BT_like_accrual (outputs tx)) = 1" "boxValue ?m = 1"
    "length (ofType BT_karma (outputs tx)) \<le> 1"
    "length (outputs tx) = 1 + length (ofType BT_karma (outputs tx))"
    by (auto simp: likeArm_def Let_def bind_iff LIKE_KARMA_COST_def split: option.splits)
  have "\<exists>b. getBox deps i = Some b \<and> tail_owner (boxTail b) = Some liker" if "i \<in> set (inputs tx)" for i
    using input_box(1) [OF v(1) that] karmaCommon_ok(1) [OF c] by blast
  then show ?thesis using a one_element [OF a(4)] by blast
qed

lemma like_earmarks_author_witness:
  "\<exists>marker. ofType BT_like_accrual (outputs likeTx) = [marker] \<and> boxValue marker = 1 \<and>
    tail_author (boxTail marker) = Some kB"
proof -
  obtain outs where o: "validateTx sampleH sampleDeps likeTx sampleTxId 5 = Inr outs"
    using ok_result [OF likeTx_valid] by blast
  have "getTopologyAuthor sampleDeps (idOf (CHR ''e'')) = Some kB" by (simp add: sampleDeps_def)
  with like_earmarks_author [OF o, of "idOf (CHR ''e'')"] show ?thesis
    by (auto simp: likeTx_def)
qed

text \<open>a post is paid for by its author: the inputs are the author's, and the
  outputs beside at most one change box are, for a thread, one price box of
  \<open>POST_PRICE_THREAD\<close>; for a reply, a price box and a marker that sum to
  \<open>POST_PRICE_REPLY\<close>, the marker naming the parent's author.\<close>
theorem post_pays_its_price:
  assumes "validateTx H deps tx txId height = Inr outs" and "post tx = Some p" and "likeTarget tx = None"
  shows "(\<forall>i\<in>set (inputs tx). \<exists>b. getBox deps i = Some b \<and> tail_owner (boxTail b) = Some (author p)) \<and>
    length (ofType BT_karma (outputs tx)) \<le> 1 \<and>
    (\<exists>price. ofType BT_karma_price (outputs tx) = [price] \<and>
      (if parentRefs p = []
       then boxValue price = 5 \<and> length (outputs tx) = 1 + length (ofType BT_karma (outputs tx))
       else \<exists>marker parentAuthor. ofType BT_like_accrual (outputs tx) = [marker] \<and>
         boxValue price + boxValue marker = 3 \<and> boxValue marker = 1 \<and>
         tail_author (boxTail marker) = Some parentAuthor \<and>
         (case getTopologyAuthor deps (hd (parentRefs p)) of
            Some a \<Rightarrow> Some a | None \<Rightarrow> getPendingPostAuthor deps (hd (parentRefs p))) = Some parentAuthor \<and>
         length (outputs tx) = 2 + length (ofType BT_karma (outputs tx))))"
proof -
  obtain ins where v: "map (getBox deps) (inputs tx) = map Some ins" "ins \<noteq> []"
    "karmaArm deps ins (outputs tx) (likeTarget tx) (post tx) (postWithdraw tx) height
        (List.find (\<lambda>b. boxTypeOf b = BT_username) ins) = Inr ()"
    by (rule payload_is_karma [OF assms(1)]) (use assms(2) in auto)
  obtain owner where o: "tail_owner (boxTail (hd ins)) = Some owner" by (rule karmaArm_ok [OF v(3)])
  have c: "karmaCommon deps ins (outputs tx) owner = Inr ()"
    and l: "postArm deps (outputs tx) owner p = Inr ()"
    using karmaArm_payload [OF v(3) _ o] assms(2,3) by auto
  have au: "author p = owner" and pl: "length (ofType BT_karma_price (outputs tx)) = 1"
    and kl: "length (ofType BT_karma (outputs tx)) \<le> 1"
    using l by (auto simp: postArm_def Let_def bind_iff split: if_splits)
  have own: "\<exists>b. getBox deps i = Some b \<and> tail_owner (boxTail b) = Some (author p)"
    if "i \<in> set (inputs tx)" for i
    using input_box(1) [OF v(1) that] karmaCommon_ok(1) [OF c] au by blast
  obtain pr where pr: "ofType BT_karma_price (outputs tx) = [pr]" using one_element [OF pl] by blast
  show ?thesis
  proof (cases "parentRefs p = []")
    case True
    then have "boxValue pr = 5" "length (outputs tx) = 1 + length (ofType BT_karma (outputs tx))"
      using l pr by (auto simp: postArm_def Let_def bind_iff POST_PRICE_THREAD_def)
    then show ?thesis using own kl pr True by auto
  next
    case False
    then have "length (ofType BT_like_accrual (outputs tx)) = 1"
      using l by (auto simp: postArm_def Let_def bind_iff)
    then obtain mk where mk: "ofType BT_like_accrual (outputs tx) = [mk]" using one_element by blast
    obtain a where "boxValue pr = 2" "boxValue mk = 1" "tail_author (boxTail mk) = Some a"
      "(case getTopologyAuthor deps (hd (parentRefs p)) of
            Some a \<Rightarrow> Some a | None \<Rightarrow> getPendingPostAuthor deps (hd (parentRefs p))) = Some a"
      "length (outputs tx) = 2 + length (ofType BT_karma (outputs tx))"
      using l False pr mk by (auto simp: postArm_def Let_def bind_iff price_defs split: option.splits)
    then show ?thesis using own kl pr mk False by simp
  qed
qed

lemma post_pays_its_price_witness:
  "\<exists>price marker. ofType BT_karma_price (outputs replyTx) = [price] \<and>
    ofType BT_like_accrual (outputs replyTx) = [marker] \<and> boxValue price + boxValue marker = 3"
proof -
  obtain outs where o: "validateTx sampleH sampleDeps replyTx sampleTxId 5 = Inr outs"
    using ok_result [OF replyTx_valid] by blast
  have "post replyTx = Some (mkPost [idOf (CHR ''e'')])" "likeTarget replyTx = None"
    "parentRefs (mkPost [idOf (CHR ''e'')]) \<noteq> []"
    by (simp_all add: replyTx_def mkTx_def mkPost_def)
  then show ?thesis using post_pays_its_price [OF o] by auto
qed

section \<open>Vouches and backer stakes\<close>

lemma accepted_input:
  assumes "validateTx H deps tx txId height = Inr outs"
    and "i \<in> set (inputs tx)" "getBox deps i = Some b"
  obtains ins where "map (getBox deps) (inputs tx) = map Some ins" "b \<in> set ins" "ins \<noteq> []"
    "checkTransitions ins (outputs tx) deps (likeTarget tx) (post tx) (postWithdraw tx)
       height (signatures tx = []) = Inr ()" "checkInputTypes ins = Inr ()"
    "checkCreditFloor (outputs tx) txId = Inr ()"
proof -
  obtain ins where v: "map (getBox deps) (inputs tx) = map Some ins" "ins \<noteq> []"
    "checkTransitions ins (outputs tx) deps (likeTarget tx) (post tx) (postWithdraw tx)
       height (signatures tx = []) = Inr ()" "checkInputTypes ins = Inr ()"
    "checkCreditFloor (outputs tx) txId = Inr ()"
    by (rule validateTx_inv [OF assms(1)], rule that)
  moreover have "b \<in> set ins" using input_box(1) [OF v(1) assms(2)] assms(3) by auto
  ultimately show ?thesis using that by blast
qed

text \<open>Spending a vouch moves its whole stake into one escrow of the voucher, to
  be released at the vouch's own height plus the cooldown.\<close>
theorem unvouch_escrows_stake:
  assumes "validateTx H deps tx txId height = Inr outs"
    and "i \<in> set (inputs tx)" "getBox deps i = Some b" "boxTail b = Vouch voucher target"
  shows "\<exists>e. inputs tx = [i] \<and> outputs tx = [e] \<and> boxValue e = boxValue b \<and>
    boxTail e = VouchEscrow voucher (createdAtBlock b + vouchCooldownBlocks deps)"
proof -
  obtain ins where v: "map (getBox deps) (inputs tx) = map Some ins" "b \<in> set ins" "ins \<noteq> []"
    "checkTransitions ins (outputs tx) deps (likeTarget tx) (post tx) (postWithdraw tx)
       height (signatures tx = []) = Inr ()" "checkInputTypes ins = Inr ()"
    by (rule accepted_input [OF assms(1-3)], rule that)
  have u: "unvouchArm deps ins (outputs tx) = Inr ()"
    using checkTransitions_arm [OF v(4,5,3)] v(2) assms(4) by fastforce
  obtain e where e: "outputs tx = [e]" "boxTypeOf e = BT_vouch_escrow" "length ins = 1"
    "boxValue e = boxValue (hd ins)" "tail_owner (boxTail e) = tail_voucher (boxTail (hd ins))"
    "tail_release (boxTail e) = Some (createdAtBlock (hd ins) + vouchCooldownBlocks deps)"
    by (rule unvouch_outputs [OF u])
  then have ib: "ins = [b]" using v(2) by (auto simp: length_Suc_conv)
  then have "inputs tx = [i]" using v(1) assms(2) by (auto simp: Cons_eq_map_conv)
  moreover have "boxTail e = VouchEscrow voucher (createdAtBlock b + vouchCooldownBlocks deps)"
    using e ib assms(4) by (cases "boxTail e") (auto simp: tail_defs)
  ultimately show ?thesis using e ib by auto
qed

lemma unvouch_escrows_stake_witness:
  "\<exists>e. outputs unvouchTx = [e] \<and> boxValue e = 1 \<and> boxTail e = VouchEscrow kA 8"
proof -
  obtain outs where o: "validateTx sampleH sampleDeps unvouchTx sampleTxId 5 = Inr outs"
    using ok_result [OF unvouchTx_valid] by blast
  have "getBox sampleDeps (idOf (CHR ''b'')) = Some (snd (mkBox (CHR ''b'') 1 (Vouch kA kB)))"
    by (simp add: sampleDeps_def sampleBoxes_def mkBox_def idOf_def)
  from unvouch_escrows_stake [OF o _ this, of kA kB] show ?thesis
    by (auto simp: mkBox_def unvouchTx_def mkTx_def mkOut_def sampleDeps_def)
qed

text \<open>Unstaking splits one stake of an owner into a marker and at most one
  successor of the same owner and the same total weight, both worth nothing, the
  marker at least one percent of the stake.\<close>
theorem unstake_conserves_weight:
  assumes "validateTx H deps tx txId height = Inr outs"
    and "i \<in> set (inputs tx)" "getBox deps i = Some b" "boxTail b = BackerStake owner weight"
  shows "inputs tx = [i] \<and> sum_list (map (\<lambda>c. tail_weight (boxTail c)) (outputs tx)) = weight \<and>
    (\<exists>marker. ofType BT_backer_unstake (outputs tx) = [marker] \<and>
      weight \<le> tail_weight (boxTail marker) * 100) \<and>
    length (ofType BT_backer_stake (outputs tx)) \<le> 1 \<and>
    (\<forall>c\<in>set (outputs tx). (\<exists>w. 1 \<le> w \<and> (boxTail c = BackerUnstake owner w \<or> boxTail c = BackerStake owner w)) \<and>
      boxValue c = 0)"
proof -
  obtain ins where v: "map (getBox deps) (inputs tx) = map Some ins" "b \<in> set ins" "ins \<noteq> []"
    "checkTransitions ins (outputs tx) deps (likeTarget tx) (post tx) (postWithdraw tx)
       height (signatures tx = []) = Inr ()" "checkInputTypes ins = Inr ()"
    by (rule accepted_input [OF assms(1-3)], rule that)
  let ?o = "outputs tx"
  have u: "unstakeArm ins ?o = Inr ()"
    using checkTransitions_arm [OF v(4,5,3)] v(2) assms(4) by fastforce
  then have "length ins = 1" by (simp add: unstakeArm_def Let_def)
  then have ib: "ins = [b]" using v(2) by (auto simp: length_Suc_conv)
  then have it: "inputs tx = [i]" using v(1) assms(2) by (auto simp: Cons_eq_map_conv)
  let ?w = "\<lambda>c. tail_weight (boxTail c)"
  let ?ms = "ofType BT_backer_unstake ?o" and ?ss = "ofType BT_backer_stake ?o"
  have m1: "length ?ms = 1" and s1: "length ?ss \<le> 1" using u by (simp_all add: unstakeArm_def Let_def)
  obtain m where m: "?ms = [m]" using one_element [OF m1] by blast
  have sum: "sum_list (map ?w ?o) = sum_list (map ?w ?ms) + sum_list (map ?w ?ss)"
  proof -
    have "\<forall>c\<in>set cs. boxTypeOf c = BT_backer_unstake \<or> boxTypeOf c = BT_backer_stake \<Longrightarrow>
      sum_list (map ?w cs) = sum_list (map ?w (ofType BT_backer_unstake cs)) +
        sum_list (map ?w (ofType BT_backer_stake cs))" for cs :: "candidate list"
      by (induction cs) (auto simp: ofType_def)
    then show ?thesis using unstake_outputs [OF u] by blast
  qed
  have mt: "boxTypeOf m = BT_backer_unstake" using m by (metis list.set_intros(1) ofType_set)
  show ?thesis
  proof (cases ?ss)
    case Nil
    then have "?w m = weight" "1 \<le> ?w m" "weight \<le> ?w m * 100" "tail_owner (boxTail m) = Some owner"
      "boxValue m = 0" "length ?o = 1"
      using u m ib assms(4) by (auto simp: unstakeArm_def Let_def tail_owner_def tail_weight_def BACKER_UNSTAKE_MIN_PCT_def)
    moreover have "m \<in> set ?o" using m by (metis list.set_intros(1) ofType_set)
    ultimately have "?o = [m]" by (auto simp: length_Suc_conv)
    moreover obtain w where "boxTail m = BackerUnstake owner w"
      using mt \<open>tail_owner (boxTail m) = Some owner\<close> by (cases "boxTail m") (auto simp: tail_owner_def)
    ultimately show ?thesis
      using it m Nil \<open>?w m = weight\<close> \<open>1 \<le> ?w m\<close> \<open>boxValue m = 0\<close> by (auto simp: tail_weight_def)
  next
    case (Cons s rest)
    then have s: "?ss = [s]" using s1 by simp
    then have st: "boxTypeOf s = BT_backer_stake" by (metis list.set_intros(1) ofType_set)
    have p: "?w m + ?w s = weight" "1 \<le> ?w m" "1 \<le> ?w s" "weight \<le> ?w m * 100"
      "tail_owner (boxTail m) = Some owner" "tail_owner (boxTail s) = Some owner"
      "boxValue m = 0" "boxValue s = 0"
      using u m s ib assms(4) by (auto simp: unstakeArm_def Let_def tail_owner_def tail_weight_def BACKER_UNSTAKE_MIN_PCT_def)
    have all: "c = m \<or> c = s" if "c \<in> set ?o" for c
    proof -
      have "c \<in> set ?ms \<or> c \<in> set ?ss" using unstake_outputs [OF u that] that by simp
      then show ?thesis using m s by auto
    qed
    obtain wm ws where w: "boxTail m = BackerUnstake owner wm" "boxTail s = BackerStake owner ws"
      using mt st p(5,6) by (cases "boxTail m"; cases "boxTail s") (auto simp: tail_owner_def)
    have "(\<exists>w. 1 \<le> w \<and> (boxTail c = BackerUnstake owner w \<or> boxTail c = BackerStake owner w)) \<and> boxValue c = 0"
      if "c \<in> set ?o" for c
      using all [OF that] p(2,3,7,8) w by (auto simp: tail_weight_def)
    moreover have "sum_list (map ?w ?o) = weight" using sum m s p(1) by simp
    ultimately show ?thesis using it m s p(4) by auto
  qed
qed

lemma unstake_conserves_weight_witness:
  "(\<Sum>c\<leftarrow>outputs unstakeTx. tail_weight (boxTail c)) = 200"
proof -
  obtain outs where o: "validateTx sampleH sampleDeps unstakeTx sampleTxId 5 = Inr outs"
    using ok_result [OF unstakeTx_valid] by blast
  have "getBox sampleDeps (idOf (CHR ''c'')) = Some (snd (mkBox (CHR ''c'') 0 (BackerStake kA 200)))"
    by (simp add: sampleDeps_def sampleBoxes_def mkBox_def idOf_def)
  from unstake_conserves_weight [OF o _ this, of kA 200] show ?thesis
    by (auto simp: mkBox_def unstakeTx_def mkTx_def)
qed

section \<open>Invites\<close>

lemma types_only:
  assumes "length outs = (\<Sum>t\<leftarrow>ts. length (ofType t outs))" "distinct ts" "b \<in> set outs"
  shows "boxTypeOf b \<in> set ts"
proof (rule ccontr)
  assume n: "\<not> ?thesis"
  have one: "(\<Sum>t\<leftarrow>ts. length (ofType t [c])) \<le> 1" for c :: "'a candidate_scheme"
    using assms(2) by (induction ts) (auto simp: ofType_def sum_list_eq_0_iff)
  have app: "(\<Sum>t\<leftarrow>ts. length (ofType t (xs @ ys))) =
    (\<Sum>t\<leftarrow>ts. length (ofType t xs)) + (\<Sum>t\<leftarrow>ts. length (ofType t ys))" for xs ys :: "'a candidate_scheme list"
    by (induction ts) (simp_all add: ofType_def)
  have le: "(\<Sum>t\<leftarrow>ts. length (ofType t bs)) \<le> length bs" for bs :: "'a candidate_scheme list"
  proof (induction bs)
    case Nil
    show ?case by (induction ts) (simp_all add: ofType_def)
  next
    case (Cons c bs)
    then show ?case using one [of c] app [of "[c]" bs] by simp
  qed
  have zero: "(\<Sum>t\<leftarrow>ts. length (ofType t [b])) = 0"
    using n by (induction ts) (auto simp: ofType_def)
  obtain xs ys where e: "outs = xs @ [b] @ ys" using assms(3) by (auto simp: in_set_conv_decomp)
  show False using assms(1) le [of xs] le [of ys] zero unfolding e by (simp only: app length_append) simp
qed

lemma karmaArm_bond:
  assumes k: "karmaArm deps ins outs like p pw height un = Inr ()"
    and b: "bd \<in> set outs" "boxTypeOf bd = BT_bond"
    and o: "tail_owner (boxTail (hd ins)) = Some owner"
  shows "bondArm deps outs owner = Inr ()"
proof (cases un)
  case (Some u)
  then have "usernameBurnArm deps outs owner u = Inr ()"
    using k o unfolding karmaArm_def Let_def by (simp add: bind_iff)
  then have "length outs = (\<Sum>t\<leftarrow>[BT_karma, BT_karma_price]. length (ofType t outs))"
    by (auto simp: usernameBurnArm_def Let_def bind_iff)
  from types_only [OF this _ b(1)] b(2) show ?thesis by simp
next
  case None
  show ?thesis
  proof (cases "list_ex (\<lambda>o'. boxTypeOf o' = BT_username) outs")
    case True
    then have "usernameClaimArm deps outs owner = Inr ()"
      using k o None unfolding karmaArm_def Let_def by (simp add: bind_iff)
    then have "length outs = (\<Sum>t\<leftarrow>[BT_karma, BT_username]. length (ofType t outs))"
      by (auto simp: usernameClaimArm_def Let_def bind_iff)
    from types_only [OF this _ b(1)] b(2) show ?thesis by simp
  next
    case noname: False
    show ?thesis
    proof (cases "like \<noteq> None \<or> p \<noteq> None \<or> pw \<noteq> None")
      case True
      have "\<exists>ts. length outs = (\<Sum>t\<leftarrow>ts. length (ofType t outs)) \<and> distinct ts \<and> BT_bond \<notin> set ts"
      proof (cases like)
        case (Some target)
        then have "likeArm deps outs owner target = Inr ()" using karmaArm_payload [OF k True o] by simp
        then show ?thesis
          by (intro exI [of _ "[BT_like_accrual, BT_karma]"]) (auto simp: likeArm_def Let_def bind_iff)
      next
        case nolike: None
        show ?thesis
        proof (cases p)
          case (Some c)
          then have "postArm deps outs owner c = Inr ()" using karmaArm_payload [OF k True o] nolike by simp
          then show ?thesis
            by (cases "parentRefs c = []"; intro exI [of _ "(if parentRefs c = [] then [] else [BT_like_accrual]) @ [BT_karma_price, BT_karma]"])
              (auto simp: postArm_def Let_def bind_iff)
        next
          case nop: None
          then obtain w where "pw = Some w" using True nolike by auto
          then have "withdrawArm deps outs owner w = Inr ()" using karmaArm_payload [OF k True o] nolike nop by simp
          then show ?thesis by (intro exI [of _ "[BT_karma]"]) (auto simp: withdrawArm_def)
        qed
      qed
      then show ?thesis using types_only [OF _ _ b(1)] b(2) by metis
    next
      case False
      have nb: "length (ofType BT_bond outs) > 0" using b by (auto simp: ofType_def filter_empty_conv)
      have nv: "length (ofType BT_vouch outs) = 0"
      proof (rule ccontr)
        assume "length (ofType BT_vouch outs) \<noteq> 0"
        then have "vouchArm deps outs owner height = Inr ()"
          using k o None noname False unfolding karmaArm_def Let_def by (auto simp: bind_iff split: if_splits)
        then show False using nb by (simp add: vouchArm_def Let_def bind_iff)
      qed
      then show ?thesis
        using k o None noname False nb unfolding karmaArm_def Let_def by (auto simp: bind_iff split: if_splits)
    qed
  qed
qed

lemma membershipBar_pos: "membershipBar n k = Inr bar \<Longrightarrow> 1 \<le> bar"
  by (auto simp: membershipBar_def bind_iff split: if_splits)

text \<open>A bond is created only by a root or a member whose vouches still cover one
  more invite at the membership bar, for a key with no identity record, and holds
  an amount in the network's range; one bond per transaction.\<close>
theorem invite_within_budget:
  assumes "validateTx H deps tx txId height = Inr outs"
    and "bd \<in> set (outputs tx)" "boxTail bd = Bond inviter invitee"
  shows "ofType BT_bond (outputs tx) = [bd] \<and>
    inviteBondMin deps \<le> boxValue bd \<and> boxValue bd \<le> inviteBondMax deps \<and>
    getIdentityRecord deps invitee = None \<and>
    (\<forall>i\<in>set (inputs tx). \<exists>b. getBox deps i = Some b \<and> tail_owner (boxTail b) = Some inviter) \<and>
    (\<exists>r. getIdentityRecord deps inviter = Some r \<and> (isRoot r \<or> isMember r \<and>
      (\<exists>bar. membershipBar (memberCount (getNetworkRecord deps)) (membershipBarMultiplier deps) = Inr bar \<and>
        (invitesUsed r + 1) * bar \<le> memberVouches r)))"
proof -
  let ?o = "outputs tx"
  have bt: "boxTypeOf bd = BT_bond" using assms(3) by simp
  obtain ins where v: "map (getBox deps) (inputs tx) = map Some ins" "ins \<noteq> []"
    "checkInputTypes ins = Inr ()"
    "checkTransitions ins ?o deps (likeTarget tx) (post tx) (postWithdraw tx)
       height (signatures tx = []) = Inr ()"
    by (rule validateTx_inv [OF assms(1)], rule that)
  have nu: "boxTypeOf e \<noteq> BT_bond" if "unvouchArm deps ins ?o = Inr ()" "e \<in> set ?o" for e
    by (rule unvouch_outputs [OF that(1)]) (use that(2) in auto)
  have ka: "karmaArm deps ins ?o (likeTarget tx) (post tx) (postWithdraw tx) height
        (List.find (\<lambda>b. boxTypeOf b = BT_username) ins) = Inr ()"
    using checkTransitions_arm [OF v(4,3,2)] unstake_outputs [of ins ?o bd] credit_outputs [of deps ins ?o height _ bd]
      nu [OF _ assms(2)] assms(2) bt by auto
  obtain owner where o: "tail_owner (boxTail (hd ins)) = Some owner" "karmaCommon deps ins ?o owner = Inr ()"
    by (rule karmaArm_ok [OF ka])
  have ba: "bondArm deps ?o owner = Inr ()" by (rule karmaArm_bond [OF ka assms(2) bt o(1)])
  have l1: "length (ofType BT_bond ?o) = 1" using ba by (simp add: bondArm_def Let_def bind_iff)
  have "bd \<in> set (ofType BT_bond ?o)" using assms(2) bt by simp
  then have eq: "ofType BT_bond ?o = [bd]" using l1 by (auto simp: length_Suc_conv simp del: ofType_set)
  let ?bar = "membershipBar (memberCount (getNetworkRecord deps)) (membershipBarMultiplier deps)"
  have *: "inviteBondMin deps \<le> boxValue bd" "boxValue bd \<le> inviteBondMax deps" "inviter = owner"
    "getIdentityRecord deps invitee = None"
    using ba eq assms(3) by (auto simp: bondArm_def Let_def bind_iff tail_inviter_def tail_invitee_def)
  obtain av where av1: "availableInvites (getIdentityRecord deps inviter) ?bar = Inr av"
      "(case av of
        NoRecord \<Rightarrow> Inl (Refused ''Inviter holds no identity record'')
      | NoBudget \<Rightarrow> Inl (Refused ''Only a root or a member may invite'')
      | Root \<Rightarrow> Inr ()
      | Budget n \<Rightarrow> firstRefusal [(n < 1, ''Inviter has no invites available'')]) = Inr ()"
    using ba eq assms(3) *(3)
    by (auto simp: bondArm_def Let_def bind_iff tail_inviter_def tail_invitee_def)
  then have av: "availableInvites (getIdentityRecord deps inviter) ?bar = Inr av"
      "av = Root \<or> (\<exists>n. av = Budget n \<and> 1 \<le> n)"
    by (cases av; simp)+
  have "\<exists>r. getIdentityRecord deps inviter = Some r \<and> (isRoot r \<or> isMember r \<and>
      (\<exists>bar. ?bar = Inr bar \<and> (invitesUsed r + 1) * bar \<le> memberVouches r))"
  proof (cases "getIdentityRecord deps inviter")
    case None
    then show ?thesis using av by (auto simp: availableInvites_def)
  next
    case (Some r)
    show ?thesis
    proof (cases "isRoot r")
      case True
      then show ?thesis using Some by blast
    next
      case False
      with av Some obtain bar where m: "isMember r" and bar: "?bar = Inr bar"
        and n: "1 \<le> memberVouches r div bar - invitesUsed r"
        by (auto simp: availableInvites_def bind_iff split: if_splits)
      have pos: "0 < bar" using membershipBar_pos [OF bar] by simp
      have "(invitesUsed r + 1) * bar \<le> memberVouches r div bar * bar"
        using n pos by (intro mult_right_mono) auto
      also have "\<dots> \<le> memberVouches r" by (rule mult_div_le [OF pos])
      finally show ?thesis using Some m bar by blast
    qed
  qed
  moreover have "\<exists>b. getBox deps i = Some b \<and> tail_owner (boxTail b) = Some inviter" if "i \<in> set (inputs tx)" for i
    using input_box(1) [OF v(1) that] karmaCommon_ok(1) [OF o(2)] *(3) by blast
  ultimately show ?thesis using eq * by blast
qed

lemma invite_within_budget_witness:
  "ofType BT_bond (outputs inviteTx) = [mkOut 10 (Bond kA kC)] \<and> getIdentityRecord sampleDeps kC = None"
proof -
  obtain outs where o: "validateTx sampleH sampleDeps inviteTx sampleTxId 5 = Inr outs"
    using ok_result [OF inviteTx_valid] by blast
  from invite_within_budget [OF o, of "mkOut 10 (Bond kA kC)" kA kC] show ?thesis
    by (simp add: inviteTx_def mkTx_def mkOut_def)
qed

end
