(* ===== verification/Rent.thy ===== *)
theory Rent
  imports Accepted
begin

text \<open>
  The rent collection: an unsigned credit spend.  What it charges, what it leaves
  to the owners, and the boxes it can never collect.
\<close>

definition rentRecordLength :: "utxoEngineDeps \<Rightarrow> anyBox \<Rightarrow> int" where
  "rentRecordLength deps b = (case getBoxProvenance deps (boxId b) of None \<Rightarrow> 0
     | Some (t, i) \<Rightarrow> (case boxRecordBytes (candidate_of b) t i of
         Inl _ \<Rightarrow> 0 | Inr bs \<Rightarrow> int (length bs)))"

definition fullCharge :: "utxoEngineDeps \<Rightarrow> anyBox \<Rightarrow> int" where
  "fullCharge deps b = STORAGE_RENT_PER_BYTE * rentRecordLength deps b"

definition rentSuccessors :: "utxoEngineDeps \<Rightarrow> anyBox list \<Rightarrow> (string \<times> int) list" where
  "rentSuccessors deps ins =
     map (\<lambda>b. (bytesToHex (the (tail_owner (boxTail b))), boxValue b - fullCharge deps b))
       (filter (\<lambda>b. fullCharge deps b \<le> boxValue b) ins)"

lemma rentInput_ok:
  assumes "rentInput deps height b (t, ex) = Inr (t', ex')"
  shows "height - createdAtBlock b > storageRentPeriodBlocks deps"
    "t' = t + min (boxValue b) (fullCharge deps b)" "ex' = ex @ rentSuccessors deps [b]"
  using assms
  by (auto simp: rentInput_def bind_iff Let_def fullCharge_def rentRecordLength_def rentSuccessors_def
      split: option.splits prod.splits if_splits)

lemma rentInputs_ok:
  assumes "efold (rentInput deps height) ins (t, ex) = Inr (t', ex')"
  shows "(\<forall>b\<in>set ins. height - createdAtBlock b > storageRentPeriodBlocks deps) \<and>
    t' = t + (\<Sum>b\<leftarrow>ins. min (boxValue b) (fullCharge deps b)) \<and> ex' = ex @ rentSuccessors deps ins"
  using assms
proof (induction ins arbitrary: t ex)
  case Nil
  then show ?case by (simp add: rentSuccessors_def)
next
  case (Cons b ins)
  then obtain t1 ex1 where s: "rentInput deps height b (t, ex) = Inr (t1, ex1)"
      "efold (rentInput deps height) ins (t1, ex1) = Inr (t', ex')"
    by (auto simp: bind_iff)
  note r = rentInput_ok [OF s(1)]
  have app: "rentSuccessors deps (b # ins) = rentSuccessors deps [b] @ rentSuccessors deps ins"
    by (simp add: rentSuccessors_def)
  show ?case using Cons.IH [OF s(2)] r by (simp add: app)
qed

lemma rent_arm:
  assumes "validateTx H deps tx txId height = Inr outs" and "signatures tx = []"
  obtains ins total where "map (getBox deps) (inputs tx) = map Some ins" "ins \<noteq> []"
    "\<forall>b\<in>set ins. boxTypeOf b = BT_credit"
    "efold (rentInput deps height) ins (0, []) = Inr (total, rentSuccessors deps ins)"
    "mset (rentSuccessors deps ins) = mset (map successorKey (ofType BT_credit (outputs tx)))"
    "length (ofType BT_fee (outputs tx)) = 1" "boxValue (hd (ofType BT_fee (outputs tx))) = total"
    "\<forall>c\<in>set (ofType BT_credit (outputs tx)). createdAtBlock c = height \<and> tail_lock (boxTail c) = None"
    "checkCreditFloor (outputs tx) txId = Inr ()"
proof -
  obtain ins where v: "map (getBox deps) (inputs tx) = map Some ins" "ins \<noteq> []"
    "checkInputTypes ins = Inr ()"
    "checkTransitions ins (outputs tx) deps (likeTarget tx) (post tx) (postWithdraw tx)
       height (signatures tx = []) = Inr ()"
    "checkCreditFloor (outputs tx) txId = Inr ()"
    "checkAuthorization tx txId ins height (storageRentPeriodBlocks deps) (verifySignature deps) = Inr ()"
    by (rule validateTx_inv [OF assms(1)], rule that)
  have signers: "\<And>b. b \<in> set ins \<Longrightarrow> authorizationOf tx height (storageRentPeriodBlocks deps) b = Signer None \<or>
      (\<exists>key txHash. authorizationOf tx height (storageRentPeriodBlocks deps) b = Signer (Some key) \<and>
        verifyGuardSignature tx txHash key (verifySignature deps))"
    by (rule checkAuthorization_ok [OF v(6)]) blast
  have nosig: "\<not> verifyGuardSignature tx txHash key ver" for txHash key ver
    using assms(2) by (simp add: verifyGuardSignature_def)
  have credit: "boxTypeOf b = BT_credit" if "b \<in> set ins" for b
    using signers [OF that] nosig by (cases "boxTail b") (auto simp: authorizationOf_def split: if_splits)
  have "hd ins \<in> set ins" using v(2) by simp
  then have "creditArm deps ins (outputs tx) height True = Inr ()"
    using checkTransitions_arm [OF v(4,3,2)] assms(2) credit by fastforce
  then obtain total ex where c: "efold (rentInput deps height) ins (0, []) = Inr (total, ex)"
    "mset ex = mset (map successorKey (ofType BT_credit (outputs tx)))"
    "length (ofType BT_fee (outputs tx)) = 1" "boxValue (hd (ofType BT_fee (outputs tx))) = total"
    "\<forall>c\<in>set (ofType BT_credit (outputs tx)). createdAtBlock c = height \<and> tail_lock (boxTail c) = None"
    by (auto simp: creditArm_def Let_def bind_iff)
  have "ex = rentSuccessors deps ins" using rentInputs_ok [OF c(1)] by simp
  then show ?thesis using that v(1,2,5) credit c by blast
qed

text \<open>C13: an unsigned transaction that is accepted collects rent exactly: every input
  is a credit past its period; the one fee box holds the sum of the charges, a box
  below its charge giving all it has; and the credit outputs are, as a multiset of
  owner and value, what is left of the boxes that cover theirs, unlocked and dated
  at the height.\<close>
theorem rent_charges_exactly:
  assumes "validateTx H deps tx txId height = Inr outs" and "signatures tx = []"
  shows "\<exists>ins fee. map (getBox deps) (inputs tx) = map Some ins \<and>
    (\<forall>b\<in>set ins. boxTypeOf b = BT_credit \<and> height - createdAtBlock b > storageRentPeriodBlocks deps) \<and>
    ofType BT_fee (outputs tx) = [fee] \<and>
    boxValue fee = (\<Sum>b\<leftarrow>ins. min (boxValue b) (fullCharge deps b)) \<and>
    mset (map successorKey (ofType BT_credit (outputs tx))) = mset (rentSuccessors deps ins) \<and>
    (\<forall>c\<in>set (ofType BT_credit (outputs tx)). createdAtBlock c = height \<and> tail_lock (boxTail c) = None)"
proof -
  obtain ins total where r: "map (getBox deps) (inputs tx) = map Some ins" "ins \<noteq> []"
    "\<forall>b\<in>set ins. boxTypeOf b = BT_credit"
    "efold (rentInput deps height) ins (0, []) = Inr (total, rentSuccessors deps ins)"
    "mset (rentSuccessors deps ins) = mset (map successorKey (ofType BT_credit (outputs tx)))"
    "length (ofType BT_fee (outputs tx)) = 1" "boxValue (hd (ofType BT_fee (outputs tx))) = total"
    "\<forall>c\<in>set (ofType BT_credit (outputs tx)). createdAtBlock c = height \<and> tail_lock (boxTail c) = None"
    by (rule rent_arm [OF assms], rule that)
  obtain fee where fee: "ofType BT_fee (outputs tx) = [fee]"
    using r(6) by (auto simp: length_Suc_conv)
  show ?thesis
    using r fee rentInputs_ok [OF r(4)] by (intro exI [of _ ins] exI [of _ fee]) simp
qed

lemma rent_charges_exactly_witness:
  "\<exists>ins fee. map (getBox sampleDeps) (inputs rentTx) = map Some ins \<and> ofType BT_fee (outputs rentTx) = [fee] \<and>
    boxValue fee = (\<Sum>b\<leftarrow>ins. min (boxValue b) (fullCharge sampleDeps b))"
proof -
  obtain outs where o: "validateTx sampleH sampleDeps rentTx sampleTxId 5 = Inr outs"
    using ok_result [OF rentTx_valid] by blast
  have "signatures rentTx = []" by (simp add: rentTx_def mkTx_def)
  from rent_charges_exactly [OF o this] show ?thesis by blast
qed

section \<open>The boxes a collection refuses\<close>

lemma credit_record_length:
  assumes "boxRecordBytes c t i = Inr bs" "boxTypeOf c = BT_credit"
  shows "64 \<le> length bs"
proof -
  obtain owner l where tail: "boxTail c = Credit owner l" using assms(2) by (cases "boxTail c") auto
  from assms(1) obtain b1 b2 b3 where b: "canonicalBoxBytes c = Inr b1" "writeHexNOrThrow t 32 = Inr b2"
      "bs = b1 @ b2 @ b3"
    by (auto simp: boxRecordBytes_def BOX_RECORD_def encodeStruct_def wcat_Cons_eq wcat_Nil_eq simp del: wcat.simps)
  from b(1) tail obtain a1 a2 a3 a4 where a: "writeBytesNOrThrow owner 32 = Inr a3" "b1 = a1 @ a2 @ a3 @ a4"
    by (auto simp: canonicalBoxBytes_def wcat_Cons_eq wcat_Nil_eq simp del: wcat.simps)
      (metis append.assoc)
  have "length b2 = 32" using b(2) writeHexN_eq [of t 32 b2] by simp
  moreover have "length a3 = 32" using a(1) writeBytesN_eq [of owner 32 a3] by auto
  ultimately show ?thesis using b(3) a(2) by simp
qed

lemma credit_floor:
  assumes "checkCreditFloor outs txId = Inr ()" "c \<in> set outs" "boxTypeOf c = BT_credit"
  shows "156 * 64 \<le> boxValue c"
proof -
  obtain i where "i < length outs" "c = outs ! i" using assms(2) by (metis in_set_conv_nth)
  then have "(i, c) \<in> set (enumerate 0 outs)" by (metis add_0 in_set_enumerate_eq nth_enumerate_eq
        length_enumerate nth_mem)
  then have "ebind (orThrow (boxRecordBytes c txId (int i))) (\<lambda>bytes.
       firstRefusal [(boxValue c < MIN_BOX_VALUE_PER_BYTE * int (length bytes),
         ''Credit output value is below the per-byte minimum'')]) = Inr ()"
    using assms(1,3) unfolding checkCreditFloor_def echeck_eq_Inr by fastforce
  then obtain bs where bs: "boxRecordBytes c txId (int i) = Inr bs"
      "MIN_BOX_VALUE_PER_BYTE * int (length bs) \<le> boxValue c"
    by (auto simp: bind_iff)
  from credit_record_length [OF bs(1) assms(3)] bs(2) show ?thesis
    by (simp add: MIN_BOX_VALUE_PER_BYTE_def)
qed

text \<open>A rent collection never spends a credit that covers its charge with less
  than the per-byte minimum of a credit left over (in particular one that covers
  it exactly): the successor the rent shape demands is an output the credit floor
  refuses.\<close>
theorem rent_refuses_small_remainder:
  assumes "validateTx H deps tx txId height = Inr outs" and "signatures tx = []"
    and "i \<in> set (inputs tx)" "getBox deps i = Some b"
  shows "boxValue b < fullCharge deps b \<or> fullCharge deps b + 156 * 64 \<le> boxValue b"
proof (rule ccontr)
  assume n: "\<not> ?thesis"
  obtain ins total where r: "map (getBox deps) (inputs tx) = map Some ins" "ins \<noteq> []"
    "\<forall>b\<in>set ins. boxTypeOf b = BT_credit"
    "efold (rentInput deps height) ins (0, []) = Inr (total, rentSuccessors deps ins)"
    "mset (rentSuccessors deps ins) = mset (map successorKey (ofType BT_credit (outputs tx)))"
    "length (ofType BT_fee (outputs tx)) = 1" "boxValue (hd (ofType BT_fee (outputs tx))) = total"
    "\<forall>c\<in>set (ofType BT_credit (outputs tx)). createdAtBlock c = height \<and> tail_lock (boxTail c) = None"
    "checkCreditFloor (outputs tx) txId = Inr ()"
    by (rule rent_arm [OF assms(1,2)], rule that)
  have "b \<in> set ins" using input_box(1) [OF r(1) assms(3)] assms(4) by auto
  then have "(bytesToHex (the (tail_owner (boxTail b))), boxValue b - fullCharge deps b)
      \<in> set (rentSuccessors deps ins)"
    using n by (auto simp: rentSuccessors_def)
  then have "(bytesToHex (the (tail_owner (boxTail b))), boxValue b - fullCharge deps b)
      \<in> set (map successorKey (ofType BT_credit (outputs tx)))"
    using r(5) by (metis set_mset_mset)
  then obtain c where c: "c \<in> set (outputs tx)" "boxTypeOf c = BT_credit"
      "boxValue c = boxValue b - fullCharge deps b"
    by (auto simp: successorKey_def)
  from credit_floor [OF r(9) c(1,2)] c(3) n show False by linarith
qed

lemma rent_refuses_small_remainder_witness:
  "\<exists>b. getBox sampleDeps (idOf (CHR ''d'')) = Some b \<and>
    (boxValue b < fullCharge sampleDeps b \<or> fullCharge sampleDeps b + 156 * 64 \<le> boxValue b)"
proof -
  obtain outs where o: "validateTx sampleH sampleDeps rentTx sampleTxId 5 = Inr outs"
    using ok_result [OF rentTx_valid] by blast
  have "signatures rentTx = []" "idOf (CHR ''d'') \<in> set (inputs rentTx)" by (simp_all add: rentTx_def mkTx_def)
  moreover obtain b where "getBox sampleDeps (idOf (CHR ''d'')) = Some b"
    by (auto simp: sampleDeps_def sampleBoxes_def mkBox_def idOf_def)
  ultimately show ?thesis using rent_refuses_small_remainder [OF o] by blast
qed

end
