(* ===== verification/Overlay.thy ===== *)
theory Overlay
  imports Engine "HOL-Library.Product_Lexorder"
begin

text \<open>
  The block-local overlay (\<open>packages/consensus/src/overlay.ts\<close>) over the read-only
  state view (\<open>state-view.ts\<close>).  A \<open>Map\<close> of the source that is iterated is an
  association list in insertion order (\<open>AList.update\<close> is \<open>Map.set\<close>); the lists the
  source keeps per box type and per query key are filters of the inserted and
  spent boxes, which they index.  A byte field is a value here, so the copies of
  the source's \<open>readBack\<close> functions are the identity.
\<close>

section \<open>The state view\<close>

datatype postStanding = Live | Withdrawn | NoPost

record stateView =
  v_getBox :: "string \<Rightarrow> anyBox option"
  v_getBoxProvenance :: "string \<Rightarrow> (string \<times> int) option"
  v_getIdentityRecord :: "byte list \<Rightarrow> identityRecord option"
  v_getNetworkRecord :: networkRecord
  v_getUsername :: "string \<Rightarrow> usernameRow option"
  v_getUsernameByOwner :: "byte list \<Rightarrow> usernameRow option"
  v_getEmissionBox :: "anyBox option"
  v_getTreasuryBox :: "anyBox option"
  v_getKarmaPoolBox :: "anyBox option"
  v_getBackerPoolBox :: "anyBox option"
  v_getKarmaBoxes :: "byte list \<Rightarrow> anyBox list"
  v_getVouchEscrowsFor :: "byte list \<Rightarrow> anyBox list"
  v_getVouchBoxes :: "byte list \<Rightarrow> byte list \<Rightarrow> anyBox list"
  v_getLikeAccrualBoxes :: "byte list \<Rightarrow> anyBox list"
  v_getBondsInvitedAt :: "int \<Rightarrow> nat \<Rightarrow> anyBox list"
  v_getVouchEscrowsReleasableAt :: "int \<Rightarrow> nat \<Rightarrow> anyBox list"
  v_getLapsedVouches :: "nat \<Rightarrow> anyBox list"
  v_getTopologyAuthor :: "string \<Rightarrow> byte list option"
  v_getTopologyHeight :: "string \<Rightarrow> int option"
  v_getPostStanding :: "string \<Rightarrow> postStanding"
  v_hasLikeRecord :: "string \<Rightarrow> byte list \<Rightarrow> bool"

definition isLapsedMember :: "identityRecord option \<Rightarrow> bool" where
  "isLapsedMember rcd = (case rcd of None \<Rightarrow> False
     | Some r \<Rightarrow> memberSinceBlock r > 0 \<and> \<not> isMember r)"

section \<open>The overlay's state\<close>

record holderRecord =
  claimAvailable :: bool
  holder_boxId :: string

datatype blockMutation =
    BoxInsert string anyBox
  | BoxRemove string
  | RecordWrite "byte list" identityRecord
  | NetworkWrite networkRecord
  | UsernameWrite string "usernameRow option" bool
  | HolderWrite "byte list" "holderRecord option" bool

record overlay =
  view :: stateView
  mutations :: "blockMutation list"
  likeRecords :: "(string \<times> byte list) list"
  withdrawals :: "string list"
  inserted :: "(string \<times> anyBox) list"
  spent :: "(string \<times> anyBox) list"
  written :: "(string \<times> byte list \<times> identityRecord) list"
  network :: "networkRecord option"
  names :: "(string \<times> usernameRow option) list"
  holders :: "(string \<times> usernameRow option) list"
  topology :: "(string \<times> byte list \<times> int) list"
  confirmed :: "string list"
  withdrawn :: "string list"
  likes :: "string list"

definition newOverlay :: "stateView \<Rightarrow> overlay" where
  "newOverlay v = \<lparr>view = v, mutations = [], likeRecords = [], withdrawals = [], inserted = [],
     spent = [], written = [], network = None, names = [], holders = [], topology = [],
     confirmed = [], withdrawn = [], likes = []\<rparr>"

definition likeKey :: "string \<Rightarrow> byte list \<Rightarrow> string" where
  "likeKey targetPostId likerId = targetPostId @ '':'' @ bytesToHex likerId"

definition karmaKey :: "byte list \<Rightarrow> string" where
  "karmaKey owner = ''karma:'' @ bytesToHex owner"

definition escrowKey :: "byte list \<Rightarrow> string" where
  "escrowKey owner = ''escrow:'' @ bytesToHex owner"

definition vouchKey :: "byte list \<Rightarrow> byte list \<Rightarrow> string" where
  "vouchKey v g = ''vouch:'' @ bytesToHex v @ '':'' @ bytesToHex g"

definition accrualKey :: "byte list \<Rightarrow> string" where
  "accrualKey a = ''accrual:'' @ bytesToHex a"

definition composedKeyOf :: "anyBox \<Rightarrow> string option" where
  "composedKeyOf b = (case boxTail b of
     Karma owner _ \<Rightarrow> Some (karmaKey owner)
   | VouchEscrow owner _ \<Rightarrow> Some (escrowKey owner)
   | Vouch v g \<Rightarrow> Some (vouchKey v g)
   | LikeAccrual a \<Rightarrow> Some (accrualKey a)
   | _ \<Rightarrow> None)"

abbreviation has :: "(string \<times> 'a) list \<Rightarrow> string \<Rightarrow> bool" where
  "has m k \<equiv> map_of m k \<noteq> None"

section \<open>Keyed reads\<close>

definition o_getBox :: "overlay \<Rightarrow> string \<Rightarrow> anyBox option" where
  "o_getBox s i =
     (if has (spent s) i then None
      else case map_of (inserted s) i of Some b \<Rightarrow> Some b | None \<Rightarrow> v_getBox (view s) i)"

definition o_getBoxProvenance :: "overlay \<Rightarrow> string \<Rightarrow> (string \<times> int) option" where
  "o_getBoxProvenance s i =
     (if has (spent s) i then None
      else case map_of (inserted s) i of
        Some b \<Rightarrow> Some (boxTxId b, boxIndex b) | None \<Rightarrow> v_getBoxProvenance (view s) i)"

definition o_getIdentityRecord :: "overlay \<Rightarrow> byte list \<Rightarrow> identityRecord option" where
  "o_getIdentityRecord s k =
     (case map_of (written s) (bytesToHex k) of
        Some (_, r) \<Rightarrow> Some r | None \<Rightarrow> v_getIdentityRecord (view s) k)"

definition o_getNetworkRecord :: "overlay \<Rightarrow> networkRecord" where
  "o_getNetworkRecord s = (case network s of Some n \<Rightarrow> n | None \<Rightarrow> v_getNetworkRecord (view s))"

definition o_getUsername :: "overlay \<Rightarrow> string \<Rightarrow> usernameRow option" where
  "o_getUsername s n = (case map_of (names s) n of
     Some row \<Rightarrow> row | None \<Rightarrow> v_getUsername (view s) n)"

definition o_getUsernameByOwner :: "overlay \<Rightarrow> byte list \<Rightarrow> usernameRow option" where
  "o_getUsernameByOwner s k = (case map_of (holders s) (bytesToHex k) of
     Some row \<Rightarrow> row | None \<Rightarrow> v_getUsernameByOwner (view s) k)"

definition o_getTopologyAuthor :: "overlay \<Rightarrow> string \<Rightarrow> byte list option" where
  "o_getTopologyAuthor s p = (case v_getTopologyAuthor (view s) p of
     Some a \<Rightarrow> Some a | None \<Rightarrow> map_option fst (map_of (topology s) p))"

definition o_getTopologyHeight :: "overlay \<Rightarrow> string \<Rightarrow> int option" where
  "o_getTopologyHeight s p = (case v_getTopologyHeight (view s) p of
     Some h \<Rightarrow> Some h | None \<Rightarrow> map_option snd (map_of (topology s) p))"

definition o_getPostStanding :: "overlay \<Rightarrow> string \<Rightarrow> postStanding" where
  "o_getPostStanding s p =
     (if p \<in> set (withdrawn s) then Withdrawn
      else let standing = v_getPostStanding (view s) p in
           if standing = NoPost \<and> p \<in> set (confirmed s) then Live else standing)"

definition o_hasLikeRecord :: "overlay \<Rightarrow> string \<Rightarrow> byte list \<Rightarrow> bool" where
  "o_hasLikeRecord s p liker \<longleftrightarrow>
     likeKey p liker \<in> set (likes s) \<or> v_hasLikeRecord (view s) p liker"

section \<open>Composed queries\<close>

definition isSpent :: "overlay \<Rightarrow> anyBox \<Rightarrow> bool" where
  "isSpent s b \<longleftrightarrow> has (spent s) (boxId b)"

definition composedInserts :: "overlay \<Rightarrow> string \<Rightarrow> anyBox list" where
  "composedInserts s key = filter (\<lambda>b. composedKeyOf b = Some key) (map snd (inserted s))"

definition compose ::
    "overlay \<Rightarrow> anyBox list \<Rightarrow> string \<Rightarrow> (anyBox list \<Rightarrow> anyBox list) \<Rightarrow> anyBox list" where
  "compose s fromView key ord =
     (let kept = filter (\<lambda>b. \<not> isSpent s b) fromView;
          added = filter (\<lambda>b. \<not> isSpent s b) (composedInserts s key)
      in if added = [] then kept else ord (kept @ added))"

definition byValueDescThenId :: "anyBox list \<Rightarrow> anyBox list" where
  "byValueDescThenId bs = sort_key (\<lambda>b. (- boxValue b, boxId b)) bs"

definition byId :: "anyBox list \<Rightarrow> anyBox list" where
  "byId bs = sort_key boxId bs"

definition o_getKarmaBoxes :: "overlay \<Rightarrow> byte list \<Rightarrow> anyBox list" where
  "o_getKarmaBoxes s k = compose s (v_getKarmaBoxes (view s) k) (karmaKey k) byValueDescThenId"

definition o_getVouchEscrowsFor :: "overlay \<Rightarrow> byte list \<Rightarrow> anyBox list" where
  "o_getVouchEscrowsFor s k = compose s (v_getVouchEscrowsFor (view s) k) (escrowKey k) byId"

definition o_getVouchBoxes :: "overlay \<Rightarrow> byte list \<Rightarrow> byte list \<Rightarrow> anyBox list" where
  "o_getVouchBoxes s v g = compose s (v_getVouchBoxes (view s) v g) (vouchKey v g) byId"

definition o_getLikeAccrualBoxes :: "overlay \<Rightarrow> byte list \<Rightarrow> anyBox list" where
  "o_getLikeAccrualBoxes s k = compose s (v_getLikeAccrualBoxes (view s) k) (accrualKey k) byId"

section \<open>Limited queries\<close>

definition insertedOf :: "overlay \<Rightarrow> boxType \<Rightarrow> anyBox list" where
  "insertedOf s t = filter (\<lambda>b. boxTypeOf b = t) (map snd (inserted s))"

definition spentOf :: "overlay \<Rightarrow> boxType \<Rightarrow> anyBox list" where
  "spentOf s t = filter (\<lambda>b. boxTypeOf b = t) (map snd (spent s))"

definition touchedType :: "overlay \<Rightarrow> boxType \<Rightarrow> bool" where
  "touchedType s t \<longleftrightarrow> insertedOf s t \<noteq> [] \<or> spentOf s t \<noteq> []"

definition recordWritesMove :: "overlay \<Rightarrow> (identityRecord option \<Rightarrow> bool) \<Rightarrow> bool" where
  "recordWritesMove s inSet \<longleftrightarrow>
     list_ex (\<lambda>(_, k, r). inSet (Some r) \<noteq> inSet (v_getIdentityRecord (view s) k)) (written s)"

text \<open>\<open>throwIfWritten\<close>: the view's answer, or \<open>LimitedQueryAfterWriteError\<close>.\<close>
definition limited :: "bool \<Rightarrow> 'a \<Rightarrow> 'a res" where
  "limited wrote answer = (if wrote then Inl OtherErr else Inr answer)"

definition o_getEmissionBox :: "overlay \<Rightarrow> anyBox option res" where
  "o_getEmissionBox s = limited (touchedType s BT_emission) (v_getEmissionBox (view s))"

definition o_getTreasuryBox :: "overlay \<Rightarrow> anyBox option res" where
  "o_getTreasuryBox s = limited (touchedType s BT_treasury) (v_getTreasuryBox (view s))"

definition o_getKarmaPoolBox :: "overlay \<Rightarrow> anyBox option res" where
  "o_getKarmaPoolBox s = limited (touchedType s BT_karma_pool) (v_getKarmaPoolBox (view s))"

definition o_getBackerPoolBox :: "overlay \<Rightarrow> anyBox option res" where
  "o_getBackerPoolBox s = limited (touchedType s BT_backer_pool) (v_getBackerPoolBox (view s))"

definition o_getBondsInvitedAt :: "overlay \<Rightarrow> int \<Rightarrow> nat \<Rightarrow> anyBox list res" where
  "o_getBondsInvitedAt s maxInvitedAt lim =
     (let inSet = (\<lambda>r. case r of None \<Rightarrow> False
        | Some r \<Rightarrow> invitedAtBlock r > 0 \<and> invitedAtBlock r \<le> maxInvitedAt) in
      limited (spentOf s BT_bond \<noteq> [] \<or>
          list_ex (\<lambda>b. inSet (o_getIdentityRecord s (the (tail_invitee (boxTail b))))) (insertedOf s BT_bond) \<or>
          recordWritesMove s inSet)
        (v_getBondsInvitedAt (view s) maxInvitedAt lim))"

definition o_getVouchEscrowsReleasableAt :: "overlay \<Rightarrow> int \<Rightarrow> nat \<Rightarrow> anyBox list res" where
  "o_getVouchEscrowsReleasableAt s height lim =
     limited (spentOf s BT_vouch_escrow \<noteq> [] \<or>
         list_ex (\<lambda>b. the (tail_release (boxTail b)) \<le> height) (insertedOf s BT_vouch_escrow))
       (v_getVouchEscrowsReleasableAt (view s) height lim)"

definition o_getLapsedVouches :: "overlay \<Rightarrow> nat \<Rightarrow> anyBox list res" where
  "o_getLapsedVouches s lim =
     limited (spentOf s BT_vouch \<noteq> [] \<or>
         list_ex (\<lambda>b. isLapsedMember (o_getIdentityRecord s (the (tail_voucher (boxTail b))))) (insertedOf s BT_vouch) \<or>
         recordWritesMove s isLapsedMember)
       (v_getLapsedVouches (view s) lim)"

section \<open>Writes\<close>

definition o_insertBox :: "anyBox \<Rightarrow> overlay \<Rightarrow> overlay res" where
  "o_insertBox b s =
     (if has (inserted s) (boxId b) \<or> v_getBox (view s) (boxId b) \<noteq> None then Inl OtherErr
      else Inr (s\<lparr>inserted := inserted s @ [(boxId b, b)],
                  mutations := mutations s @ [BoxInsert (boxId b) b]\<rparr>))"

definition o_consumeBox :: "string \<Rightarrow> overlay \<Rightarrow> overlay res" where
  "o_consumeBox i s =
     (case (if has (spent s) i then None
            else case map_of (inserted s) i of Some b \<Rightarrow> Some b | None \<Rightarrow> v_getBox (view s) i) of
        None \<Rightarrow> Inl OtherErr
      | Some b \<Rightarrow> Inr (s\<lparr>spent := spent s @ [(i, b)], mutations := mutations s @ [BoxRemove i]\<rparr>))"

definition o_putIdentityRecord :: "byte list \<Rightarrow> identityRecord \<Rightarrow> overlay \<Rightarrow> overlay" where
  "o_putIdentityRecord k r s =
     s\<lparr>written := AList.update (bytesToHex k) (k, r) (written s),
       mutations := mutations s @ [RecordWrite k r]\<rparr>"

definition o_putNetworkRecord :: "networkRecord \<Rightarrow> overlay \<Rightarrow> overlay" where
  "o_putNetworkRecord n s = s\<lparr>network := Some n, mutations := mutations s @ [NetworkWrite n]\<rparr>"

definition o_putUsername :: "usernameRow \<Rightarrow> overlay \<Rightarrow> overlay res" where
  "o_putUsername row s =
     ebind (hexToBytes (row_owner row)) (\<lambda>owner.
     let nameHeld = o_getUsername s (nameLower row) \<noteq> None;
         holderHeld = o_getUsernameByOwner s owner \<noteq> None in
     Inr (s\<lparr>names := AList.update (nameLower row) (Some row) (names s),
            holders := AList.update (bytesToHex owner) (Some row) (holders s),
            mutations := mutations s @
              [UsernameWrite (nameLower row) (Some row) nameHeld,
               HolderWrite owner (Some \<lparr>claimAvailable = False, holder_boxId = row_boxId row\<rparr>) holderHeld]\<rparr>))"

definition o_deleteUsername :: "string \<Rightarrow> overlay \<Rightarrow> overlay res" where
  "o_deleteUsername n s =
     (case o_getUsername s n of
        None \<Rightarrow> Inr s
      | Some existing \<Rightarrow>
          ebind (hexToBytes (row_owner existing)) (\<lambda>owner.
          let holderHeld = o_getUsernameByOwner s owner \<noteq> None in
          Inr (s\<lparr>names := AList.update n None (names s),
                 holders := AList.update (bytesToHex owner) None (holders s),
                 mutations := mutations s @ [UsernameWrite n None True, HolderWrite owner None holderHeld]\<rparr>)))"

definition o_confirmPost :: "string \<Rightarrow> overlay \<Rightarrow> overlay" where
  "o_confirmPost p s = s\<lparr>confirmed := List.insert p (confirmed s)\<rparr>"

definition o_insertBlockTopology :: "string \<Rightarrow> byte list \<Rightarrow> int \<Rightarrow> overlay \<Rightarrow> overlay" where
  "o_insertBlockTopology p a h s =
     (if has (topology s) p then s else s\<lparr>topology := topology s @ [(p, a, h)]\<rparr>)"

definition o_withdrawPost :: "string \<Rightarrow> overlay \<Rightarrow> overlay" where
  "o_withdrawPost p s = s\<lparr>withdrawn := List.insert p (withdrawn s), withdrawals := withdrawals s @ [p]\<rparr>"

definition o_insertLikeRecord :: "string \<Rightarrow> byte list \<Rightarrow> overlay \<Rightarrow> overlay" where
  "o_insertLikeRecord p liker s =
     s\<lparr>likes := List.insert (likeKey p liker) (likes s), likeRecords := likeRecords s @ [(p, liker)]\<rparr>"

end
