(* ===== verification/OverlayLaws.thy ===== *)
theory OverlayLaws
  imports Overlay
begin

text \<open>
  The overlay refines a map of live boxes and a map of identity records: every
  keyed read and write of \<open>BlockOverlay\<close> is the read or write of those maps, a
  composed query lists exactly the live boxes under its key in the query's order,
  and a limited query that answers at all answers for the state as it stands.  The
  store interface of \<open>applyTx\<close> is interpreted on it here.
\<close>

section \<open>Well-formedness\<close>

definition overlay_wf :: "overlay \<Rightarrow> bool" where
  "overlay_wf s \<longleftrightarrow>
     finite (dom (v_getBox (view s))) \<and>
     (\<forall>i b. v_getBox (view s) i = Some b \<longrightarrow> boxId b = i) \<and>
     distinct (map fst (inserted s)) \<and>
     (\<forall>e\<in>set (inserted s). boxId (snd e) = fst e \<and> v_getBox (view s) (fst e) = None) \<and>
     (\<forall>e\<in>set (spent s). map_of (inserted s) (fst e) = Some (snd e) \<or>
        v_getBox (view s) (fst e) = Some (snd e)) \<and>
     (\<forall>e\<in>set (written s). fst e = bytesToHex (fst (snd e))) \<and>
     distinct (map fst (written s))"

lemma wf_spent: "overlay_wf s \<Longrightarrow> (i, b) \<in> set (spent s) \<Longrightarrow>
    map_of (inserted s) i = Some b \<or> v_getBox (view s) i = Some b"
  by (auto simp: overlay_wf_def)

lemma wf_inserted: "overlay_wf s \<Longrightarrow> map_of (inserted s) i = Some b \<Longrightarrow>
    boxId b = i \<and> v_getBox (view s) i = None"
  by (auto simp: overlay_wf_def dest!: map_of_SomeD)

lemma wf_view: "overlay_wf s \<Longrightarrow> v_getBox (view s) i = Some b \<Longrightarrow> boxId b = i"
  by (simp add: overlay_wf_def)

lemma map_of_has: "has m k \<longleftrightarrow> k \<in> fst ` set m"
  by (simp add: map_of_eq_None_iff)

lemma overlay_live_id: "overlay_wf s \<Longrightarrow> o_getBox s i = Some b \<Longrightarrow> boxId b = i"
  by (fastforce simp: overlay_wf_def o_getBox_def split: if_splits option.splits dest: map_of_SomeD)

lemma overlay_finite: "overlay_wf s \<Longrightarrow> finite (dom (o_getBox s))"
proof -
  assume wf: "overlay_wf s"
  have "dom (o_getBox s) \<subseteq> fst ` set (inserted s) \<union> dom (v_getBox (view s))"
    by (auto simp: o_getBox_def split: if_splits option.splits dest!: map_of_SomeD)
      (metis fst_conv image_eqI)
  moreover have "finite (dom (v_getBox (view s)))" using wf by (simp add: overlay_wf_def)
  ultimately show ?thesis by (auto intro: finite_subset)
qed

lemma consume_wf:
  assumes wf: "overlay_wf s" and ok: "o_consumeBox i s = Inr s'"
  shows "overlay_wf s'" "o_getBox s i \<noteq> None" "o_getBox s' = (o_getBox s)(i := None)"
    "o_getIdentityRecord s' = o_getIdentityRecord s"
proof -
  obtain b where b: "o_getBox s i = Some b"
      and s': "s' = s\<lparr>spent := spent s @ [(i, b)], mutations := mutations s @ [BoxRemove i]\<rparr>"
    using ok by (auto simp: o_consumeBox_def o_getBox_def split: option.splits if_splits)
  show "o_getBox s i \<noteq> None" using b by simp
  show "o_getBox s' = (o_getBox s)(i := None)"
    by (auto simp: s' o_getBox_def fun_eq_iff map_add_def split: option.splits)
  show "o_getIdentityRecord s' = o_getIdentityRecord s"
    by (simp add: s' o_getIdentityRecord_def fun_eq_iff cong: option.case_cong)
  have "map_of (inserted s) i = Some b \<or> v_getBox (view s) i = Some b"
    using b by (auto simp: o_getBox_def split: if_splits option.splits)
  then show "overlay_wf s'" using wf by (auto simp: overlay_wf_def s')
qed

lemma insert_wf:
  assumes wf: "overlay_wf s" and ok: "o_insertBox b s = Inr s'"
  shows "overlay_wf s'" "o_getBox s (boxId b) = None" "o_getBox s' = (o_getBox s)(boxId b \<mapsto> b)"
    "o_getIdentityRecord s' = o_getIdentityRecord s"
proof -
  have n: "map_of (inserted s) (boxId b) = None" "v_getBox (view s) (boxId b) = None"
    and s': "s' = s\<lparr>inserted := inserted s @ [(boxId b, b)], mutations := mutations s @ [BoxInsert (boxId b) b]\<rparr>"
    using ok by (auto simp: o_insertBox_def split: if_splits)
  have ns: "map_of (spent s) (boxId b) = None"
  proof (rule ccontr)
    assume "map_of (spent s) (boxId b) \<noteq> None"
    then obtain c where "(boxId b, c) \<in> set (spent s)" by (metis not_Some_eq map_of_SomeD)
    then show False using wf n by (fastforce simp: overlay_wf_def)
  qed
  show "o_getBox s (boxId b) = None" using n by (simp add: o_getBox_def)
  show "o_getBox s' = (o_getBox s)(boxId b \<mapsto> b)"
    using n ns by (auto simp: s' o_getBox_def fun_eq_iff map_add_def split: option.splits)
  show "o_getIdentityRecord s' = o_getIdentityRecord s"
    by (simp add: s' o_getIdentityRecord_def fun_eq_iff cong: option.case_cong)
  have "boxId b \<notin> fst ` set (inserted s)" using n(1) by (simp add: map_of_eq_None_iff)
  then show "overlay_wf s'" using wf n by (fastforce simp: overlay_wf_def s' map_add_def split: option.splits)
qed

lemma put_wf:
  assumes wf: "overlay_wf s"
  shows "overlay_wf (o_putIdentityRecord k r s)"
    "o_getBox (o_putIdentityRecord k r s) = o_getBox s"
    "o_getIdentityRecord (o_putIdentityRecord k r s) = (o_getIdentityRecord s)(k \<mapsto> r)"
proof -
  let ?w = "AList.update (bytesToHex k) (k, r) (written s)"
  have d: "distinct (map fst ?w)" using wf by (simp add: overlay_wf_def distinct_update)
  have "fst e = bytesToHex (fst (snd e))" if "e \<in> set ?w" for e
  proof -
    have "map_of ?w (fst e) = Some (snd e)"
      using that by (intro map_of_is_SomeI [OF d]) simp
    then have "fst e = bytesToHex k \<and> snd e = (k, r) \<or> map_of (written s) (fst e) = Some (snd e)"
      by (auto simp: update_conv split: if_splits)
    then show ?thesis
      using wf by (auto simp: overlay_wf_def dest!: map_of_SomeD)
  qed
  then show "overlay_wf (o_putIdentityRecord k r s)"
    using wf by (auto simp: overlay_wf_def o_putIdentityRecord_def distinct_update)
  show "o_getBox (o_putIdentityRecord k r s) = o_getBox s"
    by (simp add: o_putIdentityRecord_def o_getBox_def fun_eq_iff cong: option.case_cong)
  show "o_getIdentityRecord (o_putIdentityRecord k r s) = (o_getIdentityRecord s)(k \<mapsto> r)"
    by (auto simp: o_putIdentityRecord_def o_getIdentityRecord_def fun_eq_iff update_conv
        cong: option.case_cong)
qed

definition overlayStore :: "overlay utxo_store" where
  "overlayStore = \<lparr>st_getBox = o_getBox, st_getIdentityRecord = o_getIdentityRecord,
     st_consumeBox = (\<lambda>i _. o_consumeBox i), st_insertBox = o_insertBox,
     st_putIdentityRecord = o_putIdentityRecord\<rparr>"

interpretation ovl: ledger_store overlayStore overlay_wf
  by unfold_locales (auto simp: overlayStore_def overlay_finite
      dest: consume_wf insert_wf put_wf)

section \<open>What a state view answers\<close>

definition listsLive :: "live \<Rightarrow> (anyBox \<Rightarrow> bool) \<Rightarrow> anyBox list \<Rightarrow> bool" where
  "listsLive m P bs \<longleftrightarrow> distinct bs \<and> set bs = {b. P b \<and> (\<exists>i. m i = Some b)}"

text \<open>The contract of \<open>StateView\<close>: a box is filed under its id, and an unlimited
  query lists every live box under its key, in the query's order.\<close>
definition view_ok :: "stateView \<Rightarrow> bool" where
  "view_ok v \<longleftrightarrow>
     finite (dom (v_getBox v)) \<and>
     (\<forall>i b. v_getBox v i = Some b \<longrightarrow> boxId b = i) \<and>
     (\<forall>k. listsLive (v_getBox v) (\<lambda>b. composedKeyOf b = Some (karmaKey k)) (v_getKarmaBoxes v k) \<and>
        sorted (map (\<lambda>b. (- boxValue b, boxId b)) (v_getKarmaBoxes v k))) \<and>
     (\<forall>k. listsLive (v_getBox v) (\<lambda>b. composedKeyOf b = Some (escrowKey k)) (v_getVouchEscrowsFor v k)) \<and>
     (\<forall>k g. listsLive (v_getBox v) (\<lambda>b. composedKeyOf b = Some (vouchKey k g)) (v_getVouchBoxes v k g)) \<and>
     (\<forall>k. listsLive (v_getBox v) (\<lambda>b. composedKeyOf b = Some (accrualKey k)) (v_getLikeAccrualBoxes v k))"

text \<open>A view that answers from a list of boxes.\<close>
definition listView :: "anyBox list \<Rightarrow> stateView" where
  "listView bs = (let under = (\<lambda>key. filter (\<lambda>b. composedKeyOf b = Some key) bs) in
     \<lparr>v_getBox = map_of (map (\<lambda>b. (boxId b, b)) bs),
      v_getBoxProvenance = map_of (map (\<lambda>b. (boxId b, boxTxId b, boxIndex b)) bs),
      v_getIdentityRecord = (\<lambda>_. None), v_getNetworkRecord = \<lparr>memberCount = 0\<rparr>,
      v_getUsername = (\<lambda>_. None), v_getUsernameByOwner = (\<lambda>_. None),
      v_getEmissionBox = List.find (\<lambda>b. boxTypeOf b = BT_emission) bs,
      v_getTreasuryBox = List.find (\<lambda>b. boxTypeOf b = BT_treasury) bs,
      v_getKarmaPoolBox = List.find (\<lambda>b. boxTypeOf b = BT_karma_pool) bs,
      v_getBackerPoolBox = List.find (\<lambda>b. boxTypeOf b = BT_backer_pool) bs,
      v_getKarmaBoxes = (\<lambda>k. byValueDescThenId (under (karmaKey k))),
      v_getVouchEscrowsFor = (\<lambda>k. byId (under (escrowKey k))),
      v_getVouchBoxes = (\<lambda>k g. byId (under (vouchKey k g))),
      v_getLikeAccrualBoxes = (\<lambda>k. byId (under (accrualKey k))),
      v_getBondsInvitedAt = (\<lambda>_ _. []), v_getVouchEscrowsReleasableAt = (\<lambda>_ _. []),
      v_getLapsedVouches = (\<lambda>_. []), v_getTopologyAuthor = (\<lambda>_. None), v_getTopologyHeight = (\<lambda>_. None),
      v_getPostStanding = (\<lambda>_. NoPost), v_hasLikeRecord = (\<lambda>_ _. False)\<rparr>)"

lemma listView_live:
  assumes "distinct (map boxId bs)"
  shows "(\<exists>i. map_of (map (\<lambda>b. (boxId b, b)) bs) i = Some b) \<longleftrightarrow> b \<in> set bs"
proof
  assume "\<exists>i. map_of (map (\<lambda>b. (boxId b, b)) bs) i = Some b"
  then show "b \<in> set bs" by (auto dest: map_of_SomeD)
next
  assume "b \<in> set bs"
  moreover have "distinct (map fst (map (\<lambda>b. (boxId b, b)) bs))" using assms by (simp add: comp_def)
  ultimately have "map_of (map (\<lambda>b. (boxId b, b)) bs) (boxId b) = Some b"
    by (intro map_of_is_SomeI) auto
  then show "\<exists>i. map_of (map (\<lambda>b. (boxId b, b)) bs) i = Some b" by blast
qed

lemma listView_reads:
  "v_getBox (listView bs) = map_of (map (\<lambda>b. (boxId b, b)) bs)"
  "v_getKarmaBoxes (listView bs) k = byValueDescThenId (filter (\<lambda>b. composedKeyOf b = Some (karmaKey k)) bs)"
  "v_getVouchEscrowsFor (listView bs) k = byId (filter (\<lambda>b. composedKeyOf b = Some (escrowKey k)) bs)"
  "v_getVouchBoxes (listView bs) k g = byId (filter (\<lambda>b. composedKeyOf b = Some (vouchKey k g)) bs)"
  "v_getLikeAccrualBoxes (listView bs) k = byId (filter (\<lambda>b. composedKeyOf b = Some (accrualKey k)) bs)"
  "v_getIdentityRecord (listView bs) k = None"
  by (simp_all add: listView_def Let_def)

lemma listView_ok:
  assumes "distinct (map boxId bs)"
  shows "view_ok (listView bs)"
proof -
  have d: "distinct bs" using assms by (simp add: distinct_map)
  let ?m = "map_of (map (\<lambda>b. (boxId b, b)) bs)"
  have l: "listsLive ?m (\<lambda>b. composedKeyOf b = Some key) (byValueDescThenId (filter (\<lambda>b. composedKeyOf b = Some key) bs))"
    "listsLive ?m (\<lambda>b. composedKeyOf b = Some key) (byId (filter (\<lambda>b. composedKeyOf b = Some key) bs))" for key
    using d by (auto simp: listsLive_def listView_live [OF assms] byValueDescThenId_def byId_def)
  have s: "sorted (map (\<lambda>b. (- boxValue b, boxId b)) (byValueDescThenId xs))" for xs
    unfolding byValueDescThenId_def by (rule sorted_sort_key)
  have f: "finite (dom ?m)" by (simp add: finite_dom_map_of)
  have i: "\<forall>i b. ?m i = Some b \<longrightarrow> boxId b = i" by (auto dest!: map_of_SomeD)
  show ?thesis
    unfolding view_ok_def listView_reads using f i l s by blast
qed

lemma newOverlay_wf: "view_ok v \<Longrightarrow> overlay_wf (newOverlay v)"
  by (simp add: overlay_wf_def newOverlay_def view_ok_def)

lemma newOverlay_reads:
  "o_getBox (newOverlay v) = v_getBox v" "o_getIdentityRecord (newOverlay v) = v_getIdentityRecord v"
  by (simp_all add: newOverlay_def o_getBox_def o_getIdentityRecord_def fun_eq_iff)

section \<open>Composed queries\<close>

lemma overlay_live_cases:
  assumes wf: "overlay_wf s"
  shows "(\<exists>i. o_getBox s i = Some b) \<longleftrightarrow>
    \<not> isSpent s b \<and> (b \<in> snd ` set (inserted s) \<or> (\<exists>i. v_getBox (view s) i = Some b))"
proof
  assume "\<exists>i. o_getBox s i = Some b"
  then obtain i where i: "o_getBox s i = Some b" by blast
  then have "boxId b = i" by (rule overlay_live_id [OF wf])
  then show "\<not> isSpent s b \<and> (b \<in> snd ` set (inserted s) \<or> (\<exists>i. v_getBox (view s) i = Some b))"
    using i by (auto simp: isSpent_def o_getBox_def split: if_splits option.splits dest!: map_of_SomeD)
      (metis image_eqI snd_conv)
next
  assume r: "\<not> isSpent s b \<and> (b \<in> snd ` set (inserted s) \<or> (\<exists>i. v_getBox (view s) i = Some b))"
  then have ns: "map_of (spent s) (boxId b) = None" by (simp add: isSpent_def)
  from r show "\<exists>i. o_getBox s i = Some b"
  proof (elim conjE disjE)
    assume "b \<in> snd ` set (inserted s)"
    then have "(boxId b, b) \<in> set (inserted s)" using wf by (auto simp: overlay_wf_def)
    then have "map_of (inserted s) (boxId b) = Some b"
      using wf by (intro map_of_is_SomeI) (auto simp: overlay_wf_def)
    then show ?thesis using ns by (intro exI [of _ "boxId b"]) (simp add: o_getBox_def)
  next
    assume "\<exists>i. v_getBox (view s) i = Some b"
    then obtain i where i: "v_getBox (view s) i = Some b" by blast
    then have "i = boxId b" using wf by (auto simp: overlay_wf_def)
    moreover have "map_of (inserted s) i = None"
    proof (rule ccontr)
      assume "map_of (inserted s) i \<noteq> None"
      then obtain c where "(i, c) \<in> set (inserted s)" by (metis not_Some_eq map_of_SomeD)
      then show False using wf i by (fastforce simp: overlay_wf_def)
    qed
    ultimately show ?thesis using ns i by (intro exI [of _ i]) (simp add: o_getBox_def)
  qed
qed

text \<open>A composed query lists the live boxes under its key, each once.\<close>
lemma compose_live:
  assumes wf: "overlay_wf s"
    and l: "listsLive (v_getBox (view s)) (\<lambda>b. composedKeyOf b = Some key) fv"
    and perm: "\<And>xs. mset (ord xs) = mset xs"
  shows "listsLive (o_getBox s) (\<lambda>b. composedKeyOf b = Some key) (compose s fv key ord)"
proof -
  let ?kept = "filter (\<lambda>b. \<not> isSpent s b) fv"
  let ?added = "filter (\<lambda>b. \<not> isSpent s b) (composedInserts s key)"
  have m: "mset (compose s fv key ord) = mset (?kept @ ?added)"
    by (cases "?added = []") (simp_all add: compose_def Let_def perm)
  have d1: "distinct fv" using l by (simp add: listsLive_def)
  have "map (\<lambda>e. boxId (snd e)) (inserted s) = map fst (inserted s)"
    using wf by (intro map_cong) (auto simp: overlay_wf_def)
  then have "distinct (map (\<lambda>e. boxId (snd e)) (inserted s))"
    using wf by (simp only:) (simp add: overlay_wf_def)
  then have "distinct (map boxId (map snd (inserted s)))" by (simp add: comp_def)
  then have d2: "distinct (map snd (inserted s))" by (simp only: distinct_map)
  have disj: "b \<notin> snd ` set (inserted s)" if "b \<in> set fv" for b
    using that wf l by (fastforce simp: overlay_wf_def listsLive_def)
  have "distinct (?kept @ ?added)"
    using d1 d2 disj by (auto simp: composedInserts_def)
  then have "distinct (compose s fv key ord)" using m by (metis mset_eq_imp_distinct_iff)
  moreover have "set (compose s fv key ord) = {b. composedKeyOf b = Some key \<and> (\<exists>i. o_getBox s i = Some b)}"
  proof -
    have "set (compose s fv key ord) = set (?kept @ ?added)" using m by (metis set_mset_mset)
    also have "\<dots> = {b. composedKeyOf b = Some key \<and> (\<exists>i. o_getBox s i = Some b)}"
      using l by (auto simp: overlay_live_cases [OF wf] listsLive_def composedInserts_def)
    finally show ?thesis .
  qed
  ultimately show ?thesis by (simp add: listsLive_def)
qed


lemma HEX_no_colon: "n < 16 \<Longrightarrow> HEX ! n \<noteq> CHR '':''"
proof -
  assume "n < 16"
  then have "HEX ! n \<in> set HEX" by (intro nth_mem) (simp add: HEX_def)
  then show ?thesis by (auto simp: HEX_def)
qed

lemma bytesToHex_no_colon: "CHR '':'' \<notin> set (bytesToHex bs)"
proof (induction bs)
  case (Cons b bs)
  have "uint b div 16 < 16" using byte_uint_range [of b] by linarith
  then have n: "nat (uint (drop_bit 4 b)) < 16" "nat (uint (b AND 15)) < 16"
    by (simp_all add: nibbles)
  note h = HEX_no_colon [OF n(1)] HEX_no_colon [OF n(2)]
  show ?case using Cons h h [symmetric] by (simp add: bytesToHex_def)
qed (simp add: bytesToHex_def)

lemma split_at_colon:
  "CHR '':'' \<notin> set a \<Longrightarrow> CHR '':'' \<notin> set a' \<Longrightarrow>
    a @ CHR '':'' # b = a' @ CHR '':'' # b' \<longleftrightarrow> a = a' \<and> b = b'"
proof (induction a arbitrary: a')
  case Nil
  then show ?case by (cases a') auto
next
  case (Cons c a)
  then show ?case by (cases a') auto
qed

lemma composedKey_inject [simp]:
  "composedKeyOf b = Some (karmaKey k) \<longleftrightarrow> (\<exists>inc. boxTail b = Karma k inc)"
  "composedKeyOf b = Some (escrowKey k) \<longleftrightarrow> (\<exists>h. boxTail b = VouchEscrow k h)"
  "composedKeyOf b = Some (accrualKey k) \<longleftrightarrow> boxTail b = LikeAccrual k"
  "composedKeyOf b = Some (vouchKey k g) \<longleftrightarrow> boxTail b = Vouch k g"
  by (cases "boxTail b"; auto simp: composedKeyOf_def karmaKey_def escrowKey_def accrualKey_def vouchKey_def
      bytesToHex_no_colon split_at_colon)+

text \<open>C10: the composed queries are exact: in every well-formed overlay over a view
  that answers its contract, the karma boxes of an owner (by descending value, then
  id), the escrows of a voucher, the vouches of a pair and the accruals of an author
  are the live boxes of that kind, each once.\<close>
theorem composed_queries_exact:
  assumes "overlay_wf s" "view_ok (view s)"
  shows "(distinct (o_getKarmaBoxes s k) \<and>
      set (o_getKarmaBoxes s k) = {b. (\<exists>inc. boxTail b = Karma k inc) \<and> (\<exists>i. o_getBox s i = Some b)} \<and>
      sorted (map (\<lambda>b. (- boxValue b, boxId b)) (o_getKarmaBoxes s k))) \<and>
    (distinct (o_getVouchEscrowsFor s k) \<and>
      set (o_getVouchEscrowsFor s k) = {b. (\<exists>h. boxTail b = VouchEscrow k h) \<and> (\<exists>i. o_getBox s i = Some b)}) \<and>
    (distinct (o_getVouchBoxes s k g) \<and>
      set (o_getVouchBoxes s k g) = {b. boxTail b = Vouch k g \<and> (\<exists>i. o_getBox s i = Some b)}) \<and>
    (distinct (o_getLikeAccrualBoxes s k) \<and>
      set (o_getLikeAccrualBoxes s k) = {b. boxTail b = LikeAccrual k \<and> (\<exists>i. o_getBox s i = Some b)})"
proof -
  have perm: "mset (byValueDescThenId xs) = mset xs" "mset (byId xs) = mset xs" for xs
    by (simp_all add: byValueDescThenId_def byId_def)
  have v: "listsLive (v_getBox (view s)) (\<lambda>b. composedKeyOf b = Some (karmaKey k)) (v_getKarmaBoxes (view s) k)"
    "sorted (map (\<lambda>b. (- boxValue b, boxId b)) (v_getKarmaBoxes (view s) k))"
    "listsLive (v_getBox (view s)) (\<lambda>b. composedKeyOf b = Some (escrowKey k)) (v_getVouchEscrowsFor (view s) k)"
    "listsLive (v_getBox (view s)) (\<lambda>b. composedKeyOf b = Some (vouchKey k g)) (v_getVouchBoxes (view s) k g)"
    "listsLive (v_getBox (view s)) (\<lambda>b. composedKeyOf b = Some (accrualKey k)) (v_getLikeAccrualBoxes (view s) k)"
    using assms(2) unfolding view_ok_def by blast+
  note c = compose_live [OF assms(1)]
  have "sorted (map (\<lambda>b. (- boxValue b, boxId b)) (o_getKarmaBoxes s k))"
  proof (cases "filter (\<lambda>b. \<not> isSpent s b) (composedInserts s (karmaKey k)) = []")
    case True
    then show ?thesis using v(2) by (simp add: o_getKarmaBoxes_def compose_def Let_def sorted_filter)
  next
    case False
    then show ?thesis by (simp add: o_getKarmaBoxes_def compose_def Let_def byValueDescThenId_def)
  qed
  then show ?thesis
    using c [OF v(1) perm(1)] c [OF v(3) perm(2)] c [OF v(4) perm(2)] c [OF v(5) perm(2)]
    by (simp add: listsLive_def o_getKarmaBoxes_def o_getVouchEscrowsFor_def o_getVouchBoxes_def
        o_getLikeAccrualBoxes_def)
qed

definition sampleLive :: "anyBox list" where
  "sampleLive =
     [\<lparr>boxValue = 40, createdAtBlock = 1, boxTail = Karma (replicate 32 1) False, boxId = ''a'', boxTxId = ''t'', boxIndex = 0\<rparr>,
      \<lparr>boxValue = 1, createdAtBlock = 1, boxTail = Vouch (replicate 32 1) (replicate 32 2), boxId = ''b'', boxTxId = ''t'', boxIndex = 1\<rparr>]"

lemma sampleLive_ok: "view_ok (listView sampleLive)"
  by (rule listView_ok) (simp add: sampleLive_def)

lemma composed_queries_exact_witness:
  "set (o_getVouchBoxes (newOverlay (listView sampleLive)) (replicate 32 1) (replicate 32 2)) = {sampleLive ! 1}"
proof -
  have v: "view_ok (view (newOverlay (listView sampleLive)))" using sampleLive_ok by (simp add: newOverlay_def)
  note e = composed_queries_exact [OF newOverlay_wf [OF sampleLive_ok] v, of "replicate 32 1" "replicate 32 2"]
  have "(\<exists>i. o_getBox (newOverlay (listView sampleLive)) i = Some b) \<longleftrightarrow> b \<in> set sampleLive" for b
    unfolding newOverlay_reads listView_reads
    by (rule listView_live) (simp add: sampleLive_def)
  then have "set (o_getVouchBoxes (newOverlay (listView sampleLive)) (replicate 32 1) (replicate 32 2)) =
      {b. boxTail b = Vouch (replicate 32 1) (replicate 32 2) \<and> b \<in> set sampleLive}"
    using e by (simp only:)
  also have "\<dots> = {sampleLive ! 1}" by (auto simp: sampleLive_def)
  finally show ?thesis .
qed

section \<open>Limited queries\<close>

lemma isSpent_type:
  assumes "overlay_wf s" "isSpent s b" "\<exists>i. v_getBox (view s) i = Some b"
  shows "b \<in> snd ` set (spent s)"
proof -
  obtain c where c: "(boxId b, c) \<in> set (spent s)"
    using assms(2) by (auto simp: isSpent_def) (metis map_of_SomeD)
  obtain i where i: "v_getBox (view s) i = Some b" using assms(3) by blast
  then have bi: "boxId b = i" by (rule wf_view [OF assms(1)])
  have "map_of (inserted s) i = None"
    using wf_inserted [OF assms(1), of i] i by (cases "map_of (inserted s) i") auto
  then have "c = b" using wf_spent [OF assms(1) c] i bi by auto
  then show ?thesis using c by (metis image_eqI snd_conv)
qed

text \<open>A set of boxes no spend and no insert touched is the view's.\<close>
lemma untouched_set:
  assumes wf: "overlay_wf s"
    and sp: "\<And>b. b \<in> snd ` set (spent s) \<Longrightarrow> \<not> Q b"
    and ins: "\<And>b. b \<in> snd ` set (inserted s) \<Longrightarrow> \<not> P b"
    and pq: "\<And>b. P b \<Longrightarrow> Q b"
  shows "{b. P b \<and> (\<exists>i. o_getBox s i = Some b)} = {b. P b \<and> (\<exists>i. v_getBox (view s) i = Some b)}"
  using overlay_live_cases [OF wf] isSpent_type [OF wf] sp ins pq by blast

lemma records_unmoved:
  assumes wf: "overlay_wf s" and n: "\<not> recordWritesMove s inSet"
  shows "inSet (o_getIdentityRecord s k) = inSet (v_getIdentityRecord (view s) k)"
proof (cases "map_of (written s) (bytesToHex k)")
  case None
  then show ?thesis by (simp add: o_getIdentityRecord_def)
next
  case (Some kr)
  obtain k' r where kr: "kr = (k', r)" by (cases kr)
  have m: "(bytesToHex k, k', r) \<in> set (written s)" using Some kr by (auto dest: map_of_SomeD)
  then have "k' = k" using wf by (fastforce simp: overlay_wf_def)
  then show ?thesis using n m Some kr by (auto simp: recordWritesMove_def list_ex_iff o_getIdentityRecord_def)
qed

definition bondDue :: "(byte list \<Rightarrow> identityRecord option) \<Rightarrow> int \<Rightarrow> anyBox \<Rightarrow> bool" where
  "bondDue recs maxInvitedAt b \<longleftrightarrow> (case boxTail b of
     Bond _ invitee \<Rightarrow> (case recs invitee of None \<Rightarrow> False
       | Some r \<Rightarrow> invitedAtBlock r > 0 \<and> invitedAtBlock r \<le> maxInvitedAt) | _ \<Rightarrow> False)"

definition escrowDue :: "int \<Rightarrow> anyBox \<Rightarrow> bool" where
  "escrowDue height b \<longleftrightarrow> (case boxTail b of VouchEscrow _ h \<Rightarrow> h \<le> height | _ \<Rightarrow> False)"

definition vouchLapsed :: "(byte list \<Rightarrow> identityRecord option) \<Rightarrow> anyBox \<Rightarrow> bool" where
  "vouchLapsed recs b \<longleftrightarrow> (case boxTail b of Vouch v _ \<Rightarrow> isLapsedMember (recs v) | _ \<Rightarrow> False)"

definition liveWhere :: "live \<Rightarrow> (anyBox \<Rightarrow> bool) \<Rightarrow> anyBox set" where
  "liveWhere m P = {b. P b \<and> (\<exists>i. m i = Some b)}"

text \<open>the tripwire is sound: whenever a limited query answers instead of
  throwing, the set it cuts from (the live boxes of a protocol type, the bonds whose
  invitee's record is in range, the escrows due, the vouches of lapsed members) is
  the same over the block's writes as over the view, and the answer is the view's.\<close>
theorem limited_queries_sound:
  assumes "overlay_wf s"
  shows "(\<forall>r. o_getEmissionBox s = Inr r \<longrightarrow> r = v_getEmissionBox (view s) \<and>
      liveWhere (o_getBox s) (\<lambda>b. boxTypeOf b = BT_emission) =
        liveWhere (v_getBox (view s)) (\<lambda>b. boxTypeOf b = BT_emission)) \<and>
    (\<forall>m n r. o_getBondsInvitedAt s m n = Inr r \<longrightarrow> r = v_getBondsInvitedAt (view s) m n \<and>
      liveWhere (o_getBox s) (bondDue (o_getIdentityRecord s) m) =
        liveWhere (v_getBox (view s)) (bondDue (v_getIdentityRecord (view s)) m)) \<and>
    (\<forall>h n r. o_getVouchEscrowsReleasableAt s h n = Inr r \<longrightarrow> r = v_getVouchEscrowsReleasableAt (view s) h n \<and>
      liveWhere (o_getBox s) (escrowDue h) = liveWhere (v_getBox (view s)) (escrowDue h)) \<and>
    (\<forall>n r. o_getLapsedVouches s n = Inr r \<longrightarrow> r = v_getLapsedVouches (view s) n \<and>
      liveWhere (o_getBox s) (vouchLapsed (o_getIdentityRecord s)) =
        liveWhere (v_getBox (view s)) (vouchLapsed (v_getIdentityRecord (view s))))"
proof -
  note u = untouched_set [OF assms, folded liveWhere_def]
  have none: "\<And>b. b \<in> snd ` set (spent s) \<Longrightarrow> boxTypeOf b \<noteq> t" if "spentOf s t = []" for t
    using that by (auto simp: spentOf_def filter_empty_conv)
  have em: "liveWhere (o_getBox s) (\<lambda>b. boxTypeOf b = BT_emission) =
        liveWhere (v_getBox (view s)) (\<lambda>b. boxTypeOf b = BT_emission)" if "o_getEmissionBox s = Inr r" for r
    by (rule u [where Q = "\<lambda>b. boxTypeOf b = BT_emission"])
      (use that in \<open>auto simp: o_getEmissionBox_def limited_def touchedType_def spentOf_def insertedOf_def
        filter_empty_conv split: if_splits\<close>)
  have bd: "liveWhere (o_getBox s) (bondDue (o_getIdentityRecord s) m) =
        liveWhere (v_getBox (view s)) (bondDue (v_getIdentityRecord (view s)) m)"
    if q: "o_getBondsInvitedAt s m n = Inr r" for m n r
  proof -
    let ?in = "\<lambda>r. case r of None \<Rightarrow> False | Some r \<Rightarrow> invitedAtBlock r > 0 \<and> invitedAtBlock r \<le> m"
    have q: "spentOf s BT_bond = []"
      "\<not> list_ex (\<lambda>b. ?in (o_getIdentityRecord s (the (tail_invitee (boxTail b))))) (insertedOf s BT_bond)"
      "\<not> recordWritesMove s ?in"
      using q by (auto simp: o_getBondsInvitedAt_def Let_def limited_def split: if_splits)
    have eq: "bondDue (o_getIdentityRecord s) m = bondDue (v_getIdentityRecord (view s)) m"
      using records_unmoved [OF assms q(3)] by (intro ext) (auto simp: bondDue_def split: boxTail.splits)
    have t: "boxTypeOf b = BT_bond" if "bondDue recs m b" for recs b
      using that by (cases "boxTail b") (auto simp: bondDue_def)
    show ?thesis unfolding eq [symmetric]
    proof (rule u [where Q = "\<lambda>b. boxTypeOf b = BT_bond"])
      fix b assume b: "b \<in> snd ` set (inserted s)"
      show "\<not> bondDue (o_getIdentityRecord s) m b"
      proof
        assume d: "bondDue (o_getIdentityRecord s) m b"
        then have "b \<in> set (insertedOf s BT_bond)" using b t [OF d] by (auto simp: insertedOf_def)
        moreover have "?in (o_getIdentityRecord s (the (tail_invitee (boxTail b))))"
          using d by (cases "boxTail b") (auto simp: bondDue_def tail_invitee_def)
        ultimately show False using q(2) unfolding list_ex_iff by blast
      qed
    qed (simp_all add: none [OF q(1)] t [of "o_getIdentityRecord s"])
  qed
  have es: "liveWhere (o_getBox s) (escrowDue h) = liveWhere (v_getBox (view s)) (escrowDue h)"
    if q: "o_getVouchEscrowsReleasableAt s h n = Inr r" for h n r
  proof -
    have q: "spentOf s BT_vouch_escrow = []"
      "\<not> list_ex (\<lambda>b. the (tail_release (boxTail b)) \<le> h) (insertedOf s BT_vouch_escrow)"
      using q by (auto simp: o_getVouchEscrowsReleasableAt_def limited_def split: if_splits)
    have t: "boxTypeOf b = BT_vouch_escrow \<and> the (tail_release (boxTail b)) \<le> h" if "escrowDue h b" for b
      using that by (cases "boxTail b") (auto simp: escrowDue_def tail_release_def)
    show ?thesis
    proof (rule u [where Q = "\<lambda>b. boxTypeOf b = BT_vouch_escrow"])
      fix b assume b: "b \<in> snd ` set (inserted s)"
      show "\<not> escrowDue h b"
      proof
        assume d: "escrowDue h b"
        then have "b \<in> set (insertedOf s BT_vouch_escrow)" using b t [OF d] by (auto simp: insertedOf_def)
        then show False using q(2) t [OF d] unfolding list_ex_iff by blast
      qed
    qed (simp_all add: none [OF q(1)] t)
  qed
  have la: "liveWhere (o_getBox s) (vouchLapsed (o_getIdentityRecord s)) =
        liveWhere (v_getBox (view s)) (vouchLapsed (v_getIdentityRecord (view s)))"
    if q: "o_getLapsedVouches s n = Inr r" for n r
  proof -
    have q: "spentOf s BT_vouch = []"
      "\<not> list_ex (\<lambda>b. isLapsedMember (o_getIdentityRecord s (the (tail_voucher (boxTail b))))) (insertedOf s BT_vouch)"
      "\<not> recordWritesMove s isLapsedMember"
      using q by (auto simp: o_getLapsedVouches_def limited_def split: if_splits)
    have eq: "vouchLapsed (o_getIdentityRecord s) = vouchLapsed (v_getIdentityRecord (view s))"
      using records_unmoved [OF assms q(3)] by (intro ext) (auto simp: vouchLapsed_def split: boxTail.splits)
    have t: "boxTypeOf b = BT_vouch" if "vouchLapsed recs b" for recs b
      using that by (cases "boxTail b") (auto simp: vouchLapsed_def)
    show ?thesis unfolding eq [symmetric]
    proof (rule u [where Q = "\<lambda>b. boxTypeOf b = BT_vouch"])
      fix b assume b: "b \<in> snd ` set (inserted s)"
      show "\<not> vouchLapsed (o_getIdentityRecord s) b"
      proof
        assume d: "vouchLapsed (o_getIdentityRecord s) b"
        then have "b \<in> set (insertedOf s BT_vouch)" using b t [OF d] by (auto simp: insertedOf_def)
        moreover have "isLapsedMember (o_getIdentityRecord s (the (tail_voucher (boxTail b))))"
          using d by (cases "boxTail b") (auto simp: vouchLapsed_def tail_voucher_def)
        ultimately show False using q(2) unfolding list_ex_iff by blast
      qed
    qed (simp_all add: none [OF q(1)] t [of "o_getIdentityRecord s"])
  qed
  show ?thesis
    using em bd es la
    by (auto simp: o_getEmissionBox_def o_getBondsInvitedAt_def o_getVouchEscrowsReleasableAt_def
        o_getLapsedVouches_def limited_def Let_def split: if_splits)
qed

lemma limited_queries_sound_witness:
  "liveWhere (o_getBox (newOverlay (listView sampleLive))) (escrowDue 5) =
    liveWhere (v_getBox (view (newOverlay (listView sampleLive)))) (escrowDue 5)"
proof -
  have "o_getVouchEscrowsReleasableAt (newOverlay (listView sampleLive)) 5 3 =
      Inr (v_getVouchEscrowsReleasableAt (view (newOverlay (listView sampleLive))) 5 3)"
    by (simp add: o_getVouchEscrowsReleasableAt_def limited_def newOverlay_def spentOf_def insertedOf_def)
  then show ?thesis using limited_queries_sound [OF newOverlay_wf [OF sampleLive_ok]] by blast
qed

end
