(* ===== verification/Decay.thy ===== *)
theory Decay
  imports OverlayLaws
begin

text \<open>
  Karma decay at a block (\<open>packages/consensus/src/decay.ts\<close>): the owed decay, the
  projection of the squared set's karma past the block's body, the plans derived
  from it, and the clocks a block commits.
\<close>

definition karmaOwed :: "int \<Rightarrow> identityRecord option \<Rightarrow> int \<Rightarrow> decayCfg \<Rightarrow> int" where
  "karmaOwed face rcd height cfg = face - effectiveKarma face rcd height cfg"

record decayPlan =
  dp_owner :: "byte list"
  consumedBoxIds :: "string list"
  newValue :: int
  burnAmount :: int
  settledThrough :: int

text \<open>What the projection reads of a body transaction.\<close>
record bodyTx =
  bt_txId :: string
  bt_inputs :: "string list"
  bt_outputs :: "anyBox list"

type_synonym owners = "(string \<times> byte list) list"

text \<open>The owners whose karma the body spends, in the order the inputs name them.\<close>
fun touchedOwners :: "(string \<Rightarrow> anyBox option) \<Rightarrow> string list \<Rightarrow> owners \<Rightarrow> owners" where
  "touchedOwners lookup [] acc = acc"
| "touchedOwners lookup (i # is) acc =
     (case lookup i of
        Some b \<Rightarrow> (case boxTail b of
          Karma owner _ \<Rightarrow>
            if has acc (bytesToHex owner) then touchedOwners lookup is acc
            else touchedOwners lookup is (acc @ [(bytesToHex owner, owner)])
        | _ \<Rightarrow> touchedOwners lookup is acc)
      | None \<Rightarrow> touchedOwners lookup is acc)"

fun addPayees :: "owners \<Rightarrow> owners \<Rightarrow> owners" where
  "addPayees [] acc = acc"
| "addPayees ((h, k) # ps) acc = addPayees ps (if has acc h then acc else acc @ [(h, k)])"

definition ownerBoxes ::
    "(byte list \<Rightarrow> anyBox list) \<Rightarrow> string list \<Rightarrow> anyBox list \<Rightarrow> owners \<Rightarrow> string \<Rightarrow> byte list \<Rightarrow> anyBox list" where
  "ownerBoxes karmaBoxes allInputIds bodyOutputs touched hex owner =
     (if has touched hex then
        filter (\<lambda>b. boxId b \<notin> set allInputIds) (karmaBoxes owner) @
        filter (\<lambda>b. boxId b \<notin> set allInputIds)
          (filter (\<lambda>b. boxTypeOf b = BT_karma \<and> map_option bytesToHex (tail_owner (boxTail b)) = Some hex) bodyOutputs)
      else karmaBoxes owner)"

definition collectPostBodyKarma ::
    "(string \<Rightarrow> anyBox option) \<Rightarrow> (byte list \<Rightarrow> anyBox list) \<Rightarrow> bodyTx list \<Rightarrow> owners \<Rightarrow>
     (string \<times> byte list \<times> anyBox list) list" where
  "collectPostBodyKarma lookup karmaBoxes txs payees =
     (let allInputIds = concat (map bt_inputs txs);
          touched = touchedOwners lookup allInputIds [];
          allOwners = addPayees payees touched;
          bodyOutputs = concat (map bt_outputs txs)
      in map (\<lambda>hex. let owner = the (map_of allOwners hex) in
            (hex, owner, ownerBoxes karmaBoxes allInputIds bodyOutputs touched hex owner))
          (sort (map fst allOwners)))"

definition planFor ::
    "(byte list \<Rightarrow> identityRecord option) \<Rightarrow> int \<Rightarrow> decayCfg \<Rightarrow> byte list \<Rightarrow> anyBox list \<Rightarrow> decayPlan option" where
  "planFor getRecord height cfg owner boxes =
     (let rcd = getRecord owner in
      if owedPeriods rcd height cfg \<le> 0 then None
      else let faceTotal = sum_list (map boxValue boxes);
               effective = effectiveKarma faceTotal rcd height cfg;
               burn = faceTotal - effective;
               through = decaySettledThrough rcd height cfg
           in Some (if burn > 0
                then \<lparr>dp_owner = owner, consumedBoxIds = map boxId boxes, newValue = effective,
                       burnAmount = burn, settledThrough = through\<rparr>
                else \<lparr>dp_owner = owner, consumedBoxIds = [], newValue = faceTotal,
                       burnAmount = 0, settledThrough = through\<rparr>))"

definition deriveKarmaDecay ::
    "(byte list \<Rightarrow> identityRecord option) \<Rightarrow> (string \<times> byte list \<times> anyBox list) list \<Rightarrow> int \<Rightarrow> decayCfg \<Rightarrow>
     decayPlan list" where
  "deriveKarmaDecay getRecord postBodyKarma height cfg =
     List.map_filter (\<lambda>(_, owner, boxes). planFor getRecord height cfg owner boxes) postBodyKarma"

definition commitClock :: "decayPlan \<Rightarrow> overlay \<Rightarrow> overlay" where
  "commitClock plan s = o_putIdentityRecord (dp_owner plan)
     ((or_empty (o_getIdentityRecord s (dp_owner plan)))\<lparr>lastDecayBlock := settledThrough plan\<rparr>) s"

definition commitDecayClocks :: "decayPlan list \<Rightarrow> overlay \<Rightarrow> overlay" where
  "commitDecayClocks plans s = fold commitClock plans s"

section \<open>What the plans conserve\<close>

lemma planFor_ok:
  assumes "planFor getRecord height cfg owner boxes = Some plan" "cfg_ok cfg"
  shows "dp_owner plan = owner" "newValue plan + burnAmount plan = sum_list (map boxValue boxes)"
    "0 \<le> burnAmount plan" "settledThrough plan = decaySettledThrough (getRecord owner) height cfg"
    "newValue plan = effectiveKarma (sum_list (map boxValue boxes)) (getRecord owner) height cfg"
    "consumedBoxIds plan = (if 0 < burnAmount plan then map boxId boxes else [])"
    "0 < burnAmount plan \<Longrightarrow> karmaMinimum cfg \<le> newValue plan"
proof -
  let ?f = "sum_list (map boxValue boxes)"
  let ?e = "effectiveKarma ?f (getRecord owner) height cfg"
  note b = effectiveKarma_bounds [OF assms(2), of ?f "getRecord owner" height]
  have p: "plan = (if ?f - ?e > 0
      then \<lparr>dp_owner = owner, consumedBoxIds = map boxId boxes, newValue = ?e,
             burnAmount = ?f - ?e, settledThrough = decaySettledThrough (getRecord owner) height cfg\<rparr>
      else \<lparr>dp_owner = owner, consumedBoxIds = [], newValue = ?f, burnAmount = 0,
             settledThrough = decaySettledThrough (getRecord owner) height cfg\<rparr>)"
    using assms(1) by (simp add: planFor_def Let_def split: if_splits)
  show "dp_owner plan = owner" "newValue plan + burnAmount plan = ?f" "0 \<le> burnAmount plan"
    "settledThrough plan = decaySettledThrough (getRecord owner) height cfg"
    "newValue plan = ?e" "consumedBoxIds plan = (if 0 < burnAmount plan then map boxId boxes else [])"
    "0 < burnAmount plan \<Longrightarrow> karmaMinimum cfg \<le> newValue plan"
    using p b by auto
qed

lemma deriveKarmaDecay_plan:
  "plan \<in> set (deriveKarmaDecay getRecord pbk height cfg) \<Longrightarrow>
    \<exists>hex owner boxes. (hex, owner, boxes) \<in> set pbk \<and> planFor getRecord height cfg owner boxes = Some plan"
  by (induction pbk) (auto simp: deriveKarmaDecay_def map_filter_simps split: option.splits)

text \<open>Decay only moves karma: every plan splits what its owner holds after the body
  into what stays and what returns to the pool, never burns below the karma minimum,
  and consumes all of the owner's boxes if it burns and none if it does not.\<close>
theorem decay_plans_conserve:
  assumes "plan \<in> set (deriveKarmaDecay getRecord pbk height cfg)" "cfg_ok cfg"
  shows "\<exists>hex boxes. (hex, dp_owner plan, boxes) \<in> set pbk \<and>
    newValue plan + burnAmount plan = sum_list (map boxValue boxes) \<and> 0 \<le> burnAmount plan \<and>
    burnAmount plan = karmaOwed (sum_list (map boxValue boxes)) (getRecord (dp_owner plan)) height cfg \<and>
    (if 0 < burnAmount plan then consumedBoxIds plan = map boxId boxes \<and> karmaMinimum cfg \<le> newValue plan
     else consumedBoxIds plan = [])"
proof -
  obtain hex owner boxes where m: "(hex, owner, boxes) \<in> set pbk"
      "planFor getRecord height cfg owner boxes = Some plan"
    using deriveKarmaDecay_plan [OF assms(1)] by blast
  note p = planFor_ok [OF m(2) assms(2)]
  show ?thesis
    using m(1) p by (intro exI [of _ hex] exI [of _ boxes]) (auto simp: karmaOwed_def)
qed

lemma decay_plans_conserve_witness:
  "\<exists>plan. deriveKarmaDecay (\<lambda>_. None) [(''k'', replicate 32 1, [hd sampleLive])] 30 sampleCfg = [plan] \<and>
    newValue plan + burnAmount plan = 40"
proof -
  let ?pbk = "[(''k'', replicate 32 (1 :: byte), [hd sampleLive])]"
  obtain plan where p: "deriveKarmaDecay (\<lambda>_. None) ?pbk 30 sampleCfg = [plan]"
    by (simp add: deriveKarmaDecay_def map_filter_simps planFor_def Let_def owedPeriods_def clockStart_def
        or_empty_def EMPTY_IDENTITY_RECORD_def sampleCfg_def decayCfgFor_def)
  have "plan \<in> set (deriveKarmaDecay (\<lambda>_. None) ?pbk 30 sampleCfg)" "cfg_ok sampleCfg"
    unfolding p by (simp_all add: cfg_ok_def sampleCfg_def decayCfgFor_def KARMA_DECAY_AMOUNT_def)
  from decay_plans_conserve [OF this] p show ?thesis by (auto simp: sampleLive_def)
qed

section \<open>The clocks a block commits\<close>

lemma nothing_owed:
  assumes "cfg_ok cfg" "height < clockStart r cfg + decayIntervalBlocks cfg"
  shows "karmaOwed face r height cfg = 0"
proof -
  let ?i = "decayIntervalBlocks cfg"
  have i: "0 < ?i" using assms(1) by (simp add: cfg_ok_def)
  have "(height - clockStart r cfg) div ?i \<le> (?i - 1) div ?i"
    using i assms(2) by (intro zdiv_mono1) auto
  then have "owedPeriods r height cfg \<le> 0"
    using i by (simp add: owedPeriods_def div_pos_pos_trivial)
  then show ?thesis by (simp add: karmaOwed_def effectiveKarma_alt)
qed

lemma settled_owes_nothing:
  assumes "cfg_ok cfg" "decaySettledThrough r height cfg \<le> lastDecayBlock r'"
  shows "karmaOwed face (Some r') height cfg = 0"
proof (rule nothing_owed [OF assms(1)])
  have "height < decaySettledThrough r height cfg + decayIntervalBlocks cfg"
    using div_mult_gt [of "decayIntervalBlocks cfg" "height - clockStart r cfg"] assms(1)
    by (simp add: cfg_ok_def decaySettledThrough_def owedPeriods_def distrib_right)
  moreover have "lastDecayBlock r' \<le> clockStart (Some r') cfg" by (simp add: clockStart_def or_empty_def Let_def)
  ultimately show "height < clockStart (Some r') cfg + decayIntervalBlocks cfg" using assms(2) by linarith
qed

lemma commitClock_records:
  "o_getIdentityRecord (commitClock plan s) = (o_getIdentityRecord s)(dp_owner plan \<mapsto>
     (or_empty (o_getIdentityRecord s (dp_owner plan)))\<lparr>lastDecayBlock := settledThrough plan\<rparr>)"
  by (auto simp: commitClock_def o_putIdentityRecord_def o_getIdentityRecord_def fun_eq_iff update_conv
      cong: option.case_cong)

lemma commitDecayClocks_other:
  "k \<notin> dp_owner ` set plans \<Longrightarrow>
    o_getIdentityRecord (commitDecayClocks plans s) k = o_getIdentityRecord s k"
  by (induction plans arbitrary: s) (auto simp: commitDecayClocks_def commitClock_records)

lemma commitDecayClocks_plan:
  assumes "distinct (map dp_owner plans)" "plan \<in> set plans"
  shows "\<exists>r. o_getIdentityRecord (commitDecayClocks plans s) (dp_owner plan) = Some r \<and>
    lastDecayBlock r = settledThrough plan"
  using assms
proof (induction plans arbitrary: s)
  case (Cons p plans)
  show ?case
  proof (cases "plan = p")
    case True
    then have "dp_owner plan \<notin> dp_owner ` set plans" using Cons.prems(1) by simp
    from commitDecayClocks_other [OF this, of "commitClock p s"] True show ?thesis
      by (simp add: commitDecayClocks_def commitClock_records)
  next
    case False
    then show ?thesis using Cons.IH [of "commitClock p s"] Cons.prems by (simp add: commitDecayClocks_def)
  qed
qed simp

lemma derived_owners:
  "distinct (map (\<lambda>e. fst (snd e)) pbk) \<Longrightarrow> cfg_ok cfg \<Longrightarrow>
    distinct (map dp_owner (deriveKarmaDecay getRecord pbk height cfg)) \<and>
    dp_owner ` set (deriveKarmaDecay getRecord pbk height cfg) \<subseteq> (\<lambda>e. fst (snd e)) ` set pbk"
proof (induction pbk)
  case Nil
  then show ?case by (simp add: deriveKarmaDecay_def map_filter_simps)
next
  case (Cons e pbk)
  obtain hex owner boxes where e: "e = (hex, owner, boxes)" by (cases e)
  show ?case
  proof (cases "planFor getRecord height cfg owner boxes")
    case None
    then show ?thesis using Cons e by (auto simp: deriveKarmaDecay_def map_filter_simps)
  next
    case (Some plan)
    then have "dp_owner plan = owner" using planFor_ok(1) Cons.prems(2) by blast
    then show ?thesis using Cons e Some by (auto simp: deriveKarmaDecay_def map_filter_simps)
  qed
qed

lemma planFor_none:
  assumes "planFor getRecord height cfg owner boxes = None" "cfg_ok cfg"
  shows "height < clockStart (getRecord owner) cfg + decayIntervalBlocks cfg"
proof -
  have "owedPeriods (getRecord owner) height cfg \<le> 0"
    using assms(1) by (simp add: planFor_def Let_def split: if_splits)
  then have "(owedPeriods (getRecord owner) height cfg + 1) * decayIntervalBlocks cfg \<le> decayIntervalBlocks cfg"
    using assms(2) by (simp add: cfg_ok_def mult_le_cancel_right2)
  moreover have "height - clockStart (getRecord owner) cfg
      < (owedPeriods (getRecord owner) height cfg + 1) * decayIntervalBlocks cfg"
    unfolding owedPeriods_def by (rule div_mult_gt) (use assms(2) in \<open>simp add: cfg_ok_def\<close>)
  ultimately show ?thesis by linarith
qed

text \<open>Every owner of the projection, with a plan or without one, owes nothing once the
  plans' clocks are committed, over any state whose own clock of the owner has not gone
  back since the plans were derived, unless to the block's height or past it.\<close>
lemma projection_settled:
  assumes "cfg_ok cfg" "distinct (map (\<lambda>e. fst (snd e)) pbk)" "(hex, owner, boxes) \<in> set pbk"
    and "min height (clockStart (getRecord owner) cfg) \<le> clockStart (o_getIdentityRecord s owner) cfg"
  shows "karmaOwed face
    (o_getIdentityRecord (commitDecayClocks (deriveKarmaDecay getRecord pbk height cfg) s) owner) height cfg = 0"
proof (cases "planFor getRecord height cfg owner boxes")
  case None
  have "owner \<notin> dp_owner ` set (deriveKarmaDecay getRecord pbk height cfg)"
  proof
    assume "owner \<in> dp_owner ` set (deriveKarmaDecay getRecord pbk height cfg)"
    then obtain plan where m: "plan \<in> set (deriveKarmaDecay getRecord pbk height cfg)" "owner = dp_owner plan" by blast
    obtain hex' owner' boxes' where e: "(hex', owner', boxes') \<in> set pbk"
        "planFor getRecord height cfg owner' boxes' = Some plan"
      using deriveKarmaDecay_plan [OF m(1)] by blast
    have "owner' = owner" using planFor_ok(1) [OF e(2) assms(1)] m(2) by simp
    with e have p: "(hex', owner, boxes') \<in> set pbk" "planFor getRecord height cfg owner boxes' = Some plan" by simp_all
    have "(hex', owner, boxes') = (hex, owner, boxes)"
      by (rule inj_onD [of "\<lambda>e. fst (snd e)" "set pbk"]) (use assms(2,3) p(1) in \<open>simp_all add: distinct_map\<close>)
    then show False using p(2) None by simp
  qed
  then have "o_getIdentityRecord (commitDecayClocks (deriveKarmaDecay getRecord pbk height cfg) s) owner
      = o_getIdentityRecord s owner" by (rule commitDecayClocks_other)
  moreover have "height < clockStart (o_getIdentityRecord s owner) cfg + decayIntervalBlocks cfg"
    using planFor_none [OF None assms(1)] assms(1,4) by (auto simp: cfg_ok_def min_def split: if_splits)
  ultimately show ?thesis using nothing_owed [OF assms(1)] by simp
next
  case (Some plan)
  let ?plans = "deriveKarmaDecay getRecord pbk height cfg"
  have m: "plan \<in> set ?plans"
    using assms(3) Some by (force simp: deriveKarmaDecay_def List.map_filter_def)
  obtain r where r: "o_getIdentityRecord (commitDecayClocks ?plans s) (dp_owner plan) = Some r"
      "lastDecayBlock r = settledThrough plan"
    using commitDecayClocks_plan [OF derived_owners [OF assms(2,1), THEN conjunct1] m] by blast
  have "decaySettledThrough (getRecord owner) height cfg \<le> lastDecayBlock r"
    using r(2) planFor_ok(4) [OF Some assms(1)] by simp
  from settled_owes_nothing [OF assms(1) this] show ?thesis using r(1) planFor_ok(1) [OF Some assms(1)] by simp
qed

section \<open>Who the projection names\<close>

text \<open>Owners under the hex of their key, once each.\<close>
definition keyed :: "owners \<Rightarrow> bool" where
  "keyed os \<longleftrightarrow> distinct (map fst os) \<and> (\<forall>(hex, k)\<in>set os. hex = bytesToHex k)"

lemma keyed_snoc: "keyed acc \<Longrightarrow> \<not> has acc (bytesToHex k) \<Longrightarrow> keyed (acc @ [(bytesToHex k, k)])"
  by (auto simp: keyed_def map_of_eq_None_iff)

lemma keyed_has:
  assumes "keyed acc" "has acc (bytesToHex k)"
  shows "(bytesToHex k, k) \<in> set acc"
proof -
  obtain k' where "(bytesToHex k, k') \<in> set acc" using assms(2) by (auto dest: map_of_SomeD)
  then show ?thesis using assms(1) bytesToHex_inject by (fastforce simp: keyed_def)
qed

lemma touchedOwners_keyed:
  "keyed acc \<Longrightarrow> keyed (touchedOwners lookup is acc) \<and> set acc \<subseteq> set (touchedOwners lookup is acc) \<and>
    (\<forall>i\<in>set is. \<forall>b owner inc. lookup i = Some b \<longrightarrow> boxTail b = Karma owner inc \<longrightarrow>
      (bytesToHex owner, owner) \<in> set (touchedOwners lookup is acc))"
proof (induction "is" arbitrary: acc)
  case (Cons i "is")
  show ?case
  proof (cases "\<exists>b owner inc. lookup i = Some b \<and> boxTail b = Karma owner inc")
    case False
    then have "touchedOwners lookup (i # is) acc = touchedOwners lookup is acc"
      by (auto split: option.splits boxTail.splits)
    then show ?thesis using Cons False by auto
  next
    case True
    then obtain b owner inc where b: "lookup i = Some b" "boxTail b = Karma owner inc" by blast
    define acc' where "acc' = (if has acc (bytesToHex owner) then acc else acc @ [(bytesToHex owner, owner)])"
    have e: "touchedOwners lookup (i # is) acc = touchedOwners lookup is acc'" using b by (simp add: acc'_def)
    have k: "keyed acc'" "set acc \<subseteq> set acc'" "(bytesToHex owner, owner) \<in> set acc'"
      using Cons.prems keyed_snoc keyed_has by (auto simp: acc'_def)
    from Cons.IH [OF k(1)] k(2,3) b show ?thesis unfolding e by auto
  qed
qed simp

lemma addPayees_keyed:
  "keyed acc \<Longrightarrow> \<forall>(hex, k)\<in>set ps. hex = bytesToHex k \<Longrightarrow>
    keyed (addPayees ps acc) \<and> set acc \<union> set ps \<subseteq> set (addPayees ps acc)"
proof (induction ps arbitrary: acc)
  case (Cons p ps)
  obtain k where p: "p = (bytesToHex k, k)" using Cons.prems(2) by (cases p) auto
  define acc' where "acc' = (if has acc (bytesToHex k) then acc else acc @ [(bytesToHex k, k)])"
  have k: "keyed acc'" "set acc \<subseteq> set acc'" "(bytesToHex k, k) \<in> set acc'"
    using Cons.prems(1) keyed_snoc keyed_has by (auto simp: acc'_def)
  have "addPayees (p # ps) acc = addPayees ps acc'" by (simp add: p acc'_def)
  then show ?case using Cons.IH [OF k(1)] Cons.prems(2) k(2,3) p by auto
qed simp

text \<open>The projection names every owner of karma the body spends and every payee, each once.\<close>
lemma projection_owners:
  assumes "\<forall>(hex, k)\<in>set payees. hex = bytesToHex k" "pbk = collectPostBodyKarma lookup karmaBoxes txs payees"
  shows "distinct (map (\<lambda>e. fst (snd e)) pbk)"
    "tx \<in> set txs \<Longrightarrow> i \<in> set (bt_inputs tx) \<Longrightarrow> lookup i = Some b \<Longrightarrow> boxTail b = Karma owner inc \<Longrightarrow>
      \<exists>boxes. (bytesToHex owner, owner, boxes) \<in> set pbk"
    "(hex, k) \<in> set payees \<Longrightarrow> \<exists>boxes. (hex, k, boxes) \<in> set pbk"
proof -
  define touched where "touched = touchedOwners lookup (concat (map bt_inputs txs)) []"
  define owners where "owners = addPayees payees touched"
  have k0: "keyed ([] :: owners)" by (simp add: keyed_def)
  note t = touchedOwners_keyed [OF k0, of lookup "concat (map bt_inputs txs)", folded touched_def]
  note o = addPayees_keyed [OF t [THEN conjunct1] assms(1), folded owners_def]
  have e: "pbk = map (\<lambda>hex. (hex, the (map_of owners hex), ownerBoxes karmaBoxes (concat (map bt_inputs txs))
      (concat (map bt_outputs txs)) touched hex (the (map_of owners hex)))) (sort (map fst owners))"
    unfolding assms(2) collectPostBodyKarma_def Let_def touched_def [symmetric] owners_def [symmetric] ..
  have look: "the (map_of owners hex) = k" if "(hex, k) \<in> set owners" for hex k
    using o that by (simp add: keyed_def)
  have named: "\<exists>boxes. (hex, k, boxes) \<in> set pbk" if "(hex, k) \<in> set owners" for hex k
    unfolding e using that look [OF that] by (force simp: image_iff)
  have "bytesToHex (the (map_of owners hex)) = hex" if "hex \<in> set (map fst owners)" for hex
    using that look o by (fastforce simp: keyed_def)
  then have "map (bytesToHex \<circ> (\<lambda>e. fst (snd e))) pbk = sort (map fst owners)"
    unfolding e map_map by (intro map_idI) simp
  then have "distinct (map bytesToHex (map (\<lambda>e. fst (snd e)) pbk))"
    using o by (simp add: keyed_def)
  then show "distinct (map (\<lambda>e. fst (snd e)) pbk)"
    using distinct_map [of bytesToHex "map (\<lambda>e. fst (snd e)) pbk"] by blast
  show "\<exists>boxes. (bytesToHex owner, owner, boxes) \<in> set pbk"
    if "tx \<in> set txs" "i \<in> set (bt_inputs tx)" "lookup i = Some b" "boxTail b = Karma owner inc"
    using named t o that by fastforce
  show "\<exists>boxes. (hex, k, boxes) \<in> set pbk" if "(hex, k) \<in> set payees"
    using named o that by blast
qed

lemma payee_projected:
  assumes "\<forall>(hex, k)\<in>set payees. hex = bytesToHex k" "bytesToHex k \<in> fst ` set payees"
  shows "\<exists>boxes. (bytesToHex k, k, boxes) \<in> set (collectPostBodyKarma lookup karmaBoxes txs payees)"
proof -
  have "(bytesToHex k, k) \<in> set payees" using assms bytesToHex_inject by fastforce
  from projection_owners(3) [OF assms(1) refl this] show ?thesis .
qed

end
