(* ===== verification/Settlement.thy ===== *)
theory Settlement
  imports Decay
begin

text \<open>
  The settlement transaction (\<open>packages/consensus/src/settlement.ts\<close>): what a body
  contributes to it, the legs \<open>derive\<close> computes from the body and the state, the
  producer's \<open>buildSettlement\<close> and the verifier's \<open>checkSettlement\<close>.  The reads the
  settlement makes of the state are the fields of \<open>settlementDeps\<close>; a limited query
  of the overlay can raise, so those fields return a result.
\<close>

section \<open>Constants\<close>

definition LIKES_PER_KARMA_PAYOUT :: int where "LIKES_PER_KARMA_PAYOUT = 5"
definition INVITE_BOND_VEST_PER_LIKES :: int where "INVITE_BOND_VEST_PER_LIKES = 3"
definition MAX_BOND_SETTLEMENTS_PER_BLOCK :: nat where "MAX_BOND_SETTLEMENTS_PER_BLOCK = 64"
definition MAX_ESCROW_RETURNS_PER_BLOCK :: nat where "MAX_ESCROW_RETURNS_PER_BLOCK = 64"
definition MAX_LAPSE_WITHDRAWALS_PER_BLOCK :: nat where "MAX_LAPSE_WITHDRAWALS_PER_BLOCK = 64"

text \<open>\<open>BigInt\<close> remainder: the sign of the dividend.\<close>
definition bmod :: "int \<Rightarrow> int \<Rightarrow> int" where
  "bmod a b = a - b * bdiv a b"

section \<open>The body a settlement is derived from\<close>

record likeMarker =
  marker_id :: string
  marker_author :: "byte list"
  marker_value :: int

record unstakeMarker =
  unstake_id :: string
  unstake_owner :: "byte list"
  unstake_weight :: int

record settlementBody =
  sb_fees :: int
  sb_rent :: int
  sb_actors :: int
  feeBoxIds :: "string list"
  invites :: "(byte list \<times> int) list"
  markers :: "likeMarker list"
  priceBoxes :: "(string \<times> int) list"
  unstakes :: "unstakeMarker list"

definition emptyBody :: settlementBody where
  "emptyBody = \<lparr>sb_fees = 0, sb_rent = 0, sb_actors = 0, feeBoxIds = [], invites = [],
     markers = [], priceBoxes = [], unstakes = []\<rparr>"

definition contributeBox :: "bool \<Rightarrow> anyBox \<Rightarrow> settlementBody \<Rightarrow> settlementBody" where
  "contributeBox isRent out body =
     (case boxTail out of
        Fee \<Rightarrow> (if isRent then body\<lparr>sb_rent := sb_rent body + boxValue out\<rparr>
                else body\<lparr>sb_fees := sb_fees body + boxValue out\<rparr>)
               \<lparr>feeBoxIds := feeBoxIds body @ [boxId out]\<rparr>
      | Bond _ invitee \<Rightarrow> body\<lparr>invites := invites body @ [(invitee, boxValue out)]\<rparr>
      | LikeAccrual a \<Rightarrow> body\<lparr>markers := markers body @
          [\<lparr>marker_id = boxId out, marker_author = a, marker_value = boxValue out\<rparr>]\<rparr>
      | KarmaPrice \<Rightarrow> body\<lparr>priceBoxes := priceBoxes body @ [(boxId out, boxValue out)]\<rparr>
      | BackerUnstake owner weight \<Rightarrow> body\<lparr>unstakes := unstakes body @
          [\<lparr>unstake_id = boxId out, unstake_owner = owner, unstake_weight = weight\<rparr>]\<rparr>
      | _ \<Rightarrow> body)"

definition contributeToBody :: "settlementBody \<Rightarrow> anyBox list \<Rightarrow> bool \<Rightarrow> settlementBody" where
  "contributeToBody body outs isRent = fold (contributeBox isRent) outs body"

definition sketchBodyForPayees :: "anyBox list list \<Rightarrow> settlementBody" where
  "sketchBodyForPayees decoded = fold (\<lambda>outs body. contributeToBody body outs False) decoded emptyBody"

definition lapseLegOf :: "anyBox list \<Rightarrow> string list \<Rightarrow> anyBox list" where
  "lapseLegOf captured spentIds = filter (\<lambda>v. boxId v \<notin> set spentIds) captured"

definition bondOutputOf :: "anyBox list \<Rightarrow> anyBox option" where
  "bondOutputOf outs = List.find (\<lambda>out. boxTypeOf out = BT_bond) outs"

section \<open>What the settlement reads\<close>

record settlementDeps =
  s_getEmissionBox :: "anyBox option res"
  s_getTreasuryBox :: "anyBox option res"
  s_getKarmaPoolBox :: "anyBox option res"
  s_getBox :: "string \<Rightarrow> anyBox option"
  getLikeCarryBox :: "byte list \<Rightarrow> string list \<Rightarrow> anyBox option"
  getBondsSettlingAt :: "int \<Rightarrow> anyBox list res"
  getEscrowsReleasableAt :: "int \<Rightarrow> anyBox list"
  s_getLapsedVouches :: "anyBox list"
  getLifetimeLikes :: "byte list \<Rightarrow> int"
  getIncomeBox :: "byte list \<Rightarrow> string list \<Rightarrow> anyBox option"
  s_vouchCooldownBlocks :: int
  getDecayPlans :: "decayPlan list"
  s_getBackerPoolBox :: "anyBox option"
  backerSupply :: int
  s_creditFixedRateBlocks :: int

definition tail_staked :: "boxTail \<Rightarrow> int" where
  "tail_staked t = (case t of BackerPool st _ \<Rightarrow> st | _ \<Rightarrow> 0)"

definition tail_accrual :: "boxTail \<Rightarrow> int" where
  "tail_accrual t = (case t of BackerPool _ acc \<Rightarrow> acc | _ \<Rightarrow> 0)"

definition box_out :: "int \<Rightarrow> int \<Rightarrow> boxTail \<Rightarrow> candidate" where
  "box_out v h t = \<lparr>boxValue = v, createdAtBlock = h, boxTail = t\<rparr>"

lemma box_out_simps [simp]:
  "boxValue (box_out v h t) = v" "createdAtBlock (box_out v h t) = h" "boxTail (box_out v h t) = t"
  by (simp_all add: box_out_def)

section \<open>The like payouts, the vested part, the squared set\<close>

record likePayout =
  lp_author :: "byte list"
  lp_paid :: int
  lp_carry :: int
  lp_carryBoxId :: "string option"

type_synonym tally = "(string \<times> byte list \<times> int) list"

text \<open>The \<open>entry.tot += value\<close> of both grouping loops: one row per key, in first-seen order.\<close>
definition addTo :: "byte list \<Rightarrow> int \<Rightarrow> tally \<Rightarrow> tally" where
  "addTo k v rows = (case map_of rows (bytesToHex k) of
     Some (k', tot) \<Rightarrow> AList.update (bytesToHex k) (k', tot + v) rows
   | None \<Rightarrow> rows @ [(bytesToHex k, k, v)])"

definition byAuthor :: "likeMarker list \<Rightarrow> tally" where
  "byAuthor ms = fold (\<lambda>m. addTo (marker_author m) (marker_value m)) ms []"

text \<open>\<open>[...rows.keys()].sort()\<close> with the row of each key.\<close>
definition inOrder :: "tally \<Rightarrow> (byte list \<times> int) list" where
  "inOrder rows = map (\<lambda>key. the (map_of rows key)) (sort (map fst rows))"

definition payoutFor :: "(byte list \<Rightarrow> string list \<Rightarrow> anyBox option) \<Rightarrow> string list \<Rightarrow> byte list \<times> int \<Rightarrow> likePayout \<times> int" where
  "payoutFor getCarryBox markerIds = (\<lambda>(k, markerTotal).
     let carryBox = (case getCarryBox k markerIds of
           None \<Rightarrow> None | Some b \<Rightarrow> if boxId b = [] then None else Some b);
         tot = markerTotal + (case carryBox of None \<Rightarrow> 0 | Some b \<Rightarrow> boxValue b);
         q = bdiv tot LIKES_PER_KARMA_PAYOUT
     in (\<lparr>lp_author = k, lp_paid = q * (LIKES_PER_KARMA_PAYOUT - 1),
          lp_carry = bmod tot LIKES_PER_KARMA_PAYOUT, lp_carryBoxId = map_option boxId carryBox\<rparr>, q))"

definition computeLikePayouts ::
    "settlementBody \<Rightarrow> (byte list \<Rightarrow> string list \<Rightarrow> anyBox option) \<Rightarrow> likePayout list \<times> int" where
  "computeLikePayouts body getCarryBox =
     (let markerIds = map marker_id (markers body);
          rows = map (payoutFor getCarryBox markerIds) (inOrder (byAuthor (markers body)))
      in (map fst rows, sum_list (map snd rows)))"

definition vestedPart :: "anyBox \<Rightarrow> int \<Rightarrow> int" where
  "vestedPart bond lifetimeLikes =
     (let earned = bdiv lifetimeLikes INVITE_BOND_VEST_PER_LIKES in
      if earned < boxValue bond then earned else boxValue bond)"

definition vestedOf :: "settlementDeps \<Rightarrow> anyBox \<Rightarrow> int" where
  "vestedOf deps bond = vestedPart bond (getLifetimeLikes deps (the (tail_invitee (boxTail bond))))"

definition inviterOf :: "anyBox \<Rightarrow> byte list" where
  "inviterOf bond = the (tail_inviter (boxTail bond))"

definition ownerOf :: "anyBox \<Rightarrow> byte list" where
  "ownerOf b = the (tail_owner (boxTail b))"

definition addPayee :: "byte list \<Rightarrow> owners \<Rightarrow> owners" where
  "addPayee k m = AList.update (bytesToHex k) k m"

definition computeSquaredSetPayees :: "settlementBody \<Rightarrow> int \<Rightarrow> settlementDeps \<Rightarrow> owners res" where
  "computeSquaredSetPayees body height deps =
     (let payouts = fst (computeLikePayouts body (getLikeCarryBox deps)) in
      ebind (getBondsSettlingAt deps height) (\<lambda>bonds. Inr
        (fold addPayee
          (map lp_author (filter (\<lambda>p. lp_paid p > 0) payouts) @
           map inviterOf (filter (\<lambda>b. vestedOf deps b > 0) bonds) @
           map ownerOf (filter (\<lambda>e. boxValue e > 0) (getEscrowsReleasableAt deps height))) [])))"

section \<open>The legs\<close>

record backerPart =
  ba_inputs :: "string list"
  ba_outputs :: "candidate list"
  ba_draw :: int
  ba_credits :: "candidate list"

text \<open>\<section>2' and \<section>2'': the backer pool is spent in the window, and outside it when the
  body unstakes.\<close>
definition backerActive :: "settlementDeps \<Rightarrow> int \<Rightarrow> settlementBody \<Rightarrow> bool" where
  "backerActive deps height body \<longleftrightarrow> backerSupply deps > 0 \<and>
     (height \<le> s_creditFixedRateBlocks deps \<or> sum_list (map unstake_weight (unstakes body)) > 0)"

definition backerPartOf :: "settlementDeps \<Rightarrow> int \<Rightarrow> settlementBody \<Rightarrow> int \<Rightarrow> refusal + backerPart" where
  "backerPartOf deps height body release =
     (case (if backerActive deps height body then s_getBackerPoolBox deps else None) of
        None \<Rightarrow> Inr \<lparr>ba_inputs = [], ba_outputs = [], ba_draw = 0, ba_credits = []\<rparr>
      | Some pool \<Rightarrow>
          if sum_list (map unstake_weight (unstakes body)) > tail_staked (boxTail pool)
          then Inl (Refused ''backer unstake weight exceeds staked'')
          else
            let leg = backerLeg (release + sb_fees body) (backerSupply deps) (tail_staked (boxTail pool))
                  (tail_accrual (boxTail pool)) (map unstake_weight (unstakes body))
                  (height \<le> s_creditFixedRateBlocks deps)
            in Inr \<lparr>ba_inputs = boxId pool # map unstake_id (unstakes body),
                 ba_outputs = [box_out (boxValue pool + bl_draw leg - sum_list (bl_releases leg)) height
                   (BackerPool (bl_staked leg) (bl_accrual leg))],
                 ba_draw = bl_draw leg,
                 ba_credits = map (\<lambda>(u, r). box_out r height (Credit (unstake_owner u) None))
                   (filter (\<lambda>(u, r). r > 0) (zip (unstakes body) (bl_releases leg)))\<rparr>)"

definition treasuryPart :: "settlementDeps \<Rightarrow> int \<Rightarrow> int \<Rightarrow> refusal + string list \<times> candidate list" where
  "treasuryPart deps height share =
     (if share > 0 then
        ebind (orThrow (s_getTreasuryBox deps)) (\<lambda>b.
          case b of
            None \<Rightarrow> Inr ([], [box_out share height Treasury])
          | Some box \<Rightarrow>
              if boxId box = [] then Inl (Refused ''treasury box carries no id'')
              else Inr ([boxId box], [box_out (boxValue box + share) height Treasury]))
      else Inr ([], []))"

text \<open>\<section>3f: what each owner is paid, grouped by owner.\<close>
definition addIncome :: "byte list \<times> int \<Rightarrow> tally \<Rightarrow> tally" where
  "addIncome = (\<lambda>(owner, amount) rows. if amount \<le> 0 then rows else addTo owner amount rows)"

definition incomeByOwner :: "settlementDeps \<Rightarrow> likePayout list \<Rightarrow> anyBox list \<Rightarrow> anyBox list \<Rightarrow> tally" where
  "incomeByOwner deps payouts bonds escrows = fold addIncome
     (map (\<lambda>p. (lp_author p, lp_paid p)) payouts @ map (\<lambda>b. (inviterOf b, vestedOf deps b)) bonds @
      map (\<lambda>e. (ownerOf e, boxValue e)) escrows) []"

record incomeRow =
  in_owner :: "byte list"
  in_amount :: int
  in_box :: "anyBox option"

definition incomeRows ::
    "settlementDeps \<Rightarrow> likePayout list \<Rightarrow> anyBox list \<Rightarrow> anyBox list \<Rightarrow> string list \<Rightarrow> incomeRow list" where
  "incomeRows deps payouts bonds escrows decayedIds =
     map (\<lambda>(owner, amount). \<lparr>in_owner = owner, in_amount = amount, in_box = getIncomeBox deps owner decayedIds\<rparr>)
       (inOrder (incomeByOwner deps payouts bonds escrows))"

definition incomeBase :: "incomeRow \<Rightarrow> int" where
  "incomeBase r = (case in_box r of None \<Rightarrow> 0 | Some b \<Rightarrow> boxValue b)"

record karmaLegs =
  kl_inputs :: "string list"
  kl_outputs :: "candidate list"
  kl_poolDraw :: int
  kl_poolSink :: int

definition requireIds :: "string \<Rightarrow> anyBox list \<Rightarrow> verdict" where
  "requireIds e bs = firstRefusal [(list_ex (\<lambda>b. boxId b = []) bs, e)]"

text \<open>\<section>3 and \<section>6: the karma legs, their inputs and outputs in derivation order, and what
  they draw from and return to the pool.\<close>
definition karmaLegsOf :: "settlementDeps \<Rightarrow> int \<Rightarrow> settlementBody \<Rightarrow> refusal + karmaLegs" where
  "karmaLegsOf deps height body =
     (let (payouts, pooled) = computeLikePayouts body (getLikeCarryBox deps) in
      ebind (orThrow (getBondsSettlingAt deps height)) (\<lambda>bonds.
      ebind (requireIds ''bond box carries no id'' bonds) (\<lambda>_.
      let escrows = getEscrowsReleasableAt deps height in
      ebind (requireIds ''vouch escrow box carries no id'' escrows) (\<lambda>_.
      let lapsed = s_getLapsedVouches deps in
      ebind (requireIds ''lapsed vouch box carries no id'' lapsed) (\<lambda>_.
      let plans = getDecayPlans deps;
          decayedIds = concat (map consumedBoxIds plans);
          income = incomeRows deps payouts bonds escrows decayedIds
      in Inr \<lparr>
        kl_inputs = map marker_id (markers body) @ map fst (priceBoxes body) @
          List.map_filter lp_carryBoxId payouts @ map boxId bonds @ map boxId escrows @
          map boxId lapsed @ decayedIds @ List.map_filter (map_option boxId \<circ> in_box) income,
        kl_outputs =
          map (\<lambda>(invitee, amount). box_out amount height (Karma invitee False)) (invites body) @
          map (\<lambda>p. box_out (lp_carry p) height (LikeAccrual (lp_author p)))
            (filter (\<lambda>p. lp_carry p > 0) payouts) @
          map (\<lambda>v. box_out (boxValue v) height (VouchEscrow (the (tail_voucher (boxTail v)))
            (createdAtBlock v + s_vouchCooldownBlocks deps))) lapsed @
          map (\<lambda>p. box_out (newValue p) height (Karma (dp_owner p) False))
            (filter (\<lambda>p. burnAmount p > 0) plans) @
          map (\<lambda>r. box_out (incomeBase r + in_amount r) height (Karma (in_owner r) True))
            (filter (\<lambda>r. incomeBase r + in_amount r > 0) income),
        kl_poolDraw = sum_list (map snd (invites body)),
        kl_poolSink = sum_list (map snd (priceBoxes body)) + pooled +
          sum_list (map (\<lambda>b. boxValue b - vestedOf deps b) bonds) + sum_list (map burnAmount plans)\<rparr>)))))"

definition poolPart :: "settlementDeps \<Rightarrow> int \<Rightarrow> int \<Rightarrow> int \<Rightarrow> refusal + string list \<times> candidate list" where
  "poolPart deps height poolDraw poolSink =
     (if poolDraw > 0 \<or> poolSink > 0 then
        ebind (orThrow (s_getKarmaPoolBox deps)) (\<lambda>b.
          case b of
            None \<Rightarrow> Inl (Refused ''this chain holds no karma pool box'')
          | Some box \<Rightarrow>
              if boxId box = [] then Inl (Refused ''this chain holds no karma pool box'')
              else let successor = boxValue box - poolDraw + poolSink in
                if successor < 0 then Inl (Refused ''karma pool is short of what this block grants'')
                else Inr ([boxId box], [box_out successor height KarmaPool]))
      else Inr ([], []))"

section \<open>Derivation, build and check\<close>

record derivedSettlement =
  ds_inputs :: "string list"
  derivedOutputs :: "candidate list"
  minerSlice :: int
  lockedUntilBlock :: int

definition derive ::
    "settlementDeps \<Rightarrow> int \<Rightarrow> int \<Rightarrow> int \<Rightarrow> settlementBody \<Rightarrow> refusal + derivedSettlement" where
  "derive deps height emission minerRewardDelay body =
     ebind (orThrow (s_getEmissionBox deps)) (\<lambda>eb.
     case eb of
       None \<Rightarrow> Inl (Refused ''height requires an emission box but this chain holds none'')
     | Some emissionBox \<Rightarrow>
     if boxId emissionBox = [] then Inl (Refused ''height requires an emission box but this chain holds none'')
     else
       let release = (if emission < boxValue emissionBox then emission else boxValue emissionBox) in
       ebind (backerPartOf deps height body release) (\<lambda>backer.
       let split = splitCoinbase release (sb_fees body) (sb_rent body) (sb_actors body) (ba_draw backer);
           remaining = boxValue emissionBox - release + cs_unearned split
       in
       ebind (treasuryPart deps height (cs_treasury split)) (\<lambda>(treasuryIns, treasuryOuts).
       ebind (karmaLegsOf deps height body) (\<lambda>legs.
       ebind (poolPart deps height (kl_poolDraw legs) (kl_poolSink legs)) (\<lambda>(poolIns, poolOuts).
       Inr \<lparr>
         ds_inputs = [boxId emissionBox] @ treasuryIns @ ba_inputs backer @ kl_inputs legs @ poolIns @ feeBoxIds body,
         derivedOutputs = [box_out remaining height Emission] @ treasuryOuts @ ba_outputs backer @ poolOuts @
           kl_outputs legs @ ba_credits backer,
         minerSlice = cs_miner split,
         lockedUntilBlock = height + minerRewardDelay\<rparr>)))))"

definition coinbaseOut :: "int \<Rightarrow> derivedSettlement \<Rightarrow> byte list \<Rightarrow> candidate list" where
  "coinbaseOut height d minerOwner =
     (if minerSlice d > 0
      then [box_out (minerSlice d) height (Credit minerOwner (Some (lockedUntilBlock d)))] else [])"

definition buildSettlement ::
    "settlementDeps \<Rightarrow> int \<Rightarrow> protocolEra list \<Rightarrow> int \<Rightarrow> int \<Rightarrow> settlementBody \<Rightarrow> byte list \<Rightarrow>
     refusal + utxoTransaction" where
  "buildSettlement deps height schedule emission minerRewardDelay body minerOwner =
     (case protocolVersionAt schedule height of
        None \<Rightarrow> Inl (Refused ''no protocol era scheduled at height'')
      | Some version \<Rightarrow>
          ebind (derive deps height emission minerRewardDelay body) (\<lambda>d. Inr
            \<lparr>inputs = ds_inputs d, outputs = derivedOutputs d @ coinbaseOut height d minerOwner,
             signatures = [], protocolVersion = version, likeTarget = None, post = None,
             postWithdraw = None\<rparr>))"

text \<open>A present field and its text: \<open>${k}=${v}\<close>.\<close>
fun showNat :: "nat \<Rightarrow> string" where
  "showNat n = (if n < 10 then [char_of (48 + n)] else showNat (n div 10) @ [char_of (48 + n mod 10)])"

declare showNat.simps [simp del]

definition showInt :: "int \<Rightarrow> string" where
  "showInt i = (if i < 0 then ''-'' @ showNat (nat (- i)) else showNat (nat i))"

fun boxTypeName :: "boxType \<Rightarrow> string" where
  "boxTypeName BT_karma = ''karma''"
| "boxTypeName BT_credit = ''credit''"
| "boxTypeName BT_genesis_proof = ''genesis_proof''"
| "boxTypeName BT_bond = ''bond''"
| "boxTypeName BT_vouch = ''vouch''"
| "boxTypeName BT_emission = ''emission''"
| "boxTypeName BT_treasury = ''treasury''"
| "boxTypeName BT_fee = ''fee''"
| "boxTypeName BT_karma_pool = ''karma_pool''"
| "boxTypeName BT_like_accrual = ''like_accrual''"
| "boxTypeName BT_vouch_escrow = ''vouch_escrow''"
| "boxTypeName BT_karma_price = ''karma_price''"
| "boxTypeName BT_username = ''username''"
| "boxTypeName BT_backer_stake = ''backer_stake''"
| "boxTypeName BT_backer_unstake = ''backer_unstake''"
| "boxTypeName BT_backer_pool = ''backer_pool''"


definition fieldTexts :: "boxTail \<Rightarrow> (string \<times> string) list" where
  "fieldTexts t = (case t of
     Karma owner inc \<Rightarrow> (''owner'', bytesToHex owner) # (if inc then [(''income'', ''true'')] else [])
   | Credit owner lock \<Rightarrow> (''owner'', bytesToHex owner) #
       (case lock of None \<Rightarrow> [] | Some h \<Rightarrow> [(''lockedUntilBlock'', showInt h)])
   | GenesisProof payload \<Rightarrow> [(''payload'', bytesToHex payload)]
   | Bond i k \<Rightarrow> [(''inviterId'', bytesToHex i), (''inviteePublicKey'', bytesToHex k)]
   | Vouch v g \<Rightarrow> [(''voucherId'', bytesToHex v), (''targetId'', bytesToHex g)]
   | LikeAccrual a \<Rightarrow> [(''author'', bytesToHex a)]
   | VouchEscrow owner h \<Rightarrow> [(''owner'', bytesToHex owner), (''releaseAtBlock'', showInt h)]
   | Username owner n \<Rightarrow> [(''owner'', bytesToHex owner), (''name'', bytesToHex n)]
   | BackerStake owner w \<Rightarrow> [(''owner'', bytesToHex owner), (''weight'', showInt w)]
   | BackerUnstake owner w \<Rightarrow> [(''owner'', bytesToHex owner), (''weight'', showInt w)]
   | BackerPool st acc \<Rightarrow> [(''staked'', showInt st), (''accrual'', showInt acc)]
   | _ \<Rightarrow> [])"

definition candidateFields :: "candidate \<Rightarrow> (string \<times> string) list" where
  "candidateFields c = (''boxType'', boxTypeName (boxTypeOf c)) # (''value'', showInt (boxValue c)) #
     (''createdAtBlock'', showInt (createdAtBlock c)) # fieldTexts (boxTail c)"

fun joinBar :: "string list \<Rightarrow> string" where
  "joinBar [] = []"
| "joinBar [x] = x"
| "joinBar (x # y # ys) = x @ ''|'' @ joinBar (y # ys)"

definition candidateKey :: "candidate \<Rightarrow> string" where
  "candidateKey c = joinBar (map (\<lambda>(k, v). k @ ''='' @ v) (sort_key fst (candidateFields c)))"

definition checkDerivedOutputs :: "candidate list \<Rightarrow> candidate list \<Rightarrow> verdict" where
  "checkDerivedOutputs got want =
     ebind (firstRefusal [(length got < length want, ''settlement emits too few outputs'')]) (\<lambda>_.
     echeck (\<lambda>(g, w). firstRefusal [(candidateKey g \<noteq> candidateKey w, ''settlement output is not the derived one'')])
       (zip got want))"

definition checkCoinbaseOut :: "int \<Rightarrow> derivedSettlement \<Rightarrow> candidate \<Rightarrow> verdict" where
  "checkCoinbaseOut height d out = firstRefusal
     [(boxTypeOf out \<noteq> BT_credit, ''settlement emits an unexpected box''),
      (boxValue out = 0, ''zero-value coinbase output''),
      (tail_lock (boxTail out) \<noteq> Some (lockedUntilBlock d), ''coinbase lockedUntilBlock''),
      (createdAtBlock out \<noteq> height, ''coinbase createdAtBlock is not the block height'')]"

definition checkCoinbaseTail :: "int \<Rightarrow> derivedSettlement \<Rightarrow> candidate list \<Rightarrow> verdict" where
  "checkCoinbaseTail height d outs =
     ebind (if minerSlice d > 0
        then firstRefusal [(length outs \<noteq> 1, ''coinbase tail: exactly 1 output required'')]
        else firstRefusal [(length outs \<noteq> 0, ''coinbase tail: no output allowed'')]) (\<lambda>_.
     ebind (echeck (checkCoinbaseOut height d) outs) (\<lambda>_.
     firstRefusal [(valueSum outs \<noteq> minerSlice d, ''coinbase value is not the miner slice'')]))"

definition sumInputs :: "(string \<Rightarrow> anyBox option) \<Rightarrow> string list \<Rightarrow> refusal + int" where
  "sumInputs lookup ids = ebind (emap (\<lambda>i. case lookup i of
     None \<Rightarrow> Inl (Refused ''settlement input not found or already spent'') | Some b \<Rightarrow> Inr (boxValue b)) ids)
     (\<lambda>vs. Inr (sum_list vs))"

definition checkSettlement ::
    "settlementDeps \<Rightarrow> int \<Rightarrow> protocolEra list \<Rightarrow> int \<Rightarrow> int \<Rightarrow> settlementBody \<Rightarrow> utxoTransaction \<Rightarrow> verdict" where
  "checkSettlement deps height schedule emission minerRewardDelay body settlement =
     ebind (derive deps height emission minerRewardDelay body) (\<lambda>d.
     ebind (firstRefusal
       [(length (inputs settlement) \<noteq> length (ds_inputs d), ''settlement consumes a wrong number of boxes''),
        (inputs settlement \<noteq> ds_inputs d, ''settlement input is not the derived one''),
        (signatures settlement \<noteq> [], ''settlement carries a signature; no key authorizes it''),
        (likeTarget settlement \<noteq> None, ''settlement carries a likeTarget''),
        (post settlement \<noteq> None, ''settlement carries a post''),
        (postWithdraw settlement \<noteq> None, ''settlement carries a postWithdraw''),
        (\<not> verifyProtocolVersion (protocolVersion settlement) height schedule,
          ''settlement declares a wrong protocol version'')]) (\<lambda>_.
     ebind (checkDerivedOutputs (outputs settlement) (derivedOutputs d)) (\<lambda>_.
     ebind (checkCoinbaseTail height d (drop (length (derivedOutputs d)) (outputs settlement))) (\<lambda>_.
     ebind (sumInputs (s_getBox deps) (inputs settlement)) (\<lambda>totalIn.
     firstRefusal [(totalIn \<noteq> valueSum (outputs settlement), ''settlement non-conservation'')])))))"

end
