(* ===== verification/SettlementText.thy ===== *)
theory SettlementText
  imports Settlement
begin

text \<open>
  The text \<open>checkSettlement\<close> compares outputs by, \<open>candidateKey\<close>, decides equality of
  candidates: the decimal and hex renderings of the fields are injective, and the
  separators do not occur in them.
\<close>

section \<open>Decimals\<close>

definition readNat :: "string \<Rightarrow> nat" where
  "readNat cs = foldl (\<lambda>a c. 10 * a + (of_char c - 48)) 0 cs"

lemma of_char_digit: "(n :: nat) < 10 \<Longrightarrow> of_char (char_of (48 + n) :: char) = 48 + n"
  by (simp add: of_char_of)

lemma readNat_showNat: "readNat (showNat n) = n"
proof (induction n rule: showNat.induct)
  case (1 n)
  show ?case
  proof (cases "n < 10")
    case True
    then show ?thesis by (subst showNat.simps) (simp add: readNat_def of_char_of)
  next
    case False
    then show ?thesis using 1 by (subst showNat.simps) (simp add: readNat_def of_char_of)
  qed
qed

lemma digit_plain: "(d :: nat) < 10 \<Longrightarrow> char_of (48 + d) \<noteq> CHR ''|'' \<and> char_of (48 + d) \<noteq> CHR ''-''"
proof -
  assume "d < 10"
  from of_char_digit [OF this] have *: "of_char (char_of (48 + d) :: char) = 48 + d" .
  have "48 + d \<noteq> 124" "48 + d \<noteq> 45" using \<open>d < 10\<close> by simp_all
  moreover have "of_char CHR ''|'' = (124 :: nat)" "of_char CHR ''-'' = (45 :: nat)" by simp_all
  ultimately show ?thesis using * by (metis (full_types))
qed

lemma showNat_plain: "CHR ''|'' \<notin> set (showNat n)" "CHR ''-'' \<notin> set (showNat n)"
proof -
  have "CHR ''|'' \<notin> set (showNat n) \<and> CHR ''-'' \<notin> set (showNat n)"
  proof (induction n rule: showNat.induct)
    case (1 n)
    have "n mod 10 < 10" by simp
    note m = digit_plain [OF this]
    show ?case
    proof (cases "n < 10")
      case True
      then have "set (showNat n) = {char_of (48 + n)}" by (subst showNat.simps) simp
      with digit_plain [OF True] show ?thesis by (simp only: singleton_iff) metis
    next
      case False
      then have "set (showNat n) = insert (char_of (48 + n mod 10)) (set (showNat (n div 10)))"
        by (subst showNat.simps) simp
      with 1 [OF False] m show ?thesis by (simp only: insert_iff) metis
    qed
  qed
  then show "CHR ''|'' \<notin> set (showNat n)" "CHR ''-'' \<notin> set (showNat n)" by simp_all
qed

lemma showInt_plain: "CHR ''|'' \<notin> set (showInt i)"
  by (auto simp: showInt_def showNat_plain)

lemma showInt_inject: "showInt i = showInt j \<longleftrightarrow> i = j"
proof
  assume eq: "showInt i = showInt j"
  have nat_eq: "showNat a = showNat b \<Longrightarrow> a = b" for a b
    by (metis readNat_showNat)
  have no: "''-'' @ showNat a \<noteq> showNat b" for a b
    by (metis append_Cons list.set_intros(1) showNat_plain(2))
  show "i = j"
    using eq nat_eq no no [symmetric] by (fastforce simp: showInt_def split: if_splits)
qed simp

section \<open>Hex\<close>

lemma hexPairs_digits: "hexPairs s = Some bs \<Longrightarrow> c \<in> set s \<Longrightarrow> 0 \<le> indexOf c HEX 0"
  by (induction s arbitrary: bs rule: hexPairs.induct) (auto simp: Let_def split: if_splits)

lemma hex_plain: "CHR ''|'' \<notin> set (bytesToHex bs)"
proof
  assume "CHR ''|'' \<in> set (bytesToHex bs)"
  from hexPairs_digits [OF hexPairs_bytesToHex this] show False by (simp add: HEX_def)
qed

section \<open>Joined fields\<close>

lemma joinBar_Cons: "xs \<noteq> [] \<Longrightarrow> joinBar (x # xs) = x @ CHR ''|'' # joinBar xs"
  by (cases xs) auto

lemma split_bar:
  assumes "c \<notin> set a" "c \<notin> set b" "a @ c # x = b @ c # y"
  shows "a = b \<and> x = y"
  using assms
proof (induction a arbitrary: b)
  case Nil
  then show ?case by (cases b) auto
next
  case (Cons d a)
  then show ?case by (cases b) auto
qed

lemma joinBar_inject:
  assumes "\<forall>s\<in>set xs. CHR ''|'' \<notin> set s" "\<forall>s\<in>set ys. CHR ''|'' \<notin> set s"
    "xs \<noteq> []" "ys \<noteq> []" "joinBar xs = joinBar ys"
  shows "xs = ys"
  using assms
proof (induction xs arbitrary: ys)
  case (Cons x xs)
  from Cons.prems(4) obtain y zs where ys: "ys = y # zs" by (cases ys) auto
  have bar: "CHR ''|'' \<in> set (joinBar (a # b # cs))" for a b cs by simp
  show ?case
  proof (cases "xs = [] \<or> zs = []")
    case True
    then show ?thesis using Cons.prems bar unfolding ys
      by (cases xs; cases zs) auto
  next
    case False
    then have "x @ CHR ''|'' # joinBar xs = y @ CHR ''|'' # joinBar zs"
      using Cons.prems(5) by (simp add: ys joinBar_Cons)
    from split_bar [OF _ _ this] have "x = y" "joinBar xs = joinBar zs"
      using Cons.prems(1,2) by (auto simp: ys)
    with Cons.IH [of zs] Cons.prems False show ?thesis by (auto simp: ys)
  qed
qed simp

lemma split_eq: 
  assumes "CHR ''='' \<notin> set k" "CHR ''='' \<notin> set k'" "k @ ''='' @ v = k' @ ''='' @ v'"
  shows "k = k' \<and> v = v'"
  using split_bar [OF assms(1,2), of v v'] assms(3) by simp

section \<open>The key decides equality\<close>

lemma fields_plain:
  assumes "(k, v) \<in> set (candidateFields c)"
  shows "CHR ''='' \<notin> set k" "CHR ''|'' \<notin> set (k @ ''='' @ v)"
proof -
  have "CHR ''|'' \<notin> set (boxTypeName t)" for t by (cases t) simp_all
  then show "CHR ''='' \<notin> set k" "CHR ''|'' \<notin> set (k @ ''='' @ v)"
    using assms by (auto simp: candidateFields_def fieldTexts_def showInt_plain hex_plain
        split: boxTail.splits if_splits option.splits)
qed

lemma boxTypeName_inject: "boxTypeName t = boxTypeName u \<longleftrightarrow> t = u"
  by (cases t; cases u) simp_all

lemma fieldTexts_set: "set (fieldTexts (boxTail c)) =
    {p \<in> set (candidateFields c). fst p \<notin> {''boxType'', ''value'', ''createdAtBlock''}}"
proof -
  have "\<forall>p \<in> set (fieldTexts t). fst p \<notin> {''boxType'', ''value'', ''createdAtBlock''}" for t
    by (cases t) (simp_all add: fieldTexts_def split: option.split)
  then show ?thesis unfolding candidateFields_def by fastforce
qed

lemma fields_inject:
  assumes "set (candidateFields c) = set (candidateFields d)"
  shows "c = (d :: candidate)"
proof -
  have sub: "p \<in> set (candidateFields c) \<longleftrightarrow> p \<in> set (candidateFields d)" for p
    using assms by simp
  have keys: "''boxType'' \<notin> fst ` set (fieldTexts t)" "''value'' \<notin> fst ` set (fieldTexts t)"
    "''createdAtBlock'' \<notin> fst ` set (fieldTexts t)" for t
    by (auto simp: fieldTexts_def split: boxTail.splits if_splits option.splits)
  have ty: "boxTypeOf c = boxTypeOf d"
    using sub [of "(''boxType'', boxTypeName (boxTypeOf c))"] keys(1)
    by (force simp: candidateFields_def boxTypeName_inject)
  have v: "boxValue c = boxValue d"
    using sub [of "(''value'', showInt (boxValue c))"] keys(2)
    by (force simp: candidateFields_def showInt_inject)
  have h: "createdAtBlock c = createdAtBlock d"
    using sub [of "(''createdAtBlock'', showInt (createdAtBlock c))"] keys(3)
    by (force simp: candidateFields_def showInt_inject)
  have ft: "p \<in> set (fieldTexts (boxTail c)) \<longleftrightarrow> p \<in> set (fieldTexts (boxTail d))" for p
    unfolding fieldTexts_set using assms by simp
  have "boxTail c = boxTail d"
  proof (cases "boxTail c")
    case (Karma owner inc)
    then obtain owner' inc' where d: "boxTail d = Karma owner' inc'" using ty by (cases "boxTail d") auto
    show ?thesis using ft [of "(''owner'', bytesToHex owner)"] ft [of "(''income'', ''true'')"]
      by (auto simp: Karma d fieldTexts_def split: if_splits)
  next
    case (Credit owner lock)
    then obtain owner' lock' where d: "boxTail d = Credit owner' lock'" using ty by (cases "boxTail d") auto
    show ?thesis using ft [of "(''owner'', bytesToHex owner)"]
        ft [of "(''lockedUntilBlock'', showInt (the lock))"] ft [of "(''lockedUntilBlock'', showInt (the lock'))"]
      by (cases lock; cases lock') (auto simp: Credit d fieldTexts_def showInt_inject)
  next
    case (GenesisProof p)
    then obtain p' where d: "boxTail d = GenesisProof p'" using ty by (cases "boxTail d") auto
    show ?thesis using ft [of "(''payload'', bytesToHex p)"] by (auto simp: GenesisProof d fieldTexts_def)
  next
    case (Bond i k)
    then obtain i' k' where d: "boxTail d = Bond i' k'" using ty by (cases "boxTail d") auto
    show ?thesis using ft [of "(''inviterId'', bytesToHex i)"] ft [of "(''inviteePublicKey'', bytesToHex k)"]
      by (auto simp: Bond d fieldTexts_def)
  next
    case (Vouch i k)
    then obtain i' k' where d: "boxTail d = Vouch i' k'" using ty by (cases "boxTail d") auto
    show ?thesis using ft [of "(''voucherId'', bytesToHex i)"] ft [of "(''targetId'', bytesToHex k)"]
      by (auto simp: Vouch d fieldTexts_def)
  next
    case (LikeAccrual a)
    then obtain a' where d: "boxTail d = LikeAccrual a'" using ty by (cases "boxTail d") auto
    show ?thesis using ft [of "(''author'', bytesToHex a)"] by (auto simp: LikeAccrual d fieldTexts_def)
  next
    case (VouchEscrow i k)
    then obtain i' k' where d: "boxTail d = VouchEscrow i' k'" using ty by (cases "boxTail d") auto
    show ?thesis using ft [of "(''owner'', bytesToHex i)"] ft [of "(''releaseAtBlock'', showInt k)"]
      by (auto simp: VouchEscrow d fieldTexts_def showInt_inject)
  next
    case (Username i k)
    then obtain i' k' where d: "boxTail d = Username i' k'" using ty by (cases "boxTail d") auto
    show ?thesis using ft [of "(''owner'', bytesToHex i)"] ft [of "(''name'', bytesToHex k)"]
      by (auto simp: Username d fieldTexts_def)
  next
    case (BackerStake i k)
    then obtain i' k' where d: "boxTail d = BackerStake i' k'" using ty by (cases "boxTail d") auto
    show ?thesis using ft [of "(''owner'', bytesToHex i)"] ft [of "(''weight'', showInt k)"]
      by (auto simp: BackerStake d fieldTexts_def showInt_inject)
  next
    case (BackerUnstake i k)
    then obtain i' k' where d: "boxTail d = BackerUnstake i' k'" using ty by (cases "boxTail d") auto
    show ?thesis using ft [of "(''owner'', bytesToHex i)"] ft [of "(''weight'', showInt k)"]
      by (auto simp: BackerUnstake d fieldTexts_def showInt_inject)
  next
    case (BackerPool i k)
    then obtain i' k' where d: "boxTail d = BackerPool i' k'" using ty by (cases "boxTail d") auto
    show ?thesis using ft [of "(''staked'', showInt i)"] ft [of "(''accrual'', showInt k)"]
      by (auto simp: BackerPool d fieldTexts_def showInt_inject)
  qed (use ty in \<open>cases "boxTail d"; simp\<close>)+
  with v h show ?thesis by simp
qed

lemma candidateKey_inject [simp]: "candidateKey c = candidateKey d \<longleftrightarrow> c = d"
proof
  assume eq: "candidateKey c = candidateKey d"
  let ?t = "\<lambda>(k, v). k @ ''='' @ (v :: string)"
  let ?s = "\<lambda>c. sort_key fst (candidateFields c)"
  have ne: "?s c \<noteq> []" for c :: candidate
    by (simp add: candidateFields_def)
  have plain: "\<forall>x \<in> set (map ?t (?s c)). CHR ''|'' \<notin> set x" for c :: candidate
    using fields_plain(2) [of _ _ c] by fastforce
  have "map ?t (?s c) = map ?t (?s d)"
    by (rule joinBar_inject [OF plain plain]) (use ne eq in \<open>simp_all add: candidateKey_def\<close>)
  moreover have "inj_on ?t (set (?s c) \<union> set (?s d))"
  proof (rule inj_onI)
    fix p q assume "p \<in> set (?s c) \<union> set (?s d)" "q \<in> set (?s c) \<union> set (?s d)" "?t p = ?t q"
    then have "CHR ''='' \<notin> set (fst p)" "CHR ''='' \<notin> set (fst q)"
        "fst p @ ''='' @ snd p = fst q @ ''='' @ snd q"
      using fields_plain(1) [of "fst p" "snd p"] fields_plain(1) [of "fst q" "snd q"]
      by (auto simp: split_beta)
    from split_eq [OF this] show "p = q" by (simp add: prod_eq_iff)
  qed
  ultimately have "?s c = ?s d"
    by (rule map_inj_on)
  then have "set (candidateFields c) = set (candidateFields d)" by (metis set_sort)
  then show "c = d" by (rule fields_inject)
qed simp

end
