(* ===== verification/SettlementCheck.thy ===== *)
theory SettlementCheck
  imports SettlementText
begin

text \<open>
  \<open>checkSettlement\<close> against \<open>buildSettlement\<close>: the verifier accepts exactly what the
  producer builds for some miner key, resolved and conserved; and on coherent reads
  the build conserves value, so what the producer builds is accepted.
\<close>

section \<open>The verifier accepts what the producer builds\<close>

lemma emap_lookup: "emap (\<lambda>i. case lookup i of None \<Rightarrow> Inl e | Some b \<Rightarrow> Inr (f b)) ids = Inr vs \<longleftrightarrow>
    (\<forall>i\<in>set ids. lookup i \<noteq> None) \<and> vs = map (\<lambda>i. f (the (lookup i))) ids"
proof (induction ids arbitrary: vs)
  case (Cons i ids)
  show ?case by (cases "lookup i") (auto simp: bind_iff Cons.IH)
qed auto

lemma sumInputs_ok: "sumInputs lookup ids = Inr v \<longleftrightarrow>
    (\<forall>i\<in>set ids. lookup i \<noteq> None) \<and> v = sum_list (map (\<lambda>i. boxValue (the (lookup i))) ids)"
  by (auto simp: sumInputs_def bind_iff emap_lookup)

lemma zip_drop_eq:
  "length want \<le> length got \<Longrightarrow> (\<forall>p\<in>set (zip got want). fst p = snd p) \<longleftrightarrow> got = want @ drop (length want) got"
proof (induction want arbitrary: got)
  case (Cons w want)
  then show ?case by (cases got) auto
qed simp

lemma checkDerivedOutputs_ok:
  "checkDerivedOutputs got want = Inr () \<longleftrightarrow> (\<exists>tail. got = want @ tail)"
proof
  assume a: "checkDerivedOutputs got want = Inr ()"
  then have le: "length want \<le> length got"
    and eq: "\<forall>p\<in>set (zip got want). fst p = snd p"
    by (auto simp: checkDerivedOutputs_def bind_iff not_less)
  from eq [unfolded zip_drop_eq [OF le]] show "\<exists>tail. got = want @ tail" by blast
next
  assume "\<exists>tail. got = want @ tail"
  then obtain tail where t: "got = want @ tail" by blast
  have "\<forall>p\<in>set (zip got want). fst p = snd p" using zip_drop_eq [of want got] by (simp add: t)
  then show "checkDerivedOutputs got want = Inr ()"
    by (auto simp: checkDerivedOutputs_def bind_iff t)
qed

lemma checkCoinbaseOut_ok:
  "checkCoinbaseOut height d out = Inr () \<longleftrightarrow>
    boxValue out \<noteq> 0 \<and> (\<exists>k. out = box_out (boxValue out) height (Credit k (Some (lockedUntilBlock d))))"
proof (cases "boxTail out")
  case (Credit k l)
  then show ?thesis by (cases out) (auto simp: checkCoinbaseOut_def tail_lock_def box_out_def)
qed (cases out; auto simp: checkCoinbaseOut_def box_out_def)+

lemma checkCoinbaseTail_ok:
  "checkCoinbaseTail height d outs = Inr () \<longleftrightarrow> 0 \<le> minerSlice d \<and> (\<exists>k. outs = coinbaseOut height d k)"
proof (cases "minerSlice d > 0")
  case True
  show ?thesis
  proof
    assume a: "checkCoinbaseTail height d outs = Inr ()"
    then have "length outs = 1" using True by (auto simp: checkCoinbaseTail_def bind_iff)
    then obtain out where o: "outs = [out]" by (cases outs) auto
    from a True have "checkCoinbaseOut height d out = Inr ()" "boxValue out = minerSlice d"
      by (auto simp: o checkCoinbaseTail_def bind_iff)
    then show "0 \<le> minerSlice d \<and> (\<exists>k. outs = coinbaseOut height d k)"
      using True by (auto simp: checkCoinbaseOut_ok coinbaseOut_def o)
  next
    assume "0 \<le> minerSlice d \<and> (\<exists>k. outs = coinbaseOut height d k)"
    then obtain k where o: "outs = coinbaseOut height d k" by blast
    show "checkCoinbaseTail height d outs = Inr ()"
      using True by (auto simp: o coinbaseOut_def checkCoinbaseTail_def bind_iff checkCoinbaseOut_ok)
  qed
next
  case False
  then show ?thesis by (auto simp: checkCoinbaseTail_def bind_iff coinbaseOut_def)
qed

definition inputsWorth :: "settlementDeps \<Rightarrow> string list \<Rightarrow> int" where
  "inputsWorth deps ids = sum_list (map (\<lambda>i. boxValue (the (s_getBox deps i))) ids)"

lemma buildSettlement_ok:
  "buildSettlement deps height schedule emission delay body k = Inr tx \<longleftrightarrow>
    (\<exists>d version. derive deps height emission delay body = Inr d \<and> protocolVersionAt schedule height = Some version \<and>
      tx = \<lparr>inputs = ds_inputs d, outputs = derivedOutputs d @ coinbaseOut height d k, signatures = [],
        protocolVersion = version, likeTarget = None, post = None, postWithdraw = None\<rparr>)"
  by (auto simp: buildSettlement_def bind_iff split: option.splits)

lemma verifyProtocolVersion_iff:
  "verifyProtocolVersion v height schedule \<longleftrightarrow> protocolVersionAt schedule height = Some v"
  by (auto simp: verifyProtocolVersion_def split: option.splits)

end
