(* ===== verification/SettlementWorth.thy ===== *)
theory SettlementWorth
  imports SettlementCheck
begin

text \<open>
  What a settlement conserves.  \<open>settlement_reads\<close> and \<open>body_coherent\<close> say that the
  boxes the reads and the body name are the ones the ids resolve to and that no
  value is negative; from them every leg is accounted for, and the producer's
  settlement passes the verifier's last check.
\<close>

section \<open>Coherent reads\<close>

definition holds :: "settlementDeps \<Rightarrow> anyBox \<Rightarrow> bool" where
  "holds deps b \<longleftrightarrow> s_getBox deps (boxId b) = Some b"

definition settlement_reads :: "settlementDeps \<Rightarrow> int \<Rightarrow> bool" where
  "settlement_reads deps height \<longleftrightarrow>
     (\<forall>b. s_getEmissionBox deps = Inr (Some b) \<longrightarrow> holds deps b \<and> 0 \<le> boxValue b) \<and>
     (\<forall>b. s_getTreasuryBox deps = Inr (Some b) \<longrightarrow> holds deps b) \<and>
     (\<forall>b. s_getKarmaPoolBox deps = Inr (Some b) \<longrightarrow> holds deps b) \<and>
     (\<forall>b. s_getBackerPoolBox deps = Some b \<longrightarrow> holds deps b \<and> 0 \<le> tail_accrual (boxTail b)) \<and>
     (\<forall>k ids b. getLikeCarryBox deps k ids = Some b \<longrightarrow> holds deps b \<and> 0 \<le> boxValue b) \<and>
     (\<forall>k ids b. getIncomeBox deps k ids = Some b \<longrightarrow> holds deps b \<and> 0 \<le> boxValue b) \<and>
     (\<forall>bs. getBondsSettlingAt deps height = Inr bs \<longrightarrow> (\<forall>b\<in>set bs. holds deps b \<and> 0 \<le> boxValue b)) \<and>
     (\<forall>k. 0 \<le> getLifetimeLikes deps k) \<and>
     (\<forall>e\<in>set (getEscrowsReleasableAt deps height). holds deps e \<and> 0 \<le> boxValue e) \<and>
     (\<forall>v\<in>set (s_getLapsedVouches deps). holds deps v) \<and>
     (\<forall>p\<in>set (getDecayPlans deps). 0 \<le> burnAmount p \<and> (\<forall>i\<in>set (consumedBoxIds p). s_getBox deps i \<noteq> None) \<and>
        inputsWorth deps (consumedBoxIds p) = (if burnAmount p > 0 then newValue p + burnAmount p else 0))"

definition body_coherent :: "settlementDeps \<Rightarrow> settlementBody \<Rightarrow> bool" where
  "body_coherent deps body \<longleftrightarrow>
     0 \<le> sb_fees body \<and> 0 \<le> sb_rent body \<and> 0 \<le> sb_actors body \<and>
     (\<forall>i\<in>set (feeBoxIds body). s_getBox deps i \<noteq> None) \<and>
     inputsWorth deps (feeBoxIds body) = sb_fees body + sb_rent body \<and>
     (\<forall>(k, amount)\<in>set (invites body). 0 \<le> amount) \<and>
     (\<forall>m\<in>set (markers body). 0 \<le> marker_value m \<and>
        (\<exists>b. s_getBox deps (marker_id m) = Some b \<and> boxValue b = marker_value m)) \<and>
     (\<forall>(i, v)\<in>set (priceBoxes body). 0 \<le> v \<and> (\<exists>b. s_getBox deps i = Some b \<and> boxValue b = v)) \<and>
     (\<forall>u\<in>set (unstakes body). 0 \<le> unstake_weight u \<and>
        (\<exists>b. s_getBox deps (unstake_id u) = Some b \<and> boxValue b = 0))"

lemmas readsD = settlement_reads_def [THEN iffD1]

lemma inputsWorth_simps [simp]:
  "inputsWorth deps [] = 0" "inputsWorth deps (i # is) = boxValue (the (s_getBox deps i)) + inputsWorth deps is"
  "inputsWorth deps (is @ js) = inputsWorth deps is + inputsWorth deps js"
  by (simp_all add: inputsWorth_def)

lemma inputsWorth_boxes: "\<forall>b\<in>set bs. holds deps b \<Longrightarrow> inputsWorth deps (map boxId bs) = valueSum bs"
  by (induction bs) (auto simp: holds_def)

lemma inputsWorth_named:
  "\<forall>x\<in>set xs. \<exists>b. s_getBox deps (f x) = Some b \<and> boxValue b = g x \<Longrightarrow>
    inputsWorth deps (map f xs) = sum_list (map g xs)"
  by (induction xs) auto

lemma inputsWorth_concat: "inputsWorth deps (concat xss) = sum_list (map (inputsWorth deps) xss)"
  by (induction xss) auto

section \<open>Tallies\<close>

definition tallySum :: "tally \<Rightarrow> int" where
  "tallySum rows = sum_list (map (snd \<circ> snd) rows)"

lemma update_sum:
  "map_of rows key = Some (k', t) \<Longrightarrow> distinct (map fst rows) \<Longrightarrow>
    tallySum (AList.update key (k', t + v) rows) = tallySum rows + v"
  by (induction rows) (auto simp: tallySum_def)

lemma addTo_sum:
  assumes "distinct (map fst rows)"
  shows "distinct (map fst (addTo k v rows)) \<and> tallySum (addTo k v rows) = tallySum rows + v"
proof (cases "map_of rows (bytesToHex k)")
  case None
  then have "bytesToHex k \<notin> fst ` set rows" by (simp add: map_of_eq_None_iff)
  with None assms show ?thesis by (auto simp: addTo_def tallySum_def)
next
  case (Some p)
  with assms show ?thesis
    using update_sum [of rows "bytesToHex k" "fst p" "snd p" v]
    by (auto simp: addTo_def split_beta distinct_update)
qed

lemma fold_tally_sum:
  assumes "\<And>x rows. distinct (map fst rows) \<Longrightarrow>
      distinct (map fst (step x rows)) \<and> tallySum (step x rows) = tallySum rows + f x"
    and "distinct (map fst rows)"
  shows "distinct (map fst (fold step xs rows)) \<and> tallySum (fold step xs rows) = tallySum rows + sum_list (map f xs)"
  using assms(2)
proof (induction xs arbitrary: rows)
  case (Cons x xs)
  from assms(1) [OF Cons.prems] have
    "distinct (map fst (step x rows))" "tallySum (step x rows) = tallySum rows + f x" by blast+
  with Cons.IH [of "step x rows"] show ?case by simp
qed simp

lemma sum_list_sort: "sum_list (map f (sort xs)) = sum_list (map (f :: 'a :: linorder \<Rightarrow> int) xs)"
  by (metis mset_map mset_sort sum_mset_sum_list)

lemma inOrder_sum: 
  assumes "distinct (map fst rows)"
  shows "sum_list (map snd (inOrder rows)) = tallySum rows"
proof -
  have "sum_list (map snd (inOrder rows)) = sum_list (map (\<lambda>key. snd (the (map_of rows key))) (map fst rows))"
    by (simp only: inOrder_def map_map comp_def sum_list_sort)
  also have "\<dots> = sum_list (map (\<lambda>p. snd (snd p)) rows)"
    using assms by (auto intro!: arg_cong [where f = sum_list] map_cong simp: map_of_is_SomeI split_beta)
  finally show ?thesis by (simp add: tallySum_def comp_def)
qed

lemma byAuthor_sum:
  "distinct (map fst (byAuthor ms)) \<and> tallySum (byAuthor ms) = sum_list (map marker_value ms)"
  using fold_tally_sum [of "\<lambda>m. addTo (marker_author m) (marker_value m)" marker_value "[]" ms] addTo_sum
  by (simp add: byAuthor_def tallySum_def)

section \<open>The like leg\<close>

lemma bdiv_bmod: "bmod a b + b * bdiv a b = a"
  by (simp add: bmod_def)

definition carryOf :: "settlementDeps \<Rightarrow> settlementBody \<Rightarrow> byte list \<Rightarrow> anyBox option" where
  "carryOf deps body k = (case getLikeCarryBox deps k (map marker_id (markers body)) of
     None \<Rightarrow> None | Some b \<Rightarrow> if boxId b = [] then None else Some b)"

lemma addTo_nonneg:
  assumes "\<forall>r\<in>set rows. 0 \<le> snd (snd r)" "0 \<le> v"
  shows "\<forall>r\<in>set (addTo a v rows). 0 \<le> snd (snd r)"
proof -
  have upd: "\<forall>r\<in>set rows. 0 \<le> snd (snd r) \<Longrightarrow> 0 \<le> snd p \<Longrightarrow>
      \<forall>r\<in>set (AList.update key' p rows). 0 \<le> snd (snd r)" for key' and p :: "byte list \<times> int"
    by (induction rows) (auto split: if_splits)
  show ?thesis
  proof (cases "map_of rows (bytesToHex a)")
    case None
    then show ?thesis using assms by (auto simp: addTo_def)
  next
    case (Some p)
    then have "(bytesToHex a, p) \<in> set rows" by (rule map_of_SomeD)
    with assms have "0 \<le> snd p" by (cases p) auto
    then show ?thesis
      using upd [OF assms(1), of "(fst p, snd p + v)" "bytesToHex a"] assms(2)
      by (simp add: addTo_def Some split_beta)
  qed
qed

lemma byAuthor_nonneg:
  assumes "\<forall>m\<in>set ms. 0 \<le> marker_value m"
  shows "\<forall>r\<in>set (byAuthor ms). 0 \<le> snd (snd r)"
proof -
  have "\<forall>r\<in>set rows. 0 \<le> snd (snd r) \<Longrightarrow> \<forall>m\<in>set ms. 0 \<le> marker_value m \<Longrightarrow>
      \<forall>r\<in>set (fold (\<lambda>m. addTo (marker_author m) (marker_value m)) ms rows). 0 \<le> snd (snd r)" for rows
  proof (induction ms arbitrary: rows)
    case (Cons m ms)
    have "\<forall>r\<in>set (addTo (marker_author m) (marker_value m) rows). 0 \<le> snd (snd r)"
      using Cons.prems by (intro addTo_nonneg) simp_all
    from Cons.IH [OF this] Cons.prems(2) show ?case by simp
  qed simp
  from this [of "[]"] assms show ?thesis by (simp add: byAuthor_def)
qed

lemma inOrder_set: "p \<in> set (inOrder rows) \<Longrightarrow> \<exists>key. (key, p) \<in> set rows"
proof -
  assume "p \<in> set (inOrder rows)"
  then obtain key where "key \<in> fst ` set rows" "p = the (map_of rows key)" by (auto simp: inOrder_def)
  then have "map_of rows key = Some p" by (cases "map_of rows key") (auto simp: map_of_eq_None_iff)
  then show ?thesis by (blast dest: map_of_SomeD)
qed

lemma payoutFor_ok:
  assumes "payoutFor (getLikeCarryBox deps) (map marker_id (markers body)) (k, t) = (p, q)"
    "settlement_reads deps h" "0 \<le> t"
  shows "lp_author p = k"
    "lp_paid p + lp_carry p + q = t + (case carryOf deps body k of None \<Rightarrow> 0 | Some b \<Rightarrow> boxValue b)"
    "lp_carryBoxId p = map_option boxId (carryOf deps body k)"
    "0 \<le> lp_paid p" "0 \<le> lp_carry p" "0 \<le> q"
    "lp_carryBoxId p = Some i \<Longrightarrow> \<exists>b. s_getBox deps i = Some b \<and> carryOf deps body k = Some b"
proof -
  define tot where "tot = t + (case carryOf deps body k of None \<Rightarrow> 0 | Some b \<Rightarrow> boxValue b)"
  have b: "carryOf deps body k = Some b \<Longrightarrow> holds deps b \<and> 0 \<le> boxValue b" for b
    using assms(2) unfolding settlement_reads_def carryOf_def by (auto split: option.splits if_splits)
  have pq: "p = \<lparr>lp_author = k, lp_paid = bdiv tot 5 * 4, lp_carry = bmod tot 5,
      lp_carryBoxId = map_option boxId (carryOf deps body k)\<rparr>" "q = bdiv tot 5"
    using assms(1) by (auto simp: payoutFor_def LIKES_PER_KARMA_PAYOUT_def Let_def carryOf_def tot_def)
  have "0 \<le> tot" using b assms(3) by (auto simp: tot_def split: option.splits)
  then have d: "bdiv tot 5 = tot div 5" "bmod tot 5 = tot mod 5"
    by (simp_all add: bmod_def bdiv_nonneg minus_mult_div_eq_mod)
  show "lp_author p = k" "lp_carryBoxId p = map_option boxId (carryOf deps body k)" by (simp_all add: pq)
  show "0 \<le> lp_paid p" "0 \<le> lp_carry p" "0 \<le> q"
    using \<open>0 \<le> tot\<close> by (simp_all add: pq d pos_imp_zdiv_nonneg_iff)
  show "lp_paid p + lp_carry p + q = t + (case carryOf deps body k of None \<Rightarrow> 0 | Some b \<Rightarrow> boxValue b)"
    using bdiv_bmod [of tot 5] by (simp add: pq tot_def [symmetric])
  show "\<exists>b. s_getBox deps i = Some b \<and> carryOf deps body k = Some b" if "lp_carryBoxId p = Some i"
    using that b by (auto simp: pq holds_def)
qed

lemma likes_conserve:
  assumes "computeLikePayouts body (getLikeCarryBox deps) = (payouts, pooled)" "settlement_reads deps h"
    "body_coherent deps body"
  shows "sum_list (map lp_paid payouts) + sum_list (map lp_carry payouts) + pooled =
      sum_list (map marker_value (markers body)) + inputsWorth deps (List.map_filter lp_carryBoxId payouts)"
    and "\<forall>p\<in>set payouts. 0 \<le> lp_paid p \<and> 0 \<le> lp_carry p" "0 \<le> pooled"
    "\<forall>i\<in>set (List.map_filter lp_carryBoxId payouts). s_getBox deps i \<noteq> None"
proof -
  let ?f = "payoutFor (getLikeCarryBox deps) (map marker_id (markers body))"
  let ?rows = "inOrder (byAuthor (markers body))"
  have pay: "payouts = map (fst \<circ> ?f) ?rows" "pooled = sum_list (map (snd \<circ> ?f) ?rows)"
    using assms(1) by (simp_all add: computeLikePayouts_def Let_def)
  have nn: "\<forall>r\<in>set ?rows. 0 \<le> snd r"
  proof
    fix r assume "r \<in> set ?rows"
    then obtain key where "(key, r) \<in> set (byAuthor (markers body))" using inOrder_set by blast
    moreover have "\<forall>m\<in>set (markers body). 0 \<le> marker_value m"
      using assms(3) by (simp add: body_coherent_def)
    ultimately show "0 \<le> snd r" using byAuthor_nonneg by fastforce
  qed
  have gen: "(\<forall>r\<in>set rows. 0 \<le> snd r) \<Longrightarrow>
      sum_list (map lp_paid (map (fst \<circ> ?f) rows)) + sum_list (map lp_carry (map (fst \<circ> ?f) rows)) +
        sum_list (map (snd \<circ> ?f) rows) =
      sum_list (map snd rows) + inputsWorth deps (List.map_filter lp_carryBoxId (map (fst \<circ> ?f) rows)) \<and>
      (\<forall>p\<in>set (map (fst \<circ> ?f) rows). 0 \<le> lp_paid p \<and> 0 \<le> lp_carry p) \<and>
      0 \<le> sum_list (map (snd \<circ> ?f) rows) \<and>
      (\<forall>i\<in>set (List.map_filter lp_carryBoxId (map (fst \<circ> ?f) rows)). s_getBox deps i \<noteq> None)" for rows
  proof (induction rows)
    case Nil
    then show ?case by (simp add: map_filter_simps)
  next
    case (Cons r rows)
    obtain k t where r: "r = (k, t)" by (cases r)
    obtain p q where pq: "?f (k, t) = (p, q)" by (cases "?f (k, t)")
    from Cons.prems have "0 \<le> t" by (simp add: r)
    note ok = payoutFor_ok [OF pq assms(2) this]
    have w: "inputsWorth deps (case lp_carryBoxId p of None \<Rightarrow> [] | Some i \<Rightarrow> [i]) =
        (case carryOf deps body k of None \<Rightarrow> 0 | Some b \<Rightarrow> boxValue b)"
      using ok(3,7) by (auto split: option.splits)
    show ?case
      using Cons ok(2,4,5,6) w ok(7)
      by (auto simp: r pq map_filter_simps split: option.splits)
  qed
  from gen [OF nn] byAuthor_sum [of "markers body"] inOrder_sum [of "byAuthor (markers body)"] pay
  show "sum_list (map lp_paid payouts) + sum_list (map lp_carry payouts) + pooled =
      sum_list (map marker_value (markers body)) + inputsWorth deps (List.map_filter lp_carryBoxId payouts)"
    and "\<forall>p\<in>set payouts. 0 \<le> lp_paid p \<and> 0 \<le> lp_carry p" "0 \<le> pooled"
    "\<forall>i\<in>set (List.map_filter lp_carryBoxId payouts). s_getBox deps i \<noteq> None"
    by simp_all
qed

section \<open>The income leg\<close>

lemma addIncome_sum:
  assumes "distinct (map fst rows)"
  shows "distinct (map fst (addIncome x rows)) \<and>
    tallySum (addIncome x rows) = tallySum rows + (if snd x \<le> 0 then 0 else snd x)"
  using addTo_sum [OF assms, of "fst x" "snd x"] assms by (cases x) (simp add: addIncome_def)

lemma addIncome_pos:
  "\<forall>r\<in>set rows. 0 \<le> snd (snd r) \<Longrightarrow> \<forall>r\<in>set (addIncome x rows). 0 \<le> snd (snd r)"
  using addTo_nonneg [of rows "snd x" "fst x"] by (cases x) (simp add: addIncome_def)

lemma income_tally:
  "distinct (map fst (fold addIncome xs [])) \<and> (\<forall>r\<in>set (fold addIncome xs []). 0 \<le> snd (snd r)) \<and>
    tallySum (fold addIncome xs []) = sum_list (map (\<lambda>x. if snd x \<le> 0 then 0 else snd x) xs)"
proof -
  have pos: "\<forall>r\<in>set rows. 0 \<le> snd (snd r) \<Longrightarrow> \<forall>r\<in>set (fold addIncome xs rows). 0 \<le> snd (snd r)" for rows
  proof (induction xs arbitrary: rows)
    case (Cons x xs)
    from Cons.IH [OF addIncome_pos [OF Cons.prems]] show ?case by simp
  qed simp
  have "tallySum ([] :: tally) = 0" by (simp add: tallySum_def)
  then show ?thesis
    using pos [of "[]"] fold_tally_sum [of addIncome "\<lambda>x. if snd x \<le> 0 then 0 else snd x" "[]" xs] addIncome_sum by simp
qed

lemma sum_nonneg_part:
  "\<forall>x\<in>set xs. 0 \<le> f x \<Longrightarrow> sum_list (map (\<lambda>x. if f x \<le> 0 then 0 else f x) xs) = sum_list (map (f :: 'a \<Rightarrow> int) xs)"
  by (induction xs) auto

lemma sum_filter_pos:
  "\<forall>x\<in>set xs. 0 \<le> f x \<Longrightarrow> sum_list (map f (filter (\<lambda>x. f x > 0) xs)) = sum_list (map (f :: 'a \<Rightarrow> int) xs)"
  by (induction xs) auto

lemma vestedOf_bounds:
  assumes "settlement_reads deps h" "0 \<le> boxValue b"
  shows "0 \<le> vestedOf deps b \<and> vestedOf deps b \<le> boxValue b"
proof -
  have "0 \<le> getLifetimeLikes deps k" for k using assms(1) by (simp add: settlement_reads_def)
  then show ?thesis using assms(2)
    by (simp add: vestedOf_def vestedPart_def Let_def INVITE_BOND_VEST_PER_LIKES_def bdiv_nonneg
        pos_imp_zdiv_nonneg_iff)
qed

lemma incomeRows_sum:
  assumes "settlement_reads deps h" "\<forall>p\<in>set payouts. 0 \<le> lp_paid p"
    "\<forall>b\<in>set bonds. 0 \<le> boxValue b" "\<forall>e\<in>set escrows. 0 \<le> boxValue e"
    "rows = incomeRows deps payouts bonds escrows ids"
  shows "sum_list (map in_amount rows) =
      sum_list (map lp_paid payouts) + sum_list (map (vestedOf deps) bonds) + valueSum escrows"
    "\<forall>r\<in>set rows. 0 \<le> in_amount r \<and> 0 \<le> incomeBase r"
    "inputsWorth deps (List.map_filter (map_option boxId \<circ> in_box) rows) = sum_list (map incomeBase rows)"
    "\<forall>i\<in>set (List.map_filter (map_option boxId \<circ> in_box) rows). s_getBox deps i \<noteq> None"
proof -
  let ?xs = "map (\<lambda>p. (lp_author p, lp_paid p)) payouts @ map (\<lambda>b. (inviterOf b, vestedOf deps b)) bonds @
      map (\<lambda>e. (ownerOf e, boxValue e)) escrows"
  let ?t = "incomeByOwner deps payouts bonds escrows"
  have t: "?t = fold addIncome ?xs []" by (simp add: incomeByOwner_def)
  note tally = income_tally [of ?xs, folded t]
  have "\<forall>x\<in>set ?xs. 0 \<le> snd x"
    using assms(2-4) vestedOf_bounds [OF assms(1)] by auto
  from sum_nonneg_part [OF this] tally
  have sum: "tallySum ?t = sum_list (map lp_paid payouts) + sum_list (map (vestedOf deps) bonds) + valueSum escrows"
    by (simp add: valueSum_def comp_def)
  have amounts: "map in_amount rows = map snd (inOrder ?t)"
    by (simp add: assms(5) incomeRows_def split_beta comp_def)
  show "sum_list (map in_amount rows) =
      sum_list (map lp_paid payouts) + sum_list (map (vestedOf deps) bonds) + valueSum escrows"
    using inOrder_sum [of ?t] tally by (simp only: amounts sum)
  have box: "in_box r = Some b \<Longrightarrow> r \<in> set rows \<Longrightarrow> holds deps b \<and> 0 \<le> boxValue b" for r b
    using assms(1) unfolding settlement_reads_def assms(5) incomeRows_def by (auto simp: split_beta)
  show "\<forall>r\<in>set rows. 0 \<le> in_amount r \<and> 0 \<le> incomeBase r"
  proof
    fix r assume r: "r \<in> set rows"
    then have "in_amount r \<in> snd ` set (inOrder ?t)"
      unfolding assms(5) incomeRows_def by (force simp: split_beta)
    then have "0 \<le> in_amount r" using inOrder_set [of _ ?t] tally by fastforce
    then show "0 \<le> in_amount r \<and> 0 \<le> incomeBase r"
      using box [OF _ r] by (simp add: incomeBase_def split: option.split)
  qed
  have gen: "\<forall>r\<in>set rs. \<forall>b. in_box r = Some b \<longrightarrow> holds deps b \<Longrightarrow>
      inputsWorth deps (List.map_filter (map_option boxId \<circ> in_box) rs) = sum_list (map incomeBase rs) \<and>
      (\<forall>i\<in>set (List.map_filter (map_option boxId \<circ> in_box) rs). s_getBox deps i \<noteq> None)" for rs
    by (induction rs) (auto simp: map_filter_simps incomeBase_def holds_def split: option.splits)
  from gen [of rows] box
  show "inputsWorth deps (List.map_filter (map_option boxId \<circ> in_box) rows) = sum_list (map incomeBase rows)"
    "\<forall>i\<in>set (List.map_filter (map_option boxId \<circ> in_box) rows). s_getBox deps i \<noteq> None"
    by blast+
qed

section \<open>The legs, one by one\<close>

lemma valueSum_outs: "valueSum (map (\<lambda>x. box_out (f x) h (g x)) xs) = sum_list (map f xs)"
  by (simp add: valueSum_def comp_def)

lemma treasury_conserves:
  assumes "treasuryPart deps h v = Inr (ins, outs)" "settlement_reads deps h" "0 \<le> v"
  shows "valueSum outs = inputsWorth deps ins + v \<and> (\<forall>i\<in>set ins. s_getBox deps i \<noteq> None)"
proof -
  have "s_getTreasuryBox deps = Inr (Some b) \<Longrightarrow> s_getBox deps (boxId b) = Some b" for b
    using assms(2) by (simp add: settlement_reads_def holds_def)
  then show ?thesis using assms(1,3)
    by (auto simp: treasuryPart_def bind_iff split: if_splits option.splits)
qed

lemma pool_conserves:
  assumes "poolPart deps h draw sink = Inr (ins, outs)" "settlement_reads deps h" "0 \<le> draw" "0 \<le> sink"
  shows "valueSum outs + draw = inputsWorth deps ins + sink \<and> (\<forall>i\<in>set ins. s_getBox deps i \<noteq> None) \<and>
    (\<forall>o'\<in>set outs. 0 \<le> boxValue o')"
proof -
  have "s_getKarmaPoolBox deps = Inr (Some b) \<Longrightarrow> s_getBox deps (boxId b) = Some b" for b
    using assms(2) by (simp add: settlement_reads_def holds_def)
  then show ?thesis using assms(1,3,4)
    by (auto simp: poolPart_def bind_iff Let_def split: if_splits option.splits)
qed

lemma releases_zip:
  "\<forall>x\<in>set us. 0 \<le> f x \<Longrightarrow>
    valueSum (map (\<lambda>(u, r). box_out r h (t u)) (filter (\<lambda>(u, r). r > 0) (zip us (map f us)))) = sum_list (map f us)"
  by (induction us) auto

lemma backer_conserves:
  assumes "backerPartOf deps h body release = Inr b" "settlement_reads deps h" "body_coherent deps body" "0 \<le> release"
  shows "valueSum (ba_outputs b) + valueSum (ba_credits b) = inputsWorth deps (ba_inputs b) + ba_draw b"
    "(\<forall>i\<in>set (ba_inputs b). s_getBox deps i \<noteq> None)"
    "100 * ba_draw b \<le> 35 * (release + sb_fees body) + 99"
proof -
  have fees: "0 \<le> sb_fees body" using assms(3) by (simp add: body_coherent_def)
  have "valueSum (ba_outputs b) + valueSum (ba_credits b) = inputsWorth deps (ba_inputs b) + ba_draw b \<and>
    (\<forall>i\<in>set (ba_inputs b). s_getBox deps i \<noteq> None) \<and> 100 * ba_draw b \<le> 35 * (release + sb_fees body) + 99"
  proof (cases "if backerActive deps h body then s_getBackerPoolBox deps else None")
    case None
    with assms(1) have "b = \<lparr>ba_inputs = [], ba_outputs = [], ba_draw = 0, ba_credits = []\<rparr>"
      by (simp add: backerPartOf_def)
    then show ?thesis using fees assms(4) by simp
  next
    case (Some pool)
    then have act: "0 < backerSupply deps" "s_getBackerPoolBox deps = Some pool"
      by (auto simp: backerActive_def split: if_splits)
    then have pool: "s_getBox deps (boxId pool) = Some pool" "0 \<le> tail_accrual (boxTail pool)"
      using assms(2) by (simp_all add: settlement_reads_def holds_def)
    let ?ws = "map unstake_weight (unstakes body)"
    let ?leg = "backerLeg (release + sb_fees body) (backerSupply deps) (tail_staked (boxTail pool))
        (tail_accrual (boxTail pool)) ?ws (h \<le> s_creditFixedRateBlocks deps)"
    from assms(1) Some have le: "sum_list ?ws \<le> tail_staked (boxTail pool)"
      and b: "b = \<lparr>ba_inputs = boxId pool # map unstake_id (unstakes body),
           ba_outputs = [box_out (boxValue pool + bl_draw ?leg - sum_list (bl_releases ?leg)) h
             (BackerPool (bl_staked ?leg) (bl_accrual ?leg))],
           ba_draw = bl_draw ?leg,
           ba_credits = map (\<lambda>(u, r). box_out r h (Credit (unstake_owner u) None))
             (filter (\<lambda>(u, r). r > 0) (zip (unstakes body) (bl_releases ?leg)))\<rparr>"
      by (auto simp: backerPartOf_def Let_def split: if_splits)
    let ?f = "\<lambda>u. backerRelease (backerSupply deps) (tail_accrual (boxTail pool)) (unstake_weight u)"
    have rel: "bl_releases ?leg = map ?f (unstakes body)"
      using backerLeg_simps(3) [OF _ _ le] act fees assms(4) by (simp add: comp_def)
    have u: "\<forall>u\<in>set (unstakes body). 0 \<le> unstake_weight u \<and>
        (\<exists>b. s_getBox deps (unstake_id u) = Some b \<and> boxValue b = 0)"
      using assms(3) by (simp add: body_coherent_def)
    then have "\<forall>u\<in>set (unstakes body). 0 \<le> ?f u"
      using release_bound [OF act(1) pool(2)] by blast
    from releases_zip [OF this, of h "\<lambda>u. Credit (unstake_owner u) None"]
    have credits: "valueSum (ba_credits b) = sum_list (bl_releases ?leg)" by (simp add: b rel)
    have "inputsWorth deps (map unstake_id (unstakes body)) = 0"
      using inputsWorth_named [of "unstakes body" deps unstake_id "\<lambda>_. 0"] u by (simp add: sum_list_const_int)
    moreover have "100 * bl_draw ?leg \<le> 35 * (release + sb_fees body) + 99"
      by (rule draw_capped) (use act fees assms(4) le in auto)
    ultimately show ?thesis using pool u credits by (auto simp: b)
  qed
  then show "valueSum (ba_outputs b) + valueSum (ba_credits b) = inputsWorth deps (ba_inputs b) + ba_draw b"
    "(\<forall>i\<in>set (ba_inputs b). s_getBox deps i \<noteq> None)"
    "100 * ba_draw b \<le> 35 * (release + sb_fees body) + 99" by blast+
qed

lemma requireIds_ok: "requireIds e bs = Inr () \<longleftrightarrow> (\<forall>b\<in>set bs. boxId b \<noteq> [])"
  by (auto simp: requireIds_def list_ex_iff)

lemma karmaLegs_ok:
  assumes "karmaLegsOf deps h body = Inr legs"
  obtains payouts pooled bonds escrows plans ids income where
    "computeLikePayouts body (getLikeCarryBox deps) = (payouts, pooled)"
    "getBondsSettlingAt deps h = Inr bonds" "escrows = getEscrowsReleasableAt deps h"
    "plans = getDecayPlans deps" "ids = concat (map consumedBoxIds plans)"
    "income = incomeRows deps payouts bonds escrows ids"
    "kl_inputs legs = map marker_id (markers body) @ map fst (priceBoxes body) @
       List.map_filter lp_carryBoxId payouts @ map boxId bonds @ map boxId escrows @
       map boxId (s_getLapsedVouches deps) @ ids @ List.map_filter (map_option boxId \<circ> in_box) income"
    "kl_outputs legs =
       map (\<lambda>(invitee, amount). box_out amount h (Karma invitee False)) (invites body) @
       map (\<lambda>p. box_out (lp_carry p) h (LikeAccrual (lp_author p))) (filter (\<lambda>p. lp_carry p > 0) payouts) @
       map (\<lambda>v. box_out (boxValue v) h (VouchEscrow (the (tail_voucher (boxTail v)))
         (createdAtBlock v + s_vouchCooldownBlocks deps))) (s_getLapsedVouches deps) @
       map (\<lambda>p. box_out (newValue p) h (Karma (dp_owner p) False)) (filter (\<lambda>p. burnAmount p > 0) plans) @
       map (\<lambda>r. box_out (incomeBase r + in_amount r) h (Karma (in_owner r) True))
         (filter (\<lambda>r. incomeBase r + in_amount r > 0) income)"
    "kl_poolDraw legs = sum_list (map snd (invites body))"
    "kl_poolSink legs = sum_list (map snd (priceBoxes body)) + pooled +
       sum_list (map (\<lambda>b. boxValue b - vestedOf deps b) bonds) + sum_list (map burnAmount plans)"
  using assms
  by (cases "computeLikePayouts body (getLikeCarryBox deps)") (auto simp: karmaLegsOf_def bind_iff Let_def)

lemma plans_conserve:
  assumes "\<forall>p\<in>set plans. 0 \<le> burnAmount p \<and>
      inputsWorth deps (consumedBoxIds p) = (if burnAmount p > 0 then newValue p + burnAmount p else 0)"
  shows "inputsWorth deps (concat (map consumedBoxIds plans)) =
    sum_list (map newValue (filter (\<lambda>p. burnAmount p > 0) plans)) + sum_list (map burnAmount plans)"
  using assms by (induction plans) auto

lemma karmaLegs_conserve:
  assumes "karmaLegsOf deps h body = Inr legs" and R: "settlement_reads deps h" and B: "body_coherent deps body"
  shows "valueSum (kl_outputs legs) + kl_poolSink legs = inputsWorth deps (kl_inputs legs) + kl_poolDraw legs"
    "0 \<le> kl_poolDraw legs" "0 \<le> kl_poolSink legs" "\<forall>i\<in>set (kl_inputs legs). s_getBox deps i \<noteq> None"
proof -
  from karmaLegs_ok [OF assms(1)] obtain payouts pooled bonds escrows plans ids income where
    pay: "computeLikePayouts body (getLikeCarryBox deps) = (payouts, pooled)"
    and bonds: "getBondsSettlingAt deps h = Inr bonds" and esc: "escrows = getEscrowsReleasableAt deps h"
    and plans: "plans = getDecayPlans deps" and ids: "ids = concat (map consumedBoxIds plans)"
    and income: "income = incomeRows deps payouts bonds escrows ids"
    and ins: "kl_inputs legs = map marker_id (markers body) @ map fst (priceBoxes body) @
       List.map_filter lp_carryBoxId payouts @ map boxId bonds @ map boxId escrows @
       map boxId (s_getLapsedVouches deps) @ ids @ List.map_filter (map_option boxId \<circ> in_box) income"
    and outs: "kl_outputs legs =
       map (\<lambda>(invitee, amount). box_out amount h (Karma invitee False)) (invites body) @
       map (\<lambda>p. box_out (lp_carry p) h (LikeAccrual (lp_author p))) (filter (\<lambda>p. lp_carry p > 0) payouts) @
       map (\<lambda>v. box_out (boxValue v) h (VouchEscrow (the (tail_voucher (boxTail v)))
         (createdAtBlock v + s_vouchCooldownBlocks deps))) (s_getLapsedVouches deps) @
       map (\<lambda>p. box_out (newValue p) h (Karma (dp_owner p) False)) (filter (\<lambda>p. burnAmount p > 0) plans) @
       map (\<lambda>r. box_out (incomeBase r + in_amount r) h (Karma (in_owner r) True))
         (filter (\<lambda>r. incomeBase r + in_amount r > 0) income)"
    and draw: "kl_poolDraw legs = sum_list (map snd (invites body))"
    and sink: "kl_poolSink legs = sum_list (map snd (priceBoxes body)) + pooled +
       sum_list (map (\<lambda>b. boxValue b - vestedOf deps b) bonds) + sum_list (map burnAmount plans)" .
  note likes = likes_conserve [OF pay R B]
  have bond: "\<forall>b\<in>set bonds. holds deps b \<and> 0 \<le> boxValue b"
    and escrow: "\<forall>e\<in>set escrows. holds deps e \<and> 0 \<le> boxValue e"
    and lapsed: "\<forall>v\<in>set (s_getLapsedVouches deps). holds deps v"
    and plan: "\<forall>p\<in>set plans. 0 \<le> burnAmount p \<and> (\<forall>i\<in>set (consumedBoxIds p). s_getBox deps i \<noteq> None) \<and>
      inputsWorth deps (consumedBoxIds p) = (if burnAmount p > 0 then newValue p + burnAmount p else 0)"
    using R bonds by (simp_all add: settlement_reads_def esc plans)
  have price: "\<forall>p\<in>set (priceBoxes body). 0 \<le> snd p \<and> (\<exists>b. s_getBox deps (fst p) = Some b \<and> boxValue b = snd p)"
    and marker: "\<forall>m\<in>set (markers body). 0 \<le> marker_value m \<and>
      (\<exists>b. s_getBox deps (marker_id m) = Some b \<and> boxValue b = marker_value m)"
    and invite: "\<forall>p\<in>set (invites body). 0 \<le> snd p"
    using B by (auto simp: body_coherent_def)
  note inc = incomeRows_sum [OF R _ _ _ income]
  have inc': "sum_list (map in_amount income) =
      sum_list (map lp_paid payouts) + sum_list (map (vestedOf deps) bonds) + valueSum escrows"
    "\<forall>r\<in>set income. 0 \<le> in_amount r \<and> 0 \<le> incomeBase r"
    "inputsWorth deps (List.map_filter (map_option boxId \<circ> in_box) income) = sum_list (map incomeBase income)"
    "\<forall>i\<in>set (List.map_filter (map_option boxId \<circ> in_box) income). s_getBox deps i \<noteq> None"
    using inc likes(2) bond escrow by blast+
  have vest: "\<forall>b\<in>set bonds. vestedOf deps b \<le> boxValue b" using vestedOf_bounds [OF R] bond by blast
  have forfeit: "sum_list (map (\<lambda>b. boxValue b - vestedOf deps b) bonds) =
      valueSum bonds - sum_list (map (vestedOf deps) bonds)"
    by (simp add: valueSum_def sum_list_subtractf)
  have pos: "sum_list (map (\<lambda>r. incomeBase r + in_amount r) (filter (\<lambda>r. incomeBase r + in_amount r > 0) income)) =
      sum_list (map incomeBase income) + sum_list (map in_amount income)"
    using sum_filter_pos [of income "\<lambda>r. incomeBase r + in_amount r"] inc'(2) by (simp add: sum_list_addf)
  have carry: "sum_list (map lp_carry (filter (\<lambda>p. lp_carry p > 0) payouts)) = sum_list (map lp_carry payouts)"
    by (rule sum_filter_pos) (use likes(2) in blast)
  have inviteOut: "valueSum (map (\<lambda>(invitee, amount). box_out amount h (Karma invitee False)) (invites body)) =
      sum_list (map snd (invites body))"
    by (simp add: valueSum_def comp_def split_beta)
  have worth: "inputsWorth deps (map marker_id (markers body)) = sum_list (map marker_value (markers body))"
    "inputsWorth deps (map fst (priceBoxes body)) = sum_list (map snd (priceBoxes body))"
    by (rule inputsWorth_named, use marker price in blast)+
  have worth': "inputsWorth deps (map boxId bonds) = valueSum bonds"
    "inputsWorth deps (map boxId escrows) = valueSum escrows"
    "inputsWorth deps (map boxId (s_getLapsedVouches deps)) = valueSum (s_getLapsedVouches deps)"
    by (rule inputsWorth_boxes, use bond escrow lapsed in blast)+
  have lapsedOut: "sum_list (map boxValue (s_getLapsedVouches deps)) = valueSum (s_getLapsedVouches deps)"
    by (simp add: valueSum_def)
  have plans': "inputsWorth deps ids =
      sum_list (map newValue (filter (\<lambda>p. burnAmount p > 0) plans)) + sum_list (map burnAmount plans)"
    unfolding ids by (rule plans_conserve) (use plan in blast)
  show "valueSum (kl_outputs legs) + kl_poolSink legs = inputsWorth deps (kl_inputs legs) + kl_poolDraw legs"
    unfolding ins outs draw sink valueSum_simps inputsWorth_simps worth worth' plans' inviteOut valueSum_outs lapsedOut forfeit pos carry inc'(1,3)
    using likes(1) by linarith
  show "0 \<le> kl_poolDraw legs"
    unfolding draw using sum_list_nonneg_int [of "invites body" snd] invite by blast
  show "0 \<le> kl_poolSink legs"
    unfolding sink
    using sum_list_nonneg_int [of "priceBoxes body" snd] price likes(3)
      sum_list_nonneg_int [of bonds "\<lambda>b. boxValue b - vestedOf deps b"] vest
      sum_list_nonneg_int [of plans burnAmount] plan
    by (smt (verit))
  show "\<forall>i\<in>set (kl_inputs legs). s_getBox deps i \<noteq> None"
    unfolding ins using marker price likes(4) bond escrow lapsed plan inc'(4)
    by (auto simp: holds_def ids)
qed

text \<open>What a derivation with coherent reads accounts for.\<close>
lemma derive_conserves:
  assumes "derive deps h emission delay body = Inr d" and R: "settlement_reads deps h"
    and B: "body_coherent deps body" and "0 \<le> emission"
  shows "0 \<le> minerSlice d" "inputsWorth deps (ds_inputs d) = valueSum (derivedOutputs d) + minerSlice d"
    "\<forall>i\<in>set (ds_inputs d). s_getBox deps i \<noteq> None"
proof -
  from assms(1) obtain eb where eb: "s_getEmissionBox deps = Inr (Some eb)"
    by (auto simp: derive_def bind_iff split: option.splits if_splits)
  define release where "release = (if emission < boxValue eb then emission else boxValue eb)"
  from assms(1) obtain backer tIns tOuts legs pIns pOuts where
    bk: "backerPartOf deps h body release = Inr backer"
    and tr: "treasuryPart deps h (cs_treasury (splitCoinbase release (sb_fees body) (sb_rent body)
        (sb_actors body) (ba_draw backer))) = Inr (tIns, tOuts)"
    and kl: "karmaLegsOf deps h body = Inr legs"
    and po: "poolPart deps h (kl_poolDraw legs) (kl_poolSink legs) = Inr (pIns, pOuts)"
    and d: "d = \<lparr>
         ds_inputs = [boxId eb] @ tIns @ ba_inputs backer @ kl_inputs legs @ pIns @ feeBoxIds body,
         derivedOutputs = [box_out (boxValue eb - release + cs_unearned (splitCoinbase release (sb_fees body)
             (sb_rent body) (sb_actors body) (ba_draw backer))) h Emission] @ tOuts @ ba_outputs backer @ pOuts @
           kl_outputs legs @ ba_credits backer,
         minerSlice = cs_miner (splitCoinbase release (sb_fees body) (sb_rent body) (sb_actors body) (ba_draw backer)),
         lockedUntilBlock = h + delay\<rparr>"
    by (auto simp: derive_def bind_iff Let_def release_def eb orThrow_def split: if_splits)
  let ?s = "splitCoinbase release (sb_fees body) (sb_rent body) (sb_actors body) (ba_draw backer)"
  have e: "s_getBox deps (boxId eb) = Some eb" "0 \<le> boxValue eb"
    using R eb by (simp_all add: settlement_reads_def holds_def)
  have rel: "0 \<le> release" using e assms(4) by (simp add: release_def)
  have fee: "0 \<le> sb_fees body" "0 \<le> sb_rent body" "0 \<le> sb_actors body"
    "\<forall>i\<in>set (feeBoxIds body). s_getBox deps i \<noteq> None"
    "inputsWorth deps (feeBoxIds body) = sb_fees body + sb_rent body"
    using B by (simp_all add: body_coherent_def)
  note bl = backer_conserves [OF bk R B rel]
  note sb = split_bounds [OF rel fee(1-3) refl bl(3) refl]
  from sb have sb': "0 \<le> cs_treasury ?s" by blast
  have "0 \<le> (release + sb_fees body) * 35 div 100" using rel fee(1) by (simp add: pos_imp_zdiv_nonneg_iff)
  then show "0 \<le> minerSlice d" using sb fee(2) unfolding d by simp
  note treas = treasury_conserves [OF tr R sb']
  note legs = karmaLegs_conserve [OF kl R B]
  note pool = pool_conserves [OF po R legs(2,3)]
  show "inputsWorth deps (ds_inputs d) = valueSum (derivedOutputs d) + minerSlice d"
    unfolding d derivedSettlement.select_convs valueSum_simps inputsWorth_simps
    using treas pool legs(1) bl(1) sb fee(5) e by simp
  show "\<forall>i\<in>set (ds_inputs d). s_getBox deps i \<noteq> None"
    unfolding d derivedSettlement.select_convs using treas pool legs(4) bl(2) fee(4) e(1)
    by auto
qed

lemma built_worth:
  assumes "settlement_reads deps h" "body_coherent deps body" "0 \<le> emission"
    and "buildSettlement deps h schedule emission delay body k = Inr tx"
  obtains d where "derive deps h emission delay body = Inr d" "0 \<le> minerSlice d"
    "inputs tx = ds_inputs d" "\<forall>i\<in>set (inputs tx). s_getBox deps i \<noteq> None"
    "inputsWorth deps (inputs tx) = valueSum (outputs tx)"
proof -
  from assms(4) obtain d version where d: "derive deps h emission delay body = Inr d"
      "tx = \<lparr>inputs = ds_inputs d, outputs = derivedOutputs d @ coinbaseOut h d k, signatures = [],
        protocolVersion = version, likeTarget = None, post = None, postWithdraw = None\<rparr>"
    by (auto simp: buildSettlement_ok)
  note c = derive_conserves [OF d(1) assms(1-3)]
  have "valueSum (coinbaseOut h d k) = minerSlice d" using c(1) by (simp add: coinbaseOut_def)
  then show ?thesis using c d(1) by (intro that [of d]) (simp_all add: d(2))
qed

end
