(* ===== verification/SettlementProps.thy ===== *)
theory SettlementProps
  imports SettlementWorth Samples
begin

text \<open>
  The properties of the settlement, and a concrete block they are evaluated on: two
  likes and a carry, a vesting bond, a returning escrow, a lapsed vouch, a burning
  decay plan, an invite, a price, a fee and a backer pool with one unstake.
\<close>

section \<open>A sample block\<close>

definition settleBoxes :: "(string \<times> anyBox) list" where
  "settleBoxes =
     [mkBox (CHR ''a'') 5000000000 Emission, mkBox (CHR ''b'') 500 KarmaPool,
      mkBox (CHR ''c'') 3 (LikeAccrual kA), mkBox (CHR ''d'') 10 (Bond kB kC),
      mkBox (CHR ''e'') 5 (VouchEscrow kA 7), mkBox (CHR ''f'') 1 (Vouch kC kA),
      mkBox (CHR ''g'') 40 (Karma kC False), mkBox (CHR ''h'') 4 (LikeAccrual kA),
      mkBox (CHR ''i'') 5 KarmaPrice, mkBox (CHR ''j'') 9 Fee, mkBox (CHR ''k'') 6 (Karma kB True),
      mkBox (CHR ''l'') 900 (BackerPool 80 3), mkBox (CHR ''m'') 0 (BackerUnstake kB 40)]"

definition settleBox :: "char \<Rightarrow> anyBox" where
  "settleBox c = the (map_of settleBoxes (idOf c))"

definition settleDeps :: settlementDeps where
  "settleDeps = \<lparr>
     s_getEmissionBox = Inr (Some (settleBox (CHR ''a''))), s_getTreasuryBox = Inr None,
     s_getKarmaPoolBox = Inr (Some (settleBox (CHR ''b''))), s_getBox = map_of settleBoxes,
     getLikeCarryBox = (\<lambda>k ids. if k = kA then Some (settleBox (CHR ''c'')) else None),
     getBondsSettlingAt = (\<lambda>_. Inr [settleBox (CHR ''d'')]),
     getEscrowsReleasableAt = (\<lambda>_. [settleBox (CHR ''e'')]),
     s_getLapsedVouches = [settleBox (CHR ''f'')], getLifetimeLikes = (\<lambda>_. 12),
     getIncomeBox = (\<lambda>k ids. if k = kB then Some (settleBox (CHR ''k'')) else None),
     s_vouchCooldownBlocks = 7,
     getDecayPlans = [\<lparr>dp_owner = kC, consumedBoxIds = [idOf (CHR ''g'')], newValue = 38, burnAmount = 2,
       settledThrough = 9\<rparr>],
     s_getBackerPoolBox = Some (settleBox (CHR ''l'')), backerSupply = 100, s_creditFixedRateBlocks = 50\<rparr>"

definition settleBody :: settlementBody where
  "settleBody = \<lparr>sb_fees = 9, sb_rent = 0, sb_actors = 2, feeBoxIds = [idOf (CHR ''j'')],
     invites = [(kC, 6)], markers = [\<lparr>marker_id = idOf (CHR ''h''), marker_author = kA, marker_value = 4\<rparr>],
     priceBoxes = [(idOf (CHR ''i''), 5)],
     unstakes = [\<lparr>unstake_id = idOf (CHR ''m''), unstake_owner = kB, unstake_weight = 40\<rparr>]\<rparr>"

definition settleSchedule :: "protocolEra list" where
  "settleSchedule = [\<lparr>era_version = 1, era_fromHeight = 0\<rparr>]"

lemma settle_reads: "settlement_reads settleDeps 10"
  by (simp add: settlement_reads_def settleDeps_def holds_def settleBox_def settleBoxes_def mkBox_def
      idOf_def kA_def kB_def kC_def inputsWorth_def tail_accrual_def)

lemma settle_coherent: "body_coherent settleDeps settleBody"
  by (simp add: body_coherent_def settleBody_def settleDeps_def settleBoxes_def mkBox_def idOf_def inputsWorth_def)

lemma settle_builds: "is_ok (buildSettlement settleDeps 10 settleSchedule 4200000000 720 settleBody kA)"
  by code_simp

lemma settle_built: "\<exists>tx. buildSettlement settleDeps 10 settleSchedule 4200000000 720 settleBody kA = Inr tx"
  using settle_builds by (cases "buildSettlement settleDeps 10 settleSchedule 4200000000 720 settleBody kA") auto

section \<open>Build and check\<close>

text \<open>C5: the verifier and the producer agree.  A settlement is accepted exactly when it is
  the transaction \<open>buildSettlement\<close> builds from the same body and state for some miner
  key, the miner's slice is not negative, every input resolves, and inputs and outputs
  carry the same value.  So the only freedom a producer has is the payout key.\<close>
theorem check_iff_build:
  "checkSettlement deps height schedule emission delay body tx = Inr () \<longleftrightarrow>
    (\<exists>d k. derive deps height emission delay body = Inr d \<and> 0 \<le> minerSlice d \<and>
      buildSettlement deps height schedule emission delay body k = Inr tx) \<and>
    (\<forall>i\<in>set (inputs tx). s_getBox deps i \<noteq> None) \<and>
    inputsWorth deps (inputs tx) = valueSum (outputs tx)"
proof (cases "derive deps height emission delay body")
  case (Inl e)
  then show ?thesis by (simp add: checkSettlement_def buildSettlement_ok)
next
  case (Inr d)
  have "checkSettlement deps height schedule emission delay body tx = Inr () \<longleftrightarrow>
      inputs tx = ds_inputs d \<and> signatures tx = [] \<and> likeTarget tx = None \<and> post tx = None \<and>
      postWithdraw tx = None \<and> protocolVersionAt schedule height = Some (protocolVersion tx) \<and>
      (\<exists>tail. outputs tx = derivedOutputs d @ tail \<and> checkCoinbaseTail height d tail = Inr ()) \<and>
      (\<forall>i\<in>set (inputs tx). s_getBox deps i \<noteq> None) \<and> inputsWorth deps (inputs tx) = valueSum (outputs tx)"
    unfolding checkSettlement_def inputsWorth_def
    by (auto simp: Inr bind_iff sumInputs_ok verifyProtocolVersion_iff checkDerivedOutputs_ok)
  then show ?thesis
    unfolding buildSettlement_ok checkCoinbaseTail_ok by (cases tx) (auto simp: Inr)
qed

lemma check_iff_build_witness:
  "\<exists>tx. checkSettlement settleDeps 10 settleSchedule 4200000000 720 settleBody tx = Inr ()"
proof -
  obtain tx where tx: "buildSettlement settleDeps 10 settleSchedule 4200000000 720 settleBody kA = Inr tx"
    using settle_built by blast
  have "(0 :: int) \<le> 4200000000" by simp
  from built_worth [OF settle_reads settle_coherent this tx] obtain d where
    "derive settleDeps 10 4200000000 720 settleBody = Inr d" "0 \<le> minerSlice d"
    "\<forall>i\<in>set (inputs tx). s_getBox settleDeps i \<noteq> None"
    "inputsWorth settleDeps (inputs tx) = valueSum (outputs tx)" .
  with tx have "checkSettlement settleDeps 10 settleSchedule 4200000000 720 settleBody tx = Inr ()"
    by (intro check_iff_build [THEN iffD2]) blast
  then show ?thesis by blast
qed

text \<open>C4: a settlement moves value and never makes or loses any.  Over coherent reads, the
  transaction the producer builds names only live boxes, pays the miner a non-negative
  slice, and its outputs carry exactly the value of its inputs: emission, treasury,
  backer pool, likes, prices, bonds, escrows, lapses, decay, income, karma pool and fees
  together.  So the verifier accepts it: its conservation clause can only refuse a
  settlement some other clause refuses.\<close>
theorem built_settlement_accepted:
  assumes "settlement_reads deps h" "body_coherent deps body" "0 \<le> emission"
    and "buildSettlement deps h schedule emission delay body k = Inr tx"
  shows "inputsWorth deps (inputs tx) = valueSum (outputs tx) \<and>
    checkSettlement deps h schedule emission delay body tx = Inr ()"
proof -
  from assms(4) obtain d version where d: "derive deps h emission delay body = Inr d"
      "protocolVersionAt schedule h = Some version"
      "tx = \<lparr>inputs = ds_inputs d, outputs = derivedOutputs d @ coinbaseOut h d k, signatures = [],
        protocolVersion = version, likeTarget = None, post = None, postWithdraw = None\<rparr>"
    by (auto simp: buildSettlement_ok)
  from built_worth [OF assms] obtain d' where "derive deps h emission delay body = Inr d'" "0 \<le> minerSlice d'"
      and c': "\<forall>i\<in>set (inputs tx). s_getBox deps i \<noteq> None" "inputsWorth deps (inputs tx) = valueSum (outputs tx)" .
  with d(1) have c: "0 \<le> minerSlice d" by simp
  have "checkDerivedOutputs (derivedOutputs d @ coinbaseOut h d k) (derivedOutputs d) = Inr ()"
    "checkCoinbaseTail h d (coinbaseOut h d k) = Inr ()"
    using c by (auto simp: checkDerivedOutputs_ok checkCoinbaseTail_ok)
  then show ?thesis
    using c c' by (simp add: checkSettlement_def d sumInputs_ok inputsWorth_def [symmetric]
        verifyProtocolVersion_iff bind_iff)
qed

lemma built_settlement_accepted_witness:
  "\<exists>tx. buildSettlement settleDeps 10 settleSchedule 4200000000 720 settleBody kA = Inr tx \<and>
    inputsWorth settleDeps (inputs tx) = valueSum (outputs tx)"
proof -
  obtain tx where tx: "buildSettlement settleDeps 10 settleSchedule 4200000000 720 settleBody kA = Inr tx"
    using settle_built by blast
  with built_settlement_accepted [OF settle_reads settle_coherent _ tx] show ?thesis by auto
qed

section \<open>The income leg pays the payees, each once\<close>

definition tally_ok :: "tally \<Rightarrow> bool" where
  "tally_ok rows \<longleftrightarrow> distinct (map fst rows) \<and> (\<forall>(key, k, t)\<in>set rows. key = bytesToHex k \<and> 0 < t)"

lemma tally_update:
  assumes "tally_ok rows" "0 < t"
  shows "tally_ok (AList.update (bytesToHex k) (k, t) rows)"
proof -
  have "set (AList.update key p rows) \<subseteq> insert (key, p) (set rows)" for key and p :: "byte list \<times> int"
    by (induction rows) auto
  with assms show ?thesis unfolding tally_ok_def by (fastforce simp: distinct_update)
qed

lemma addIncome_ok:
  assumes "tally_ok rows"
  shows "tally_ok (addIncome (k, v) rows) \<and>
    fst ` set (addIncome (k, v) rows) = (if v \<le> 0 then {} else {bytesToHex k}) \<union> fst ` set rows"
proof (cases "map_of rows (bytesToHex k)")
  case None
  then have "bytesToHex k \<notin> fst ` set rows" by (simp add: map_of_eq_None_iff)
  with None assms show ?thesis by (auto simp: addIncome_def addTo_def tally_ok_def)
next
  case (Some p)
  then have m: "(bytesToHex k, p) \<in> set rows" by (rule map_of_SomeD)
  with assms have p: "p = (k, snd p)" "0 < snd p" by (auto simp: tally_ok_def)
  then have p3: "fst p = k" by (metis fst_conv)
  have upd: "fst ` set (AList.update (bytesToHex k) (k, snd p + v) rows) = insert (bytesToHex k) (fst ` set rows)"
    using dom_update [of "bytesToHex k" "(k, snd p + v)" rows] by (simp add: dom_map_of_conv_image_fst)
  show ?thesis
  proof (cases "v \<le> 0")
    case True
    then show ?thesis using assms by (simp add: addIncome_def)
  next
    case False
    have "addIncome (k, v) rows = AList.update (bytesToHex k) (k, snd p + v) rows"
      using False p3 by (simp add: addIncome_def addTo_def Some split_beta)
    then show ?thesis using False upd tally_update [OF assms, of "snd p + v" k] p(2) by simp
  qed
qed

lemma income_keys:
  "tally_ok rows \<Longrightarrow> tally_ok (fold addIncome xs rows) \<and>
    fst ` set (fold addIncome xs rows) = bytesToHex ` fst ` set (filter (\<lambda>x. 0 < snd x) xs) \<union> fst ` set rows"
proof (induction xs arbitrary: rows)
  case (Cons x xs)
  obtain k v where x: "x = (k, v)" by (cases x)
  note a = addIncome_ok [OF Cons.prems, of k v]
  from Cons.IH [of "addIncome (k, v) rows"] a show ?case by (auto simp: x)
qed simp

lemma addPayee_fold:
  "(\<forall>(key, k)\<in>set m. key = bytesToHex k) \<Longrightarrow>
    (\<forall>(key, k)\<in>set (fold addPayee ks m). key = bytesToHex k) \<and>
    fst ` set (fold addPayee ks m) = bytesToHex ` set ks \<union> fst ` set m"
proof (induction ks arbitrary: m)
  case (Cons k ks)
  have "set (AList.update key p m) \<subseteq> insert (key, p) (set m)" for key and p :: "byte list"
    by (induction m) auto
  then have "\<forall>(key, k)\<in>set (addPayee k m). key = bytesToHex k"
    using Cons.prems unfolding addPayee_def by fastforce
  moreover have "fst ` set (addPayee k m) = insert (bytesToHex k) (fst ` set m)"
    using dom_update [of "bytesToHex k" k m] by (simp add: addPayee_def dom_map_of_conv_image_fst)
  ultimately show ?case using Cons.IH [of "addPayee k m"] by auto
qed simp

lemma inOrder_keys:
  assumes "tally_ok rows"
  shows "map (bytesToHex \<circ> fst) (inOrder rows) = sort (map fst rows)" "\<forall>r\<in>set (inOrder rows). 0 < snd r"
proof -
  have row: "\<exists>k t. map_of rows key = Some (k, t) \<and> key = bytesToHex k \<and> 0 < t" if k: "key \<in> set (map fst rows)" for key
  proof -
    obtain p where p: "map_of rows key = Some p" using k by (cases "map_of rows key") (auto simp: map_of_eq_None_iff)
    then have "(key, p) \<in> set rows" by (rule map_of_SomeD)
    then show ?thesis using p assms by (cases p) (auto simp: tally_ok_def)
  qed
  have "map (bytesToHex \<circ> fst) (inOrder rows) = map (\<lambda>key. key) (sort (map fst rows))"
    unfolding inOrder_def map_map comp_def by (rule map_cong) (use row in fastforce)+
  then show "map (bytesToHex \<circ> fst) (inOrder rows) = sort (map fst rows)" by simp
  show "\<forall>r\<in>set (inOrder rows). 0 < snd r" unfolding inOrder_def using row by fastforce
qed

lemma backer_unmarked:
  "backerPartOf deps h body release = Inr b \<Longrightarrow> filter (\<lambda>o'. tail_income (boxTail o')) (ba_outputs b) = [] \<and>
    filter (\<lambda>o'. tail_income (boxTail o')) (ba_credits b) = []"
  by (auto simp: backerPartOf_def Let_def tail_income_def filter_empty_conv split: option.splits if_splits)

lemma treasury_unmarked:
  "treasuryPart deps h v = Inr (ins, outs) \<Longrightarrow> filter (\<lambda>o'. tail_income (boxTail o')) outs = []"
  by (auto simp: treasuryPart_def tail_income_def bind_iff split: if_splits option.splits)

lemma pool_unmarked:
  "poolPart deps h v w = Inr (ins, outs) \<Longrightarrow> filter (\<lambda>o'. tail_income (boxTail o')) outs = []"
  by (auto simp: poolPart_def tail_income_def bind_iff Let_def split: if_splits option.splits)

lemma payees_keyed:
  "computeSquaredSetPayees body h deps = Inr payees \<Longrightarrow> \<forall>(key, k)\<in>set payees. key = bytesToHex k"
  by (auto simp: computeSquaredSetPayees_def Let_def bind_iff simp del: fold_append
      dest!: addPayee_fold [of "[]", simplified, THEN conjunct1, THEN bspec, rotated])

text \<open>C6: the income leg pays each payee once, and nobody else.  The marked karma
  outputs of a derived settlement carry positive values, their owners are distinct and in
  ascending key order, and they are exactly the payees \<open>computeSquaredSetPayees\<close> answers:
  the authors the likes pay, the inviters of vested bonds and the owners of returning
  escrows.  Each of them is in the squared set, the projection of the block's owners the
  decay plans are derived from, next to the owners the body touches, who are not paid.\<close>
theorem income_pays_payees_once:
  assumes "derive deps h emission delay body = Inr d" "settlement_reads deps h"
    and "computeSquaredSetPayees body h deps = Inr payees"
    and "paid = filter (\<lambda>o'. tail_income (boxTail o')) (derivedOutputs d)"
  shows "sorted (map (\<lambda>o'. bytesToHex (karma_owner (boxTail o'))) paid) \<and>
    distinct (map (\<lambda>o'. bytesToHex (karma_owner (boxTail o'))) paid) \<and>
    (\<forall>o'\<in>set paid. 0 < boxValue o') \<and>
    set (map (\<lambda>o'. bytesToHex (karma_owner (boxTail o'))) paid) = fst ` set payees \<and>
    (\<forall>o'\<in>set paid. \<forall>lookup karmaBoxes txs. \<exists>boxes.
      (bytesToHex (karma_owner (boxTail o')), karma_owner (boxTail o'), boxes)
        \<in> set (collectPostBodyKarma lookup karmaBoxes txs payees))"
proof -
  from assms(1) obtain release backer v tIns tOuts legs pIns pOuts em where
    parts: "backerPartOf deps h body release = Inr backer" "treasuryPart deps h v = Inr (tIns, tOuts)"
      "poolPart deps h (kl_poolDraw legs) (kl_poolSink legs) = Inr (pIns, pOuts)"
    and kl: "karmaLegsOf deps h body = Inr legs"
    and d: "derivedOutputs d = [box_out em h Emission] @ tOuts @ ba_outputs backer @ pOuts @
      kl_outputs legs @ ba_credits backer"
    by (auto simp: derive_def bind_iff Let_def orThrow_def split: if_splits option.splits)
  from karmaLegs_ok [OF kl] obtain payouts pooled bonds escrows plans ids income where
    pay: "computeLikePayouts body (getLikeCarryBox deps) = (payouts, pooled)"
    and bonds: "getBondsSettlingAt deps h = Inr bonds" and esc: "escrows = getEscrowsReleasableAt deps h"
    and "plans = getDecayPlans deps" "ids = concat (map consumedBoxIds plans)"
    and income: "income = incomeRows deps payouts bonds escrows ids"
    and "kl_inputs legs = map marker_id (markers body) @ map fst (priceBoxes body) @
       List.map_filter lp_carryBoxId payouts @ map boxId bonds @ map boxId escrows @
       map boxId (s_getLapsedVouches deps) @ ids @ List.map_filter (map_option boxId \<circ> in_box) income"
    and outs: "kl_outputs legs =
       map (\<lambda>(invitee, amount). box_out amount h (Karma invitee False)) (invites body) @
       map (\<lambda>p. box_out (lp_carry p) h (LikeAccrual (lp_author p))) (filter (\<lambda>p. lp_carry p > 0) payouts) @
       map (\<lambda>v. box_out (boxValue v) h (VouchEscrow (the (tail_voucher (boxTail v)))
         (createdAtBlock v + s_vouchCooldownBlocks deps))) (s_getLapsedVouches deps) @
       map (\<lambda>p. box_out (newValue p) h (Karma (dp_owner p) False)) (filter (\<lambda>p. burnAmount p > 0) plans) @
       map (\<lambda>r. box_out (incomeBase r + in_amount r) h (Karma (in_owner r) True))
         (filter (\<lambda>r. incomeBase r + in_amount r > 0) income)"
    and "kl_poolDraw legs = sum_list (map snd (invites body))"
    and "kl_poolSink legs = sum_list (map snd (priceBoxes body)) + pooled +
       sum_list (map (\<lambda>b. boxValue b - vestedOf deps b) bonds) + sum_list (map burnAmount plans)" .
  let ?m = "\<lambda>o'. tail_income (boxTail (o' :: candidate))"
  let ?t = "incomeByOwner deps payouts bonds escrows"
  have rows: "filter ?m (map (\<lambda>x. box_out (f x) h (g x)) xs) = []" if "\<And>x. \<not> tail_income (g x)" for f g and xs :: "'x list"
    using that by (auto simp: filter_empty_conv)
  have none: "filter ?m (map (\<lambda>(invitee, amount). box_out amount h (Karma invitee False)) (invites body)) = []"
    by (auto simp: filter_empty_conv tail_income_def)
  have filt: "filter ?m (kl_outputs legs) = map (\<lambda>r. box_out (incomeBase r + in_amount r) h (Karma (in_owner r) True))
         (filter (\<lambda>r. incomeBase r + in_amount r > 0) income)"
    unfolding outs filter_append none
    by (simp add: filter_empty_conv tail_income_def)
  have keys: "tally_ok ?t" "fst ` set ?t = bytesToHex ` fst ` set (filter (\<lambda>x. 0 < snd x)
      (map (\<lambda>p. (lp_author p, lp_paid p)) payouts @ map (\<lambda>b. (inviterOf b, vestedOf deps b)) bonds @
       map (\<lambda>e. (ownerOf e, boxValue e)) escrows))"
  proof -
    have nil: "tally_ok []" by (simp add: tally_ok_def)
    show "tally_ok ?t" unfolding incomeByOwner_def by (rule income_keys [OF nil, THEN conjunct1])
    show "fst ` set ?t = bytesToHex ` fst ` set (filter (\<lambda>x. 0 < snd x)
      (map (\<lambda>p. (lp_author p, lp_paid p)) payouts @ map (\<lambda>b. (inviterOf b, vestedOf deps b)) bonds @
       map (\<lambda>e. (ownerOf e, boxValue e)) escrows))"
      unfolding incomeByOwner_def using income_keys [OF nil, THEN conjunct2] by (simp only: set_empty list.set image_empty Un_empty_right)
  qed
  note ord = inOrder_keys [OF keys(1)]
  have base: "0 \<le> incomeBase r" if "r \<in> set income" for r
  proof (cases "in_box r")
    case (Some b)
    then have "getIncomeBox deps (in_owner r) ids = Some b"
      using that by (auto simp: income incomeRows_def)
    then show ?thesis using assms(2) Some by (simp add: settlement_reads_def incomeBase_def)
  qed (simp add: incomeBase_def)
  have amt: "0 < in_amount r" if "r \<in> set income" for r
    using that ord(2) by (auto simp: income incomeRows_def)
  have "filter (\<lambda>r. incomeBase r + in_amount r > 0) income = income"
    using base amt by (intro filter_True) (simp add: add_nonneg_pos)
  then have paid: "paid = map (\<lambda>r. box_out (incomeBase r + in_amount r) h (Karma (in_owner r) True)) income"
    unfolding assms(4) d using filt backer_unmarked [OF parts(1)] treasury_unmarked [OF parts(2)] pool_unmarked [OF parts(3)]
    by (simp add: tail_income_def)
  have "map (\<lambda>o'. bytesToHex (karma_owner (boxTail o'))) paid = map (bytesToHex \<circ> fst) (inOrder ?t)"
    unfolding paid income incomeRows_def by (simp add: comp_def split_beta)
  then have owners: "map (\<lambda>o'. bytesToHex (karma_owner (boxTail o'))) paid = sort (map fst ?t)"
    using ord(1) by simp
  have "fst ` set payees = bytesToHex ` set (map lp_author (filter (\<lambda>p. lp_paid p > 0) payouts) @
           map inviterOf (filter (\<lambda>b. vestedOf deps b > 0) bonds) @
           map ownerOf (filter (\<lambda>e. boxValue e > 0) escrows))"
  proof -
    have "payees = fold addPayee (map lp_author (filter (\<lambda>p. lp_paid p > 0) payouts) @
           map inviterOf (filter (\<lambda>b. vestedOf deps b > 0) bonds) @
           map ownerOf (filter (\<lambda>e. boxValue e > 0) escrows)) []"
      using assms(3) unfolding computeSquaredSetPayees_def Let_def pay fst_conv bonds ebind_Inr esc [symmetric]
      by (simp only: sum.inject)
    then show ?thesis
      using addPayee_fold [of "[]" "map lp_author (filter (\<lambda>p. lp_paid p > 0) payouts) @
           map inviterOf (filter (\<lambda>b. vestedOf deps b > 0) bonds) @
           map ownerOf (filter (\<lambda>e. boxValue e > 0) escrows)"] by (simp del: fold_append)
  qed
  also have "\<dots> = fst ` set ?t" unfolding keys(2) by (simp add: image_Un image_image filter_map comp_def)
  finally have "fst ` set payees = fst ` set ?t" .
  then have names: "set (map (\<lambda>o'. bytesToHex (karma_owner (boxTail o'))) paid) = fst ` set payees"
    unfolding owners by simp
  have proj: "\<exists>boxes. (bytesToHex (karma_owner (boxTail o')), karma_owner (boxTail o'), boxes)
      \<in> set (collectPostBodyKarma lookup karmaBoxes txs payees)" if "o' \<in> set paid" for o' lookup karmaBoxes txs
    by (rule payee_projected [OF payees_keyed [OF assms(3)]]) (use names that in \<open>auto simp del: bytesToHex_inject\<close>)
  have "\<forall>o'\<in>set paid. 0 < boxValue o'"
    unfolding paid using base amt by (auto intro: add_nonneg_pos)
  then show ?thesis
    using names proj unfolding owners using keys(1) by (simp add: tally_ok_def)
qed

lemma income_pays_payees_once_witness:
  "\<exists>d payees. derive settleDeps 10 4200000000 720 settleBody = Inr d \<and>
     computeSquaredSetPayees settleBody 10 settleDeps = Inr payees \<and>
     set (map (\<lambda>o'. bytesToHex (karma_owner (boxTail o')))
       (filter (\<lambda>o'. tail_income (boxTail o')) (derivedOutputs d))) = fst ` set payees"
proof -
  obtain d where d: "derive settleDeps 10 4200000000 720 settleBody = Inr d"
    using settle_built by (auto simp: buildSettlement_ok)
  obtain payees where p: "computeSquaredSetPayees settleBody 10 settleDeps = Inr payees"
    by (simp add: computeSquaredSetPayees_def settleDeps_def Let_def)
  from income_pays_payees_once [OF d settle_reads p refl] have "set (map (\<lambda>o'. bytesToHex (karma_owner (boxTail o')))
       (filter (\<lambda>o'. tail_income (boxTail o')) (derivedOutputs d))) = fst ` set payees" by (elim conjE)
  with d p show ?thesis by blast
qed

end
