(* ===== verification/Blocks.thy ===== *)
theory Blocks
  imports Tx
begin

text \<open>
  The block (\<open>packages/types/src/block.ts\<close>) and its bytes
  (\<open>packages/types/src/serialization.ts\<close>): the header, the transaction tree, the
  nested framing of an ordering block and the lookup of one transaction in an
  encoded tree; the Merkle root of a body (\<open>merkle.ts\<close>) and the interlink vector
  (\<open>interlinks.ts\<close>).
\<close>

section \<open>Data\<close>

record blockHeader =
  h_protocolVersion :: int
  h_height :: int
  prevBlockHash :: string
  utxoTxRoot :: string
  stateRoot :: string
  validatorId :: "byte list"
  powNonce :: int
  powTargetBits :: int
  createdAt :: int
  h_interlinkRoot :: string
  adProofsRoot :: string

record utxoTxTree =
  utxoTxIds :: "string list"
  utxoTxs :: "byte list list"

record orderingBlock =
  header :: blockHeader
  ob_utxoTxTree :: utxoTxTree
  validatorSignature :: "byte list"

definition MAX_HEADER_BYTES :: int where "MAX_HEADER_BYTES = 233"
definition MAX_INTERLINKS :: int where "MAX_INTERLINKS = 257"
definition LEVEL_CAP :: int where "LEVEL_CAP = 256"

section \<open>The header\<close>

definition writeHeader :: "blockHeader \<Rightarrow> byte list res" where
  "writeHeader h = wcat
     [writeVlqU (h_protocolVersion h), writeVlqU (h_height h), writeHexNOrThrow (prevBlockHash h) 32,
      writeHexNOrThrow (utxoTxRoot h) 32, writeHexNOrThrow (stateRoot h) 33,
      writeBytesNOrThrow (validatorId h) 32, writeVlqU (powNonce h), writeVlqU (powTargetBits h),
      writeVlqU (createdAt h), writeHexNOrThrow (h_interlinkRoot h) 32, writeHexNOrThrow (adProofsRoot h) 32]"

definition readHeader :: "blockHeader rd" where
  "readHeader =
     rbind readVlqU (\<lambda>pv. rbind readVlqU (\<lambda>ht. rbind (readHexN 32) (\<lambda>prev. rbind (readHexN 32) (\<lambda>txr.
     rbind (readHexN 33) (\<lambda>sr. rbind (readBytesN 32) (\<lambda>vid. rbind readVlqU (\<lambda>nonce. rbind readVlqU (\<lambda>tb.
     rbind readVlqU (\<lambda>ca. rbind (readHexN 32) (\<lambda>il. rbind (readHexN 32) (\<lambda>ap.
     rret \<lparr>h_protocolVersion = pv, h_height = ht, prevBlockHash = prev, utxoTxRoot = txr, stateRoot = sr,
       validatorId = vid, powNonce = nonce, powTargetBits = tb, createdAt = ca, h_interlinkRoot = il,
       adProofsRoot = ap\<rparr>)))))))))))"

definition HEADER :: "blockHeader structCodec" where
  "HEADER = \<lparr>c_write = writeHeader, c_read = readHeader\<rparr>"

definition encodeHeader :: "blockHeader \<Rightarrow> byte list res" where
  "encodeHeader h = encodeStruct HEADER h"

definition decodeHeader :: "byte list \<Rightarrow> blockHeader res" where
  "decodeHeader bytes = decodeStruct HEADER bytes"

definition header_dom :: "blockHeader \<Rightarrow> bool" where
  "header_dom h \<longleftrightarrow> isEncodableVlqU (h_protocolVersion h) \<and> isEncodableVlqU (h_height h) \<and>
     isEncodableVlqU (powNonce h) \<and> isEncodableVlqU (powTargetBits h) \<and> isEncodableVlqU (createdAt h)"

section \<open>The transaction tree\<close>

definition writeTree :: "utxoTxTree \<Rightarrow> byte list res" where
  "writeTree t = wcat [writeArr (utxoTxIds t) (\<lambda>i. writeHexNOrThrow i 32), writeArr (utxoTxs t) writeLp]"

definition readTree :: "utxoTxTree rd" where
  "readTree = rbind (readArr (readHexN 32)) (\<lambda>is. rbind readVlqU (\<lambda>elemCount.
     if elemCount \<noteq> int (length is) then rfail (ReaderErr OutOfDomain)
     else rbind (readTimes (nat elemCount) readLp) (\<lambda>txs. rret \<lparr>utxoTxIds = is, utxoTxs = txs\<rparr>)))"

definition UTXO_TX_TREE :: "utxoTxTree structCodec" where
  "UTXO_TX_TREE = \<lparr>c_write = writeTree, c_read = readTree\<rparr>"

definition encodeUtxoTxTree :: "utxoTxTree \<Rightarrow> byte list res" where
  "encodeUtxoTxTree t = encodeStruct UTXO_TX_TREE t"

definition decodeUtxoTxTree :: "byte list \<Rightarrow> utxoTxTree res" where
  "decodeUtxoTxTree bytes = decodeStruct UTXO_TX_TREE bytes"

definition utxoTxTreeByteLength :: "utxoTxTree \<Rightarrow> int" where
  "utxoTxTreeByteLength t = arrByteLength (utxoTxIds t) (\<lambda>_. 32) + arrByteLength (utxoTxs t) lpByteLength"

definition tree_dom :: "utxoTxTree \<Rightarrow> bool" where
  "tree_dom t \<longleftrightarrow> length (utxoTxIds t) = length (utxoTxs t) \<and> int (length (utxoTxIds t)) \<le> MAX_ARRAY_LENGTH"

section \<open>One transaction of an encoded tree\<close>

text \<open>The walk over the id array: the first match is kept, the rest is still read.\<close>
fun walkIds :: "nat \<Rightarrow> nat \<Rightarrow> byte list \<Rightarrow> nat option \<Rightarrow> nat option rd" where
  "walkIds 0 i wanted found r = Inr (found, r)"
| "walkIds (Suc n) i wanted found r = ebind (readBytes 32 r) (\<lambda>(idView, r').
     walkIds n (i + 1) wanted (if found = None \<and> equalBytes idView wanted then Some i else found) r')"

fun skipLp :: "nat \<Rightarrow> unit rd" where
  "skipLp 0 r = Inr ((), r)"
| "skipLp (Suc n) r = ebind (readVlqU r) (\<lambda>(len, r'). ebind (readBytes len r') (\<lambda>(_, r''). skipLp n r''))"

definition utxoTxBytesIn :: "byte list \<Rightarrow> string \<Rightarrow> byte list option res" where
  "utxoTxBytesIn treeBytes txId =
     (if \<not> isHex64 txId then Inr None
      else
        ebind (hexToBytes txId) (\<lambda>wanted.
        ebind (readVlqU (newReader treeBytes)) (\<lambda>(idCount, r1).
        if idCount > MAX_ARRAY_LENGTH then Inl (ReaderErr ArrayTooLarge)
        else
          ebind (walkIds (nat idCount) 0 wanted None r1) (\<lambda>(wantedIndex, r2).
          case wantedIndex of
            None \<Rightarrow> Inr None
          | Some k \<Rightarrow>
              ebind (readVlqU r2) (\<lambda>(elemCount, r3).
              if elemCount > MAX_ARRAY_LENGTH then Inl (ReaderErr ArrayTooLarge)
              else if elemCount \<le> int k then Inl (ReaderErr Truncated)
              else ebind (skipLp k r3) (\<lambda>(_, r4). ebind (readLp r4) (\<lambda>(bs, _). Inr (Some bs))))))))"

section \<open>The ordering block\<close>

definition encodeOrderingBlock :: "orderingBlock \<Rightarrow> byte list res" where
  "encodeOrderingBlock b =
     ebind (encodeStruct HEADER (header b)) (\<lambda>hb.
     ebind (encodeStruct UTXO_TX_TREE (ob_utxoTxTree b)) (\<lambda>tb.
     wcat [writeLp hb, writeLp tb, writeBytesNOrThrow (validatorSignature b) 64]))"

text \<open>One \<open>lp\<close> section whose length prefix must be the minimal one.\<close>
definition readSection :: "int option \<Rightarrow> byte list rd" where
  "readSection maxLen r =
     ebind (readVlqU r) (\<lambda>(len, r').
     if (case maxLen of None \<Rightarrow> False | Some m \<Rightarrow> len > m) then Inl (ReaderErr OutOfDomain)
     else if int (r_position r') - int (r_position r) \<noteq> vlqUByteLength len then Inl (CodecErr NonCanonical)
     else readBytes len r')"

definition readOrderingBlockSections :: "byte list \<Rightarrow> (blockHeader \<times> byte list \<times> byte list) res" where
  "readOrderingBlockSections bytes =
     ebind (readSection (Some MAX_HEADER_BYTES) (newReader bytes)) (\<lambda>(headerBytes, r1).
     ebind (decodeStruct HEADER headerBytes) (\<lambda>hd.
     ebind (readSection None r1) (\<lambda>(treeBytes, r2).
     ebind (readBytesN 64 r2) (\<lambda>(sig, r3).
     if \<not> r_isExhausted r3 then Inl (CodecErr TrailingBytes) else Inr (hd, treeBytes, sig)))))"

definition decodeOrderingBlock :: "byte list \<Rightarrow> orderingBlock res" where
  "decodeOrderingBlock bytes =
     ebind (readOrderingBlockSections bytes) (\<lambda>(hd, treeBytes, sig).
     ebind (decodeUtxoTxTree treeBytes) (\<lambda>t.
     Inr \<lparr>header = hd, ob_utxoTxTree = t, validatorSignature = sig\<rparr>))"

section \<open>Merkle root\<close>

definition leafHash :: "hash \<Rightarrow> string \<Rightarrow> byte list \<Rightarrow> byte list" where
  "leafHash H tag data = hash32 H [ascii tag @ [0], data]"

definition nodeHash :: "hash \<Rightarrow> byte list \<Rightarrow> byte list \<Rightarrow> byte list" where
  "nodeHash H left right = hash32 H [[0], left, right]"

fun nextLevel :: "hash \<Rightarrow> byte list list \<Rightarrow> byte list list" where
  "nextLevel H (a # b # rest) = nodeHash H a b # nextLevel H rest"
| "nextLevel H [a] = [a]"
| "nextLevel H [] = []"

lemma nextLevel_length: "length (nextLevel H xs) = (length xs + 1) div 2"
  by (induction H xs rule: nextLevel.induct) auto

function merkleLevels :: "hash \<Rightarrow> byte list list \<Rightarrow> byte list" where
  "merkleLevels H lvl = (if length lvl > 1 then merkleLevels H (nextLevel H lvl) else hd lvl)"
  by pat_completeness auto
termination by (relation "measure (\<lambda>(H, lvl). length lvl)") (auto simp: nextLevel_length)

declare merkleLevels.simps [simp del]

definition buildMerkleRoot :: "hash \<Rightarrow> byte list list \<Rightarrow> byte list" where
  "buildMerkleRoot H leafHashes =
     (if leafHashes = [] then replicate 32 0
      else if length leafHashes = 1 then hd leafHashes
      else merkleLevels H leafHashes)"

definition computeUtxoTxRoot :: "hash \<Rightarrow> utxoTxTree \<Rightarrow> string res" where
  "computeUtxoTxRoot H t =
     ebind (emap (\<lambda>i. ebind (hexToBytes i) (\<lambda>bs. Inr (leafHash H ''utxotx'' bs))) (utxoTxIds t)) (\<lambda>ids.
     Inr (bytesToHex (buildMerkleRoot H (ids @ map (leafHash H ''utxotx-bytes'') (utxoTxs t)))))"

section \<open>The interlink vector\<close>

definition INTERLINK_DOMAIN :: "byte list" where
  "INTERLINK_DOMAIN = ascii ''dagsocial/interlinks/1''"

definition readInterlinks :: "string list rd" where
  "readInterlinks = rbind readVlqU (\<lambda>count.
     if count > MAX_INTERLINKS then rfail (ReaderErr ArrayTooLarge)
     else readTimes (nat count) (readHexN 32))"

definition INTERLINKS :: "string list structCodec" where
  "INTERLINKS = \<lparr>c_write = (\<lambda>v. writeArr v (\<lambda>i. writeHexNOrThrow i 32)), c_read = readInterlinks\<rparr>"

definition encodeInterlinks :: "string list \<Rightarrow> byte list res" where
  "encodeInterlinks v = encodeStruct INTERLINKS v"

definition decodeInterlinks :: "byte list \<Rightarrow> string list res" where
  "decodeInterlinks bytes = decodeStruct INTERLINKS bytes"

definition interlinkRoot :: "hash \<Rightarrow> string list \<Rightarrow> string res" where
  "interlinkRoot H v = ebind (encodeInterlinks v) (\<lambda>encoded. Inr (bytesToHex (hash32 H [INTERLINK_DOMAIN, encoded])))"

text \<open>A block's level: \<open>Infinity\<close> for the genesis, \<open>null\<close> below the anchor.\<close>
datatype blockLevel = Infinite | NoLevel | Level int

definition updateInterlinks :: "string list \<Rightarrow> string \<Rightarrow> blockLevel \<Rightarrow> string list res" where
  "updateInterlinks prev prevHash prevLevel =
     (case prevLevel of
        Infinite \<Rightarrow> Inr [prevHash]
      | NoLevel \<Rightarrow> if prev = [] then Inl OtherErr else Inr prev
      | Level L \<Rightarrow>
          if L < 0 \<or> L > LEVEL_CAP \<or> prev = [] then Inl OtherErr
          else
            let result = map (\<lambda>i. if 1 \<le> i \<and> i \<le> nat L then prevHash else prev ! i) [0..<length prev]
            in Inr (result @ replicate (nat L + 1 - length prev) prevHash))"

end
