(* ===== verification/BlockLaws.thy ===== *)
theory BlockLaws
  imports Blocks
begin

text \<open>
  The block's bytes: its codecs as interpretations of \<open>struct_codec\<close>, the bounds and
  the sizer, the framing (round trip and one encoding per block), the lookup of one
  transaction in an encoded tree, and the Merkle root as a commitment to the body.
\<close>

section \<open>The codecs\<close>

lemma parses_header:
  assumes "writeHeader h = Inr bs" "header_dom h"
  shows "parses readHeader bs h"
proof -
  obtain b1 b2 b3 b4 b5 b6 b7 b8 b9 b10 b11 where b: "writeVlqU (h_protocolVersion h) = Inr b1"
      "writeVlqU (h_height h) = Inr b2" "writeHexNOrThrow (prevBlockHash h) 32 = Inr b3"
      "writeHexNOrThrow (utxoTxRoot h) 32 = Inr b4" "writeHexNOrThrow (stateRoot h) 33 = Inr b5"
      "writeBytesNOrThrow (validatorId h) 32 = Inr b6" "writeVlqU (powNonce h) = Inr b7"
      "writeVlqU (powTargetBits h) = Inr b8" "writeVlqU (createdAt h) = Inr b9"
      "writeHexNOrThrow (h_interlinkRoot h) 32 = Inr b10" "writeHexNOrThrow (adProofsRoot h) 32 = Inr b11"
      "bs = b1 @ b2 @ b3 @ b4 @ b5 @ b6 @ b7 @ b8 @ b9 @ b10 @ b11 @ []"
    using assms(1) by (auto simp: writeHeader_def wcat_Cons_eq wcat_Nil_eq simp del: wcat.simps)
  have d1: "isEncodableVlqU (h_protocolVersion h)" and d2: "isEncodableVlqU (h_height h)"
    and d3: "isEncodableVlqU (powNonce h)" and d4: "isEncodableVlqU (powTargetBits h)"
    and d5: "isEncodableVlqU (createdAt h)" using assms(2) by (simp_all add: header_dom_def)
  have v: "parses (readBytesN 32) b6 (validatorId h)" using parses_writeBytesN [OF b(6)] by simp
  have "parses readHeader bs \<lparr>h_protocolVersion = h_protocolVersion h, h_height = h_height h,
       prevBlockHash = prevBlockHash h, utxoTxRoot = utxoTxRoot h, stateRoot = stateRoot h,
       validatorId = validatorId h, powNonce = powNonce h, powTargetBits = powTargetBits h,
       createdAt = createdAt h, h_interlinkRoot = h_interlinkRoot h, adProofsRoot = adProofsRoot h\<rparr>"
    unfolding readHeader_def b(12)
    by (rule parses_rbind, rule parses_writeVlqU [OF b(1) d1],
        rule parses_rbind, rule parses_writeVlqU [OF b(2) d2],
        rule parses_rbind, rule parses_writeHexN [OF b(3)],
        rule parses_rbind, rule parses_writeHexN [OF b(4)],
        rule parses_rbind, rule parses_writeHexN [OF b(5)],
        rule parses_rbind, rule v,
        rule parses_rbind, rule parses_writeVlqU [OF b(7) d3],
        rule parses_rbind, rule parses_writeVlqU [OF b(8) d4],
        rule parses_rbind, rule parses_writeVlqU [OF b(9) d5],
        rule parses_rbind, rule parses_writeHexN [OF b(10)],
        rule parses_rbind, rule parses_writeHexN [OF b(11)],
        rule parses_rret)
  then show ?thesis by (cases h) simp
qed

interpretation header_codec: struct_codec HEADER header_dom
  by unfold_locales (simp add: HEADER_def parses_header)

lemma parses_each:
  assumes "\<And>x. x \<in> set xs \<Longrightarrow> parses p (enc x) x"
  shows "parses (readTimes (length xs) p) (concat (map enc xs)) xs"
  using assms
proof (induction xs)
  case Nil
  then show ?case using parses_rret [of "[]"] by (simp add: parses_def rret_def)
next
  case (Cons x xs)
  have eq: "readTimes (Suc n) p = rbind p (\<lambda>x. rbind (readTimes n p) (\<lambda>xs. rret (x # xs)))" for n
    by (rule ext) (simp add: rbind_def rret_def)
  have "parses (rbind p (\<lambda>x. rbind (readTimes (length xs) p) (\<lambda>xs. rret (x # xs))))
      (enc x @ (concat (map enc xs) @ [])) (x # xs)"
    by (rule parses_rbind, rule Cons.prems, simp, rule parses_rbind, rule Cons.IH, use Cons.prems in simp, rule parses_rret)
  then show ?case by (simp add: eq)
qed

definition lpBytes :: "byte list \<Rightarrow> byte list" where
  "lpBytes x = vlq (int (length x)) @ x"

lemma writeTree_eq:
  assumes "writeTree t = Inr bs"
  obtains idb where "utxoTxIds t = map bytesToHex idb" "\<forall>x\<in>set idb. length x = 32"
    "bs = vlq (int (length idb)) @ concat idb @ vlq (int (length (utxoTxs t))) @ concat (map lpBytes (utxoTxs t))"
    "int (length idb) \<le> MAX_SAFE_INTEGER" "int (length (utxoTxs t)) \<le> MAX_SAFE_INTEGER"
    "\<forall>x\<in>set (utxoTxs t). int (length x) \<le> MAX_SAFE_INTEGER"
proof -
  obtain b1 b2 c1 c2 where b: "wcat (map (\<lambda>i. writeHexNOrThrow i 32) (utxoTxIds t)) = Inr c1"
      "wcat (map writeLp (utxoTxs t)) = Inr c2"
      "bs = vlq (int (length (utxoTxIds t))) @ c1 @ vlq (int (length (utxoTxs t))) @ c2"
      "int (length (utxoTxIds t)) \<le> MAX_SAFE_INTEGER" "int (length (utxoTxs t)) \<le> MAX_SAFE_INTEGER"
    using assms by (auto simp: writeTree_def writeArr_def bind_iff)
  obtain e1 where e1: "\<forall>x\<in>set (utxoTxIds t). writeHexNOrThrow x 32 = Inr (e1 x)" "c1 = concat (map e1 (utxoTxIds t))"
    using wcat_map_concat [OF b(1)] by blast
  obtain e2 where e2: "\<forall>x\<in>set (utxoTxs t). writeLp x = Inr (e2 x)" "c2 = concat (map e2 (utxoTxs t))"
    using wcat_map_concat [OF b(2)] by blast
  define idb where "idb = map e1 (utxoTxIds t)"
  have "map e2 (utxoTxs t) = map lpBytes (utxoTxs t)" and le: "\<forall>x\<in>set (utxoTxs t). int (length x) \<le> MAX_SAFE_INTEGER"
    using e2(1) by (auto simp: writeLp_eq lpBytes_def)
  then have c2: "c2 = concat (map lpBytes (utxoTxs t))" using e2(2) by (simp only:)
  have "map bytesToHex idb = utxoTxIds t" and l32: "\<forall>x\<in>set idb. length x = 32"
    using e1(1) by (auto simp: idb_def writeHexN_eq comp_def intro!: map_idI)
  moreover have len: "length (utxoTxIds t) = length idb" by (simp add: idb_def)
  moreover have "c1 = concat idb" using e1(2) by (simp add: idb_def)
  ultimately show ?thesis using b(3-5) c2 le by (intro that [of idb]) simp_all
qed

lemma parses_tree:
  assumes "writeTree t = Inr bs" "tree_dom t"
  shows "parses readTree bs t"
proof -
  from writeTree_eq [OF assms(1)] obtain idb where i: "utxoTxIds t = map bytesToHex idb" "\<forall>x\<in>set idb. length x = 32"
    "bs = vlq (int (length idb)) @ concat idb @ vlq (int (length (utxoTxs t))) @ concat (map lpBytes (utxoTxs t))"
    "int (length idb) \<le> MAX_SAFE_INTEGER" "int (length (utxoTxs t)) \<le> MAX_SAFE_INTEGER"
    "\<forall>x\<in>set (utxoTxs t). int (length x) \<le> MAX_SAFE_INTEGER" .
  note d = assms(2) [unfolded tree_dom_def]
  have "writeArr (utxoTxIds t) (\<lambda>i. writeHexNOrThrow i 32) = Inr (vlq (int (length idb)) @ concat idb)"
  proof -
    have "wcat (map (\<lambda>i. writeHexNOrThrow i 32) (map bytesToHex idb)) = Inr (concat idb)"
      using i(2) by (induction idb) (auto simp: bind_iff)
    then show ?thesis using i(4) by (auto simp: writeArr_def i(1) bind_iff)
  qed
  from parses_hexArr [OF this] d have p1: "parses (readArr (readHexN 32)) (vlq (int (length idb)) @ concat idb) (utxoTxIds t)"
    by simp
  have p2: "parses (readTimes (length (utxoTxs t)) readLp) (concat (map lpBytes (utxoTxs t))) (utxoTxs t)"
    by (rule parses_each) (use i(6) in \<open>auto simp: lpBytes_def writeLp_eq intro: parses_writeLp\<close>)
  have "parses readTree ((vlq (int (length idb)) @ concat idb) @ vlq (int (length (utxoTxs t))) @
      (concat (map lpBytes (utxoTxs t)) @ [])) \<lparr>utxoTxIds = utxoTxIds t, utxoTxs = utxoTxs t\<rparr>"
    unfolding readTree_def
  proof (rule parses_rbind, rule p1, rule parses_rbind)
    show "parses readVlqU (vlq (int (length (utxoTxs t)))) (int (length (utxoTxs t)))"
      using i(5) by (intro parses_readVlqU) simp_all
    show "parses (if int (length (utxoTxs t)) \<noteq> int (length (utxoTxIds t)) then rfail (ReaderErr OutOfDomain)
        else rbind (readTimes (nat (int (length (utxoTxs t)))) readLp)
          (\<lambda>txs. rret \<lparr>utxoTxIds = utxoTxIds t, utxoTxs = txs\<rparr>))
        (concat (map lpBytes (utxoTxs t)) @ []) \<lparr>utxoTxIds = utxoTxIds t, utxoTxs = utxoTxs t\<rparr>"
      using d p2 by (simp del: append_Nil2) (rule parses_rbind, assumption, rule parses_rret)
  qed
  then show ?thesis by (cases t) (simp add: i(3))
qed

interpretation tree_codec: struct_codec UTXO_TX_TREE tree_dom
  by unfold_locales (simp add: UTXO_TX_TREE_def parses_tree)

interpretation interlinks_codec: struct_codec INTERLINKS "\<lambda>v. int (length v) \<le> MAX_INTERLINKS"
proof unfold_locales
  fix v bs assume d: "int (length v) \<le> MAX_INTERLINKS" and w: "c_write INTERLINKS v = Inr bs"
  obtain c where c: "wcat (map (\<lambda>i. writeHexNOrThrow i 32) v) = Inr c" "bs = vlq (int (length v)) @ c"
      "int (length v) \<le> MAX_SAFE_INTEGER"
    using w by (auto simp: INTERLINKS_def writeArr_def bind_iff)
  obtain e where e: "\<forall>x\<in>set v. writeHexNOrThrow x 32 = Inr (e x)" "c = concat (map e v)"
    using wcat_map_concat [OF c(1)] by blast
  have "parses (readTimes (length v) (readHexN 32)) (concat (map e v)) v"
    by (rule parses_each) (use e(1) in \<open>auto intro: parses_writeHexN\<close>)
  note p = this
  show "parses (c_read INTERLINKS) bs v"
    unfolding c(2) e(2) INTERLINKS_def structCodec.simps readInterlinks_def
    by (rule parses_rbind, rule parses_readVlqU [OF _ c(3)]) (use d p in simp_all)
qed

section \<open>Bounds\<close>

lemma vlqU_bound: "writeVlqU v = Inr bs \<Longrightarrow> isEncodableVlqU v \<Longrightarrow> length bs \<le> 8"
  using vlq_safe_length [of v] by (auto simp: writeVlqU_bytes isEncodableVlqU_iff)

lemma header_length:
  assumes "encodeHeader h = Inr bs" "header_dom h"
  shows "int (length bs) \<le> MAX_HEADER_BYTES"
proof -
  obtain b1 b2 b3 b4 b5 b6 b7 b8 b9 b10 b11 where b: "writeVlqU (h_protocolVersion h) = Inr b1"
      "writeVlqU (h_height h) = Inr b2" "writeHexNOrThrow (prevBlockHash h) 32 = Inr b3"
      "writeHexNOrThrow (utxoTxRoot h) 32 = Inr b4" "writeHexNOrThrow (stateRoot h) 33 = Inr b5"
      "writeBytesNOrThrow (validatorId h) 32 = Inr b6" "writeVlqU (powNonce h) = Inr b7"
      "writeVlqU (powTargetBits h) = Inr b8" "writeVlqU (createdAt h) = Inr b9"
      "writeHexNOrThrow (h_interlinkRoot h) 32 = Inr b10" "writeHexNOrThrow (adProofsRoot h) 32 = Inr b11"
      "bs = b1 @ b2 @ b3 @ b4 @ b5 @ b6 @ b7 @ b8 @ b9 @ b10 @ b11 @ []"
    using assms(1) by (auto simp: encodeHeader_def encodeStruct_def HEADER_def writeHeader_def
        wcat_Cons_eq wcat_Nil_eq simp del: wcat.simps)
  note d = assms(2) [unfolded header_dom_def]
  have "length b1 \<le> 8" "length b2 \<le> 8" "length b7 \<le> 8" "length b8 \<le> 8" "length b9 \<le> 8"
    using b d vlqU_bound by blast+
  moreover have "length b3 = 32" "length b4 = 32" "length b5 = 33" "length b6 = 32" "length b10 = 32" "length b11 = 32"
    using b by (auto simp: writeHexN_eq writeBytesN_eq)
  ultimately show ?thesis unfolding b(12) by (simp add: MAX_HEADER_BYTES_def)
qed

lemma tree_length:
  assumes "encodeUtxoTxTree t = Inr bs"
  shows "utxoTxTreeByteLength t = int (length bs)"
proof -
  have w: "writeTree t = Inr bs" using assms by (simp add: encodeUtxoTxTree_def encodeStruct_def UTXO_TX_TREE_def)
  from writeTree_eq [OF this] obtain idb where i: "utxoTxIds t = map bytesToHex idb" "\<forall>x\<in>set idb. length x = 32"
    "bs = vlq (int (length idb)) @ concat idb @ vlq (int (length (utxoTxs t))) @ concat (map lpBytes (utxoTxs t))"
    "int (length idb) \<le> MAX_SAFE_INTEGER" "int (length (utxoTxs t)) \<le> MAX_SAFE_INTEGER"
    "\<forall>x\<in>set (utxoTxs t). int (length x) \<le> MAX_SAFE_INTEGER" .
  have ids: "foldl (\<lambda>t x. t + 32) n (map bytesToHex idb) = n + int (length (concat idb))" for n
    using i(2) by (induction idb arbitrary: n) auto
  have txs: "foldl (\<lambda>t x. t + lpByteLength x) n xs = n + int (length (concat (map lpBytes xs)))"
    if "\<forall>x\<in>set xs. int (length x) \<le> MAX_SAFE_INTEGER" for n xs
    using that
    by (induction xs arbitrary: n) (auto simp: lpBytes_def lpByteLength_def vlqUByteLength_enc isEncodableVlqU_iff)
  show ?thesis
    using i by (simp add: utxoTxTreeByteLength_def arrByteLength_def ids txs vlqUByteLength_enc isEncodableVlqU_iff)
qed

section \<open>The framing\<close>

text \<open>Whatever the VLQ reader accepts, a minimal-length read consumed the minimal bytes.\<close>
definition consumed :: "reader \<Rightarrow> reader \<Rightarrow> byte list" where
  "consumed r r' = take (r_position r' - r_position r) (drop (r_position r) (r_bytes r))"

lemma consumed_trans:
  assumes "advances r r1" "advances r1 r2"
  shows "consumed r r2 = consumed r r1 @ consumed r1 r2"
proof -
  have "r_bytes r1 = r_bytes r" and p: "r_position r \<le> r_position r1" "r_position r1 \<le> r_position r2"
    using assms by (auto simp: advances_def)
  moreover have e: "r_position r2 - r_position r = (r_position r1 - r_position r) + (r_position r2 - r_position r1)"
    using p by simp
  ultimately show ?thesis unfolding consumed_def e take_add by (simp add: p(1))
qed

lemma consumed_length: "advances r r' \<Longrightarrow> length (consumed r r') = r_position r' - r_position r"
  by (auto simp: consumed_def advances_def)

lemma readU8_consumed:
  assumes "reader_ok r" "readU8 r = Inr (b, r')"
  shows "\<exists>w. consumed r r' = [w] \<and> b = uint w"
  using assms
  by (auto simp: readU8_def bind_iff consumed_def take_Suc_conv_app_nth hd_drop_conv_nth split: if_splits
      intro!: exI [of _ "r_bytes r ! r_position r"])

lemma byte_split: "uint (w :: byte) AND 128 \<noteq> 0 \<Longrightarrow> uint w = (uint w AND 127) + 128"
proof -
  assume a: "uint w AND 128 \<noteq> 0"
  have "\<not> uint w < 128" using a and_128_zero [of "uint w"] byte_uint_range(1) [of w] by blast
  then have "uint w div 128 = 1" using byte_uint_range(2) [of w] by (intro int_div_pos_eq [of _ _ _ "uint w - 128"]) simp_all
  then have "uint w = uint w mod 128 + 128" using mult_div_mod_eq [of 128 "uint w"] by simp
  then show ?thesis by (simp only: and_127)
qed

lemma byte_small: "uint (w :: byte) AND 128 = 0 \<Longrightarrow> uint w < 128"
proof (rule ccontr)
  assume a: "uint w AND 128 = 0" "\<not> uint w < 128"
  then have "uint w div 128 = 1" using byte_uint_range(2) [of w] by (intro int_div_pos_eq [of _ _ _ "uint w - 128"]) simp_all
  then have "uint w = uint w mod 128 + 128" using mult_div_mod_eq [of 128 "uint w"] by simp
  then show False using a(1) and_128_cont [of "uint w"] by simp
qed

lemma readVlqU_loop_consumed:
  assumes "readVlqU_loop acc s k r = Inr (n, r')" "reader_ok r"
  shows "(acc \<le> MAX_SAFE_INTEGER \<longrightarrow> n \<le> MAX_SAFE_INTEGER) \<and> (\<exists>v\<ge>0. n = acc + v * 2 ^ s \<and> consumed r r' \<noteq> [] \<and>
    length (vlq v) \<le> length (consumed r r') \<and>
    (length (consumed r r') = length (vlq v) \<longrightarrow> consumed r r' = vlq v))"
  using assms
proof (induction acc s k r rule: readVlqU_loop.induct)
  case (1 acc s k r)
  obtain b r1 where b: "readU8 r = Inr (b, r1)" using "1.prems"(1) by (subst (asm) readVlqU_loop.simps) (auto simp: bind_iff)
  have adv: "advances r r1" by (rule within_readU8 [OF "1.prems"(2) b])
  obtain w where w: "consumed r r1 = [w]" "b = uint w" using readU8_consumed [OF "1.prems"(2) b] by blast
  let ?c = "(b AND 127) * 2 ^ s"
  show ?case
  proof (cases "b AND 128 = 0")
    case True
    then have nr: "n = acc + ?c" "r' = r1" and le: "n \<le> MAX_SAFE_INTEGER"
      using "1.prems"(1) b by (simp_all add: readVlqU_loop.simps [of acc s k r] Let_def split: if_splits)
    have "b < 128" using True byte_small w(2) by blast
    moreover from this have "b AND 127 = b" by (simp add: and_127 w(2))
    ultimately show ?thesis using nr le
      by (intro conjI impI exI [of _ b]) (simp_all add: w vlq_small)
  next
    case False
    then have rec: "readVlqU_loop (acc + ?c) (s + 7) (k + 1) r1 = Inr (n, r')"
      and g: "\<not> MAX_SAFE_INTEGER - acc < ?c" "\<not> MAX_VLQ_BYTES \<le> k + 1"
      using "1.prems"(1) b by (simp_all add: readVlqU_loop.simps [of acc s k r] Let_def split: if_splits)
    have ok1: "reader_ok r1" by (rule advances_ok [OF "1.prems"(2) adv])
    note IH = "1.IH" [OF b refl refl g(1) False g(2) rec ok1]
    have le: "n \<le> MAX_SAFE_INTEGER" using IH g(1) by linarith
    from IH obtain v where
      v: "0 \<le> v" "n = acc + ?c + v * 2 ^ (s + 7)" "consumed r1 r' \<noteq> []"
        "length (vlq v) \<le> length (consumed r1 r')"
        "length (consumed r1 r') = length (vlq v) \<longrightarrow> consumed r1 r' = vlq v" by auto
    have adv1: "advances r1 r'" by (rule within_readVlqU_loop [OF ok1 rec])
    let ?v = "(b AND 127) + 128 * v"
    have m: "0 \<le> b AND 127" "b AND 127 < 128" by (simp_all add: and_127)
    have n: "n = acc + ?v * 2 ^ s" using v(2) by (simp add: distrib_right power_add)
    have split: "consumed r r' = w # consumed r1 r'"
      using consumed_trans [OF adv adv1] w(1) by simp
    show ?thesis
    proof (cases "v = 0")
      case True
      then have "vlq ?v = [word_of_int (b AND 127)]" using m by (simp add: vlq_small)
      then show ?thesis using n v(3) m True le by (intro conjI impI exI [of _ ?v]) (auto simp: split)
    next
      case False
      then have big: "128 \<le> ?v" using v(1) m by linarith
      have dm: "?v mod 128 = b AND 127" "?v div 128 = v" using m by simp_all
      have "uint w = (b AND 127) + 128" using byte_split [of w] \<open>b AND 128 \<noteq> 0\<close> w(2) by simp
      then have "word_of_int ((b AND 127) + 128) = w" by (metis word_of_int_uint)
      then have "vlq ?v = w # vlq v" using vlq_big [OF big] by (simp only: dm)
      then show ?thesis using n v m le by (intro conjI impI exI [of _ ?v]) (auto simp: split)
    qed
  qed
qed

lemma readVlqU_minimal:
  assumes "readVlqU r = Inr (n, r')" "reader_ok r" "int (r_position r') - int (r_position r) = vlqUByteLength n"
  shows "consumed r r' = vlq n \<and> 0 \<le> n \<and> n \<le> MAX_SAFE_INTEGER \<and> advances r r'"
proof -
  have adv: "advances r r'" using assms(1,2) within_readVlqU_loop by (simp add: readVlqU_def)
  have "(0 :: int) \<le> MAX_SAFE_INTEGER" by (simp add: MAX_SAFE_INTEGER_def)
  with readVlqU_loop_consumed [OF assms(1) [unfolded readVlqU_def] assms(2)] have
    n: "0 \<le> n" "n \<le> MAX_SAFE_INTEGER" "length (consumed r r') = length (vlq n) \<longrightarrow> consumed r r' = vlq n" by auto
  have "int (length (consumed r r')) = vlqUByteLength n"
    using consumed_length [OF adv] adv assms(3) by (simp add: advances_def)
  then have "length (consumed r r') = length (vlq n)"
    using n by (simp add: vlqUByteLength_enc isEncodableVlqU_iff)
  then show ?thesis using n adv by simp
qed

lemma readBytes_consumed:
  assumes "readBytes n r = Inr (x, r')" "reader_ok r" "0 \<le> n"
  shows "consumed r r' = x \<and> int (length x) = n"
  using assms by (auto simp: readBytes_def consumed_def reader_ok_def r_remaining_def bind_iff split: if_splits)

lemma readSection_consumed:
  assumes "readSection m r = Inr (x, r')" "reader_ok r"
  shows "consumed r r' = lpBytes x \<and> advances r r' \<and> int (length x) \<le> MAX_SAFE_INTEGER"
proof -
  obtain n r1 where n: "readVlqU r = Inr (n, r1)" "int (r_position r1) - int (r_position r) = vlqUByteLength n"
      "readBytes n r1 = Inr (x, r')"
    using assms(1) by (auto simp: readSection_def bind_iff split: if_splits option.splits)
  note v = readVlqU_minimal [OF n(1) assms(2) n(2)]
  have ok: "reader_ok r1" using v assms(2) advances_ok by blast
  note b = readBytes_consumed [OF n(3) ok]
  have a: "advances r1 r'" by (rule within_readBytes [OF ok n(3)])
  show ?thesis using v b consumed_trans [OF _ a, of r] advances_trans [of r r1 r'] a by (simp add: lpBytes_def)
qed

lemma parses_readSection:
  assumes "int (length x) \<le> MAX_SAFE_INTEGER" "case m of None \<Rightarrow> True | Some k \<Rightarrow> int (length x) \<le> k"
  shows "parses (readSection m) (lpBytes x) x"
  unfolding parses_def
proof (intro allI impI)
  fix r assume a: "at r (lpBytes x)"
  then have a1: "at r (vlq (int (length x)))"
    and a2: "at (r\<lparr>r_position := r_position r + length (vlq (int (length x)))\<rparr>) x"
    by (simp_all add: lpBytes_def at_append)
  have p: "parses readVlqU (vlq (int (length x))) (int (length x))" by (rule parses_readVlqU) (use assms in simp_all)
  show "readSection m r = Inr (x, r\<lparr>r_position := r_position r + length (lpBytes x)\<rparr>)"
    using parsesD [OF p a1] parsesD [OF parses_readBytes [OF refl] a2] assms
    by (auto simp: readSection_def lpBytes_def vlqUByteLength_enc isEncodableVlqU_iff split: option.splits)
qed

lemma sections_canonical:
  assumes "readOrderingBlockSections bytes = Inr (hdr, tb, sig)"
  obtains hb where "decodeStruct HEADER hb = Inr hdr" "bytes = lpBytes hb @ lpBytes tb @ sig" "length sig = 64"
    "int (length hb) \<le> MAX_SAFE_INTEGER" "int (length tb) \<le> MAX_SAFE_INTEGER"
proof -
  obtain hb r1 r2 r3 where r: "readSection (Some MAX_HEADER_BYTES) (newReader bytes) = Inr (hb, r1)"
      "decodeStruct HEADER hb = Inr hdr" "readSection None r1 = Inr (tb, r2)" "readBytesN 64 r2 = Inr (sig, r3)"
      "r_isExhausted r3"
    using assms by (auto simp: readOrderingBlockSections_def bind_iff split: if_splits)
  have ok: "reader_ok (newReader bytes)" by (simp add: reader_ok_def newReader_def)
  note c1 = readSection_consumed [OF r(1) ok]
  have ok1: "reader_ok r1" using c1 advances_ok [OF ok] by blast
  note c2 = readSection_consumed [OF r(3) ok1]
  have ok2: "reader_ok r2" using c2 advances_ok [OF ok1] by blast
  have c3: "consumed r2 r3 = sig" "int (length sig) = 64"
    using readBytes_consumed [OF r(4) [unfolded readBytesN_def] ok2] by simp_all
  have a3: "advances r2 r3" using within_readBytes [OF ok2] r(4) by (simp add: readBytesN_def)
  have a: "advances (newReader bytes) r3" using c1 c2 a3 advances_trans by blast
  have "consumed (newReader bytes) r3 = lpBytes hb @ lpBytes tb @ sig"
    using consumed_trans [of "newReader bytes" r1 r3] consumed_trans [of r1 r2 r3] advances_trans [of r1 r2 r3] c1 c2 c3(1) a3
    by simp
  moreover have "consumed (newReader bytes) r3 = bytes"
    using a r(5) by (simp add: consumed_def newReader_def advances_def r_isExhausted_def)
  ultimately show ?thesis using r(2) c1 c2 c3(2) by (intro that [of hb]) simp_all
qed

lemma encode_block_eq:
  "encodeOrderingBlock b = Inr bytes \<longleftrightarrow> (\<exists>hb tb. encodeStruct HEADER (header b) = Inr hb \<and>
     encodeStruct UTXO_TX_TREE (ob_utxoTxTree b) = Inr tb \<and> int (length hb) \<le> MAX_SAFE_INTEGER \<and>
     int (length tb) \<le> MAX_SAFE_INTEGER \<and> length (validatorSignature b) = 64 \<and>
     bytes = lpBytes hb @ lpBytes tb @ validatorSignature b)"
  by (auto simp: encodeOrderingBlock_def bind_iff lpBytes_def)

lemma block_decode_encode:
  assumes a: "header_dom (header b) \<and> tree_dom (ob_utxoTxTree b) \<and> encodeOrderingBlock b = Inr bytes"
  shows "decodeOrderingBlock bytes = Inr b"
proof -
  from a obtain hb tb where e: "encodeStruct HEADER (header b) = Inr hb"
     "encodeStruct UTXO_TX_TREE (ob_utxoTxTree b) = Inr tb" "int (length hb) \<le> MAX_SAFE_INTEGER"
     "int (length tb) \<le> MAX_SAFE_INTEGER" "length (validatorSignature b) = 64"
     "bytes = lpBytes hb @ lpBytes tb @ validatorSignature b" by (auto simp: encode_block_eq)
  have l: "int (length hb) \<le> MAX_HEADER_BYTES" using header_length [of "header b" hb] e(1) a by (simp add: encodeHeader_def)
  have dh: "decodeStruct HEADER hb = Inr (header b)" using header_codec.decode_encode [of "header b" hb] e(1) a by simp
  have dt: "decodeStruct UTXO_TX_TREE tb = Inr (ob_utxoTxTree b)" using tree_codec.decode_encode e(2) a by blast
  have "at (newReader bytes) (lpBytes hb @ lpBytes tb @ validatorSignature b)"
    using at_newReader [of bytes "[]"] e(6) by simp
  then have at: "at (newReader bytes) (lpBytes hb)"
     "at ((newReader bytes)\<lparr>r_position := length (lpBytes hb)\<rparr>) (lpBytes tb)"
     "at ((newReader bytes)\<lparr>r_position := length (lpBytes hb) + length (lpBytes tb)\<rparr>) (validatorSignature b)"
    by (simp_all add: at_append newReader_def)
  have p1: "parses (readSection (Some MAX_HEADER_BYTES)) (lpBytes hb) hb"
    by (rule parses_readSection) (use e(3) l in simp_all)
  have p2: "parses (readSection None) (lpBytes tb) tb" by (rule parses_readSection) (use e(4) in simp_all)
  have p3: "parses (readBytesN 64) (validatorSignature b) (validatorSignature b)"
    unfolding readBytesN_def by (rule parses_readBytes) (use e(5) in simp)
  have s1: "readSection (Some MAX_HEADER_BYTES) (newReader bytes) =
      Inr (hb, (newReader bytes)\<lparr>r_position := length (lpBytes hb)\<rparr>)"
    using parsesD [OF p1 at(1)] by (simp add: newReader_def)
  have "readOrderingBlockSections bytes = Inr (header b, tb, validatorSignature b)"
    using s1 parsesD [OF p2 at(2)] parsesD [OF p3 at(3)] dh e(6)
    by (simp add: readOrderingBlockSections_def r_isExhausted_def newReader_def)
  then show ?thesis
    using dt by (simp add: decodeOrderingBlock_def decodeUtxoTxTree_def)
qed

text \<open>C35: One encoding per block.  Bytes that decode to an ordering block are the bytes
  the encoder writes for it: a header or tree frame with a padded length prefix, a
  header with trailing bytes or bytes after the signature are refused.  And a block
  the encoder accepts decodes back to itself.
\<close>
theorem block_bytes_canonical:
  "(decodeOrderingBlock bytes = Inr b \<longrightarrow> encodeOrderingBlock b = Inr bytes) \<and>
   (header_dom (header b) \<and> tree_dom (ob_utxoTxTree b) \<and> encodeOrderingBlock b = Inr bytes \<longrightarrow>
      decodeOrderingBlock bytes = Inr b)"
proof (intro conjI impI)
  assume "decodeOrderingBlock bytes = Inr b"
  then obtain hdr tb sig t where d: "readOrderingBlockSections bytes = Inr (hdr, tb, sig)"
      "decodeUtxoTxTree tb = Inr t" "b = \<lparr>header = hdr, ob_utxoTxTree = t, validatorSignature = sig\<rparr>"
    by (auto simp: decodeOrderingBlock_def bind_iff)
  from sections_canonical [OF d(1)] obtain hb where h: "decodeStruct HEADER hb = Inr hdr"
    "bytes = lpBytes hb @ lpBytes tb @ sig" "length sig = 64"
    "int (length hb) \<le> MAX_SAFE_INTEGER" "int (length tb) \<le> MAX_SAFE_INTEGER" .
  show "encodeOrderingBlock b = Inr bytes"
    unfolding encode_block_eq
    using decodeStruct_canonical [OF h(1)] decodeStruct_canonical [OF d(2) [unfolded decodeUtxoTxTree_def]] h d(3)
    by auto
qed (use block_decode_encode in blast)

section \<open>One transaction of an encoded tree\<close>

text \<open>The position of the first match, counted from \<open>i\<close>.\<close>
fun firstAt :: "'a \<Rightarrow> nat \<Rightarrow> 'a list \<Rightarrow> nat option" where
  "firstAt w i [] = None"
| "firstAt w i (x # xs) = (if x = w then Some i else firstAt w (i + 1) xs)"

lemma firstAt_None: "firstAt w i xs = None \<longleftrightarrow> w \<notin> set xs"
  by (induction w i xs rule: firstAt.induct) auto

lemma firstAt_Some:
  "firstAt w i xs = Some k \<Longrightarrow> length ys = length xs \<Longrightarrow>
     i \<le> k \<and> k < i + length xs \<and> map_of (zip xs ys) w = Some (ys ! (k - i))"
proof (induction w i xs arbitrary: ys rule: firstAt.induct)
  case (2 w i x xs)
  then obtain y zs where ys: "ys = y # zs" "length zs = length xs" by (cases ys) auto
  show ?case
  proof (cases "x = w")
    case True
    then show ?thesis using 2 ys by auto
  next
    case False
    then have "firstAt w (i + 1) xs = Some k" using 2 by simp
    from "2.IH" [OF False this ys(2)] show ?thesis
      using False ys by (simp add: nth_Cons split: nat.splits) (metis Suc_diff_Suc diff_Suc_Suc less_eq_Suc_le old.nat.inject)
  qed
qed simp

lemma parses_walkIds:
  assumes "\<forall>x\<in>set idb. length x = 32"
  shows "parses (walkIds (length idb) i wanted found) (concat idb)
    (case found of Some k \<Rightarrow> Some k | None \<Rightarrow> firstAt wanted i idb)"
  using assms
proof (induction idb arbitrary: i found)
  case Nil
  then show ?case by (auto simp: parses_def split: option.splits)
next
  case (Cons x xs)
  have w: "walkIds (Suc n) i wanted found = rbind (readBytes 32) (\<lambda>idView.
     walkIds n (i + 1) wanted (if found = None \<and> equalBytes idView wanted then Some i else found))" for n
    by (rule ext) (simp add: rbind_def)
  have p: "parses (readBytes 32) x x" using Cons.prems by (intro parses_readBytes) simp
  have "parses (walkIds (Suc (length xs)) i wanted found) (x @ concat xs)
     (case (if found = None \<and> equalBytes x wanted then Some i else found) of Some k \<Rightarrow> Some k
      | None \<Rightarrow> firstAt wanted (i + 1) xs)"
    unfolding w by (rule parses_rbind [OF p], rule Cons.IH) (use Cons.prems in simp)
  then show ?case by (cases found) (auto simp del: walkIds.simps)
qed

lemma parses_skipLp:
  assumes "\<forall>x\<in>set xs. int (length x) \<le> MAX_SAFE_INTEGER"
  shows "parses (skipLp (length xs)) (concat (map lpBytes xs)) ()"
  using assms
proof (induction xs)
  case Nil
  then show ?case by (simp add: parses_def)
next
  case (Cons x xs)
  have s: "skipLp (Suc n) = rbind readVlqU (\<lambda>len. rbind (readBytes len) (\<lambda>_. skipLp n))" for n
    by (rule ext) (simp add: rbind_def)
  have "parses (skipLp (Suc (length xs))) (vlq (int (length x)) @ x @ concat (map lpBytes xs)) ()"
    unfolding s
    by (rule parses_rbind, rule parses_readVlqU, simp, use Cons.prems in simp,
        rule parses_rbind, rule parses_readBytes [OF refl], rule Cons.IH, use Cons.prems in simp)
  then show ?case by (simp add: lpBytes_def [of x] del: skipLp.simps)
qed

lemma isHex64_bytes: "isHex64 i \<Longrightarrow> \<exists>raw. hexToBytes i = Inr raw \<and> i = bytesToHex raw \<and> length raw = 32"
proof -
  assume "isHex64 i"
  then obtain raw where "hexToBytesExact i 32 = Some raw" by (auto simp: isHex64_def)
  then have "length raw = 32" "i = bytesToHex raw" by (simp_all add: hexToBytesExact_iff)
  moreover from this have "hexToBytesExact i (length i div 2) = Some raw"
    by (simp add: hexToBytesExact_iff bytesToHex_length)
  ultimately show ?thesis by (auto simp: hexToBytes_def)
qed

lemma map_of_zip_hex: "map_of (zip (map bytesToHex xs) ys) (bytesToHex w) = map_of (zip xs ys) w"
  by (induction xs arbitrary: ys) (auto split: list.splits simp: zip_Cons1)

text \<open>The lookup agrees with the tree.  On the bytes of a tree, \<open>utxoTxBytesIn\<close> returns
  the bytes the tree pairs with the id, those of the first occurrence if an id is
  repeated, and nothing if the id is absent; it never fails on a well-formed tree.
\<close>
theorem utxoTxBytesIn_lookup:
  assumes "encodeUtxoTxTree t = Inr bs" "tree_dom t" "isHex64 i"
  shows "utxoTxBytesIn bs i = Inr (map_of (zip (utxoTxIds t) (utxoTxs t)) i)"
proof -
  have w: "writeTree t = Inr bs" using assms(1) by (simp add: encodeUtxoTxTree_def encodeStruct_def UTXO_TX_TREE_def)
  from writeTree_eq [OF w] obtain idb where d: "utxoTxIds t = map bytesToHex idb" "\<forall>x\<in>set idb. length x = 32"
    "bs = vlq (int (length idb)) @ concat idb @ vlq (int (length (utxoTxs t))) @ concat (map lpBytes (utxoTxs t))"
    "int (length idb) \<le> MAX_SAFE_INTEGER" "int (length (utxoTxs t)) \<le> MAX_SAFE_INTEGER"
    "\<forall>x\<in>set (utxoTxs t). int (length x) \<le> MAX_SAFE_INTEGER" .
  have len: "length idb = length (utxoTxs t)" "int (length idb) \<le> MAX_ARRAY_LENGTH"
    using assms(2) d(1) by (simp_all add: tree_dom_def)
  obtain raw where raw: "hexToBytes i = Inr raw" "i = bytesToHex raw"
    using assms(3) isHex64_bytes by blast
  let ?n = "length idb" and ?txs = "utxoTxs t"
  define r where "r p = (newReader bs)\<lparr>r_position := p\<rparr>" for p
  define p1 where "p1 = length (vlq (int ?n))"
  define p2 where "p2 = p1 + length (concat idb)"
  have at: "at (newReader bs) (vlq (int ?n))" "at (r p1) (concat idb)" "at (r p2) (vlq (int ?n))"
      "at (r (p2 + p1)) (concat (map lpBytes ?txs))"
    using at_newReader [of bs "[]"] d(3) len
    by (simp_all add: at_append newReader_def r_def p1_def p2_def add_ac)
  have v: "parses readVlqU (vlq (int ?n)) (int ?n)" using d(4) by (intro parses_readVlqU) simp_all
  have v1: "readVlqU (newReader bs) = Inr (int ?n, r p1)"
    using parsesD [OF v at(1)] by (simp add: newReader_def r_def p1_def)
  have k: "walkIds ?n 0 raw None (r p1) = Inr (firstAt raw 0 idb, r p2)"
    using parsesD [OF parses_walkIds [OF d(2)] at(2), of 0 raw None] by (simp add: r_def p2_def)
  have v2: "readVlqU (r p2) = Inr (int ?n, r (p2 + p1))"
    using parsesD [OF v at(3)] by (simp add: r_def p1_def)
  have m: "map_of (zip (utxoTxIds t) ?txs) i = map_of (zip idb ?txs) raw"
    by (simp add: d(1) raw(2) map_of_zip_hex)
  show ?thesis
  proof (cases "firstAt raw 0 idb")
    case None
    then have n0: "map_of (zip idb ?txs) raw = None"
      by (auto simp: firstAt_None map_of_eq_None_iff dest: set_zip_leftD)
    then show ?thesis using None assms(3) raw(1) v1 k len by (simp add: utxoTxBytesIn_def m n0)
  next
    case (Some j)
    from firstAt_Some [OF Some len(1) [symmetric]] have j: "j < ?n" "map_of (zip idb ?txs) raw = Some (?txs ! j)" by simp_all
    have split: "?txs = take j ?txs @ ?txs ! j # drop (Suc j) ?txs" using j len by (simp add: id_take_nth_drop)
    have "at (r (p2 + p1)) (concat (map lpBytes (take j ?txs)) @ lpBytes (?txs ! j) @ concat (map lpBytes (drop (Suc j) ?txs)))"
      using at(4) by (subst (asm) split) simp
    then have a3: "at (r (p2 + p1)) (concat (map lpBytes (take j ?txs)))"
      and a4: "at (r (p2 + p1 + length (concat (map lpBytes (take j ?txs))))) (lpBytes (?txs ! j))"
      by (simp_all add: at_append r_def)
    have s: "parses (skipLp (length (take j ?txs))) (concat (map lpBytes (take j ?txs))) ()"
      by (rule parses_skipLp) (use d(6) in \<open>auto dest: in_set_takeD\<close>)
    have sk: "skipLp j (r (p2 + p1)) = Inr ((), r (p2 + p1 + length (concat (map lpBytes (take j ?txs)))))"
      using parsesD [OF s a3] j len by (simp add: r_def min_def)
    have "int (length (?txs ! j)) \<le> MAX_SAFE_INTEGER" using d(6) j len by simp
    then have "parses readLp (lpBytes (?txs ! j)) (?txs ! j)"
      by (intro parses_writeLp) (simp add: lpBytes_def writeLp_eq)
    from parsesD [OF this a4] obtain r' where "readLp (r (p2 + p1 + length (concat (map lpBytes (take j ?txs))))) = Inr (?txs ! j, r')"
      by blast
    then show ?thesis using Some assms(3) raw(1) v1 k v2 sk len j by (simp add: utxoTxBytesIn_def m)
  qed
qed

section \<open>The Merkle root as a commitment\<close>

text \<open>The tree the levels build, with the preimages that are hashed.\<close>
datatype mterm = MLeaf "byte list" | MNode mterm mterm

fun m_value :: "hash \<Rightarrow> mterm \<Rightarrow> byte list" where
  "m_value H (MLeaf p) = hash32 H [p]"
| "m_value H (MNode l r) = hash32 H [0 # m_value H l @ m_value H r]"

fun m_frontier :: "mterm \<Rightarrow> byte list list" where
  "m_frontier (MLeaf p) = [p]"
| "m_frontier (MNode l r) = m_frontier l @ m_frontier r"

fun m_hashed :: "hash \<Rightarrow> mterm \<Rightarrow> byte list set" where
  "m_hashed H (MLeaf p) = {p}"
| "m_hashed H (MNode l r) = insert (0 # m_value H l @ m_value H r) (m_hashed H l \<union> m_hashed H r)"

fun m_next :: "mterm list \<Rightarrow> mterm list" where
  "m_next (a # b # rest) = MNode a b # m_next rest"
| "m_next [a] = [a]"
| "m_next [] = []"

lemma m_next_length: "length (m_next xs) = (length xs + 1) div 2"
  by (induction xs rule: m_next.induct) auto

function m_root :: "mterm list \<Rightarrow> mterm" where
  "m_root xs = (if length xs > 1 then m_root (m_next xs) else hd xs)"
  by pat_completeness auto
termination by (relation "measure length") (auto simp: m_next_length)

declare m_root.simps [simp del]

lemma m_next_value: "map (m_value H) (m_next xs) = nextLevel H (map (m_value H) xs)"
  by (induction xs rule: m_next.induct) (simp_all add: nodeHash_def hash32_def)

lemma m_next_frontier: "concat (map m_frontier (m_next xs)) = concat (map m_frontier xs)"
  by (induction xs rule: m_next.induct) simp_all

lemma m_root_value: "xs \<noteq> [] \<Longrightarrow> m_value H (m_root xs) = merkleLevels H (map (m_value H) xs)"
proof (induction xs rule: m_root.induct)
  case (1 xs)
  show ?case
  proof (cases "length xs > 1")
    case True
    then have "m_next xs \<noteq> []" by (cases xs rule: m_next.cases) auto
    then show ?thesis using True "1.IH" [OF True]
      by (simp add: m_root.simps [of xs] merkleLevels.simps [of H "map (m_value H) xs"] m_next_value)
  next
    case False
    then show ?thesis using "1.prems"
      by (simp add: m_root.simps [of xs] merkleLevels.simps [of H "map (m_value H) xs"] hd_map)
  qed
qed

lemma m_root_frontier: "xs \<noteq> [] \<Longrightarrow> m_frontier (m_root xs) = concat (map m_frontier xs)"
proof (induction xs rule: m_root.induct)
  case (1 xs)
  show ?case
  proof (cases "length xs > 1")
    case True
    then have "m_next xs \<noteq> []" by (cases xs rule: m_next.cases) auto
    then show ?thesis using True "1.IH" [OF True] by (simp add: m_root.simps [of xs] m_next_frontier)
  next
    case False
    then obtain x where "xs = [x]" using "1.prems" by (cases xs) auto
    then show ?thesis by (simp add: m_root.simps)
  qed
qed

text \<open>The leaf preimages of a body, its tree and everything hashed on the way to its root.\<close>
definition leafPreimages :: "utxoTxTree \<Rightarrow> byte list list" where
  "leafPreimages t = map (\<lambda>i. ascii ''utxotx'' @ [0] @ the (hexToBytesExact i (length i div 2))) (utxoTxIds t)
     @ map (\<lambda>x. ascii ''utxotx-bytes'' @ [0] @ x) (utxoTxs t)"

definition bodyTerm :: "utxoTxTree \<Rightarrow> mterm" where
  "bodyTerm t = m_root (map MLeaf (leafPreimages t))"

definition hashedFor :: "hash \<Rightarrow> utxoTxTree \<Rightarrow> byte list set" where
  "hashedFor H t = m_hashed H (bodyTerm t)"

lemma emap_map: "emap f xs = Inr ys \<Longrightarrow> (\<And>x y. x \<in> set xs \<Longrightarrow> f x = Inr y \<Longrightarrow> y = g x) \<Longrightarrow> ys = map g xs"
  by (induction xs arbitrary: ys) (auto simp: bind_iff)

lemma emap_all: "emap f xs = Inr ys \<Longrightarrow> x \<in> set xs \<Longrightarrow> \<exists>y. f x = Inr y"
  by (induction xs arbitrary: ys) (auto simp: bind_iff)

lemma buildMerkleRoot_levels: "xs \<noteq> [] \<Longrightarrow> buildMerkleRoot H xs = merkleLevels H xs"
  by (simp add: buildMerkleRoot_def) (subst merkleLevels.simps, simp)

lemma computeUtxoTxRoot_term:
  assumes "computeUtxoTxRoot H t = Inr root" "leafPreimages t \<noteq> []"
  shows "root = bytesToHex (m_value H (bodyTerm t)) \<and>
     (\<forall>i\<in>set (utxoTxIds t). \<exists>raw. hexToBytesExact i (length i div 2) = Some raw)"
proof -
  obtain ids where e: "emap (\<lambda>i. ebind (hexToBytes i) (\<lambda>bs. Inr (leafHash H ''utxotx'' bs))) (utxoTxIds t) = Inr ids"
      "root = bytesToHex (buildMerkleRoot H (ids @ map (leafHash H ''utxotx-bytes'') (utxoTxs t)))"
    using assms(1) by (auto simp: computeUtxoTxRoot_def bind_iff)
  have ids: "ids = map (\<lambda>i. hash32 H [ascii ''utxotx'' @ [0] @ the (hexToBytesExact i (length i div 2))]) (utxoTxIds t)"
    by (rule emap_map [OF e(1)]) (auto simp: hexToBytes_def bind_iff leafHash_def hash32_def split: option.splits)
  have ok: "\<exists>raw. hexToBytesExact i (length i div 2) = Some raw" if "i \<in> set (utxoTxIds t)" for i
    using emap_all [OF e(1) that] by (auto simp: hexToBytes_def bind_iff split: option.splits)
  have lv: "ids @ map (leafHash H ''utxotx-bytes'') (utxoTxs t) = map (m_value H) (map MLeaf (leafPreimages t))"
    by (simp add: ids leafPreimages_def leafHash_def hash32_def)
  have "buildMerkleRoot H (map (m_value H) (map MLeaf (leafPreimages t))) = m_value H (bodyTerm t)"
    using assms(2) buildMerkleRoot_levels [of "map (m_value H) (map MLeaf (leafPreimages t))" H]
      m_root_value [of "map MLeaf (leafPreimages t)" H] by (simp only: bodyTerm_def map_is_Nil_conv simp_thms)
  then have "root = bytesToHex (m_value H (bodyTerm t))" using e(2) unfolding lv by (simp only:)
  then show ?thesis using ok by blast
qed

lemma ascii_tags: "ascii ''utxotx'' = [117, 116, 120, 111, 116, 120]"
    "ascii ''utxotx-bytes'' = [117, 116, 120, 111, 116, 120, 45, 98, 121, 116, 101, 115]"
  by (simp_all add: ascii_def)

lemma leaf_first: "p \<in> set (leafPreimages t) \<Longrightarrow> \<exists>q. p = 117 # q"
  by (auto simp: leafPreimages_def ascii_tags)

lemma m_hashed_frontier: "set (m_frontier T) \<subseteq> m_hashed H T"
  by (induction T) auto

text \<open>Equal values and no collision: the terms are equal.\<close>
lemma m_value_inject:
  assumes "m_value H T = m_value H T'" "\<And>x. 32 \<le> length (H x)"
    "\<And>p q. p \<in> m_hashed H T \<Longrightarrow> q \<in> m_hashed H T' \<Longrightarrow> hash32 H [p] = hash32 H [q] \<Longrightarrow> p = q"
    "\<And>p. p \<in> set (m_frontier T) \<Longrightarrow> \<exists>q. p = 117 # q" "\<And>p. p \<in> set (m_frontier T') \<Longrightarrow> \<exists>q. p = 117 # q"
  shows "T = T'"
  using assms(1,3-5)
proof (induction T arbitrary: T')
  case (MLeaf p)
  show ?case
  proof (cases T')
    case (MLeaf q)
    then show ?thesis using MLeaf.prems by auto
  next
    case (MNode l r)
    have "p = 0 # m_value H l @ m_value H r"
      by (rule MLeaf.prems(2)) (use MLeaf.prems(1) MNode in simp_all)
    then show ?thesis using MLeaf.prems(3) [of p] by auto
  qed
next
  case (MNode l r)
  show ?case
  proof (cases T')
    case (MLeaf q)
    have "0 # m_value H l @ m_value H r = q"
      by (rule MNode.prems(2)) (use MNode.prems(1) MLeaf in simp_all)
    then show ?thesis using MNode.prems(4) [of q] MLeaf by auto
  next
    case (MNode l' r')
    have e: "0 # m_value H l @ m_value H r = 0 # m_value H l' @ m_value H r'"
      by (rule MNode.prems(2)) (use MNode.prems(1) MNode in simp_all)
    have len: "length (m_value H x) = 32" for x
      using assms(2) by (cases x) (auto simp: hash32_def min_absorb2)
    have "m_value H l = m_value H l'" "m_value H r = m_value H r'" using e len by simp_all
    moreover have "l = l'" by (rule MNode.IH(1)) (use calculation MNode.prems MNode in auto)
    moreover have "r = r'" by (rule MNode.IH(2)) (use calculation MNode.prems MNode in auto)
    ultimately show ?thesis using MNode by simp
  qed
qed

lemma tagged_inject:
  assumes "map (\<lambda>x. 0 # f x) xs @ map (\<lambda>x. (c :: byte) # g x) ys = map (\<lambda>x. 0 # f x) xs' @ map (\<lambda>x. c # g x) ys'"
    "c \<noteq> 0"
  shows "map f xs = map f xs' \<and> map g ys = map g ys'"
  using assms(1)
proof (induction xs arbitrary: xs')
  case Nil
  then have "xs' = []" using assms(2) by (cases xs'; cases ys) auto
  then show ?case using arg_cong [OF Nil, of "map tl"] by (simp add: comp_def)
next
  case (Cons x xs)
  then obtain x' zs where "xs' = x' # zs" using assms(2) by (cases xs'; cases ys') auto
  then show ?case using Cons by auto
qed

lemma leafPreimages_inject:
  assumes "leafPreimages t = leafPreimages t'"
    "\<forall>i\<in>set (utxoTxIds t). \<exists>raw. hexToBytesExact i (length i div 2) = Some raw"
    "\<forall>i\<in>set (utxoTxIds t'). \<exists>raw. hexToBytesExact i (length i div 2) = Some raw"
  shows "utxoTxIds t = utxoTxIds t' \<and> utxoTxs t = utxoTxs t'"
proof -
  let ?raw = "\<lambda>i. the (hexToBytesExact i (length i div 2))"
  have "map (\<lambda>i. 0 # ?raw i) (utxoTxIds t) @ map (\<lambda>x. 45 # ([98, 121, 116, 101, 115, 0] @ x)) (utxoTxs t) =
        map (\<lambda>i. 0 # ?raw i) (utxoTxIds t') @ map (\<lambda>x. 45 # ([98, 121, 116, 101, 115, 0] @ x)) (utxoTxs t')"
    using arg_cong [OF assms(1), of "map (drop 6)"] by (simp add: leafPreimages_def ascii_tags comp_def)
  from tagged_inject [OF this] have m: "map ?raw (utxoTxIds t) = map ?raw (utxoTxIds t')"
     "map (\<lambda>x. [98, 121, 116, 101, 115, 0] @ x) (utxoTxs t) = map (\<lambda>x. [98, 121, 116, 101, 115, 0 :: byte] @ x) (utxoTxs t')"
    by simp_all
  have id: "map bytesToHex (map ?raw xs) = xs"
    if "\<forall>i\<in>set xs. \<exists>raw. hexToBytesExact i (length i div 2) = Some raw" for xs
    using that by (induction xs) (auto simp: hexToBytesExact_iff [symmetric] dest: hexToBytesExact_iff [THEN iffD1])
  have "utxoTxIds t = utxoTxIds t'" using id [OF assms(2)] id [OF assms(3)] m(1) by metis
  moreover have "utxoTxs t = utxoTxs t'" using m(2) by (simp add: inj_map_eq_map inj_on_def)
  ultimately show ?thesis by simp
qed

text \<open>C36: The root commits to the body.  Two different non-empty bodies with the same
  transaction root exhibit two different byte strings, each hashed on the way to
  one of the roots, with the same 32-byte hash; neither the number of leaves, nor
  an id passed off as transaction bytes, nor a leaf passed off as an inner node
  gives one for free.
\<close>
theorem utxo_root_binds:
  assumes "computeUtxoTxRoot H t = Inr root" "computeUtxoTxRoot H t' = Inr root" "t \<noteq> t'"
    "utxoTxs t \<noteq> []" "utxoTxs t' \<noteq> []" "\<And>x. length (H x) = 64"
  shows "\<exists>p q. p \<in> hashedFor H t \<and> q \<in> hashedFor H t' \<and> p \<noteq> q \<and> hash32 H [p] = hash32 H [q]"
proof (rule ccontr)
  assume no: "\<not> ?thesis"
  have ne: "leafPreimages t \<noteq> []" "leafPreimages t' \<noteq> []" using assms(4,5) by (simp_all add: leafPreimages_def)
  note c = computeUtxoTxRoot_term [OF assms(1) ne(1)] and c' = computeUtxoTxRoot_term [OF assms(2) ne(2)]
  have f: "m_frontier (bodyTerm s) = leafPreimages s" if "leafPreimages s \<noteq> []" for s
    using that by (simp add: bodyTerm_def m_root_frontier comp_def)
  have "bodyTerm t = bodyTerm t'"
    by (rule m_value_inject [of H])
       (use c c' no assms(6) f [OF ne(1)] f [OF ne(2)] leaf_first in \<open>auto simp: hashedFor_def\<close>)
  then have "leafPreimages t = leafPreimages t'" using f ne by metis
  from leafPreimages_inject [OF this] c c' have "t = t'" by (cases t; cases t') auto
  then show False using assms(3) by simp
qed

section \<open>Bounds and witnesses\<close>

text \<open>The wire bounds of a block.  An encoded header is never longer than
  \<open>MAX_HEADER_BYTES\<close>, so the limit the section reader applies never refuses a
  header the encoder wrote, and \<open>utxoTxTreeByteLength\<close> is the exact length of the
  encoded tree.
\<close>
lemma block_sizes:
  "(header_dom h \<and> encodeHeader h = Inr hb \<longrightarrow> int (length hb) \<le> MAX_HEADER_BYTES) \<and>
   (encodeUtxoTxTree t = Inr tb \<longrightarrow> utxoTxTreeByteLength t = int (length tb))"
  using header_length tree_length by blast

definition sampleHeader :: blockHeader where
  "sampleHeader = \<lparr>h_protocolVersion = 2, h_height = 4711, prevBlockHash = bytesToHex (replicate 32 3),
     utxoTxRoot = bytesToHex (replicate 32 4), stateRoot = bytesToHex (replicate 33 5),
     validatorId = replicate 32 6, powNonce = MAX_SAFE_INTEGER, powTargetBits = 503382015, createdAt = 1700000000000,
     h_interlinkRoot = bytesToHex (replicate 32 7), adProofsRoot = bytesToHex (replicate 32 8)\<rparr>"

definition sampleTree :: "byte \<Rightarrow> utxoTxTree" where
  "sampleTree b = \<lparr>utxoTxIds = [bytesToHex (replicate 32 1), bytesToHex (replicate 32 2), bytesToHex (replicate 32 1)],
     utxoTxs = [[9, 9], [b], []]\<rparr>"

definition sampleBlock :: orderingBlock where
  "sampleBlock = \<lparr>header = sampleHeader, ob_utxoTxTree = sampleTree 7, validatorSignature = replicate 64 11\<rparr>"

lemma sample_encodes:
  "header_dom sampleHeader" "tree_dom (sampleTree 7)" "is_ok (encodeHeader sampleHeader)"
  "is_ok (encodeUtxoTxTree (sampleTree 7))" "is_ok (encodeOrderingBlock sampleBlock)"
  by code_simp+

lemma ok_right: "is_ok r \<Longrightarrow> r = Inr (projr r)"
  by (cases r) simp_all

lemma block_bytes_canonical_witness:
  "decodeOrderingBlock (projr (encodeOrderingBlock sampleBlock)) = Inr sampleBlock"
  using block_bytes_canonical [of "projr (encodeOrderingBlock sampleBlock)" sampleBlock]
    ok_right [OF sample_encodes(5)] sample_encodes(1,2)
  by (simp add: sampleBlock_def)

lemma utxoTxBytesIn_lookup_witness:
  "utxoTxBytesIn (projr (encodeUtxoTxTree (sampleTree 7))) (bytesToHex (replicate 32 1)) = Inr (Some [9, 9])"
proof -
  have h: "isHex64 (bytesToHex (replicate 32 1))" by code_simp
  show ?thesis
    using utxoTxBytesIn_lookup [OF ok_right [OF sample_encodes(4)] sample_encodes(2) h] by (simp add: sampleTree_def)
qed

lemma block_sizes_witness:
  "int (length (projr (encodeHeader sampleHeader))) \<le> MAX_HEADER_BYTES \<and>
   utxoTxTreeByteLength (sampleTree 7) = int (length (projr (encodeUtxoTxTree (sampleTree 7))))"
  using block_sizes [of sampleHeader "projr (encodeHeader sampleHeader)" "sampleTree 7"
      "projr (encodeUtxoTxTree (sampleTree 7))"] ok_right [OF sample_encodes(3)] ok_right [OF sample_encodes(4)] sample_encodes(1)
  by simp

lemma utxo_root_binds_witness:
  "\<exists>p q. p \<in> hashedFor (\<lambda>_. replicate 64 0) (sampleTree 7) \<and> q \<in> hashedFor (\<lambda>_. replicate 64 0) (sampleTree 8) \<and>
     p \<noteq> q \<and> hash32 (\<lambda>_. replicate 64 0) [p] = hash32 (\<lambda>_. replicate 64 0) [q]"
proof -
  let ?H = "\<lambda>_ :: byte list. replicate 64 (0 :: byte)"
  have ok: "is_ok (computeUtxoTxRoot ?H (sampleTree 7))" by code_simp
  have same: "computeUtxoTxRoot ?H (sampleTree 8) = computeUtxoTxRoot ?H (sampleTree 7)" by code_simp
  show ?thesis
    by (rule utxo_root_binds [OF ok_right [OF ok]]) (simp_all add: same ok_right [OF ok, symmetric], simp_all add: sampleTree_def)
qed

end
