(* ===== verification/InterlinkLaws.thy ===== *)
theory InterlinkLaws
  imports BlockLaws
begin

text \<open>
  The interlink vector over a chain (\<open>packages/types/src/interlinks.ts\<close>): folding
  \<open>updateInterlinks\<close> over the blocks from the genesis gives, at every index, the last
  block of at least that level, and never outgrows its codec.
\<close>

section \<open>Levels along a chain\<close>

fun reaches :: "nat \<Rightarrow> blockLevel \<Rightarrow> bool" where
  "reaches i Infinite = True"
| "reaches i NoLevel = False"
| "reaches i (Level L) = (int i \<le> L)"

definition level_ok :: "blockLevel \<Rightarrow> bool" where
  "level_ok l \<longleftrightarrow> (case l of Infinite \<Rightarrow> False | NoLevel \<Rightarrow> True | Level L \<Rightarrow> 0 \<le> L \<and> L \<le> LEVEL_CAP)"

fun lastReaching :: "nat \<Rightarrow> string \<Rightarrow> (string \<times> blockLevel) list \<Rightarrow> string" where
  "lastReaching i h [] = h"
| "lastReaching i h (b # bs) = lastReaching i (if reaches i (snd b) then fst b else h) bs"

lemma lastReaching_append:
  "lastReaching i h (bs @ [b]) = (if reaches i (snd b) then fst b else lastReaching i h bs)"
  by (induction bs arbitrary: h) simp_all

definition interlinksAlong :: "string list \<Rightarrow> (string \<times> blockLevel) list \<Rightarrow> string list res" where
  "interlinksAlong v bs = efold (\<lambda>b v. updateInterlinks v (fst b) (snd b)) bs v"

text \<open>What the vector after a chain holds: index 0 the genesis, index \<open>i\<close> the last block of level \<open>i\<close>.\<close>
definition indexes :: "string \<Rightarrow> (string \<times> blockLevel) list \<Rightarrow> string list \<Rightarrow> bool" where
  "indexes g bs v \<longleftrightarrow> v \<noteq> [] \<and> v ! 0 = g \<and> int (length v) \<le> MAX_INTERLINKS \<and>
     (\<forall>i. 1 \<le> i \<longrightarrow> lastReaching i g bs = (if i < length v then v ! i else g))"

lemma indexes_step:
  assumes "indexes g bs v" "level_ok l"
  shows "\<exists>v'. updateInterlinks v h l = Inr v' \<and> indexes g (bs @ [(h, l)]) v'"
proof (cases l)
  case Infinite
  then show ?thesis using assms(2) by (simp add: level_ok_def)
next
  case NoLevel
  then show ?thesis using assms(1) by (simp add: updateInterlinks_def indexes_def lastReaching_append)
next
  case (Level L)
  have L: "0 \<le> L" "L \<le> LEVEL_CAP" using assms(2) Level by (simp_all add: level_ok_def)
  define v' where "v' = map (\<lambda>i. if 1 \<le> i \<and> i \<le> nat L then h else v ! i) [0..<length v] @ replicate (nat L + 1 - length v) h"
  have v: "v \<noteq> []" "v ! 0 = g" "int (length v) \<le> MAX_INTERLINKS"
    and ix: "\<And>i. 1 \<le> i \<Longrightarrow> lastReaching i g bs = (if i < length v then v ! i else g)"
    using assms(1) by (simp_all add: indexes_def)
  have u: "updateInterlinks v h l = Inr v'"
    using L v(1) Level by (simp add: updateInterlinks_def v'_def Let_def)
  have len: "length v' = max (length v) (nat L + 1)" by (simp add: v'_def)
  have z: "v' ! 0 = g" using v by (simp add: v'_def nth_append)
  have at: "v' ! i = (if i \<le> nat L then h else v ! i)" if "1 \<le> i" "i < length v'" for i
    using that by (auto simp: v'_def nth_append)
  have "indexes g (bs @ [(h, l)]) v'"
    unfolding indexes_def
  proof (intro conjI allI impI)
    show "v' \<noteq> []" using len v(1) by auto
    show "v' ! 0 = g" by (rule z)
    show "int (length v') \<le> MAX_INTERLINKS"
      using v(3) L by (simp add: len MAX_INTERLINKS_def LEVEL_CAP_def)
    fix i :: nat assume i: "1 \<le> i"
    have r: "reaches i l \<longleftrightarrow> i \<le> nat L" using Level L by auto
    show "lastReaching i g (bs @ [(h, l)]) = (if i < length v' then v' ! i else g)"
      using at [OF i] ix [OF i] r len by (auto simp: lastReaching_append)
  qed
  then show ?thesis using u by blast
qed

text \<open>C37: The interlink vector is the index of a chain by level.  From the genesis on, for
  blocks whose levels lie within \<open>LEVEL_CAP\<close> or below the anchor, the update never
  throws; the vector it gives keeps the genesis at 0, has at index \<open>i\<close> the last block
  of level at least \<open>i\<close>, none beyond the highest level seen, and stays within
  \<open>MAX_INTERLINKS\<close>, so it always encodes.
\<close>
theorem interlinks_index_chain:
  assumes "\<And>b. b \<in> set bs \<Longrightarrow> level_ok (snd b)"
  shows "\<exists>v. interlinksAlong prev ((g, Infinite) # bs) = Inr v \<and> indexes g bs v"
  using assms
proof (induction bs rule: rev_induct)
  case Nil
  then show ?case by (simp add: interlinksAlong_def updateInterlinks_def indexes_def MAX_INTERLINKS_def)
next
  case (snoc b bs)
  have "\<exists>v. interlinksAlong prev ((g, Infinite) # bs) = Inr v \<and> indexes g bs v"
    by (rule snoc.IH) (use snoc.prems in simp)
  then obtain v where v: "interlinksAlong prev ((g, Infinite) # bs) = Inr v" "indexes g bs v" by blast
  have ok: "level_ok (snd b)" using snoc.prems by simp
  from indexes_step [OF v(2) ok, of "fst b"] obtain v' where
    v': "updateInterlinks v (fst b) (snd b) = Inr v'" "indexes g (bs @ [b]) v'" by auto
  have "interlinksAlong prev (((g, Infinite) # bs) @ [b]) = Inr v'"
    using v(1) v'(1) unfolding interlinksAlong_def efold_append by simp
  then show ?case using v'(2) by auto
qed

lemma interlinks_index_chain_witness:
  "indexes ''g'' [(''a'', Level 2), (''b'', Level 0), (''c'', NoLevel), (''d'', Level 1)] [''g'', ''d'', ''a'']"
proof -
  let ?bs = "[(''a'', Level 2), (''b'', Level 0), (''c'', NoLevel), (''d'', Level 1)]"
  have "interlinksAlong [] ((''g'', Infinite) # ?bs) = Inr [''g'', ''d'', ''a'']" by code_simp
  moreover have "level_ok (snd b)" if "b \<in> set ?bs" for b using that by (auto simp: level_ok_def LEVEL_CAP_def)
  ultimately show ?thesis using interlinks_index_chain [of ?bs "[]" "''g''"] by auto
qed

end
