(* ===== verification/ApplyBlock.thy ===== *)
theory ApplyBlock
  imports Settlement Blocks
begin

text \<open>
  Applying a block (\<open>packages/consensus/src/apply-block.ts\<close>) over the overlay: the
  decoding of a body entry, the batch of the body's signatures, the pre-body
  captures, the loop over the user transactions, the withdrawals, the settlement and
  its application, the grants, the like counters, the membership pass and the decay
  clocks; with the posts and withdrawals of a block (\<open>block-posts.ts\<close>), its cost
  (\<open>block-cost.ts\<close>), and the wiring of the settlement's reads to a view and the
  producer's build (\<open>settlementDepsWith\<close>, \<open>buildBlockSettlement\<close> of
  \<open>settlement.ts\<close>).
\<close>

section \<open>The posts and withdrawals of a block, its cost\<close>

record blockPost =
  bp_postId :: string
  bp_txId :: string
  bp_post :: postCommit

definition bodyEntries :: "orderingBlock \<Rightarrow> (string \<times> byte list) list" where
  "bodyEntries b = zip (utxoTxIds (ob_utxoTxTree b)) (utxoTxs (ob_utxoTxTree b))"

definition postsOf :: "hash \<Rightarrow> orderingBlock \<Rightarrow> blockPost list" where
  "postsOf H b = List.map_filter (\<lambda>(i, raw). case decodeTx raw of
       Inl _ \<Rightarrow> None
     | Inr tx \<Rightarrow> map_option (\<lambda>p. \<lparr>bp_postId = computePostId H i 0, bp_txId = i, bp_post = p\<rparr>) (post tx))
     (bodyEntries b)"

record blockWithdrawal =
  bw_txId :: string
  bw_author :: "byte list"
  bw_postId :: string

definition withdrawalsOf :: "(string \<Rightarrow> byte list option) \<Rightarrow> orderingBlock \<Rightarrow> blockWithdrawal list" where
  "withdrawalsOf getAuthor b = List.map_filter (\<lambda>(i, raw). case decodeTx raw of
       Inl _ \<Rightarrow> None
     | Inr tx \<Rightarrow> (case postWithdraw tx of
         None \<Rightarrow> None
       | Some p \<Rightarrow> map_option (\<lambda>a. \<lparr>bw_txId = i, bw_author = a, bw_postId = p\<rparr>) (getAuthor p)))
     (bodyEntries b)"

definition W_SIG :: int where "W_SIG = 100"
definition W_OP :: int where "W_OP = 10"
definition MAX_BLOCK_COST :: int where "MAX_BLOCK_COST = 600000"

record blockCostCount =
  c_signatures :: int
  c_lookups :: int
  c_writes :: int

definition blockCost :: "blockCostCount \<Rightarrow> int" where
  "blockCost c = c_signatures c * W_SIG + (c_lookups c + c_writes c) * W_OP"

definition checkBlockCost :: "blockCostCount \<Rightarrow> verdict" where
  "checkBlockCost c = firstRefusal [(blockCost c > MAX_BLOCK_COST, ''cost over the budget'')]"

section \<open>The context\<close>

record applyContext =
  cx_protocolVersionSchedule :: "protocolEra list"
  cx_vouchCooldownBlocks :: int
  cx_inviteBondMin :: int
  cx_inviteBondMax :: int
  inviteProbationBlocks :: int
  cx_decayCfg :: decayCfg
  cx_storageRentPeriodBlocks :: int
  cx_membershipBarMultiplier :: int
  cx_backerSupply :: int
  cx_creditFixedRateBlocks :: int
  creditEpochBlocks :: int
  creditMinerRewardDelay :: int
  verifyBatch :: "(byte list \<times> byte list \<times> byte list) list \<Rightarrow> bool"

section \<open>The settlement's reads over a view\<close>

text \<open>The methods of \<open>StateView\<close> that \<open>settlementDepsWith\<close> closes over; the overlay and
  the plain view both answer them.\<close>
record settlementReads =
  r_getEmissionBox :: "anyBox option res"
  r_getTreasuryBox :: "anyBox option res"
  r_getKarmaPoolBox :: "anyBox option res"
  r_getBackerPoolBox :: "anyBox option res"
  r_getBox :: "string \<Rightarrow> anyBox option"
  r_getLikeAccrualBoxes :: "byte list \<Rightarrow> anyBox list"
  r_getBondsInvitedAt :: "int \<Rightarrow> nat \<Rightarrow> anyBox list res"
  r_getVouchEscrowsReleasableAt :: "int \<Rightarrow> nat \<Rightarrow> anyBox list res"
  r_getLapsedVouches :: "nat \<Rightarrow> anyBox list res"
  r_getIdentityRecord :: "byte list \<Rightarrow> identityRecord option"
  r_getKarmaBoxes :: "byte list \<Rightarrow> anyBox list"

definition viewReads :: "stateView \<Rightarrow> settlementReads" where
  "viewReads v = \<lparr>r_getEmissionBox = Inr (v_getEmissionBox v), r_getTreasuryBox = Inr (v_getTreasuryBox v),
     r_getKarmaPoolBox = Inr (v_getKarmaPoolBox v), r_getBackerPoolBox = Inr (v_getBackerPoolBox v),
     r_getBox = v_getBox v, r_getLikeAccrualBoxes = v_getLikeAccrualBoxes v,
     r_getBondsInvitedAt = (\<lambda>m n. Inr (v_getBondsInvitedAt v m n)),
     r_getVouchEscrowsReleasableAt = (\<lambda>h n. Inr (v_getVouchEscrowsReleasableAt v h n)),
     r_getLapsedVouches = (\<lambda>n. Inr (v_getLapsedVouches v n)),
     r_getIdentityRecord = v_getIdentityRecord v, r_getKarmaBoxes = v_getKarmaBoxes v\<rparr>"

definition overlayReads :: "overlay \<Rightarrow> settlementReads" where
  "overlayReads s = \<lparr>r_getEmissionBox = o_getEmissionBox s, r_getTreasuryBox = o_getTreasuryBox s,
     r_getKarmaPoolBox = o_getKarmaPoolBox s, r_getBackerPoolBox = o_getBackerPoolBox s,
     r_getBox = o_getBox s, r_getLikeAccrualBoxes = o_getLikeAccrualBoxes s,
     r_getBondsInvitedAt = o_getBondsInvitedAt s,
     r_getVouchEscrowsReleasableAt = o_getVouchEscrowsReleasableAt s,
     r_getLapsedVouches = o_getLapsedVouches s,
     r_getIdentityRecord = o_getIdentityRecord s, r_getKarmaBoxes = o_getKarmaBoxes s\<rparr>"

definition carryBoxIn :: "settlementReads \<Rightarrow> byte list \<Rightarrow> string list \<Rightarrow> anyBox option" where
  "carryBoxIn r k exclude = List.find (\<lambda>b. boxId b \<notin> set exclude) (r_getLikeAccrualBoxes r k)"

definition incomeBoxIn :: "settlementReads \<Rightarrow> string list \<Rightarrow> byte list \<Rightarrow> string list \<Rightarrow> anyBox option" where
  "incomeBoxIn r spentIds owner excludeIds = List.find (\<lambda>b. tail_income (boxTail b) \<and> boxId b \<noteq> [] \<and>
     boxId b \<notin> set spentIds \<and> boxId b \<notin> set excludeIds) (r_getKarmaBoxes r owner)"

definition bondsSettlingIn :: "settlementReads \<Rightarrow> applyContext \<Rightarrow> int \<Rightarrow> anyBox list res" where
  "bondsSettlingIn r ctx h =
     (let invitedAt = h - inviteProbationBlocks ctx in
      if invitedAt \<le> 0 then Inr [] else r_getBondsInvitedAt r invitedAt MAX_BOND_SETTLEMENTS_PER_BLOCK)"

definition settlementDepsWith ::
    "settlementReads \<Rightarrow> applyContext \<Rightarrow> decayPlan list \<Rightarrow> anyBox list \<Rightarrow> anyBox list \<Rightarrow> anyBox option \<Rightarrow>
     string list \<Rightarrow> settlementDeps" where
  "settlementDepsWith r ctx plans escrows lapsed backerPool spentIds =
     \<lparr>s_getEmissionBox = r_getEmissionBox r, s_getTreasuryBox = r_getTreasuryBox r,
      s_getKarmaPoolBox = r_getKarmaPoolBox r, s_getBox = r_getBox r,
      getLikeCarryBox = carryBoxIn r, getBondsSettlingAt = bondsSettlingIn r ctx,
      getEscrowsReleasableAt = (\<lambda>_. escrows), s_getLapsedVouches = lapsed,
      getLifetimeLikes = (\<lambda>k. case r_getIdentityRecord r k of None \<Rightarrow> 0 | Some rcd \<Rightarrow> lifetimeLikesReceived rcd),
      getIncomeBox = incomeBoxIn r spentIds, s_vouchCooldownBlocks = cx_vouchCooldownBlocks ctx,
      getDecayPlans = plans, s_getBackerPoolBox = backerPool, backerSupply = cx_backerSupply ctx,
      s_creditFixedRateBlocks = cx_creditFixedRateBlocks ctx\<rparr>"

section \<open>A body entry\<close>

record queuedTx =
  q_txId :: string
  q_tx :: utxoTransaction
  q_outputs :: "anyBox list"

definition bodyTxOf :: "queuedTx \<Rightarrow> bodyTx" where
  "bodyTxOf q = \<lparr>bt_txId = q_txId q, bt_inputs = inputs (q_tx q), bt_outputs = q_outputs q\<rparr>"

definition decodeBodyEntry ::
    "hash \<Rightarrow> applyContext \<Rightarrow> orderingBlock \<Rightarrow> nat \<Rightarrow> bool \<Rightarrow> int \<Rightarrow> refusal + queuedTx" where
  "decodeBodyEntry H ctx block index isSettlement height =
     (let txId = utxoTxIds (ob_utxoTxTree block) ! index; raws = utxoTxs (ob_utxoTxTree block) in
      if index \<ge> length raws then Inl (Refused ''embedded UTXO tx carries no body'')
      else case decodeTx (raws ! index) of
        Inl _ \<Rightarrow> Inl (Refused ''embedded UTXO tx did not decode'')
      | Inr tx \<Rightarrow>
          ebind (checkTxEnvelope tx height (cx_protocolVersionSchedule ctx)) (\<lambda>_.
          ebind (if isSettlement then checkSettlementOutputShape (outputs tx) else checkOutputShape (outputs tx)) (\<lambda>_.
          ebind (orThrow (computeTxId H tx)) (\<lambda>decodedTxId.
          if decodedTxId \<noteq> txId then Inl (Refused ''embedded UTXO tx declares an id its bytes do not produce'')
          else ebind (orThrow (materializeOutputs H (outputs tx) txId)) (\<lambda>outs.
            Inr \<lparr>q_txId = txId, q_tx = tx, q_outputs = outs\<rparr>)))))"

text \<open>The decode loop: the last entry is the settlement, the others are the queue.\<close>
definition decodeBody :: "hash \<Rightarrow> applyContext \<Rightarrow> orderingBlock \<Rightarrow> int \<Rightarrow> refusal + queuedTx list \<times> queuedTx" where
  "decodeBody H ctx block height =
     (let n = length (utxoTxIds (ob_utxoTxTree block)) in
      ebind (emap (\<lambda>i. decodeBodyEntry H ctx block i (i + 1 = n) height) [0..<n]) (\<lambda>items.
      if items = [] then Inl (Refused ''body carries no settlement transaction'')
      else Inr (butlast items, last items)))"

definition overSignedReason :: "utxoTransaction \<Rightarrow> verdict" where
  "overSignedReason tx =
     firstRefusal [(length (signatures tx) > length (inputs tx), ''embedded UTXO tx carries more signatures than inputs'')]"

definition signatureEntryKey :: "string \<Rightarrow> string \<Rightarrow> byte list \<Rightarrow> string" where
  "signatureEntryKey txIdHex keyHex sig = txIdHex @ '':'' @ keyHex @ '':'' @ bytesToHex sig"

text \<open>The batch's entries and the keys of the set it verifies, or \<open>None\<close> when it refuses.\<close>
definition signatureEntries :: "queuedTx list \<Rightarrow> (byte list \<times> byte list \<times> byte list) list res" where
  "signatureEntries queue = ebind (emap (\<lambda>q. ebind (hexToBytes (q_txId q)) (\<lambda>message.
       emap (\<lambda>(keyHex, sig). ebind (hexToBytes keyHex) (\<lambda>key. Inr (sig, message, key))) (signatures (q_tx q)))) queue)
     (\<lambda>ess. Inr (concat ess))"

definition verifiedKeys :: "queuedTx list \<Rightarrow> string list" where
  "verifiedKeys queue = concat (map (\<lambda>q. map (\<lambda>(keyHex, sig). signatureEntryKey (q_txId q) keyHex sig)
     (signatures (q_tx q))) queue)"

definition verifiedSignaturesOf ::
    "((byte list \<times> byte list \<times> byte list) list \<Rightarrow> bool) \<Rightarrow> queuedTx list \<Rightarrow> string list option res" where
  "verifiedSignaturesOf batch queue =
     ebind (signatureEntries queue) (\<lambda>entries. Inr (if batch entries then Some (verifiedKeys queue) else None))"

section \<open>The engine's reads over the overlay\<close>

definition capturePreBodyOwed ::
    "overlay \<Rightarrow> bodyTx list \<Rightarrow> int \<Rightarrow> decayCfg \<Rightarrow> owners \<Rightarrow>
     (string \<times> byte list \<times> anyBox list) list \<times> (string \<times> int) list" where
  "capturePreBodyOwed s txs height cfg payees =
     (let postBodyKarma = collectPostBodyKarma (o_getBox s) (o_getKarmaBoxes s) txs payees in
      (postBodyKarma, map (\<lambda>(_, owner, _). (bytesToHex owner,
         karmaOwed (sum_list (map boxValue (o_getKarmaBoxes s owner))) (o_getIdentityRecord s owner) height cfg))
         postBodyKarma))"

definition owedIn :: "(string \<times> int) list \<Rightarrow> int \<Rightarrow> byte list \<Rightarrow> int \<Rightarrow> int res" where
  "owedIn preBodyOwed blockHeight owner height =
     (if height \<noteq> blockHeight then Inl OtherErr
      else case map_of preBodyOwed (bytesToHex owner) of None \<Rightarrow> Inl OtherErr | Some owed \<Rightarrow> Inr owed)"

definition utxoDepsOver ::
    "overlay \<Rightarrow> applyContext \<Rightarrow> string list \<Rightarrow> (string \<times> int) list \<Rightarrow> int \<Rightarrow> utxoEngineDeps" where
  "utxoDepsOver s ctx verified preBodyOwed blockHeight =
     \<lparr>getBox = o_getBox s,
      getKarmaValue = (\<lambda>k. sum_list (map boxValue (o_getKarmaBoxes s k))),
      getKarmaOwed = owedIn preBodyOwed blockHeight,
      getOwnKarmaBoxIds = (\<lambda>k. map boxId (filter (\<lambda>b. \<not> tail_income (boxTail b)) (o_getKarmaBoxes s k))),
      getIdentityRecord = o_getIdentityRecord s,
      hasActiveVouchEscrow = (\<lambda>k. length (o_getVouchEscrowsFor s k) > 0),
      vouchCooldownBlocks = cx_vouchCooldownBlocks ctx,
      getTopologyAuthor = o_getTopologyAuthor s,
      getPendingPostAuthor = (\<lambda>_. None),
      inviteBondMin = cx_inviteBondMin ctx,
      inviteBondMax = cx_inviteBondMax ctx,
      d_decayCfg = cx_decayCfg ctx,
      storageRentPeriodBlocks = cx_storageRentPeriodBlocks ctx,
      getBoxProvenance = o_getBoxProvenance s,
      getVouchBox = (\<lambda>v g. case o_getVouchBoxes s v g of [] \<Rightarrow> None | b # _ \<Rightarrow> Some b),
      getNetworkRecord = o_getNetworkRecord s,
      membershipBarMultiplier = cx_membershipBarMultiplier ctx,
      protocolVersionSchedule = cx_protocolVersionSchedule ctx,
      getUsername = o_getUsername s,
      getUsernameByOwner = o_getUsernameByOwner s,
      verifySignature = (\<lambda>sig message key.
        signatureEntryKey (bytesToHex message) (bytesToHex key) sig \<in> set verified)\<rparr>"

section \<open>One user transaction\<close>

record txApplyAcc =
  invitedThisBlock :: owners
  likesPerAuthor :: "(string \<times> int) list"
  memberLikesPerAuthor :: "(string \<times> int) list"
  membershipTouched :: "string list"
  preBlockRecords :: "(string \<times> identityRecord option) list"
  perTxOutputs :: "(string \<times> anyBox list) list"
  rentTxIds :: "string list"
  appliedTxs :: "embeddedTx list"
  appliedTxBytes :: "(string \<times> byte list) list"

definition newTxApplyAcc :: txApplyAcc where
  "newTxApplyAcc = \<lparr>invitedThisBlock = [], likesPerAuthor = [], memberLikesPerAuthor = [],
     membershipTouched = [], preBlockRecords = [], perTxOutputs = [], rentTxIds = [],
     appliedTxs = [], appliedTxBytes = []\<rparr>"

definition bump :: "string \<Rightarrow> (string \<times> int) list \<Rightarrow> (string \<times> int) list" where
  "bump k m = AList.update k ((case map_of m k of None \<Rightarrow> 0 | Some n \<Rightarrow> n) + 1) m"

text \<open>The pre-block record of an identity a vouch box names, captured the first time.\<close>
definition touchTarget :: "overlay \<Rightarrow> byte list \<Rightarrow> txApplyAcc \<Rightarrow> txApplyAcc" where
  "touchTarget s target acc =
     (let hex = bytesToHex target;
          acc1 = acc\<lparr>membershipTouched := List.insert hex (membershipTouched acc)\<rparr>
      in if has (preBlockRecords acc1) hex then acc1
         else acc1\<lparr>preBlockRecords := preBlockRecords acc1 @ [(hex, o_getIdentityRecord s target)]\<rparr>)"

definition touchBox :: "overlay \<Rightarrow> anyBox \<Rightarrow> txApplyAcc \<Rightarrow> txApplyAcc" where
  "touchBox s b acc = (case boxTail b of Vouch _ target \<Rightarrow> touchTarget s target acc | _ \<Rightarrow> acc)"

definition advanceActivityClock :: "byte list \<Rightarrow> int \<Rightarrow> overlay \<Rightarrow> overlay" where
  "advanceActivityClock owner height s =
     o_putIdentityRecord owner ((or_empty (o_getIdentityRecord s owner))\<lparr>lastActivityBlock := height\<rparr>) s"

text \<open>The like to record: target, liker and the author's hex, or a refusal.\<close>
definition likeToRecord :: "overlay \<Rightarrow> queuedTx \<Rightarrow> refusal + (string \<times> byte list \<times> string) option" where
  "likeToRecord s item =
     (case likeTarget (q_tx item) of
        None \<Rightarrow> Inr None
      | Some targetPostId \<Rightarrow>
          (case o_getTopologyAuthor s targetPostId of
             None \<Rightarrow> Inl Threw
           | Some postAuthor \<Rightarrow>
               if o_getPostStanding s targetPostId \<noteq> Live
               then Inl (Refused ''like tx targets withdrawn or unknown post'')
               else let likerId = ownerOf (the (o_getBox s (hd (inputs (q_tx item))))) in
                 if o_hasLikeRecord s targetPostId likerId
                 then Inl (Refused ''like tx duplicates an existing like-record'')
                 else Inr (Some (targetPostId, likerId, bytesToHex postAuthor))))"

text \<open>One invitee per block.\<close>
definition noteInvite :: "queuedTx \<Rightarrow> txApplyAcc \<Rightarrow> refusal + txApplyAcc" where
  "noteInvite item acc =
     (case bondOutputOf (q_outputs item) of
        None \<Rightarrow> Inr acc
      | Some bond \<Rightarrow>
          let inviteeHex = bytesToHex (the (tail_invitee (boxTail bond))) in
          if has (invitedThisBlock acc) inviteeHex
          then Inl (Refused ''invite tx names an invitee which another bond in this block already names'')
          else Inr (acc\<lparr>invitedThisBlock := invitedThisBlock acc @ [(inviteeHex, inviterOf bond)]\<rparr>))"

text \<open>What the accumulator records of a transaction before \<open>applyTx\<close> consumes its inputs.\<close>
definition noteTx :: "overlay \<Rightarrow> queuedTx \<Rightarrow> txApplyAcc \<Rightarrow> txApplyAcc" where
  "noteTx s item acc =
     (let tx = q_tx item;
          inBoxes = List.map_filter (o_getBox s) (inputs tx);
          acc1 = (case inputs tx of [] \<Rightarrow> acc
             | i # _ \<Rightarrow> acc\<lparr>appliedTxs := appliedTxs acc @ [\<lparr>e_tx = tx, e_inputBoxes = [the (o_getBox s i)]\<rparr>]\<rparr>);
          acc2 = (if isCreditSideTx tx \<and> signatures tx = []
             then acc1\<lparr>rentTxIds := List.insert (q_txId item) (rentTxIds acc1)\<rparr> else acc1);
          acc3 = acc2\<lparr>perTxOutputs := AList.update (q_txId item) (q_outputs item) (perTxOutputs acc2)\<rparr>
      in fold (touchBox s) (q_outputs item) (fold (touchBox s) inBoxes acc3))"

definition recordLike :: "(string \<times> byte list \<times> string) option \<Rightarrow> txApplyAcc \<times> overlay \<Rightarrow> txApplyAcc \<times> overlay" where
  "recordLike lk = (\<lambda>(acc, s). case lk of
       None \<Rightarrow> (acc, s)
     | Some (targetPostId, likerId, authorHex) \<Rightarrow>
         let s1 = o_insertLikeRecord targetPostId likerId s;
             acc1 = acc\<lparr>likesPerAuthor := bump authorHex (likesPerAuthor acc)\<rparr>
         in (case o_getIdentityRecord s1 likerId of
              Some r \<Rightarrow> if isMember r
                then (acc1\<lparr>memberLikesPerAuthor := bump authorHex (memberLikesPerAuthor acc1)\<rparr>, s1)
                else (acc1, s1)
            | None \<Rightarrow> (acc1, s1)))"

definition usernameString :: "byte list \<Rightarrow> string" where
  "usernameString name = map (\<lambda>b. char_of (unat b)) name"

definition tail_name :: "boxTail \<Rightarrow> byte list" where
  "tail_name t = (case t of Username _ n \<Rightarrow> n | _ \<Rightarrow> [])"

definition claimUsername :: "anyBox list \<Rightarrow> int \<Rightarrow> overlay \<Rightarrow> overlay res" where
  "claimUsername outs height s =
     (case List.find (\<lambda>b. boxTypeOf b = BT_username) outs of
        None \<Rightarrow> Inr s
      | Some u \<Rightarrow> o_putUsername \<lparr>nameLower = canonicalUsername (tail_name (boxTail u)),
          row_name = usernameString (tail_name (boxTail u)), row_owner = bytesToHex (ownerOf u),
          row_boxId = boxId u, claimedAtBlock = height\<rparr> s)"

definition burnUsername :: "anyBox option \<Rightarrow> overlay \<Rightarrow> overlay res" where
  "burnUsername captured s =
     (case captured of None \<Rightarrow> Inr s | Some u \<Rightarrow> o_deleteUsername (canonicalUsername (tail_name (boxTail u))) s)"

definition applyQueuedTx ::
    "hash \<Rightarrow> applyContext \<Rightarrow> string list \<Rightarrow> (string \<times> int) list \<Rightarrow> int \<Rightarrow> queuedTx \<Rightarrow>
     txApplyAcc \<times> overlay \<Rightarrow> refusal + txApplyAcc \<times> overlay" where
  "applyQueuedTx H ctx verified preBodyOwed height item = (\<lambda>(acc, s).
     let tx = q_tx item in
     ebind (firstRefusal [(list_ex (\<lambda>i. o_getBox s i = None) (inputs tx), ''embedded UTXO tx has an unresolved input'')]) (\<lambda>_.
     ebind (validateTx H (utxoDepsOver s ctx verified preBodyOwed height) tx (q_txId item) height) (\<lambda>_.
     ebind (likeToRecord s item) (\<lambda>lk.
     ebind (noteInvite item acc) (\<lambda>acc1.
     let firstInputBox = o_getBox s (hd (inputs tx));
         captured = List.find (\<lambda>b. boxTypeOf b = BT_username) (List.map_filter (o_getBox s) (inputs tx));
         acc2 = noteTx s item acc1
     in
     ebind (orThrow (applyTx overlayStore tx (q_outputs item) height s)) (\<lambda>s1.
     let s2 = (if post tx = None then s1 else advanceActivityClock (ownerOf (the firstInputBox)) height s1);
         (acc3, s3) = recordLike lk (acc2, s2)
     in
     ebind (orThrow (claimUsername (q_outputs item) height s3)) (\<lambda>s4.
     ebind (orThrow (burnUsername captured s4)) (\<lambda>s5.
     ebind (orThrow (encodeTx tx)) (\<lambda>bytes.
     Inr (acc3\<lparr>appliedTxBytes := appliedTxBytes acc3 @ [(q_txId item, bytes)]\<rparr>, s5))))))))))"

section \<open>The withdrawals\<close>

definition applyBlockWithdrawal :: "int \<Rightarrow> blockWithdrawal \<Rightarrow> overlay \<Rightarrow> refusal + overlay" where
  "applyBlockWithdrawal height bw s =
     (case o_getTopologyHeight s (bw_postId bw) of
        None \<Rightarrow> Inl (Refused ''postWithdraw is not confirmed in an earlier block'')
      | Some postHeight \<Rightarrow>
          if postHeight \<ge> height then Inl (Refused ''postWithdraw is not confirmed in an earlier block'')
          else if o_getPostStanding s (bw_postId bw) \<noteq> Live
          then Inl (Refused ''postWithdraw targets an already-withdrawn or unknown post'')
          else Inr (o_withdrawPost (bw_postId bw) s))"

section \<open>After the settlement\<close>

text \<open>The grant's record: the epoch of the clock, and membership if a root invites.\<close>
definition grantInvite ::
    "int \<Rightarrow> string \<times> byte list \<Rightarrow> txApplyAcc \<times> overlay \<Rightarrow> (txApplyAcc \<times> overlay) res" where
  "grantInvite height = (\<lambda>(inviteeHex, inviterId) (acc, s).
     ebind (hexToBytes inviteeHex) (\<lambda>invitee.
     case o_getIdentityRecord s inviterId of
       None \<Rightarrow> Inl OtherErr
     | Some inviterRecord \<Rightarrow>
         let conferred = isRoot inviterRecord;
             after = o_getIdentityRecord s invitee;
             base = or_empty after
         in Inr (acc\<lparr>preBlockRecords := AList.update inviteeHex None (preBlockRecords acc),
                     membershipTouched := List.insert inviteeHex (membershipTouched acc)\<rparr>,
                 o_putIdentityRecord invitee
                   (base\<lparr>lastActivityBlock := (case after of None \<Rightarrow> height | Some r \<Rightarrow> lastActivityBlock r),
                         invitedAtBlock := height,
                         memberSinceBlock := (if conferred then height else memberSinceBlock base),
                         memberBar := (if conferred then 0 else memberBar base)\<rparr>) s)))"

definition grantInvites :: "int \<Rightarrow> txApplyAcc \<times> overlay \<Rightarrow> (txApplyAcc \<times> overlay) res" where
  "grantInvites height = (\<lambda>(acc, s).
     efold (grantInvite height)
       (map (\<lambda>hex. (hex, the (map_of (invitedThisBlock acc) hex))) (sort (map fst (invitedThisBlock acc)))) (acc, s))"

definition countLike :: "txApplyAcc \<Rightarrow> string \<Rightarrow> overlay \<Rightarrow> overlay res" where
  "countLike acc authorHex s =
     ebind (hexToBytes authorHex) (\<lambda>k.
     let base = or_empty (o_getIdentityRecord s k) in
     Inr (o_putIdentityRecord k
       (base\<lparr>lifetimeLikesReceived := lifetimeLikesReceived base + the (map_of (likesPerAuthor acc) authorHex),
             memberLikes := memberLikes base +
               (case map_of (memberLikesPerAuthor acc) authorHex of None \<Rightarrow> 0 | Some n \<Rightarrow> n)\<rparr>) s))"

definition countLikes :: "txApplyAcc \<Rightarrow> overlay \<Rightarrow> overlay res" where
  "countLikes acc s = efold (countLike acc) (sort (map fst (likesPerAuthor acc))) s"

text \<open>One identity of the membership pass: set, lapse, re-qualify or conferred.\<close>
definition membershipStep ::
    "int \<Rightarrow> int \<Rightarrow> int \<Rightarrow> (string \<times> identityRecord option) list \<Rightarrow> string \<Rightarrow> int \<times> overlay \<Rightarrow> (int \<times> overlay) res" where
  "membershipStep height D Y preRecords idHex = (\<lambda>(newN, s).
     ebind (hexToBytes idHex) (\<lambda>k.
     let pre = (case map_of preRecords idHex of Some r \<Rightarrow> r | None \<Rightarrow> o_getIdentityRecord s k) in
     case o_getIdentityRecord s k of
       None \<Rightarrow> Inr (newN, s)
     | Some current \<Rightarrow>
         let wasMember = (case pre of None \<Rightarrow> False | Some p \<Rightarrow> isMember p) in
         if memberSinceBlock current = 0 \<and> memberVouches current \<ge> D \<and> memberLikes current \<ge> Y
         then Inr (newN + 1, o_putIdentityRecord k (current\<lparr>memberSinceBlock := height, memberBar := D\<rparr>) s)
         else if memberSinceBlock current > 0 \<and> memberBar current > 0
         then let isMemberNow = memberVouches current \<ge> memberBar current in
           if wasMember \<and> \<not> isMemberNow then Inr (newN - 1, s)
           else if \<not> wasMember \<and> isMemberNow then Inr (newN + 1, s)
           else Inr (newN, s)
         else if memberSinceBlock current > 0 \<and> memberBar current = 0 \<and> \<not> wasMember
         then Inr (newN + 1, s)
         else Inr (newN, s)))"

definition membershipPass :: "applyContext \<Rightarrow> int \<Rightarrow> txApplyAcc \<Rightarrow> overlay \<Rightarrow> overlay res" where
  "membershipPass ctx height acc s =
     (let n = memberCount (o_getNetworkRecord s);
          touched = remdups (membershipTouched acc @ map fst (memberLikesPerAuthor acc))
      in ebind (membershipBar n (cx_membershipBarMultiplier ctx)) (\<lambda>D.
         ebind (memberLikesBar n (cx_membershipBarMultiplier ctx)) (\<lambda>Y.
         ebind (efold (membershipStep height D Y (preBlockRecords acc)) (sort touched) (n, s)) (\<lambda>(newN, s').
         Inr (if newN \<noteq> n then o_putNetworkRecord \<lparr>memberCount = newN\<rparr> s' else s')))))"

section \<open>The block\<close>

record blockEffects =
  ef_mutations :: "blockMutation list"
  ef_posts :: "blockPost list"
  ef_likeRecords :: "(string \<times> byte list) list"
  ef_withdrawals :: "string list"
  ef_appliedTxs :: "(string \<times> byte list) list"
  ef_signatures :: int

datatype applyRefusal = Rejected refusal | OverBudget

definition reject :: "refusal + 'a \<Rightarrow> applyRefusal + 'a" where
  "reject m = (case m of Inl e \<Rightarrow> Inl (Rejected e) | Inr v \<Rightarrow> Inr v)"

text \<open>Steps 7 and 8: the block's posts are confirmed and their author and height recorded.\<close>
definition recordPosts :: "blockPost list \<Rightarrow> int \<Rightarrow> overlay \<Rightarrow> overlay" where
  "recordPosts ps height s =
     fold (\<lambda>p. o_insertBlockTopology (bp_postId p) (author (bp_post p)) height) ps
       (fold (\<lambda>p. o_confirmPost (bp_postId p)) ps s)"

definition bodySignatures :: "queuedTx list \<Rightarrow> int" where
  "bodySignatures queue = sum_list (map (\<lambda>q. int (length (signatures (q_tx q)))) queue)"

definition overBudget :: "queuedTx list \<Rightarrow> bool" where
  "overBudget queue \<longleftrightarrow>
     blockCost \<lparr>c_signatures = bodySignatures queue, c_lookups = 0, c_writes = 0\<rparr> > MAX_BLOCK_COST"

text \<open>\<section>9b: what is read of the state before the body applies.\<close>
record captures =
  ca_escrows :: "anyBox list"
  ca_lapsed :: "anyBox list"
  ca_backerPool :: "anyBox option"
  ca_spent :: "string list"
  ca_preBodyOwed :: "(string \<times> int) list"
  ca_plans :: "decayPlan list"

definition preBodyCaptures ::
    "overlay \<Rightarrow> applyContext \<Rightarrow> int \<Rightarrow> queuedTx list \<Rightarrow> refusal + captures" where
  "preBodyCaptures s ctx height queue =
     ebind (orThrow (o_getVouchEscrowsReleasableAt s height MAX_ESCROW_RETURNS_PER_BLOCK)) (\<lambda>escrows.
     ebind (orThrow (o_getLapsedVouches s MAX_LAPSE_WITHDRAWALS_PER_BLOCK)) (\<lambda>lapsedCapture.
     let spentByBody = concat (map (\<lambda>q. inputs (q_tx q)) queue);
         lapsed = lapseLegOf lapsedCapture spentByBody in
     ebind (orThrow (o_getBackerPoolBox s)) (\<lambda>backerPool.
     let deps = settlementDepsWith (overlayReads s) ctx [] escrows lapsed backerPool spentByBody in
     ebind (orThrow (computeSquaredSetPayees (sketchBodyForPayees (map q_outputs queue)) height deps)) (\<lambda>payees.
     let (postBodyKarma, preBodyOwed) = capturePreBodyOwed s (map bodyTxOf queue) height (cx_decayCfg ctx) payees in
     Inr \<lparr>ca_escrows = escrows, ca_lapsed = lapsed, ca_backerPool = backerPool, ca_spent = spentByBody,
          ca_preBodyOwed = preBodyOwed,
          ca_plans = deriveKarmaDecay (o_getIdentityRecord s) postBodyKarma height (cx_decayCfg ctx)\<rparr>))))"

text \<open>\<section>11a: the body the settlement is derived from, in committed order.\<close>
definition settlementBodyOf :: "txApplyAcc \<Rightarrow> string list \<Rightarrow> byte list \<Rightarrow> settlementBody" where
  "settlementBodyOf acc txIds validator =
     (fold (\<lambda>i body. case map_of (perTxOutputs acc) i of
          None \<Rightarrow> body | Some outs \<Rightarrow> contributeToBody body outs (i \<in> set (rentTxIds acc))) txIds emptyBody)
     \<lparr>sb_actors := countKarmaActors (appliedTxs acc) validator\<rparr>"

definition depsAtSettlement :: "applyContext \<Rightarrow> captures \<Rightarrow> overlay \<Rightarrow> settlementDeps" where
  "depsAtSettlement ctx c s = settlementDepsWith (overlayReads s) ctx (ca_plans c) (ca_escrows c)
     (ca_lapsed c) (ca_backerPool c) (ca_spent c)"

definition checkAndApplySettlement ::
    "applyContext \<Rightarrow> int \<Rightarrow> captures \<Rightarrow> settlementBody \<Rightarrow> queuedTx \<Rightarrow> txApplyAcc \<times> overlay \<Rightarrow>
     refusal + txApplyAcc \<times> overlay" where
  "checkAndApplySettlement ctx height c body settlement = (\<lambda>(acc, s).
     ebind (checkSettlement (depsAtSettlement ctx c s) height (cx_protocolVersionSchedule ctx)
       (computeBlockReward height (cx_creditFixedRateBlocks ctx) (creditEpochBlocks ctx))
       (creditMinerRewardDelay ctx) body (q_tx settlement)) (\<lambda>_.
     let acc1 = fold (touchBox s) (ca_lapsed c) acc in
     ebind (orThrow (applyTx overlayStore (q_tx settlement) (q_outputs settlement) height s)) (\<lambda>s1.
     Inr (acc1, s1))))"

text \<open>\<section>11a-ii to 13: the grants, the like counters, the membership pass, the clocks.\<close>
definition closeBlock :: "applyContext \<Rightarrow> int \<Rightarrow> decayPlan list \<Rightarrow> txApplyAcc \<times> overlay \<Rightarrow> (txApplyAcc \<times> overlay) res" where
  "closeBlock ctx height plans acc_s =
     ebind (grantInvites height acc_s) (\<lambda>(acc, s1).
     ebind (countLikes acc s1) (\<lambda>s2.
     ebind (membershipPass ctx height acc s2) (\<lambda>s3.
     Inr (acc, commitDecayClocks plans s3))))"

definition applyBody ::
    "hash \<Rightarrow> applyContext \<Rightarrow> orderingBlock \<Rightarrow> queuedTx list \<Rightarrow> queuedTx \<Rightarrow> string list \<Rightarrow> overlay \<Rightarrow>
     refusal + txApplyAcc \<times> overlay" where
  "applyBody H ctx block queue settlement verified s =
     (let height = h_height (header block) in
     ebind (preBodyCaptures s ctx height queue) (\<lambda>c.
     ebind (efold (applyQueuedTx H ctx verified (ca_preBodyOwed c) height) queue (newTxApplyAcc, s)) (\<lambda>(acc, s1).
     ebind (efold (applyBlockWithdrawal height) (withdrawalsOf (o_getTopologyAuthor s1) block) s1) (\<lambda>s2.
     let body = settlementBodyOf acc (butlast (utxoTxIds (ob_utxoTxTree block))) (validatorId (header block)) in
     ebind (checkAndApplySettlement ctx height c body settlement (acc, s2)) (\<lambda>acc_s.
     orThrow (closeBlock ctx height (ca_plans c) acc_s))))))"

definition effectsOf :: "blockPost list \<Rightarrow> queuedTx list \<Rightarrow> txApplyAcc \<times> overlay \<Rightarrow> blockEffects" where
  "effectsOf posts queue = (\<lambda>(acc, s).
     \<lparr>ef_mutations = mutations s, ef_posts = posts, ef_likeRecords = likeRecords s,
      ef_withdrawals = withdrawals s, ef_appliedTxs = appliedTxBytes acc, ef_signatures = bodySignatures queue\<rparr>)"

definition applyBlock ::
    "hash \<Rightarrow> stateView \<Rightarrow> orderingBlock \<Rightarrow> applyContext \<Rightarrow> applyRefusal + blockEffects" where
  "applyBlock H v block ctx =
     (let height = h_height (header block);
          posts = postsOf H block;
          s = recordPosts posts height (newOverlay v)
      in
      ebind (reject (decodeBody H ctx block height)) (\<lambda>(queue, settlement).
      ebind (reject (echeck (\<lambda>q. overSignedReason (q_tx q)) queue)) (\<lambda>_.
      if overBudget queue then Inl OverBudget
      else
        ebind (reject (orThrow (verifiedSignaturesOf (verifyBatch ctx) queue))) (\<lambda>verified.
        case verified of
          None \<Rightarrow> Inl (Rejected (Refused ''a signature in the body does not verify''))
        | Some keys \<Rightarrow>
            ebind (reject (applyBody H ctx block queue settlement keys s)) (\<lambda>acc_s.
            Inr (effectsOf posts queue acc_s))))))"

section \<open>The producer's settlement\<close>

definition predictSettlementBody :: "stateView \<Rightarrow> queuedTx list \<Rightarrow> byte list \<Rightarrow> settlementBody" where
  "predictSettlementBody v decoded validator =
     (let ownOutputs = rev (map (\<lambda>b. (boxId b, b)) (filter (\<lambda>b. boxId b \<noteq> []) (concat (map q_outputs decoded))));
          resolve = (\<lambda>i. case v_getBox v i of Some b \<Rightarrow> Some b | None \<Rightarrow> map_of ownOutputs i);
          embedded = map (\<lambda>q. \<lparr>e_tx = q_tx q, e_inputBoxes = List.map_filter resolve (inputs (q_tx q))\<rparr>) decoded
      in (fold (\<lambda>q body. contributeToBody body (q_outputs q)
            (isCreditSideTx (q_tx q) \<and> signatures (q_tx q) = [])) decoded emptyBody)
         \<lparr>sb_actors := countKarmaActors embedded validator\<rparr>)"

definition decodeSettlementTx :: "hash \<Rightarrow> string \<times> byte list \<Rightarrow> refusal + queuedTx" where
  "decodeSettlementTx H = (\<lambda>(txId, raw).
     ebind (orThrow (decodeTx raw)) (\<lambda>tx.
     ebind (orThrow (materializeOutputs H (outputs tx) txId)) (\<lambda>outs.
     Inr \<lparr>q_txId = txId, q_tx = tx, q_outputs = outs\<rparr>)))"

definition buildBlockSettlement ::
    "hash \<Rightarrow> stateView \<Rightarrow> (string \<times> byte list) list \<Rightarrow> int \<Rightarrow> byte list \<Rightarrow> byte list \<Rightarrow> applyContext \<Rightarrow>
     refusal + utxoTransaction" where
  "buildBlockSettlement H v body height validator minerOwner ctx =
     ebind (emap (decodeSettlementTx H) body) (\<lambda>decoded.
     let r = viewReads v in
     ebind (orThrow (r_getVouchEscrowsReleasableAt r height MAX_ESCROW_RETURNS_PER_BLOCK)) (\<lambda>escrows.
     ebind (orThrow (r_getLapsedVouches r MAX_LAPSE_WITHDRAWALS_PER_BLOCK)) (\<lambda>lapsedCapture.
     let spentIds = concat (map (\<lambda>q. inputs (q_tx q)) decoded);
         lapsed = lapseLegOf lapsedCapture spentIds in
     ebind (orThrow (r_getBackerPoolBox r)) (\<lambda>pool.
     let deps = (\<lambda>plans. settlementDepsWith r ctx plans escrows lapsed pool spentIds) in
     ebind (orThrow (computeSquaredSetPayees (sketchBodyForPayees (map q_outputs decoded)) height (deps []))) (\<lambda>payees.
     let postBody = collectPostBodyKarma (v_getBox v) (v_getKarmaBoxes v) (map bodyTxOf decoded) payees;
         plans = deriveKarmaDecay (v_getIdentityRecord v) postBody height (cx_decayCfg ctx) in
     buildSettlement (deps plans) height (cx_protocolVersionSchedule ctx)
       (computeBlockReward height (cx_creditFixedRateBlocks ctx) (creditEpochBlocks ctx))
       (creditMinerRewardDelay ctx) (predictSettlementBody v decoded validator) minerOwner)))))"

end
