(* ===== verification/ApplyLaws.thy ===== *)
theory ApplyLaws
  imports ApplyBlock SettlementProps Accepted
begin

text \<open>
  The ledger a block moves: the live boxes, the identity records and the member
  count.  Every write of the overlay is logged, so the mutations of a block's effects,
  replayed on the view's ledger, give the ledger the overlay answers; the store
  interface of \<open>applyTx\<close> is interpreted on the overlays that track a view this way,
  and each phase of \<open>applyBlock\<close> gets its effect on the ledger.
\<close>

section \<open>The ledger and the log\<close>

record ledger =
  lg_boxes :: live
  lg_records :: "byte list \<Rightarrow> identityRecord option"
  lg_members :: int

fun replay :: "blockMutation \<Rightarrow> ledger \<Rightarrow> ledger" where
  "replay (BoxInsert i b) lg = lg\<lparr>lg_boxes := (lg_boxes lg)(i \<mapsto> b)\<rparr>"
| "replay (BoxRemove i) lg = lg\<lparr>lg_boxes := (lg_boxes lg)(i := None)\<rparr>"
| "replay (RecordWrite k r) lg = lg\<lparr>lg_records := (lg_records lg)(k \<mapsto> r)\<rparr>"
| "replay (NetworkWrite n) lg = lg\<lparr>lg_members := memberCount n\<rparr>"
| "replay (UsernameWrite _ _ _) lg = lg"
| "replay (HolderWrite _ _ _) lg = lg"

definition ledgerOf :: "stateView \<Rightarrow> ledger" where
  "ledgerOf v = \<lparr>lg_boxes = v_getBox v, lg_records = v_getIdentityRecord v,
     lg_members = memberCount (v_getNetworkRecord v)\<rparr>"

definition o_ledger :: "overlay \<Rightarrow> ledger" where
  "o_ledger s = \<lparr>lg_boxes = o_getBox s, lg_records = o_getIdentityRecord s,
     lg_members = memberCount (o_getNetworkRecord s)\<rparr>"

text \<open>A log inserts a box under its own id, and only where none is live.\<close>
fun writeOk :: "blockMutation \<Rightarrow> ledger \<Rightarrow> bool" where
  "writeOk (BoxInsert i b) lg \<longleftrightarrow> boxId b = i \<and> lg_boxes lg i = None"
| "writeOk _ lg \<longleftrightarrow> True"

fun logOk :: "blockMutation list \<Rightarrow> ledger \<Rightarrow> bool" where
  "logOk [] lg \<longleftrightarrow> True"
| "logOk (m # ms) lg \<longleftrightarrow> writeOk m lg \<and> logOk ms (replay m lg)"

lemma logOk_append [simp]: "logOk (ms @ ns) lg \<longleftrightarrow> logOk ms lg \<and> logOk ns (fold replay ms lg)"
  by (induction ms arbitrary: lg) auto

definition tracks :: "stateView \<Rightarrow> overlay \<Rightarrow> bool" where
  "tracks v s \<longleftrightarrow> overlay_wf s \<and> view s = v \<and> fold replay (mutations s) (ledgerOf v) = o_ledger s \<and>
     logOk (mutations s) (ledgerOf v)"

named_theorems ledger_effects \<open>what an overlay write does to the ledger it answers\<close>

lemma tracks_new: "view_ok v \<Longrightarrow> tracks v (newOverlay v)"
  by (auto simp: tracks_def newOverlay_wf) (simp_all add: newOverlay_def ledgerOf_def o_ledger_def
      o_getBox_def o_getIdentityRecord_def o_getNetworkRecord_def fun_eq_iff)

lemma ledger_new: "o_ledger (newOverlay v) = ledgerOf v"
  by (simp add: newOverlay_def ledgerOf_def o_ledger_def
      o_getBox_def o_getIdentityRecord_def o_getNetworkRecord_def fun_eq_iff)

text \<open>What the reads of the ledger depend on.\<close>
lemma reads_cong:
  "view s' = view s \<Longrightarrow> spent s' = spent s \<Longrightarrow> inserted s' = inserted s \<Longrightarrow> o_getBox s' = o_getBox s"
  "view s' = view s \<Longrightarrow> written s' = written s \<Longrightarrow> o_getIdentityRecord s' = o_getIdentityRecord s"
  "view s' = view s \<Longrightarrow> network s' = network s \<Longrightarrow> o_getNetworkRecord s' = o_getNetworkRecord s"
  "view s' = view s \<Longrightarrow> spent s' = spent s \<Longrightarrow> inserted s' = inserted s \<Longrightarrow> written s' = written s \<Longrightarrow>
     overlay_wf s' = overlay_wf s"
  by (simp_all add: o_getBox_def o_getIdentityRecord_def o_getNetworkRecord_def overlay_wf_def fun_eq_iff
      cong: option.case_cong)

lemma silent_write:
  assumes "view s' = view s" "spent s' = spent s" "inserted s' = inserted s" "written s' = written s"
    "network s' = network s" "\<And>lg. fold replay (mutations s') lg = fold replay (mutations s) lg"
    "\<And>lg. logOk (mutations s') lg = logOk (mutations s) lg"
  shows "o_ledger s' = o_ledger s \<and> tracks v s' = tracks v s"
proof -
  have l: "o_ledger s' = o_ledger s"
    unfolding o_ledger_def using reads_cong(1-3) [of s' s] assms(1-5) by (simp only:)
  moreover have "overlay_wf s' = overlay_wf s" by (rule reads_cong(4)) (fact assms(1-4))+
  ultimately show ?thesis by (simp add: tracks_def assms(1,6,7))
qed

text \<open>Writes that touch neither the ledger nor its log.\<close>
lemma silent_writes [ledger_effects]:
  "o_ledger (o_confirmPost p s) = o_ledger s" "tracks v (o_confirmPost p s) = tracks v s"
  "o_ledger (o_insertBlockTopology p a h s) = o_ledger s" "tracks v (o_insertBlockTopology p a h s) = tracks v s"
  "o_ledger (o_withdrawPost p s) = o_ledger s" "tracks v (o_withdrawPost p s) = tracks v s"
  "o_ledger (o_insertLikeRecord p k s) = o_ledger s" "tracks v (o_insertLikeRecord p k s) = tracks v s"
  using silent_write [of "o_confirmPost p s" s v] silent_write [of "o_insertBlockTopology p a h s" s v]
    silent_write [of "o_withdrawPost p s" s v] silent_write [of "o_insertLikeRecord p k s" s v]
  by (simp_all add: o_confirmPost_def o_insertBlockTopology_def o_withdrawPost_def o_insertLikeRecord_def)

lemma tracks_put [ledger_effects]:
  assumes "tracks v s"
  shows "tracks v (o_putIdentityRecord k r s)"
    "o_ledger (o_putIdentityRecord k r s) = o_ledger s\<lparr>lg_records := (lg_records (o_ledger s))(k \<mapsto> r)\<rparr>"
proof -
  have wf: "overlay_wf s" using assms by (simp add: tracks_def)
  note p = put_wf [OF wf, of k r]
  have n: "o_getNetworkRecord (o_putIdentityRecord k r s) = o_getNetworkRecord s"
    by (rule reads_cong(3)) (simp_all add: o_putIdentityRecord_def)
  show e: "o_ledger (o_putIdentityRecord k r s) = o_ledger s\<lparr>lg_records := (lg_records (o_ledger s))(k \<mapsto> r)\<rparr>"
    using p n by (simp add: o_ledger_def)
  have "view (o_putIdentityRecord k r s) = view s"
    "mutations (o_putIdentityRecord k r s) = mutations s @ [RecordWrite k r]"
    by (simp_all add: o_putIdentityRecord_def)
  then show "tracks v (o_putIdentityRecord k r s)"
    using assms p(1) e by (simp add: tracks_def)
qed

lemma tracks_network [ledger_effects]:
  assumes "tracks v s"
  shows "tracks v (o_putNetworkRecord n s)"
    "o_ledger (o_putNetworkRecord n s) = o_ledger s\<lparr>lg_members := memberCount n\<rparr>"
proof -
  have r: "o_getBox (o_putNetworkRecord n s) = o_getBox s"
      "o_getIdentityRecord (o_putNetworkRecord n s) = o_getIdentityRecord s"
      "overlay_wf (o_putNetworkRecord n s) = overlay_wf s" "o_getNetworkRecord (o_putNetworkRecord n s) = n"
    by (intro reads_cong; simp add: o_putNetworkRecord_def)+ (simp add: o_putNetworkRecord_def o_getNetworkRecord_def)
  show e: "o_ledger (o_putNetworkRecord n s) = o_ledger s\<lparr>lg_members := memberCount n\<rparr>"
    using r by (simp add: o_ledger_def)
  have "view (o_putNetworkRecord n s) = view s"
    "mutations (o_putNetworkRecord n s) = mutations s @ [NetworkWrite n]" by (simp_all add: o_putNetworkRecord_def)
  then show "tracks v (o_putNetworkRecord n s)" using assms r e by (simp add: tracks_def)
qed

lemma tracks_putUsername:
  assumes "tracks v s" "o_putUsername row s = Inr s'"
  shows "tracks v s'" "o_ledger s' = o_ledger s"
  using assms silent_write [of s' s v] by (auto simp: o_putUsername_def bind_iff Let_def)

lemma tracks_deleteUsername:
  assumes "tracks v s" "o_deleteUsername n s = Inr s'"
  shows "tracks v s'" "o_ledger s' = o_ledger s"
  using assms silent_write [of s' s v] by (auto simp: o_deleteUsername_def bind_iff Let_def split: option.splits)

lemma tracks_consume:
  assumes "tracks v s" "o_consumeBox i s = Inr s'"
  shows "tracks v s'" "o_ledger s' = o_ledger s\<lparr>lg_boxes := (lg_boxes (o_ledger s))(i := None)\<rparr>"
proof -
  have wf: "overlay_wf s" using assms by (simp add: tracks_def)
  note p = consume_wf [OF wf assms(2)]
  have m: "mutations s' = mutations s @ [BoxRemove i]" "view s' = view s" "network s' = network s"
    using assms(2) by (auto simp: o_consumeBox_def split: option.splits)
  show e: "o_ledger s' = o_ledger s\<lparr>lg_boxes := (lg_boxes (o_ledger s))(i := None)\<rparr>"
    using p reads_cong(3) [of s' s] m(2,3) by (simp add: o_ledger_def)
  show "tracks v s'" using assms(1) p(1) m e by (simp add: tracks_def)
qed

lemma tracks_insert:
  assumes "tracks v s" "o_insertBox b s = Inr s'"
  shows "tracks v s'" "o_ledger s' = o_ledger s\<lparr>lg_boxes := (lg_boxes (o_ledger s))(boxId b \<mapsto> b)\<rparr>"
proof -
  have wf: "overlay_wf s" using assms by (simp add: tracks_def)
  note p = insert_wf [OF wf assms(2)]
  have m: "mutations s' = mutations s @ [BoxInsert (boxId b) b]" "view s' = view s" "network s' = network s"
    using assms(2) by (auto simp: o_insertBox_def split: if_splits)
  show e: "o_ledger s' = o_ledger s\<lparr>lg_boxes := (lg_boxes (o_ledger s))(boxId b \<mapsto> b)\<rparr>"
    using p reads_cong(3) [of s' s] m(2,3) by (simp add: o_ledger_def)
  have "lg_boxes (o_ledger s) (boxId b) = None"
    using assms(2) by (auto simp: o_ledger_def o_getBox_def o_insertBox_def split: if_splits option.splits)
  then show "tracks v s'" using assms(1) p(1) m e by (simp add: tracks_def)
qed

interpretation trk: ledger_store overlayStore "tracks v" for v
proof unfold_locales
  fix s :: overlay and i h s' assume t: "tracks v s" and c: "st_consumeBox overlayStore i h s = Inr s'"
  have wf: "overlay_wf s" using t by (simp add: tracks_def)
  show "tracks v s' \<and> st_getBox overlayStore s i \<noteq> None \<and>
      st_getBox overlayStore s' = (st_getBox overlayStore s)(i := None) \<and>
      st_getIdentityRecord overlayStore s' = st_getIdentityRecord overlayStore s"
    using consume_wf [OF wf] tracks_consume(1) [OF t] c by (simp add: overlayStore_def)
next
  fix s :: overlay and b s' assume t: "tracks v s" and c: "st_insertBox overlayStore b s = Inr s'"
  have wf: "overlay_wf s" using t by (simp add: tracks_def)
  show "tracks v s' \<and> st_getBox overlayStore s (boxId b) = None \<and>
      st_getBox overlayStore s' = (st_getBox overlayStore s)(boxId b \<mapsto> b) \<and>
      st_getIdentityRecord overlayStore s' = st_getIdentityRecord overlayStore s"
    using insert_wf [OF wf] tracks_insert(1) [OF t] c by (simp add: overlayStore_def)
next
  fix s :: overlay and k r assume t: "tracks v s"
  then have wf: "overlay_wf s" by (simp add: tracks_def)
  show "tracks v (st_putIdentityRecord overlayStore k r s) \<and>
      st_getBox overlayStore (st_putIdentityRecord overlayStore k r s) = st_getBox overlayStore s \<and>
      st_getIdentityRecord overlayStore (st_putIdentityRecord overlayStore k r s) =
        (st_getIdentityRecord overlayStore s)(k \<mapsto> r)"
    using put_wf [OF wf] tracks_put(1) [OF t] by (simp add: overlayStore_def)
next
  fix s :: overlay assume "tracks v s"
  then show "finite (dom (st_getBox overlayStore s))" by (simp add: tracks_def overlayStore_def overlay_finite)
qed

abbreviation boxesOf :: "overlay \<Rightarrow> live" where "boxesOf s \<equiv> lg_boxes (o_ledger s)"
abbreviation recordsOf :: "overlay \<Rightarrow> byte list \<Rightarrow> identityRecord option" where
  "recordsOf s \<equiv> lg_records (o_ledger s)"
abbreviation membersOf :: "overlay \<Rightarrow> int" where "membersOf s \<equiv> lg_members (o_ledger s)"

lemma ledger_reads [simp]:
  "boxesOf s = o_getBox s" "recordsOf s = o_getIdentityRecord s"
  "membersOf s = memberCount (o_getNetworkRecord s)"
  by (simp_all add: o_ledger_def)

lemma store_reads [simp]:
  "st_getBox overlayStore = o_getBox" "st_getIdentityRecord overlayStore = o_getIdentityRecord"
  "st_consumeBox overlayStore i h = o_consumeBox i" "st_insertBox overlayStore = o_insertBox"
  "st_putIdentityRecord overlayStore = o_putIdentityRecord"
  by (simp_all add: overlayStore_def)

lemma tracks_wf: "tracks v s \<Longrightarrow> overlay_wf s"
  by (simp add: tracks_def)

lemma tracks_view: "tracks v s \<Longrightarrow> view s = v"
  by (simp add: tracks_def)

section \<open>Record writes that leave membership alone\<close>

definition standingOf :: "identityRecord \<Rightarrow> int \<times> int \<times> int" where
  "standingOf r = (memberSinceBlock r, memberBar r, memberVouches r)"

text \<open>Every record keeps its membership fields; a new one starts empty.\<close>
definition sameMembership ::
    "(byte list \<Rightarrow> identityRecord option) \<Rightarrow> (byte list \<Rightarrow> identityRecord option) \<Rightarrow> bool" where
  "sameMembership recs recs' \<longleftrightarrow> (\<forall>k. case recs k of
       Some r \<Rightarrow> map_option standingOf (recs' k) = Some (standingOf r)
     | None \<Rightarrow> recs' k = None \<or> map_option standingOf (recs' k) = Some (0, 0, 0))"

lemma sameMembership_refl [simp]: "sameMembership recs recs"
  by (simp add: sameMembership_def split: option.splits)

lemma sameMembership_trans:
  assumes "sameMembership a b" "sameMembership b c"
  shows "sameMembership a c"
  unfolding sameMembership_def
proof
  fix k
  have "case a k of Some r \<Rightarrow> map_option standingOf (b k) = Some (standingOf r)
      | None \<Rightarrow> b k = None \<or> map_option standingOf (b k) = Some (0, 0, 0)"
    "case b k of Some r \<Rightarrow> map_option standingOf (c k) = Some (standingOf r)
      | None \<Rightarrow> c k = None \<or> map_option standingOf (c k) = Some (0, 0, 0)"
    using assms unfolding sameMembership_def by blast+
  then show "case a k of Some r \<Rightarrow> map_option standingOf (c k) = Some (standingOf r)
      | None \<Rightarrow> c k = None \<or> map_option standingOf (c k) = Some (0, 0, 0)"
    by (auto split: option.splits)
qed

lemma sameMembership_put:
  "standingOf r = standingOf (or_empty (recs k)) \<Longrightarrow> sameMembership recs (recs(k \<mapsto> r))"
  by (auto simp: sameMembership_def or_empty_def standingOf_def EMPTY_IDENTITY_RECORD_def split: option.splits)

text \<open>An operation that keeps the boxes, the member count and the membership fields.\<close>
definition clockOnly :: "stateView \<Rightarrow> overlay \<Rightarrow> overlay \<Rightarrow> bool" where
  "clockOnly v s s' \<longleftrightarrow> tracks v s' \<and> o_getBox s' = o_getBox s \<and>
     memberCount (o_getNetworkRecord s') = memberCount (o_getNetworkRecord s) \<and>
     sameMembership (o_getIdentityRecord s) (o_getIdentityRecord s')"

lemma clockOnly_refl: "tracks v s \<Longrightarrow> clockOnly v s s"
  by (simp add: clockOnly_def)

lemma clockOnly_trans: "clockOnly v s s1 \<Longrightarrow> clockOnly v s1 s2 \<Longrightarrow> clockOnly v s s2"
  by (auto simp: clockOnly_def intro: sameMembership_trans)

lemma clockOnly_ledger: "tracks v s' \<Longrightarrow> o_ledger s' = o_ledger s \<Longrightarrow> clockOnly v s s'"
  by (simp add: clockOnly_def o_ledger_def)

lemma clockOnly_put:
  assumes "tracks v s" "standingOf r = standingOf (or_empty (o_getIdentityRecord s k))"
  shows "clockOnly v s (o_putIdentityRecord k r s)"
  using tracks_put [OF assms(1), of k r] sameMembership_put [of r "o_getIdentityRecord s" k] assms(2)
  by (simp add: clockOnly_def o_ledger_def)

lemma clockOnly_efold:
  assumes "tracks v s" "efold f xs s = Inr s'"
    "\<And>x s s'. tracks v s \<Longrightarrow> f x s = Inr s' \<Longrightarrow> clockOnly v s s'"
  shows "clockOnly v s s'"
  using assms(1,2)
proof (induction xs arbitrary: s)
  case Nil
  then show ?case by (simp add: clockOnly_refl)
next
  case (Cons x xs)
  then obtain s1 where s1: "f x s = Inr s1" "efold f xs s1 = Inr s'" by (auto simp: bind_iff)
  have c: "clockOnly v s s1" by (rule assms(3) [OF Cons.prems(1) s1(1)])
  then have "tracks v s1" by (simp add: clockOnly_def)
  from clockOnly_trans [OF c Cons.IH [OF this s1(2)]] show ?case .
qed

lemma clock_activity: "tracks v s \<Longrightarrow> clockOnly v s (advanceActivityClock k h s)"
  unfolding advanceActivityClock_def by (rule clockOnly_put) (simp_all add: standingOf_def)

lemma clock_like: "tracks v s \<Longrightarrow> countLike acc hex s = Inr s' \<Longrightarrow> clockOnly v s s'"
  by (auto simp: countLike_def bind_iff Let_def standingOf_def intro!: clockOnly_put)

lemma clock_likes: "tracks v s \<Longrightarrow> countLikes acc s = Inr s' \<Longrightarrow> clockOnly v s s'"
  unfolding countLikes_def by (erule (1) clockOnly_efold) (rule clock_like)

lemma clock_commits: "tracks v s \<Longrightarrow> clockOnly v s (commitDecayClocks plans s)"
  unfolding commitDecayClocks_def
proof (induction plans arbitrary: s)
  case (Cons p plans)
  have c: "clockOnly v s (commitClock p s)"
    unfolding commitClock_def by (rule clockOnly_put [OF Cons.prems]) (simp add: standingOf_def)
  then have "tracks v (commitClock p s)" by (simp add: clockOnly_def)
  from clockOnly_trans [OF c Cons.IH [OF this]] show ?case by simp
qed (simp add: clockOnly_refl)

lemma clock_withdrawal: "tracks v s \<Longrightarrow> applyBlockWithdrawal h bw s = Inr s' \<Longrightarrow> clockOnly v s s'"
  by (auto simp: applyBlockWithdrawal_def ledger_effects intro!: clockOnly_ledger split: option.splits if_splits)

lemma ledger_recordPosts: "o_ledger (recordPosts ps h s) = o_ledger s" "tracks v (recordPosts ps h s) = tracks v s"
proof -
  have c: "o_ledger (fold (\<lambda>p. o_confirmPost (bp_postId p)) ps s) = o_ledger s \<and>
      tracks v (fold (\<lambda>p. o_confirmPost (bp_postId p)) ps s) = tracks v s" for s
    by (induction ps arbitrary: s) (simp_all add: ledger_effects)
  have t: "o_ledger (fold (\<lambda>p. o_insertBlockTopology (bp_postId p) (author (bp_post p)) h) ps s) = o_ledger s \<and>
      tracks v (fold (\<lambda>p. o_insertBlockTopology (bp_postId p) (author (bp_post p)) h) ps s) = tracks v s" for s
    by (induction ps arbitrary: s) (simp_all add: ledger_effects)
  show "o_ledger (recordPosts ps h s) = o_ledger s" "tracks v (recordPosts ps h s) = tracks v s"
    unfolding recordPosts_def using c t by metis+
qed

lemma recordLike_ledger: "o_ledger (snd (recordLike lk (acc, s))) = o_ledger s"
    "tracks v (snd (recordLike lk (acc, s))) = tracks v s"
  by (auto simp: recordLike_def Let_def ledger_effects split: option.splits prod.splits)

lemma claimUsername_ledger: "tracks v s \<Longrightarrow> claimUsername outs h s = Inr s' \<Longrightarrow> tracks v s' \<and> o_ledger s' = o_ledger s"
  using tracks_putUsername by (fastforce simp: claimUsername_def split: option.splits)

lemma burnUsername_ledger: "tracks v s \<Longrightarrow> burnUsername u s = Inr s' \<Longrightarrow> tracks v s' \<and> o_ledger s' = o_ledger s"
  using tracks_deleteUsername by (fastforce simp: burnUsername_def split: option.splits)

section \<open>One user transaction\<close>

text \<open>What \<open>applyTx\<close> does not write: anything the three store operations keep.\<close>
lemma efold_keeps: "efold f xs s = Inr s' \<Longrightarrow> (\<And>x s s'. f x s = Inr s' \<Longrightarrow> g s' = g s) \<Longrightarrow> g s' = g s"
  by (induction xs arbitrary: s) (auto simp: bind_iff)

lemma applyTx_keeps:
  assumes ok: "applyTx overlayStore tx outs h s = Inr s'"
    and c: "\<And>i s s'. o_consumeBox i s = Inr s' \<Longrightarrow> g s' = g s"
    and i: "\<And>b s s'. o_insertBox b s = Inr s' \<Longrightarrow> g s' = g s"
    and p: "\<And>k r s. g (o_putIdentityRecord k r s) = g s"
  shows "g s' = g s"
proof -
  have a: "g s' = g s" if "adjustFor overlayStore d t s = Inr s'" for d t s s'
    using that by (auto simp: adjustFor_def adjustVouchCount_def p
        split: boxTail.splits option.splits if_splits)
  have 1: "g s' = g s" if "applyInput overlayStore h i s = Inr s'" for i s s'
    using that a by (auto simp: applyInput_def bind_iff split: option.splits)
      (metis c)+
  have 2: "g s' = g s" if out: "applyOutput overlayStore b s = Inr s'" for b s s'
  proof -
    obtain s1 s2 where s12: "o_insertBox b s = Inr s1" "adjustFor overlayStore 1 (boxTail b) s1 = Inr s2"
        "s' = countInvite overlayStore (boxTail b) s2"
      using out by (auto simp: applyOutput_def bind_iff)
    have "g (countInvite overlayStore (boxTail b) s2) = g s2"
      by (auto simp: countInvite_def p split: boxTail.splits option.splits)
    then show ?thesis using i [OF s12(1)] a [OF s12(2)] s12(3) by simp
  qed
  obtain s1 where s1: "efold (applyInput overlayStore h) (inputs tx) s = Inr s1"
      "efold (applyOutput overlayStore) outs s1 = Inr s'"
    using ok by (auto simp: applyTx_def bind_iff)
  show ?thesis using efold_keeps [OF s1(1), of g] efold_keeps [OF s1(2), of g] 1 2 by simp
qed

lemma applyTx_keeps_likes:
  assumes "applyTx overlayStore tx outs h s = Inr s'"
  shows "likes s' = likes s" "likeRecords s' = likeRecords s" "network s' = network s"
    "withdrawn s' = withdrawn s" "withdrawals s' = withdrawals s"
  by (rule applyTx_keeps [OF assms]; auto simp: o_consumeBox_def o_insertBox_def o_putIdentityRecord_def
      split: option.splits if_splits)+

lemma applyTx_members:
  "applyTx overlayStore tx outs h s = Inr s' \<Longrightarrow> tracks v s \<Longrightarrow> tracks v s' \<Longrightarrow>
     o_getNetworkRecord s' = o_getNetworkRecord s"
  by (rule reads_cong(3)) (simp_all add: applyTx_keeps_likes tracks_view)

lemma username_keeps:
  "claimUsername outs h s = Inr s' \<Longrightarrow> likes s' = likes s \<and> likeRecords s' = likeRecords s"
  "burnUsername u s = Inr s' \<Longrightarrow> likes s' = likes s \<and> likeRecords s' = likeRecords s"
  by (auto simp: claimUsername_def burnUsername_def o_putUsername_def o_deleteUsername_def bind_iff Let_def
      split: option.splits)

text \<open>The steps of an accepted transaction; what follows \<open>applyTx\<close> only advances a clock.\<close>
lemma applyQueuedTx_inv:
  assumes "applyQueuedTx H ctx ver owed h item (acc, s) = Inr (acc', s')" "tracks v s"
  obtains outs lk acc1 s1 s2 bytes where
    "validateTx H (utxoDepsOver s ctx ver owed h) (q_tx item) (q_txId item) h = Inr outs"
    "likeToRecord s item = Inr lk" "noteInvite item acc = Inr acc1"
    "applyTx overlayStore (q_tx item) (q_outputs item) h s = Inr s1" "tracks v s1"
    "clockOnly v s1 s2" "clockOnly v s1 s'"
    "acc' = (let a = fst (recordLike lk (noteTx s item acc1, s2)) in
       a\<lparr>appliedTxBytes := appliedTxBytes a @ [(q_txId item, bytes)]\<rparr>)"
    "likeRecords s' = likeRecords s @ (case lk of None \<Rightarrow> [] | Some (p, k, _) \<Rightarrow> [(p, k)])"
    "likes s' = (case lk of None \<Rightarrow> likes s | Some (p, k, _) \<Rightarrow> List.insert (likeKey p k) (likes s))"
    "o_ledger s' = o_ledger s2" "s2 = s1 \<or> (\<exists>k. s2 = advanceActivityClock k h s1)"
proof -
  let ?tx = "q_tx item"
  let ?u = "List.find (\<lambda>b. boxTypeOf b = BT_username) (List.map_filter (o_getBox s) (inputs ?tx))"
  from assms(1) obtain outs lk acc1 s1 where a:
      "validateTx H (utxoDepsOver s ctx ver owed h) ?tx (q_txId item) h = Inr outs"
      "likeToRecord s item = Inr lk" "noteInvite item acc = Inr acc1"
      "applyTx overlayStore ?tx (q_outputs item) h s = Inr s1"
    and rest: "(let s2 = (if post ?tx = None then s1
          else advanceActivityClock (ownerOf (the (o_getBox s (hd (inputs ?tx))))) h s1);
         (acc3, s3) = recordLike lk (noteTx s item acc1, s2)
     in ebind (orThrow (claimUsername (q_outputs item) h s3)) (\<lambda>s4.
        ebind (orThrow (burnUsername ?u s4)) (\<lambda>s5.
        ebind (orThrow (encodeTx ?tx)) (\<lambda>bytes.
        Inr (acc3\<lparr>appliedTxBytes := appliedTxBytes acc3 @ [(q_txId item, bytes)]\<rparr>, s5))))) = Inr (acc', s')"
    by (auto simp: applyQueuedTx_def Let_def bind_iff simp del: ebind_guard)
  define s2 where "s2 = (if post ?tx = None then s1
          else advanceActivityClock (ownerOf (the (o_getBox s (hd (inputs ?tx))))) h s1)"
  obtain acc3 s3 where r: "recordLike lk (noteTx s item acc1, s2) = (acc3, s3)" by (cases "recordLike lk (noteTx s item acc1, s2)")
  obtain s4 bytes where b: "claimUsername (q_outputs item) h s3 = Inr s4" "burnUsername ?u s4 = Inr s'"
      "encodeTx ?tx = Inr bytes" "acc' = acc3\<lparr>appliedTxBytes := appliedTxBytes acc3 @ [(q_txId item, bytes)]\<rparr>"
    using rest by (auto simp: s2_def [symmetric] r bind_iff)
  have t1: "tracks v s1" using trk.applyTx_effect [OF assms(2) a(4)] by blast
  have c2: "clockOnly v s1 s2" unfolding s2_def using clock_activity [OF t1] clockOnly_refl [OF t1] by simp
  then have t2: "tracks v s2" by (simp add: clockOnly_def)
  have t3: "tracks v s3" "o_ledger s3 = o_ledger s2"
    using recordLike_ledger(1) [of lk "noteTx s item acc1" s2] recordLike_ledger(2) [of v lk "noteTx s item acc1" s2] t2 r by simp_all
  have t4: "tracks v s4" "o_ledger s4 = o_ledger s3" using claimUsername_ledger [OF t3(1) b(1)] by simp_all
  have t5: "tracks v s'" "o_ledger s' = o_ledger s4" using burnUsername_ledger [OF t4(1) b(2)] by simp_all
  have c: "clockOnly v s1 s'"
    by (rule clockOnly_trans [OF c2 clockOnly_ledger]) (use t3 t4 t5 in simp_all)
  have l2: "likes s2 = likes s" "likeRecords s2 = likeRecords s"
    using applyTx_keeps_likes [OF a(4)] by (simp_all add: s2_def advanceActivityClock_def o_putIdentityRecord_def)
  have l3: "likeRecords s3 = likeRecords s @ (case lk of None \<Rightarrow> [] | Some (p, k, _) \<Rightarrow> [(p, k)])"
      "likes s3 = (case lk of None \<Rightarrow> likes s | Some (p, k, _) \<Rightarrow> List.insert (likeKey p k) (likes s))"
    using r l2 by (auto simp: recordLike_def Let_def o_insertLikeRecord_def split: option.splits if_splits)
  show ?thesis
    by (rule that [OF a t1 c2 c])
       (use b(4) r l3 username_keeps(1) [OF b(1)] username_keeps(2) [OF b(2)] t3(2) t4(2) t5(2) s2_def in
         \<open>auto simp add: Let_def\<close>)
qed

lemmas applyTx_overlay = trk.applyTx_effect [unfolded store_reads]

section \<open>The decoded body\<close>

text \<open>A decoded entry's outputs are those its transaction declares, under its proven id.\<close>
definition decodedUnder :: "hash \<Rightarrow> queuedTx \<Rightarrow> bool" where
  "decodedUnder H q \<longleftrightarrow> materializeOutputs H (outputs (q_tx q)) (q_txId q) = Inr (q_outputs q) \<and>
     computeTxId H (q_tx q) = Inr (q_txId q)"

lemma decodeBodyEntry_ok:
  assumes "decodeBodyEntry H ctx block i isLast h = Inr q"
  shows "decodedUnder H q" "q_txId q = utxoTxIds (ob_utxoTxTree block) ! i"
    "checkShapeAgainst (outputs (q_tx q)) isLast = Inr ()"
    "i < length (utxoTxs (ob_utxoTxTree block)) \<and> decodeTx (utxoTxs (ob_utxoTxTree block) ! i) = Inr (q_tx q)"
  using assms
  by (auto simp: decodeBodyEntry_def Let_def bind_iff decodedUnder_def checkOutputShape_def
      checkSettlementOutputShape_def split: if_splits sum.splits)

lemma decodeBody_ok:
  assumes "decodeBody H ctx block h = Inr (queue, settlement)"
  shows "map q_txId queue = butlast (utxoTxIds (ob_utxoTxTree block))"
    "\<And>q. q \<in> set queue \<Longrightarrow> decodedUnder H q \<and> checkShapeAgainst (outputs (q_tx q)) False = Inr ()"
    "decodedUnder H settlement \<and> checkShapeAgainst (outputs (q_tx settlement)) True = Inr ()"
proof -
  let ?ids = "utxoTxIds (ob_utxoTxTree block)" and ?n = "length (utxoTxIds (ob_utxoTxTree block))"
  obtain items where e: "emap (\<lambda>i. decodeBodyEntry H ctx block i (i + 1 = ?n) h) [0..<?n] = Inr items"
      and ne: "items \<noteq> []" and qs: "queue = butlast items" "settlement = last items"
    using assms by (auto simp: decodeBody_def Let_def bind_iff split: if_splits)
  have l: "length items = ?n" using emap_eq_Inr_length [OF e] by simp
  have it: "decodeBodyEntry H ctx block i (i + 1 = ?n) h = Inr (items ! i)" if "i < ?n" for i
    using emap_eq_Inr_nth [OF e, of i] that by simp
  have "map q_txId items = ?ids"
    by (rule nth_equalityI) (use l decodeBodyEntry_ok(2) [OF it] in simp_all)
  then show "map q_txId queue = butlast ?ids" by (simp add: qs map_butlast)
  show "decodedUnder H q \<and> checkShapeAgainst (outputs (q_tx q)) False = Inr ()" if mem: "q \<in> set queue" for q
  proof -
    obtain i where i: "i < length items - 1" "q = items ! i"
      using mem by (auto simp: qs in_set_conv_nth nth_butlast)
    then have lt: "i < ?n" and nl: "(i + 1 = ?n) = False" using l by auto
    from decodeBodyEntry_ok(1,3) [OF it [OF lt, unfolded nl]] show ?thesis using i by simp
  qed
  have "?n > 0" using ne l by (metis length_greater_0_conv)
  then have lt: "?n - 1 < ?n" and eq: "(?n - 1 + 1 = ?n) = True" by auto
  have "settlement = items ! (?n - 1)" using ne l by (simp add: qs last_conv_nth)
  then show "decodedUnder H settlement \<and> checkShapeAgainst (outputs (q_tx settlement)) True = Inr ()"
    using decodeBodyEntry_ok(1,3) [OF it [OF lt, unfolded eq]] by simp
qed

section \<open>Value\<close>

lemma queuedTx_effect:
  assumes ok: "applyQueuedTx H ctx ver owed h item (acc, s) = Inr (acc', s')"
    and t: "tracks v s" and d: "decodedUnder H item"
  obtains ins s1 where "map (o_getBox s) (inputs (q_tx item)) = map Some ins" "valueSum ins = valueSum (q_outputs item)"
    "validateTx H (utxoDepsOver s ctx ver owed h) (q_tx item) (q_txId item) h = Inr (q_outputs item)"
    "applyTx overlayStore (q_tx item) (q_outputs item) h s = Inr s1" "tracks v s1" "clockOnly v s1 s'" "tracks v s'"
    "o_getBox s' = (\<lambda>i. if i \<in> set (inputs (q_tx item)) then None else o_getBox s i) ++
       map_of (map (\<lambda>b. (boxId b, b)) (q_outputs item))"
    "\<And>f. liveSum f (o_getBox s') = liveSum f (o_getBox s) - sum_list (map f ins) + sum_list (map f (q_outputs item))"
proof -
  obtain outs s1 where a: "validateTx H (utxoDepsOver s ctx ver owed h) (q_tx item) (q_txId item) h = Inr outs"
      "applyTx overlayStore (q_tx item) (q_outputs item) h s = Inr s1" "tracks v s1" "clockOnly v s1 s'"
    by (rule applyQueuedTx_inv [OF ok t]) (rule that; assumption)
  obtain ins where v: "map (o_getBox s) (inputs (q_tx item)) = map Some ins"
      "checkValueConservation ins (outputs (q_tx item)) (likeTarget (q_tx item)) = Inr ()"
      "materializeOutputs H (outputs (q_tx item)) (q_txId item) = Inr outs"
    by (rule validateTx_inv [OF a(1)], rule that) (simp_all add: utxoDepsOver_def)
  have o: "outs = q_outputs item" using v(3) d by (simp add: decodedUnder_def)
  have c: "valueSum ins = valueSum (q_outputs item)"
    using checkValueConservation_ok [OF v(2)] materialize_candidates [OF v(3)] o by (metis valueSum_candidates)
  obtain bs where e: "map (o_getBox s) (inputs (q_tx item)) = map Some bs"
      "o_getBox s1 = (\<lambda>i. if i \<in> set (inputs (q_tx item)) then None else o_getBox s i) ++
       map_of (map (\<lambda>b. (boxId b, b)) (q_outputs item))"
      "\<And>f. liveSum f (o_getBox s1) = liveSum f (o_getBox s) - sum_list (map f bs) + sum_list (map f (q_outputs item))"
    by (rule applyTx_overlay [OF t a(2)], rule that)
  have "map Some bs = map Some ins" using e(1) v(1) by simp
  then have "bs = ins" by (simp add: inj_map_eq_map)
  moreover have "tracks v s'" "o_getBox s' = o_getBox s1" using a(4) by (simp_all add: clockOnly_def)
  ultimately show ?thesis
    using e(2,3) by (intro that [OF v(1) c a(1) [unfolded o] a(2,3,4)]) simp_all
qed

lemma put_keeps:
  assumes "tracks v s"
  shows "tracks v (o_putIdentityRecord k r s)" "o_getBox (o_putIdentityRecord k r s) = o_getBox s"
    "o_getNetworkRecord (o_putIdentityRecord k r s) = o_getNetworkRecord s"
    "o_getIdentityRecord (o_putIdentityRecord k r s) = (o_getIdentityRecord s)(k \<mapsto> r)"
  using tracks_put(1) [OF assms] put_wf(2,3) [OF tracks_wf [OF assms]] reads_cong(3) [of "o_putIdentityRecord k r s" s]
  by (simp_all add: o_putIdentityRecord_def)

lemma grantInvite_inv:
  assumes "grantInvite h (hex, inviter) (acc, s) = Inr (acc', s')"
  obtains k ir r where "hexToBytes hex = Inr k" "o_getIdentityRecord s inviter = Some ir"
    "s' = o_putIdentityRecord k r s"
    "acc' = acc\<lparr>preBlockRecords := AList.update hex None (preBlockRecords acc),
       membershipTouched := List.insert hex (membershipTouched acc)\<rparr>"
    "memberSinceBlock r = (if isRoot ir then h else memberSinceBlock (or_empty (o_getIdentityRecord s k)))"
    "memberBar r = (if isRoot ir then 0 else memberBar (or_empty (o_getIdentityRecord s k)))"
    "memberVouches r = memberVouches (or_empty (o_getIdentityRecord s k))"
  using assms by (auto simp: grantInvite_def bind_iff Let_def split: option.splits)

lemma grant_keeps:
  assumes "tracks v s" "grantInvite h e (acc, s) = Inr (acc', s')"
  shows "tracks v s' \<and> o_getBox s' = o_getBox s \<and> o_getNetworkRecord s' = o_getNetworkRecord s"
proof -
  obtain hex inviter where e: "e = (hex, inviter)" by (cases e)
  obtain k r where "s' = o_putIdentityRecord k r s"
    by (rule grantInvite_inv [OF assms(2) [unfolded e]], rule that)
  then show ?thesis using put_keeps [OF assms(1)] by simp
qed

lemma membershipStep_inv:
  assumes "membershipStep h D Y pre hex (n, s) = Inr (n', s')"
  obtains k where "hexToBytes hex = Inr k" "s' = s \<or> (\<exists>r. s' = o_putIdentityRecord k r s)"
proof -
  obtain k where k: "hexToBytes hex = Inr k" using assms by (auto simp: membershipStep_def bind_iff)
  have "s' = s \<or> (\<exists>r. s' = o_putIdentityRecord k r s)"
    using assms k by (auto simp: membershipStep_def Let_def split: option.splits if_splits)
  with k show ?thesis using that by blast
qed

lemma membershipStep_keeps:
  assumes "tracks v s" "membershipStep h D Y pre hex (n, s) = Inr (n', s')"
  shows "tracks v s' \<and> o_getBox s' = o_getBox s"
proof -
  obtain k where "s' = s \<or> (\<exists>r. s' = o_putIdentityRecord k r s)" by (rule membershipStep_inv [OF assms(2)])
  then show ?thesis using put_keeps [OF assms(1)] assms(1) by auto
qed

lemma grants_keep:
  assumes "tracks v s" "grantInvites h (acc, s) = Inr (acc', s')"
  shows "tracks v s' \<and> o_getBox s' = o_getBox s \<and> o_getNetworkRecord s' = o_getNetworkRecord s"
proof -
  let ?P = "\<lambda>p. tracks v (snd p) \<and> o_getBox (snd p) = o_getBox s \<and> o_getNetworkRecord (snd p) = o_getNetworkRecord s"
  have "?P (acc', s')"
  proof (rule efold_invariant [where P = ?P])
    show "efold (grantInvite h) (map (\<lambda>hex. (hex, the (map_of (invitedThisBlock acc) hex)))
        (sort (map fst (invitedThisBlock acc)))) (acc, s) = Inr (acc', s')"
      using assms(2) by (simp add: grantInvites_def)
    show "?P p'" if "?P p" "grantInvite h e p = Inr p'" for e p p'
      using grant_keeps [of v "snd p" h e "fst p" "fst p'" "snd p'"] that by simp
  qed (simp add: assms(1))
  then show ?thesis by simp
qed

lemma pass_keeps:
  assumes "tracks v s" "membershipPass ctx h acc s = Inr s'"
  shows "tracks v s' \<and> o_getBox s' = o_getBox s"
proof -
  obtain D Y n1 s1 where p: "efold (membershipStep h D Y (preBlockRecords acc))
        (sort (remdups (membershipTouched acc @ map fst (memberLikesPerAuthor acc))))
        (memberCount (o_getNetworkRecord s), s) = Inr (n1, s1)"
      "s' = (if n1 \<noteq> memberCount (o_getNetworkRecord s) then o_putNetworkRecord \<lparr>memberCount = n1\<rparr> s1 else s1)"
    using assms(2) by (auto simp: membershipPass_def Let_def bind_iff)
  let ?P = "\<lambda>p. tracks v (snd p) \<and> o_getBox (snd p) = o_getBox s"
  have "?P (n1, s1)"
  proof (rule efold_invariant [where P = ?P, OF p(1)])
    show "?P p'" if "?P p" "membershipStep h D Y (preBlockRecords acc) e p = Inr p'" for e p p'
      using membershipStep_keeps [of v "snd p" h D Y _ e "fst p" "fst p'" "snd p'"] that by simp
  qed (simp add: assms(1))
  then have k: "tracks v s1" "o_getBox s1 = o_getBox s" by simp_all
  show ?thesis
  proof (cases "n1 = memberCount (o_getNetworkRecord s)")
    case False
    then have "s' = o_putNetworkRecord \<lparr>memberCount = n1\<rparr> s1" using p(2) by simp
    then show ?thesis using tracks_network [OF k(1), of "\<lparr>memberCount = n1\<rparr>"] k(2) by (simp add: o_ledger_def)
  qed (use p(2) k in simp)
qed

section \<open>The block\<close>

lemma checkSettlement_inv:
  assumes "checkSettlement deps h sched em delay body tx = Inr ()"
  obtains d k where "derive deps h em delay body = Inr d" "inputs tx = ds_inputs d"
    "outputs tx = derivedOutputs d @ coinbaseOut h d k"
    "\<And>i. i \<in> set (inputs tx) \<Longrightarrow> s_getBox deps i \<noteq> None" "inputsWorth deps (inputs tx) = valueSum (outputs tx)"
    "signatures tx = []" "likeTarget tx = None" "post tx = None" "postWithdraw tx = None"
proof -
  obtain d where d: "derive deps h em delay body = Inr d" "inputs tx = ds_inputs d"
    "checkDerivedOutputs (outputs tx) (derivedOutputs d) = Inr ()"
    "checkCoinbaseTail h d (drop (length (derivedOutputs d)) (outputs tx)) = Inr ()"
    "sumInputs (s_getBox deps) (inputs tx) = Inr (valueSum (outputs tx))"
    "signatures tx = []" "likeTarget tx = None" "post tx = None" "postWithdraw tx = None"
    using assms by (auto simp: checkSettlement_def bind_iff simp del: ebind_guard)
  obtain tail where t: "outputs tx = derivedOutputs d @ tail" using d(3) by (auto simp: checkDerivedOutputs_ok)
  obtain k where k: "tail = coinbaseOut h d k" using d(4) t by (auto simp: checkCoinbaseTail_ok)
  show ?thesis
    by (rule that [OF d(1,2) t [unfolded k] _ _ d(6-9)]) (use d(5) in \<open>auto simp: sumInputs_ok inputsWorth_def\<close>)
qed

lemma depsAtSettlement_getBox [simp]: "s_getBox (depsAtSettlement ctx c s) = o_getBox s"
  by (simp add: depsAtSettlement_def settlementDepsWith_def overlayReads_def)

text \<open>The stages of an accepted block.\<close>
lemma applyBlock_inv:
  assumes "applyBlock H v block ctx = Inr eff"
  obtains queue settlement keys c acc s0 s1 s2 acc3 s3 acc4 s4 where
    "decodeBody H ctx block (h_height (header block)) = Inr (queue, settlement)"
    "verifiedSignaturesOf (verifyBatch ctx) queue = Inr (Some keys)"
    "\<And>q. q \<in> set queue \<Longrightarrow> length (signatures (q_tx q)) \<le> length (inputs (q_tx q))" "\<not> overBudget queue"
    "s0 = recordPosts (postsOf H block) (h_height (header block)) (newOverlay v)"
    "preBodyCaptures s0 ctx (h_height (header block)) queue = Inr c"
    "efold (applyQueuedTx H ctx keys (ca_preBodyOwed c) (h_height (header block))) queue (newTxApplyAcc, s0) = Inr (acc, s1)"
    "efold (applyBlockWithdrawal (h_height (header block))) (withdrawalsOf (o_getTopologyAuthor s1) block) s1 = Inr s2"
    "checkAndApplySettlement ctx (h_height (header block)) c
       (settlementBodyOf acc (butlast (utxoTxIds (ob_utxoTxTree block))) (validatorId (header block)))
       settlement (acc, s2) = Inr (acc3, s3)"
    "closeBlock ctx (h_height (header block)) (ca_plans c) (acc3, s3) = Inr (acc4, s4)"
    "eff = effectsOf (postsOf H block) queue (acc4, s4)"
proof -
  have rj: "reject m = Inr x \<longleftrightarrow> m = Inr x" for m :: "refusal + 'c" and x by (cases m) (simp_all add: reject_def)
  let ?h = "h_height (header block)"
  let ?s0 = "recordPosts (postsOf H block) ?h (newOverlay v)"
  obtain queue settlement keys acc4 s4 where a:
    "decodeBody H ctx block ?h = Inr (queue, settlement)"
    "verifiedSignaturesOf (verifyBatch ctx) queue = Inr (Some keys)"
    "\<forall>q\<in>set queue. overSignedReason (q_tx q) = Inr ()" "\<not> overBudget queue"
    "applyBody H ctx block queue settlement keys ?s0 = Inr (acc4, s4)"
    "eff = effectsOf (postsOf H block) queue (acc4, s4)"
    using assms by (auto simp: applyBlock_def Let_def bind_iff rj split: if_splits option.splits)
  obtain c acc s1 s2 acc3 s3 where b:
    "preBodyCaptures ?s0 ctx ?h queue = Inr c"
    "efold (applyQueuedTx H ctx keys (ca_preBodyOwed c) ?h) queue (newTxApplyAcc, ?s0) = Inr (acc, s1)"
    "efold (applyBlockWithdrawal ?h) (withdrawalsOf (o_getTopologyAuthor s1) block) s1 = Inr s2"
    "checkAndApplySettlement ctx ?h c
       (settlementBodyOf acc (butlast (utxoTxIds (ob_utxoTxTree block))) (validatorId (header block)))
       settlement (acc, s2) = Inr (acc3, s3)"
    "closeBlock ctx ?h (ca_plans c) (acc3, s3) = Inr (acc4, s4)"
    using a(5) by (auto simp: applyBody_def Let_def bind_iff)
  have "length (signatures (q_tx q)) \<le> length (inputs (q_tx q))" if "q \<in> set queue" for q
    using a(3) that by (auto simp: overSignedReason_def)
  from that [OF a(1,2) this a(4) refl b a(6)] show ?thesis by blast
qed

lemma settlement_effect:
  assumes "checkAndApplySettlement ctx h c body settlement (acc, s) = Inr (acc', s')" "tracks v s"
    "decodedUnder H settlement"
  obtains "checkSettlement (depsAtSettlement ctx c s) h (cx_protocolVersionSchedule ctx)
       (computeBlockReward h (cx_creditFixedRateBlocks ctx) (creditEpochBlocks ctx))
       (creditMinerRewardDelay ctx) body (q_tx settlement) = Inr ()"
    "applyTx overlayStore (q_tx settlement) (q_outputs settlement) h s = Inr s'"
    "acc' = fold (touchBox s) (ca_lapsed c) acc" "tracks v s'"
    "liveSum boxValue (o_getBox s') = liveSum boxValue (o_getBox s)"
proof -
  let ?deps = "depsAtSettlement ctx c s"
  have c: "checkSettlement ?deps h (cx_protocolVersionSchedule ctx)
       (computeBlockReward h (cx_creditFixedRateBlocks ctx) (creditEpochBlocks ctx))
       (creditMinerRewardDelay ctx) body (q_tx settlement) = Inr ()"
    and a: "applyTx overlayStore (q_tx settlement) (q_outputs settlement) h s = Inr s'"
    and acc: "acc' = fold (touchBox s) (ca_lapsed c) acc"
    using assms(1) by (auto simp: checkAndApplySettlement_def bind_iff Let_def)
  have w: "inputsWorth ?deps (inputs (q_tx settlement)) = valueSum (outputs (q_tx settlement))"
    by (rule checkSettlement_inv [OF c])
  obtain bs where e: "map (o_getBox s) (inputs (q_tx settlement)) = map Some bs" "tracks v s'"
      "\<And>f. liveSum f (o_getBox s') = liveSum f (o_getBox s) - sum_list (map f bs) + sum_list (map f (q_outputs settlement))"
    by (rule applyTx_overlay [OF assms(2) a], rule that)
  have "map (the \<circ> o_getBox s) (inputs (q_tx settlement)) = bs"
    using arg_cong [OF e(1), of "map the"] by simp
  then have "sum_list (map boxValue bs) = inputsWorth ?deps (inputs (q_tx settlement))"
    by (auto simp: inputsWorth_def comp_def)
  moreover have "valueSum (outputs (q_tx settlement)) = valueSum (q_outputs settlement)"
    using materialize_candidates [of H "outputs (q_tx settlement)" "q_txId settlement"] assms(3)
    by (metis decodedUnder_def valueSum_candidates)
  ultimately have "liveSum boxValue (o_getBox s') = liveSum boxValue (o_getBox s)"
    using e(3) [of boxValue] w by (simp add: valueSum_def)
  then show ?thesis using that c a acc e(2) by blast
qed

lemma closeBlock_inv:
  assumes "closeBlock ctx h plans (acc, s) = Inr (acc', s')" "tracks v s"
  obtains s1 s2 s3 where "grantInvites h (acc, s) = Inr (acc', s1)" "clockOnly v s1 s2"
    "membershipPass ctx h acc' s2 = Inr s3" "clockOnly v s3 s'" "o_getBox s' = o_getBox s"
    "tracks v s1" "tracks v s2" "tracks v s3" "tracks v s'"
    "likeRecords s' = likeRecords s3" "countLikes acc' s1 = Inr s2" "s' = commitDecayClocks plans s3"
proof -
  obtain s1 s2 s3 where c: "grantInvites h (acc, s) = Inr (acc', s1)" "countLikes acc' s1 = Inr s2"
      "membershipPass ctx h acc' s2 = Inr s3" "s' = commitDecayClocks plans s3"
    using assms(1) by (auto simp: closeBlock_def bind_iff)
  have 1: "tracks v s1 \<and> o_getBox s1 = o_getBox s" using grants_keep [OF assms(2) c(1)] by simp
  then have 2: "clockOnly v s1 s2" using clock_likes c(2) by blast
  then have t2: "tracks v s2" "o_getBox s2 = o_getBox s1" by (simp_all add: clockOnly_def)
  have 3: "tracks v s3 \<and> o_getBox s3 = o_getBox s2" by (rule pass_keeps [OF t2(1) c(3)])
  have 4: "clockOnly v s3 s'" unfolding c(4) by (rule clock_commits) (use 3 in simp)
  have "likeRecords (commitDecayClocks ps t) = likeRecords t" for ps t
    unfolding commitDecayClocks_def
    by (induction ps arbitrary: t) (simp_all add: commitClock_def o_putIdentityRecord_def)
  then show ?thesis using 1 2 3 4 t2 c by (intro that [OF c(1) 2 c(3) 4]) (simp_all add: clockOnly_def)
qed

end
