(* ===== verification/ChainSample.thy ===== *)
theory ChainSample
  imports ApplyLaws Samples
begin

text \<open>
  A block that \<open>applyBlock\<close> accepts, on which the properties of a block are
  evaluated: a member likes a post of another, and the settlement mints the reward
  and carries the like's marker.  Each stage is evaluated on its own; the decoding
  goes through the laws of the transaction codec.
\<close>

section \<open>The state and the body\<close>

definition chainH :: hash where
  "chainH bs = last bs # word_of_nat (length bs) # replicate 62 0"

definition likerBox :: anyBox where "likerBox = snd (mkBox (CHR ''a'') 40 (Karma kA False))"
definition emissionBox :: anyBox where "emissionBox = snd (mkBox (CHR ''b'') 5000000000 Emission)"
definition poolBox :: anyBox where "poolBox = snd (mkBox (CHR ''c'') 500 KarmaPool)"
definition vouchBox :: anyBox where "vouchBox = snd (mkBox (CHR ''d'') 1 (Vouch kB kA))"
definition chainBoxes :: "anyBox list" where "chainBoxes = [likerBox, emissionBox, poolBox, vouchBox]"

definition chainRecord :: "int \<Rightarrow> int \<Rightarrow> identityRecord" where
  "chainRecord since bar = EMPTY_IDENTITY_RECORD\<lparr>memberSinceBlock := since, memberBar := bar, memberVouches := bar\<rparr>"

definition chainView :: stateView where
  "chainView = (listView [])
     \<lparr>v_getBox := map_of (map (\<lambda>b. (boxId b, b)) chainBoxes),
      v_getEmissionBox := Some (emissionBox), v_getKarmaPoolBox := Some (poolBox),
      v_getKarmaBoxes := (\<lambda>k. if k = kA then [likerBox] else []),
      v_getVouchEscrowsFor := (\<lambda>k. []), v_getLikeAccrualBoxes := (\<lambda>k. []),
      v_getVouchBoxes := (\<lambda>v g. if v = kB \<and> g = kA then [vouchBox] else []),
      v_getIdentityRecord := [kA \<mapsto> chainRecord 2 1, kB \<mapsto> chainRecord 1 0],
      v_getNetworkRecord := \<lparr>memberCount = 2\<rparr>,
      v_getTopologyAuthor := [idOf (CHR ''e'') \<mapsto> kB], v_getTopologyHeight := [idOf (CHR ''e'') \<mapsto> 3],
      v_getPostStanding := (\<lambda>p. if p = idOf (CHR ''e'') then Live else NoPost)\<rparr>"

definition chainCtx :: applyContext where
  "chainCtx = \<lparr>cx_protocolVersionSchedule = [\<lparr>era_version = 1, era_fromHeight = 0\<rparr>], cx_vouchCooldownBlocks = 7,
     cx_inviteBondMin = 5, cx_inviteBondMax = 20, inviteProbationBlocks = 100, cx_decayCfg = decayCfgFor 1000 100,
     cx_storageRentPeriodBlocks = 30, cx_membershipBarMultiplier = 1, cx_backerSupply = 0,
     cx_creditFixedRateBlocks = 50, creditEpochBlocks = 100, creditMinerRewardDelay = 720,
     verifyBatch = (\<lambda>es. length es = 1)\<rparr>"

definition likeId :: string where "likeId = bytesToHex (0 # 158 # replicate 30 0)"
definition likeOut0 :: string where "likeOut0 = bytesToHex (0 # 87 # replicate 30 0)"
definition likeOut1 :: string where "likeOut1 = bytesToHex (1 # 86 # replicate 30 0)"

definition likeKarma :: anyBox where
  "likeKarma = \<lparr>boxValue = 39, createdAtBlock = 5, boxTail = Karma kA False,
     boxId = likeOut0, boxTxId = likeId, boxIndex = 0\<rparr>"
definition likeMarker :: anyBox where
  "likeMarker = \<lparr>boxValue = 1, createdAtBlock = 5, boxTail = LikeAccrual kB,
     boxId = likeOut1, boxTxId = likeId, boxIndex = 1\<rparr>"
definition likeOuts :: "anyBox list" where "likeOuts = [likeKarma, likeMarker]"

definition likeQueued :: queuedTx where
  "likeQueued = \<lparr>q_txId = likeId, q_tx = likeTx, q_outputs = likeOuts\<rparr>"

definition mintTx :: utxoTransaction where
  "mintTx = \<lparr>inputs = [idOf (CHR ''b''), likeOut1],
     outputs = [mkOut 1675000000 Emission, mkOut 210000000 Treasury, mkOut 1 (LikeAccrual kB),
       mkOut 3115000000 (Credit kC (Some 725))],
     signatures = [], protocolVersion = 1, likeTarget = None, post = None, postWithdraw = None\<rparr>"

definition mintId :: string where "mintId = bytesToHex (0 # 177 # replicate 30 0)"

definition mintBox :: "int \<Rightarrow> boxTail \<Rightarrow> byte \<Rightarrow> byte \<Rightarrow> anyBox" where
  "mintBox v t i b = \<lparr>boxValue = v, createdAtBlock = 5, boxTail = t,
     boxId = bytesToHex (i # b # replicate 30 0), boxTxId = mintId, boxIndex = uint i\<rparr>"

definition mintOuts :: "anyBox list" where
  "mintOuts = [mintBox 1675000000 Emission 0 58, mintBox 210000000 Treasury 1 57,
     mintBox 1 (LikeAccrual kB) 2 86, mintBox 3115000000 (Credit kC (Some 725)) 3 93]"

definition mintQueued :: queuedTx where
  "mintQueued = \<lparr>q_txId = mintId, q_tx = mintTx, q_outputs = mintOuts\<rparr>"

definition likeRaw :: "byte list" where "likeRaw = projr (encodeTx likeTx)"
definition mintRaw :: "byte list" where "mintRaw = projr (encodeTx mintTx)"

definition chainHeader :: blockHeader where
  "chainHeader = \<lparr>h_protocolVersion = 1, h_height = 5, prevBlockHash = bytesToHex kA, utxoTxRoot = bytesToHex kA,
     stateRoot = bytesToHex (0 # kA), validatorId = kC, powNonce = 0, powTargetBits = 0, createdAt = 0,
     h_interlinkRoot = bytesToHex kA, adProofsRoot = bytesToHex kA\<rparr>"

definition chainBlock :: orderingBlock where
  "chainBlock = \<lparr>header = chainHeader,
     ob_utxoTxTree = \<lparr>utxoTxIds = [likeId, mintId], utxoTxs = [likeRaw, mintRaw]\<rparr>, validatorSignature = []\<rparr>"

section \<open>Decoding\<close>

lemma like_id: "computeTxId chainH likeTx = Inr likeId" by code_simp
lemma like_materialized: "materializeOutputs chainH (outputs likeTx) likeId = Inr likeOuts" by code_simp
lemma mint_id: "computeTxId chainH mintTx = Inr mintId" by code_simp
lemma mint_materialized: "materializeOutputs chainH (outputs mintTx) mintId = Inr mintOuts" by code_simp

lemma encodes: "is_ok (encodeTx likeTx)" "is_ok (encodeTx mintTx)" by code_simp+

lemma raw_eq: "encodeTx likeTx = Inr likeRaw" "encodeTx mintTx = Inr mintRaw"
  using ok_result [OF encodes(1)] ok_result [OF encodes(2)] by (auto simp: likeRaw_def mintRaw_def)

lemma like_dom: "signed_dom likeTx"
  by (simp add: signed_dom_def tx_dom_def candidate_dom_def likeTx_def mkTx_def mkOut_def MAX_ARRAY_LENGTH_def
      isEncodableVlqU_iff MAX_SAFE_INTEGER_def)

lemma mint_dom: "signed_dom mintTx"
  by (simp add: signed_dom_def tx_dom_def candidate_dom_def mintTx_def mkOut_def MAX_ARRAY_LENGTH_def
      isEncodableVlqU_iff MAX_SAFE_INTEGER_def)

lemma decodes: "decodeTx likeRaw = Inr likeTx" "decodeTx mintRaw = Inr mintTx"
  using tx_codec.decode_encode [OF like_dom] tx_codec.decode_encode [OF mint_dom] raw_eq
  by (simp_all add: encodeTx_def decodeTx_def)

lemma envelopes:
  "checkTxEnvelope likeTx 5 (cx_protocolVersionSchedule chainCtx) = Inr ()"
  "checkTxEnvelope mintTx 5 (cx_protocolVersionSchedule chainCtx) = Inr ()"
  "checkOutputShape (outputs likeTx) = Inr ()" "checkSettlementOutputShape (outputs mintTx) = Inr ()"
  by code_simp+

lemma chain_decodes: "decodeBody chainH chainCtx chainBlock 5 = Inr ([likeQueued], mintQueued)"
proof -
  have 1: "decodeBodyEntry chainH chainCtx chainBlock 0 False 5 = Inr likeQueued"
    by (simp add: decodeBodyEntry_def chainBlock_def decodes envelopes like_id like_materialized likeQueued_def orThrow_def)
  have 2: "decodeBodyEntry chainH chainCtx chainBlock (Suc 0) True 5 = Inr mintQueued"
    by (simp add: decodeBodyEntry_def chainBlock_def decodes envelopes mint_id mint_materialized mintQueued_def orThrow_def)
  have "[0..<2] = [0, Suc 0]" by (simp add: upt_rec numeral_2_eq_2)
  then show ?thesis
    using 1 2 by (simp add: decodeBody_def Let_def) (simp add: chainBlock_def numeral_2_eq_2)
qed

lemma chain_no_posts: "postsOf chainH chainBlock = []" "withdrawalsOf f chainBlock = []"
  by (simp_all add: postsOf_def withdrawalsOf_def bodyEntries_def chainBlock_def decodes List.map_filter_def)
    (simp_all add: likeTx_def mintTx_def mkTx_def)

section \<open>The like\<close>

abbreviation "fresh \<equiv> newOverlay chainView"

definition chainCaptures :: captures where
  "chainCaptures = \<lparr>ca_escrows = [], ca_lapsed = [], ca_backerPool = None, ca_spent = [idOf (CHR ''a'')],
     ca_preBodyOwed = [(bytesToHex kA, 0)], ca_plans = []\<rparr>"

lemma chain_captures: "preBodyCaptures fresh chainCtx 5 [likeQueued] = Inr chainCaptures" by code_simp

lemma like_validates:
  "is_ok (validateTx chainH (utxoDepsOver fresh chainCtx (verifiedKeys [likeQueued]) (ca_preBodyOwed chainCaptures) 5)
     likeTx likeId 5)" by code_simp

lemma unguarded: "firstRefusal [(False, m)] = Inr ()"
  by simp

lemma like_recorded: "likeToRecord fresh likeQueued = Inr (Some (idOf (CHR ''e''), kA, bytesToHex kB))" by code_simp

definition afterLike :: overlay where
  "afterLike = fresh\<lparr>spent := [(idOf (CHR ''a''), likerBox)],
     inserted := map (\<lambda>b. (boxId b, b)) likeOuts,
     mutations := BoxRemove (idOf (CHR ''a'')) # map (\<lambda>b. BoxInsert (boxId b) b) likeOuts,
     likes := [likeKey (idOf (CHR ''e'')) kA], likeRecords := [(idOf (CHR ''e''), kA)]\<rparr>"

definition likeAcc :: txApplyAcc where
  "likeAcc = newTxApplyAcc\<lparr>likesPerAuthor := [(bytesToHex kB, 1)], memberLikesPerAuthor := [(bytesToHex kB, 1)],
     perTxOutputs := [(likeId, likeOuts)], appliedTxs := [\<lparr>e_tx = likeTx, e_inputBoxes = [likerBox]\<rparr>],
     appliedTxBytes := [(likeId, likeRaw)]\<rparr>"

lemma ids: "v_getBox chainView (idOf (CHR ''a'')) = Some likerBox" "v_getBox chainView likeOut0 = None"
  "v_getBox chainView likeOut1 = None" "idOf (CHR ''a'') \<noteq> likeOut0" "idOf (CHR ''a'') \<noteq> likeOut1" "likeOut0 \<noteq> likeOut1"
  by code_simp+

lemma like_inputs: "inputs likeTx = [idOf (CHR ''a'')]" "post likeTx = None"
  by (simp_all add: likeTx_def mkTx_def)

lemma liker_box: "boxTail likerBox = Karma kA False" "boxId likerBox = idOf (CHR ''a'')"
  by (simp_all add: likerBox_def mkBox_def)

lemma like_applies: "applyTx overlayStore likeTx likeOuts 5 fresh =
    Inr (afterLike\<lparr>likes := [], likeRecords := []\<rparr>)"
  using ids by (simp add: applyTx_def like_inputs applyInput_def adjustFor_def applyOutput_def countInvite_def likeOuts_def likeKarma_def likeMarker_def
      o_getBox_def o_consumeBox_def o_insertBox_def newOverlay_def liker_box afterLike_def)

lemma fresh_records: "o_getIdentityRecord (afterLike\<lparr>likes := l, likeRecords := r\<rparr>) kA = Some (chainRecord 2 1)"
  by (simp add: afterLike_def newOverlay_def o_getIdentityRecord_def chainView_def kA_def kB_def)

lemma like_step: "applyQueuedTx chainH chainCtx (verifiedKeys [likeQueued]) (ca_preBodyOwed chainCaptures) 5 likeQueued
    (newTxApplyAcc, fresh) = Inr (likeAcc, afterLike)"
proof -
  obtain outs where v: "validateTx chainH (utxoDepsOver fresh chainCtx (verifiedKeys [likeQueued])
      (ca_preBodyOwed chainCaptures) 5) likeTx likeId 5 = Inr outs" using ok_result [OF like_validates] by blast
  have g: "o_getBox fresh (idOf (CHR ''a'')) = Some likerBox" using ids by (simp add: o_getBox_def newOverlay_def)
  have i: "noteInvite likeQueued newTxApplyAcc = Inr newTxApplyAcc" by code_simp
  have n: "noteTx fresh likeQueued newTxApplyAcc = newTxApplyAcc\<lparr>perTxOutputs := [(likeId, likeOuts)],
      appliedTxs := [\<lparr>e_tx = likeTx, e_inputBoxes = [likerBox]\<rparr>]\<rparr>"
    by (simp add: noteTx_def likeQueued_def like_inputs g List.map_filter_def touchBox_def liker_box likeOuts_def likeKarma_def likeMarker_def
        isCreditSideTx_def newTxApplyAcc_def) (simp add: likeTx_def mkTx_def mkOut_def)
  have u: "List.find (\<lambda>b. boxTypeOf b = BT_username) [likerBox] = None" "List.find (\<lambda>b. boxTypeOf b = BT_username) likeOuts = None"
    by (simp_all add: liker_box likeOuts_def likeKarma_def likeMarker_def)
  have m: "isMember (chainRecord 2 1)" by (simp add: isMember_def chainRecord_def)
  show ?thesis
    using v g i n u m
    by (simp add: applyQueuedTx_def likeQueued_def like_inputs like_recorded [unfolded likeQueued_def] like_applies
        orThrow_def recordLike_def o_insertLikeRecord_def fresh_records List.map_filter_def claimUsername_def
        burnUsername_def raw_eq Let_def unguarded)
       (simp add: likeAcc_def afterLike_def bump_def newTxApplyAcc_def newOverlay_def)
qed

section \<open>The settlement and the close\<close>

definition mintDerived :: derivedSettlement where
  "mintDerived = \<lparr>ds_inputs = inputs mintTx,
     derivedOutputs = [mkOut 1675000000 Emission, mkOut 210000000 Treasury, mkOut 1 (LikeAccrual kB)],
     minerSlice = 3115000000, lockedUntilBlock = 725\<rparr>"

definition chainBody :: settlementBody where
  "chainBody = emptyBody\<lparr>sb_actors := 1, markers := [\<lparr>marker_id = likeOut1, marker_author = kB, marker_value = 1\<rparr>]\<rparr>"

lemma chain_body: "settlementBodyOf likeAcc [likeId] kC = chainBody" by code_simp

lemma chain_derived: "derive (depsAtSettlement chainCtx chainCaptures afterLike) 5
    (computeBlockReward 5 (cx_creditFixedRateBlocks chainCtx) (creditEpochBlocks chainCtx))
    (creditMinerRewardDelay chainCtx) chainBody = Inr mintDerived" by code_simp

lemma mint_live: "o_getBox afterLike (idOf (CHR ''b'')) = Some emissionBox"
    "o_getBox afterLike likeOut1 = Some (likeMarker)" "idOf (CHR ''b'') \<noteq> likeOut1"
  by code_simp+

lemma mint_checks: "checkSettlement (depsAtSettlement chainCtx chainCaptures afterLike) 5 (cx_protocolVersionSchedule chainCtx)
    (computeBlockReward 5 (cx_creditFixedRateBlocks chainCtx) (creditEpochBlocks chainCtx))
    (creditMinerRewardDelay chainCtx) chainBody mintTx = Inr ()"
proof -
  have o: "outputs mintTx = derivedOutputs mintDerived @ coinbaseOut 5 mintDerived kC"
    by (simp add: mintTx_def mintDerived_def coinbaseOut_def mkOut_def)
  have "checkDerivedOutputs (outputs mintTx) (derivedOutputs mintDerived) = Inr ()"
    using o by (auto simp: checkDerivedOutputs_ok)
  moreover have "checkCoinbaseTail 5 mintDerived (drop (length (derivedOutputs mintDerived)) (outputs mintTx)) = Inr ()"
    using o by (auto simp: checkCoinbaseTail_ok mintDerived_def)
  moreover have "sumInputs (o_getBox afterLike) (inputs mintTx) = Inr (valueSum (outputs mintTx))"
    using mint_live by (simp add: sumInputs_ok mintTx_def mkOut_def valueSum_def likeMarker_def) (simp add: emissionBox_def mkBox_def)
  moreover have "verifyProtocolVersion (protocolVersion mintTx) 5 (cx_protocolVersionSchedule chainCtx)" by code_simp
  ultimately show ?thesis
    by (simp add: checkSettlement_def chain_derived bind_iff) (simp add: mintDerived_def mintTx_def)
qed

definition afterMint :: overlay where
  "afterMint = afterLike\<lparr>spent := spent afterLike @ [(idOf (CHR ''b''), emissionBox), (likeOut1, likeMarker)],
     inserted := inserted afterLike @ map (\<lambda>b. (boxId b, b)) mintOuts,
     mutations := mutations afterLike @ [BoxRemove (idOf (CHR ''b'')), BoxRemove likeOut1] @
       map (\<lambda>b. BoxInsert (boxId b) b) mintOuts\<rparr>"

lemma mint_fresh:
  "list_all (\<lambda>b. v_getBox chainView (boxId b) = None \<and> boxId b \<notin> {likeOut0, likeOut1}) mintOuts"
  "distinct (map boxId mintOuts)"
  by code_simp+

lemma chain_spent: "map fst (spent afterLike) = [idOf (CHR ''a'')]" "map fst (inserted afterLike) = [likeOut0, likeOut1]"
  "view afterLike = chainView"
  by (simp_all add: afterLike_def likeOuts_def likeKarma_def likeMarker_def newOverlay_def)

text \<open>Inserting boxes under fresh distinct ids that no step but the insertion writes.\<close>
lemma applyOutputs_fresh:
  assumes "list_all (\<lambda>b. v_getBox (view s) (boxId b) = None \<and> boxId b \<notin> fst ` set (inserted s) \<and>
      \<not> (\<exists>a c. boxTail b = Vouch a c) \<and> \<not> (\<exists>a c. boxTail b = Bond a c)) bs" "distinct (map boxId bs)"
  shows "efold (applyOutput overlayStore) bs s = Inr (s\<lparr>inserted := inserted s @ map (\<lambda>b. (boxId b, b)) bs,
      mutations := mutations s @ map (\<lambda>b. BoxInsert (boxId b) b) bs\<rparr>)"
  using assms
proof (induction bs arbitrary: s)
  case (Cons b bs)
  let ?s = "s\<lparr>inserted := inserted s @ [(boxId b, b)], mutations := mutations s @ [BoxInsert (boxId b) b]\<rparr>"
  have nb: "\<forall>x\<in>set bs. boxId x \<noteq> boxId b"
    using Cons.prems(2) by (metis distinct.simps(2) image_eqI list.simps(9) list.set_map)
  have "o_insertBox b s = Inr ?s"
    using Cons.prems by (simp add: o_insertBox_def map_of_eq_None_iff)
  then have "applyOutput overlayStore b s = Inr ?s"
    using Cons.prems by (auto simp: applyOutput_def adjustFor_def countInvite_def split: boxTail.splits)
  moreover have "efold (applyOutput overlayStore) bs ?s = Inr (?s\<lparr>inserted := inserted ?s @ map (\<lambda>b. (boxId b, b)) bs,
      mutations := mutations ?s @ map (\<lambda>b. BoxInsert (boxId b) b) bs\<rparr>)"
    using Cons.prems nb by (intro Cons.IH) (auto simp: list_all_iff)
  ultimately show ?case by simp
qed simp

lemma mint_applies: "applyTx overlayStore mintTx mintOuts 5 afterLike = Inr afterMint"
proof -
  let ?s = "afterLike\<lparr>spent := spent afterLike @ [(idOf (CHR ''b''), emissionBox), (likeOut1, likeMarker)],
     mutations := mutations afterLike @ [BoxRemove (idOf (CHR ''b'')), BoxRemove likeOut1]\<rparr>"
  have c: "o_consumeBox i s = Inr (s\<lparr>spent := spent s @ [(i, b)], mutations := mutations s @ [BoxRemove i]\<rparr>)"
    if "o_getBox s i = Some b" for i b and s :: overlay
    using that by (auto simp: o_consumeBox_def o_getBox_def split: option.splits if_splits)
  have t: "boxTail emissionBox = Emission" "boxTail (likeMarker) = LikeAccrual kB"
    by (simp_all add: emissionBox_def mkBox_def likeMarker_def)
  have l: "o_getBox (afterLike\<lparr>spent := spent afterLike @ [(idOf (CHR ''b''), emissionBox)], mutations := m\<rparr>) likeOut1 =
      Some (likeMarker)" for m
    using mint_live by (auto simp: o_getBox_def split: if_splits option.splits)
  have i: "inputs mintTx = [idOf (CHR ''b''), likeOut1]" by (simp add: mintTx_def)
  have "efold (applyInput overlayStore 5) (inputs mintTx) afterLike = Inr ?s"
    using c [OF mint_live(1)] c [OF l] by (simp add: i applyInput_def mint_live(1) l adjustFor_def t)
  moreover have "efold (applyOutput overlayStore) mintOuts ?s = Inr afterMint"
  proof -
    have "fst ` set (inserted afterLike) = {likeOut0, likeOut1}"
      using arg_cong [OF chain_spent(2), of set] by simp
    moreover have "list_all (\<lambda>b. \<not> (\<exists>a c. boxTail b = Vouch a c) \<and> \<not> (\<exists>a c. boxTail b = Bond a c)) mintOuts"
      by (simp add: mintOuts_def mintBox_def)
    ultimately have "list_all (\<lambda>b. v_getBox (view ?s) (boxId b) = None \<and> boxId b \<notin> fst ` set (inserted ?s) \<and>
      \<not> (\<exists>a c. boxTail b = Vouch a c) \<and> \<not> (\<exists>a c. boxTail b = Bond a c)) mintOuts"
      using mint_fresh(1) by (simp add: chain_spent list_all_iff)
    from applyOutputs_fresh [OF this mint_fresh(2)] show ?thesis by (simp add: afterMint_def)
  qed
  ultimately show ?thesis by (simp add: applyTx_def)
qed

lemma hexToBytes_iff: "hexToBytes s = Inr bs \<longleftrightarrow> s = bytesToHex bs"
  by (auto simp: hexToBytes_def hexToBytesExact_iff bytesToHex_length hexToBytesExact_def
      hexPairs_bytesToHex split: option.splits if_splits dest: hexPairs_inverse)

lemma hexToBytes_bytesToHex [simp]: "hexToBytes (bytesToHex bs) = Inr bs"
  by (simp add: hexToBytes_iff)

definition afterBlock5 :: overlay where
  "afterBlock5 = o_putIdentityRecord kB ((chainRecord 1 0)\<lparr>lifetimeLikesReceived := 1, memberLikes := 1\<rparr>) afterMint"

lemma chain_closes: "closeBlock chainCtx 5 [] (likeAcc, afterMint) = Inr (likeAcc, afterBlock5)"
proof -
  let ?r = "(chainRecord 1 0)\<lparr>lifetimeLikesReceived := 1, memberLikes := 1\<rparr>"
  have r: "o_getIdentityRecord afterMint kB = Some (chainRecord 1 0)"
    by (simp add: o_getIdentityRecord_def afterMint_def afterLike_def newOverlay_def chainView_def kA_def kB_def)
  have e: "lifetimeLikesReceived (chainRecord 1 0) = 0" "memberLikes (chainRecord 1 0) = 0"
    by (simp_all add: chainRecord_def EMPTY_IDENTITY_RECORD_def)
  have l: "likesPerAuthor likeAcc = [(bytesToHex kB, 1)]" "memberLikesPerAuthor likeAcc = [(bytesToHex kB, 1)]"
    "invitedThisBlock likeAcc = []" "membershipTouched likeAcc = []" "preBlockRecords likeAcc = []"
    by (simp_all add: likeAcc_def newTxApplyAcc_def)
  have n: "countLikes likeAcc afterMint = Inr (o_putIdentityRecord kB ?r afterMint)"
    by (simp add: countLikes_def countLike_def l r e or_empty_def Let_def)
  have g: "o_getIdentityRecord (o_putIdentityRecord kB ?r afterMint) kB = Some ?r"
    "memberCount (o_getNetworkRecord (o_putIdentityRecord kB ?r afterMint)) = 2"
    by (simp_all add: o_getIdentityRecord_def o_putIdentityRecord_def o_getNetworkRecord_def update_conv afterMint_def
        afterLike_def newOverlay_def chainView_def)
  have b: "membershipBar 2 1 = Inr 1" "memberLikesBar 2 1 = Inr MEMBER_LIKES_MULTIPLIER"
    by (simp_all add: memberLikesBar_def membershipBar_def MAX_SAFE_INTEGER_def icbrt_def icbrt_loop.simps Let_def)
  have s: "memberSinceBlock ?r = 1" "memberBar ?r = 0" "isMember ?r"
    by (simp_all add: chainRecord_def EMPTY_IDENTITY_RECORD_def isMember_def)
  have "cx_membershipBarMultiplier chainCtx = 1" by (simp add: chainCtx_def)
  then show ?thesis
    using n by (simp add: closeBlock_def grantInvites_def l membershipPass_def g b membershipStep_def s Let_def afterBlock5_def commitDecayClocks_def)
qed

section \<open>The block\<close>

definition chainEffects :: blockEffects where
  "chainEffects = effectsOf [] [likeQueued] (likeAcc, afterBlock5)"

lemma chain_block_effects: "applyBlock chainH chainView chainBlock chainCtx = Inr chainEffects"
proof -
  have h: "h_height (header chainBlock) = 5" "validatorId (header chainBlock) = kC"
    "utxoTxIds (ob_utxoTxTree chainBlock) = [likeId, mintId]"
    by (simp_all add: chainBlock_def chainHeader_def)
  have f: "recordPosts [] 5 fresh = fresh" by (simp add: recordPosts_def)
  have st: "checkAndApplySettlement chainCtx 5 chainCaptures chainBody mintQueued (likeAcc, afterLike) = Inr (likeAcc, afterMint)"
    using mint_checks mint_applies
    by (simp add: checkAndApplySettlement_def mintQueued_def orThrow_def chainCaptures_def)
  have body: "applyBody chainH chainCtx chainBlock [likeQueued] mintQueued (verifiedKeys [likeQueued]) fresh = Inr (likeAcc, afterBlock5)"
    using st chain_closes like_step
    by (simp add: applyBody_def h chain_captures chain_no_posts chain_body orThrow_def)
       (simp add: chainCaptures_def)
  have sig: "verifiedSignaturesOf (verifyBatch chainCtx) [likeQueued] = Inr (Some (verifiedKeys [likeQueued]))" by code_simp
  have "echeck (\<lambda>q. overSignedReason (q_tx q)) [likeQueued] = Inr ()" "\<not> overBudget [likeQueued]" by code_simp+
  then show ?thesis
    using body sig by (simp add: applyBlock_def h chain_decodes chain_no_posts f reject_def orThrow_def chainEffects_def)
qed

lemma chain_block_accepted: "\<exists>eff. applyBlock chainH chainView chainBlock chainCtx = Inr eff"
  using chain_block_effects by blast

lemma chain_view_ok: "view_ok chainView"
proof -
  have l: "(\<exists>i. v_getBox chainView i = Some b) \<longleftrightarrow> b \<in> set chainBoxes" for b
  proof -
    have "distinct (map boxId chainBoxes)" by code_simp
    from listView_live [OF this, of b] show ?thesis by (simp add: chainView_def)
  qed
  have t: "boxTail emissionBox = Emission" "boxTail poolBox = KarmaPool" "boxTail vouchBox = Vouch kB kA"
    by (simp_all add: emissionBox_def poolBox_def vouchBox_def mkBox_def)
  have mem: "x \<in> set chainBoxes \<longleftrightarrow> x = likerBox \<or> x = emissionBox \<or> x = poolBox \<or> x = vouchBox" for x
    by (simp add: chainBoxes_def)
  show ?thesis
    unfolding view_ok_def listsLive_def l
  proof (intro conjI allI impI)
    show "finite (dom (v_getBox chainView))" by (simp add: chainView_def finite_dom_map_of)
    show "boxId x = i" if "v_getBox chainView i = Some x" for i x
      using that by (auto simp: chainView_def dest!: map_of_SomeD)
  qed (auto simp: mem liker_box t chainView_def)
qed

end
