(* ===== verification/Chain.thy ===== *)
theory Chain
  imports ChainSample BlockLaws
begin

text \<open>
  What an accepted block, and a chain of them, keeps: the total value of the live
  boxes, one like of a liker per post, and the signature of every input's owner in
  the batch the block's signatures are verified with.
\<close>

section \<open>A block's ledger\<close>

lemma queue_tracks:
  assumes "efold (applyQueuedTx H ctx keys owed h) queue (acc, s) = Inr (acc', s')" "tracks v s"
    "\<And>q. q \<in> set queue \<Longrightarrow> decodedUnder H q"
  shows "tracks v s' \<and> liveSum boxValue (o_getBox s') = liveSum boxValue (o_getBox s)"
proof -
  let ?P = "\<lambda>p. tracks v (snd p) \<and> liveSum boxValue (o_getBox (snd p)) = liveSum boxValue (o_getBox s)"
  have "?P (acc', s')"
  proof (rule efold_invariant [where P = ?P, OF assms(1)])
    fix q p p' assume q: "q \<in> set queue" and P: "?P p" and ok: "applyQueuedTx H ctx keys owed h q p = Inr p'"
    have ok': "applyQueuedTx H ctx keys owed h q (fst p, snd p) = Inr (fst p', snd p')" using ok by simp
    from P have t: "tracks v (snd p)" by simp
    obtain ins where "valueSum ins = valueSum (q_outputs q)" "tracks v (snd p')"
        "\<And>f. liveSum f (o_getBox (snd p')) =
          liveSum f (o_getBox (snd p)) - sum_list (map f ins) + sum_list (map f (q_outputs q))"
      by (rule queuedTx_effect [OF ok' t assms(3) [OF q]], rule that)
    then show "?P p'" using P by (simp add: valueSum_def)
  qed (simp add: assms(2))
  then show ?thesis by simp
qed

lemma withdrawals_clockOnly:
  "tracks v s \<Longrightarrow> efold (applyBlockWithdrawal h) bws s = Inr s' \<Longrightarrow> clockOnly v s s'"
  by (erule (1) clockOnly_efold) (rule clock_withdrawal)

text \<open>The ledger after a block: its mutations replayed.\<close>
definition afterBlock :: "blockEffects \<Rightarrow> ledger \<Rightarrow> ledger" where
  "afterBlock eff lg = fold replay (ef_mutations eff) lg"

lemma afterBlock_overlay:
  "tracks v s \<Longrightarrow> afterBlock (effectsOf posts queue (acc, s)) (ledgerOf v) = o_ledger s"
  by (simp add: afterBlock_def effectsOf_def tracks_def)

text \<open>The stages of an accepted block, with what they do to the ledger's boxes.\<close>
lemma block_stages:
  assumes "view_ok v" "applyBlock H v block ctx = Inr eff"
  obtains queue settlement keys entries c acc s0 s1 s2 acc3 s3 acc4 s4 where
    "decodeBody H ctx block (h_height (header block)) = Inr (queue, settlement)"
    "\<And>q. q \<in> set queue \<Longrightarrow> decodedUnder H q" "decodedUnder H settlement"
    "signatureEntries queue = Inr entries" "verifyBatch ctx entries" "keys = verifiedKeys queue"
    "s0 = recordPosts (postsOf H block) (h_height (header block)) (newOverlay v)"
    "preBodyCaptures s0 ctx (h_height (header block)) queue = Inr c"
    "tracks v s0" "o_ledger s0 = ledgerOf v" "o_getBox s0 = v_getBox v"
    "efold (applyQueuedTx H ctx keys (ca_preBodyOwed c) (h_height (header block))) queue (newTxApplyAcc, s0) = Inr (acc, s1)"
    "tracks v s1" "liveSum boxValue (o_getBox s1) = liveSum boxValue (v_getBox v)"
    "efold (applyBlockWithdrawal (h_height (header block))) (withdrawalsOf (o_getTopologyAuthor s1) block) s1 = Inr s2"
    "clockOnly v s1 s2" "tracks v s2"
    "checkAndApplySettlement ctx (h_height (header block)) c
       (settlementBodyOf acc (butlast (utxoTxIds (ob_utxoTxTree block))) (validatorId (header block)))
       settlement (acc, s2) = Inr (acc3, s3)"
    "tracks v s3" "liveSum boxValue (o_getBox s3) = liveSum boxValue (v_getBox v)"
    "closeBlock ctx (h_height (header block)) (ca_plans c) (acc3, s3) = Inr (acc4, s4)"
    "tracks v s4" "o_getBox s4 = o_getBox s3"
    "eff = effectsOf (postsOf H block) queue (acc4, s4)"
proof -
  let ?h = "h_height (header block)"
  obtain queue settlement keys c acc s0 s1 s2 acc3 s3 acc4 s4 where b:
    "decodeBody H ctx block ?h = Inr (queue, settlement)"
    "verifiedSignaturesOf (verifyBatch ctx) queue = Inr (Some keys)"
    "s0 = recordPosts (postsOf H block) ?h (newOverlay v)"
    "preBodyCaptures s0 ctx ?h queue = Inr c"
    "efold (applyQueuedTx H ctx keys (ca_preBodyOwed c) ?h) queue (newTxApplyAcc, s0) = Inr (acc, s1)"
    "efold (applyBlockWithdrawal ?h) (withdrawalsOf (o_getTopologyAuthor s1) block) s1 = Inr s2"
    "checkAndApplySettlement ctx ?h c
       (settlementBodyOf acc (butlast (utxoTxIds (ob_utxoTxTree block))) (validatorId (header block)))
       settlement (acc, s2) = Inr (acc3, s3)"
    "closeBlock ctx ?h (ca_plans c) (acc3, s3) = Inr (acc4, s4)"
    "eff = effectsOf (postsOf H block) queue (acc4, s4)"
    by (rule applyBlock_inv [OF assms(2)], rule that)
  obtain entries where e: "signatureEntries queue = Inr entries" "verifyBatch ctx entries" "keys = verifiedKeys queue"
    using b(2) by (auto simp: verifiedSignaturesOf_def bind_iff split: if_splits)
  have d: "decodedUnder H q" if "q \<in> set queue" for q using decodeBody_ok(2) [OF b(1) that] by simp
  have ds: "decodedUnder H settlement" using decodeBody_ok(3) [OF b(1)] by simp
  have t0: "tracks v s0" using tracks_new [OF assms(1)] by (simp add: b(3) ledger_recordPosts)
  have l0: "o_ledger s0 = ledgerOf v" unfolding b(3) ledger_recordPosts(1) by (rule ledger_new)
  then have g0: "o_getBox s0 = v_getBox v" using arg_cong [of _ _ lg_boxes] by (fastforce simp: ledgerOf_def o_ledger_def)
  have 1: "tracks v s1" "liveSum boxValue (o_getBox s1) = liveSum boxValue (v_getBox v)"
    using queue_tracks [OF b(5) t0 d] g0 by simp_all
  have 2: "clockOnly v s1 s2" by (rule withdrawals_clockOnly [OF 1(1) b(6)])
  then have t2: "tracks v s2" "o_getBox s2 = o_getBox s1" by (simp_all add: clockOnly_def)
  obtain 3: "tracks v s3" "liveSum boxValue (o_getBox s3) = liveSum boxValue (o_getBox s2)"
    by (rule settlement_effect [OF b(7) t2(1) ds], rule that)
  obtain 4: "tracks v s4" "o_getBox s4 = o_getBox s3" by (rule closeBlock_inv [OF b(8) 3(1)], rule that)
  show ?thesis
    by (rule that [OF b(1) d ds e b(3,4) t0 l0 g0 b(5) 1 b(6) 2 t2(1) b(7) 3(1) _ b(8) 4 b(9)])
       (use 1 t2 3 in simp_all)
qed

lemma block_supply:
  assumes "view_ok v" "applyBlock H v block ctx = Inr eff"
  shows "liveSum boxValue (lg_boxes (afterBlock eff (ledgerOf v))) = liveSum boxValue (v_getBox v)"
proof -
  obtain queue s3 acc4 s4 where "liveSum boxValue (o_getBox s3) = liveSum boxValue (v_getBox v)"
      "tracks v s4" "o_getBox s4 = o_getBox s3" "eff = effectsOf (postsOf H block) queue (acc4, s4)"
    by (rule block_stages [OF assms], rule that)
  then show ?thesis by (simp add: afterBlock_overlay)
qed

section \<open>Chains\<close>

text \<open>The ledgers reachable from a genesis ledger by accepted blocks, each applied over
  a view that answers the ledger before it.\<close>
inductive chain :: "hash \<Rightarrow> applyContext \<Rightarrow> ledger \<Rightarrow> int \<Rightarrow> ledger \<Rightarrow> int \<Rightarrow> bool"
  for H ctx lg0 h0 where
  genesis: "chain H ctx lg0 h0 lg0 h0"
| block: "chain H ctx lg0 h0 (ledgerOf v) h \<Longrightarrow> view_ok v \<Longrightarrow> h_height (header block) = h + 1 \<Longrightarrow>
    applyBlock H v block ctx = Inr eff \<Longrightarrow> chain H ctx lg0 h0 (afterBlock eff (ledgerOf v)) (h + 1)"

inductive_cases chain_cases: "chain H ctx lg0 h0 lg h"

text \<open>C1: along every chain of accepted blocks the total value of the live boxes is the
  genesis total: no block, settlement and rewards included, mints or burns value.\<close>
theorem supply_constant:
  assumes "chain H ctx lg0 h0 lg h"
  shows "liveSum boxValue (lg_boxes lg) = liveSum boxValue (lg_boxes lg0) \<and> h0 \<le> h"
  using assms
proof (induction rule: chain.induct)
  case (block v h block eff)
  then show ?case using block_supply [of v H block ctx eff] by (simp add: ledgerOf_def)
qed simp

lemma supply_constant_witness:
  "\<exists>eff. chain chainH chainCtx (ledgerOf chainView) 4 (afterBlock eff (ledgerOf chainView)) 5 \<and>
     liveSum boxValue (lg_boxes (afterBlock eff (ledgerOf chainView))) = liveSum boxValue (v_getBox chainView)"
proof -
  obtain eff where e: "applyBlock chainH chainView chainBlock chainCtx = Inr eff" using chain_block_accepted by blast
  have h: "h_height (header chainBlock) = 4 + 1" by (simp add: chainBlock_def chainHeader_def)
  have c: "chain chainH chainCtx (ledgerOf chainView) 4 (afterBlock eff (ledgerOf chainView)) (4 + 1)"
    by (rule chain.block [OF chain.genesis chain_view_ok h e])
  then show ?thesis using supply_constant [OF c] by (intro exI [of _ eff]) (simp add: ledgerOf_def)
qed

section \<open>One like of a liker per post\<close>

definition likesOnce :: "stateView \<Rightarrow> overlay \<Rightarrow> bool" where
  "likesOnce v s \<longleftrightarrow> distinct (likeRecords s) \<and> (\<forall>(p, k)\<in>set (likeRecords s).
     likeKey p k \<in> set (likes s) \<and> \<not> v_hasLikeRecord v p k)"

lemma likesOnce_queued:
  assumes "applyQueuedTx H ctx keys owed h q (acc, s) = Inr (acc', s')" "tracks v s" "likesOnce v s"
  shows "tracks v s' \<and> likesOnce v s'"
proof -
  obtain lk s1 where a: "likeToRecord s q = Inr lk" "clockOnly v s1 s'"
    "likeRecords s' = likeRecords s @ (case lk of None \<Rightarrow> [] | Some (p, k, _) \<Rightarrow> [(p, k)])"
    "likes s' = (case lk of None \<Rightarrow> likes s | Some (p, k, _) \<Rightarrow> List.insert (likeKey p k) (likes s))"
    by (rule applyQueuedTx_inv [OF assms(1,2)], rule that)
  have t: "tracks v s'" using a(2) by (simp add: clockOnly_def)
  show ?thesis
  proof (cases lk)
    case None
    then show ?thesis using assms(3) a(3,4) t by (simp add: likesOnce_def)
  next
    case (Some x)
    then obtain p k e where x: "lk = Some (p, k, e)" by (cases x) auto
    then have "\<not> o_hasLikeRecord s p k"
      using a(1) by (auto simp: likeToRecord_def Let_def split: option.splits if_splits)
    then have n: "likeKey p k \<notin> set (likes s)" "\<not> v_hasLikeRecord v p k"
      using tracks_view [OF assms(2)] by (simp_all add: o_hasLikeRecord_def)
    then have "(p, k) \<notin> set (likeRecords s)" using assms(3) by (auto simp: likesOnce_def)
    then show ?thesis using assms(3) a(3,4) t n x by (auto simp: likesOnce_def)
  qed
qed

lemma pair_efold_keeps:
  assumes "efold f xs (n, s) = Inr (n', s')"
    "\<And>x n s n' s'. f x (n, s) = Inr (n', s') \<Longrightarrow> g s' = g s"
  shows "g s' = g s"
proof -
  have "(g \<circ> snd) (n', s') = (g \<circ> snd) (n, s)"
  proof (rule efold_keeps [where g = "g \<circ> snd", OF assms(1)])
    fix x p p' assume "f x p = Inr p'"
    then have "f x (fst p, snd p) = Inr (fst p', snd p')" by simp
    then show "(g \<circ> snd) p' = (g \<circ> snd) p" using assms(2) by fastforce
  qed
  then show ?thesis by simp
qed

lemma put_likeRecords [simp]: "likeRecords (o_putIdentityRecord k r s) = likeRecords s"
  by (simp add: o_putIdentityRecord_def)

lemma closeBlock_likes:
  assumes "closeBlock ctx h plans (acc, s) = Inr (acc', s')" "tracks v s"
  shows "likeRecords s' = likeRecords s"
proof -
  obtain s1 s2 s3 where c: "grantInvites h (acc, s) = Inr (acc', s1)" "countLikes acc' s1 = Inr s2"
      "membershipPass ctx h acc' s2 = Inr s3" "likeRecords s' = likeRecords s3"
    by (rule closeBlock_inv [OF assms], rule that)
  have 1: "likeRecords s1 = likeRecords s"
    by (rule pair_efold_keeps [OF c(1) [unfolded grantInvites_def split]])
       (auto simp: grantInvite_def bind_iff Let_def split: option.splits)
  have 2: "likeRecords s2 = likeRecords s1"
    by (rule efold_keeps [OF c(2) [unfolded countLikes_def]]) (auto simp: countLike_def bind_iff Let_def)
  obtain D Y n1 t where p: "efold (membershipStep h D Y (preBlockRecords acc'))
        (sort (remdups (membershipTouched acc' @ map fst (memberLikesPerAuthor acc'))))
        (memberCount (o_getNetworkRecord s2), s2) = Inr (n1, t)" "likeRecords s3 = likeRecords t"
    using c(3) by (auto simp: membershipPass_def Let_def bind_iff o_putNetworkRecord_def)
  have "likeRecords t = likeRecords s2"
  proof (rule pair_efold_keeps [OF p(1)])
    fix e n t n' t' assume m: "membershipStep h D Y (preBlockRecords acc') e (n, t) = Inr (n', t')"
    obtain k where "t' = t \<or> (\<exists>r. t' = o_putIdentityRecord k r t)" by (rule membershipStep_inv [OF m])
    then show "likeRecords t' = likeRecords t" by auto
  qed
  then show ?thesis using 1 2 p c by simp
qed

text \<open>C3: an accepted block records no like of a liker for a post twice, nor one the
  state before it already holds.\<close>
theorem likes_recorded_once:
  assumes "view_ok v" "applyBlock H v block ctx = Inr eff"
  shows "distinct (ef_likeRecords eff) \<and>
    (\<forall>(p, k)\<in>set (ef_likeRecords eff). \<not> v_hasLikeRecord v p k)"
proof -
  let ?h = "h_height (header block)"
  obtain queue settlement keys c acc s0 s1 s2 acc3 s3 acc4 s4 where b:
    "decodedUnder H settlement" "s0 = recordPosts (postsOf H block) ?h (newOverlay v)" "tracks v s0"
    "efold (applyQueuedTx H ctx keys (ca_preBodyOwed c) ?h) queue (newTxApplyAcc, s0) = Inr (acc, s1)"
    "efold (applyBlockWithdrawal ?h) (withdrawalsOf (o_getTopologyAuthor s1) block) s1 = Inr s2" "tracks v s2"
    "checkAndApplySettlement ctx ?h c
       (settlementBodyOf acc (butlast (utxoTxIds (ob_utxoTxTree block))) (validatorId (header block)))
       settlement (acc, s2) = Inr (acc3, s3)"
    "closeBlock ctx ?h (ca_plans c) (acc3, s3) = Inr (acc4, s4)" "tracks v s3"
    "eff = effectsOf (postsOf H block) queue (acc4, s4)"
    by (rule block_stages [OF assms], rule that)
  have f0: "likeRecords (fold (\<lambda>p. o_confirmPost (bp_postId p)) ps t) = likeRecords t"
    "likeRecords (fold (\<lambda>p. o_insertBlockTopology (bp_postId p) (author (bp_post p)) ?h) ps t) = likeRecords t" for ps t
    by (induction ps arbitrary: t) (simp_all add: o_confirmPost_def o_insertBlockTopology_def)
  have "likeRecords s0 = []" unfolding b(2) recordPosts_def f0 by (simp add: newOverlay_def)
  then have l0: "likesOnce v s0" by (simp add: likesOnce_def)
  let ?P = "\<lambda>p. tracks v (snd p) \<and> likesOnce v (snd p)"
  have "?P (acc, s1)"
  proof (rule efold_invariant [where P = ?P, OF b(4)])
    show "?P p'" if "?P p" "applyQueuedTx H ctx keys (ca_preBodyOwed c) ?h q p = Inr p'" for q p p'
      using likesOnce_queued [of H ctx keys "ca_preBodyOwed c" ?h q "fst p" "snd p" "fst p'" "snd p'" v] that by simp
  qed (simp add: b(3) l0)
  then have 1: "likesOnce v s1" by simp
  have "likeRecords s2 = likeRecords s1"
    by (rule efold_keeps [OF b(5)]) (auto simp: applyBlockWithdrawal_def o_withdrawPost_def split: option.splits if_splits)
  moreover obtain "applyTx overlayStore (q_tx settlement) (q_outputs settlement) ?h s2 = Inr s3"
    by (rule settlement_effect [OF b(7,6,1)], rule that)
  ultimately have "likeRecords s4 = likeRecords s1"
    using applyTx_keeps_likes(2) closeBlock_likes [OF b(8,9)] by metis
  then show ?thesis using 1 b(10) by (auto simp: effectsOf_def likesOnce_def)
qed

lemma likes_recorded_once_witness:
  "\<exists>eff. applyBlock chainH chainView chainBlock chainCtx = Inr eff \<and> distinct (ef_likeRecords eff)"
  using chain_block_accepted likes_recorded_once [OF chain_view_ok] by blast

section \<open>The batch of signatures\<close>

lemma signatureEntryKey_inject:
  "signatureEntryKey (bytesToHex a) (bytesToHex b) c = signatureEntryKey (bytesToHex a') (bytesToHex b') c' \<longleftrightarrow>
    a = a' \<and> b = b' \<and> c = c'"
  by (simp add: signatureEntryKey_def split_at_colon bytesToHex_no_colon)

lemma emap_in: "emap f xs = Inr ys \<Longrightarrow> x \<in> set xs \<Longrightarrow> \<exists>y\<in>set ys. f x = Inr y"
  by (induction xs arbitrary: ys) (auto simp: bind_iff)

lemma verifiedKeys_entry:
  assumes "signatureEntries queue = Inr entries"
    "signatureEntryKey (bytesToHex msg) (bytesToHex key) sig \<in> set (verifiedKeys queue)"
  shows "(sig, msg, key) \<in> set entries"
proof -
  obtain ess where e: "emap (\<lambda>q. ebind (hexToBytes (q_txId q)) (\<lambda>message.
       emap (\<lambda>(keyHex, sig). ebind (hexToBytes keyHex) (\<lambda>key. Inr (sig, message, key))) (signatures (q_tx q)))) queue = Inr ess"
      "entries = concat ess"
    using assms(1) by (auto simp: signatureEntries_def bind_iff)
  obtain q kh sg where q: "q \<in> set queue" "(kh, sg) \<in> set (signatures (q_tx q))"
      "signatureEntryKey (bytesToHex msg) (bytesToHex key) sig = signatureEntryKey (q_txId q) kh sg"
    using assms(2) by (auto simp: verifiedKeys_def)
  obtain message es where m: "hexToBytes (q_txId q) = Inr message" "es \<in> set ess"
      "emap (\<lambda>(keyHex, sig). ebind (hexToBytes keyHex) (\<lambda>key. Inr (sig, message, key))) (signatures (q_tx q)) = Inr es"
    using emap_in [OF e(1) q(1)] by (auto simp: bind_iff)
  obtain k where k: "hexToBytes kh = Inr k" "(sg, message, k) \<in> set es"
    using emap_in [OF m(3) q(2)] by (auto simp: bind_iff)
  have "msg = message" "key = k" "sig = sg"
    using q(3) m(1) k(1) by (simp_all add: hexToBytes_iff signatureEntryKey_inject)
  then show ?thesis using k(2) m(2) e(2) by auto
qed

text \<open>A box under its spender: the batch holds an entry of the key its type names over the
  transaction's id, or the box is a credit past its rent period of an unsigned collection.\<close>
definition batchAuthorised :: "(byte list \<times> byte list \<times> byte list) list \<Rightarrow> int \<Rightarrow> int \<Rightarrow> queuedTx \<Rightarrow> anyBox \<Rightarrow> bool" where
  "batchAuthorised entries rent height q b \<longleftrightarrow>
     (\<exists>key sig msg. (tail_owner (boxTail b) = Some key \<or> tail_voucher (boxTail b) = Some key) \<and>
        q_txId q = bytesToHex msg \<and> (bytesToHex key, sig) \<in> set (signatures (q_tx q)) \<and> (sig, msg, key) \<in> set entries) \<or>
     boxTypeOf b = BT_credit \<and> signatures (q_tx q) = [] \<and> height - createdAtBlock b > rent"

lemma mayspend_batch:
  assumes "mayspend (utxoDepsOver s ctx (verifiedKeys queue) owed h) (q_tx q) (q_txId q) h b"
    "signatureEntries queue = Inr entries"
  shows "batchAuthorised entries (cx_storageRentPeriodBlocks ctx) h q b"
proof -
  have sg: "\<exists>sig msg. q_txId q = bytesToHex msg \<and> (bytesToHex key, sig) \<in> set (signatures (q_tx q)) \<and> (sig, msg, key) \<in> set entries"
    if "signedBy (utxoDepsOver s ctx (verifiedKeys queue) owed h) (q_tx q) (q_txId q) key" for key
    using that verifiedKeys_entry [OF assms(2)]
    by (fastforce simp: signedBy_def utxoDepsOver_def hexToBytes_iff split: sum.splits option.splits dest: map_of_SomeD)
  show ?thesis
    using assms(1) sg unfolding mayspend_def batchAuthorised_def
    by (cases "boxTail b") (auto simp: utxoDepsOver_def tail_owner_def tail_voucher_def)
qed

text \<open>C2: in an accepted block every input of every user transaction is a box of the
  state before the block or an output of the body, and the batch of signatures the
  verifier accepted holds its owner's signature over the transaction's id, unless it
  is a credit past its rent period under an empty signature map.\<close>
theorem block_inputs_signed:
  assumes "view_ok v" "applyBlock H v block ctx = Inr eff"
  shows "\<exists>queue settlement entries. decodeBody H ctx block (h_height (header block)) = Inr (queue, settlement) \<and>
    signatureEntries queue = Inr entries \<and> verifyBatch ctx entries \<and>
    (\<forall>q\<in>set queue. \<forall>i\<in>set (inputs (q_tx q)). \<exists>b.
       (v_getBox v i = Some b \<or> boxId b = i \<and> (\<exists>q'\<in>set queue. b \<in> set (q_outputs q'))) \<and>
       batchAuthorised entries (cx_storageRentPeriodBlocks ctx) (h_height (header block)) q b)"
proof -
  let ?h = "h_height (header block)" and ?rent = "cx_storageRentPeriodBlocks ctx"
  obtain queue settlement keys entries and c :: captures and acc s0 s1 where b:
    "decodeBody H ctx block ?h = Inr (queue, settlement)"
    "signatureEntries queue = Inr entries" "verifyBatch ctx entries" "keys = verifiedKeys queue"
    "tracks v s0" "o_getBox s0 = v_getBox v"
    "efold (applyQueuedTx H ctx keys (ca_preBodyOwed c) ?h) queue (newTxApplyAcc, s0) = Inr (acc, s1)"
    by (rule block_stages [OF assms], rule that)
  note d = decodeBody_ok(2) [OF b(1), THEN conjunct1]
  let ?known = "\<lambda>i b. v_getBox v i = Some b \<or> boxId b = i \<and> (\<exists>q'\<in>set queue. b \<in> set (q_outputs q'))"
  let ?P = "\<lambda>p. tracks v (snd p) \<and> (\<forall>i b. o_getBox (snd p) i = Some b \<longrightarrow> ?known i b)"
  let ?good = "\<lambda>q. \<forall>i\<in>set (inputs (q_tx q)). \<exists>b. ?known i b \<and> batchAuthorised entries ?rent ?h q b"
  have step: "?P p' \<and> ?good q"
    if q: "q \<in> set queue" and P: "?P p" and ok: "applyQueuedTx H ctx keys (ca_preBodyOwed c) ?h q p = Inr p'" for q p p'
  proof -
    have ok': "applyQueuedTx H ctx keys (ca_preBodyOwed c) ?h q (fst p, snd p) = Inr (fst p', snd p')" using ok by simp
    from P have t: "tracks v (snd p)" by simp
    obtain v1: "validateTx H (utxoDepsOver (snd p) ctx keys (ca_preBodyOwed c) ?h) (q_tx q) (q_txId q) ?h = Inr (q_outputs q)"
      and t': "tracks v (snd p')"
      and g: "o_getBox (snd p') = (\<lambda>i. if i \<in> set (inputs (q_tx q)) then None else o_getBox (snd p) i) ++
       map_of (map (\<lambda>b. (boxId b, b)) (q_outputs q))"
      by (rule queuedTx_effect [OF ok' t d [OF q]], rule that)
    have "?known i b" if "o_getBox (snd p') i = Some b" for i b
      using that P q unfolding g by (fastforce simp: map_add_Some_iff split: if_splits dest: map_of_SomeD)
    moreover have "?good q"
    proof
      fix i assume i: "i \<in> set (inputs (q_tx q))"
      obtain ins where m: "map (o_getBox (snd p)) (inputs (q_tx q)) = map Some ins"
        "\<And>b. b \<in> set ins \<Longrightarrow> mayspend (utxoDepsOver (snd p) ctx keys (ca_preBodyOwed c) ?h) (q_tx q) (q_txId q) ?h b"
        by (rule inputs_mayspend [OF v1], rule that) (simp_all add: utxoDepsOver_def)
      have "Some ` set ins = o_getBox (snd p) ` set (inputs (q_tx q))" using m(1) by (metis list.set_map)
      then obtain b where "b \<in> set ins" "o_getBox (snd p) i = Some b" using i by (metis imageE image_eqI)
      then show "\<exists>b. ?known i b \<and> batchAuthorised entries ?rent ?h q b"
        using P m(2) mayspend_batch [OF _ b(2)] unfolding b(4) by blast
    qed
    ultimately show ?thesis using t' by simp
  qed
  have "\<forall>q\<in>set queue'. ?good q"
    if "efold (applyQueuedTx H ctx keys (ca_preBodyOwed c) ?h) queue' p = Inr p'" "set queue' \<subseteq> set queue" "?P p"
    for queue' p p' using that
  proof (induction queue' arbitrary: p)
    case (Cons q queue')
    then obtain p1 where p1: "applyQueuedTx H ctx keys (ca_preBodyOwed c) ?h q p = Inr p1"
        "efold (applyQueuedTx H ctx keys (ca_preBodyOwed c) ?h) queue' p1 = Inr p'"
      by (auto simp: bind_iff)
    have "?P p1 \<and> ?good q" by (rule step [OF _ Cons.prems(3) p1(1)]) (use Cons.prems(2) in simp)
    then show ?case using Cons.IH [OF p1(2)] Cons.prems(2) by simp
  qed simp
  from this [OF b(7) order.refl] have "\<forall>q\<in>set queue. ?good q" using b(5,6) by simp
  then show ?thesis using b(1,2,3) by blast
qed

lemma block_inputs_signed_witness:
  "\<exists>entries. length entries = 1 \<and> batchAuthorised entries 30 5 likeQueued likerBox"
proof -
  have h: "h_height (header chainBlock) = 5" by (simp add: chainBlock_def chainHeader_def)
  have ctx: "cx_storageRentPeriodBlocks chainCtx = 30" "verifyBatch chainCtx entries = (length entries = 1)" for entries
    by (simp_all add: chainCtx_def)
  obtain eff where "applyBlock chainH chainView chainBlock chainCtx = Inr eff" using chain_block_accepted by blast
  from block_inputs_signed [OF chain_view_ok this] obtain entries b where b: "length entries = 1"
      "v_getBox chainView (idOf (CHR ''a'')) = Some b \<or> boxId b = idOf (CHR ''a'') \<and> b \<in> set likeOuts"
      "batchAuthorised entries 30 5 likeQueued b"
    unfolding h ctx chain_decodes by (auto simp: likeQueued_def like_inputs)
  have "b = likerBox"
    using b(2) ids by (auto simp: likeOuts_def likeKarma_def likeMarker_def)
  then show ?thesis using b by blast
qed

end
