(* ===== verification/DecaySettles.thy ===== *)
theory DecaySettles
  imports Chain
begin

text \<open>
  What a block leaves of decay: no owner it touches or pays still owes any.  The identity
  records' clocks through the phases of \<open>applyBlock\<close>: before the decay clocks are
  committed a block only sets a record's activity clock to its own height, so the clocks
  the pre-body plans were derived from are still those of the records they are written to.
\<close>

section \<open>The clocks of the records\<close>

text \<open>The decay clock stands still; the activity clock stands still or is set to \<open>h\<close>.\<close>
definition clockStep :: "int \<Rightarrow> identityRecord option \<Rightarrow> identityRecord option \<Rightarrow> bool" where
  "clockStep h r r' \<longleftrightarrow> lastDecayBlock (or_empty r') = lastDecayBlock (or_empty r) \<and>
     lastActivityBlock (or_empty r') \<in> {lastActivityBlock (or_empty r), h}"

definition clocksRun :: "stateView \<Rightarrow> int \<Rightarrow> overlay \<Rightarrow> overlay \<Rightarrow> bool" where
  "clocksRun v h s s' \<longleftrightarrow> tracks v s' \<and>
     (\<forall>k. clockStep h (o_getIdentityRecord s k) (o_getIdentityRecord s' k))"

lemma clockStep_refl [simp]: "clockStep h r r"
  by (simp add: clockStep_def)

lemma clocksRun_refl: "tracks v s \<Longrightarrow> clocksRun v h s s"
  by (simp add: clocksRun_def)

lemma clocksRun_trans: "clocksRun v h s s1 \<Longrightarrow> clocksRun v h s1 s2 \<Longrightarrow> clocksRun v h s s2"
  unfolding clocksRun_def clockStep_def by (metis insertE insertI1 insertI2 singletonD)

lemma clocksRun_tracks: "clocksRun v h s s' \<Longrightarrow> tracks v s'"
  by (simp add: clocksRun_def)

lemma clocksRun_records:
  "tracks v s' \<Longrightarrow> o_getIdentityRecord s' = o_getIdentityRecord s \<Longrightarrow> clocksRun v h s s'"
  by (simp add: clocksRun_def)

lemma clocksRun_put:
  "tracks v s \<Longrightarrow> clockStep h (o_getIdentityRecord s k) (Some r) \<Longrightarrow> clocksRun v h s (o_putIdentityRecord k r s)"
  by (simp add: clocksRun_def put_keeps)

lemma clocksRun_efold:
  assumes "efold f xs s = Inr s'" "tracks v s"
    and "\<And>x s s'. tracks v s \<Longrightarrow> f x s = Inr s' \<Longrightarrow> clocksRun v h s s'"
  shows "clocksRun v h s s'"
proof -
  have "tracks v s' \<and> clocksRun v h s s'"
    by (rule efold_invariant [where P = "\<lambda>t. tracks v t \<and> clocksRun v h s t", OF assms(1)])
       (use assms(2,3) clocksRun_refl clocksRun_trans clocksRun_tracks in blast)+
  then show ?thesis ..
qed

lemma clocksRun_pair_efold:
  assumes "efold f xs (n, s) = Inr (n', s')" "tracks v s"
    and "\<And>x n s n' s'. tracks v s \<Longrightarrow> f x (n, s) = Inr (n', s') \<Longrightarrow> clocksRun v h s s'"
  shows "clocksRun v h s s'"
proof -
  let ?P = "\<lambda>p. tracks v (snd p) \<and> clocksRun v h s (snd p)"
  have "?P (n', s')"
  proof (rule efold_invariant [where P = ?P, OF assms(1)])
    show "?P (n, s)" using assms(2) by (simp add: clocksRun_refl)
    fix x p p' assume P: "?P p" and ok: "f x p = Inr p'"
    have "f x (fst p, snd p) = Inr (fst p', snd p')" using ok by simp
    then have "clocksRun v h (snd p) (snd p')" using assms(3) P by blast
    then show "?P p'" using P clocksRun_trans clocksRun_tracks by blast
  qed
  then show ?thesis by simp
qed

section \<open>The phases\<close>

lemma sameStanding_clocks:
  assumes "sameStanding recs recs'"
  shows "clockStep h (recs k) (recs' k)"
proof -
  have e: "map_option (\<lambda>r. r\<lparr>memberVouches := 0, invitesUsed := 0\<rparr>) (recs k) =
      map_option (\<lambda>r. r\<lparr>memberVouches := 0, invitesUsed := 0\<rparr>) (recs' k)"
    using assms by (simp add: sameStanding_def)
  show ?thesis
  proof (cases "recs k")
    case None
    then show ?thesis using e by simp
  next
    case (Some r)
    then obtain r' where r': "recs' k = Some r'"
      "r\<lparr>memberVouches := 0, invitesUsed := 0\<rparr> = r'\<lparr>memberVouches := 0, invitesUsed := 0\<rparr>"
      using e by (cases "recs' k") auto
    have "lastDecayBlock (r\<lparr>memberVouches := 0, invitesUsed := 0\<rparr>) = lastDecayBlock (r'\<lparr>memberVouches := 0, invitesUsed := 0\<rparr>)"
      "lastActivityBlock (r\<lparr>memberVouches := 0, invitesUsed := 0\<rparr>) = lastActivityBlock (r'\<lparr>memberVouches := 0, invitesUsed := 0\<rparr>)"
      by (simp_all only: r'(2))
    then show ?thesis using Some r'(1) by (simp add: clockStep_def or_empty_def)
  qed
qed

lemma applyTx_clocks:
  assumes "tracks v s" "applyTx overlayStore tx outs n s = Inr s'"
  shows "clocksRun v h s s'"
proof -
  obtain "tracks v s'" "sameStanding (o_getIdentityRecord s) (o_getIdentityRecord s')"
    by (rule applyTx_overlay [OF assms], rule that)
  then show ?thesis by (simp add: clocksRun_def sameStanding_clocks)
qed

lemma activity_clocks: "tracks v s \<Longrightarrow> clocksRun v h s (advanceActivityClock k h s)"
  unfolding advanceActivityClock_def by (rule clocksRun_put) (simp_all add: clockStep_def or_empty_def)

lemma queued_clocks:
  assumes "tracks v s" "applyQueuedTx H ctx keys owed h q (acc, s) = Inr (acc', s')"
  shows "clocksRun v h s s'"
proof -
  obtain s1 s2 where a: "applyTx overlayStore (q_tx q) (q_outputs q) h s = Inr s1" "clockOnly v s1 s2" "clockOnly v s1 s'"
    "o_ledger s' = o_ledger s2" "s2 = s1 \<or> (\<exists>k. s2 = advanceActivityClock k h s1)"
    by (rule applyQueuedTx_inv [OF assms(2,1)], rule that)
  have t: "tracks v s2" "tracks v s'" using a(2,3) by (simp_all add: clockOnly_def)
  have 1: "clocksRun v h s s1" by (rule applyTx_clocks [OF assms(1) a(1)])
  have 2: "clocksRun v h s1 s2"
    using a(5) activity_clocks [OF clocksRun_tracks [OF 1]] clocksRun_refl [OF clocksRun_tracks [OF 1]] by blast
  have "o_getIdentityRecord s' = o_getIdentityRecord s2" using a(4) by (simp add: o_ledger_def)
  from clocksRun_trans [OF 1 clocksRun_trans [OF 2 clocksRun_records [OF t(2) this]]] show ?thesis .
qed

lemma withdrawals_clocks:
  assumes "tracks v s" "efold (applyBlockWithdrawal n) bws s = Inr s'"
  shows "clocksRun v h s s'"
proof -
  have l: "o_ledger s' = o_ledger s"
    by (rule efold_keeps [OF assms(2)]) (auto simp: applyBlockWithdrawal_def ledger_effects split: option.splits if_splits)
  have "tracks v s'" using withdrawals_clockOnly [OF assms] by (simp add: clockOnly_def)
  then show ?thesis using l by (intro clocksRun_records) (simp_all add: o_ledger_def)
qed

lemma grants_clocks:
  assumes "tracks v s" "grantInvites h (acc, s) = Inr (acc', s')"
  shows "clocksRun v h s s'"
  by (rule clocksRun_pair_efold [OF assms(2) [unfolded grantInvites_def split] assms(1)])
     (auto simp: grantInvite_def bind_iff Let_def clockStep_def or_empty_def intro!: clocksRun_put split: option.splits)

lemma likes_clocks:
  assumes "tracks v s" "countLikes acc s = Inr s'"
  shows "clocksRun v h s s'"
  by (rule clocksRun_efold [OF assms(2) [unfolded countLikes_def] assms(1)])
     (auto simp: countLike_def bind_iff Let_def clockStep_def or_empty_def intro!: clocksRun_put)

lemma membershipStep_clocks:
  assumes "tracks v s" "membershipStep n D Y pre hex (m, s) = Inr (m', s')"
  shows "clocksRun v h s s'"
proof -
  obtain k where k: "hexToBytes hex = Inr k" using assms(2) by (auto simp: membershipStep_def bind_iff)
  have "s' = s \<or> (\<exists>r. o_getIdentityRecord s k = Some r \<and>
      s' = o_putIdentityRecord k (r\<lparr>memberSinceBlock := n, memberBar := D\<rparr>) s)"
    using assms(2) k by (auto simp: membershipStep_def Let_def split: option.splits if_splits)
  then show ?thesis
  proof (elim disjE exE conjE)
    fix r assume r: "o_getIdentityRecord s k = Some r"
      "s' = o_putIdentityRecord k (r\<lparr>memberSinceBlock := n, memberBar := D\<rparr>) s"
    show ?thesis unfolding r(2) by (rule clocksRun_put [OF assms(1)]) (simp add: r(1) clockStep_def or_empty_def)
  qed (simp add: clocksRun_refl assms(1))
qed

lemma membership_clocks:
  assumes "tracks v s" "membershipPass ctx n acc s = Inr s'"
  shows "clocksRun v h s s'"
proof -
  obtain D Y n1 s1 where p: "efold (membershipStep n D Y (preBlockRecords acc))
        (sort (remdups (membershipTouched acc @ map fst (memberLikesPerAuthor acc))))
        (memberCount (o_getNetworkRecord s), s) = Inr (n1, s1)"
      "s' = (if n1 \<noteq> memberCount (o_getNetworkRecord s) then o_putNetworkRecord \<lparr>memberCount = n1\<rparr> s1 else s1)"
    using assms(2) by (auto simp: membershipPass_def Let_def bind_iff)
  have 1: "clocksRun v h s s1"
    by (rule clocksRun_pair_efold [OF p(1) assms(1)]) (rule membershipStep_clocks)
  note t = clocksRun_tracks [OF 1]
  have "clocksRun v h s1 s'"
  proof (cases "n1 = memberCount (o_getNetworkRecord s)")
    case False
    then have "s' = o_putNetworkRecord \<lparr>memberCount = n1\<rparr> s1" using p(2) by simp
    then show ?thesis using tracks_network [OF t, of "\<lparr>memberCount = n1\<rparr>"]
      by (intro clocksRun_records) (simp_all add: o_ledger_def)
  qed (use p(2) clocksRun_refl [OF t] in simp)
  from clocksRun_trans [OF 1 this] show ?thesis .
qed

section \<open>The block\<close>

text \<open>The payees the pre-body capture adds to the owners the body touches.\<close>
definition capturedPayees :: "overlay \<Rightarrow> applyContext \<Rightarrow> int \<Rightarrow> queuedTx list \<Rightarrow> refusal + owners" where
  "capturedPayees s ctx height queue =
     ebind (orThrow (o_getVouchEscrowsReleasableAt s height MAX_ESCROW_RETURNS_PER_BLOCK)) (\<lambda>escrows.
     ebind (orThrow (o_getLapsedVouches s MAX_LAPSE_WITHDRAWALS_PER_BLOCK)) (\<lambda>lapsedCapture.
     let spentByBody = concat (map (\<lambda>q. inputs (q_tx q)) queue) in
     ebind (orThrow (o_getBackerPoolBox s)) (\<lambda>backerPool.
     orThrow (computeSquaredSetPayees (sketchBodyForPayees (map q_outputs queue)) height
       (settlementDepsWith (overlayReads s) ctx [] escrows (lapseLegOf lapsedCapture spentByBody) backerPool spentByBody)))))"

lemma captured_plans:
  assumes "preBodyCaptures s ctx h queue = Inr c"
  obtains payees where "capturedPayees s ctx h queue = Inr payees" "\<forall>(key, k)\<in>set payees. key = bytesToHex k"
    "ca_plans c = deriveKarmaDecay (o_getIdentityRecord s)
       (collectPostBodyKarma (o_getBox s) (o_getKarmaBoxes s) (map bodyTxOf queue) payees) h (cx_decayCfg ctx)"
proof -
  obtain escrows lapsed pool payees where p: "o_getVouchEscrowsReleasableAt s h MAX_ESCROW_RETURNS_PER_BLOCK = Inr escrows"
    "o_getLapsedVouches s MAX_LAPSE_WITHDRAWALS_PER_BLOCK = Inr lapsed" "o_getBackerPoolBox s = Inr pool"
    "computeSquaredSetPayees (sketchBodyForPayees (map q_outputs queue)) h
       (settlementDepsWith (overlayReads s) ctx [] escrows (lapseLegOf lapsed (concat (map (\<lambda>q. inputs (q_tx q)) queue)))
          pool (concat (map (\<lambda>q. inputs (q_tx q)) queue))) = Inr payees"
    "ca_plans c = deriveKarmaDecay (o_getIdentityRecord s)
       (collectPostBodyKarma (o_getBox s) (o_getKarmaBoxes s) (map bodyTxOf queue) payees) h (cx_decayCfg ctx)"
    using assms by (auto simp: preBodyCaptures_def capturePreBodyOwed_def Let_def bind_iff)
  then have "capturedPayees s ctx h queue = Inr payees" by (simp add: capturedPayees_def Let_def bind_iff)
  from that [OF this payees_keyed [OF p(4)] p(5)] show ?thesis .
qed

lemma clockStep_start:
  assumes "clockStep h r r'" "0 \<le> staleThresholdBlocks cfg"
  shows "min h (clockStart r cfg) \<le> clockStart r' cfg"
  using assms by (auto simp: clockStep_def clockStart_def Let_def)

text \<open>C11: a block leaves no squared identity owing decay: after an accepted block every
  owner of a karma box of the state before it that a user transaction of its body spends,
  and every payee of the income leg, owes nothing at the block's height, whatever it then
  holds; whether the derivation had a plan for the owner or found nothing to settle.\<close>
theorem block_settles_decay:
  assumes "view_ok v" "applyBlock H v block ctx = Inr eff"
    and "cfg_ok (cx_decayCfg ctx)" "0 \<le> staleThresholdBlocks (cx_decayCfg ctx)"
  shows "\<exists>queue settlement payees. decodeBody H ctx block (h_height (header block)) = Inr (queue, settlement) \<and>
    capturedPayees (recordPosts (postsOf H block) (h_height (header block)) (newOverlay v)) ctx
      (h_height (header block)) queue = Inr payees \<and>
    (\<forall>owner face.
      (\<exists>q\<in>set queue. \<exists>i\<in>set (inputs (q_tx q)). \<exists>b inc. v_getBox v i = Some b \<and> boxTail b = Karma owner inc) \<or>
      owner \<in> snd ` set payees \<longrightarrow>
      karmaOwed face (lg_records (afterBlock eff (ledgerOf v)) owner) (h_height (header block)) (cx_decayCfg ctx) = 0)"
proof -
  let ?h = "h_height (header block)" and ?cfg = "cx_decayCfg ctx"
  obtain queue settlement keys c acc s0 s1 s2 acc3 s3 acc4 s4 where b:
    "decodeBody H ctx block ?h = Inr (queue, settlement)" "decodedUnder H settlement"
    "s0 = recordPosts (postsOf H block) ?h (newOverlay v)" "preBodyCaptures s0 ctx ?h queue = Inr c"
    "tracks v s0" "o_getBox s0 = v_getBox v"
    "efold (applyQueuedTx H ctx keys (ca_preBodyOwed c) ?h) queue (newTxApplyAcc, s0) = Inr (acc, s1)" "tracks v s1"
    "efold (applyBlockWithdrawal ?h) (withdrawalsOf (o_getTopologyAuthor s1) block) s1 = Inr s2" "tracks v s2"
    "checkAndApplySettlement ctx ?h c
       (settlementBodyOf acc (butlast (utxoTxIds (ob_utxoTxTree block))) (validatorId (header block)))
       settlement (acc, s2) = Inr (acc3, s3)" "tracks v s3"
    "closeBlock ctx ?h (ca_plans c) (acc3, s3) = Inr (acc4, s4)" "tracks v s4"
    "eff = effectsOf (postsOf H block) queue (acc4, s4)"
    by (rule block_stages [OF assms(1,2)], rule that)
  have 1: "clocksRun v ?h s0 s1" by (rule clocksRun_pair_efold [OF b(7,5)]) (rule queued_clocks)
  have 2: "clocksRun v ?h s1 s2" by (rule withdrawals_clocks [OF b(8,9)])
  obtain "applyTx overlayStore (q_tx settlement) (q_outputs settlement) ?h s2 = Inr s3"
    by (rule settlement_effect [OF b(11,10,2)], rule that)
  from applyTx_clocks [OF b(10) this] have 3: "clocksRun v ?h s2 s3" .
  obtain t1 t2 t3 where t: "grantInvites ?h (acc3, s3) = Inr (acc4, t1)" "countLikes acc4 t1 = Inr t2"
    "membershipPass ctx ?h acc4 t2 = Inr t3" "tracks v t1" "tracks v t2" "s4 = commitDecayClocks (ca_plans c) t3"
    by (rule closeBlock_inv [OF b(13,12)], rule that)
  have 4: "clocksRun v ?h s0 t3"
    using 1 2 3 grants_clocks [OF b(12) t(1)] likes_clocks [OF t(4,2)] membership_clocks [OF t(5,3)] clocksRun_trans by meson
  obtain payees where p: "capturedPayees s0 ctx ?h queue = Inr payees" "\<forall>(key, k)\<in>set payees. key = bytesToHex k"
    "ca_plans c = deriveKarmaDecay (o_getIdentityRecord s0)
       (collectPostBodyKarma (o_getBox s0) (o_getKarmaBoxes s0) (map bodyTxOf queue) payees) ?h ?cfg"
    by (rule captured_plans [OF b(4)])
  note o = projection_owners [OF p(2) refl, where lookup = "o_getBox s0" and karmaBoxes = "o_getKarmaBoxes s0" and txs = "map bodyTxOf queue"]
  have after: "lg_records (afterBlock eff (ledgerOf v)) = o_getIdentityRecord (commitDecayClocks (ca_plans c) t3)"
    by (simp only: b(15) afterBlock_overlay [OF b(14)] ledger_reads t(6) [symmetric])
  have settled: "karmaOwed face (lg_records (afterBlock eff (ledgerOf v)) owner) ?h ?cfg = 0"
    if "(hex, owner, boxes) \<in> set (collectPostBodyKarma (o_getBox s0) (o_getKarmaBoxes s0) (map bodyTxOf queue) payees)"
    for hex owner boxes face
    unfolding after p(3)
    by (rule projection_settled [OF assms(3) o(1) that])
       (use 4 assms(4) clockStep_start in \<open>simp add: clocksRun_def\<close>)
  have touched: "karmaOwed face (lg_records (afterBlock eff (ledgerOf v)) owner) ?h ?cfg = 0"
    if m: "q \<in> set queue" "i \<in> set (inputs (q_tx q))" "v_getBox v i = Some x" "boxTail x = Karma owner inc"
    for q i x owner inc face
  proof -
    have "bodyTxOf q \<in> set (map bodyTxOf queue)" "i \<in> set (bt_inputs (bodyTxOf q))" "o_getBox s0 i = Some x"
      using m(1-3) b(6) by (simp_all add: bodyTxOf_def)
    from o(2) [OF this m(4)] settled show ?thesis by blast
  qed
  have paid: "karmaOwed face (lg_records (afterBlock eff (ledgerOf v)) owner) ?h ?cfg = 0"
    if m: "owner \<in> snd ` set payees" for owner face
  proof -
    obtain key where "(key, owner) \<in> set payees" using m by auto
    from o(3) [OF this] settled show ?thesis by blast
  qed
  show ?thesis
    using b(1) p(1) touched paid unfolding b(3) by (intro exI conjI) blast+
qed

lemma block_settles_decay_witness:
  "\<exists>eff. applyBlock chainH chainView chainBlock chainCtx = Inr eff \<and>
     karmaOwed 39 (lg_records (afterBlock eff (ledgerOf chainView)) kA) 5 (cx_decayCfg chainCtx) = 0"
proof -
  obtain eff where e: "applyBlock chainH chainView chainBlock chainCtx = Inr eff" using chain_block_accepted by blast
  have h: "h_height (header chainBlock) = 5" by (simp add: chainBlock_def chainHeader_def)
  have c: "cfg_ok (cx_decayCfg chainCtx)" "0 \<le> staleThresholdBlocks (cx_decayCfg chainCtx)"
    by (simp_all add: chainCtx_def cfg_ok_def decayCfgFor_def KARMA_DECAY_AMOUNT_def)
  have q: "likeQueued \<in> set [likeQueued]" "idOf (CHR ''a'') \<in> set (inputs (q_tx likeQueued))"
    "v_getBox chainView (idOf (CHR ''a'')) = Some likerBox" "boxTail likerBox = Karma kA False"
    by (simp_all add: likeQueued_def like_inputs ids liker_box)
  from block_settles_decay [OF chain_view_ok e c, unfolded h chain_decodes] q
  have "karmaOwed 39 (lg_records (afterBlock eff (ledgerOf chainView)) kA) 5 (cx_decayCfg chainCtx) = 0" by blast
  with e show ?thesis by blast
qed

end
