(* ===== verification/Pow.thy ===== *)
theory Pow
  imports Blocks Checks
begin

text \<open>
  The header rules of \<open>packages/validation/src/verify.ts\<close>: the header's encodable
  domain, the block hash and the proof-of-work preimage, the target a scaled
  difficulty stands for, the comparison of a digest with it, the work of a header,
  the ASERT schedule, the time rules and the superblock level.
\<close>

section \<open>The header's domain\<close>

definition isU64Safe :: "int \<Rightarrow> bool" where
  "isU64Safe v \<longleftrightarrow> isSafeInteger v \<and> v \<ge> 0"

definition isHex33 :: "string \<Rightarrow> bool" where
  "isHex33 v \<longleftrightarrow> length v = 66 \<and> list_all (\<lambda>c. c \<in> set HEX) v"

definition POW_TARGET_BITS_MAX :: int where "POW_TARGET_BITS_MAX = 65536"

datatype headerField = F_protocolVersion | F_height | F_prevBlockHash | F_utxoTxRoot | F_stateRoot
  | F_validatorId | F_powNonce | F_powTargetBits | F_createdAt | F_interlinkRoot | F_adProofsRoot

definition HEADER_DOMAIN :: "(headerField \<times> (blockHeader \<Rightarrow> bool) \<times> string) list" where
  "HEADER_DOMAIN =
     [(F_protocolVersion, \<lambda>h. isU64Safe (h_protocolVersion h), ''Block header protocolVersion must be a non-negative safe integer''),
      (F_height, \<lambda>h. isU64Safe (h_height h), ''Block header height must be a non-negative safe integer''),
      (F_prevBlockHash, \<lambda>h. isHex64 (prevBlockHash h), ''Block header prevBlockHash must be 64 lowercase hex characters''),
      (F_utxoTxRoot, \<lambda>h. isHex64 (utxoTxRoot h), ''Block header utxoTxRoot must be 64 lowercase hex characters''),
      (F_stateRoot, \<lambda>h. isHex33 (stateRoot h), ''Block header stateRoot must be 66 lowercase hex characters''),
      (F_validatorId, \<lambda>h. length (validatorId h) = 32, ''Block header validatorId must be exactly 32 bytes''),
      (F_powNonce, \<lambda>h. isU64Safe (powNonce h), ''Block header powNonce must be a non-negative safe integer''),
      (F_powTargetBits, \<lambda>h. isU64Safe (powTargetBits h) \<and> powTargetBits h \<le> POW_TARGET_BITS_MAX,
        ''Block header powTargetBits must be an integer in [0, 65536]''),
      (F_createdAt, \<lambda>h. isU64Safe (createdAt h), ''Block header createdAt must be a non-negative safe integer''),
      (F_interlinkRoot, \<lambda>h. isHex64 (h_interlinkRoot h), ''Block header interlinkRoot must be 64 lowercase hex characters''),
      (F_adProofsRoot, \<lambda>h. isHex64 (adProofsRoot h), ''Block header adProofsRoot must be 64 lowercase hex characters'')]"

definition firstHeaderDomainFailure :: "blockHeader \<Rightarrow> (headerField \<times> string) option" where
  "firstHeaderDomainFailure h =
     map_option (\<lambda>(field, ok, err). (field, err)) (List.find (\<lambda>(field, ok, err). \<not> ok h) HEADER_DOMAIN)"

definition verifyHeaderFieldDomains :: "blockHeader \<Rightarrow> verdict" where
  "verifyHeaderFieldDomains h = (case firstHeaderDomainFailure h of
     Some (_, err) \<Rightarrow> Inl (Refused err) | None \<Rightarrow> Inr ())"

section \<open>The hashes of a header\<close>

text \<open>\<open>null\<close> is \<open>Inr None\<close>; an encoder that throws is \<open>Inl\<close>.\<close>
definition blockHash :: "hash \<Rightarrow> blockHeader \<Rightarrow> string option res" where
  "blockHash H h = (if firstHeaderDomainFailure h \<noteq> None then Inr None
     else ebind (encodeHeader h) (\<lambda>bs. Inr (Some (bytesToHex (hash32 H [bs])))))"

definition computePowHash :: "hash \<Rightarrow> blockHeader \<Rightarrow> byte list option res" where
  "computePowHash H h = (if firstHeaderDomainFailure h \<noteq> None then Inr None
     else ebind (encodeHeader (h\<lparr>powNonce := 0\<rparr>)) (\<lambda>bs. Inr (Some (hash32 H [bs]))))"

text \<open>\<open>setBigUint64(0, n, true)\<close>: eight bytes, little endian.\<close>
fun leBytes :: "nat \<Rightarrow> int \<Rightarrow> byte list" where
  "leBytes 0 v = []"
| "leBytes (Suc n) v = word_of_int (v AND 255) # leBytes n (drop_bit 8 v)"

definition powHit :: "hash \<Rightarrow> blockHeader \<Rightarrow> byte list option res" where
  "powHit H h = ebind (computePowHash H h) (\<lambda>preimage. case preimage of
     None \<Rightarrow> Inr None
   | Some p \<Rightarrow> if \<not> isU64Safe (powNonce h) then Inr None
       else Inr (Some (hash32 H [p, leBytes 8 (powNonce h)])))"

section \<open>The target\<close>

definition ORDERING_TARGET_FACTORS :: "int list" where
  "ORDERING_TARGET_FACTORS =
     [0xff4ecb59511ec8a5301ba217ef18dd7c2f409857956d475fdb171474700cd72f09abbd9586cb942f,
      0xfe9e115c7b8f884badd25995e79d2f096934ec56be0d25443a7522ed803a527baa2398a03fbdc508,
      0xfd3e0c0cf486c174853f3a5931e0ee03061b7bb285a607919d2285b6754edd613ab745a256540c03,
      0xfa83b2db722a033a7c25bb14315d7fcc8006fe21a95d14dc4844b29bf4af18e84b0207166ee1375e,
      0xf5257d152486cc2c7b9d0c7aed980fc36f510308677709f5bdd80329364aa29fd22dd036f1906094,
      0xeac0c6e7dd24392ed02d75b3706e54fac4faace043b7f91c17d8d1e8ca31880ab338fcd2ac2ffbc8,
      0xd744fccad69d6af439a68bb9902d3fde1d733af522058b16b5c13ada0e778299efb01fda334bca9a,
      0xb504f333f9de6484597d89b3754abe9f1d6f60ba893ba84ced17ac85833399154afc83043ab8a2c3]"

definition ORDERING_TARGET_PRECISION :: nat where "ORDERING_TARGET_PRECISION = 320"

text \<open>The factors of the set bits of the fraction, multiplied at the precision.\<close>
definition mantissaOf :: "int \<Rightarrow> int" where
  "mantissaOf fraction =
     fold (\<lambda>j m. if drop_bit j fraction AND 1 \<noteq> 0
        then drop_bit ORDERING_TARGET_PRECISION (m * ORDERING_TARGET_FACTORS ! j) else m)
      [0..<8] (push_bit ORDERING_TARGET_PRECISION 1)"

definition targetValue :: "int \<Rightarrow> int" where
  "targetValue scaledBits =
     (let whole = drop_bit 8 scaledBits; fraction = scaledBits AND 255 in
      drop_bit ORDERING_TARGET_PRECISION (push_bit (nat (256 - whole)) (mantissaOf fraction)) - 1)"

text \<open>\<open>target[31]\<close> down to \<open>target[0]\<close> takes the low byte each time.\<close>
definition orderingPowTarget :: "int \<Rightarrow> byte list option" where
  "orderingPowTarget scaledBits =
     (if \<not> isSafeInteger scaledBits \<or> scaledBits < 0 \<or> scaledBits > POW_TARGET_BITS_MAX then None
      else Some (rev (leBytes 32 (targetValue scaledBits))))"

fun meetsPowTarget :: "byte list \<Rightarrow> byte list \<Rightarrow> bool" where
  "meetsPowTarget hash [] = True"
| "meetsPowTarget [] (c # cs) = False"
| "meetsPowTarget (h # hs) (c # cs) =
     (if h < c then True else if h > c then False else meetsPowTarget hs cs)"

definition verifyOrderingBlockPoW :: "hash \<Rightarrow> blockHeader \<Rightarrow> bool res" where
  "verifyOrderingBlockPoW H h = ebind (powHit H h) (\<lambda>hit. Inr (case hit of
     None \<Rightarrow> False
   | Some d \<Rightarrow> (case orderingPowTarget (powTargetBits h) of None \<Rightarrow> False | Some t \<Rightarrow> meetsPowTarget d t)))"

text \<open>The big-endian value of a digest.\<close>
definition beValue :: "byte list \<Rightarrow> int" where
  "beValue bs = foldl (\<lambda>t b. push_bit 8 t OR uint b) 0 bs"

definition blockWork :: "int \<Rightarrow> int option" where
  "blockWork scaledBits = (case orderingPowTarget scaledBits of
     None \<Rightarrow> None | Some target \<Rightarrow> Some (bdiv (push_bit 256 1) (beValue target + 1)))"

definition cumulativeWork :: "blockHeader list \<Rightarrow> int" where
  "cumulativeWork hs = foldl (\<lambda>s h. case blockWork (powTargetBits h) of None \<Rightarrow> s | Some w \<Rightarrow> s + w) 0 hs"

section \<open>The schedule and the time rules\<close>

record retargetParams =
  anchorBits :: int
  idealMs :: int
  halflifeMs :: int
  floorBits :: int
  ceilingBits :: int

text \<open>Division of bigints throws on a zero divisor.\<close>
definition asertTargetBits :: "retargetParams \<Rightarrow> int \<Rightarrow> int \<Rightarrow> int \<Rightarrow> int res" where
  "asertTargetBits params anchorCreatedAt pHeight pCreatedAt =
     (if \<not> isU64Safe pHeight \<or> \<not> isU64Safe pCreatedAt \<or> \<not> isU64Safe anchorCreatedAt then Inr 0
      else
        let delta = (pCreatedAt - anchorCreatedAt) - idealMs params * (pHeight - 1);
            numerator = delta * 256; divisor = halflifeMs params
        in if divisor = 0 then Inl OtherErr
           else
             let q0 = bdiv numerator divisor;
                 q = (if numerator - q0 * divisor \<noteq> 0 \<and> numerator < 0 then q0 - 1 else q0);
                 bits = anchorBits params - q;
                 bits1 = (if bits < floorBits params then floorBits params else bits)
             in Inr (if bits1 > ceilingBits params then ceilingBits params else bits1))"

definition verifyCreatedAtOrder :: "blockHeader \<Rightarrow> blockHeader \<Rightarrow> bool" where
  "verifyCreatedAtOrder h p \<longleftrightarrow> isU64Safe (createdAt h) \<and> isU64Safe (createdAt p) \<and> createdAt h > createdAt p"

definition MAX_FUTURE_DRIFT_MS :: int where "MAX_FUTURE_DRIFT_MS = 600000"

definition verifyCreatedAtBound :: "blockHeader \<Rightarrow> int \<Rightarrow> int \<Rightarrow> bool" where
  "verifyCreatedAtBound h nowMs maxDriftMs \<longleftrightarrow> isU64Safe (createdAt h) \<and> createdAt h \<le> nowMs + maxDriftMs"

section \<open>The superblock level\<close>

text \<open>The loop has no bound of its own: on a zero hit it runs for ever, which is \<open>None\<close>.\<close>
partial_function (option) levelLoop :: "int \<Rightarrow> int \<Rightarrow> nat \<Rightarrow> nat option" where
  "levelLoop h t mu = (if push_bit (mu + 1) h \<le> t then levelLoop h t (mu + 1) else Some mu)"

text \<open>The caller takes the loop's value; \<open>levelLoop_returns\<close> shows it has one here.\<close>
definition levelOfHit :: "byte list \<Rightarrow> byte list \<Rightarrow> blockLevel" where
  "levelOfHit hit target =
     (if length hit \<noteq> 32 \<or> length target \<noteq> 32 then NoLevel
      else let h = beValue hit; t = beValue target in
        if h = 0 then Level LEVEL_CAP
        else if h > t then NoLevel
        else Level (int (the (levelLoop h t 0))))"

definition level :: "hash \<Rightarrow> blockHeader \<Rightarrow> int \<Rightarrow> blockLevel res" where
  "level H h anchor = (if h_height h = 1 then Inr Infinite
     else ebind (powHit H h) (\<lambda>hit. Inr (case hit of
       None \<Rightarrow> NoLevel
     | Some d \<Rightarrow> (case orderingPowTarget anchor of None \<Rightarrow> NoLevel | Some y \<Rightarrow> levelOfHit d y))))"

section \<open>A block against the one before it\<close>

definition verifyBlockChainLink :: "hash \<Rightarrow> orderingBlock \<Rightarrow> blockHeader \<Rightarrow> bool res" where
  "verifyBlockChainLink H b prevHeader = ebind (blockHash H prevHeader) (\<lambda>prevHash. Inr (case prevHash of
     None \<Rightarrow> False
   | Some p \<Rightarrow> prevBlockHash (header b) = p \<and> h_height (header b) = h_height prevHeader + 1))"

end
