(* ===== verification/PowLaws.thy ===== *)
theory PowLaws
  imports Pow BlockLaws
begin

text \<open>
  The arithmetic of the header rules: digests and targets are compared as the numbers
  they spell, the target of a scaled difficulty lies in its octave (what it is exactly
  is in \<open>PowTarget\<close>), the schedule is the floor formula clamped to its band, the level is the
  largest exponent the hit leaves room for, and a header of the domain always hashes.
\<close>

section \<open>Bytes as numbers\<close>

lemma beValue_snoc: "beValue (bs @ [b]) = beValue bs * 256 + uint b"
proof -
  have "uint b OR push_bit 8 (beValue bs) = uint b + 2 ^ 8 * beValue bs" by (rule or_disjoint_int) simp_all
  then show ?thesis by (simp add: beValue_def or.commute)
qed

lemma beValue_Nil [simp]: "beValue [] = 0"
  by (simp add: beValue_def)

lemma beValue_bounds: "0 \<le> beValue bs \<and> beValue bs < 256 ^ length bs"
proof (induction bs rule: rev_induct)
  case (snoc b bs)
  have "beValue bs * 256 + uint b < 256 ^ length bs * 256"
    using snoc byte_uint_range(2) [of b] by linarith
  then show ?case using snoc by (simp add: beValue_snoc)
qed simp

lemma beValue_Cons: "beValue (b # bs) = uint b * 256 ^ length bs + beValue bs"
proof (induction bs rule: rev_induct)
  case Nil
  show ?case using beValue_snoc [of "[]" b] by simp
next
  case (snoc c bs)
  have "beValue ((b # bs) @ [c]) = (uint b * 256 ^ length bs + beValue bs) * 256 + uint c"
    by (simp only: beValue_snoc snoc)
  then show ?case by (simp add: beValue_snoc algebra_simps)
qed

lemma leBytes_length [simp]: "length (leBytes n v) = n"
  by (induction n v rule: leBytes.induct) simp_all

lemma leBytes_value:
  assumes "0 \<le> v"
  shows "beValue (rev (leBytes n v)) = v mod 256 ^ n"
  using assms
proof (induction n v rule: leBytes.induct)
  case (2 n v)
  have b: "uint (word_of_int (v AND 255) :: byte) = v mod 256"
  proof -
    have "v AND 255 = v mod 256" using take_bit_eq_mask [of 8 v] by (simp add: take_bit_eq_mod mask_eq_exp_minus_1)
    then show ?thesis by simp
  qed
  have "beValue (rev (leBytes (Suc n) v)) = (v div 256) mod 256 ^ n * 256 + v mod 256"
    using "2.IH" "2.prems" by (simp add: beValue_snoc b drop_bit_eq_div)
  also have "\<dots> = v mod 256 ^ Suc n" by (simp add: zmod_zmult2_eq mult.commute)
  finally show ?case .
qed simp

section \<open>The comparison\<close>

lemma meets_value: "length hash = length target \<Longrightarrow> meetsPowTarget hash target \<longleftrightarrow> beValue hash \<le> beValue target"
proof (induction hash target rule: meetsPowTarget.induct)
  case (3 h hs c cs)
  let ?p = "256 ^ length hs :: int"
  have l: "length hs = length cs" using "3.prems" by simp
  have b: "0 \<le> beValue hs" "beValue hs < ?p" "0 \<le> beValue cs" "beValue cs < ?p"
    using beValue_bounds [of hs] beValue_bounds [of cs] l by simp_all
  have lt: "uint x * ?p + y < uint x' * ?p + y'" if "x < x'" "y < ?p" "0 \<le> y'" for x x' :: byte and y y' :: int
  proof -
    have "uint x + 1 \<le> uint x'" using that(1) by (simp add: word_less_def)
    then have "(uint x + 1) * ?p \<le> uint x' * ?p" by (intro mult_right_mono) simp_all
    then show ?thesis using that by (simp add: algebra_simps)
  qed
  consider "h < c" | "c < h" | "h = c" by (meson not_less_iff_gr_or_eq)
  then show ?case
  proof cases
    case 1
    then show ?thesis using lt [of h c "beValue hs" "beValue cs"] b l by (simp add: beValue_Cons)
  next
    case 2
    then show ?thesis using lt [of c h "beValue cs" "beValue hs"] b l by (simp add: beValue_Cons)
  next
    case 3
    then show ?thesis using "3.IH" l by (simp add: beValue_Cons)
  qed
qed simp_all

lemma meets_prefix: "meetsPowTarget hash target \<Longrightarrow> length hash \<le> length target \<Longrightarrow> meetsPowTarget (hash @ ext) target"
  by (induction hash target rule: meetsPowTarget.induct) (auto split: if_splits)

text \<open>A digest meets a target exactly when the number it spells is at most the
  target's, both big endian; a short digest meets it only if every digest of full
  length that extends it does.\<close>
theorem meets_target_numeric:
  shows "(length hash = length target \<longrightarrow> meetsPowTarget hash target = (beValue hash \<le> beValue target)) \<and>
    (length hash < length target \<longrightarrow> meetsPowTarget hash target \<longrightarrow>
      (\<forall>ext. length (hash @ ext) = length target \<longrightarrow> beValue (hash @ ext) \<le> beValue target))"
  using meets_value meets_prefix by (metis less_or_eq_imp_le)

lemma meets_target_numeric_witness:
  "meetsPowTarget [1, 200] [2, 0] \<and> beValue [1, 200] \<le> beValue [2, 0]"
  using meets_target_numeric [of "[1, 200]" "[2, 0]"] by (simp add: beValue_Cons)

section \<open>The level\<close>

lemma levelLoop_step:
  assumes "0 < h" "h * 2 ^ mu \<le> t"
  shows "\<exists>m. levelLoop h t mu = Some m \<and> mu \<le> m \<and> h * 2 ^ m \<le> t \<and> t < h * 2 ^ (m + 1)"
  using assms(2)
proof (induction "nat (t - h * 2 ^ mu)" arbitrary: mu rule: less_induct)
  case less
  show ?case
  proof (cases "push_bit (mu + 1) h \<le> t")
    case True
    then have le: "h * 2 ^ (mu + 1) \<le> t" by (simp add: push_bit_eq_mult)
    have "h * 2 ^ mu < h * 2 ^ (mu + 1)" using assms(1) by simp
    then have "nat (t - h * 2 ^ (mu + 1)) < nat (t - h * 2 ^ mu)" using le by linarith
    from less.hyps [OF this le] obtain m where "levelLoop h t (mu + 1) = Some m" "mu + 1 \<le> m"
        "h * 2 ^ m \<le> t" "t < h * 2 ^ (m + 1)" by blast
    then show ?thesis using True by (subst levelLoop.simps) auto
  next
    case False
    then have "levelLoop h t mu = Some mu" "t < h * 2 ^ (mu + 1)"
      by (subst levelLoop.simps, simp) (use False in \<open>simp add: push_bit_eq_mult\<close>)
    then show ?thesis using less.prems by auto
  qed
qed

text \<open>C23: the level loop returns for every hit that is not zero and at most the
  target, with the largest exponent the hit leaves room for.\<close>
theorem level_loop_terminates:
  assumes "0 < h" "h \<le> t"
  shows "\<exists>m. levelLoop h t 0 = Some m \<and> h * 2 ^ m \<le> t \<and> t < h * 2 ^ (m + 1)"
  using levelLoop_step [of h 0 t] assms by auto

lemma level_loop_terminates_witness: "levelLoop 3 100 0 = Some 5"
proof -
  obtain m where m: "levelLoop 3 100 0 = Some m" "(3::int) * 2 ^ m \<le> 100" "100 < (3::int) * 2 ^ (m + 1)"
    using level_loop_terminates [of 3 100] by auto
  have "m = 5"
  proof (rule ccontr)
    assume "m \<noteq> 5"
    then consider "m \<le> 4" | "6 \<le> m" by linarith
    then show False
    proof cases
      case 1
      then have "(2::int) ^ (m + 1) \<le> 2 ^ 5" by (intro power_increasing) simp_all
      then show False using m(3) by simp
    next
      case 2
      then have "(2::int) ^ 6 \<le> 2 ^ m" by (intro power_increasing) simp_all
      then show False using m(2) by simp
    qed
  qed
  then show ?thesis using m(1) by simp
qed

lemma levelOfHit_cases:
  assumes "length hit = 32" "length target = 32"
  obtains (Zero) "beValue hit = 0" "levelOfHit hit target = Level LEVEL_CAP"
  | (Above) "beValue target < beValue hit" "levelOfHit hit target = NoLevel"
  | (At) m where "levelOfHit hit target = Level (int m)" "beValue hit * 2 ^ m \<le> beValue target"
      "beValue target < beValue hit * 2 ^ (m + 1)" "m < 256" "0 < beValue hit"
proof -
  consider "beValue hit = 0" | "beValue target < beValue hit" | "0 < beValue hit" "beValue hit \<le> beValue target"
    using beValue_bounds [of hit] by linarith
  then show thesis
  proof cases
    case 1
    then show thesis using assms Zero by (simp add: levelOfHit_def)
  next
    case 2
    moreover have "beValue hit \<noteq> 0" using 2 beValue_bounds [of target] by linarith
    ultimately show thesis using assms Above by (simp add: levelOfHit_def Let_def)
  next
    case 3
    obtain m where m: "levelLoop (beValue hit) (beValue target) 0 = Some m"
        "beValue hit * 2 ^ m \<le> beValue target" "beValue target < beValue hit * 2 ^ (m + 1)"
      using levelLoop_step [of "beValue hit" 0 "beValue target"] 3 by auto
    have "(2::int) ^ m \<le> beValue hit * 2 ^ m" using 3(1) by simp
    also have "\<dots> < 256 ^ 32" using m(2) beValue_bounds [of target, unfolded assms(2)] by linarith
    also have "(256::int) ^ 32 = 2 ^ 256" by simp
    finally have "m < 256" by (rule power_less_imp_less_exp [rotated]) simp
    then show thesis using At [of m] m 3 assms by (simp add: levelOfHit_def Let_def)
  qed
qed

text \<open>The level of a 32-byte hit under a 32-byte target is the largest \<open>m\<close> with
  \<open>hit * 2^m \<le> target\<close>, \<open>LEVEL_CAP\<close> for a zero hit, none above the target, and
  always within the bound the interlink update accepts.\<close>
theorem level_is_largest:
  assumes "length hit = 32" "length target = 32"
  shows "case levelOfHit hit target of
      Level L \<Rightarrow> 0 \<le> L \<and> L \<le> LEVEL_CAP \<and>
        (if beValue hit = 0 then L = LEVEL_CAP
         else \<forall>m. beValue hit * 2 ^ m \<le> beValue target \<longleftrightarrow> int m \<le> L)
    | NoLevel \<Rightarrow> beValue target < beValue hit
    | Infinite \<Rightarrow> False"
using assms
proof (cases rule: levelOfHit_cases)
  case Zero
  then show ?thesis by (simp add: LEVEL_CAP_def)
next
  case Above
  then show ?thesis by simp
next
  case (At m)
  have "beValue hit * 2 ^ j \<le> beValue target \<longleftrightarrow> j \<le> m" for j
  proof
    assume j: "beValue hit * 2 ^ j \<le> beValue target"
    show "j \<le> m"
    proof (rule ccontr)
      assume "\<not> j \<le> m"
      then have "(2::int) ^ (m + 1) \<le> 2 ^ j" by (intro power_increasing) simp_all
      then have "beValue hit * 2 ^ (m + 1) \<le> beValue hit * 2 ^ j" using At(5) by (intro mult_left_mono) simp_all
      then show False using j At(3) by linarith
    qed
  next
    assume "j \<le> m"
    then have "(2::int) ^ j \<le> 2 ^ m" by (intro power_increasing) simp_all
    then have "beValue hit * 2 ^ j \<le> beValue hit * 2 ^ m" using At(5) by (intro mult_left_mono) simp_all
    then show "beValue hit * 2 ^ j \<le> beValue target" using At(2) by linarith
  qed
  then show ?thesis using At by (simp add: LEVEL_CAP_def)
qed

lemma level_is_largest_witness:
  "levelOfHit (replicate 31 0 @ [3]) (replicate 31 0 @ [100]) = Level 5"
proof -
  have z: "beValue (replicate n 0 @ [b]) = uint b" for n b
    by (induction n) (simp_all add: beValue_Cons)
  have "\<exists>L. levelOfHit (replicate 31 0 @ [3]) (replicate 31 0 @ [100]) = Level L \<and> (\<forall>m. (3::int) * 2 ^ m \<le> 100 \<longleftrightarrow> int m \<le> L)"
    using level_is_largest [of "replicate 31 0 @ [3]" "replicate 31 0 @ [100]"] by (simp add: z split: blockLevel.splits)
  then obtain L where L: "levelOfHit (replicate 31 0 @ [3]) (replicate 31 0 @ [100]) = Level L"
      "\<And>m. (3::int) * 2 ^ m \<le> 100 \<longleftrightarrow> int m \<le> L" by auto
  have "5 \<le> L" "\<not> 6 \<le> L" using L(2) [of 5] L(2) [of 6] by simp_all
  then show ?thesis using L(1) by simp
qed

section \<open>The target\<close>

lemma factors_below: "j < 8 \<Longrightarrow> 0 \<le> ORDERING_TARGET_FACTORS ! j \<and> ORDERING_TARGET_FACTORS ! j \<le> 2 ^ 320"
  by (auto simp: ORDERING_TARGET_FACTORS_def less_Suc_eq numeral_eq_Suc)

text \<open>Leaving factors out only raises the mantissa.\<close>
lemma mantissa_between:
  assumes "\<forall>j\<in>set js. j < 8" "0 \<le> M" "M \<le> m"
  shows "fold (\<lambda>j m. drop_bit 320 (m * ORDERING_TARGET_FACTORS ! j)) js M \<le>
      fold (\<lambda>j m. if P j then drop_bit 320 (m * ORDERING_TARGET_FACTORS ! j) else m) js m \<and>
    fold (\<lambda>j m. if P j then drop_bit 320 (m * ORDERING_TARGET_FACTORS ! j) else m) js m \<le> m"
  using assms
proof (induction js arbitrary: M m)
  case (Cons j js)
  let ?a = "\<lambda>m. drop_bit 320 (m * ORDERING_TARGET_FACTORS ! j)"
  have F: "0 \<le> ORDERING_TARGET_FACTORS ! j" "ORDERING_TARGET_FACTORS ! j \<le> 2 ^ 320"
    using factors_below [of j] Cons.prems(1) by simp_all
  have up: "?a x \<le> x" if "0 \<le> x" for x
  proof -
    have "x * ORDERING_TARGET_FACTORS ! j \<le> x * 2 ^ 320" using F that by (intro mult_left_mono)
    then have "?a x \<le> (x * 2 ^ 320) div 2 ^ 320" unfolding drop_bit_eq_div by (rule zdiv_mono1) simp
    then show ?thesis by simp
  qed
  have mono: "?a x \<le> ?a y" if "x \<le> y" for x y
    unfolding drop_bit_eq_div using F that by (intro zdiv_mono1 mult_right_mono) simp_all
  have "0 \<le> ?a M" unfolding drop_bit_eq_div using F Cons.prems(2) by (intro pos_imp_zdiv_nonneg_iff [THEN iffD2]) simp_all
  moreover have "?a M \<le> (if P j then ?a m else m)"
    using mono [OF Cons.prems(3)] up [of m] Cons.prems(2,3) up [of M] by simp
  moreover have "(if P j then ?a m else m) \<le> m" using up [of m] Cons.prems(2,3) by simp
  moreover have "\<forall>j\<in>set js. j < 8" using Cons.prems(1) by simp
  ultimately show ?case using Cons.IH [of "?a M" "if P j then ?a m else m"] by simp
qed simp

lemma all_factors: "(2::int) ^ 319 \<le> fold (\<lambda>j m. drop_bit 320 (m * ORDERING_TARGET_FACTORS ! j)) [0..<8] (2 ^ 320)"
  by code_simp

lemma mantissa_bounds: "2 ^ 319 \<le> mantissaOf f \<and> mantissaOf f \<le> 2 ^ 320"
proof -
  have m: "mantissaOf f = fold (\<lambda>j m. if drop_bit j f AND 1 \<noteq> 0
      then drop_bit 320 (m * ORDERING_TARGET_FACTORS ! j) else m) [0..<8] (2 ^ 320)"
    unfolding mantissaOf_def ORDERING_TARGET_PRECISION_def push_bit_eq_mult by simp
  have js: "\<forall>j\<in>set [0..<8]. j < 8" by simp
  have "(0::int) \<le> 2 ^ 320" by (rule zero_le_power) simp
  from mantissa_between [OF js this order.refl, of "\<lambda>j. drop_bit j f AND 1 \<noteq> 0"] all_factors
  show ?thesis unfolding m by (meson order_trans)
qed

lemma mantissa_whole: "mantissaOf 0 = 2 ^ 320"
proof -
  have "fold (\<lambda>j m. if drop_bit j 0 AND 1 \<noteq> (0::int) then g j m else m) js m = m" for g and js :: "nat list" and m :: int
    by (induction js arbitrary: m) simp_all
  then show ?thesis by (simp add: mantissaOf_def ORDERING_TARGET_PRECISION_def push_bit_eq_mult)
qed

lemma target_octave:
  assumes "0 \<le> b" "b \<le> POW_TARGET_BITS_MAX" "w = nat (b div 256)"
  shows "2 ^ (255 - w) \<le> targetValue b + 1" "targetValue b + 1 \<le> 2 ^ (256 - w)"
    "b mod 256 = 0 \<Longrightarrow> targetValue b + 1 = 2 ^ (256 - w)"
proof -
  have w: "w \<le> 256" "int w = b div 256" using assms by (auto simp: POW_TARGET_BITS_MAX_def)
  have m255: "b AND 255 = b mod 256" using take_bit_eq_mask [of 8 b] by (simp add: take_bit_eq_mod mask_eq_exp_minus_1)
  have v: "targetValue b + 1 = (mantissaOf (b mod 256) * 2 ^ (256 - w)) div 2 ^ 320"
  proof -
    have "nat (256 - drop_bit 8 b) = 256 - w" using w by (simp add: drop_bit_eq_div nat_diff_distrib flip: w(2))
    then show ?thesis
      by (simp add: targetValue_def Let_def m255 ORDERING_TARGET_PRECISION_def push_bit_eq_mult drop_bit_eq_div)
  qed
  note mb = mantissa_bounds [of "b mod 256"]
  have whole: "targetValue b + 1 = 2 ^ (256 - w)" if "b mod 256 = 0"
    using that by (simp add: v mantissa_whole)
  show "b mod 256 = 0 \<Longrightarrow> targetValue b + 1 = 2 ^ (256 - w)" by (rule whole)
  have "mantissaOf (b mod 256) * 2 ^ (256 - w) \<le> 2 ^ 320 * 2 ^ (256 - w)"
    using mb by (intro mult_right_mono) simp_all
  then have "(mantissaOf (b mod 256) * 2 ^ (256 - w)) div 2 ^ 320 \<le> (2 ^ 320 * 2 ^ (256 - w)) div 2 ^ 320"
    by (rule zdiv_mono1) simp
  then show "targetValue b + 1 \<le> 2 ^ (256 - w)" by (simp add: v)
  show "2 ^ (255 - w) \<le> targetValue b + 1"
  proof (cases "w = 256")
    case True
    then have "b = 65536" using w assms(2) by (simp add: POW_TARGET_BITS_MAX_def)
    then show ?thesis using whole True by simp
  next
    case False
    then have e: "256 - w = Suc (255 - w)" using w by simp
    have "(2::int) ^ 319 * 2 ^ (256 - w) \<le> mantissaOf (b mod 256) * 2 ^ (256 - w)"
      using mb by (intro mult_right_mono) simp_all
    then have "(2 ^ 319 * 2 ^ (256 - w)) div 2 ^ 320 \<le> (mantissaOf (b mod 256) * 2 ^ (256 - w)) div 2 ^ 320"
      by (rule zdiv_mono1) simp
    moreover have "((2::int) ^ 319 * 2 ^ (256 - w)) div 2 ^ 320 = 2 ^ (255 - w)"
    proof -
      have "(2::int) ^ 319 * 2 ^ (256 - w) = 2 ^ (255 - w) * 2 ^ 320" unfolding e by simp
      then show ?thesis by (metis nonzero_mult_div_cancel_right power_not_zero zero_neq_numeral)
    qed
    ultimately show ?thesis by (simp add: v)
  qed
qed

lemma orderingPowTarget_value:
  assumes "0 \<le> b" "b \<le> POW_TARGET_BITS_MAX"
  shows "\<exists>t. orderingPowTarget b = Some t \<and> length t = 32 \<and> beValue t = targetValue b"
proof -
  have lo: "(0::int) < 2 ^ (255 - nat (b div 256))" by simp
  have hi: "(2::int) ^ (256 - nat (b div 256)) \<le> 256 ^ 32" using power_increasing [of "256 - nat (b div 256)" 256 "2::int"] by simp
  have "0 \<le> targetValue b" "targetValue b < 256 ^ 32"
    using target_octave(1,2) [OF assms refl] lo hi by linarith+
  then have "beValue (rev (leBytes 32 (targetValue b))) = targetValue b" by (simp add: leBytes_value)
  moreover have "orderingPowTarget b = Some (rev (leBytes 32 (targetValue b)))"
    using assms by (simp add: orderingPowTarget_def isSafeInteger_def POW_TARGET_BITS_MAX_def MAX_SAFE_INTEGER_def)
  ultimately show ?thesis by simp
qed

section \<open>The schedule\<close>

lemma bdiv_floor:
  assumes "0 < d"
  shows "(if n - bdiv n d * d \<noteq> 0 \<and> n < 0 then bdiv n d - 1 else bdiv n d) = n div d"
proof (cases "0 \<le> n")
  case True
  then show ?thesis using assms by (simp add: bdiv_nonneg)
next
  case False
  then have b: "bdiv n d = - (- n div d)" using assms by (simp add: bdiv_def)
  have "n - bdiv n d * d = - (- n mod d)" unfolding b using div_mult_mod_eq [of "- n" d] by linarith
  then show ?thesis
    using False b zdiv_zminus1_eq_if [of d "- n"] assms by (auto split: if_splits)
qed

text \<open>the schedule is the floor formula clamped to its band: the bits above the
  anchor fall by 256 for every half-life the parent is behind the ideal pace, rounded
  down; a later parent never gets a higher target, and the only exception is a zero
  half-life.\<close>
theorem asert_floor_formula:
  assumes "isU64Safe pHeight" "isU64Safe pCreatedAt" "isU64Safe t" "0 < halflifeMs params"
  shows "asertTargetBits params t pHeight pCreatedAt = Inr (min (ceilingBits params) (max (floorBits params)
      (anchorBits params - (pCreatedAt - t - idealMs params * (pHeight - 1)) * 256 div halflifeMs params))) \<and>
    (\<forall>later a b. isU64Safe later \<and> pCreatedAt \<le> later \<and> asertTargetBits params t pHeight pCreatedAt = Inr a \<and>
       asertTargetBits params t pHeight later = Inr b \<longrightarrow> b \<le> a)"
proof -
  let ?f = "\<lambda>c. min (ceilingBits params) (max (floorBits params)
      (anchorBits params - (c - t - idealMs params * (pHeight - 1)) * 256 div halflifeMs params))"
  have f: "asertTargetBits params t pHeight c = Inr (?f c)" if "isU64Safe c" for c
  proof -
    have "\<not> (\<not> isU64Safe pHeight \<or> \<not> isU64Safe c \<or> \<not> isU64Safe t)" "halflifeMs params \<noteq> 0" using assms that by simp_all
    then show ?thesis
      unfolding asertTargetBits_def Let_def by (simp only: if_False bdiv_floor [OF assms(4)]) (simp add: min_def max_def)
  qed
  have "?f d \<le> ?f c" if "c \<le> d" for c d
  proof -
    have "(c - t - idealMs params * (pHeight - 1)) * 256 div halflifeMs params
        \<le> (d - t - idealMs params * (pHeight - 1)) * 256 div halflifeMs params"
      using assms(4) that by (intro zdiv_mono1) simp_all
    then show ?thesis by (auto simp: min_def max_def)
  qed
  then show ?thesis using f assms(2) by auto
qed

lemma asert_floor_formula_witness:
  "asertTargetBits \<lparr>anchorBits = 4096, idealMs = 60000, halflifeMs = 3600000, floorBits = 2304, ceilingBits = 65536\<rparr>
     1000 11 600999 = Inr 4097"
proof -
  let ?p = "\<lparr>anchorBits = 4096, idealMs = 60000, halflifeMs = 3600000, floorBits = 2304, ceilingBits = 65536\<rparr>"
  have s: "isU64Safe 11" "isU64Safe 600999" "isU64Safe 1000" "0 < halflifeMs ?p"
    by (simp_all add: isU64Safe_def isSafeInteger_def MAX_SAFE_INTEGER_def)
  from asert_floor_formula [OF s] have "asertTargetBits ?p 1000 11 600999 = Inr 4097" by simp
  then show ?thesis by simp
qed

section \<open>A header of the domain hashes\<close>

lemma header_domain:
  "firstHeaderDomainFailure h = None \<longleftrightarrow>
     isU64Safe (h_protocolVersion h) \<and> isU64Safe (h_height h) \<and> isHex64 (prevBlockHash h) \<and> isHex64 (utxoTxRoot h) \<and>
     isHex33 (stateRoot h) \<and> length (validatorId h) = 32 \<and> isU64Safe (powNonce h) \<and> isU64Safe (powTargetBits h) \<and>
     powTargetBits h \<le> POW_TARGET_BITS_MAX \<and> isU64Safe (createdAt h) \<and> isHex64 (h_interlinkRoot h) \<and>
     isHex64 (adProofsRoot h)"
proof -
  have "firstHeaderDomainFailure h = None \<longleftrightarrow> (\<forall>x\<in>set HEADER_DOMAIN. (fst \<circ> snd) x h)"
    unfolding firstHeaderDomainFailure_def option.map_disc_iff find_None_iff case_prod_beta comp_def by blast
  then show ?thesis by (simp add: HEADER_DOMAIN_def)
qed

lemma isHex64_width: "isHex64 s \<longleftrightarrow> (\<exists>bs. length bs = 32 \<and> s = bytesToHex bs)"
  by (auto simp: isHex64_def hexToBytesExact_iff)

lemma hexPairs_total:
  "list_all (\<lambda>c. c \<in> set HEX) s \<Longrightarrow> even (length s) \<Longrightarrow> \<exists>bs. hexPairs s = Some bs"
proof (induction s rule: hexPairs.induct)
  case (3 c d cs)
  have n: "\<not> indexOf x HEX 0 < 0" if mem: "x \<in> set HEX" for x
  proof -
    obtain i where "i < length HEX" "x = HEX ! i" using mem by (auto simp: in_set_conv_nth)
    then show ?thesis using indexOf_HEX_nth [of i] by (simp add: HEX_facts)
  qed
  have cd: "c \<in> set HEX" "d \<in> set HEX" "list_all (\<lambda>c. c \<in> set HEX) cs" "even (length cs)"
    using "3.prems" by simp_all
  then obtain bs where "hexPairs cs = Some bs" using "3.IH" [OF refl refl] n by blast
  then show ?case using n [OF cd(1)] n [OF cd(2)] by (simp add: Let_def)
qed simp_all

lemma isHex33_width: "isHex33 s \<Longrightarrow> \<exists>bs. length bs = 33 \<and> s = bytesToHex bs"
proof -
  assume h: "isHex33 s"
  then obtain bs where "hexPairs s = Some bs" using hexPairs_total [of s] by (auto simp: isHex33_def)
  then have "s = bytesToHex bs" using hexPairs_inverse by blast
  moreover from this h have "length bs = 33" using bytesToHex_length [of bs] by (simp add: isHex33_def)
  ultimately show ?thesis by blast
qed

lemma domain_encodes:
  assumes "firstHeaderDomainFailure h = None"
  shows "\<exists>bs. encodeHeader h = Inr bs" "header_dom h"
proof -
  have d: "isU64Safe (h_protocolVersion h)" "isU64Safe (h_height h)" "isHex64 (prevBlockHash h)" "isHex64 (utxoTxRoot h)"
      "isHex33 (stateRoot h)" "length (validatorId h) = 32" "isU64Safe (powNonce h)" "isU64Safe (powTargetBits h)"
      "isU64Safe (createdAt h)" "isHex64 (h_interlinkRoot h)" "isHex64 (adProofsRoot h)"
    using assms by (simp_all add: header_domain)
  have v: "\<exists>bs. writeVlqU n = Inr bs" for n by (simp add: writeVlqU_bytes)
  have x: "\<exists>bs. writeHexNOrThrow s 32 = Inr bs" if "isHex64 s" for s
    using that by (auto simp: isHex64_width writeHexN_eq)
  have y: "\<exists>bs. writeHexNOrThrow (stateRoot h) 33 = Inr bs"
    using isHex33_width [OF d(5)] by (auto simp: writeHexN_eq)
  have "\<exists>bs. writeHeader h = Inr bs"
    unfolding writeHeader_def
    using v [of "h_protocolVersion h"] v [of "h_height h"] v [of "powNonce h"] v [of "powTargetBits h"] v [of "createdAt h"]
      x [OF d(3)] x [OF d(4)] x [OF d(10)] x [OF d(11)] y d(6)
    by (auto simp: wcat_Cons_eq wcat_Nil_eq writeBytesN_eq simp del: wcat.simps)
  then show "\<exists>bs. encodeHeader h = Inr bs" by (simp add: encodeHeader_def encodeStruct_def HEADER_def)
  show "header_dom h" using d by (simp add: header_dom_def isEncodableVlqU_def isU64Safe_def)
qed

text \<open>The pre-nonce form of a header of the domain is one too.\<close>
lemma domain_nonce: "firstHeaderDomainFailure h = None \<Longrightarrow> firstHeaderDomainFailure (h\<lparr>powNonce := 0\<rparr>) = None"
  by (simp add: header_domain isU64Safe_def isSafeInteger_def MAX_SAFE_INTEGER_def)

lemma blockHash_Some:
  "blockHash H h = Inr (Some x) \<longleftrightarrow> firstHeaderDomainFailure h = None \<and>
     (\<exists>bs. encodeHeader h = Inr bs \<and> x = bytesToHex (hash32 H [bs]))"
  by (cases "firstHeaderDomainFailure h = None") (auto simp: blockHash_def bind_iff)

lemma blockHash_total: "\<exists>r. blockHash H h = Inr r \<and> (r = None \<longleftrightarrow> firstHeaderDomainFailure h \<noteq> None)"
proof (cases "firstHeaderDomainFailure h = None")
  case True
  then show ?thesis using domain_encodes(1) [OF True] by (auto simp: blockHash_def)
qed (simp add: blockHash_def)

lemma powHit_total: "\<exists>r. powHit H h = Inr r \<and> (r = None \<longleftrightarrow> firstHeaderDomainFailure h \<noteq> None)"
proof (cases "firstHeaderDomainFailure h = None")
  case True
  have "isU64Safe (powNonce h)" using True by (simp add: header_domain)
  then show ?thesis using True domain_encodes(1) [OF domain_nonce [OF True]] by (auto simp: powHit_def computePowHash_def)
qed (simp add: powHit_def computePowHash_def)

text \<open>The hash of a header never throws and is absent exactly outside the domain; two
  headers of one hash are one header unless their encodings are a collision of the
  truncated digest; and the proof-of-work preimage leaves out the nonce alone.\<close>
theorem block_hash_binds_header:
  shows "(\<exists>r. blockHash H h = Inr r \<and> (r = None \<longleftrightarrow> verifyHeaderFieldDomains h \<noteq> Inr ())) \<and>
    (blockHash H h = Inr (Some x) \<and> blockHash H h' = Inr (Some x) \<longrightarrow>
       h = h' \<or> (\<exists>p p'. p \<noteq> p' \<and> hash32 H [p] = hash32 H [p'])) \<and>
    (\<forall>n. isU64Safe n \<longrightarrow> computePowHash H (h\<lparr>powNonce := n\<rparr>) = computePowHash H (h\<lparr>powNonce := 0\<rparr>))"
proof (intro conjI impI allI)
  show "\<exists>r. blockHash H h = Inr r \<and> (r = None \<longleftrightarrow> verifyHeaderFieldDomains h \<noteq> Inr ())"
    using blockHash_total [of H h] by (cases "firstHeaderDomainFailure h") (auto simp: verifyHeaderFieldDomains_def)
next
  assume "blockHash H h = Inr (Some x) \<and> blockHash H h' = Inr (Some x)"
  then obtain p p' where p: "firstHeaderDomainFailure h = None" "encodeHeader h = Inr p" "x = bytesToHex (hash32 H [p])"
      "firstHeaderDomainFailure h' = None" "encodeHeader h' = Inr p'" "x = bytesToHex (hash32 H [p'])"
    by (auto simp: blockHash_Some)
  show "h = h' \<or> (\<exists>p p'. p \<noteq> p' \<and> hash32 H [p] = hash32 H [p'])"
  proof (cases "p = p'")
    case True
    have "h = h'"
      using header_codec.encode_inject [OF domain_encodes(2) [OF p(1)] domain_encodes(2) [OF p(4)]] p(2,5) True
      by (simp add: encodeHeader_def)
    then show ?thesis ..
  next
    case False
    moreover have "hash32 H [p] = hash32 H [p']" using p(3,6) by simp
    ultimately show ?thesis by blast
  qed
next
  fix n assume n: "isU64Safe n"
  have "isU64Safe 0" by (simp add: isU64Safe_def isSafeInteger_def MAX_SAFE_INTEGER_def)
  then have "firstHeaderDomainFailure (h\<lparr>powNonce := n\<rparr>) = None \<longleftrightarrow>
      firstHeaderDomainFailure (h\<lparr>powNonce := 0\<rparr>) = None"
    using n by (simp add: header_domain)
  then show "computePowHash H (h\<lparr>powNonce := n\<rparr>) = computePowHash H (h\<lparr>powNonce := 0\<rparr>)"
    by (simp add: computePowHash_def)
qed

definition plainHeader :: "int \<Rightarrow> blockHeader" where
  "plainHeader nonce = \<lparr>h_protocolVersion = 1, h_height = 2, prevBlockHash = replicate 64 (CHR ''0''),
     utxoTxRoot = replicate 64 (CHR ''0''), stateRoot = replicate 66 (CHR ''0''), validatorId = replicate 32 0,
     powNonce = nonce, powTargetBits = 2304, createdAt = 1000, h_interlinkRoot = replicate 64 (CHR ''0''),
     adProofsRoot = replicate 64 (CHR ''0'')\<rparr>"

lemma block_hash_binds_header_witness:
  "\<exists>x. blockHash (\<lambda>bs. bs) (plainHeader 7) = Inr (Some x)"
proof -
  have v: "verifyHeaderFieldDomains (plainHeader 7) = Inr ()" by code_simp
  obtain r where r: "blockHash (\<lambda>bs. bs) (plainHeader 7) = Inr r" "r = None \<longleftrightarrow> verifyHeaderFieldDomains (plainHeader 7) \<noteq> Inr ()"
    using block_hash_binds_header [where H = "\<lambda>bs. bs" and h = "plainHeader 7"] by blast
  then show ?thesis using v by (cases r) simp_all
qed

end
