(* ===== verification/PowTarget.thy ===== *)
theory PowTarget
  imports Complex_Main PowLaws
begin

text \<open>
  What the proof-of-work target is: \<open>orderingPowTarget\<close> answers \<open>R - 1\<close> for the one
  \<open>R\<close> with \<open>R^256 \<le> 2^(65536 - bits) < (R + 1)^256\<close>, for every admitted difficulty.
  The factors are within 4 of the powers they stand for, so the mantissa of each of the
  256 fractions is within 40 of its exact value, and no multiple of \<open>2^64\<close> lies that
  close to one: truncation cannot move the target.
\<close>

section \<open>The factors\<close>

text \<open>The root the difficulty scale is built on: one unit is the 256th part of a bit.\<close>
definition unitRoot :: real where "unitRoot = root 256 (1 / 2)"

lemma unitRoot_facts: "0 < unitRoot" "unitRoot \<le> 1" "unitRoot ^ 256 = 1 / 2"
  by (simp_all add: unitRoot_def real_root_le_1_iff)

lemma unitRoot_power_le: "unitRoot ^ n \<le> 1" "0 < unitRoot ^ n"
  using unitRoot_facts by (simp_all add: power_le_one)

text \<open>Each factor against the square of the one below, both to within 4.\<close>
definition squaresNear :: "int \<Rightarrow> int \<Rightarrow> int \<Rightarrow> bool" where
  "squaresNear F lo hi \<longleftrightarrow>
     0 \<le> F - 4 \<and> (F - 4) * (F - 4) \<le> 2 ^ 320 * lo \<and> 2 ^ 320 * hi \<le> (F + 4) * (F + 4)"

lemma factors_chain: "list_all (\<lambda>j. squaresNear (ORDERING_TARGET_FACTORS ! j)
    (ORDERING_TARGET_FACTORS ! Suc j - 4) (ORDERING_TARGET_FACTORS ! Suc j + 4)) [0..<7]"
  by code_simp

lemma last_factor: "squaresNear (ORDERING_TARGET_FACTORS ! 7) (2 ^ 319) (2 ^ 319)"
  by code_simp

definition near :: "int \<Rightarrow> int \<Rightarrow> nat \<Rightarrow> bool" where
  "near m e n \<longleftrightarrow> of_int (m - e) \<le> 2 ^ 320 * unitRoot ^ n \<and> 2 ^ 320 * unitRoot ^ n \<le> of_int (m + e)"

lemma square_between:
  fixes x y :: real
  assumes "0 \<le> x" "x * x = of_int P * y" "of_int lo \<le> y" "y \<le> of_int hi" "0 \<le> P"
    and "0 \<le> a" "a * a \<le> P * lo" "P * hi \<le> b * b" "0 \<le> b"
  shows "of_int a \<le> x \<and> x \<le> of_int b"
proof -
  have "of_int (a * a) \<le> (of_int (P * lo) :: real)" using assms(7) by (simp only: of_int_le_iff)
  also have "\<dots> \<le> x * x" unfolding assms(2) of_int_mult using assms(3,5) by (intro mult_left_mono) simp_all
  finally have lo: "of_int a * of_int a \<le> x * x" by simp
  have "x * x \<le> of_int (P * hi)" unfolding assms(2) of_int_mult using assms(4,5) by (intro mult_left_mono) simp_all
  also have "\<dots> \<le> (of_int (b * b) :: real)" using assms(8) by (simp only: of_int_le_iff)
  finally have hi: "x * x \<le> of_int b * of_int b" by simp
  show ?thesis
    using lo hi assms(1,6,9) abs_le_square_iff [of "of_int a" x] abs_le_square_iff [of x "of_int b"]
    by (simp add: power2_eq_square)
qed

lemma root_near:
  assumes "squaresNear F lo hi" "of_int lo \<le> 2 ^ 320 * unitRoot ^ (2 * n)" "2 ^ 320 * unitRoot ^ (2 * n) \<le> of_int hi"
  shows "near F 4 n"
proof -
  let ?x = "2 ^ 320 * unitRoot ^ n"
  have x: "0 \<le> ?x" using unitRoot_power_le(2) [of n] by simp
  have sq: "?x * ?x = of_int (2 ^ 320) * (2 ^ 320 * unitRoot ^ (2 * n))"
    by (simp add: mult_2 power_add)
  have F: "0 \<le> F - 4" "(F - 4) * (F - 4) \<le> 2 ^ 320 * lo" "2 ^ 320 * hi \<le> (F + 4) * (F + 4)" "0 \<le> F + 4"
    using assms(1) unfolding squaresNear_def by linarith+
  have P: "(0::int) \<le> 2 ^ 320" by simp
  show ?thesis unfolding near_def by (rule square_between [OF x sq assms(2,3) P F(1,2,3,4)])
qed

lemma factor_near: "j < 8 \<Longrightarrow> near (ORDERING_TARGET_FACTORS ! j) 4 (2 ^ j)"
proof (induction "7 - j" arbitrary: j)
  case 0
  then have j: "j = 7" by simp
  have half: "2 ^ 320 * unitRoot ^ (2 * 128) = of_int (2 ^ 319)" by (simp add: unitRoot_facts(3))
  have "near (ORDERING_TARGET_FACTORS ! 7) 4 128"
    by (rule root_near [OF last_factor]) (simp_all only: half order.refl)
  then show ?case unfolding j by simp
next
  case (Suc d)
  then have j: "j < 7" by simp
  let ?G = "ORDERING_TARGET_FACTORS ! Suc j"
  have n: "near ?G 4 (2 * 2 ^ j)" using Suc.hyps(1) [of "Suc j"] Suc.hyps(2) j by simp
  have "squaresNear (ORDERING_TARGET_FACTORS ! j) (?G - 4) (?G + 4)" using factors_chain j by (simp add: list_all_iff)
  then show ?case by (rule root_near) (use n in \<open>simp_all only: near_def\<close>)
qed

section \<open>The mantissa\<close>

definition stepF :: "nat \<Rightarrow> int \<Rightarrow> int" where
  "stepF j m = drop_bit 320 (m * ORDERING_TARGET_FACTORS ! j)"

lemma product_near:
  fixes P F S x y z m e :: real
  assumes "0 < P" "0 \<le> F" "F \<le> P" "0 \<le> x" "x \<le> P" "x * y = P * z" "0 \<le> e"
    and "m - e \<le> x" "x \<le> m + e" "F - 4 \<le> y" "y \<le> F + 4" "S * P \<le> m * F" "m * F \<le> (S + 1) * P"
  shows "S - (e + 5) \<le> z \<and> z \<le> S + (e + 5)"
proof -
  have eF: "e * F \<le> e * P" using assms by (intro mult_left_mono) simp_all
  have "P * z \<le> x * (F + 4)" unfolding assms(6) [symmetric] using assms by (intro mult_left_mono) simp_all
  moreover have "x * F \<le> (m + e) * F" using assms by (intro mult_right_mono) simp_all
  ultimately have "P * z \<le> P * (S + (e + 5))" using eF assms(5,13) by (simp add: algebra_simps)
  moreover have "x * (F - 4) \<le> P * z" unfolding assms(6) [symmetric] using assms by (intro mult_left_mono) simp_all
  moreover have "(m - e) * F \<le> x * F" using assms by (intro mult_right_mono) simp_all
  ultimately have "P * (S - (e + 5)) \<le> P * z" "P * z \<le> P * (S + (e + 5))"
    using eF assms(1,5,12) by (simp_all add: algebra_simps)
  then show ?thesis using assms(1) by (simp add: mult_le_cancel_left_pos)
qed

lemma step_near:
  assumes "near m e n" "0 \<le> m" "j < 8" "0 \<le> e"
  shows "near (stepF j m) (e + 5) (n + 2 ^ j) \<and> 0 \<le> stepF j m"
proof
  let ?F = "ORDERING_TARGET_FACTORS ! j"
  have F: "0 \<le> ?F" "?F \<le> 2 ^ 320" using factors_below [OF assms(3)] by simp_all
  have q: "stepF j m * 2 ^ 320 \<le> m * ?F" "m * ?F \<le> (stepF j m + 1) * 2 ^ 320"
    unfolding stepF_def drop_bit_eq_div by (rule mult_div_le, simp) (rule less_imp_le, rule div_mult_gt, simp)
  have "of_int (stepF j m) - (of_int e + 5) \<le> 2 ^ 320 * unitRoot ^ (n + 2 ^ j) \<and>
      2 ^ 320 * unitRoot ^ (n + 2 ^ j) \<le> of_int (stepF j m) + (of_int e + 5)"
  proof (rule product_near [where m = "of_int m" and F = "of_int ?F" and x = "2 ^ 320 * unitRoot ^ n"
        and y = "2 ^ 320 * unitRoot ^ (2 ^ j)" and P = "2 ^ 320"])
    show "of_int ?F \<le> (2 ^ 320 :: real)" using F(2) by (metis of_int_le_iff of_int_numeral of_int_power)
    show "of_int (stepF j m) * 2 ^ 320 \<le> of_int m * (of_int ?F :: real)"
      "of_int m * of_int ?F \<le> (of_int (stepF j m) + 1) * (2 ^ 320 :: real)"
      using q [folded of_int_le_iff [where 'a = real]] by (simp_all only: of_int_mult of_int_add of_int_power of_int_1 of_int_numeral)
    show "2 ^ 320 * unitRoot ^ n \<le> 2 ^ 320" "0 \<le> 2 ^ 320 * unitRoot ^ n"
      using unitRoot_power_le [of n] by simp_all
  qed (use F assms(1,4) factor_near [OF assms(3)] in \<open>simp_all add: near_def power_add del: power_numeral\<close>)
  then show "near (stepF j m) (e + 5) (n + 2 ^ j)" by (simp add: near_def del: power_numeral)
  show "0 \<le> stepF j m" using F(1) assms(2) by (simp add: stepF_def)
qed

lemma fold_near:
  assumes "near m e n" "0 \<le> m" "0 \<le> e" "\<forall>j\<in>set js. j < 8"
  shows "near (fold (\<lambda>j m. if P j then stepF j m else m) js m) (e + 5 * int (length js))
    (n + sum_list (map (\<lambda>j. if P j then 2 ^ j else 0) js))"
  using assms
proof (induction js arbitrary: m e n)
  case (Cons j js)
  show ?case
  proof (cases "P j")
    case True
    have "near (stepF j m) (e + 5) (n + 2 ^ j)" "0 \<le> stepF j m"
      using step_near [OF Cons.prems(1,2) _ Cons.prems(3)] Cons.prems(4) by simp_all
    from Cons.IH [OF this] Cons.prems True show ?thesis by (simp add: algebra_simps)
  next
    case False
    have "near m (e + 5) n" using Cons.prems(1) by (simp add: near_def)
    from Cons.IH [OF this Cons.prems(2)] Cons.prems False show ?thesis by (simp add: algebra_simps)
  qed
qed simp

lemma fraction_bits:
  assumes "0 \<le> f" "f < 256"
  shows "sum_list (map (\<lambda>j. if drop_bit j f AND 1 \<noteq> 0 then 2 ^ j else 0) [0..<8]) = nat f"
proof -
  have b: "drop_bit j f AND 1 \<noteq> 0 \<longleftrightarrow> bit f j" for j
    by (simp add: and_one_eq bit_iff_odd_drop_bit) presburger
  have "int (sum_list (map (\<lambda>j. if bit f j then 2 ^ j else 0) [0..<8])) = (\<Sum>j = 0..<8. push_bit j (of_bool (bit f j)))"
    by (simp add: interv_sum_list_conv_sum_set_nat push_bit_eq_mult of_bool_def if_distrib cong: if_cong)
  also have "\<dots> = take_bit 8 f" by (simp add: take_bit_sum)
  also have "\<dots> = f" using assms by (simp add: take_bit_int_eq_self)
  finally show ?thesis unfolding b by linarith
qed

lemma mantissa_near:
  assumes "0 \<le> f" "f < 256"
  shows "near (mantissaOf f) 40 (nat f)"
proof -
  have m: "mantissaOf f = fold (\<lambda>j m. if drop_bit j f AND 1 \<noteq> 0 then stepF j m else m) [0..<8] (2 ^ 320)"
    unfolding mantissaOf_def ORDERING_TARGET_PRECISION_def push_bit_eq_mult stepF_def by simp
  have "near (2 ^ 320) 0 0" by (simp add: near_def)
  from fold_near [OF this, of "[0..<8]" "\<lambda>j. drop_bit j f AND 1 \<noteq> 0"] show ?thesis
    unfolding m fraction_bits [OF assms] by simp
qed

section \<open>No mantissa is close to a carry\<close>

text \<open>The mantissas of every choice of the factors \<open>js\<close>.\<close>
fun mantissas :: "nat list \<Rightarrow> int \<Rightarrow> int list" where
  "mantissas [] m = [m]"
| "mantissas (j # js) m = mantissas js m @ mantissas js (stepF j m)"

definition clear :: "int \<Rightarrow> bool" where
  "clear m \<longleftrightarrow> m = 2 ^ 320 \<or> drop_bit 64 (m - 40) = drop_bit 64 (m + 40)"

lemma fold_mantissas: "fold (\<lambda>j m. if P j then stepF j m else m) js m \<in> set (mantissas js m)"
  by (induction js arbitrary: m) auto

text \<open>All 256 leaves, by the choice of the four lowest factors.\<close>
lemma clear_none: "list_all clear (mantissas [4..<8] (2 ^ 320))"
  by code_simp

lemma clear_3: "list_all clear (mantissas [4..<8] (stepF 3 (2 ^ 320)))"
  by code_simp

lemma clear_2: "list_all clear (mantissas [4..<8] (stepF 2 (2 ^ 320)))"
  by code_simp

lemma clear_23: "list_all clear (mantissas [4..<8] (stepF 3 (stepF 2 (2 ^ 320))))"
  by code_simp

lemma clear_1: "list_all clear (mantissas [4..<8] (stepF 1 (2 ^ 320)))"
  by code_simp

lemma clear_13: "list_all clear (mantissas [4..<8] (stepF 3 (stepF 1 (2 ^ 320))))"
  by code_simp

lemma clear_12: "list_all clear (mantissas [4..<8] (stepF 2 (stepF 1 (2 ^ 320))))"
  by code_simp

lemma clear_123: "list_all clear (mantissas [4..<8] (stepF 3 (stepF 2 (stepF 1 (2 ^ 320)))))"
  by code_simp

lemma clear_0: "list_all clear (mantissas [4..<8] (stepF 0 (2 ^ 320)))"
  by code_simp

lemma clear_03: "list_all clear (mantissas [4..<8] (stepF 3 (stepF 0 (2 ^ 320))))"
  by code_simp

lemma clear_02: "list_all clear (mantissas [4..<8] (stepF 2 (stepF 0 (2 ^ 320))))"
  by code_simp

lemma clear_023: "list_all clear (mantissas [4..<8] (stepF 3 (stepF 2 (stepF 0 (2 ^ 320)))))"
  by code_simp

lemma clear_01: "list_all clear (mantissas [4..<8] (stepF 1 (stepF 0 (2 ^ 320))))"
  by code_simp

lemma clear_013: "list_all clear (mantissas [4..<8] (stepF 3 (stepF 1 (stepF 0 (2 ^ 320)))))"
  by code_simp

lemma clear_012: "list_all clear (mantissas [4..<8] (stepF 2 (stepF 1 (stepF 0 (2 ^ 320)))))"
  by code_simp

lemma clear_0123: "list_all clear (mantissas [4..<8] (stepF 3 (stepF 2 (stepF 1 (stepF 0 (2 ^ 320))))))"
  by code_simp

lemmas clear_leaves =
  clear_none clear_3 clear_2 clear_23 clear_1 clear_13 clear_12 clear_123 clear_0 clear_03 clear_02 clear_023 clear_01 clear_013 clear_012 clear_0123

lemma mantissas_clear: "list_all clear (mantissas [0..<8] (2 ^ 320))"
proof -
  have js: "[0..<8] = 0 # 1 # 2 # 3 # [4..<8]" by (simp add: upt_rec)
  show ?thesis unfolding js mantissas.simps list_all_append using clear_leaves by (intro conjI)
qed

lemma mantissa_clear: "clear (mantissaOf f)"
proof -
  have "mantissaOf f = fold (\<lambda>j m. if drop_bit j f AND 1 \<noteq> 0 then stepF j m else m) [0..<8] (2 ^ 320)"
    unfolding mantissaOf_def ORDERING_TARGET_PRECISION_def push_bit_eq_mult stepF_def by simp
  then have "mantissaOf f \<in> set (mantissas [0..<8] (2 ^ 320))" by (simp only: fold_mantissas)
  with mantissas_clear show ?thesis unfolding list_all_iff by (rule bspec)
qed

section \<open>The target is the exact root\<close>

text \<open>The mantissa without its guard bits is the whole part of the power it stands for.\<close>
lemma mantissa_floor:
  assumes "0 \<le> f" "f < 256"
  shows "of_int (mantissaOf f div 2 ^ 64) \<le> 2 ^ 256 * unitRoot ^ nat f \<and>
    2 ^ 256 * unitRoot ^ nat f < of_int (mantissaOf f div 2 ^ 64 + 1)"
proof (cases "mantissaOf f = 2 ^ 320")
  case True
  have "f = 0"
  proof (rule ccontr)
    assume "f \<noteq> 0"
    then have "unitRoot ^ nat f \<le> unitRoot ^ 1" using assms(1) unitRoot_facts by (intro power_decreasing) simp_all
    moreover have "of_int (2 ^ 320 - 40) \<le> 2 ^ 320 * unitRoot ^ nat f" using mantissa_near [OF assms] unfolding True near_def ..
    moreover have "2 ^ 320 * unitRoot ^ 1 \<le> of_int (ORDERING_TARGET_FACTORS ! 0 + 4)" using factor_near [of 0] unfolding near_def by simp
    ultimately show False by (simp add: ORDERING_TARGET_FACTORS_def)
  qed
  then show ?thesis unfolding True by simp
next
  case False
  let ?m = "mantissaOf f"
  let ?q = "?m div 2 ^ 64"
  have eq: "(?m - 40) div 2 ^ 64 = (?m + 40) div 2 ^ 64"
    using mantissa_clear [of f] False by (simp only: clear_def drop_bit_eq_div simp_thms)
  have "(?m - 40) div 2 ^ 64 \<le> ?q" "?q \<le> (?m + 40) div 2 ^ 64" by (rule zdiv_mono1; simp)+
  then have "?q * 2 ^ 64 \<le> ?m - 40" "?m + 40 < (?q + 1) * 2 ^ 64"
    using eq mult_div_le [of "2 ^ 64" "?m - 40"] div_mult_gt [of "2 ^ 64" "?m + 40"] by simp_all
  then have "of_int (?q * 2 ^ 64) \<le> (of_int (?m - 40) :: real)" "(of_int (?m + 40) :: real) < of_int ((?q + 1) * 2 ^ 64)"
    by (simp_all only: of_int_le_iff of_int_less_iff)
  then have "of_int (?q * 2 ^ 64) \<le> 2 ^ 320 * unitRoot ^ nat f" "2 ^ 320 * unitRoot ^ nat f < of_int ((?q + 1) * 2 ^ 64)"
    using mantissa_near [OF assms] unfolding near_def by linarith+
  then show ?thesis by simp
qed

lemma unit_power: "b \<le> 65536 \<Longrightarrow> (2 ^ (256 - b div 256) * unitRoot ^ (b mod 256)) ^ 256 = 2 ^ (65536 - b)"
  for b :: nat
proof -
  assume b: "b \<le> 65536"
  have e: "(256 - b div 256) * 256 = (65536 - b) + b mod 256"
    using b div_mult_mod_eq [of b 256] diff_mult_distrib [of 256 "b div 256" 256] by linarith
  have "(2 ^ (256 - b div 256) * unitRoot ^ (b mod 256)) ^ 256
      = 2 ^ ((256 - b div 256) * 256) * (unitRoot ^ 256) ^ (b mod 256)"
    by (simp only: power_mult_distrib mult.commute flip: power_mult)
  also have "\<dots> = 2 ^ (65536 - b) * (2 ^ (b mod 256) * (1 / 2) ^ (b mod 256))"
    unfolding e unitRoot_facts(3) power_add by (simp only: mult.assoc)
  also have "\<dots> = 2 ^ (65536 - b)" by (simp only: power_mult_distrib [symmetric]) simp
  finally show ?thesis .
qed

lemma targetValue_div:
  assumes "0 \<le> b" "b \<le> POW_TARGET_BITS_MAX"
  shows "targetValue b + 1 = mantissaOf (b mod 256) div 2 ^ 64 div 2 ^ nat (b div 256)"
proof -
  let ?w = "nat (b div 256)" and ?m = "mantissaOf (b mod 256)"
  have w: "?w \<le> 256" "int ?w = b div 256" using assms by (auto simp: POW_TARGET_BITS_MAX_def)
  have m255: "b AND 255 = b mod 256" using take_bit_eq_mask [of 8 b] by (simp add: take_bit_eq_mod mask_eq_exp_minus_1)
  have d: "drop_bit 8 b = b div 256" by (simp add: drop_bit_eq_div)
  have n: "nat (256 - drop_bit 8 b) = 256 - ?w" unfolding d using w by linarith
  have "targetValue b + 1 = (?m * 2 ^ (256 - ?w)) div 2 ^ 320"
    unfolding targetValue_def Let_def m255 n ORDERING_TARGET_PRECISION_def push_bit_eq_mult
    by (simp only: drop_bit_eq_div diff_add_cancel)
  also have "(2::int) ^ 320 = 2 ^ (64 + ?w) * 2 ^ (256 - ?w)"
    unfolding power_add [symmetric] using w(1) by (intro arg_cong [where f = "\<lambda>n. 2 ^ n"]) linarith
  also have "(?m * 2 ^ (256 - ?w)) div (2 ^ (64 + ?w) * 2 ^ (256 - ?w)) = ?m div 2 ^ (64 + ?w)"
    by (rule div_mult_mult2) simp
  also have "\<dots> = ?m div 2 ^ 64 div 2 ^ ?w" unfolding power_add by (rule zdiv_zmult2_eq) simp
  finally show ?thesis .
qed

lemma target_exact:
  assumes "0 \<le> b" "b \<le> POW_TARGET_BITS_MAX" "R = targetValue b + 1"
  shows "R ^ 256 \<le> 2 ^ nat (POW_TARGET_BITS_MAX - b) \<and> 2 ^ nat (POW_TARGET_BITS_MAX - b) < (R + 1) ^ 256"
proof -
  let ?w = "nat (b div 256)" and ?f = "b mod 256"
  let ?q = "mantissaOf ?f div 2 ^ 64"
  define T where "T = 2 ^ (256 - ?w) * unitRoot ^ nat ?f"
  have w: "?w \<le> 256" using assms by (auto simp: POW_TARGET_BITS_MAX_def)
  have f: "0 \<le> ?f" "?f < 256" by simp_all
  have R: "R = ?q div 2 ^ ?w" using targetValue_div assms by simp
  have T: "2 ^ 256 * unitRoot ^ nat ?f = T * 2 ^ ?w"
    unfolding T_def using w by (simp add: mult_ac power_add [symmetric] del: power_numeral)
  have "R * 2 ^ ?w \<le> ?q" "?q + 1 \<le> (R + 1) * 2 ^ ?w"
    unfolding R using mult_div_le [of "2 ^ ?w" ?q] div_mult_gt [of "2 ^ ?w" ?q] by simp_all
  then have "of_int (R * 2 ^ ?w) \<le> (of_int ?q :: real)" "of_int (?q + 1) \<le> (of_int ((R + 1) * 2 ^ ?w) :: real)"
    by (simp_all only: of_int_le_iff)
  then have "of_int (R * 2 ^ ?w) \<le> T * 2 ^ ?w" "T * 2 ^ ?w < of_int ((R + 1) * 2 ^ ?w)"
    using mantissa_floor [OF f] unfolding T by linarith+
  then have b: "of_int R \<le> T" "T < of_int (R + 1)"
    by (simp_all only: of_int_mult of_int_power of_int_numeral mult_le_cancel_right_pos mult_less_cancel_right_pos
        zero_less_power zero_less_numeral)
  have "0 \<le> ?q" using mantissa_bounds [of ?f] by (simp add: pos_imp_zdiv_nonneg_iff)
  then have "0 \<le> R" unfolding R by (simp add: pos_imp_zdiv_nonneg_iff)
  have nb: "nat b \<le> 65536" "nat b div 256 = ?w" "nat b mod 256 = nat ?f" "65536 - nat b = nat (POW_TARGET_BITS_MAX - b)"
    using assms by (simp_all add: POW_TARGET_BITS_MAX_def nat_div_distrib nat_mod_distrib nat_diff_distrib)
  have e: "T ^ 256 = of_int (2 ^ nat (POW_TARGET_BITS_MAX - b))"
    using unit_power [OF nb(1)] unfolding nb(2,3,4) T_def by simp
  have T0: "0 \<le> T" unfolding T_def using unitRoot_power_le(2) [of "nat ?f"] by simp
  have "of_int (R ^ 256) \<le> T ^ 256" unfolding of_int_power using b(1) \<open>0 \<le> R\<close> by (intro power_mono) simp_all
  moreover have "T ^ 256 < of_int ((R + 1) ^ 256)" unfolding of_int_power using b(2) T0 by (intro power_strict_mono) simp_all
  ultimately show ?thesis unfolding e by (simp only: of_int_le_iff of_int_less_iff)
qed

text \<open>There is only one such root.\<close>
lemma root_unique:
  fixes R :: int
  assumes "0 \<le> R" "0 \<le> R'" "R ^ 256 \<le> N" "N < (R' + 1) ^ 256"
  shows "R \<le> R'"
proof -
  have "R ^ 256 < (R' + 1) ^ 256" using assms(3,4) by linarith
  then have "R < R' + 1" by (rule power_less_imp_less_base) (use assms(2) in simp)
  then show ?thesis by simp
qed

section \<open>Target and work\<close>

lemma blockWork_div:
  "orderingPowTarget b = Some t \<Longrightarrow> blockWork b = Some (2 ^ 256 div (beValue t + 1))"
  using beValue_bounds [of t] by (simp add: blockWork_def bdiv_nonneg push_bit_eq_mult)

text \<open>A higher difficulty never has an easier target nor less work.\<close>
theorem harder_is_more_work:
  assumes "0 \<le> b" "b \<le> b'" "b' \<le> POW_TARGET_BITS_MAX"
  shows "\<exists>t t' w w'. orderingPowTarget b = Some t \<and> orderingPowTarget b' = Some t' \<and>
    blockWork b = Some w \<and> blockWork b' = Some w' \<and> beValue t' \<le> beValue t \<and> w \<le> w'"
proof -
  have ok: "0 \<le> b" "b \<le> POW_TARGET_BITS_MAX" "0 \<le> b'" "b' \<le> POW_TARGET_BITS_MAX" using assms by simp_all
  from orderingPowTarget_value [OF ok(1,2)] obtain t where t: "orderingPowTarget b = Some t" "beValue t = targetValue b" by blast
  from orderingPowTarget_value [OF ok(3,4)] obtain t' where t': "orderingPowTarget b' = Some t'" "beValue t' = targetValue b'" by blast
  note e = target_exact [OF ok(1,2) refl, folded t(2)] and e' = target_exact [OF ok(3,4) refl, folded t'(2)]
  have p: "0 \<le> beValue t + 1" "0 < beValue t' + 1" "0 \<le> beValue t' + 1"
    using beValue_bounds [of t] beValue_bounds [of t'] by linarith+
  have "(2::int) ^ nat (POW_TARGET_BITS_MAX - b') \<le> 2 ^ nat (POW_TARGET_BITS_MAX - b)"
    by (rule power_increasing) (use assms(2) in simp_all)
  then have "(beValue t' + 1) ^ 256 \<le> 2 ^ nat (POW_TARGET_BITS_MAX - b)" using e' by linarith
  from root_unique [OF p(3,1) this] e have le: "beValue t' \<le> beValue t" by simp
  have "(2::int) ^ 256 div (beValue t + 1) \<le> 2 ^ 256 div (beValue t' + 1)"
    by (rule zdiv_mono2) (use p(2) le in simp_all)
  then show ?thesis using blockWork_div t(1) t'(1) le by blast
qed

lemma harder_is_more_work_witness: "\<exists>w w'. blockWork 5120 = Some w \<and> blockWork 5200 = Some w' \<and> w \<le> w'"
  using harder_is_more_work [of 5120 5200] by (auto simp: POW_TARGET_BITS_MAX_def)

text \<open>C22: for every admitted difficulty \<open>b\<close>, in 256ths of a bit, the 32-byte target is
  \<open>R - 1\<close> for the one \<open>R\<close> with \<open>R^256 \<le> 2^(65536 - b) < (R + 1)^256\<close>, that is \<open>2^(256 - b/256)\<close>
  rounded down, and the work it stands for is \<open>2^256 / R\<close> rounded down; so with \<open>w\<close> whole bits
  \<open>R\<close> lies between \<open>2^(255-w)\<close> and \<open>2^(256-w)\<close>, the work between \<open>2^w\<close> and \<open>2^(w+1)\<close>,
  and at a whole number of bits both are powers of two; outside the domain there is
  neither target nor work.\<close>
theorem target_and_work:
  shows "if 0 \<le> b \<and> b \<le> POW_TARGET_BITS_MAX
    then \<exists>t work. orderingPowTarget b = Some t \<and> length t = 32 \<and> blockWork b = Some work \<and>
      (\<forall>R\<ge>0. R ^ 256 \<le> 2 ^ nat (POW_TARGET_BITS_MAX - b) \<and> 2 ^ nat (POW_TARGET_BITS_MAX - b) < (R + 1) ^ 256 \<longleftrightarrow>
        R = beValue t + 1) \<and>
      work * (beValue t + 1) \<le> 2 ^ 256 \<and> 2 ^ 256 < (work + 1) * (beValue t + 1) \<and>
      2 ^ (255 - nat (b div 256)) \<le> beValue t + 1 \<and> beValue t + 1 \<le> 2 ^ (256 - nat (b div 256)) \<and>
      2 ^ nat (b div 256) \<le> work \<and> work \<le> 2 ^ (nat (b div 256) + 1) \<and>
      (b mod 256 = 0 \<longrightarrow> beValue t + 1 = 2 ^ (256 - nat (b div 256)) \<and> work = 2 ^ nat (b div 256))
    else orderingPowTarget b = None \<and> blockWork b = None"
proof (cases "0 \<le> b \<and> b \<le> POW_TARGET_BITS_MAX")
  case True
  let ?w = "nat (b div 256)" and ?N = "2 ^ nat (POW_TARGET_BITS_MAX - b) :: int"
  obtain t where t: "orderingPowTarget b = Some t" "length t = 32" "beValue t = targetValue b"
    using orderingPowTarget_value True by blast
  note o = target_octave [OF _ _ refl, of b, folded t(3)]
  have w: "?w \<le> 256" using True by (auto simp: POW_TARGET_BITS_MAX_def)
  have pos: "0 < beValue t + 1" using beValue_bounds [of t] by linarith
  note e = target_exact [OF _ _ refl, of b, folded t(3)]
  have root: "R ^ 256 \<le> ?N \<and> ?N < (R + 1) ^ 256 \<longleftrightarrow> R = beValue t + 1" if "0 \<le> R" for R
    using root_unique [OF that, of "beValue t + 1" ?N] root_unique [of "beValue t + 1" R ?N] e True pos that
    by (metis order_antisym order_less_imp_le)
  let ?work = "2 ^ 256 div (beValue t + 1)"
  have div: "?work * (beValue t + 1) \<le> 2 ^ 256" "2 ^ 256 < (?work + 1) * (beValue t + 1)"
    by (rule mult_div_le [OF pos], rule div_mult_gt [OF pos])
  have split: "(2::int) ^ 256 = 2 ^ ?w * 2 ^ (256 - ?w)"
    unfolding power_add [symmetric] using w by (intro arg_cong [where f = "\<lambda>n. 2 ^ n"]) linarith
  have "(2::int) ^ ?w * (beValue t + 1) \<le> 2 ^ 256"
    unfolding split using o(2) True by (intro mult_left_mono) simp_all
  from zdiv_mono1 [OF this pos] have ge: "2 ^ ?w \<le> ?work" using pos by simp
  have "(2::int) ^ 256 \<le> 2 ^ (?w + 1) * 2 ^ (255 - ?w)"
    unfolding power_add [symmetric] by (rule power_increasing) (use w in linarith, simp)
  also have "\<dots> \<le> 2 ^ (?w + 1) * (beValue t + 1)" using o(1) True by (intro mult_left_mono) simp_all
  finally have "?work \<le> (2 ^ (?w + 1) * (beValue t + 1)) div (beValue t + 1)" by (rule zdiv_mono1) (rule pos)
  then have le: "?work \<le> 2 ^ (?w + 1)" using pos by simp
  have whole: "?work = 2 ^ ?w" if "b mod 256 = 0"
    unfolding split using o(3) True that by simp
  show ?thesis
    unfolding if_P [OF True] using t(1,2) blockWork_div [OF t(1)] root div o True ge le whole by blast
next
  case False
  then show ?thesis by (auto simp: orderingPowTarget_def blockWork_def)
qed

lemma target_and_work_witness:
  "\<exists>t. orderingPowTarget 2304 = Some t \<and> beValue t + 1 = 2 ^ 247 \<and> blockWork 2304 = Some 512"
proof -
  have v: "nat (2304 div 256) = 9" "(2304 :: int) mod 256 = 0" "(0::int) \<le> 2304 \<and> 2304 \<le> POW_TARGET_BITS_MAX"
    by (simp_all add: POW_TARGET_BITS_MAX_def)
  from target_and_work [of 2304, unfolded v if_P [OF v(3)]] obtain t work where
    "orderingPowTarget 2304 = Some t" "blockWork 2304 = Some work" "beValue t + 1 = 2 ^ (256 - 9)" "work = 2 ^ 9" by blast
  then show ?thesis by simp
qed

end
