(* ===== verification/HeaderChain.thy ===== *)
theory HeaderChain
  imports PowLaws InterlinkLaws
begin

text \<open>
  \<open>verifyHeaderChain\<close> of \<open>packages/validation/src/verify.ts\<close>: the rules a page of
  headers passes against an anchor, and the anchor it hands to the next page.
  An exception is \<open>ChainThrew\<close>; every refusal carries its index and its reason.
\<close>

section \<open>Model\<close>

record chainAnchor =
  an_prevBlockHash :: string
  an_height :: int
  an_interlinks :: "string list"
  an_createdAt :: "int option"

datatype chainReason = C_domain | C_version | C_height | C_link | C_time | C_clock | C_target | C_pow | C_interlinks

datatype chainStop = ChainThrew | ChainBad int chainReason

record headerPage =
  pg_work :: int
  pg_hashes :: "string list"
  pg_next :: chainAnchor
  pg_t_a :: "int option"

definition stopIf :: "bool \<Rightarrow> int \<Rightarrow> chainReason \<Rightarrow> chainStop + unit" where
  "stopIf b i r = (if b then Inl (ChainBad i r) else Inr ())"

definition orStop :: "'a res \<Rightarrow> chainStop + 'a" where
  "orStop m = (case m of Inl _ \<Rightarrow> Inl ChainThrew | Inr v \<Rightarrow> Inr v)"

definition orBad :: "'a option \<Rightarrow> int \<Rightarrow> chainReason \<Rightarrow> chainStop + 'a" where
  "orBad m i r = (case m of None \<Rightarrow> Inl (ChainBad i r) | Some v \<Rightarrow> Inr v)"

text \<open>The height and time of the element before: the anchor's, when it has a time, or a header's.\<close>
type_synonym previous = "(int \<times> int) option"

definition outOfOrder :: "previous \<Rightarrow> blockHeader \<Rightarrow> bool" where
  "outOfOrder previous h \<longleftrightarrow> h_height h \<noteq> 1 \<and> (case previous of None \<Rightarrow> False
     | Some (_, c) \<Rightarrow> \<not> isU64Safe (createdAt h) \<or> \<not> isU64Safe c \<or> createdAt h \<le> c)"

text \<open>Rule 7: the schedule, and the genesis time it is anchored at.\<close>
definition targetRule ::
    "retargetParams \<Rightarrow> int \<Rightarrow> previous \<Rightarrow> int option \<Rightarrow> blockHeader \<Rightarrow> chainStop + int option" where
  "targetRule params i previous t_a h =
     (if h_height h = 1
      then ebind (stopIf (powTargetBits h \<noteq> anchorBits params) i C_target) (\<lambda>_.
        Inr (if t_a = None then Some (createdAt h) else t_a))
      else ebind (orBad t_a i C_target) (\<lambda>t.
        ebind (orBad previous i C_target) (\<lambda>(pHeight, pCreatedAt).
        ebind (orStop (asertTargetBits params t pHeight pCreatedAt)) (\<lambda>bits.
        ebind (stopIf (powTargetBits h \<noteq> bits) i C_target) (\<lambda>_. Inr t_a)))))"

definition headerStep ::
    "hash \<Rightarrow> protocolEra list \<Rightarrow> int \<Rightarrow> retargetParams \<Rightarrow> byte list \<Rightarrow> int \<Rightarrow> int \<Rightarrow> previous \<Rightarrow> string \<Rightarrow>
     blockHeader \<Rightarrow> string list \<times> int option \<Rightarrow> chainStop + string \<times> string list \<times> int option" where
  "headerStep H schedule nowMs params yardstick height i previous expectedPrev h = (\<lambda>(links, t_a).
     ebind (orStop (blockHash H h)) (\<lambda>mhash.
     ebind (orBad mhash i C_domain) (\<lambda>hash.
     ebind (stopIf (\<not> verifyProtocolVersion (h_protocolVersion h) (h_height h) schedule) i C_version) (\<lambda>_.
     ebind (stopIf (h_height h \<noteq> height) i C_height) (\<lambda>_.
     ebind (stopIf (prevBlockHash h \<noteq> expectedPrev) i C_link) (\<lambda>_.
     ebind (stopIf (outOfOrder previous h) i C_time) (\<lambda>_.
     ebind (stopIf (\<not> verifyCreatedAtBound h nowMs MAX_FUTURE_DRIFT_MS) i C_clock) (\<lambda>_.
     ebind (targetRule params i previous t_a h) (\<lambda>t_a'.
     ebind (orStop (powHit H h)) (\<lambda>mhit.
     ebind (orBad mhit i C_pow) (\<lambda>hit.
     ebind (orBad (orderingPowTarget (powTargetBits h)) i C_pow) (\<lambda>target.
     ebind (stopIf (\<not> meetsPowTarget hit target) i C_pow) (\<lambda>_.
     ebind (orStop (interlinkRoot H links)) (\<lambda>root.
     ebind (stopIf (h_interlinkRoot h \<noteq> root) i C_interlinks) (\<lambda>_.
     ebind (orStop (updateInterlinks links hash
       (if h_height h = 1 then Infinite else levelOfHit hit yardstick))) (\<lambda>links'.
     Inr (hash, links', t_a')))))))))))))))))"

fun headerLoop ::
    "hash \<Rightarrow> protocolEra list \<Rightarrow> int \<Rightarrow> retargetParams \<Rightarrow> byte list \<Rightarrow> int \<Rightarrow> int \<Rightarrow> previous \<Rightarrow> string \<Rightarrow>
     blockHeader list \<Rightarrow> string list \<times> int option \<Rightarrow> chainStop + string list \<times> string list \<times> int option" where
  "headerLoop H schedule nowMs params yardstick height i previous expectedPrev [] (links, t_a) = Inr ([], links, t_a)"
| "headerLoop H schedule nowMs params yardstick height i previous expectedPrev (h # hs) st =
     ebind (headerStep H schedule nowMs params yardstick height i previous expectedPrev h st) (\<lambda>(hash, st').
     ebind (headerLoop H schedule nowMs params yardstick (height + 1) (i + 1) (Some (h_height h, createdAt h)) hash hs st')
       (\<lambda>(hashes, st''). Inr (hash # hashes, st'')))"

definition anchorMalformed :: "chainAnchor \<Rightarrow> bool" where
  "anchorMalformed a \<longleftrightarrow> int (length (an_interlinks a)) > MAX_INTERLINKS \<or>
     list_ex (\<lambda>e. \<not> isHex64 e) (an_interlinks a) \<or> (an_interlinks a = [] \<and> an_height a \<noteq> 0)"

definition anchorPrevious :: "chainAnchor \<Rightarrow> previous" where
  "anchorPrevious a = map_option (\<lambda>c. (an_height a, c)) (an_createdAt a)"

definition verifyHeaderChain ::
    "hash \<Rightarrow> blockHeader list \<Rightarrow> chainAnchor \<Rightarrow> retargetParams \<Rightarrow> int option \<Rightarrow> int \<Rightarrow> protocolEra list \<Rightarrow>
     chainStop + headerPage" where
  "verifyHeaderChain H headers a params anchorCreatedAt nowMs schedule =
     (if headers = [] then Inr \<lparr>pg_work = 0, pg_hashes = [], pg_next = a, pg_t_a = anchorCreatedAt\<rparr>
      else
        ebind (stopIf ((an_createdAt a = None) \<noteq> (anchorCreatedAt = None)) 0 C_time) (\<lambda>_.
        ebind (stopIf (anchorMalformed a) 0 C_interlinks) (\<lambda>_.
        ebind (orBad (orderingPowTarget (anchorBits params)) 0 C_target) (\<lambda>yardstick.
        ebind (headerLoop H schedule nowMs params yardstick (an_height a + 1) 0 (anchorPrevious a) (an_prevBlockHash a)
          headers (an_interlinks a, anchorCreatedAt)) (\<lambda>(hashes, links, t_a).
        Inr \<lparr>pg_work = cumulativeWork headers, pg_hashes = hashes,
          pg_next = \<lparr>an_prevBlockHash = last hashes, an_height = h_height (last headers), an_interlinks = links,
            an_createdAt = Some (createdAt (last headers))\<rparr>,
          pg_t_a = t_a\<rparr>)))))"

end
