(* ===== verification/Nipopow.thy ===== *)
theory Nipopow
  imports HeaderChain "HOL-Library.AList"
begin

text \<open>
  The superblock proofs of \<open>packages/nipopow/src\<close>: the proof and its codec
  (\<open>codec.ts\<close>), its verification (\<open>verify.ts\<close>), the comparison of two proofs
  (\<open>compare.ts\<close>) and the prover over a header reader (\<open>prover.ts\<close>).
\<close>

section \<open>The proof and its codec\<close>

definition MAX_NIPOPOW_PARAM :: int where "MAX_NIPOPOW_PARAM = 128"

definition MAX_NIPOPOW_PREFIX :: int where "MAX_NIPOPOW_PREFIX = 16384"

record popowHeader =
  ph_header :: blockHeader
  ph_interlinks :: "string list"

record nipopowProof =
  np_m :: int
  np_k :: int
  np_prefix :: "popowHeader list"
  np_suffixHead :: popowHeader
  np_suffixTail :: "blockHeader list"

text \<open>An inner decoder inside a reader: what it throws is the reader's.\<close>
definition rlift :: "'a res \<Rightarrow> 'a rd" where
  "rlift m r = ebind m (\<lambda>v. Inr (v, r))"

definition writePopow :: "popowHeader \<Rightarrow> byte list res" where
  "writePopow p = wcat [ebind (encodeHeader (ph_header p)) writeLp, ebind (encodeInterlinks (ph_interlinks p)) writeLp]"

definition readPopow :: "popowHeader rd" where
  "readPopow = rbind readLp (\<lambda>headerBytes. rbind (rlift (decodeHeader headerBytes)) (\<lambda>h.
     rbind readLp (\<lambda>interlinksBytes. rbind (rlift (decodeInterlinks interlinksBytes)) (\<lambda>links.
     rret \<lparr>ph_header = h, ph_interlinks = links\<rparr>))))"

definition POPOW_HEADER :: "popowHeader structCodec" where
  "POPOW_HEADER = \<lparr>c_write = writePopow, c_read = readPopow\<rparr>"

definition readBoundedVlqU :: "int \<Rightarrow> int \<Rightarrow> int rd" where
  "readBoundedVlqU lo hi = rbind readVlqU (\<lambda>v. if v < lo \<or> v > hi then rfail (ReaderErr OutOfDomain) else rret v)"

definition writeProof :: "nipopowProof \<Rightarrow> byte list res" where
  "writeProof p = wcat [writeVlqU (np_m p), writeVlqU (np_k p), writeArr (np_prefix p) writePopow,
     writePopow (np_suffixHead p), writeArr (np_suffixTail p) (\<lambda>h. ebind (encodeHeader h) writeLp)]"

definition readProof :: "nipopowProof rd" where
  "readProof =
     rbind (readBoundedVlqU 1 MAX_NIPOPOW_PARAM) (\<lambda>m.
     rbind (readBoundedVlqU 1 MAX_NIPOPOW_PARAM) (\<lambda>k.
     rbind readVlqU (\<lambda>prefixCount.
     if prefixCount > MAX_NIPOPOW_PREFIX then rfail (ReaderErr OutOfDomain)
     else
       rbind (readTimes (nat prefixCount) readPopow) (\<lambda>pre.
       rbind readPopow (\<lambda>suffixHead.
       rbind readVlqU (\<lambda>tailCount.
       if tailCount \<noteq> k - 1 then rfail (ReaderErr OutOfDomain)
       else
         rbind (readTimes (nat tailCount) (rbind readLp (\<lambda>headerBytes. rlift (decodeHeader headerBytes)))) (\<lambda>suffixTail.
         rret \<lparr>np_m = m, np_k = k, np_prefix = pre, np_suffixHead = suffixHead, np_suffixTail = suffixTail\<rparr>)))))))"

definition NIPOPOW_PROOF :: "nipopowProof structCodec" where
  "NIPOPOW_PROOF = \<lparr>c_write = writeProof, c_read = readProof\<rparr>"

definition encodePoPowHeader :: "popowHeader \<Rightarrow> byte list res" where
  "encodePoPowHeader p = encodeStruct POPOW_HEADER p"

definition decodePoPowHeader :: "byte list \<Rightarrow> popowHeader res" where
  "decodePoPowHeader bytes = decodeStruct POPOW_HEADER bytes"

definition encodeNipopowProof :: "nipopowProof \<Rightarrow> byte list res" where
  "encodeNipopowProof p = encodeStruct NIPOPOW_PROOF p"

definition decodeNipopowProof :: "byte list \<Rightarrow> nipopowProof res" where
  "decodeNipopowProof bytes = decodeStruct NIPOPOW_PROOF bytes"

section \<open>Verification\<close>

datatype verifyCode = V_parse_failed | V_shape | V_anchor | V_domain | V_version | V_target | V_pow | V_time
  | V_clock | V_interlinks | V_heights | V_connections

text \<open>An exception, or a refusal with the index it names, if any.\<close>
datatype proofStop = ProofThrew | ProofFail verifyCode "int option"

record proofAccepted =
  va_headers :: "blockHeader list"
  va_tip :: blockHeader
  va_tipHeight :: int
  va_suffixHead :: popowHeader

record verifyProfile =
  vp_retarget :: retargetParams
  vp_maxFutureDriftMs :: int
  vp_nowMs :: int
  vp_genesisId :: string
  vp_schedule :: "protocolEra list"

record proofParams =
  pp_m :: int
  pp_k :: int

definition failIf :: "bool \<Rightarrow> verifyCode \<Rightarrow> int \<Rightarrow> proofStop + unit" where
  "failIf b c i = (if b then Inl (ProofFail c (Some i)) else Inr ())"

definition orThrow :: "'a res \<Rightarrow> proofStop + 'a" where
  "orThrow m = (case m of Inl _ \<Rightarrow> Inl ProofThrew | Inr v \<Rightarrow> Inr v)"

text \<open>The two loops of the rules: over the elements from an index, and over each element
  from index 1 with the one before it.\<close>
fun eachFrom :: "(int \<Rightarrow> 'a \<Rightarrow> 'e + unit) \<Rightarrow> int \<Rightarrow> 'a list \<Rightarrow> 'e + unit" where
  "eachFrom f i [] = Inr ()"
| "eachFrom f i (x # xs) = ebind (f i x) (\<lambda>_. eachFrom f (i + 1) xs)"

fun eachPair :: "(int \<Rightarrow> 'a \<Rightarrow> 'a \<Rightarrow> 'e + unit) \<Rightarrow> int \<Rightarrow> 'a list \<Rightarrow> 'e + unit" where
  "eachPair f i (prev # cur # xs) = ebind (f i prev cur) (\<lambda>_. eachPair f (i + 1) (cur # xs))"
| "eachPair f i xs = Inr ()"

definition allPoPow :: "nipopowProof \<Rightarrow> popowHeader list" where
  "allPoPow p = np_prefix p @ [np_suffixHead p]"

text \<open>\<open>allHeaders\<close> in \<open>verify.ts\<close> and \<open>headersChain\<close> in \<open>compare.ts\<close>.\<close>
definition allHeaders :: "nipopowProof \<Rightarrow> blockHeader list" where
  "allHeaders p = map ph_header (np_prefix p) @ [ph_header (np_suffixHead p)] @ np_suffixTail p"

text \<open>Rule 1.\<close>
definition shapeOk :: "nipopowProof \<Rightarrow> proofParams \<Rightarrow> bool" where
  "shapeOk p params \<longleftrightarrow> \<not> pp_m params < 1 \<and> \<not> pp_k params < 1 \<and> np_m p = pp_m params \<and> np_k p = pp_k params \<and>
     np_prefix p \<noteq> [] \<and> int (length (np_suffixTail p)) = np_k p - 1"

text \<open>Rule 2.\<close>
definition anchorRule :: "hash \<Rightarrow> nipopowProof \<Rightarrow> verifyProfile \<Rightarrow> proofStop + unit" where
  "anchorRule H p profile =
     (let first = hd (np_prefix p) in
      ebind (failIf (h_height (ph_header first) \<noteq> 1) V_anchor 0) (\<lambda>_.
      ebind (failIf (ph_interlinks first \<noteq> []) V_anchor 0) (\<lambda>_.
      ebind (orThrow (blockHash H (ph_header first))) (\<lambda>mhash.
      case mhash of None \<Rightarrow> Inl (ProofFail V_domain (Some 0))
      | Some genesisHash \<Rightarrow>
          ebind (failIf (vp_genesisId profile \<noteq> [] \<and> genesisHash \<noteq> vp_genesisId profile) V_anchor 0) (\<lambda>_.
          eachFrom (\<lambda>i ph. ebind (failIf (ph_interlinks ph = []) V_anchor i) (\<lambda>_.
            failIf (hd (ph_interlinks ph) \<noteq> genesisHash) V_anchor i)) 1 (tl (allPoPow p)))))))"

text \<open>Rule 3, per header.\<close>
definition headerRule :: "hash \<Rightarrow> verifyProfile \<Rightarrow> int \<Rightarrow> blockHeader \<Rightarrow> proofStop + unit" where
  "headerRule H profile i h =
     ebind (failIf (verifyHeaderFieldDomains h \<noteq> Inr ()) V_domain i) (\<lambda>_.
     ebind (failIf (\<not> verifyProtocolVersion (h_protocolVersion h) (h_height h) (vp_schedule profile)) V_version i) (\<lambda>_.
     ebind (failIf (powTargetBits h < floorBits (vp_retarget profile) \<or> powTargetBits h > ceilingBits (vp_retarget profile)) V_target i) (\<lambda>_.
     ebind (orThrow (verifyOrderingBlockPoW H h)) (\<lambda>pow.
     failIf (\<not> pow) V_pow i))))"

text \<open>Rule 3, the schedule between elements that follow each other in the chain.\<close>
definition scheduleRule :: "hash \<Rightarrow> verifyProfile \<Rightarrow> int \<Rightarrow> int \<Rightarrow> blockHeader \<Rightarrow> blockHeader \<Rightarrow> proofStop + unit" where
  "scheduleRule H profile t_a i prev cur =
     ebind (orThrow (blockHash H prev)) (\<lambda>prevHash.
     if prevHash = Some (prevBlockHash cur)
     then ebind (orThrow (asertTargetBits (vp_retarget profile) t_a (h_height prev) (createdAt prev))) (\<lambda>scheduled.
       failIf (powTargetBits cur \<noteq> scheduled) V_target i)
     else Inr ())"

text \<open>Rule 4.  A vector the root throws on is refused like a wrong one.\<close>
definition interlinksRule :: "hash \<Rightarrow> int \<Rightarrow> popowHeader \<Rightarrow> proofStop + unit" where
  "interlinksRule H i ph =
     ebind (failIf (int (length (ph_interlinks ph)) > MAX_INTERLINKS) V_interlinks i) (\<lambda>_.
     ebind (failIf (\<not> list_all isHex64 (ph_interlinks ph)) V_interlinks i) (\<lambda>_.
     failIf (interlinkRoot H (ph_interlinks ph) \<noteq> Inr (h_interlinkRoot (ph_header ph))) V_interlinks i))"

text \<open>Rule 5.\<close>
definition heightRule :: "hash \<Rightarrow> int \<Rightarrow> blockHeader \<Rightarrow> blockHeader \<Rightarrow> proofStop + unit" where
  "heightRule H i prev cur =
     ebind (failIf (h_height cur \<le> h_height prev) V_heights i) (\<lambda>_.
     ebind (orThrow (blockHash H prev)) (\<lambda>prevHash.
     failIf (prevHash = Some (prevBlockHash cur) \<and> h_height cur \<noteq> h_height prev + 1) V_heights i))"

text \<open>Rule 6.\<close>
definition connectionRule :: "hash \<Rightarrow> int \<Rightarrow> popowHeader \<Rightarrow> popowHeader \<Rightarrow> proofStop + unit" where
  "connectionRule H i prevPh cur =
     ebind (orThrow (blockHash H (ph_header prevPh))) (\<lambda>mhash.
     case mhash of None \<Rightarrow> Inl (ProofFail V_connections (Some i))
     | Some prevPhHash \<Rightarrow>
         failIf (prevPhHash \<notin> set (ph_interlinks cur) \<and> prevBlockHash (ph_header cur) \<noteq> prevPhHash) V_connections i)"

fun tailRule :: "hash \<Rightarrow> int \<Rightarrow> string \<Rightarrow> blockHeader list \<Rightarrow> proofStop + unit" where
  "tailRule H i prevTailHash [] = Inr ()"
| "tailRule H i prevTailHash (h # hs) =
     ebind (failIf (prevBlockHash h \<noteq> prevTailHash) V_connections i) (\<lambda>_.
     ebind (orThrow (blockHash H h)) (\<lambda>mhash.
     case mhash of None \<Rightarrow> Inl (ProofFail V_connections (Some i))
     | Some x \<Rightarrow> tailRule H (i + 1) x hs))"

definition verifyReadyProof :: "hash \<Rightarrow> nipopowProof \<Rightarrow> proofParams \<Rightarrow> verifyProfile \<Rightarrow> proofStop + proofAccepted" where
  "verifyReadyProof H p params profile =
     (if \<not> shapeOk p params then Inl (ProofFail V_shape None)
      else
        let hs = allHeaders p; tip = last hs; suffixStartIdx = int (length (np_prefix p));
            t_a = createdAt (ph_header (hd (np_prefix p)))
        in
        ebind (anchorRule H p profile) (\<lambda>_.
        ebind (eachFrom (headerRule H profile) 0 hs) (\<lambda>_.
        ebind (failIf (powTargetBits (hd hs) \<noteq> anchorBits (vp_retarget profile)) V_target 0) (\<lambda>_.
        ebind (eachPair (scheduleRule H profile t_a) 1 hs) (\<lambda>_.
        ebind (eachPair (\<lambda>i prev cur. failIf (\<not> verifyCreatedAtOrder cur prev) V_time i) 1 hs) (\<lambda>_.
        ebind (failIf (\<not> verifyCreatedAtBound tip (vp_nowMs profile) (vp_maxFutureDriftMs profile)) V_clock (int (length hs) - 1)) (\<lambda>_.
        ebind (eachFrom (interlinksRule H) 0 (allPoPow p)) (\<lambda>_.
        ebind (eachPair (heightRule H) 1 hs) (\<lambda>_.
        ebind (eachPair (connectionRule H) 1 (allPoPow p)) (\<lambda>_.
        ebind (orThrow (blockHash H (ph_header (np_suffixHead p)))) (\<lambda>mhash.
        case mhash of None \<Rightarrow> Inl (ProofFail V_connections (Some suffixStartIdx))
        | Some headHash \<Rightarrow>
            ebind (tailRule H (suffixStartIdx + 1) headHash (np_suffixTail p)) (\<lambda>_.
            Inr \<lparr>va_headers = hs, va_tip = tip, va_tipHeight = h_height tip, va_suffixHead = np_suffixHead p\<rparr>))))))))))))"

text \<open>A proof as bytes or as a value.\<close>
datatype proofInput = RawProof "byte list" | ReadyProof nipopowProof

definition verifyProof :: "hash \<Rightarrow> proofInput \<Rightarrow> proofParams \<Rightarrow> verifyProfile \<Rightarrow> proofStop + proofAccepted" where
  "verifyProof H input params profile = (case input of
     RawProof bytes \<Rightarrow> (case decodeNipopowProof bytes of
       Inl _ \<Rightarrow> Inl (ProofFail V_parse_failed None)
     | Inr p \<Rightarrow> verifyReadyProof H p params profile)
   | ReadyProof p \<Rightarrow> verifyReadyProof H p params profile)"

section \<open>Comparison\<close>

definition lowestCommonAncestor :: "hash \<Rightarrow> blockHeader list \<Rightarrow> blockHeader list \<Rightarrow> blockHeader option res" where
  "lowestCommonAncestor H left right =
     ebind (emap (blockHash H) right) (\<lambda>rightSet.
     efold (\<lambda>h lca. ebind (blockHash H h) (\<lambda>x. Inr (if x \<noteq> None \<and> x \<in> set rightSet then Some h else lca))) left None)"

definition levelAtLeast :: "int \<Rightarrow> blockLevel \<Rightarrow> bool" where
  "levelAtLeast mu l = (case l of NoLevel \<Rightarrow> False | Infinite \<Rightarrow> True | Level L \<Rightarrow> L \<ge> mu)"

text \<open>The levels from \<open>mu\<close> on that hold at least \<open>m\<close> headers, up to the first that does not.\<close>
fun argLevels :: "blockLevel list \<Rightarrow> int \<Rightarrow> int list \<Rightarrow> (int \<times> int) list" where
  "argLevels levels m [] = []"
| "argLevels levels m (mu # mus) =
     (let count = int (length (filter (levelAtLeast mu) levels))
      in if count < m then [] else (mu, count) # argLevels levels m mus)"

definition bestArg :: "hash \<Rightarrow> blockHeader list \<Rightarrow> int \<Rightarrow> int \<Rightarrow> int res" where
  "bestArg H headers m anchor =
     ebind (emap (\<lambda>h. level H h anchor) headers) (\<lambda>levels.
     let registeredCount = int (length (filter (\<lambda>l. l \<noteq> NoLevel) levels));
         acc = (0, registeredCount) # argLevels levels m [1..LEVEL_CAP]
     in Inr (foldl (\<lambda>best (lvl, cnt). let score = 2 ^ nat lvl * cnt in if score > best then score else best) 0 acc))"

datatype winner = WinnerA | WinnerB | Tie
datatype incomparable = NoCommonAncestor | InvalidProof

datatype compareResult = Compared winner int int blockHeader | Incomparable incomparable

definition compareProofs :: "hash \<Rightarrow> nipopowProof \<Rightarrow> nipopowProof \<Rightarrow> proofParams \<Rightarrow> verifyProfile \<Rightarrow> compareResult res" where
  "compareProofs H a b params profile =
     (let aResult = verifyProof H (ReadyProof a) params profile; bResult = verifyProof H (ReadyProof b) params profile in
      if aResult = Inl ProofThrew \<or> bResult = Inl ProofThrew then Inl OtherErr
      else if \<not> is_ok aResult \<or> \<not> is_ok bResult then Inr (Incomparable InvalidProof)
      else
        ebind (lowestCommonAncestor H (allHeaders a) (allHeaders b)) (\<lambda>mlca. case mlca of
          None \<Rightarrow> Inr (Incomparable NoCommonAncestor)
        | Some lca \<Rightarrow>
            let aAbove = filter (\<lambda>h. h_height h > h_height lca) (allHeaders a);
                bAbove = filter (\<lambda>h. h_height h > h_height lca) (allHeaders b)
            in
            ebind (bestArg H aAbove (pp_m params) (anchorBits (vp_retarget profile))) (\<lambda>scoreA.
            ebind (bestArg H bAbove (pp_m params) (anchorBits (vp_retarget profile))) (\<lambda>scoreB.
            Inr (Compared (if scoreA > scoreB then WinnerA else if scoreB > scoreA then WinnerB else Tie) scoreA scoreB lca)))))"

section \<open>The prover\<close>

text \<open>\<open>PopowHeaderReader\<close>: the store the prover reads, an interface of its caller.\<close>
record popowReader =
  rd_chainHeight :: int
  rd_byHash :: "string \<Rightarrow> popowHeader option"
  rd_atHeight :: "int \<Rightarrow> popowHeader option"
  rd_lastHeaders :: "int \<Rightarrow> blockHeader list"

datatype proveError = InvalidM | InvalidK | ChainTooShort | MissingPopow | ProveThrew

definition requirePopow :: "popowHeader option \<Rightarrow> proveError + popowHeader" where
  "requirePopow x = (case x of None \<Rightarrow> Inl MissingPopow | Some ph \<Rightarrow> Inr ph)"

text \<open>\<open>interlinks[i] ?? null\<close>.\<close>
definition linkAt :: "nat \<Rightarrow> string list \<Rightarrow> string option" where
  "linkAt i v = (if i < length v then Some (v ! i) else None)"

text \<open>The walk down one level.  A reader whose links cycle keeps it going for ever, which is \<open>None\<close>.\<close>
partial_function (option) levelWalk ::
    "popowReader \<Rightarrow> nat \<Rightarrow> int \<Rightarrow> string option \<Rightarrow> popowHeader list \<Rightarrow> (proveError + popowHeader list) option" where
  "levelWalk reader i anchoringHeight nextHash levelChain = (case nextHash of
     None \<Rightarrow> Some (Inr levelChain)
   | Some x \<Rightarrow> (case rd_byHash reader x of
       None \<Rightarrow> Some (Inl MissingPopow)
     | Some ph \<Rightarrow>
         if h_height (ph_header ph) < anchoringHeight then Some (Inr levelChain)
         else levelWalk reader i anchoringHeight (linkAt i (ph_interlinks ph)) (ph # levelChain)))"

type_synonym collected = "(int \<times> popowHeader) list"

definition collectAll :: "popowHeader list \<Rightarrow> collected \<Rightarrow> collected" where
  "collectAll phs c = foldl (\<lambda>c ph. AList.update (h_height (ph_header ph)) ph c) c phs"

text \<open>The levels from the top of the suffix head's vector down to 1.\<close>
fun levelsLoop ::
    "popowReader \<Rightarrow> int \<Rightarrow> string list \<Rightarrow> nat \<Rightarrow> collected \<Rightarrow> int \<Rightarrow> (proveError + collected \<times> int) option" where
  "levelsLoop reader m links 0 c anchoringHeight = Some (Inr (c, anchoringHeight))"
| "levelsLoop reader m links (Suc i) c anchoringHeight =
     (case levelWalk reader (Suc i) anchoringHeight (linkAt (Suc i) links) [] of
        None \<Rightarrow> None
      | Some (Inl e) \<Rightarrow> Some (Inl e)
      | Some (Inr levelChain) \<Rightarrow>
          levelsLoop reader m links i (collectAll levelChain c)
            (if m < int (length levelChain)
             then h_height (ph_header (levelChain ! (length levelChain - nat m))) else anchoringHeight))"

definition sweep :: "popowReader \<Rightarrow> int \<Rightarrow> int \<Rightarrow> collected \<Rightarrow> proveError + collected" where
  "sweep reader anchoringHeight headHeight c =
     efold (\<lambda>h c. ebind (requirePopow (rd_atHeight reader h)) (\<lambda>ph. Inr (AList.update h ph c))) [anchoringHeight..headHeight - 1] c"

definition proveWithReader :: "hash \<Rightarrow> popowReader \<Rightarrow> proofParams \<Rightarrow> (proveError + nipopowProof) option" where
  "proveWithReader H reader params =
     (let m = pp_m params; k = pp_k params; suffixHeaders = rd_lastHeaders reader k in
      if m < 1 \<or> m > MAX_NIPOPOW_PARAM then Some (Inl InvalidM)
      else if k < 1 \<or> k > MAX_NIPOPOW_PARAM then Some (Inl InvalidK)
      else if rd_chainHeight reader < m + k then Some (Inl ChainTooShort)
      else if int (length suffixHeaders) < k then Some (Inl MissingPopow)
      else (case blockHash H (hd suffixHeaders) of
        Inl _ \<Rightarrow> Some (Inl ProveThrew)
      | Inr None \<Rightarrow> Some (Inl MissingPopow)
      | Inr (Some firstHash) \<Rightarrow> (case rd_byHash reader firstHash of
          None \<Rightarrow> Some (Inl MissingPopow)
        | Some suffixHead \<Rightarrow>
            (case levelsLoop reader m (ph_interlinks suffixHead) (length (ph_interlinks suffixHead) - 1) [] 1 of
               None \<Rightarrow> None
             | Some (Inl e) \<Rightarrow> Some (Inl e)
             | Some (Inr (c, anchoringHeight)) \<Rightarrow> Some (
                 ebind (sweep reader anchoringHeight (h_height (ph_header suffixHead)) c) (\<lambda>c1.
                 ebind (requirePopow (rd_atHeight reader 1)) (\<lambda>genesis.
                 Inr \<lparr>np_m = m, np_k = k,
                   np_prefix = sort_key (\<lambda>ph. h_height (ph_header ph)) (map snd (AList.update 1 genesis c1)),
                   np_suffixHead = suffixHead, np_suffixTail = tl suffixHeaders\<rparr>)))))))"

end
