(* ===== verification/HeaderChainLaws.thy ===== *)
theory HeaderChainLaws
  imports HeaderChain
begin

text \<open>
  What \<open>verifyHeaderChain\<close> guarantees: it never throws on any input but a zero
  half-life, an accepted page obeys every header rule, and verifying a chain page by
  page gives what verifying it at once gives.
\<close>

section \<open>Inversion\<close>

lemma stopIf_ok [simp]: "stopIf b i r = Inr u \<longleftrightarrow> \<not> b"
  by (simp add: stopIf_def)

lemma orStop_ok [simp]: "orStop m = Inr v \<longleftrightarrow> m = Inr v"
  by (cases m) (simp_all add: orStop_def)

lemma orStop_Inr [simp]: "orStop (Inr v) = Inr v"
  by (simp add: orStop_def)

lemma orBad_ok [simp]: "orBad m i r = Inr v \<longleftrightarrow> m = Some v"
  by (cases m) (simp_all add: orBad_def)

lemma headerStep_ok:
  "headerStep H schedule nowMs params yardstick height i previous expectedPrev h (links, t_a) = Inr (hash, links', t_a') \<longleftrightarrow>
     blockHash H h = Inr (Some hash) \<and> verifyProtocolVersion (h_protocolVersion h) (h_height h) schedule \<and>
     h_height h = height \<and> prevBlockHash h = expectedPrev \<and> \<not> outOfOrder previous h \<and>
     verifyCreatedAtBound h nowMs MAX_FUTURE_DRIFT_MS \<and> targetRule params i previous t_a h = Inr t_a' \<and>
     (\<exists>hit target. powHit H h = Inr (Some hit) \<and> orderingPowTarget (powTargetBits h) = Some target \<and>
        meetsPowTarget hit target \<and> interlinkRoot H links = Inr (h_interlinkRoot h) \<and>
        updateInterlinks links hash (if h_height h = 1 then Infinite else levelOfHit hit yardstick) = Inr links')"
  by (auto simp: headerStep_def bind_iff simp del: ebind_guard)

lemma targetRule_ok:
  "targetRule params i previous t_a h = Inr t_a' \<longleftrightarrow>
     (if h_height h = 1 then powTargetBits h = anchorBits params \<and> t_a' = (if t_a = None then Some (createdAt h) else t_a)
      else t_a' = t_a \<and> (\<exists>t pHeight pCreatedAt. t_a = Some t \<and> previous = Some (pHeight, pCreatedAt) \<and>
        asertTargetBits params t pHeight pCreatedAt = Inr (powTargetBits h)))"
  by (auto simp: targetRule_def bind_iff)

lemma targetRule_some: "targetRule params i previous t_a h = Inr t_a' \<Longrightarrow> t_a' \<noteq> None"
  by (auto simp: targetRule_ok split: if_splits)

section \<open>The vector a page carries\<close>

definition linksOk :: "string list \<Rightarrow> bool" where
  "linksOk v \<longleftrightarrow> int (length v) \<le> MAX_INTERLINKS \<and> list_all isHex64 v"

lemma anchorMalformed_iff: "\<not> anchorMalformed a \<longleftrightarrow> linksOk (an_interlinks a) \<and> (an_interlinks a \<noteq> [] \<or> an_height a = 0)"
  by (auto simp: anchorMalformed_def linksOk_def list_ex_iff list_all_iff)

lemma writeArr_total:
  "\<forall>x\<in>set xs. \<exists>bs. w x = Inr bs \<Longrightarrow> int (length xs) \<le> MAX_SAFE_INTEGER \<Longrightarrow> \<exists>bs. writeArr xs w = Inr bs"
proof -
  assume w: "\<forall>x\<in>set xs. \<exists>bs. w x = Inr bs" "int (length xs) \<le> MAX_SAFE_INTEGER"
  have "\<exists>bs. wcat (map w xs) = Inr bs"
    using w(1) by (induction xs) (auto simp: wcat_Cons_eq wcat_Nil_eq simp del: wcat.simps)
  then show ?thesis using w(2) by (auto simp: writeArr_def encodeVlqU_bytes wcat_Cons_eq simp del: wcat.simps)
qed

lemma interlinkRoot_total:
  assumes "linksOk v"
  shows "\<exists>r. interlinkRoot H v = Inr r"
proof -
  have "\<exists>bs. writeHexNOrThrow x 32 = Inr bs" if "x \<in> set v" for x
    using assms that by (auto simp: linksOk_def list_all_iff isHex64_width writeHexN_eq)
  then have "\<exists>bs. writeArr v (\<lambda>i. writeHexNOrThrow i 32) = Inr bs"
    using assms by (intro writeArr_total) (simp_all add: linksOk_def MAX_INTERLINKS_def MAX_SAFE_INTEGER_def)
  then show ?thesis by (auto simp: interlinkRoot_def encodeInterlinks_def encodeStruct_def INTERLINKS_def)
qed

lemma update_links:
  assumes "linksOk v" "isHex64 hash" "l = Infinite \<or> level_ok l \<and> v \<noteq> []"
  shows "\<exists>v'. updateInterlinks v hash l = Inr v' \<and> linksOk v' \<and> v' \<noteq> []"
proof (cases l)
  case Infinite
  then show ?thesis using assms by (simp add: updateInterlinks_def linksOk_def MAX_INTERLINKS_def)
next
  case NoLevel
  then show ?thesis using assms by (simp add: updateInterlinks_def)
next
  case (Level L)
  then have L: "0 \<le> L" "L \<le> LEVEL_CAP" "v \<noteq> []" using assms(3) by (simp_all add: level_ok_def)
  then show ?thesis
    using assms Level by (auto simp: updateInterlinks_def Let_def linksOk_def list_all_iff MAX_INTERLINKS_def LEVEL_CAP_def)
qed

lemma level_of_hit_ok: "length hit = 32 \<Longrightarrow> length target = 32 \<Longrightarrow> level_ok (levelOfHit hit target)"
  by (erule (1) levelOfHit_cases) (auto simp: level_ok_def LEVEL_CAP_def)

lemma hash_sizes:
  assumes "\<forall>x. 32 \<le> length (H x)"
  shows "blockHash H h = Inr (Some s) \<Longrightarrow> isHex64 s" "powHit H h = Inr (Some d) \<Longrightarrow> length d = 32"
proof -
  have l: "length (hash32 H ps) = 32" for ps using assms by (simp add: hash32_def min_absorb1)
  show "blockHash H h = Inr (Some s) \<Longrightarrow> isHex64 s" using l by (auto simp: blockHash_Some isHex64_width)
  show "powHit H h = Inr (Some d) \<Longrightarrow> length d = 32"
    using l by (auto simp: powHit_def bind_iff simp del: ebind_guard split: option.splits if_splits)
qed

section \<open>One header\<close>

lemma stopIf_eq: "stopIf b i r = (if b then Inl (ChainBad i r) else Inr ())"
  by (simp add: stopIf_def)

lemma headerStep_links:
  assumes H: "\<forall>x. 32 \<le> length (H x)" and y: "length yardstick = 32"
    and links: "linksOk links" "links \<noteq> [] \<or> height = 1"
    and ok: "headerStep H schedule nowMs params yardstick height i previous expectedPrev h (links, t_a) = Inr (hash, links', t_a')"
  shows "linksOk links' \<and> links' \<noteq> [] \<and> t_a' \<noteq> None \<and> isHex64 hash"
proof -
  obtain hit where s: "blockHash H h = Inr (Some hash)" "h_height h = height" "powHit H h = Inr (Some hit)"
      "targetRule params i previous t_a h = Inr t_a'"
      "updateInterlinks links hash (if h_height h = 1 then Infinite else levelOfHit hit yardstick) = Inr links'"
    using ok by (auto simp: headerStep_ok)
  have hash: "isHex64 hash" "length hit = 32" using hash_sizes [OF H] s(1,3) by blast+
  have "(if h_height h = 1 then Infinite else levelOfHit hit yardstick) = Infinite \<or>
      level_ok (if h_height h = 1 then Infinite else levelOfHit hit yardstick) \<and> links \<noteq> []"
    using links(2) level_of_hit_ok [OF hash(2) y] s(2) by auto
  from update_links [OF links(1) hash(1) this] s(5) show ?thesis using targetRule_some [OF s(4)] hash(1) by simp
qed

lemma asert_total: "halflifeMs params \<noteq> 0 \<Longrightarrow> \<exists>b. asertTargetBits params t ph pc = Inr b"
  by (simp add: asertTargetBits_def Let_def)

lemma headerStep_stops:
  assumes H: "\<forall>x. 32 \<le> length (H x)" and y: "length yardstick = 32" and p: "halflifeMs params \<noteq> 0"
    and links: "linksOk links" "links \<noteq> [] \<or> height = 1"
    and bad: "headerStep H schedule nowMs params yardstick height i previous expectedPrev h (links, t_a) = Inl e"
  shows "\<exists>r. e = ChainBad i r"
proof -
  obtain mhash where bh: "blockHash H h = Inr mhash" using blockHash_total [of H h] by blast
  obtain mhit where ph: "powHit H h = Inr mhit" using powHit_total [of H h] by blast
  obtain root where ir: "interlinkRoot H links = Inr root" using interlinkRoot_total [OF links(1)] by blast
  have as: "\<exists>b. asertTargetBits params t x c = Inr b" for t x c by (rule asert_total [OF p])
  have tr: "\<exists>r. e' = ChainBad i r" if t: "targetRule params i previous t_a h = Inl e'" for e'
  proof -
    have "orStop (asertTargetBits params t x c) \<noteq> Inl e''" for t x c e'' using as [of t x c] by (auto simp: orStop_def)
    then show ?thesis using t
      by (auto simp: targetRule_def bind_iff stopIf_eq orBad_def split: if_splits option.splits)
  qed
  show ?thesis
  proof (cases mhash)
    case None
    then show ?thesis using bad bh by (auto simp: headerStep_def orStop_def orBad_def)
  next
    case (Some hash)
    have hash: "isHex64 hash" using hash_sizes(1) [OF H] bh Some by blast
    have up: False if u: "orStop (updateInterlinks links hash (levelOfHit hit yardstick)) = Inl e'"
      and hit: "mhit = Some hit" "links \<noteq> []" for hit e'
    proof -
      have "length hit = 32" using hash_sizes(2) [OF H] ph hit(1) by blast
      then have "level_ok (levelOfHit hit yardstick) \<and> links \<noteq> []" using level_of_hit_ok y hit(2) by blast
      with update_links [OF links(1) hash, of "levelOfHit hit yardstick"] u show False by (auto simp: orStop_def split: sum.splits)
    qed
    have one: "updateInterlinks links hash Infinite = Inr [hash]" by (simp add: updateInterlinks_def)
    have none: "links \<noteq> []" if "h_height h = height" "h_height h \<noteq> 1" using that links(2) by auto
    show ?thesis
      using bad tr bh Some none
      by (auto simp: headerStep_def ph ir one bind_iff stopIf_eq orBad_def dest: up split: if_splits option.splits)
  qed
qed

section \<open>A run of headers\<close>

lemma headerLoop_keeps:
  assumes H: "\<forall>x. 32 \<le> length (H x)" and y: "length yardstick = 32"
    and "linksOk links" "links \<noteq> [] \<or> height = 1"
    and "headerLoop H schedule nowMs params yardstick height i previous expectedPrev hs (links, t_a) = Inr (hashes, links', t_a')"
  shows "length hashes = length hs \<and> linksOk links' \<and>
    (hs \<noteq> [] \<longrightarrow> links' \<noteq> [] \<and> t_a' \<noteq> None \<and> h_height (last hs) = height + int (length hs) - 1)"
  using assms(3-)
proof (induction hs arbitrary: height i previous expectedPrev links t_a hashes)
  case (Cons h hs)
  obtain hash l1 t1 hashes1 where s: "headerStep H schedule nowMs params yardstick height i previous expectedPrev h (links, t_a) = Inr (hash, l1, t1)"
      and r: "headerLoop H schedule nowMs params yardstick (height + 1) (i + 1) (Some (h_height h, createdAt h)) hash hs (l1, t1) = Inr (hashes1, links', t_a')"
      and e: "hashes = hash # hashes1"
    using Cons.prems(3) by (auto simp: bind_iff)
  have l1: "linksOk l1" "l1 \<noteq> []" "t1 \<noteq> None" using headerStep_links [OF H y Cons.prems(1,2) s] by simp_all
  have hh: "h_height h = height" using s by (simp add: headerStep_ok)
  from Cons.IH [OF l1(1) _ r] l1(2) have IH: "length hashes1 = length hs \<and> linksOk links' \<and>
      (hs \<noteq> [] \<longrightarrow> links' \<noteq> [] \<and> t_a' \<noteq> None \<and> h_height (last hs) = height + 1 + int (length hs) - 1)" by blast
  show ?case
  proof (cases "hs = []")
    case True
    then show ?thesis using IH e r l1 hh by simp
  next
    case False
    then show ?thesis using IH e by simp
  qed
qed simp

lemma headerLoop_stops:
  assumes H: "\<forall>x. 32 \<le> length (H x)" and y: "length yardstick = 32" and p: "halflifeMs params \<noteq> 0"
    and "linksOk links" "links \<noteq> [] \<or> height = 1"
    and "headerLoop H schedule nowMs params yardstick height i previous expectedPrev hs (links, t_a) = Inl e"
  shows "\<exists>j r. e = ChainBad j r \<and> i \<le> j \<and> j < i + int (length hs)"
  using assms(4-)
proof (induction hs arbitrary: height i previous expectedPrev links t_a)
  case (Cons h hs)
  show ?case
  proof (cases "headerStep H schedule nowMs params yardstick height i previous expectedPrev h (links, t_a)")
    case (Inl e')
    then have "e' = e" using Cons.prems(3) by simp
    then show ?thesis using headerStep_stops [OF H y p Cons.prems(1,2) Inl] by auto
  next
    case (Inr v)
    obtain hash l1 t1 where v: "v = (hash, l1, t1)" by (cases v)
    have l1: "linksOk l1" "l1 \<noteq> []" using headerStep_links [OF H y Cons.prems(1,2)] Inr v by blast+
    have "headerLoop H schedule nowMs params yardstick (height + 1) (i + 1) (Some (h_height h, createdAt h)) hash hs (l1, t1) = Inl e"
      using Cons.prems(3) Inr v by (auto simp: bind_iff)
    from Cons.IH [OF l1(1) _ this] l1(2) show ?thesis by fastforce
  qed
qed simp

section \<open>Pages\<close>

fun shiftStop :: "int \<Rightarrow> chainStop \<Rightarrow> chainStop" where
  "shiftStop k ChainThrew = ChainThrew"
| "shiftStop k (ChainBad i r) = ChainBad (i + k) r"

definition shifted :: "int \<Rightarrow> chainStop + 'a \<Rightarrow> chainStop + 'a" where
  "shifted k m = (case m of Inl e \<Rightarrow> Inl (shiftStop k e) | Inr v \<Rightarrow> Inr v)"

lemma shifted_bind: "shifted k (ebind m f) = ebind (shifted k m) (\<lambda>x. shifted k (f x))"
  by (cases m) (simp_all add: shifted_def)

lemma shifted_ok [bind_iff]: "shifted k m = Inr v \<longleftrightarrow> m = Inr v"
  by (cases m) (simp_all add: shifted_def)

lemma shifted_0 [simp]: "shifted 0 m = m"
proof -
  have "shiftStop 0 e = e" for e by (cases e) simp_all
  then show ?thesis by (simp add: shifted_def split: sum.splits)
qed

lemma shifted_parts [simp]:
  "shifted k (Inr v) = Inr v"
  "shifted k (stopIf b i r) = stopIf b (i + k) r"
  "shifted k (orStop m) = orStop m"
  "shifted k (orBad m' i r) = orBad m' (i + k) r"
  by (simp_all add: shifted_def stopIf_def orStop_def orBad_def split: sum.splits option.splits)

lemma headerStep_shift:
  "headerStep H schedule nowMs params yardstick height (i + k) previous expectedPrev h st =
     shifted k (headerStep H schedule nowMs params yardstick height i previous expectedPrev h st)"
proof -
  have t: "targetRule params (i + k) previous t_a h = shifted k (targetRule params i previous t_a h)" for t_a
    by (simp add: targetRule_def shifted_bind case_prod_unfold)
  show ?thesis by (cases st) (simp add: headerStep_def shifted_bind t)
qed

lemma headerLoop_shift:
  "headerLoop H schedule nowMs params yardstick height (i + k) previous expectedPrev hs st =
     shifted k (headerLoop H schedule nowMs params yardstick height i previous expectedPrev hs st)"
proof (induction hs arbitrary: height i previous expectedPrev st)
  case (Cons h hs)
  have "headerLoop H schedule nowMs params yardstick height (i + k + 1) previous expectedPrev hs st =
      shifted k (headerLoop H schedule nowMs params yardstick height (i + 1) previous expectedPrev hs st)"
    for height previous expectedPrev st
    using Cons.IH [of height "i + 1"] by (simp add: add.assoc add.commute [of 1 k])
  then show ?case by (simp add: headerStep_shift shifted_bind case_prod_unfold)
next
  case Nil
  then show ?case by (cases st) simp
qed

text \<open>What the header after \<open>xs\<close> is checked against.\<close>
abbreviation previousAfter :: "previous \<Rightarrow> blockHeader list \<Rightarrow> previous" where
  "previousAfter previous xs \<equiv> last (previous # map (\<lambda>h. Some (h_height h, createdAt h)) xs)"

lemma headerLoop_append:
  "headerLoop H schedule nowMs params yardstick height i previous expectedPrev (xs @ ys) st =
     ebind (headerLoop H schedule nowMs params yardstick height i previous expectedPrev xs st) (\<lambda>(hashes, st').
     ebind (headerLoop H schedule nowMs params yardstick (height + int (length xs)) (i + int (length xs))
         (previousAfter previous xs) (last (expectedPrev # hashes)) ys st') (\<lambda>(hashes', st'').
       Inr (hashes @ hashes', st'')))"
proof (induction xs arbitrary: height i previous expectedPrev st)
  case Nil
  then show ?case
    by (cases st; cases "headerLoop H schedule nowMs params yardstick height i previous expectedPrev ys st") auto
next
  case (Cons h xs)
  show ?case
    unfolding append_Cons headerLoop.simps Cons.IH
    by (simp add: ebind_assoc case_prod_unfold add.assoc)
qed

definition pageThen :: "headerPage \<Rightarrow> headerPage \<Rightarrow> headerPage" where
  "pageThen p q = \<lparr>pg_work = pg_work p + pg_work q, pg_hashes = pg_hashes p @ pg_hashes q, pg_next = pg_next q, pg_t_a = pg_t_a q\<rparr>"

lemma cumulativeWork_Cons:
  "cumulativeWork (h # hs) = (case blockWork (powTargetBits h) of None \<Rightarrow> 0 | Some w \<Rightarrow> w) + cumulativeWork hs"
proof -
  have f: "foldl (\<lambda>s h. case blockWork (powTargetBits h) of None \<Rightarrow> s | Some w \<Rightarrow> s + w) s hs = s + cumulativeWork hs" for s
    unfolding cumulativeWork_def
  proof (induction hs arbitrary: s)
    case (Cons h hs)
    show ?case
      using Cons.IH [of "s + (case blockWork (powTargetBits h) of None \<Rightarrow> 0 | Some w \<Rightarrow> w)"]
        Cons.IH [of "case blockWork (powTargetBits h) of None \<Rightarrow> 0 | Some w \<Rightarrow> w"]
      by (cases "blockWork (powTargetBits h)") simp_all
  qed simp
  show ?thesis
    using f [of "case blockWork (powTargetBits h) of None \<Rightarrow> 0 | Some w \<Rightarrow> w"]
    by (cases "blockWork (powTargetBits h)") (simp_all add: cumulativeWork_def)
qed

lemma cumulativeWork_append: "cumulativeWork (xs @ ys) = cumulativeWork xs + cumulativeWork ys"
  by (induction xs) (simp_all add: cumulativeWork_Cons, simp add: cumulativeWork_def)

lemma yardstick_width: "orderingPowTarget b = Some y \<Longrightarrow> length y = 32"
  by (auto simp: orderingPowTarget_def split: if_splits)

text \<open>An anchor a page starts from: what the checks before the loop give it.\<close>
lemma anchor_ready:
  "\<not> anchorMalformed a \<Longrightarrow> linksOk (an_interlinks a) \<and> (an_interlinks a \<noteq> [] \<or> an_height a + 1 = 1)"
  by (auto simp: anchorMalformed_iff)

text \<open>The checks before the loop, and a page that is not empty.\<close>
definition pageChecks :: "chainAnchor \<Rightarrow> retargetParams \<Rightarrow> int option \<Rightarrow> chainStop + byte list" where
  "pageChecks a params t_a =
     ebind (stopIf ((an_createdAt a = None) \<noteq> (t_a = None)) 0 C_time) (\<lambda>_.
     ebind (stopIf (anchorMalformed a) 0 C_interlinks) (\<lambda>_.
     orBad (orderingPowTarget (anchorBits params)) 0 C_target))"

lemma pageChecks_ok:
  "pageChecks a params t_a = Inr y \<longleftrightarrow> ((an_createdAt a = None) = (t_a = None)) \<and> \<not> anchorMalformed a \<and>
     orderingPowTarget (anchorBits params) = Some y"
  by (auto simp: pageChecks_def bind_iff)

definition pageOf :: "blockHeader list \<Rightarrow> string list \<times> string list \<times> int option \<Rightarrow> headerPage" where
  "pageOf headers = (\<lambda>(hashes, links, t_a). \<lparr>pg_work = cumulativeWork headers, pg_hashes = hashes,
     pg_next = \<lparr>an_prevBlockHash = last hashes, an_height = h_height (last headers), an_interlinks = links,
       an_createdAt = Some (createdAt (last headers))\<rparr>,
     pg_t_a = t_a\<rparr>)"

lemma chain_nonempty:
  "headers \<noteq> [] \<Longrightarrow> verifyHeaderChain H headers a params t_a nowMs schedule =
     ebind (pageChecks a params t_a) (\<lambda>yardstick.
     ebind (headerLoop H schedule nowMs params yardstick (an_height a + 1) 0 (anchorPrevious a) (an_prevBlockHash a)
       headers (an_interlinks a, t_a)) (\<lambda>r. Inr (pageOf headers r)))"
  by (simp add: verifyHeaderChain_def pageChecks_def pageOf_def ebind_assoc case_prod_unfold)

lemma chain_empty: "verifyHeaderChain H [] a params t_a nowMs schedule =
    Inr \<lparr>pg_work = 0, pg_hashes = [], pg_next = a, pg_t_a = t_a\<rparr>"
  by (simp add: verifyHeaderChain_def)

section \<open>A page\<close>

text \<open>Two headers from the genesis anchor, under a digest that is always zero.\<close>
definition pageHeaders :: "blockHeader list" where
  "pageHeaders = [(plainHeader 0)\<lparr>h_height := 1\<rparr>, (plainHeader 5)\<lparr>createdAt := 2000\<rparr>]"

definition pageAnchor :: chainAnchor where
  "pageAnchor = \<lparr>an_prevBlockHash = replicate 64 (CHR ''0''), an_height = 0, an_interlinks = [], an_createdAt = None\<rparr>"

definition pageParams :: retargetParams where
  "pageParams = \<lparr>anchorBits = 2304, idealMs = 1000, halflifeMs = 3600000, floorBits = 0, ceilingBits = 65536\<rparr>"

abbreviation zeroHash :: hash where "zeroHash \<equiv> \<lambda>_. replicate 64 0"

abbreviation pageEras :: "protocolEra list" where "pageEras \<equiv> [\<lparr>era_version = 1, era_fromHeight = 1\<rparr>]"

lemma page_accepted: "is_ok (verifyHeaderChain zeroHash pageHeaders pageAnchor pageParams None 5000 pageEras)"
  by code_simp

text \<open>C17: a chain may be verified page by page: a run cut in two gives, through the
  continuation of its first page, exactly the verdict of the run at once: the same
  refusal with its index counted from the start, or the hashes in order, the work
  summed and the same continuation.\<close>
theorem pages_compose:
  assumes "\<forall>x. 32 \<le> length (H x)"
  shows "verifyHeaderChain H (xs @ ys) a params t_a nowMs schedule =
    ebind (verifyHeaderChain H xs a params t_a nowMs schedule) (\<lambda>p.
    ebind (shifted (int (length xs)) (verifyHeaderChain H ys (pg_next p) params (pg_t_a p) nowMs schedule)) (\<lambda>q.
      Inr (pageThen p q)))"
proof (cases "xs = [] \<or> ys = []")
  case True
  have "pageThen \<lparr>pg_work = 0, pg_hashes = [], pg_next = b, pg_t_a = t\<rparr> q = q"
    "pageThen q \<lparr>pg_work = 0, pg_hashes = [], pg_next = pg_next q, pg_t_a = pg_t_a q\<rparr> = q" for b t q
    by (simp_all add: pageThen_def)
  then show ?thesis
    using True by (cases "verifyHeaderChain H (xs @ ys) a params t_a nowMs schedule") (auto simp: chain_empty)
next
  case False
  show ?thesis
  proof (cases "pageChecks a params t_a")
    case (Inl e)
    then show ?thesis using False by (simp add: chain_nonempty)
  next
    case (Inr y)
    have y: "length y = 32" "\<not> anchorMalformed a" using Inr yardstick_width by (auto simp: pageChecks_ok)
    let ?run = "headerLoop H schedule nowMs params y (an_height a + 1) 0 (anchorPrevious a) (an_prevBlockHash a) xs (an_interlinks a, t_a)"
    show ?thesis
    proof (cases ?run)
      case (Inl e)
      then show ?thesis using False Inr by (simp add: chain_nonempty headerLoop_append)
    next
      fix v assume v: "?run = Inr v"
      obtain hashes links t where "v = (hashes, links, t)" by (cases v)
      note run = v [unfolded this]
      from headerLoop_keeps [OF assms y(1) conjunct1 [OF anchor_ready] conjunct2 [OF anchor_ready] run] y(2)
      have k: "length hashes = length xs" "linksOk links" "links \<noteq> []" "t \<noteq> None"
        "h_height (last xs) = an_height a + int (length xs)" using False by auto
      let ?p = "pageOf xs (hashes, links, t)"
      have checks: "pageChecks (pg_next ?p) params (pg_t_a ?p) = Inr y"
        using k Inr by (simp add: pageChecks_ok pageOf_def anchorMalformed_iff)
      have prev: "previousAfter (anchorPrevious a) xs = anchorPrevious (pg_next ?p)"
          "last (an_prevBlockHash a # hashes) = an_prevBlockHash (pg_next ?p)"
          "an_height a + 1 + int (length xs) = an_height (pg_next ?p) + 1"
        using False k by (auto simp: pageOf_def anchorPrevious_def last_map)
      have first: "verifyHeaderChain H xs a params t_a nowMs schedule = Inr ?p"
        using False Inr run by (simp add: chain_nonempty)
      have both: "pageOf (xs @ ys) (hashes @ hashes', st) = pageThen ?p (pageOf ys (hashes', st))"
        if "length hashes' = length ys" for hashes' st
        using False that by (cases st; cases hashes') (auto simp: pageOf_def pageThen_def cumulativeWork_append)
      let ?rest = "headerLoop H schedule nowMs params y (an_height (pg_next ?p) + 1) 0 (anchorPrevious (pg_next ?p))
          (an_prevBlockHash (pg_next ?p)) ys (links, t)"
      have len: "length (fst r) = length ys" if "?rest = Inr r" for r
        using headerLoop_keeps [OF assms y(1) k(2) disjI1 [OF k(3)]] that by (cases r) auto
      have ys: "verifyHeaderChain H ys (pg_next ?p) params (pg_t_a ?p) nowMs schedule =
          ebind ?rest (\<lambda>r. Inr (pageOf ys r))"
        using False checks by (simp add: chain_nonempty pageOf_def)
      have "headerLoop H schedule nowMs params y (an_height a + 1) 0 (anchorPrevious a) (an_prevBlockHash a) (xs @ ys)
          (an_interlinks a, t_a) = ebind (shifted (int (length xs)) ?rest) (\<lambda>(hashes', st). Inr (hashes @ hashes', st))"
        unfolding headerLoop_append run ebind_Inr prod.case prev headerLoop_shift [where i = 0 and k = "int (length xs)"] ..
      then have "verifyHeaderChain H (xs @ ys) a params t_a nowMs schedule =
          ebind (shifted (int (length xs)) ?rest) (\<lambda>(hashes', st). Inr (pageOf (xs @ ys) (hashes @ hashes', st)))"
        using False Inr by (simp add: chain_nonempty case_prod_unfold ebind_assoc)
      also have "\<dots> = ebind (shifted (int (length xs)) (ebind ?rest (\<lambda>r. Inr (pageOf ys r)))) (\<lambda>q. Inr (pageThen ?p q))"
        using len both by (cases ?rest) (auto simp: shifted_def)
      finally show ?thesis by (simp add: first ys)
    qed
  qed
qed

lemma pages_compose_witness:
  "\<exists>p q. verifyHeaderChain zeroHash [hd pageHeaders] pageAnchor pageParams None 5000 pageEras = Inr p \<and>
     verifyHeaderChain zeroHash (tl pageHeaders) (pg_next p) pageParams (pg_t_a p) 5000 pageEras = Inr q \<and>
     verifyHeaderChain zeroHash pageHeaders pageAnchor pageParams None 5000 pageEras = Inr (pageThen p q)"
proof -
  obtain r where r: "verifyHeaderChain zeroHash pageHeaders pageAnchor pageParams None 5000 pageEras = Inr r"
    using page_accepted by (auto simp: is_ok_def split: sum.splits)
  have cut: "[hd pageHeaders] @ tl pageHeaders = pageHeaders" by (simp add: pageHeaders_def)
  have "ebind (verifyHeaderChain zeroHash [hd pageHeaders] pageAnchor pageParams None 5000 pageEras) (\<lambda>p.
      ebind (shifted 1 (verifyHeaderChain zeroHash (tl pageHeaders) (pg_next p) pageParams (pg_t_a p) 5000 pageEras)) (\<lambda>q.
        Inr (pageThen p q))) = Inr r"
    using pages_compose [of zeroHash "[hd pageHeaders]" "tl pageHeaders" pageAnchor pageParams None 5000 pageEras] r
    unfolding cut by simp
  then show ?thesis using r by (auto simp: bind_iff)
qed

text \<open>The page verifier never throws but on a zero half-life: every page over every
  anchor is either accepted or refused with a reason at an index of the page.\<close>
theorem header_chain_total:
  assumes "\<forall>x. 32 \<le> length (H x)" "halflifeMs params \<noteq> 0"
  shows "case verifyHeaderChain H headers a params t_a nowMs schedule of
      Inr p \<Rightarrow> length (pg_hashes p) = length headers \<and>
        (headers \<noteq> [] \<longrightarrow> an_height (pg_next p) = an_height a + int (length headers) \<and> \<not> anchorMalformed (pg_next p))
    | Inl (ChainBad j r) \<Rightarrow> 0 \<le> j \<and> j < int (length headers)
    | Inl ChainThrew \<Rightarrow> False"
proof (cases "headers = []")
  case True
  then show ?thesis by (simp add: chain_empty)
next
  case False
  show ?thesis
  proof (cases "pageChecks a params t_a")
    case (Inl e)
    then show ?thesis using False
      by (auto simp: chain_nonempty pageChecks_def bind_iff stopIf_def orBad_def split: if_splits option.splits)
  next
    case (Inr y)
    have y: "length y = 32" "\<not> anchorMalformed a" using Inr yardstick_width by (auto simp: pageChecks_ok)
    note start = y(1) conjunct1 [OF anchor_ready [OF y(2)]] conjunct2 [OF anchor_ready [OF y(2)]]
    let ?run = "headerLoop H schedule nowMs params y (an_height a + 1) 0 (anchorPrevious a) (an_prevBlockHash a) headers (an_interlinks a, t_a)"
    show ?thesis
    proof (cases ?run)
      case (Inl e)
      then obtain j r where "e = ChainBad j r" "0 \<le> j" "j < int (length headers)"
        using headerLoop_stops [OF assms(1) start(1) assms(2) start(2,3) Inl] by auto
      then show ?thesis using False Inr Inl by (simp add: chain_nonempty)
    next
      fix v assume v: "?run = Inr v"
      obtain hashes links t where r: "v = (hashes, links, t)" by (cases v)
      from headerLoop_keeps [OF assms(1) start, of schedule nowMs params 0] v r False
      have "length hashes = length headers" "linksOk links" "links \<noteq> []" "h_height (last headers) = an_height a + int (length headers)"
        by fastforce+
      then show ?thesis using False Inr v r by (simp add: chain_nonempty pageOf_def anchorMalformed_iff)
    qed
  qed
qed

lemma header_chain_total_witness:
  "\<exists>p. verifyHeaderChain zeroHash pageHeaders pageAnchor pageParams None 5000 pageEras = Inr p \<and> length (pg_hashes p) = 2"
proof -
  obtain p where p: "verifyHeaderChain zeroHash pageHeaders pageAnchor pageParams None 5000 pageEras = Inr p"
    using page_accepted by (auto simp: is_ok_def split: sum.splits)
  have "halflifeMs pageParams \<noteq> 0" by (simp add: pageParams_def)
  from header_chain_total [of zeroHash pageParams pageHeaders pageAnchor None 5000 pageEras, OF _ this] p
  show ?thesis by (simp add: pageHeaders_def)
qed

section \<open>What an accepted page obeys\<close>

text \<open>The header rules, each as its own check: the header after the one before it, the
  clock, the schedule anchored at \<open>t\<close>, the proof of work and the interlinks it commits to.\<close>
definition obeys ::
    "hash \<Rightarrow> protocolEra list \<Rightarrow> int \<Rightarrow> retargetParams \<Rightarrow> int \<Rightarrow> int \<Rightarrow> previous \<Rightarrow> string \<Rightarrow> string list \<Rightarrow> string \<Rightarrow>
     blockLevel \<Rightarrow> blockHeader \<Rightarrow> bool" where
  "obeys H schedule nowMs params t height previous expectedPrev links hash l h \<longleftrightarrow>
     blockHash H h = Inr (Some hash) \<and> level H h (anchorBits params) = Inr l \<and>
     verifyProtocolVersion (h_protocolVersion h) height schedule \<and> h_height h = height \<and> prevBlockHash h = expectedPrev \<and>
     verifyCreatedAtBound h nowMs MAX_FUTURE_DRIFT_MS \<and> verifyOrderingBlockPoW H h = Inr True \<and>
     interlinkRoot H links = Inr (h_interlinkRoot h) \<and>
     (if height = 1 then powTargetBits h = anchorBits params
      else \<exists>ph pc. previous = Some (ph, pc) \<and> pc < createdAt h \<and> asertTargetBits params t ph pc = Inr (powTargetBits h))"

lemma step_obeys:
  assumes "orderingPowTarget (anchorBits params) = Some yardstick"
    and s: "headerStep H schedule nowMs params yardstick height i previous expectedPrev h (links, t_a) = Inr (hash, links', t_a')"
  shows "\<exists>l t. t_a' = Some t \<and> (t_a \<noteq> None \<longrightarrow> t_a' = t_a) \<and> obeys H schedule nowMs params t height previous expectedPrev links hash l h \<and>
    updateInterlinks links hash l = Inr links' \<and> (height = 1 \<and> t_a = None \<longrightarrow> t_a' = Some (createdAt h))"
proof -
  obtain hit target where r: "blockHash H h = Inr (Some hash)" "verifyProtocolVersion (h_protocolVersion h) (h_height h) schedule"
     "h_height h = height" "prevBlockHash h = expectedPrev" "\<not> outOfOrder previous h"
     "verifyCreatedAtBound h nowMs MAX_FUTURE_DRIFT_MS" "targetRule params i previous t_a h = Inr t_a'"
     "powHit H h = Inr (Some hit)" "orderingPowTarget (powTargetBits h) = Some target" "meetsPowTarget hit target"
     "interlinkRoot H links = Inr (h_interlinkRoot h)"
     "updateInterlinks links hash (if h_height h = 1 then Infinite else levelOfHit hit yardstick) = Inr links'"
    using s unfolding headerStep_ok by blast
  let ?l = "if h_height h = 1 then Infinite else levelOfHit hit yardstick"
  have l: "level H h (anchorBits params) = Inr ?l" using r(8) assms(1) by (simp add: level_def)
  have w: "verifyOrderingBlockPoW H h = Inr True" using r(8-10) by (simp add: verifyOrderingBlockPoW_def)
  obtain t where t: "t_a' = Some t" using targetRule_some [OF r(7)] by blast
  have "obeys H schedule nowMs params t height previous expectedPrev links hash ?l h"
    unfolding obeys_def using r l w t by (auto simp: targetRule_ok outOfOrder_def split: if_splits)
  moreover have "t_a \<noteq> None \<longrightarrow> t_a' = t_a" using r(7) by (auto simp: targetRule_ok split: if_splits)
  moreover have "height = 1 \<and> t_a = None \<longrightarrow> t_a' = Some (createdAt h)" using r(3,7) by (auto simp: targetRule_ok)
  ultimately show ?thesis using t r(12) by blast
qed

lemma loop_obeys:
  assumes "orderingPowTarget (anchorBits params) = Some yardstick"
    and "headerLoop H schedule nowMs params yardstick height i previous expectedPrev hs (links, t_a) = Inr (hashes, links', t_a')"
  shows "\<exists>levels. length levels = length hs \<and> length hashes = length hs \<and> (t_a \<noteq> None \<longrightarrow> t_a' = t_a) \<and>
    interlinksAlong links (zip hashes levels) = Inr links' \<and>
    (\<forall>j<length hs. \<exists>v t. t_a' = Some t \<and> interlinksAlong links (take j (zip hashes levels)) = Inr v \<and>
       obeys H schedule nowMs params t (height + int j) ((previous # map (\<lambda>h. Some (h_height h, createdAt h)) hs) ! j)
         ((expectedPrev # hashes) ! j) v (hashes ! j) (levels ! j) (hs ! j))"
  using assms(2)
proof (induction hs arbitrary: height i previous expectedPrev links t_a hashes)
  case Nil
  then show ?case by (simp add: interlinksAlong_def)
next
  case (Cons h hs)
  obtain hash l1 t1 hashes1 where s: "headerStep H schedule nowMs params yardstick height i previous expectedPrev h (links, t_a) = Inr (hash, l1, t1)"
      and r: "headerLoop H schedule nowMs params yardstick (height + 1) (i + 1) (Some (h_height h, createdAt h)) hash hs (l1, t1) = Inr (hashes1, links', t_a')"
      and e: "hashes = hash # hashes1"
    using Cons.prems by (auto simp: bind_iff)
  obtain l t where o: "t1 = Some t" "t_a \<noteq> None \<longrightarrow> t1 = t_a" "obeys H schedule nowMs params t height previous expectedPrev links hash l h"
      "updateInterlinks links hash l = Inr l1"
    using step_obeys [OF assms(1) s] by blast
  from Cons.IH [OF r] o(1) obtain levels where IH: "length levels = length hs" "length hashes1 = length hs" "t_a' = Some t"
      "interlinksAlong l1 (zip hashes1 levels) = Inr links'"
      and each: "\<And>j. j < length hs \<Longrightarrow> \<exists>v. interlinksAlong l1 (take j (zip hashes1 levels)) = Inr v \<and>
       obeys H schedule nowMs params t (height + 1 + int j) ((Some (h_height h, createdAt h) # map (\<lambda>h. Some (h_height h, createdAt h)) hs) ! j)
         ((hash # hashes1) ! j) v (hashes1 ! j) (levels ! j) (hs ! j)" by auto
  have along: "interlinksAlong links ((hash, l) # xs) = interlinksAlong l1 xs" for xs
    using o(4) by (simp add: interlinksAlong_def)
  have "\<exists>v. interlinksAlong links (take j (zip hashes (l # levels))) = Inr v \<and>
       obeys H schedule nowMs params t (height + int j) ((previous # map (\<lambda>h. Some (h_height h, createdAt h)) (h # hs)) ! j)
         ((expectedPrev # hashes) ! j) v (hashes ! j) ((l # levels) ! j) ((h # hs) ! j)"
    if j: "j < length (h # hs)" for j
  proof (cases j)
    case 0
    then show ?thesis using o(3) e by (simp add: interlinksAlong_def)
  next
    case (Suc k)
    then show ?thesis using each [of k] j e along by (simp add: add.assoc)
  qed
  then show ?case using IH o(1,2) e along by (intro exI [of _ "l # levels"]) auto
qed

text \<open>From the genesis the schedule is anchored at the time of block 1.\<close>
lemma loop_genesis:
  assumes "orderingPowTarget (anchorBits params) = Some yardstick"
    and "headerLoop H schedule nowMs params yardstick 1 i previous expectedPrev (h # hs) (links, None) = Inr (hashes, links', t_a')"
  shows "t_a' = Some (createdAt h)"
proof -
  obtain hash l1 t1 hashes1 where s: "headerStep H schedule nowMs params yardstick 1 i previous expectedPrev h (links, None) = Inr (hash, l1, t1)"
      and r: "headerLoop H schedule nowMs params yardstick (1 + 1) (i + 1) (Some (h_height h, createdAt h)) hash hs (l1, t1) = Inr (hashes1, links', t_a')"
    using assms(2) by (auto simp: bind_iff)
  have "t1 = Some (createdAt h)" using step_obeys [OF assms(1) s] by auto
  then show ?thesis using loop_obeys [OF assms(1) r] by auto
qed

lemma page_obeys:
  assumes "verifyHeaderChain H hs a params t_a nowMs schedule = Inr p" "hs \<noteq> []"
  shows "\<exists>levels t. length levels = length hs \<and> length (pg_hashes p) = length hs \<and> pg_t_a p = Some t \<and> pg_work p = cumulativeWork hs \<and>
    an_prevBlockHash (pg_next p) = last (pg_hashes p) \<and> an_createdAt (pg_next p) = Some (createdAt (last hs)) \<and>
    interlinksAlong (an_interlinks a) (zip (pg_hashes p) levels) = Inr (an_interlinks (pg_next p)) \<and>
    (\<forall>j<length hs. \<exists>v. interlinksAlong (an_interlinks a) (take j (zip (pg_hashes p) levels)) = Inr v \<and>
       obeys H schedule nowMs params t (an_height a + 1 + int j)
         ((anchorPrevious a # map (\<lambda>h. Some (h_height h, createdAt h)) hs) ! j)
         ((an_prevBlockHash a # pg_hashes p) ! j) v (pg_hashes p ! j) (levels ! j) (hs ! j))"
proof -
  obtain y hashes links t' where y: "orderingPowTarget (anchorBits params) = Some y"
      and run: "headerLoop H schedule nowMs params y (an_height a + 1) 0 (anchorPrevious a) (an_prevBlockHash a) hs (an_interlinks a, t_a) = Inr (hashes, links, t')"
      and p: "p = pageOf hs (hashes, links, t')"
    using assms by (auto simp: chain_nonempty bind_iff pageChecks_ok)
  from loop_obeys [OF y run] obtain levels where L: "length levels = length hs" "length hashes = length hs"
      "interlinksAlong (an_interlinks a) (zip hashes levels) = Inr links"
      and each: "\<forall>j<length hs. \<exists>v t. t' = Some t \<and> interlinksAlong (an_interlinks a) (take j (zip hashes levels)) = Inr v \<and>
       obeys H schedule nowMs params t (an_height a + 1 + int j) ((anchorPrevious a # map (\<lambda>h. Some (h_height h, createdAt h)) hs) ! j)
         ((an_prevBlockHash a # hashes) ! j) v (hashes ! j) (levels ! j) (hs ! j)" by blast
  obtain t where t: "t' = Some t" using each assms(2) by (cases hs) auto
  show ?thesis using L each t by (intro exI [of _ levels] exI [of _ t]) (auto simp: p pageOf_def)
qed

text \<open>C16: an accepted page is a chain: at every position the header encodes to the
  listed hash, follows the one before it in hash, height and time, is mined at the
  target the schedule gives for its parent, keeps the clock and declares the era of
  its height, and commits to exactly the interlink vector the headers before it
  build from the anchor's; the continuation carries that vector on.\<close>
theorem accepted_page_obeys:
  assumes "verifyHeaderChain H hs a params t_a nowMs schedule = Inr p" "hs \<noteq> []"
  shows "\<exists>levels t. length levels = length hs \<and> length (pg_hashes p) = length hs \<and> pg_t_a p = Some t \<and> pg_work p = cumulativeWork hs \<and>
    an_prevBlockHash (pg_next p) = last (pg_hashes p) \<and> an_createdAt (pg_next p) = Some (createdAt (last hs)) \<and>
    interlinksAlong (an_interlinks a) (zip (pg_hashes p) levels) = Inr (an_interlinks (pg_next p)) \<and>
    (\<forall>j<length hs. \<exists>v. interlinksAlong (an_interlinks a) (take j (zip (pg_hashes p) levels)) = Inr v \<and>
       obeys H schedule nowMs params t (an_height a + 1 + int j)
         ((anchorPrevious a # map (\<lambda>h. Some (h_height h, createdAt h)) hs) ! j)
         ((an_prevBlockHash a # pg_hashes p) ! j) v (pg_hashes p ! j) (levels ! j) (hs ! j))"
  by (rule page_obeys [OF assms])

lemma accepted_page_obeys_witness:
  "\<exists>p. verifyHeaderChain zeroHash pageHeaders pageAnchor pageParams None 5000 pageEras = Inr p \<and>
     (\<exists>l v t. obeys zeroHash pageEras 5000 pageParams t 2 (Some (1, 1000)) (pg_hashes p ! 0) v (pg_hashes p ! 1) l (pageHeaders ! 1))"
proof -
  obtain p where p: "verifyHeaderChain zeroHash pageHeaders pageAnchor pageParams None 5000 pageEras = Inr p"
    using page_accepted by (auto simp: is_ok_def split: sum.splits)
  have ne: "pageHeaders \<noteq> []" "1 < length pageHeaders" by (simp_all add: pageHeaders_def)
  from accepted_page_obeys [OF p ne(1)] ne(2) obtain l v t where
    "obeys zeroHash pageEras 5000 pageParams t (an_height pageAnchor + 1 + int 1)
       ((anchorPrevious pageAnchor # map (\<lambda>h. Some (h_height h, createdAt h)) pageHeaders) ! 1)
       ((an_prevBlockHash pageAnchor # pg_hashes p) ! 1) v (pg_hashes p ! 1) l (pageHeaders ! 1)" by blast
  then show ?thesis using p by (auto simp: pageAnchor_def pageHeaders_def plainHeader_def)
qed

end
