(* ===== verification/NipopowCodec.thy ===== *)
theory NipopowCodec
  imports Nipopow HeaderChainLaws
begin

text \<open>
  The codec of \<open>packages/nipopow/src/codec.ts\<close>: what is encoded decodes to itself, and
  whatever decodes lies within the bounds the verifier relies on.
\<close>

section \<open>One popow header\<close>

definition popow_dom :: "popowHeader \<Rightarrow> bool" where
  "popow_dom p \<longleftrightarrow> header_dom (ph_header p) \<and> int (length (ph_interlinks p)) \<le> MAX_INTERLINKS"

lemma parses_rlift: "parses (rlift (Inr v)) [] v"
  using parses_rret [of v] by (simp add: parses_def rlift_def rret_def)

lemma parses_lp_header:
  assumes "encodeHeader h = Inr hb" "writeLp hb = Inr bs" "header_dom h"
  shows "parses (rbind readLp (\<lambda>b. rlift (decodeHeader b))) bs h"
proof -
  have "decodeHeader hb = Inr h"
    using header_codec.decode_encode [OF assms(3)] assms(1) by (simp add: encodeHeader_def decodeHeader_def)
  then have "parses (rbind readLp (\<lambda>b. rlift (decodeHeader b))) (bs @ []) h"
    by (intro parses_rbind [OF parses_writeLp [OF assms(2)]]) (simp add: parses_rlift)
  then show ?thesis by simp
qed

lemma parses_popow:
  assumes "writePopow p = Inr bs" "popow_dom p"
  shows "parses readPopow bs p"
proof -
  obtain hb b1 ib b2 where w: "encodeHeader (ph_header p) = Inr hb" "writeLp hb = Inr b1"
      "encodeInterlinks (ph_interlinks p) = Inr ib" "writeLp ib = Inr b2" "bs = b1 @ [] @ b2 @ []"
    using assms(1) by (auto simp: writePopow_def bind_iff wcat_Cons_eq wcat_Nil_eq simp del: wcat.simps writeLp_eq)
  have h: "decodeHeader hb = Inr (ph_header p)" "decodeInterlinks ib = Inr (ph_interlinks p)"
    using header_codec.decode_encode [of "ph_header p" hb] interlinks_codec.decode_encode [of "ph_interlinks p" ib] w(1,3) assms(2)
    by (simp_all add: encodeHeader_def decodeHeader_def encodeInterlinks_def decodeInterlinks_def popow_dom_def)
  have "parses readPopow (b1 @ [] @ b2 @ [] @ []) \<lparr>ph_header = ph_header p, ph_interlinks = ph_interlinks p\<rparr>"
    unfolding readPopow_def
    by (rule parses_rbind, rule parses_writeLp [OF w(2)], rule parses_rbind, unfold h, rule parses_rlift,
        rule parses_rbind, rule parses_writeLp [OF w(4)], rule parses_rbind, unfold h, rule parses_rlift, rule parses_rret)
  then show ?thesis using w(5) by (cases p) simp
qed

interpretation popow_codec: struct_codec POPOW_HEADER popow_dom
  by unfold_locales (simp add: POPOW_HEADER_def parses_popow)

section \<open>The proof\<close>

definition proof_dom :: "nipopowProof \<Rightarrow> bool" where
  "proof_dom p \<longleftrightarrow> 1 \<le> np_m p \<and> np_m p \<le> MAX_NIPOPOW_PARAM \<and> 1 \<le> np_k p \<and> np_k p \<le> MAX_NIPOPOW_PARAM \<and>
     int (length (np_prefix p)) \<le> MAX_NIPOPOW_PREFIX \<and> int (length (np_suffixTail p)) = np_k p - 1 \<and>
     list_all popow_dom (allPoPow p) \<and> list_all header_dom (np_suffixTail p)"

lemma parses_bounded:
  assumes "writeVlqU v = Inr bs" "0 \<le> lo" "lo \<le> v" "v \<le> hi" "hi \<le> MAX_SAFE_INTEGER"
  shows "parses (readBoundedVlqU lo hi) bs v"
proof -
  have "isEncodableVlqU v" using assms(2-) by (simp add: isEncodableVlqU_iff)
  from parses_writeVlqU [OF assms(1) this] have "parses (readBoundedVlqU lo hi) (bs @ []) v"
    unfolding readBoundedVlqU_def by (rule parses_rbind) (use assms in \<open>simp add: parses_rret\<close>)
  then show ?thesis by simp
qed

lemma parses_counted:
  assumes "writeArr xs f = Inr bs" "\<And>x cs. x \<in> set xs \<Longrightarrow> f x = Inr cs \<Longrightarrow> parses p cs x"
  obtains c1 c2 where "bs = c1 @ c2" "parses readVlqU c1 (int (length xs))" "parses (readTimes (length xs) p) c2 xs"
proof -
  obtain c where c: "wcat (map f xs) = Inr c" "bs = vlq (int (length xs)) @ c" "int (length xs) \<le> MAX_SAFE_INTEGER"
    using assms(1) by (auto simp: writeArr_def bind_iff)
  obtain e where e: "\<forall>x\<in>set xs. f x = Inr (e x)" "c = concat (map e xs)" using wcat_map_concat [OF c(1)] by blast
  have "parses (readTimes (length xs) p) (concat (map e xs)) xs"
    by (rule parses_each) (use assms(2) e(1) in blast)
  then show thesis using that [of "vlq (int (length xs))" c] c e(2) parses_readVlqU [of "int (length xs)"] by simp
qed

lemma parses_proof:
  assumes "writeProof p = Inr bs" "proof_dom p"
  shows "parses readProof bs p"
proof -
  obtain b1 b2 b3 b4 b5 where w: "writeVlqU (np_m p) = Inr b1" "writeVlqU (np_k p) = Inr b2"
      "writeArr (np_prefix p) writePopow = Inr b3" "writePopow (np_suffixHead p) = Inr b4"
      "writeArr (np_suffixTail p) (\<lambda>h. ebind (encodeHeader h) writeLp) = Inr b5" "bs = b1 @ b2 @ b3 @ b4 @ b5 @ []"
    using assms(1) by (auto simp: writeProof_def wcat_Cons_eq wcat_Nil_eq simp del: wcat.simps)
  have d: "1 \<le> np_m p" "np_m p \<le> MAX_NIPOPOW_PARAM" "1 \<le> np_k p" "np_k p \<le> MAX_NIPOPOW_PARAM"
     "int (length (np_prefix p)) \<le> MAX_NIPOPOW_PREFIX" "int (length (np_suffixTail p)) = np_k p - 1"
     "\<And>x. x \<in> set (np_prefix p) \<Longrightarrow> popow_dom x" "popow_dom (np_suffixHead p)" "\<And>h. h \<in> set (np_suffixTail p) \<Longrightarrow> header_dom h"
    using assms(2) by (auto simp: proof_dom_def allPoPow_def list_all_iff)
  have safe: "MAX_NIPOPOW_PARAM \<le> MAX_SAFE_INTEGER" by (simp add: MAX_NIPOPOW_PARAM_def MAX_SAFE_INTEGER_def)
  obtain c1 c2 where c: "b3 = c1 @ c2" "parses readVlqU c1 (int (length (np_prefix p)))"
      "parses (readTimes (length (np_prefix p)) readPopow) c2 (np_prefix p)"
    by (rule parses_counted [OF w(3)]) (use d(7) parses_popow in blast)+
  obtain t1 t2 where t: "b5 = t1 @ t2" "parses readVlqU t1 (int (length (np_suffixTail p)))"
      "parses (readTimes (length (np_suffixTail p)) (rbind readLp (\<lambda>b. rlift (decodeHeader b)))) t2 (np_suffixTail p)"
    by (rule parses_counted [OF w(5)]) (use d(9) parses_lp_header in \<open>auto simp: bind_iff simp del: writeLp_eq\<close>)
  have "parses readProof (b1 @ b2 @ c1 @ c2 @ b4 @ t1 @ t2 @ []) \<lparr>np_m = np_m p, np_k = np_k p, np_prefix = np_prefix p,
      np_suffixHead = np_suffixHead p, np_suffixTail = np_suffixTail p\<rparr>"
    unfolding readProof_def
  proof (rule parses_rbind, rule parses_bounded [OF w(1) _ d(1,2) safe], simp, rule parses_rbind,
      rule parses_bounded [OF w(2) _ d(3,4) safe], simp, rule parses_rbind, rule c(2), subst if_not_P)
    show "\<not> int (length (np_prefix p)) > MAX_NIPOPOW_PREFIX" using d(5) by simp
    have tail: "parses (rbind (readTimes (nat (int (length (np_suffixTail p)))) (rbind readLp (\<lambda>b. rlift (decodeHeader b))))
        (\<lambda>suffixTail. rret \<lparr>np_m = np_m p, np_k = np_k p, np_prefix = np_prefix p, np_suffixHead = np_suffixHead p, np_suffixTail = suffixTail\<rparr>))
        (t2 @ []) \<lparr>np_m = np_m p, np_k = np_k p, np_prefix = np_prefix p, np_suffixHead = np_suffixHead p, np_suffixTail = np_suffixTail p\<rparr>"
      by (rule parses_rbind, unfold nat_int, rule t(3), rule parses_rret)
    show "parses (rbind (readTimes (nat (int (length (np_prefix p)))) readPopow) (\<lambda>pre. rbind readPopow (\<lambda>suffixHead. rbind readVlqU (\<lambda>tailCount.
         if tailCount \<noteq> np_k p - 1 then rfail (ReaderErr OutOfDomain)
         else rbind (readTimes (nat tailCount) (rbind readLp (\<lambda>b. rlift (decodeHeader b))))
          (\<lambda>suffixTail. rret \<lparr>np_m = np_m p, np_k = np_k p, np_prefix = pre, np_suffixHead = suffixHead, np_suffixTail = suffixTail\<rparr>)))))
        (c2 @ b4 @ t1 @ t2 @ []) \<lparr>np_m = np_m p, np_k = np_k p, np_prefix = np_prefix p, np_suffixHead = np_suffixHead p, np_suffixTail = np_suffixTail p\<rparr>"
      by (rule parses_rbind, simp only: nat_int, rule c(3), rule parses_rbind, rule parses_popow [OF w(4) d(8)],
          rule parses_rbind, rule t(2)) (use d(6) tail in simp)
  qed
  then show ?thesis using w(6) c(1) t(1) by (cases p) simp
qed

interpretation proof_codec: struct_codec NIPOPOW_PROOF proof_dom
  by unfold_locales (simp add: NIPOPOW_PROOF_def parses_proof)

section \<open>What decodes\<close>

lemma readTimes_each:
  "readTimes n p r = Inr (xs, r') \<Longrightarrow> length xs = n \<and> (\<forall>x\<in>set xs. \<exists>s s'. p s = Inr (x, s'))"
proof (induction n arbitrary: r xs)
  case (Suc n)
  then obtain x s ys where "p r = Inr (x, s)" "readTimes n p s = Inr (ys, r')" "xs = x # ys" by (auto simp: bind_iff)
  then show ?case using Suc.IH by fastforce
qed simp

lemma decodeInterlinks_bound: "decodeInterlinks bytes = Inr v \<Longrightarrow> int (length v) \<le> MAX_INTERLINKS"
  using readTimes_each [of _ "readHexN 32"]
  by (fastforce simp: decodeInterlinks_def decodeStruct_def INTERLINKS_def readInterlinks_def rbind_def rfail_def bind_iff MAX_INTERLINKS_def
      split: sum.splits exn.splits if_splits prod.splits)

lemma readPopow_bound: "readPopow r = Inr (p, r') \<Longrightarrow> int (length (ph_interlinks p)) \<le> MAX_INTERLINKS"
  using decodeInterlinks_bound by (auto simp: readPopow_def rbind_def rlift_def rret_def bind_iff)

lemma readProof_bounds:
  assumes "readProof r = Inr (p, r')"
  shows "1 \<le> np_m p \<and> np_m p \<le> MAX_NIPOPOW_PARAM \<and> 1 \<le> np_k p \<and> np_k p \<le> MAX_NIPOPOW_PARAM \<and>
    int (length (np_prefix p)) \<le> MAX_NIPOPOW_PREFIX \<and> int (length (np_suffixTail p)) = np_k p - 1 \<and>
    (\<forall>ph\<in>set (allPoPow p). int (length (ph_interlinks ph)) \<le> MAX_INTERLINKS)"
proof -
  have b: "lo \<le> v \<and> v \<le> hi" if "readBoundedVlqU lo hi s = Inr (v, s')" for lo hi v s s'
    using that by (auto simp: readBoundedVlqU_def rbind_def rfail_def rret_def bind_iff split: if_splits)
  obtain r1 r2 n r3 r4 r5 c r6 where p: "readBoundedVlqU 1 MAX_NIPOPOW_PARAM r = Inr (np_m p, r1)"
      "readBoundedVlqU 1 MAX_NIPOPOW_PARAM r1 = Inr (np_k p, r2)" "readVlqU r2 = Inr (n, r3)" "\<not> n > MAX_NIPOPOW_PREFIX"
      "readTimes (nat n) readPopow r3 = Inr (np_prefix p, r4)" "readPopow r4 = Inr (np_suffixHead p, r5)"
      "readVlqU r5 = Inr (c, r6)" "c = np_k p - 1"
      "readTimes (nat c) (rbind readLp (\<lambda>b. rlift (decodeHeader b))) r6 = Inr (np_suffixTail p, r')"
    using assms by (auto simp: readProof_def rbind_def [of "readBoundedVlqU _ _"] rbind_def [of readVlqU] rbind_def [of "readTimes _ _"]
        rbind_def [of readPopow] rfail_def rret_def bind_iff split: if_splits)
  have "int (length (np_prefix p)) \<le> MAX_NIPOPOW_PREFIX"
    using readTimes_each [OF p(5)] p(4) by (auto simp: MAX_NIPOPOW_PREFIX_def)
  moreover have "int (length (np_suffixTail p)) = np_k p - 1" using readTimes_each [OF p(9)] p(8) b [OF p(2)] by simp
  moreover have "\<forall>ph\<in>set (allPoPow p). int (length (ph_interlinks ph)) \<le> MAX_INTERLINKS"
    using readTimes_each [OF p(5)] p(6) readPopow_bound by (fastforce simp: allPoPow_def)
  ultimately show ?thesis using b [OF p(1)] b [OF p(2)] by blast
qed

text \<open>C21: a proof of the domain decodes from its encoding to itself, from that encoding
  alone; and every proof that decodes at all is canonical and within bounds: \<open>m\<close> and
  \<open>k\<close> in their range, the prefix no longer than \<open>MAX_NIPOPOW_PREFIX\<close>, a tail of
  exactly \<open>k - 1\<close> headers and no vector longer than \<open>MAX_INTERLINKS\<close>.\<close>
theorem nipopow_roundtrip:
  shows "(proof_dom p \<and> encodeNipopowProof p = Inr bs \<longrightarrow> decodeNipopowProof bs = Inr p) \<and>
    (decodeNipopowProof bytes = Inr q \<longrightarrow> encodeNipopowProof q = Inr bytes \<and> 1 \<le> np_m q \<and> np_m q \<le> MAX_NIPOPOW_PARAM \<and>
       1 \<le> np_k q \<and> np_k q \<le> MAX_NIPOPOW_PARAM \<and> int (length (np_prefix q)) \<le> MAX_NIPOPOW_PREFIX \<and>
       int (length (np_suffixTail q)) = np_k q - 1 \<and>
       (\<forall>ph\<in>set (allPoPow q). int (length (ph_interlinks ph)) \<le> MAX_INTERLINKS))"
proof (intro conjI impI)
  assume "proof_dom p \<and> encodeNipopowProof p = Inr bs"
  then show "decodeNipopowProof bs = Inr p"
    using proof_codec.decode_encode by (simp add: encodeNipopowProof_def decodeNipopowProof_def)
next
  assume d: "decodeNipopowProof bytes = Inr q"
  then show "encodeNipopowProof q = Inr bytes"
    using decodeStruct_canonical by (simp add: encodeNipopowProof_def decodeNipopowProof_def)
  from d obtain r r' where "readProof r = Inr (q, r')"
    by (auto simp: decodeNipopowProof_def decodeStruct_def NIPOPOW_PROOF_def split: sum.splits exn.splits if_splits)
  note b = readProof_bounds [OF this]
  show "1 \<le> np_m q" "np_m q \<le> MAX_NIPOPOW_PARAM" "1 \<le> np_k q" "np_k q \<le> MAX_NIPOPOW_PARAM"
    "int (length (np_prefix q)) \<le> MAX_NIPOPOW_PREFIX" "int (length (np_suffixTail q)) = np_k q - 1"
    "\<forall>ph\<in>set (allPoPow q). int (length (ph_interlinks ph)) \<le> MAX_INTERLINKS"
    using b by blast+
qed

definition smallProof :: nipopowProof where
  "smallProof = \<lparr>np_m = 1, np_k = 1, np_prefix = [\<lparr>ph_header = (plainHeader 0)\<lparr>h_height := 1\<rparr>, ph_interlinks = []\<rparr>],
     np_suffixHead = \<lparr>ph_header = (plainHeader 5)\<lparr>createdAt := 2000\<rparr>, ph_interlinks = [replicate 64 (CHR ''0'')]\<rparr>, np_suffixTail = []\<rparr>"

lemma nipopow_roundtrip_witness:
  "\<exists>bs. encodeNipopowProof smallProof = Inr bs \<and> decodeNipopowProof bs = Inr smallProof"
proof -
  have d: "proof_dom smallProof" by code_simp
  have "is_ok (encodeNipopowProof smallProof)" by code_simp
  then obtain bs where e: "encodeNipopowProof smallProof = Inr bs" by (auto simp: is_ok_def split: sum.splits)
  then show ?thesis using d nipopow_roundtrip [of smallProof bs] by auto
qed

end
