(* ===== verification/NipopowLaws.thy ===== *)
theory NipopowLaws
  imports NipopowCodec
begin

text \<open>
  What \<open>verifyProof\<close> accepts, rule by rule, and that it answers every proof with a
  verdict (\<open>packages/nipopow/src/verify.ts\<close>).
\<close>

section \<open>The loops and the rules\<close>

lemma eachFrom_ok: "eachFrom f i xs = Inr u \<longleftrightarrow> (\<forall>j<length xs. f (i + int j) (xs ! j) = Inr ())"
proof (induction xs arbitrary: i)
  case (Cons x xs)
  have "eachFrom f i (x # xs) = Inr u \<longleftrightarrow> f i x = Inr () \<and> (\<forall>j<length xs. f (i + 1 + int j) (xs ! j) = Inr ())"
    using Cons.IH by (auto simp: bind_iff)
  then show ?case by (simp add: All_less_Suc2 add.assoc)
qed simp

lemma eachPair_ok:
  "eachPair f i xs = Inr u \<longleftrightarrow> (\<forall>j. Suc j < length xs \<longrightarrow> f (i + int j) (xs ! j) (xs ! Suc j) = Inr ())"
proof (induction f i xs rule: eachPair.induct)
  case (1 f i prev cur xs)
  have "eachPair f i (prev # cur # xs) = Inr u \<longleftrightarrow> f i prev cur = Inr () \<and>
      (\<forall>j<length xs. f (i + 1 + int j) ((cur # xs) ! j) (xs ! j) = Inr ())"
    using "1.IH" by (auto simp: bind_iff)
  also have "\<dots> \<longleftrightarrow> (\<forall>j<Suc (length xs). f (i + int j) ((prev # cur # xs) ! j) ((cur # xs) ! j) = Inr ())"
    by (simp only: All_less_Suc2) (simp add: add.assoc)
  finally show ?case by simp
qed simp_all

lemma failIf_ok [simp]: "failIf b c i = Inr u \<longleftrightarrow> \<not> b"
  by (simp add: failIf_def)

lemma failIf_threw [simp]: "failIf b c i \<noteq> Inl ProofThrew"
  by (simp add: failIf_def)

lemma orThrow_ok [simp]: "orThrow m = Inr v \<longleftrightarrow> m = Inr v"
  by (cases m) (simp_all add: orThrow_def)

lemma orThrow_Inr [simp]: "orThrow (Inr v) = Inr v"
  by (simp add: orThrow_def)

text \<open>\<open>cur\<close> names \<open>prev\<close> as its parent.\<close>
definition follows :: "hash \<Rightarrow> blockHeader \<Rightarrow> blockHeader \<Rightarrow> bool" where
  "follows H prev cur \<longleftrightarrow> blockHash H prev = Inr (Some (prevBlockHash cur))"

lemma scheduleRule_ok:
  "scheduleRule H profile t_a i prev cur = Inr u \<longleftrightarrow>
     (follows H prev cur \<longrightarrow> asertTargetBits (vp_retarget profile) t_a (h_height prev) (createdAt prev) = Inr (powTargetBits cur))"
proof -
  obtain x where "blockHash H prev = Inr x" using blockHash_total [of H prev] by blast
  then show ?thesis by (simp add: scheduleRule_def follows_def bind_iff)
qed

lemma heightRule_ok:
  "heightRule H i prev cur = Inr u \<longleftrightarrow> h_height prev < h_height cur \<and> (follows H prev cur \<longrightarrow> h_height cur = h_height prev + 1)"
  using blockHash_total [of H prev] by (auto simp: heightRule_def follows_def bind_iff)

definition connected :: "hash \<Rightarrow> blockHeader \<Rightarrow> popowHeader \<Rightarrow> bool" where
  "connected H prev cur \<longleftrightarrow> (\<exists>x. blockHash H prev = Inr (Some x) \<and>
     (x \<in> set (ph_interlinks cur) \<or> prevBlockHash (ph_header cur) = x))"

lemma connectionRule_ok: "connectionRule H i prevPh cur = Inr u \<longleftrightarrow> connected H (ph_header prevPh) cur"
  by (auto simp: connectionRule_def connected_def bind_iff split: option.splits)

lemma interlinksRule_ok:
  "interlinksRule H i ph = Inr u \<longleftrightarrow> linksOk (ph_interlinks ph) \<and> interlinkRoot H (ph_interlinks ph) = Inr (h_interlinkRoot (ph_header ph))"
  by (auto simp: interlinksRule_def linksOk_def bind_iff)

definition headerOk :: "hash \<Rightarrow> verifyProfile \<Rightarrow> blockHeader \<Rightarrow> bool" where
  "headerOk H profile h \<longleftrightarrow> verifyHeaderFieldDomains h = Inr () \<and>
     verifyProtocolVersion (h_protocolVersion h) (h_height h) (vp_schedule profile) \<and>
     floorBits (vp_retarget profile) \<le> powTargetBits h \<and> powTargetBits h \<le> ceilingBits (vp_retarget profile) \<and>
     verifyOrderingBlockPoW H h = Inr True"

lemma headerRule_ok: "headerRule H profile i h = Inr u \<longleftrightarrow> headerOk H profile h"
  by (auto simp: headerRule_def headerOk_def bind_iff)

text \<open>The tail hangs off the suffix head parent by parent, its last header in the domain too.\<close>
lemma tailRule_ok:
  assumes "blockHash H h = Inr (Some x)"
  shows "tailRule H i x hs = Inr u \<longleftrightarrow> (\<forall>j<length hs. follows H ((h # hs) ! j) (hs ! j) \<and> (\<exists>y. blockHash H (hs ! j) = Inr (Some y)))"
  using assms
proof (induction hs arbitrary: h x i)
  case (Cons g hs)
  show ?case
  proof (cases "\<exists>y. blockHash H g = Inr (Some y)")
    case True
    then obtain y where y: "blockHash H g = Inr (Some y)" by blast
    have "tailRule H i x (g # hs) = Inr u \<longleftrightarrow> prevBlockHash g = x \<and> tailRule H (i + 1) y hs = Inr u"
      using y by (auto simp: bind_iff)
    then show ?thesis
      using Cons.IH [OF y] Cons.prems y by (simp add: All_less_Suc2 follows_def) auto
  next
    case False
    then have "blockHash H g = Inr None" using blockHash_total [of H g] by auto
    then have "tailRule H i x (g # hs) \<noteq> Inr u" by (auto simp: bind_iff)
    moreover have "\<not> (\<forall>j<length (g # hs). follows H ((h # g # hs) ! j) ((g # hs) ! j) \<and> (\<exists>y. blockHash H ((g # hs) ! j) = Inr (Some y)))"
      using False by (intro notI) (drule spec [of _ 0], simp)
    ultimately show ?thesis by blast
  qed
qed simp

section \<open>The rules as a whole\<close>

definition anchored :: "hash \<Rightarrow> nipopowProof \<Rightarrow> verifyProfile \<Rightarrow> bool" where
  "anchored H p profile \<longleftrightarrow> h_height (hd (allHeaders p)) = 1 \<and> ph_interlinks (hd (np_prefix p)) = [] \<and>
     (\<exists>g. blockHash H (hd (allHeaders p)) = Inr (Some g) \<and> (vp_genesisId profile = [] \<or> g = vp_genesisId profile) \<and>
       (\<forall>ph\<in>set (tl (allPoPow p)). ph_interlinks ph \<noteq> [] \<and> hd (ph_interlinks ph) = g))"

text \<open>What a proof must satisfy, each rule over the whole proof.\<close>
definition proofRules :: "hash \<Rightarrow> nipopowProof \<Rightarrow> proofParams \<Rightarrow> verifyProfile \<Rightarrow> bool" where
  "proofRules H p params profile \<longleftrightarrow> (let hs = allHeaders p; pps = allPoPow p in
     shapeOk p params \<and> anchored H p profile \<and> list_all (headerOk H profile) hs \<and>
     powTargetBits (hd hs) = anchorBits (vp_retarget profile) \<and>
     (\<forall>j. Suc j < length hs \<longrightarrow> h_height (hs ! j) < h_height (hs ! Suc j) \<and> createdAt (hs ! j) < createdAt (hs ! Suc j) \<and>
        (follows H (hs ! j) (hs ! Suc j) \<longrightarrow> h_height (hs ! Suc j) = h_height (hs ! j) + 1 \<and>
           asertTargetBits (vp_retarget profile) (createdAt (hd hs)) (h_height (hs ! j)) (createdAt (hs ! j)) = Inr (powTargetBits (hs ! Suc j)))) \<and>
     verifyCreatedAtBound (last hs) (vp_nowMs profile) (vp_maxFutureDriftMs profile) \<and>
     (\<forall>ph\<in>set pps. linksOk (ph_interlinks ph) \<and> interlinkRoot H (ph_interlinks ph) = Inr (h_interlinkRoot (ph_header ph))) \<and>
     (\<forall>j. Suc j < length pps \<longrightarrow> connected H (ph_header (pps ! j)) (pps ! Suc j)) \<and>
     (\<forall>j. length (np_prefix p) \<le> j \<and> Suc j < length hs \<longrightarrow> follows H (hs ! j) (hs ! Suc j)))"

lemma anchorRule_ok:
  assumes "np_prefix p \<noteq> []"
  shows "anchorRule H p profile = Inr u \<longleftrightarrow> anchored H p profile"
proof -
  have h: "hd (allHeaders p) = ph_header (hd (np_prefix p))" using assms by (simp add: allHeaders_def hd_append hd_map)
  show ?thesis
    by (auto simp: anchorRule_def anchored_def h bind_iff Let_def eachFrom_ok all_set_conv_all_nth split: option.splits)
qed

lemma domain_hash: "headerOk H profile h \<Longrightarrow> \<exists>x. blockHash H h = Inr (Some x)"
  using blockHash_total [of H h] by (auto simp: headerOk_def verifyHeaderFieldDomains_def split: option.splits)

lemma domain_time: "headerOk H profile h \<Longrightarrow> isU64Safe (createdAt h)"
  by (auto simp: headerOk_def verifyHeaderFieldDomains_def header_domain split: option.splits)

lemma verify_ready_ok:
  "verifyReadyProof H p params profile = Inr r \<longleftrightarrow> proofRules H p params profile \<and>
     r = \<lparr>va_headers = allHeaders p, va_tip = last (allHeaders p), va_tipHeight = h_height (last (allHeaders p)), va_suffixHead = np_suffixHead p\<rparr>"
proof (cases "shapeOk p params")
  case False
  then show ?thesis by (simp add: verifyReadyProof_def proofRules_def Let_def)
next
  case True
  then have ne: "np_prefix p \<noteq> []" by (simp add: shapeOk_def)
  let ?hs = "allHeaders p"
  let ?r = "\<lparr>va_headers = ?hs, va_tip = last ?hs, va_tipHeight = h_height (last ?hs), va_suffixHead = np_suffixHead p\<rparr>"
  have hd: "hd ?hs = ph_header (hd (np_prefix p))" using ne by (simp add: allHeaders_def hd_append hd_map)
  have head: "?hs ! length (np_prefix p) = ph_header (np_suffixHead p)" by (simp add: allHeaders_def nth_append)
  have tl: "(ph_header (np_suffixHead p) # np_suffixTail p) ! j = ?hs ! (length (np_prefix p) + j)" for j
    by (simp add: allHeaders_def nth_append)
  have len: "length ?hs = length (np_prefix p) + 1 + length (np_suffixTail p)" by (simp add: allHeaders_def)
  have whole: "verifyReadyProof H p params profile = Inr r \<longleftrightarrow> anchored H p profile \<and> list_all (headerOk H profile) ?hs \<and>
      powTargetBits (hd ?hs) = anchorBits (vp_retarget profile) \<and>
      (\<forall>j. Suc j < length ?hs \<longrightarrow> (follows H (?hs ! j) (?hs ! Suc j) \<longrightarrow>
        asertTargetBits (vp_retarget profile) (createdAt (hd ?hs)) (h_height (?hs ! j)) (createdAt (?hs ! j)) = Inr (powTargetBits (?hs ! Suc j)))) \<and>
      (\<forall>j. Suc j < length ?hs \<longrightarrow> verifyCreatedAtOrder (?hs ! Suc j) (?hs ! j)) \<and>
      verifyCreatedAtBound (last ?hs) (vp_nowMs profile) (vp_maxFutureDriftMs profile) \<and>
      (\<forall>ph\<in>set (allPoPow p). linksOk (ph_interlinks ph) \<and> interlinkRoot H (ph_interlinks ph) = Inr (h_interlinkRoot (ph_header ph))) \<and>
      (\<forall>j. Suc j < length ?hs \<longrightarrow> h_height (?hs ! j) < h_height (?hs ! Suc j) \<and>
        (follows H (?hs ! j) (?hs ! Suc j) \<longrightarrow> h_height (?hs ! Suc j) = h_height (?hs ! j) + 1)) \<and>
      (\<forall>j. Suc j < length (allPoPow p) \<longrightarrow> connected H (ph_header (allPoPow p ! j)) (allPoPow p ! Suc j)) \<and>
      (\<exists>x. blockHash H (ph_header (np_suffixHead p)) = Inr (Some x) \<and>
        tailRule H (int (length (np_prefix p)) + 1) x (np_suffixTail p) = Inr ()) \<and> r = ?r"
    using True
    by (simp add: verifyReadyProof_def Let_def bind_iff anchorRule_ok [OF ne] eachFrom_ok eachPair_ok headerRule_ok scheduleRule_ok
        heightRule_ok connectionRule_ok interlinksRule_ok hd [symmetric] all_set_conv_all_nth list_all_length
        split: option.splits) (auto split: option.splits)
  have tail: "(\<exists>x. blockHash H (ph_header (np_suffixHead p)) = Inr (Some x) \<and>
        tailRule H (int (length (np_prefix p)) + 1) x (np_suffixTail p) = Inr ()) \<longleftrightarrow>
      (\<forall>j. length (np_prefix p) \<le> j \<and> Suc j < length ?hs \<longrightarrow> follows H (?hs ! j) (?hs ! Suc j))"
    if ok: "list_all (headerOk H profile) ?hs"
  proof -
    have each: "\<exists>x. blockHash H (?hs ! j) = Inr (Some x)" if "j < length ?hs" for j
      using ok that domain_hash by (auto simp: list_all_length)
    obtain x where x: "blockHash H (ph_header (np_suffixHead p)) = Inr (Some x)" using each [of "length (np_prefix p)"] head len by auto
    have at: "np_suffixTail p ! j = ?hs ! Suc (length (np_prefix p) + j)" for j using tl [of "Suc j"] by simp
    have "tailRule H (int (length (np_prefix p)) + 1) x (np_suffixTail p) = Inr () \<longleftrightarrow>
        (\<forall>j<length (np_suffixTail p). follows H (?hs ! (length (np_prefix p) + j)) (?hs ! Suc (length (np_prefix p) + j)))"
      unfolding tailRule_ok [OF x] tl at using each len by auto
    also have "\<dots> \<longleftrightarrow> (\<forall>j. length (np_prefix p) \<le> j \<and> Suc j < length ?hs \<longrightarrow> follows H (?hs ! j) (?hs ! Suc j))"
      using len by (auto simp: le_iff_add)
    finally show ?thesis using x by auto
  qed
  have time: "verifyCreatedAtOrder (?hs ! Suc j) (?hs ! j) \<longleftrightarrow> createdAt (?hs ! j) < createdAt (?hs ! Suc j)"
    if ok: "list_all (headerOk H profile) ?hs" and "Suc j < length ?hs" for j
    using that domain_time [of H profile] by (auto simp: verifyCreatedAtOrder_def list_all_length)
  show ?thesis
    unfolding whole proofRules_def Let_def using True tail time by (cases "list_all (headerOk H profile) ?hs") auto
qed

text \<open>C18: the verifier accepts exactly the proofs that satisfy the rules as a whole: anchored
  at a genesis of height 1, every header valid, mined in its band and strictly above
  the one before it in height and time, on the schedule wherever two follow each other,
  every vector committed to by its header, every element of the prefix and the suffix
  head connected to the one before it by its vector or its parent hash, and the tail a
  run of parents; the answer is the flattened chain and its tip.\<close>
theorem verify_proof_rules:
  shows "verifyProof H (ReadyProof p) params profile = Inr r \<longleftrightarrow> proofRules H p params profile \<and>
     r = \<lparr>va_headers = allHeaders p, va_tip = last (allHeaders p), va_tipHeight = h_height (last (allHeaders p)), va_suffixHead = np_suffixHead p\<rparr>"
  by (simp add: verifyProof_def verify_ready_ok)

section \<open>Every proof gets a verdict\<close>

text \<open>A stop, if any, is a refusal at an index of the \<open>n\<close> headers.\<close>
definition within :: "int \<Rightarrow> proofStop + 'a \<Rightarrow> bool" where
  "within n m \<longleftrightarrow> (\<forall>e. m = Inl e \<longrightarrow> (\<exists>c j. e = ProofFail c (Some j) \<and> 0 \<le> j \<and> j < n))"

lemma within_bind: "within n m \<Longrightarrow> (\<And>v. m = Inr v \<Longrightarrow> within n (f v)) \<Longrightarrow> within n (ebind m f)"
  by (cases m) (auto simp: within_def)

lemma within_simps [simp]: "within n (Inr v)" "within n (failIf b c j) \<longleftrightarrow> (b \<longrightarrow> 0 \<le> j \<and> j < n)"
  "within n (Inl (ProofFail c (Some j))) \<longleftrightarrow> 0 \<le> j \<and> j < n"
  by (auto simp: within_def failIf_def)

lemma within_eachFrom:
  "(\<And>j. j < length xs \<Longrightarrow> within n (f (i + int j) (xs ! j))) \<Longrightarrow> within n (eachFrom f i xs)"
proof (induction xs arbitrary: i)
  case (Cons x xs)
  have "within n (f i x)" using Cons.prems [of 0] by simp
  moreover have "within n (eachFrom f (i + 1) xs)"
  proof (rule Cons.IH)
    fix j assume "j < length xs"
    then show "within n (f (i + 1 + int j) (xs ! j))" using Cons.prems [of "Suc j"] by (simp add: add.assoc)
  qed
  ultimately show ?case by (auto intro: within_bind)
qed simp

lemma within_eachPair:
  "(\<And>j. Suc j < length xs \<Longrightarrow> within n (f (i + int j) (xs ! j) (xs ! Suc j))) \<Longrightarrow> within n (eachPair f i xs)"
proof (induction f i xs rule: eachPair.induct)
  case (1 f i prev cur xs)
  have "within n (f i prev cur)" using "1.prems" [of 0] by simp
  moreover have "within n (eachPair f (i + 1) (cur # xs))" if "f i prev cur = Inr ()"
  proof (rule "1.IH" [OF that])
    fix j assume "Suc j < length (cur # xs)"
    then show "within n (f (i + 1 + int j) ((cur # xs) ! j) ((cur # xs) ! Suc j))"
      using "1.prems" [of "Suc j"] by (simp add: add.assoc)
  qed
  ultimately show ?case by (auto intro: within_bind)
qed simp_all

lemma within_rules:
  assumes "0 \<le> j" "j < n"
  shows "within n (headerRule H profile j h)" "within n (interlinksRule H j ph)"
    "within n (heightRule H j g h)" "within n (connectionRule H j ph qh)"
    "halflifeMs (vp_retarget profile) \<noteq> 0 \<Longrightarrow> within n (scheduleRule H profile t j g h)"
proof -
  obtain x where x: "blockHash H g = Inr x" using blockHash_total [of H g] by blast
  obtain y where y: "blockHash H (ph_header ph) = Inr y" using blockHash_total [of H "ph_header ph"] by blast
  obtain z where z: "powHit H h = Inr z" using powHit_total [of H h] by blast
  show "within n (headerRule H profile j h)"
    using assms z by (auto simp: headerRule_def verifyOrderingBlockPoW_def intro!: within_bind)
  show "within n (interlinksRule H j ph)" using assms by (auto simp: interlinksRule_def intro!: within_bind)
  show "within n (heightRule H j g h)" using assms x by (auto simp: heightRule_def intro!: within_bind)
  show "within n (connectionRule H j ph qh)" using assms y by (auto simp: connectionRule_def split: option.split)
  show "within n (scheduleRule H profile t j g h)" if p: "halflifeMs (vp_retarget profile) \<noteq> 0"
  proof -
    obtain b where "asertTargetBits (vp_retarget profile) t (h_height g) (createdAt g) = Inr b"
      using asert_total [OF p] by blast
    then show ?thesis using assms x by (simp add: scheduleRule_def)
  qed
qed

lemma within_tail: "0 \<le> i \<Longrightarrow> i + int (length hs) \<le> n \<Longrightarrow> within n (tailRule H i x hs)"
proof (induction hs arbitrary: i x)
  case (Cons h hs)
  obtain y where y: "blockHash H h = Inr y" using blockHash_total [of H h] by blast
  have "within n (tailRule H (i + 1) z hs)" for z by (rule Cons.IH) (use Cons.prems in simp_all)
  then show ?case using Cons.prems y by (auto intro!: within_bind split: option.split)
qed simp

lemma within_anchor:
  assumes "int (length (allPoPow p)) \<le> n" "0 < n"
  shows "within n (anchorRule H p profile)"
proof -
  obtain y where y: "blockHash H (ph_header (hd (np_prefix p))) = Inr y" using blockHash_total by blast
  have "within n (eachFrom (\<lambda>i ph. ebind (failIf (ph_interlinks ph = []) V_anchor i) (\<lambda>_.
      failIf (hd (ph_interlinks ph) \<noteq> g) V_anchor i)) 1 (tl (allPoPow p)))" for g
    by (rule within_eachFrom) (use assms in \<open>auto intro!: within_bind\<close>)
  then show ?thesis using assms(2) y by (auto simp: anchorRule_def Let_def intro!: within_bind split: option.split)
qed

lemma within_verify:
  assumes "halflifeMs (vp_retarget profile) \<noteq> 0" "shapeOk p params"
  shows "within (int (length (allHeaders p))) (verifyReadyProof H p params profile)"
proof -
  let ?n = "int (length (allHeaders p))"
  have n: "int (length (allPoPow p)) \<le> ?n" "0 < ?n" "?n = int (length (np_prefix p)) + 1 + int (length (np_suffixTail p))"
    by (simp_all add: allPoPow_def allHeaders_def)
  obtain y where y: "blockHash H (ph_header (np_suffixHead p)) = Inr y" using blockHash_total by blast
  have pairs: "within ?n (eachPair f 1 (allHeaders p))" if "\<And>j g h. 0 \<le> j \<Longrightarrow> j < ?n \<Longrightarrow> within ?n (f j g h)" for f
    by (rule within_eachPair) (simp add: that)
  have each: "within ?n (eachFrom f 0 xs)" if "\<And>j x. 0 \<le> j \<Longrightarrow> j < ?n \<Longrightarrow> within ?n (f j x)" "int (length xs) \<le> ?n"
    for f and xs :: "'x list"
    by (rule within_eachFrom) (use that in simp)
  have conn: "within ?n (eachPair (connectionRule H) 1 (allPoPow p))"
    by (rule within_eachPair) (use n(1) in \<open>simp add: within_rules\<close>)
  have rest: "within ?n (tailRule H (int (length (np_prefix p)) + 1) x (np_suffixTail p))" for x
    by (rule within_tail) (use n(3) in simp_all)
  have idx: "int (length (np_prefix p)) < ?n" using n(3) by linarith
  show ?thesis
    unfolding verifyReadyProof_def Let_def if_not_P [OF not_not [THEN iffD2, OF assms(2)]]
    using n(1,2) y idx
    by (intro within_bind within_anchor each pairs conn)
      (auto simp: within_rules assms(1) rest intro!: within_bind split: option.split)
qed

text \<open>C19: \<open>verifyProof\<close> answers every input with a verdict unless the half-life is zero: no
  bytes and no proof make it throw, a refusal names a rule and, after the shape and
  parse rules, the index of a header of the proof.\<close>
theorem verify_proof_total:
  assumes "halflifeMs (vp_retarget profile) \<noteq> 0"
  shows "case verifyProof H input params profile of
      Inl ProofThrew \<Rightarrow> False
    | Inl (ProofFail c None) \<Rightarrow> c = V_shape \<or> c = V_parse_failed
    | Inl (ProofFail c (Some j)) \<Rightarrow> (\<exists>p. (input = ReadyProof p \<or> (\<exists>bs. input = RawProof bs \<and> decodeNipopowProof bs = Inr p)) \<and>
        0 \<le> j \<and> j < int (length (allHeaders p)))
    | Inr r \<Rightarrow> va_headers r \<noteq> [] \<and> va_tip r = last (va_headers r)"
proof -
  have ready: "case verifyReadyProof H p params profile of
      Inl ProofThrew \<Rightarrow> False
    | Inl (ProofFail c None) \<Rightarrow> c = V_shape
    | Inl (ProofFail c (Some j)) \<Rightarrow> 0 \<le> j \<and> j < int (length (allHeaders p))
    | Inr r \<Rightarrow> va_headers r \<noteq> [] \<and> va_tip r = last (va_headers r)" for p
  proof (cases "verifyReadyProof H p params profile")
    case (Inl e)
    show ?thesis
    proof (cases "shapeOk p params")
      case True
      then show ?thesis using within_verify [OF assms True, of H] Inl by (auto simp: within_def)
    next
      case False
      then show ?thesis by (simp add: verifyReadyProof_def)
    qed
  next
    case (Inr r)
    then have "va_headers r = allHeaders p" "va_tip r = last (allHeaders p)" by (simp_all add: verify_ready_ok)
    then show ?thesis using Inr by (simp add: allHeaders_def)
  qed
  show ?thesis
  proof (cases input)
    case (RawProof bs)
    show ?thesis
    proof (cases "decodeNipopowProof bs")
      case (Inr p)
      then show ?thesis using ready [of p] RawProof by (auto simp: verifyProof_def split: sum.splits proofStop.splits option.splits)
    qed (simp add: verifyProof_def RawProof)
  next
    case (ReadyProof p)
    then show ?thesis using ready [of p] by (auto simp: verifyProof_def split: sum.splits proofStop.splits option.splits)
  qed
qed

definition pageProfile :: verifyProfile where
  "pageProfile = \<lparr>vp_retarget = pageParams, vp_maxFutureDriftMs = MAX_FUTURE_DRIFT_MS, vp_nowMs = 5000, vp_genesisId = [],
     vp_schedule = pageEras\<rparr>"

lemma smallProof_accepted: "is_ok (verifyProof zeroHash (ReadyProof smallProof) \<lparr>pp_m = 1, pp_k = 1\<rparr> pageProfile)"
  by code_simp

lemma verify_proof_total_witness:
  "\<exists>r. verifyProof zeroHash (ReadyProof smallProof) \<lparr>pp_m = 1, pp_k = 1\<rparr> pageProfile = Inr r \<and> va_headers r \<noteq> []"
proof -
  obtain r where r: "verifyProof zeroHash (ReadyProof smallProof) \<lparr>pp_m = 1, pp_k = 1\<rparr> pageProfile = Inr r"
    using smallProof_accepted by (auto simp: is_ok_def split: sum.splits)
  have "halflifeMs (vp_retarget pageProfile) \<noteq> 0" by (simp add: pageProfile_def pageParams_def)
  from verify_proof_total [OF this, where H = zeroHash and input = "ReadyProof smallProof" and params = "\<lparr>pp_m = 1, pp_k = 1\<rparr>"] r show ?thesis by simp
qed

text \<open>A digest of one byte, the sum of its input, and two forks of a two-block chain under it.\<close>
declare levelLoop.simps [code]

definition sumHash :: hash where
  "sumHash bs = replicate 2 0 @ [foldl (+) 0 bs] @ replicate 61 0"

definition sumText :: "string \<Rightarrow> string" where
  "sumText byte = replicate 4 (CHR ''0'') @ byte @ replicate 58 (CHR ''0'')"

definition forkGenesis :: blockHeader where
  "forkGenesis = (plainHeader 0)\<lparr>h_height := 1, h_interlinkRoot := sumText ''79''\<rparr>"

definition forkProof :: "int \<Rightarrow> nipopowProof" where
  "forkProof nonce =
     \<lparr>np_m = 1, np_k = 1, np_prefix = [\<lparr>ph_header = forkGenesis, ph_interlinks = []\<rparr>],
      np_suffixHead = \<lparr>ph_header = (plainHeader nonce)\<lparr>createdAt := 2000, prevBlockHash := sumText ''fc'',
        h_interlinkRoot := sumText ''76''\<rparr>, ph_interlinks = [sumText ''fc'']\<rparr>, np_suffixTail = []\<rparr>"

end
