(* ===== verification/NipopowCompare.thy ===== *)
theory NipopowCompare
  imports NipopowLaws
begin

text \<open>
  The comparison of two proofs (\<open>packages/nipopow/src/compare.ts\<close>): the score is the
  maximum the paper defines, and the verdict does not depend on which proof comes first.
\<close>

section \<open>The score\<close>

definition argCount :: "blockLevel list \<Rightarrow> int \<Rightarrow> int" where
  "argCount levels mu = int (length (filter (levelAtLeast mu) levels))"

lemma argCount_antimono: "mu \<le> mu' \<Longrightarrow> argCount levels mu' \<le> argCount levels mu"
proof -
  assume "mu \<le> mu'"
  then have "levelAtLeast mu' l \<Longrightarrow> levelAtLeast mu l" for l by (cases l) (auto simp: levelAtLeast_def)
  then have "filter (levelAtLeast mu') (filter (levelAtLeast mu) levels) = filter (levelAtLeast mu') levels"
    by (induction levels) auto
  then show ?thesis using length_filter_le [of "levelAtLeast mu'" "filter (levelAtLeast mu) levels"] by (simp add: argCount_def del: filter_filter)
qed

lemma argLevels_filter:
  "sorted mus \<Longrightarrow> argLevels levels m mus = map (\<lambda>mu. (mu, argCount levels mu)) (filter (\<lambda>mu. m \<le> argCount levels mu) mus)"
proof (induction mus)
  case (Cons mu mus)
  show ?case
  proof (cases "argCount levels mu < m")
    case True
    then have "\<forall>x\<in>set mus. \<not> m \<le> argCount levels x" using Cons.prems argCount_antimono [of mu _ levels] by fastforce
    then show ?thesis using True by (simp add: argCount_def)
  next
    case False
    then show ?thesis using Cons by (simp add: argCount_def Let_def)
  qed
qed simp

lemma foldl_best:
  fixes f :: "'a \<Rightarrow> int"
  shows "foldl (\<lambda>best x. if f x > best then f x else best) b xs = Max (insert b (f ` set xs))"
proof (induction xs arbitrary: b)
  case (Cons x xs)
  have "Max (insert b (insert (f x) (f ` set xs))) = Max (insert (max b (f x)) (f ` set xs))"
    by (cases "xs = []") (simp_all add: max.assoc)
  moreover have "(if f x > b then f x else b) = max b (f x)" by simp
  ultimately show ?case using Cons.IH by simp
qed simp

lemma level_total: "\<exists>l. level H h anchor = Inr l"
  using powHit_total [of H h] by (auto simp: level_def)

lemma bestArg_max:
  shows "\<exists>levels. emap (\<lambda>h. level H h anchor) headers = Inr levels \<and>
    bestArg H headers m anchor = Inr (Max (insert (int (length (filter (\<lambda>l. l \<noteq> NoLevel) levels)))
      ((\<lambda>mu. 2 ^ nat mu * argCount levels mu) ` {mu. 1 \<le> mu \<and> mu \<le> LEVEL_CAP \<and> m \<le> argCount levels mu})))"
proof -
  obtain levels where l: "emap (\<lambda>h. level H h anchor) headers = Inr levels"
    using emap_total [of headers "\<lambda>h. level H h anchor"] level_total by blast
  let ?reg = "int (length (filter (\<lambda>l. l \<noteq> NoLevel) levels))"
  let ?f = "\<lambda>p. 2 ^ nat (fst p) * (snd p :: int)"
  let ?acc = "(0, ?reg) # argLevels levels m [1..LEVEL_CAP]"
  have acc: "argLevels levels m [1..LEVEL_CAP] = map (\<lambda>mu. (mu, argCount levels mu)) (filter (\<lambda>mu. m \<le> argCount levels mu) [1..LEVEL_CAP])"
    by (rule argLevels_filter) simp
  have img: "?f ` set ?acc = insert ?reg ((\<lambda>mu. 2 ^ nat mu * argCount levels mu) ` {mu. 1 \<le> mu \<and> mu \<le> LEVEL_CAP \<and> m \<le> argCount levels mu})"
    by (auto simp: acc image_iff)
  have "Max (insert 0 (?f ` set ?acc)) = Max (?f ` set ?acc)"
  proof -
    have "0 \<le> Max (?f ` set ?acc)" by (rule order_trans [of _ ?reg]) (auto intro: Max_ge)
    then show ?thesis by (subst Max_insert) auto
  qed
  then have "foldl (\<lambda>best p. if ?f p > best then ?f p else best) 0 ?acc = Max (?f ` set ?acc)"
    by (simp only: foldl_best)
  then show ?thesis unfolding img using l by (auto simp: bestArg_def Let_def case_prod_unfold)
qed

text \<open>The score of a chain is the maximum over the levels it is rated at: the count of
  the headers that have a level at 0, and twice the weight with every level up to
  \<open>LEVEL_CAP\<close> that holds at least \<open>m\<close> headers; stopping at the first level short of
  \<open>m\<close> loses none, and the score never throws.\<close>
theorem best_arg_is_max:
  shows "\<exists>levels. emap (\<lambda>h. level H h anchor) headers = Inr levels \<and>
    bestArg H headers m anchor = Inr (Max (insert (int (length (filter (\<lambda>l. l \<noteq> NoLevel) levels)))
      ((\<lambda>mu. 2 ^ nat mu * argCount levels mu) ` {mu. 1 \<le> mu \<and> mu \<le> LEVEL_CAP \<and> m \<le> argCount levels mu})))"
  by (rule bestArg_max)

section \<open>The common ancestor\<close>

lemma lca_common:
  assumes hl: "\<forall>h\<in>set left. \<exists>x. blockHash H h = Inr (Some x)" and hr: "\<forall>h\<in>set right. \<exists>x. blockHash H h = Inr (Some x)"
    and inj: "\<And>g h. g \<in> set left \<Longrightarrow> h \<in> set right \<Longrightarrow> blockHash H g = blockHash H h \<Longrightarrow> g = h"
  shows "lowestCommonAncestor H left right =
    Inr (let c = filter (\<lambda>h. h \<in> set right) left in if c = [] then None else Some (last c))"
proof -
  obtain rs where rs: "emap (blockHash H) right = Inr rs" using emap_total [of right "blockHash H"] hr by blast
  have mem: "x \<in> set rs \<longleftrightarrow> (\<exists>h\<in>set right. blockHash H h = Inr x)" for x
    using emap_eq_Inr_length [OF rs] emap_eq_Inr_nth [OF rs] by (fastforce simp: in_set_conv_nth)
  let ?step = "\<lambda>h lca. ebind (blockHash H h) (\<lambda>x. Inr (if x \<noteq> None \<and> x \<in> set rs then Some h else lca))"
  have "efold ?step left lca = Inr (let c = filter (\<lambda>h. h \<in> set right) left in if c = [] then lca else Some (last c))" for lca
    using hl inj
  proof (induction left arbitrary: lca)
    case (Cons h hs)
    obtain x where x: "blockHash H h = Inr (Some x)" using Cons.prems(1) by auto
    have "Some x \<in> set rs \<longleftrightarrow> h \<in> set right"
      unfolding mem using x Cons.prems(2) [of h] by fastforce
    then have "efold ?step (h # hs) lca = efold ?step hs (if h \<in> set right then Some h else lca)" using x by simp
    also have "\<dots> = Inr (let c = filter (\<lambda>h. h \<in> set right) hs in if c = [] then (if h \<in> set right then Some h else lca) else Some (last c))"
      by (rule Cons.IH) (use Cons.prems in auto)
    finally show ?case by (simp add: Let_def)
  qed simp
  then show ?thesis using rs by (simp add: lowestCommonAncestor_def)
qed

definition rising :: "blockHeader list \<Rightarrow> bool" where
  "rising hs \<longleftrightarrow> sorted_wrt (<) (map h_height hs)"

lemma rising_unique: "rising xs \<Longrightarrow> rising ys \<Longrightarrow> set xs = set ys \<Longrightarrow> xs = ys"
proof -
  assume r: "rising xs" "rising ys" and eq: "set xs = set ys"
  have m: "map h_height xs = map h_height ys"
    by (rule sorted_distinct_set_unique) (use r eq in \<open>simp_all add: rising_def strict_sorted_iff image_set [symmetric]\<close>)
  have "inj_on h_height (set xs)" using r(1) by (simp add: rising_def strict_sorted_iff distinct_map)
  then show "xs = ys" using map_inj_on [OF m] eq by simp
qed

lemma rising_filter: "rising hs \<Longrightarrow> rising (filter P hs)"
  unfolding rising_def by (induction hs) auto

lemma proof_rising: "proofRules H p params profile \<Longrightarrow> rising (allHeaders p)"
  unfolding rising_def sorted_wrt_map
  by (subst sorted_wrt_iff_nth_Suc_transp) (auto simp: proofRules_def Let_def transp_def)

lemma proof_hashes: "proofRules H p params profile \<Longrightarrow> \<forall>h\<in>set (allHeaders p). \<exists>x. blockHash H h = Inr (Some x)"
  using domain_hash by (fastforce simp: proofRules_def Let_def list_all_iff)

definition swapWinner :: "winner \<Rightarrow> winner" where
  "swapWinner w = (case w of WinnerA \<Rightarrow> WinnerB | WinnerB \<Rightarrow> WinnerA | Tie \<Rightarrow> Tie)"

definition swapped :: "compareResult \<Rightarrow> compareResult" where
  "swapped r = (case r of Compared w sa sb lca \<Rightarrow> Compared (swapWinner w) sb sa lca | Incomparable x \<Rightarrow> Incomparable x)"

text \<open>C20: comparing two proofs the other way round gives the same answer with the sides
  exchanged: the same common ancestor, the scores swapped and the winner with them, or
  the same refusal, as long as no header of one collides with another of the other.\<close>
theorem compare_swaps:
  assumes "\<And>g h. g \<in> set (allHeaders a) \<Longrightarrow> h \<in> set (allHeaders b) \<Longrightarrow> blockHash H g = blockHash H h \<Longrightarrow> g = h"
  shows "compareProofs H b a params profile =
    (case compareProofs H a b params profile of Inl e \<Rightarrow> Inl e | Inr r \<Rightarrow> Inr (swapped r))"
proof -
  let ?va = "verifyProof H (ReadyProof a) params profile" and ?vb = "verifyProof H (ReadyProof b) params profile"
  show ?thesis
  proof (cases "is_ok ?va \<and> is_ok ?vb")
    case False
    then show ?thesis by (auto simp: compareProofs_def Let_def swapped_def)
  next
    case True
    then have r: "proofRules H a params profile" "proofRules H b params profile"
      by (auto simp: is_ok_def verifyProof_def verify_ready_ok split: sum.splits)
    let ?ha = "allHeaders a" and ?hb = "allHeaders b"
    have ab: "lowestCommonAncestor H ?ha ?hb = Inr (let c = filter (\<lambda>h. h \<in> set ?hb) ?ha in if c = [] then None else Some (last c))"
      by (rule lca_common) (use proof_hashes r assms in auto)
    have other: "g = h" if "g \<in> set ?hb" "h \<in> set ?ha" "blockHash H g = blockHash H h" for g h
      using assms [OF that(2,1)] that(3) by simp
    have ba: "lowestCommonAncestor H ?hb ?ha = Inr (let c = filter (\<lambda>h. h \<in> set ?ha) ?hb in if c = [] then None else Some (last c))"
      by (rule lca_common) (use proof_hashes r other in auto)
    have eq: "filter (\<lambda>h. h \<in> set ?ha) ?hb = filter (\<lambda>h. h \<in> set ?hb) ?ha"
      by (rule rising_unique) (auto intro!: rising_filter proof_rising r)
    have threw: "?va \<noteq> Inl ProofThrew" "?vb \<noteq> Inl ProofThrew" using True by auto
    have score: "\<exists>s. bestArg H hs m anchor = Inr s" for hs m anchor using bestArg_max [of H anchor hs m] by blast
    show ?thesis
    proof (cases "filter (\<lambda>h. h \<in> set ?hb) ?ha = []")
      case True
      then show ?thesis using threw \<open>is_ok ?va \<and> is_ok ?vb\<close> by (simp add: compareProofs_def Let_def ab ba eq swapped_def)
    next
      case False
      let ?lca = "last (filter (\<lambda>h. h \<in> set ?hb) ?ha)"
      obtain sa where sa: "bestArg H (filter (\<lambda>h. h_height h > h_height ?lca) ?ha) (pp_m params) (anchorBits (vp_retarget profile)) = Inr sa"
        using score by blast
      obtain sb where sb: "bestArg H (filter (\<lambda>h. h_height h > h_height ?lca) ?hb) (pp_m params) (anchorBits (vp_retarget profile)) = Inr sb"
        using score by blast
      show ?thesis
        using threw \<open>is_ok ?va \<and> is_ok ?vb\<close> False sa sb
        by (simp add: compareProofs_def Let_def ab ba eq swapped_def swapWinner_def)
    qed
  qed
qed


section \<open>Two proofs\<close>


definition forkScore :: "int \<Rightarrow> int res" where
  "forkScore nonce = bestArg sumHash [ph_header (np_suffixHead (forkProof nonce))] 1 2304"

lemma fork_parts:
  "is_ok (verifyProof sumHash (ReadyProof (forkProof 5)) \<lparr>pp_m = 1, pp_k = 1\<rparr> pageProfile)"
  "is_ok (verifyProof sumHash (ReadyProof (forkProof 60)) \<lparr>pp_m = 1, pp_k = 1\<rparr> pageProfile)"
  "lowestCommonAncestor sumHash (allHeaders (forkProof 5)) (allHeaders (forkProof 60)) = Inr (Some forkGenesis)"
  by code_simp+

lemma fork_scores: "forkScore 5 = Inr 128" "forkScore 60 = Inr 512"
  by code_simp+

lemma fork_above: "h_height forkGenesis = 1" "filter (\<lambda>h. h_height h > 1) (allHeaders (forkProof n)) = [ph_header (np_suffixHead (forkProof n))]"
  by (simp_all add: forkGenesis_def forkProof_def allHeaders_def plainHeader_def)

lemma fork_result:
  "compareProofs sumHash (forkProof 5) (forkProof 60) \<lparr>pp_m = 1, pp_k = 1\<rparr> pageProfile = Inr (Compared WinnerB 128 512 forkGenesis)"
  using fork_parts fork_scores
  by (auto simp: compareProofs_def Let_def fork_above forkScore_def pageProfile_def pageParams_def)

lemma fork_distinct:
  "\<forall>g\<in>set (allHeaders (forkProof 5)). \<forall>h\<in>set (allHeaders (forkProof 60)). blockHash sumHash g = blockHash sumHash h \<longrightarrow> g = h"
  by code_simp

lemma compare_swaps_witness:
  "compareProofs sumHash (forkProof 60) (forkProof 5) \<lparr>pp_m = 1, pp_k = 1\<rparr> pageProfile = Inr (Compared WinnerA 512 128 forkGenesis)"
  using compare_swaps [of "forkProof 5" "forkProof 60" sumHash "\<lparr>pp_m = 1, pp_k = 1\<rparr>" pageProfile] fork_distinct fork_result
  by (simp add: swapped_def swapWinner_def)

end
