(* ===== verification/NipopowProver.thy ===== *)
theory NipopowProver
  imports NipopowLaws
begin

text \<open>
  The prover of \<open>packages/nipopow/src/prover.ts\<close> over the chain a header reader serves:
  the walks end, and the proof they give passes the verifier.
\<close>

section \<open>The vectors of a chain\<close>

text \<open>The blocks before \<open>j\<close>, the genesis left out, whose level reaches \<open>i\<close>.\<close>
definition below :: "(nat \<Rightarrow> blockLevel) \<Rightarrow> nat \<Rightarrow> nat \<Rightarrow> nat list" where
  "below lv i j = filter (\<lambda>b. reaches i (lv b)) [1..<j]"

lemma below_set: "b \<in> set (below lv i j) \<longleftrightarrow> 1 \<le> b \<and> b < j \<and> reaches i (lv b)"
  by (auto simp: below_def)

lemma below_Suc: "1 \<le> j \<Longrightarrow> below lv i (Suc j) = below lv i j @ (if reaches i (lv j) then [j] else [])"
  by (simp add: below_def)

lemma below_split:
  assumes "below lv i j \<noteq> []" "b = last (below lv i j)"
  shows "below lv i j = below lv i b @ [b]" "1 \<le> b" "b < j" "reaches i (lv b)" "\<And>c. 1 \<le> c \<Longrightarrow> c < j \<Longrightarrow> reaches i (lv c) \<Longrightarrow> c \<le> b"
proof -
  have b: "b \<in> set (below lv i j)" using assms last_in_set by blast
  then show r: "1 \<le> b" "b < j" "reaches i (lv b)" by (simp_all add: below_set)
  have s: "[1..<j] = [1..<b] @ b # [Suc b..<j]" using r by (metis upt_add_eq_append upt_conv_Cons le_Suc_ex less_or_eq_imp_le)
  have "below lv i j = below lv i b @ b # filter (\<lambda>b. reaches i (lv b)) [Suc b..<j]"
    unfolding below_def s using r(3) by simp
  moreover have "filter (\<lambda>b. reaches i (lv b)) [Suc b..<j] = []"
  proof (rule ccontr)
    assume ne: "filter (\<lambda>b. reaches i (lv b)) [Suc b..<j] \<noteq> []"
    then have "last (below lv i j) \<in> set (filter (\<lambda>b. reaches i (lv b)) [Suc b..<j])"
      using calculation by (metis last.simps last_appendR last_in_set list.distinct(1))
    then show False using assms(2) by simp
  qed
  ultimately show e: "below lv i j = below lv i b @ [b]" by simp
  show "\<And>c. 1 \<le> c \<Longrightarrow> c < j \<Longrightarrow> reaches i (lv c) \<Longrightarrow> c \<le> b"
  proof -
    fix c assume "1 \<le> c" "c < j" "reaches i (lv c)"
    then have "c \<in> set (below lv i b @ [b])" unfolding e [symmetric] by (simp add: below_set)
    then show "c \<le> b" by (auto simp: below_set)
  qed
qed

lemma reaches_antimono: "reaches i l \<Longrightarrow> i' \<le> i \<Longrightarrow> reaches i' l"
  by (cases l) auto

text \<open>Index 0 of a vector is the genesis; index \<open>i\<close> is the last block before that reaches it.\<close>
definition linked :: "(nat \<Rightarrow> string) \<Rightarrow> (nat \<Rightarrow> blockLevel) \<Rightarrow> nat \<Rightarrow> string list \<Rightarrow> bool" where
  "linked hs lv j v \<longleftrightarrow> v \<noteq> [] \<and> v ! 0 = hs 0 \<and>
     (\<forall>i\<ge>1. linkAt i v = (if below lv i j = [] then None else Some (hs (last (below lv i j)))))"

lemma linked_genesis: "updateInterlinks v h Infinite = Inr v' \<Longrightarrow> h = hs 0 \<Longrightarrow> linked hs lv 1 v'"
  by (auto simp: updateInterlinks_def linked_def linkAt_def below_def)

lemma linked_step:
  assumes "linked hs lv j v" "1 \<le> j" "level_ok (lv j)" "updateInterlinks v (hs j) (lv j) = Inr v'"
  shows "linked hs lv (Suc j) v'"
proof (cases "lv j")
  case Infinite
  then show ?thesis using assms(3) by (simp add: level_ok_def)
next
  case NoLevel
  then show ?thesis using assms by (auto simp: updateInterlinks_def linked_def below_Suc split: if_splits)
next
  case (Level L)
  have L: "0 \<le> L" "v \<noteq> []" using assms(1,3) Level by (simp_all add: level_ok_def linked_def)
  have v': "v' = map (\<lambda>i. if 1 \<le> i \<and> i \<le> nat L then hs j else v ! i) [0..<length v] @ replicate (nat L + 1 - length v) (hs j)"
    using assms(4) Level by (simp add: updateInterlinks_def Let_def split: if_splits)
  have at: "linkAt i v' = (if i \<le> nat L then Some (hs j) else linkAt i v)" if "1 \<le> i" for i
    using that by (auto simp: linkAt_def v' nth_append)
  have "v' ! 0 = hs 0" "v' \<noteq> []" using assms(1) L by (auto simp: v' linked_def nth_append)
  moreover have "reaches i (lv j) \<longleftrightarrow> i \<le> nat L" for i using Level L by auto
  ultimately show ?thesis
    using assms(1,2) at by (auto simp: linked_def below_Suc)
qed

section \<open>The reader and the walks\<close>

abbreviation popowAt :: "(nat \<Rightarrow> blockHeader) \<Rightarrow> (nat \<Rightarrow> string list) \<Rightarrow> nat \<Rightarrow> popowHeader" where
  "popowAt hdr vec j \<equiv> \<lparr>ph_header = hdr j, ph_interlinks = vec j\<rparr>"

text \<open>A reader over a chain of \<open>N\<close> blocks: what its interface documents.\<close>
definition serves :: "popowReader \<Rightarrow> nat \<Rightarrow> (nat \<Rightarrow> blockHeader) \<Rightarrow> (nat \<Rightarrow> string) \<Rightarrow> (nat \<Rightarrow> string list) \<Rightarrow> bool" where
  "serves reader N hdr hs vec \<longleftrightarrow> rd_chainHeight reader = int N \<and>
     (\<forall>j<N. rd_byHash reader (hs j) = Some (popowAt hdr vec j) \<and> rd_atHeight reader (int j + 1) = Some (popowAt hdr vec j)) \<and>
     (\<forall>k\<le>N. rd_lastHeaders reader (int k) = map hdr [N - k..<N])"

lemma levelWalk_finds:
  assumes rd: "serves reader N hdr hs vec" and ht: "\<And>j. j < N \<Longrightarrow> h_height (hdr j) = int j + 1"
    and li: "\<And>j. 1 \<le> j \<Longrightarrow> j < N \<Longrightarrow> linked hs lv j (vec j)" and i: "1 \<le> i" and j: "1 \<le> j" "j < N"
  shows "levelWalk reader i (int a + 1) (linkAt i (vec j)) acc =
    Some (Inr (map (popowAt hdr vec) (filter (\<lambda>b. a \<le> b) (below lv i j)) @ acc))"
  using j
proof (induction j arbitrary: acc rule: less_induct)
  case (less j)
  have at: "linkAt i (vec j) = (if below lv i j = [] then None else Some (hs (last (below lv i j))))"
    using li [OF less.prems] i by (simp add: linked_def)
  show ?case
  proof (cases "below lv i j = []")
    case True
    then show ?thesis using at by (subst levelWalk.simps) simp
  next
    case False
    define b where "b = last (below lv i j)"
    note b = below_split [OF False b_def]
    have bN: "b < N" using b(3) less.prems(2) by simp
    have get: "rd_byHash reader (hs b) = Some (popowAt hdr vec b)" using rd bN by (simp add: serves_def)
    have link: "linkAt i (vec j) = Some (hs b)" using at False b_def by simp
    show ?thesis
    proof (cases "b < a")
      case True
      then have "filter (\<lambda>b. a \<le> b) (below lv i j) = []" unfolding b(1) by (auto simp: filter_empty_conv below_set)
      then show ?thesis using True link get ht [OF bN] by (subst levelWalk.simps) simp
    next
      case False
      have "levelWalk reader i (int a + 1) (linkAt i (vec j)) acc = levelWalk reader i (int a + 1) (linkAt i (vec b)) (popowAt hdr vec b # acc)"
        using False link get ht [OF bN] by (subst levelWalk.simps) simp
      also have "\<dots> = Some (Inr (map (popowAt hdr vec) (filter (\<lambda>b. a \<le> b) (below lv i b)) @ popowAt hdr vec b # acc))"
        using less.IH [OF b(3) b(2) bN] .
      finally show ?thesis using False b(1) by simp
    qed
  qed
qed

section \<open>What is collected\<close>

definition filed :: "(nat \<Rightarrow> blockHeader) \<Rightarrow> (nat \<Rightarrow> string list) \<Rightarrow> nat list \<Rightarrow> collected" where
  "filed hdr vec bs = map (\<lambda>b. (int b + 1, popowAt hdr vec b)) bs"

definition addIdx :: "nat list \<Rightarrow> nat \<Rightarrow> nat list" where
  "addIdx bs b = (if b \<in> set bs then bs else bs @ [b])"

lemma filed_update: "AList.update (int b + 1) (popowAt hdr vec b) (filed hdr vec bs) = filed hdr vec (addIdx bs b)"
  by (induction bs) (auto simp: filed_def addIdx_def)

lemma addIdx_all: "set (foldl addIdx bs cs) = set bs \<union> set cs" "distinct bs \<Longrightarrow> distinct (foldl addIdx bs cs)"
  by (induction cs arbitrary: bs) (auto simp: addIdx_def)

lemma collectAll_filed:
  "(\<And>b. b \<in> set cs \<Longrightarrow> h_height (hdr b) = int b + 1) \<Longrightarrow>
   collectAll (map (popowAt hdr vec) cs) (filed hdr vec bs) = filed hdr vec (foldl addIdx bs cs)"
  by (induction cs arbitrary: bs) (simp_all add: collectAll_def filed_update)

lemma sweep_filed:
  assumes rd: "serves reader N hdr hs vec" and "s \<le> N"
  shows "sweep reader (int a + 1) (int s + 1) (filed hdr vec bs) = Inr (filed hdr vec (foldl addIdx bs [a..<s]))"
proof -
  let ?f = "\<lambda>h c. ebind (requirePopow (rd_atHeight reader h)) (\<lambda>ph. Inr (AList.update h ph c))"
  have "efold ?f (map (\<lambda>b. int b + 1) cs) (filed hdr vec bs) = Inr (filed hdr vec (foldl addIdx bs cs))"
    if "\<forall>b\<in>set cs. b < N" for cs
    using that
  proof (induction cs arbitrary: bs)
    case (Cons b cs)
    have "rd_atHeight reader (int b + 1) = Some (popowAt hdr vec b)" using rd Cons.prems by (simp add: serves_def)
    then show ?case using Cons by (simp add: requirePopow_def filed_update)
  qed simp
  moreover have "[int a + 1..int s + 1 - 1] = map (\<lambda>b. int b + 1) [a..<s]"
  proof (induction "s - a" arbitrary: a)
    case 0
    then show ?case by simp
  next
    case (Suc n)
    then have "a < s" by simp
    then show ?case using Suc(1) [of "Suc a"] Suc(2) by (simp add: upto_rec1 upt_conv_Cons algebra_simps)
  qed
  ultimately show ?thesis using assms(2) by (simp add: sweep_def)
qed

section \<open>The levels\<close>

text \<open>The element collected last before \<open>y\<close>, the genesis when there is none.\<close>
definition before :: "nat list \<Rightarrow> nat \<Rightarrow> nat" where
  "before ds y = Max (insert 0 {b \<in> set ds. b < y})"

lemma before_last:
  assumes "\<And>b. b \<in> set ds \<Longrightarrow> b < y \<Longrightarrow> b \<le> x" "x < y" "x = 0 \<or> x \<in> set ds"
  shows "before ds y = x"
  unfolding before_def using assms by (intro Max_eqI) auto

text \<open>What holds once the levels above \<open>i\<close> are walked and \<open>a\<close> is the anchor: whatever is
  collected reaches a higher level, and below the anchor every block's vector holds the
  one collected before it.\<close>
definition walked :: "(nat \<Rightarrow> string) \<Rightarrow> (nat \<Rightarrow> blockLevel) \<Rightarrow> (nat \<Rightarrow> string list) \<Rightarrow> nat \<Rightarrow> nat \<Rightarrow> nat list \<Rightarrow> nat \<Rightarrow> bool" where
  "walked hs lv vec s i ds a \<longleftrightarrow> distinct ds \<and> (\<forall>b\<in>set ds. 1 \<le> b \<and> b < s \<and> reaches (Suc i) (lv b)) \<and>
     (a = 0 \<or> a \<in> set ds) \<and> (\<forall>y. 1 \<le> y \<and> y \<le> a \<longrightarrow> hs (before ds y) \<in> set (vec y))"

lemma walked_level:
  assumes w: "walked hs lv vec s (Suc i) ds a" and li: "\<And>j. 1 \<le> j \<Longrightarrow> j \<le> s \<Longrightarrow> linked hs lv j (vec j)"
    and L: "L = filter (\<lambda>b. a \<le> b) (below lv (Suc i) s)" and a': "a' = a \<or> a' \<in> set L"
  shows "walked hs lv vec s i (foldl addIdx ds L) a'"
proof -
  let ?ds = "foldl addIdx ds L"
  have ds: "distinct ds" "\<And>b. b \<in> set ds \<Longrightarrow> 1 \<le> b \<and> b < s \<and> reaches (Suc (Suc i)) (lv b)" "a = 0 \<or> a \<in> set ds"
    "\<And>y. 1 \<le> y \<Longrightarrow> y \<le> a \<Longrightarrow> hs (before ds y) \<in> set (vec y)" using w by (auto simp: walked_def)
  have set: "set ?ds = set ds \<union> set L" by (rule addIdx_all)
  have Lset: "b \<in> set L \<longleftrightarrow> a \<le> b \<and> 1 \<le> b \<and> b < s \<and> reaches (Suc i) (lv b)" for b by (auto simp: L below_set)
  have each: "1 \<le> b \<and> b < s \<and> reaches (Suc i) (lv b)" if "b \<in> set ?ds" for b
  proof (cases "b \<in> set ds")
    case True
    then show ?thesis using ds(2) [of b] reaches_antimono [of "Suc (Suc i)" "lv b" "Suc i"] by simp
  next
    case False
    then show ?thesis using that by (simp add: set Lset)
  qed
  have "hs (before ?ds y) \<in> set (vec y)" if y: "1 \<le> y" "y \<le> a'" for y
  proof (cases "y \<le> a")
    case True
    then have "{b \<in> set ?ds. b < y} = {b \<in> set ds. b < y}" by (auto simp: set Lset)
    then show ?thesis using ds(4) [OF y(1) True] by (simp add: before_def)
  next
    case False
    have ys: "y < s" using y(2) a' False Lset [of a'] by auto
    note lk = li [OF y(1) less_imp_le [OF ys], unfolded linked_def]
    show ?thesis
    proof (cases "below lv (Suc i) y = []")
      case True
      have "before ?ds y = 0"
      proof (rule before_last)
        fix b assume "b \<in> set ?ds" "b < y"
        then have "b \<in> set (below lv (Suc i) y)" using each [of b] by (simp add: below_set)
        then show "b \<le> 0" using True by simp
      qed (use y in simp_all)
      then show ?thesis using lk by (metis length_greater_0_conv nth_mem)
    next
      case False
      define b where "b = last (below lv (Suc i) y)"
      note sp = below_split [OF False b_def]
      have "linkAt (Suc i) (vec y) = Some (hs b)" using lk False b_def by simp
      then have "Suc i < length (vec y)" "vec y ! Suc i = hs b" by (simp_all add: linkAt_def split: if_splits)
      then have "hs b \<in> set (vec y)" by (metis nth_mem)
      moreover have "before ?ds y = b"
      proof (rule before_last)
        show "c \<le> b" if "c \<in> set ?ds" "c < y" for c using sp(5) [of c] each [OF that(1)] that(2) by simp
        show "b < y" by (rule sp(3))
        have "a \<le> b"
        proof (cases "a = 0")
          case False
          then have "a \<in> set ?ds" using ds(3) by (simp add: set)
          then show ?thesis using sp(5) [of a] each [of a] \<open>\<not> y \<le> a\<close> by simp
        qed simp
        then show "b = 0 \<or> b \<in> set ?ds" using sp(2-4) ys by (simp add: set Lset)
      qed
      ultimately show ?thesis by simp
    qed
  qed
  moreover have "a' = 0 \<or> a' \<in> set ?ds" using a' ds(3) by (auto simp: set)
  ultimately show ?thesis using each ds(1) addIdx_all(2) by (auto simp: walked_def)
qed

lemma levelsLoop_walks:
  assumes rd: "serves reader N hdr hs vec" and ht: "\<And>j. j < N \<Longrightarrow> h_height (hdr j) = int j + 1"
    and li: "\<And>j. 1 \<le> j \<Longrightarrow> j < N \<Longrightarrow> linked hs lv j (vec j)" and s: "1 \<le> s" "s < N" and m: "1 \<le> m"
  shows "walked hs lv vec s i ds a \<Longrightarrow> \<exists>ds' a'. walked hs lv vec s 0 ds' a' \<and>
    levelsLoop reader m (vec s) i (filed hdr vec ds) (int a + 1) = Some (Inr (filed hdr vec ds', int a' + 1))"
proof (induction i arbitrary: ds a)
  case 0
  then show ?case by auto
next
  case (Suc i)
  define L where "L = filter (\<lambda>b. a \<le> b) (below lv (Suc i) s)"
  define a' where "a' = (if m < int (length L) then L ! (length L - nat m) else a)"
  have walk: "levelWalk reader (Suc i) (int a + 1) (linkAt (Suc i) (vec s)) [] = Some (Inr (map (popowAt hdr vec) L))"
    using levelWalk_finds [OF rd ht li _ s(1,2), of "Suc i" a "[]"] by (simp add: L_def)
  have LN: "b < N" if "b \<in> set L" for b using that s(2) by (auto simp: L_def below_set)
  have idx: "length L - nat m < length L" if "m < int (length L)" using that m by simp
  have in_L: "a' = a \<or> a' \<in> set L" using idx by (auto simp: a'_def)
  have anchor: "(if m < int (length (map (popowAt hdr vec) L)) then h_height (ph_header (map (popowAt hdr vec) L ! (length (map (popowAt hdr vec) L) - nat m)))
      else int a + 1) = int a' + 1"
    using idx ht LN by (simp add: a'_def)
  have coll: "collectAll (map (popowAt hdr vec) L) (filed hdr vec ds) = filed hdr vec (foldl addIdx ds L)"
    by (rule collectAll_filed) (use ht LN in blast)
  have "walked hs lv vec s i (foldl addIdx ds L) a'"
    by (rule walked_level [OF Suc.prems _ L_def in_L]) (use li s(2) in simp)
  from Suc.IH [OF this] obtain ds' a'' where r: "walked hs lv vec s 0 ds' a''"
      "levelsLoop reader m (vec s) i (filed hdr vec (foldl addIdx ds L)) (int a' + 1) = Some (Inr (filed hdr vec ds', int a'' + 1))" by blast
  then show ?case unfolding levelsLoop.simps walk option.case sum.case coll anchor by blast
qed

section \<open>The prefix\<close>

lemma insort_key_map: "insort_key f (g x) (map g xs) = map g (insort_key (\<lambda>x. f (g x)) x xs)"
  by (induction xs) auto

lemma sort_key_map: "sort_key f (map g xs) = map g (sort_key (\<lambda>x. f (g x)) xs)"
  by (induction xs) (simp_all add: insort_key_map)

lemma sort_key_agree: "(\<forall>x\<in>set xs. f x = g x) \<Longrightarrow> sort_key f xs = sort_key g xs"
proof (induction xs)
  case (Cons x xs)
  have "insort_key f x ys = insort_key g x ys" if "f x = g x" "\<forall>y\<in>set ys. f y = g y" for ys
    using that by (induction ys) auto
  from this [of "sort_key g xs"] show ?case using Cons by simp
qed simp

lemma sort_key_heights: "sort_key (\<lambda>b. int b + 1) xs = sort xs"
proof -
  have "insort_key (\<lambda>b. int b + 1) x xs = insort x xs" for x and xs :: "nat list" by (induction xs) auto
  then show ?thesis by (induction xs) simp_all
qed

lemma sort_filed:
  assumes "\<And>b. b \<in> set bs \<Longrightarrow> h_height (hdr b) = int b + 1"
  shows "sort_key (\<lambda>ph. h_height (ph_header ph)) (map snd (filed hdr vec bs)) = map (popowAt hdr vec) (sort bs)"
proof -
  have "map snd (filed hdr vec bs) = map (popowAt hdr vec) bs" by (simp add: filed_def)
  moreover have "sort_key (\<lambda>b. h_height (hdr b)) bs = sort_key (\<lambda>b. int b + 1) bs"
    by (rule sort_key_agree) (simp add: assms)
  ultimately show ?thesis by (simp add: sort_key_map sort_key_heights)
qed

text \<open>Elements side by side in a sorted list have none of its set between them.\<close>
lemma sorted_gap:
  fixes xs :: "nat list"
  assumes "sorted xs" "distinct xs" "Suc j < length xs"
  shows "xs ! j < xs ! Suc j" "b \<in> set xs \<Longrightarrow> b < xs ! Suc j \<Longrightarrow> b \<le> xs ! j"
proof -
  have s: "sorted_wrt (<) xs" using assms(1,2) by (simp add: strict_sorted_iff)
  show "xs ! j < xs ! Suc j" using s assms(3) by (simp add: sorted_wrt_nth_less)
  assume "b \<in> set xs" "b < xs ! Suc j"
  then obtain i where i: "i < length xs" "b = xs ! i" by (auto simp: in_set_conv_nth)
  have "i \<le> j"
  proof (rule ccontr)
    assume "\<not> i \<le> j"
    then have "xs ! Suc j \<le> xs ! i" using assms(1) i(1) by (simp add: sorted_nth_mono)
    then show False using \<open>b < xs ! Suc j\<close> i(2) by simp
  qed
  then show "b \<le> xs ! j" using assms i by (simp add: sorted_nth_mono)
qed

text \<open>The blocks of a proof: sorted, from the genesis to the head of the suffix, each linked to
  the one before it by its vector or as its child.\<close>
definition proofBlocks :: "(nat \<Rightarrow> string) \<Rightarrow> (nat \<Rightarrow> string list) \<Rightarrow> nat \<Rightarrow> nat list \<Rightarrow> bool" where
  "proofBlocks hs vec s xs \<longleftrightarrow> sorted xs \<and> distinct xs \<and> xs \<noteq> [] \<and> hd xs = 0 \<and> (\<forall>b\<in>set xs. b < s) \<and>
     (\<forall>j. Suc j < length (xs @ [s]) \<longrightarrow> hs ((xs @ [s]) ! j) \<in> set (vec ((xs @ [s]) ! Suc j)) \<or> (xs @ [s]) ! Suc j = Suc ((xs @ [s]) ! j))"

lemma walked_blocks:
  assumes w: "walked hs lv vec s 0 ds a" and s: "1 \<le> s"
  shows "proofBlocks hs vec s (sort (addIdx (foldl addIdx ds [a..<s]) 0))"
proof -
  let ?fs = "addIdx (foldl addIdx ds [a..<s]) 0"
  define xs where "xs = sort ?fs"
  have ds: "distinct ds" "\<And>b. b \<in> set ds \<Longrightarrow> 1 \<le> b \<and> b < s" "\<And>y. 1 \<le> y \<Longrightarrow> y \<le> a \<Longrightarrow> hs (before ds y) \<in> set (vec y)"
    "a < s" using w s by (auto simp: walked_def)
  have set: "set xs = insert 0 (set ds \<union> {a..<s})" by (auto simp: xs_def addIdx_def addIdx_all)
  have dist: "distinct xs" using addIdx_all(2) [OF ds(1)] by (simp add: xs_def addIdx_def)
  have lt: "\<forall>b\<in>set xs. b < s" unfolding set using ds(2) s by auto
  have ne: "xs \<noteq> []" using set by (metis empty_iff insertI1 list.set(1))
  have hd0: "hd xs = 0"
  proof -
    have "0 \<in> set xs" using set by simp
    then show ?thesis unfolding xs_def by (metis gr_implies_not0 hd_Cons_tl le_neq_implies_less ne set_ConsD sorted_simps(2) sorted_sort xs_def)
  qed
  let ?zs = "xs @ [s]"
  have z: "sorted ?zs" "distinct ?zs" using lt dist by (auto simp: xs_def sorted_append less_imp_le)
  have "hs (?zs ! j) \<in> set (vec (?zs ! Suc j)) \<or> ?zs ! Suc j = Suc (?zs ! j)" if j: "Suc j < length ?zs" for j
  proof -
    let ?x = "?zs ! j" and ?y = "?zs ! Suc j"
    have xy: "?x < ?y" "\<And>b. b \<in> set xs \<Longrightarrow> b < ?y \<Longrightarrow> b \<le> ?x" using sorted_gap [OF z j] by auto
    have x: "?x \<in> set xs" using j by (auto simp: nth_append)
    have y: "?y \<le> s" using lt j by (auto simp: nth_append less_imp_le)
    show ?thesis
    proof (cases "?y \<le> a")
      case True
      have "before ds ?y = ?x"
      proof (rule before_last)
        show "b \<le> ?x" if "b \<in> set ds" "b < ?y" for b using xy(2) [of b] that by (simp add: set)
        show "?x = 0 \<or> ?x \<in> set ds" using x xy(1) True by (auto simp: set)
      qed (rule xy(1))
      then show ?thesis using ds(3) [of ?y] xy(1) True by simp
    next
      case False
      then have "?y - 1 \<in> set xs" using y by (auto simp: set)
      then have "?y - 1 \<le> ?x" using xy by (intro xy(2)) simp_all
      then have "?y = Suc ?x" using xy(1) by linarith
      then show ?thesis ..
    qed
  qed
  then have "proofBlocks hs vec s xs" using dist ne hd0 lt by (simp add: proofBlocks_def xs_def)
  then show ?thesis by (simp add: xs_def)
qed

text \<open>The prover returns, with the blocks of the walk.\<close>
lemma prover_returns:
  assumes rd: "serves reader N hdr hs vec" and ht: "\<And>j. j < N \<Longrightarrow> h_height (hdr j) = int j + 1"
    and li: "\<And>j. 1 \<le> j \<Longrightarrow> j < N \<Longrightarrow> linked hs lv j (vec j)" and bh: "\<And>j. j < N \<Longrightarrow> blockHash H (hdr j) = Inr (Some (hs j))"
    and m: "1 \<le> pp_m params" "pp_m params \<le> MAX_NIPOPOW_PARAM" and k: "1 \<le> pp_k params" "pp_k params \<le> MAX_NIPOPOW_PARAM"
    and N: "pp_m params + pp_k params \<le> int N" and s: "s = N - nat (pp_k params)"
  shows "\<exists>xs. proofBlocks hs vec s xs \<and> proveWithReader H reader params =
    Some (Inr \<lparr>np_m = pp_m params, np_k = pp_k params, np_prefix = map (popowAt hdr vec) xs,
      np_suffixHead = popowAt hdr vec s, np_suffixTail = map hdr [Suc s..<N]\<rparr>)"
proof -
  have sN: "1 \<le> s" "s < N" using m k N s by linarith+
  have last: "rd_lastHeaders reader (pp_k params) = hdr s # map hdr [Suc s..<N]"
  proof -
    have "rd_lastHeaders reader (int (nat (pp_k params))) = map hdr [N - nat (pp_k params)..<N]"
      using rd k N m unfolding serves_def by (metis nat_le_iff order_trans le_add_same_cancel2 zero_le_one)
    then show ?thesis using k sN by (simp add: s [symmetric] upt_conv_Cons)
  qed
  have start: "walked hs lv vec s (length (vec s) - 1) [] 0" by (simp add: walked_def)
  obtain ds a where w: "walked hs lv vec s 0 ds a"
      "levelsLoop reader (pp_m params) (vec s) (length (vec s) - 1) [] 1 = Some (Inr (filed hdr vec ds, int a + 1))"
    using levelsLoop_walks [OF rd ht li sN m(1) start] by (auto simp: filed_def)
  have ads: "a < s" using w(1) sN(1) by (auto simp: walked_def)
  have sw: "sweep reader (int a + 1) (h_height (ph_header (popowAt hdr vec s))) (filed hdr vec ds) = Inr (filed hdr vec (foldl addIdx ds [a..<s]))"
    using sweep_filed [OF rd less_imp_le [OF sN(2)]] ht [OF sN(2)] by simp
  let ?fs = "addIdx (foldl addIdx ds [a..<s]) 0"
  have gen: "rd_atHeight reader 1 = Some (popowAt hdr vec 0)" "rd_byHash reader (hs s) = Some (popowAt hdr vec s)" "rd_chainHeight reader = int N"
    using rd sN by (fastforce simp: serves_def)+
  have upd: "AList.update 1 (popowAt hdr vec 0) (filed hdr vec bs) = filed hdr vec (addIdx bs 0)" for bs
    using filed_update [of 0] by simp
  have blocks: "proofBlocks hs vec s (sort ?fs)" by (rule walked_blocks [OF w(1) sN(1)])
  have "h_height (hdr b) = int b + 1" if "b \<in> set ?fs" for b
    using blocks that sN(2) ht [of b] by (auto simp: proofBlocks_def)
  note sorted = sort_filed [OF this]
  have "int (length (rd_lastHeaders reader (pp_k params))) = pp_k params" using last sN k s by (simp add: of_nat_diff)
  then have "proveWithReader H reader params =
    Some (Inr \<lparr>np_m = pp_m params, np_k = pp_k params, np_prefix = map (popowAt hdr vec) (sort ?fs),
      np_suffixHead = popowAt hdr vec s, np_suffixTail = map hdr [Suc s..<N]\<rparr>)"
    using m k N sN last bh [OF sN(2)] gen w(2) sw sorted
    by (simp add: proveWithReader_def Let_def requirePopow_def upd)
  then show ?thesis using blocks by blast
qed

section \<open>What the proof satisfies\<close>

text \<open>A chain from its genesis, header by header: the rules of the header chain.\<close>
definition goodChain ::
    "hash \<Rightarrow> verifyProfile \<Rightarrow> nat \<Rightarrow> (nat \<Rightarrow> blockHeader) \<Rightarrow> (nat \<Rightarrow> string) \<Rightarrow> (nat \<Rightarrow> string list) \<Rightarrow> bool" where
  "goodChain H profile N hdr hs vec \<longleftrightarrow> inj_on hs {..<N} \<and>
     (vp_genesisId profile = [] \<or> hs 0 = vp_genesisId profile) \<and> powTargetBits (hdr 0) = anchorBits (vp_retarget profile) \<and>
     verifyCreatedAtBound (hdr (N - 1)) (vp_nowMs profile) (vp_maxFutureDriftMs profile) \<and> vec 0 = [] \<and>
     (\<forall>j<N. blockHash H (hdr j) = Inr (Some (hs j)) \<and> headerOk H profile (hdr j) \<and> h_height (hdr j) = int j + 1 \<and>
        linksOk (vec j) \<and> interlinkRoot H (vec j) = Inr (h_interlinkRoot (hdr j)) \<and> (1 \<le> j \<longrightarrow> vec j \<noteq> [] \<and> hd (vec j) = hs 0)) \<and>
     (\<forall>j. Suc j < N \<longrightarrow> prevBlockHash (hdr (Suc j)) = hs j \<and> createdAt (hdr j) < createdAt (hdr (Suc j)) \<and>
        asertTargetBits (vp_retarget profile) (createdAt (hdr 0)) (int j + 1) (createdAt (hdr j)) = Inr (powTargetBits (hdr (Suc j))))"

lemma chain_times:
  assumes "goodChain H profile N hdr hs vec"
  shows "i < j \<Longrightarrow> j < N \<Longrightarrow> createdAt (hdr i) < createdAt (hdr j)"
proof (induction j)
  case (Suc j)
  then have "createdAt (hdr j) < createdAt (hdr (Suc j))" using assms by (simp add: goodChain_def)
  then show ?case using Suc by (cases "i = j") auto
qed simp

lemma blocks_pass:
  assumes good: "goodChain H profile N hdr hs vec" and blocks: "proofBlocks hs vec s xs" and s: "1 \<le> s" "s < N"
    and k: "int (N - s) = pp_k params" and m: "1 \<le> pp_m params"
  shows "proofRules H \<lparr>np_m = pp_m params, np_k = pp_k params, np_prefix = map (popowAt hdr vec) xs,
      np_suffixHead = popowAt hdr vec s, np_suffixTail = map hdr [Suc s..<N]\<rparr> params profile"
proof -
  define p where "p = \<lparr>np_m = pp_m params, np_k = pp_k params, np_prefix = map (popowAt hdr vec) xs,
      np_suffixHead = popowAt hdr vec s, np_suffixTail = map hdr [Suc s..<N]\<rparr>"
  define ids where "ids = xs @ [s..<N]"
  have b: "sorted xs" "distinct xs" "xs \<noteq> []" "hd xs = 0" "\<And>b. b \<in> set xs \<Longrightarrow> b < s"
      "\<And>j. Suc j < length (xs @ [s]) \<Longrightarrow> hs ((xs @ [s]) ! j) \<in> set (vec ((xs @ [s]) ! Suc j)) \<or> (xs @ [s]) ! Suc j = Suc ((xs @ [s]) ! j)"
    using blocks by (auto simp: proofBlocks_def)
  have hs: "allHeaders p = map hdr ids" using s(2) by (simp add: allHeaders_def p_def ids_def upt_conv_Cons)
  have pp: "allPoPow p = map (popowAt hdr vec) (xs @ [s])" by (simp add: allPoPow_def p_def)
  have ids: "sorted ids" "distinct ids" "ids \<noteq> []" "hd ids = 0" "last ids = N - 1" "\<And>i. i \<in> set ids \<Longrightarrow> i < N"
    using b(1-4) b(5) s less_trans [OF b(5) s(2)] by (auto simp: ids_def sorted_append less_imp_le dest: b(5))
  have at: "blockHash H (hdr i) = Inr (Some (hs i))" "headerOk H profile (hdr i)" "h_height (hdr i) = int i + 1"
      "linksOk (vec i)" "interlinkRoot H (vec i) = Inr (h_interlinkRoot (hdr i))" "1 \<le> i \<Longrightarrow> vec i \<noteq> [] \<and> hd (vec i) = hs 0"
    if "i < N" for i using good that by (simp_all add: goodChain_def)
  have nxt: "prevBlockHash (hdr (Suc i)) = hs i"
      "asertTargetBits (vp_retarget profile) (createdAt (hdr 0)) (int i + 1) (createdAt (hdr i)) = Inr (powTargetBits (hdr (Suc i)))"
    if "Suc i < N" for i using good that by (simp_all add: goodChain_def)
  have N0: "0 < N" using s by simp
  have hd: "hd (map hdr ids) = hdr 0" using ids(3,4) by (simp add: hd_map)
  have follow: "follows H (hdr i) (hdr j) \<longleftrightarrow> j = Suc i" if ij: "i < j" "j < N" for i j
  proof -
    have "prevBlockHash (hdr j) = hs (j - 1)" using nxt(1) [of "j - 1"] ij by simp
    moreover have "hs i = hs (j - 1) \<longleftrightarrow> i = j - 1"
      using good ij by (auto simp: goodChain_def inj_on_def)
    ultimately show ?thesis using at(1) [of i] ij by (auto simp: follows_def)
  qed
  have pair: "h_height (hdr (ids ! j)) < h_height (hdr (ids ! Suc j)) \<and> createdAt (hdr (ids ! j)) < createdAt (hdr (ids ! Suc j)) \<and>
      (follows H (hdr (ids ! j)) (hdr (ids ! Suc j)) \<longrightarrow> h_height (hdr (ids ! Suc j)) = h_height (hdr (ids ! j)) + 1 \<and>
        asertTargetBits (vp_retarget profile) (createdAt (hdr 0)) (h_height (hdr (ids ! j))) (createdAt (hdr (ids ! j))) = Inr (powTargetBits (hdr (ids ! Suc j))))"
    if j: "Suc j < length ids" for j
  proof -
    have lt: "ids ! j < ids ! Suc j" "ids ! Suc j < N" "ids ! j < N"
      using sorted_gap(1) [OF ids(1,2) j] ids(6) j by (auto intro: nth_mem)
    then show ?thesis
      using at(3) chain_times [OF good lt(1,2)] follow [OF lt(1,2)] nxt(2) [of "ids ! j"] by auto
  qed
  have conn: "connected H (hdr ((xs @ [s]) ! j)) (popowAt hdr vec ((xs @ [s]) ! Suc j))" if j: "Suc j < length (xs @ [s])" for j
  proof -
    have mem: "i < N" if "i \<in> set (xs @ [s])" for i using that b(5) [of i] s(2) by auto
    have lt: "(xs @ [s]) ! j < N" "(xs @ [s]) ! Suc j < N" by (rule mem, rule nth_mem, use j in simp)+
    show ?thesis
      using b(6) [OF j] at(1) [OF lt(1)] nxt(1) [of "(xs @ [s]) ! j"] lt(2) by (auto simp: connected_def)
  qed
  have tail: "follows H (hdr (ids ! j)) (hdr (ids ! Suc j))" if j: "length xs \<le> j" "Suc j < length ids" for j
  proof -
    have "ids ! j = s + (j - length xs)" "ids ! Suc j = Suc (s + (j - length xs))" "ids ! Suc j < N"
      using j ids(6) [OF nth_mem [OF j(2)]] by (auto simp: ids_def nth_append Suc_diff_le)
    then show ?thesis using follow [of "ids ! j" "ids ! Suc j"] by simp
  qed
  have anch: "anchored H p profile"
  proof -
    have pos: "1 \<le> i" if "i \<in> set (tl xs)" for i
      using b(1-4) that by (cases xs; cases i) auto
    have tls: "tl (allPoPow p) = map (popowAt hdr vec) (tl xs @ [s])" using b(3) by (cases xs) (simp_all add: pp)
    have "ph_interlinks ph \<noteq> [] \<and> hd (ph_interlinks ph) = hs 0" if ph: "ph \<in> set (tl (allPoPow p))" for ph
    proof -
      obtain i where i: "ph = popowAt hdr vec i" "i \<in> set (tl xs) \<or> i = s" using ph by (auto simp: tls)
      have "1 \<le> i \<and> i < N"
        using i(2) pos [of i] b(5) [of i] s list.set_sel(2) [OF b(3), of i] by auto
      then show ?thesis using at(6) [of i] i(1) by simp
    qed
    moreover have "ph_interlinks (hd (np_prefix p)) = []" using good b(3,4) by (simp add: p_def hd_map goodChain_def)
    ultimately show ?thesis
      using at(1,3) [OF N0] good by (auto simp: anchored_def hs hd goodChain_def)
  qed
  have each: "linksOk (ph_interlinks ph) \<and> interlinkRoot H (ph_interlinks ph) = Inr (h_interlinkRoot (ph_header ph))"
    if "ph \<in> set (allPoPow p)" for ph
    using that at(4,5) less_trans [OF b(5) s(2)] s(2) by (auto simp: pp)
  have shape: "shapeOk p params" using m k s b(3) by (auto simp: shapeOk_def p_def of_nat_diff)
  have conn': "connected H (ph_header (allPoPow p ! j)) (allPoPow p ! Suc j)" if "Suc j < length (allPoPow p)" for j
    using conn [of j] that unfolding pp length_map by (simp only: nth_map Suc_lessD popowHeader.select_convs)
  have ends: "powTargetBits (hdr 0) = anchorBits (vp_retarget profile)"
      "verifyCreatedAtBound (hdr (N - 1)) (vp_nowMs profile) (vp_maxFutureDriftMs profile)"
      "length (np_prefix p) = length xs" "last (map hdr ids) = hdr (N - 1)" "list_all (headerOk H profile) (map hdr ids)"
    using good ids(3,5,6) at(2) by (auto simp: goodChain_def p_def last_map list_all_iff)
  have "proofRules H p params profile"
    unfolding proofRules_def Let_def hs hd ends length_map
    using shape anch ends(2,5) pair tail each conn' by simp
  then show ?thesis by (simp add: p_def)
qed

section \<open>From an accepted page\<close>

lemma asert_band:
  "asertTargetBits params t ph pc = Inr b \<Longrightarrow> isU64Safe ph \<Longrightarrow> isU64Safe pc \<Longrightarrow> isU64Safe t \<Longrightarrow>
   floorBits params \<le> ceilingBits params \<Longrightarrow> floorBits params \<le> b \<and> b \<le> ceilingBits params"
  by (auto simp: asertTargetBits_def Let_def split: if_splits)

lemma level_ok_above:
  assumes "\<forall>x. 32 \<le> length (H x)" "h_height h \<noteq> 1" "level H h anchor = Inr l"
  shows "level_ok l"
proof -
  have "level_ok (levelOfHit d y)" if "powHit H h = Inr (Some d)" "orderingPowTarget anchor = Some y" for d y
    using level_of_hit_ok hash_sizes(2) [OF assms(1) that(1)] yardstick_width [OF that(2)] by blast
  moreover have "level_ok NoLevel" by (simp add: level_ok_def)
  moreover obtain hit where "powHit H h = Inr hit" using powHit_total by blast
  ultimately show ?thesis
    using assms(2,3) by (cases hit; cases "orderingPowTarget anchor") (auto simp: level_def)
qed

lemma interlinksAlong_Suc:
  "j < length z \<Longrightarrow> interlinksAlong v (take (Suc j) z) =
     ebind (interlinksAlong v (take j z)) (\<lambda>w. updateInterlinks w (fst (z ! j)) (snd (z ! j)))"
  unfolding interlinksAlong_def take_Suc_conv_app_nth efold_append by (simp add: ebind_def split: sum.split)

text \<open>The vector each header of a chain commits to: the one the headers before it build.\<close>
definition chainVectors :: "hash \<Rightarrow> int \<Rightarrow> blockHeader list \<Rightarrow> string list \<Rightarrow> nat \<Rightarrow> string list" where
  "chainVectors H anchor hs hashes j =
     projr (interlinksAlong [] (take j (zip hashes (map (\<lambda>h. projr (level H h anchor)) hs))))"

text \<open>A chain accepted from its genesis, as functions of the position, with the vectors its
  headers commit to.\<close>
lemma page_chain:
  assumes H: "\<forall>x. 32 \<le> length (H x)"
    and page: "verifyHeaderChain H hs a (vp_retarget profile) None (vp_nowMs profile) (vp_schedule profile) = Inr p" "hs \<noteq> []"
    and a: "an_height a = 0" "an_interlinks a = []" and d: "distinct (pg_hashes p)"
    and prof: "vp_maxFutureDriftMs profile = MAX_FUTURE_DRIFT_MS" "vp_genesisId profile = [] \<or> vp_genesisId profile = hd (pg_hashes p)"
    and band: "floorBits (vp_retarget profile) \<le> anchorBits (vp_retarget profile)" "anchorBits (vp_retarget profile) \<le> ceilingBits (vp_retarget profile)"
    and vectors: "vec = chainVectors H (anchorBits (vp_retarget profile)) hs (pg_hashes p)"
  shows "\<exists>lv. goodChain H profile (length hs) (\<lambda>j. hs ! j) (\<lambda>j. pg_hashes p ! j) vec \<and>
    length (pg_hashes p) = length hs \<and> (\<forall>j. 1 \<le> j \<and> j < length hs \<longrightarrow> linked (\<lambda>j. pg_hashes p ! j) lv j (vec j))"
proof -
  let ?N = "length hs" and ?hash = "\<lambda>j. pg_hashes p ! j" and ?params = "vp_retarget profile"
  obtain levels t where L: "length levels = ?N" "length (pg_hashes p) = ?N" "pg_t_a p = Some t"
      and each: "\<And>j. j < ?N \<Longrightarrow> \<exists>v. interlinksAlong [] (take j (zip (pg_hashes p) levels)) = Inr v \<and>
       obeys H (vp_schedule profile) (vp_nowMs profile) ?params t (1 + int j)
         ((anchorPrevious a # map (\<lambda>h. Some (h_height h, createdAt h)) hs) ! j)
         ((an_prevBlockHash a # pg_hashes p) ! j) v (?hash j) (levels ! j) (hs ! j)"
    using page_obeys [OF page] a by auto
  obtain h rest where cons: "hs = h # rest" using page(2) by (cases hs) auto
  have t: "t = createdAt (hs ! 0)"
  proof -
    obtain y r where "orderingPowTarget (anchorBits ?params) = Some y"
        "headerLoop H (vp_schedule profile) (vp_nowMs profile) ?params y 1 0 (anchorPrevious a) (an_prevBlockHash a) (h # rest) ([], None) = Inr r"
        "p = pageOf hs r"
      using page a by (auto simp: chain_nonempty bind_iff pageChecks_ok cons)
    moreover from this(3) L(3) obtain x z where "r = (x, z, Some t)" by (cases r) (auto simp: pageOf_def)
    ultimately have "Some t = Some (createdAt h)" using loop_genesis by metis
    then show ?thesis by (simp add: cons)
  qed
  let ?z = "zip (pg_hashes p) levels"
  have "level H (hs ! j) (anchorBits ?params) = Inr (levels ! j)" if "j < ?N" for j
    using each [OF that] by (auto simp: obeys_def)
  then have "levels = map (\<lambda>h. projr (level H h (anchorBits ?params))) hs"
    using L(1) by (intro nth_equalityI) simp_all
  then have vec_def: "vec j = projr (interlinksAlong [] (take j ?z))" for j
    by (simp add: vectors chainVectors_def)
  have vec: "interlinksAlong [] (take j ?z) = Inr (vec j)" if "j < ?N" for j
    using each [OF that] by (auto simp: vec_def)
  have ob: "obeys H (vp_schedule profile) (vp_nowMs profile) ?params t (1 + int j)
         ((anchorPrevious a # map (\<lambda>h. Some (h_height h, createdAt h)) hs) ! j)
         ((an_prevBlockHash a # pg_hashes p) ! j) (vec j) (?hash j) (levels ! j) (hs ! j)" if "j < ?N" for j
    using each [OF that] vec [OF that] by auto
  have at: "blockHash H (hs ! j) = Inr (Some (?hash j))" "level H (hs ! j) (anchorBits ?params) = Inr (levels ! j)"
      "verifyProtocolVersion (h_protocolVersion (hs ! j)) (h_height (hs ! j)) (vp_schedule profile)" "h_height (hs ! j) = int j + 1"
      "verifyCreatedAtBound (hs ! j) (vp_nowMs profile) MAX_FUTURE_DRIFT_MS" "verifyOrderingBlockPoW H (hs ! j) = Inr True"
      "interlinkRoot H (vec j) = Inr (h_interlinkRoot (hs ! j))" if "j < ?N" for j
    using ob [OF that] by (auto simp: obeys_def add.commute)
  have dom: "firstHeaderDomainFailure (hs ! j) = None" if "j < ?N" for j using at(1) [OF that] by (simp add: blockHash_Some)
  have safe: "isU64Safe (h_height (hs ! j))" "isU64Safe (createdAt (hs ! j))" if "j < ?N" for j
    using dom [OF that] by (simp_all add: header_domain)
  have nxt: "prevBlockHash (hs ! Suc j) = ?hash j \<and> createdAt (hs ! j) < createdAt (hs ! Suc j) \<and>
      asertTargetBits ?params t (int j + 1) (createdAt (hs ! j)) = Inr (powTargetBits (hs ! Suc j))" if "Suc j < ?N" for j
    using ob [OF that] at(4) [of j] that by (auto simp: obeys_def)
  have N: "0 < ?N" using page(2) by simp
  have bits0: "powTargetBits (hs ! 0) = anchorBits ?params" using ob [OF N] by (simp add: obeys_def)
  have bandj: "floorBits ?params \<le> powTargetBits (hs ! j) \<and> powTargetBits (hs ! j) \<le> ceilingBits ?params" if j: "j < ?N" for j
  proof (cases j)
    case 0
    then show ?thesis using bits0 band by simp
  next
    case (Suc i)
    have "asertTargetBits ?params t (h_height (hs ! i)) (createdAt (hs ! i)) = Inr (powTargetBits (hs ! j))"
      using nxt [of i] at(4) [of i] j Suc by simp
    then show ?thesis
      by (rule asert_band) (use safe [of i] safe(2) [OF N] j Suc band t in auto)
  qed
  have ok: "headerOk H profile (hs ! j)" if "j < ?N" for j
    using at [OF that] bandj [OF that] dom [OF that] by (simp add: headerOk_def verifyHeaderFieldDomains_def)
  have hex: "isHex64 (?hash j)" if "j < ?N" for j by (rule hash_sizes(1) [OF H at(1) [OF that]])
  have step: "updateInterlinks (vec j) (?hash j) (levels ! j) = Inr (vec (Suc j))" if "Suc j < ?N" for j
    using vec [of j] vec [OF that] interlinksAlong_Suc [of j ?z "[]"] that L by simp
  have lvl: "level_ok (levels ! j)" if "1 \<le> j" "j < ?N" for j
    by (rule level_ok_above [OF H _ at(2) [OF that(2)]]) (use at(4) [OF that(2)] that(1) in simp)
  have lvl0: "levels ! 0 = Infinite" using at(2) [OF N] at(4) [OF N] by (simp add: level_def)
  have vec0: "vec 0 = []" using vec [OF N] by (simp add: interlinksAlong_def)
  have links: "linksOk (vec j) \<and> (1 \<le> j \<longrightarrow> linked ?hash (\<lambda>j. levels ! j) j (vec j))" if "j < ?N" for j
    using that
  proof (induction j)
    case 0
    then show ?case by (simp add: vec0 linksOk_def MAX_INTERLINKS_def)
  next
    case (Suc j)
    have j: "j < ?N" using Suc.prems by simp
    note up = step [OF Suc.prems]
    have "levels ! j = Infinite \<or> level_ok (levels ! j) \<and> vec j \<noteq> []"
      using lvl0 lvl [of j] Suc.IH j by (cases "j = 0") (auto simp: linked_def)
    from update_links [OF conjunct1 [OF Suc.IH [OF j]] hex [OF j] this] up have "linksOk (vec (Suc j))" by simp
    moreover have "linked ?hash (\<lambda>j. levels ! j) (Suc j) (vec (Suc j))"
    proof (cases "j = 0")
      case True
      then show ?thesis using linked_genesis [of "vec 0" "?hash 0" "vec 1" ?hash] up lvl0 by simp
    next
      case False
      then show ?thesis using linked_step [of ?hash "\<lambda>j. levels ! j" j "vec j" "vec (Suc j)"] Suc.IH j lvl up by simp
    qed
    ultimately show ?case by simp
  qed
  have first: "1 \<le> j \<Longrightarrow> vec j \<noteq> [] \<and> hd (vec j) = ?hash 0" if "j < ?N" for j
    using links [OF that] by (auto simp: linked_def hd_conv_nth)
  have "goodChain H profile ?N (\<lambda>j. hs ! j) ?hash vec"
    unfolding goodChain_def
  proof (intro conjI allI impI)
    show "inj_on ?hash {..<?N}" using d L(2) by (auto simp: inj_on_def nth_eq_iff_index_eq)
    show "vp_genesisId profile = [] \<or> ?hash 0 = vp_genesisId profile"
    proof -
      have "pg_hashes p \<noteq> []" using L(2) N by auto
      then show ?thesis using prof(2) by (auto simp: hd_conv_nth)
    qed
    show "verifyCreatedAtBound (hs ! (?N - 1)) (vp_nowMs profile) (vp_maxFutureDriftMs profile)" using at(5) [of "?N - 1"] N prof(1) by simp
  qed (use bits0 vec0 at ok links first nxt t in auto)
  then show ?thesis using links L(2) by blast
qed

text \<open>C15: every chain accepted from its genesis can be proved: over a reader that serves it
  the prover ends, with a proof the verifier accepts, whose tip is the tip of the chain,
  as long as no two of its headers share a hash.\<close>
theorem honest_proof_accepted:
  assumes "\<forall>x. 32 \<le> length (H x)"
    and "verifyHeaderChain H hs a (vp_retarget profile) None (vp_nowMs profile) (vp_schedule profile) = Inr p" "hs \<noteq> []"
    and "an_height a = 0" "an_interlinks a = []" "distinct (pg_hashes p)"
    and "vp_maxFutureDriftMs profile = MAX_FUTURE_DRIFT_MS" "vp_genesisId profile = [] \<or> vp_genesisId profile = hd (pg_hashes p)"
    and "floorBits (vp_retarget profile) \<le> anchorBits (vp_retarget profile)" "anchorBits (vp_retarget profile) \<le> ceilingBits (vp_retarget profile)"
    and rd: "serves reader (length hs) (\<lambda>j. hs ! j) (\<lambda>j. pg_hashes p ! j) (chainVectors H (anchorBits (vp_retarget profile)) hs (pg_hashes p))"
    and mk: "1 \<le> pp_m params" "pp_m params \<le> MAX_NIPOPOW_PARAM" "1 \<le> pp_k params" "pp_k params \<le> MAX_NIPOPOW_PARAM"
      "pp_m params + pp_k params \<le> int (length hs)"
  shows "\<exists>proof r. proveWithReader H reader params = Some (Inr proof) \<and> verifyProof H (ReadyProof proof) params profile = Inr r \<and>
    va_tip r = last hs \<and> va_tipHeight r = int (length hs)"
proof -
  let ?N = "length hs" and ?hdr = "\<lambda>j. hs ! j" and ?hash = "\<lambda>j. pg_hashes p ! j"
  let ?vec = "chainVectors H (anchorBits (vp_retarget profile)) hs (pg_hashes p)"
  obtain lv where c: "goodChain H profile ?N ?hdr ?hash ?vec" "\<And>j. 1 \<le> j \<Longrightarrow> j < ?N \<Longrightarrow> linked ?hash lv j (?vec j)"
    using page_chain [OF assms(1-10) refl] by blast
  have ht: "\<And>j. j < ?N \<Longrightarrow> h_height (hs ! j) = int j + 1" and bh: "\<And>j. j < ?N \<Longrightarrow> blockHash H (hs ! j) = Inr (Some (?hash j))"
    using c(1) by (simp_all add: goodChain_def)
  define s where "s = ?N - nat (pp_k params)"
  obtain xs where x: "proofBlocks ?hash ?vec s xs" "proveWithReader H reader params =
    Some (Inr \<lparr>np_m = pp_m params, np_k = pp_k params, np_prefix = map (popowAt ?hdr ?vec) xs,
      np_suffixHead = popowAt ?hdr ?vec s, np_suffixTail = map ?hdr [Suc s..<?N]\<rparr>)"
    using prover_returns [OF rd ht c(2) bh mk(1-4) mk(5) s_def] by blast
  have s: "1 \<le> s" "s < ?N" "int (?N - s) = pp_k params" using mk by (auto simp: s_def)
  let ?proof = "\<lparr>np_m = pp_m params, np_k = pp_k params, np_prefix = map (popowAt ?hdr ?vec) xs,
      np_suffixHead = popowAt ?hdr ?vec s, np_suffixTail = map ?hdr [Suc s..<?N]\<rparr>"
  have rules: "proofRules H ?proof params profile" by (rule blocks_pass [OF c(1) x(1) s mk(1)])
  have "last (allHeaders ?proof) = last (map ?hdr [s..<?N])" using s(2) by (simp add: allHeaders_def upt_conv_Cons)
  also have "\<dots> = hs ! (?N - 1)" by (subst last_map) (use s(2) in auto)
  finally have tip: "last (allHeaders ?proof) = hs ! (?N - 1)" .
  have lasts: "hs ! (?N - 1) = last hs" using assms(3) by (simp add: last_conv_nth)
  have "h_height (hs ! (?N - 1)) = int ?N" using ht [of "?N - 1"] s(2) by (simp add: of_nat_diff)
  then show ?thesis using x(2) rules tip lasts by (auto simp: verifyProof_def verify_ready_ok)
qed

section \<open>A chain of two\<close>

definition forkHeaders :: "blockHeader list" where
  "forkHeaders = [forkGenesis, ph_header (np_suffixHead (forkProof 5))]"

text \<open>The reader a store of the two blocks gives.\<close>
definition forkReader :: popowReader where
  "forkReader = (let g = \<lparr>ph_header = forkGenesis, ph_interlinks = []\<rparr>; h = np_suffixHead (forkProof 5) in
     \<lparr>rd_chainHeight = 2,
      rd_byHash = (\<lambda>x. if x = sumText ''fc'' then Some g else if x = sumText ''eb'' then Some h else None),
      rd_atHeight = (\<lambda>n. if n = 1 then Some g else if n = 2 then Some h else None),
      rd_lastHeaders = (\<lambda>n. drop (2 - nat n) forkHeaders)\<rparr>)"

lemma fork_page:
  "(case verifyHeaderChain sumHash forkHeaders pageAnchor pageParams None 5000 pageEras of
      Inr p \<Rightarrow> pg_hashes p = [sumText ''fc'', sumText ''eb''] | Inl _ \<Rightarrow> False)"
  by code_simp

lemma fork_vectors:
  "chainVectors sumHash 2304 forkHeaders [sumText ''fc'', sumText ''eb''] 0 = []"
  "chainVectors sumHash 2304 forkHeaders [sumText ''fc'', sumText ''eb''] 1 = [sumText ''fc'']"
  by code_simp+

lemma fork_serves:
  "serves forkReader 2 (\<lambda>j. forkHeaders ! j) (\<lambda>j. [sumText ''fc'', sumText ''eb''] ! j)
     (chainVectors sumHash 2304 forkHeaders [sumText ''fc'', sumText ''eb''])"
proof -
  have ne: "sumText ''eb'' \<noteq> sumText ''fc''" by (simp add: sumText_def)
  have two: "(\<forall>j<2. P j) \<longleftrightarrow> P 0 \<and> P (1::nat)" "(\<forall>k\<le>2. P k) \<longleftrightarrow> P 0 \<and> P 1 \<and> P (2::nat)" for P :: "nat \<Rightarrow> bool"
    by (auto simp: less_Suc_eq le_Suc_eq numeral_2_eq_2)
  show ?thesis
    using ne fork_vectors
    by (simp add: serves_def two forkReader_def Let_def forkHeaders_def forkProof_def upt_conv_Cons)
qed

lemma honest_proof_accepted_witness:
  "\<exists>proof r. proveWithReader sumHash forkReader \<lparr>pp_m = 1, pp_k = 1\<rparr> = Some (Inr proof) \<and>
     verifyProof sumHash (ReadyProof proof) \<lparr>pp_m = 1, pp_k = 1\<rparr> pageProfile = Inr r \<and> va_tipHeight r = 2"
proof -
  obtain p where p: "verifyHeaderChain sumHash forkHeaders pageAnchor pageParams None 5000 pageEras = Inr p"
      "pg_hashes p = [sumText ''fc'', sumText ''eb'']"
    using fork_page by (auto split: sum.splits)
  have len: "length forkHeaders = 2" "forkHeaders \<noteq> []" by (simp_all add: forkHeaders_def)
  have a: "an_height pageAnchor = 0" "an_interlinks pageAnchor = []" by (simp_all add: pageAnchor_def)
  have d: "distinct (pg_hashes p)" by (simp add: p(2) sumText_def)
  have prof: "vp_retarget pageProfile = pageParams" "vp_nowMs pageProfile = 5000" "vp_schedule pageProfile = pageEras"
      "vp_maxFutureDriftMs pageProfile = MAX_FUTURE_DRIFT_MS" "vp_genesisId pageProfile = []" by (simp_all add: pageProfile_def)
  have bits: "anchorBits pageParams = 2304" "floorBits pageParams \<le> 2304" "2304 \<le> ceilingBits pageParams" by (simp_all add: pageParams_def)
  have digest: "\<forall>x. 32 \<le> length (sumHash x)" by (simp add: sumHash_def)
  show ?thesis
    using honest_proof_accepted [where H = sumHash and hs = forkHeaders and a = pageAnchor and profile = pageProfile and p = p
        and reader = forkReader and params = "\<lparr>pp_m = 1, pp_k = 1\<rparr>", unfolded prof bits(1) p(2) len(1)]
      digest p(1) len(2) a d [unfolded p(2)] bits(2,3) fork_serves
    by (simp add: MAX_NIPOPOW_PARAM_def) blast
qed

end
