(* ===== verification/Structure.thy ===== *)
theory Structure
  imports Pow
begin

text \<open>
  The structural checks of \<open>packages/validation/src/verify.ts\<close> an object passes before
  any state is read: the content of a post (\<open>content-charset.ts\<close> holds the code points
  it may not carry), the signatures of a transaction and of a block, the shape of a
  transaction and of an ordering block, and the body's root.  A content string is its
  list of UTF-16 code units.  The signature library and the batch are parameters; the
  library may throw.
\<close>

section \<open>Constants\<close>

definition MAX_CONTENT_BYTES :: int where "MAX_CONTENT_BYTES = 300"
definition MAX_BLOCK_BODY_BYTES :: int where "MAX_BLOCK_BODY_BYTES = 2000000"
definition MAX_TX_BYTES :: int where "MAX_TX_BYTES = 10000"
definition MAX_SETTLEMENT_BYTES :: int where "MAX_SETTLEMENT_BYTES = 100000"
definition MAX_ORDERING_BLOCK_BYTES :: int where "MAX_ORDERING_BLOCK_BYTES = 2000302"
definition ORDERING_BLOCK_POW_TARGET_FLOOR :: int where "ORDERING_BLOCK_POW_TARGET_FLOOR = 2304"

section \<open>Strings as the language has them\<close>

type_synonym jsString = "16 word list"

definition isHighSurrogate :: "16 word \<Rightarrow> bool" where
  "isHighSurrogate u \<longleftrightarrow> 0xD800 \<le> u \<and> u \<le> 0xDBFF"

definition isLowSurrogate :: "16 word \<Rightarrow> bool" where
  "isLowSurrogate u \<longleftrightarrow> 0xDC00 \<le> u \<and> u \<le> 0xDFFF"

text \<open>The code points a \<open>for-of\<close> loop over a string yields; a lone surrogate is one of them.\<close>
fun codePoints :: "jsString \<Rightarrow> int list" where
  "codePoints [] = []"
| "codePoints [u] = [uint u]"
| "codePoints (u # v # us) =
     (if isHighSurrogate u \<and> isLowSurrogate v
      then ((uint u - 0xD800) * 0x400 + (uint v - 0xDC00) + 0x10000) # codePoints us
      else uint u # codePoints (v # us))"

text \<open>The bytes of one code point; a lone surrogate is encoded as U+FFFD.\<close>
definition utf8 :: "int \<Rightarrow> byte list" where
  "utf8 cp = (
     if 0xD800 \<le> cp \<and> cp \<le> 0xDFFF then [0xEF, 0xBF, 0xBD]
     else if cp < 0x80 then [word_of_int cp]
     else if cp < 0x800 then [word_of_int (0xC0 + cp div 0x40), word_of_int (0x80 + cp mod 0x40)]
     else if cp < 0x10000 then
       [word_of_int (0xE0 + cp div 0x1000), word_of_int (0x80 + cp div 0x40 mod 0x40), word_of_int (0x80 + cp mod 0x40)]
     else [word_of_int (0xF0 + cp div 0x40000), word_of_int (0x80 + cp div 0x1000 mod 0x40),
           word_of_int (0x80 + cp div 0x40 mod 0x40), word_of_int (0x80 + cp mod 0x40)])"

text \<open>\<open>new TextEncoder().encode(content)\<close>.\<close>
definition textEncode :: "jsString \<Rightarrow> byte list" where
  "textEncode s = concat (map utf8 (codePoints s))"

section \<open>The content of a post\<close>

definition DISALLOWED_RANGES :: "(int \<times> int) list" where
  "DISALLOWED_RANGES =
     [(0x0000, 0x0009), (0x000b, 0x001f), (0x007f, 0x009f), (0x00ad, 0x00ad), (0x0600, 0x0605),
      (0x061c, 0x061c), (0x06dd, 0x06dd), (0x070f, 0x070f), (0x0890, 0x0891), (0x08e2, 0x08e2),
      (0x180e, 0x180e), (0x200b, 0x200f), (0x202a, 0x202e), (0x2060, 0x2064), (0x2066, 0x206f),
      (0xd800, 0xf8ff), (0xfeff, 0xfeff), (0xfff9, 0xfffb), (0x110bd, 0x110bd), (0x110cd, 0x110cd),
      (0x13430, 0x1343f), (0x1bca0, 0x1bca3), (0x1d173, 0x1d17a), (0xe0001, 0xe0001),
      (0xe0020, 0xe007f), (0xf0000, 0xffffd), (0x100000, 0x10fffd)]"

fun scanRanges :: "(int \<times> int) list \<Rightarrow> int \<Rightarrow> bool" where
  "scanRanges [] cp = False"
| "scanRanges ((lo, hi) # rs) cp = (if cp < lo then False else if cp \<le> hi then True else scanRanges rs cp)"

definition isDisallowedContentCodepoint :: "int \<Rightarrow> bool" where
  "isDisallowedContentCodepoint cp = scanRanges DISALLOWED_RANGES cp"

definition verifyContentLimits :: "jsString \<Rightarrow> verdict" where
  "verifyContentLimits content =
     (let byteLen = int (length (textEncode content)) in firstRefusal
       [(byteLen = 0, ''Content is empty''),
        (byteLen > MAX_CONTENT_BYTES, ''Content exceeds max length'')])"

definition CONTENT_CHAR_ERROR :: string where
  "CONTENT_CHAR_ERROR = ''Content contains disallowed characters (control, zero-width, or bidi override)''"

definition verifyContentCharacters :: "jsString \<Rightarrow> verdict" where
  "verifyContentCharacters content =
     echeck (\<lambda>cp. firstRefusal [(isDisallowedContentCodepoint cp, CONTENT_CHAR_ERROR)]) (codePoints content)"

definition verifyParentRefsCount :: "string list \<Rightarrow> verdict" where
  "verifyParentRefsCount refs = firstRefusal [(int (length refs) > MAX_PARENT_REFS, ''Too many parent refs'')]"

definition POST_CONTENT_DOMAIN :: "byte list" where
  "POST_CONTENT_DOMAIN = ascii ''dagsocial/post-content/1''"

definition computeContentHash :: "hash \<Rightarrow> jsString \<Rightarrow> byte list" where
  "computeContentHash H content = hash32 H [POST_CONTENT_DOMAIN, textEncode content]"

definition verifyPostBody :: "hash \<Rightarrow> jsString \<Rightarrow> byte list \<Rightarrow> verdict" where
  "verifyPostBody H content chash =
     ebind (verifyContentLimits content) (\<lambda>_.
     ebind (verifyContentCharacters content) (\<lambda>_.
     let expected = computeContentHash H content in firstRefusal
       [(length chash \<noteq> 32, ''contentHash must be exactly 32 bytes''),
        (length expected \<noteq> length chash, ''Content hash mismatch''),
        (\<not> list_all (\<lambda>i. expected ! i = chash ! i) [0..<length expected], ''Content hash mismatch'')]))"

section \<open>Signatures\<close>

text \<open>The library call may throw; the guards and the \<open>catch\<close> answer \<open>false\<close>.\<close>
type_synonym libVerify = "byte list \<Rightarrow> byte list \<Rightarrow> byte list \<Rightarrow> bool res"

definition verifyEd25519 :: "libVerify \<Rightarrow> byte list \<Rightarrow> byte list \<Rightarrow> byte list \<Rightarrow> bool" where
  "verifyEd25519 lib signature message publicKey =
     (if length signature \<noteq> 64 then False
      else if length publicKey \<noteq> 32 then False
      else (case lib signature message publicKey of Inr ok \<Rightarrow> ok | Inl _ \<Rightarrow> False))"

record batchEntry =
  be_signature :: "byte list"
  be_message :: "byte list"
  be_publicKey :: "byte list"

definition verifyTxSignatures :: "hash \<Rightarrow> utxoTransaction \<Rightarrow> (batchEntry list \<Rightarrow> bool) \<Rightarrow> bool res" where
  "verifyTxSignatures H tx verifyBatch =
     (if \<not> list_all (\<lambda>(key, _). isHex64 key) (signatures tx) then Inr False
      else (case computeTxId H tx of
        Inl _ \<Rightarrow> Inr False
      | Inr txId \<Rightarrow>
          ebind (hexToBytes txId) (\<lambda>message.
          ebind (emap (\<lambda>(key, sig). ebind (hexToBytes key) (\<lambda>k.
                   Inr \<lparr>be_signature = sig, be_message = message, be_publicKey = k\<rparr>)) (signatures tx)) (\<lambda>entries.
          Inr (verifyBatch entries)))))"

definition verifyValidatorSignature :: "hash \<Rightarrow> libVerify \<Rightarrow> blockHeader \<Rightarrow> byte list \<Rightarrow> bool res" where
  "verifyValidatorSignature H lib h signature =
     ebind (blockHash H h) (\<lambda>hsh. case hsh of
       None \<Rightarrow> Inr False
     | Some x \<Rightarrow> ebind (hexToBytes x) (\<lambda>message. Inr (verifyEd25519 lib signature message (validatorId h))))"

section \<open>Transactions\<close>

definition verifyTxStructure :: "utxoTransaction \<Rightarrow> verdict" where
  "verifyTxStructure tx =
     ebind (firstRefusal
       [(inputs tx = [], ''Transaction must have at least one input''),
        (outputs tx = [], ''Transaction must have at least one output'')]) (\<lambda>_.
     ebind (echeck (\<lambda>out. firstRefusal
       [(boxTypeOf out = BT_genesis_proof, ''Transaction may not output a genesis_proof box'')]) (outputs tx)) (\<lambda>_.
     ebind (echeck (\<lambda>out. firstRefusal
       [(boxTypeOf out = BT_username \<and> \<not> isValidUsernameBytes (tail_name (boxTail out)), ''username name invalid'')])
       (outputs tx)) (\<lambda>_.
     ebind (echeck (\<lambda>out. firstRefusal
       [((boxTypeOf out = BT_backer_stake \<or> boxTypeOf out = BT_backer_unstake) \<and> tail_weight (boxTail out) = 0,
         ''backer weight invalid'')]) (outputs tx)) (\<lambda>_.
     ebind (firstRefusal [(\<not> distinct (inputs tx), ''Duplicate input in transaction'')]) (\<lambda>_.
     ebind (case post tx of None \<Rightarrow> Inr () | Some p \<Rightarrow> verifyPostCommitDomains p) (\<lambda>_.
     (case encodeTx tx of
        Inl _ \<Rightarrow> Inl (Refused ''Transaction is not encodable'')
      | Inr encoded \<Rightarrow> firstRefusal
          [(int (length encoded) > MAX_TX_BYTES, ''Transaction too large (max 10000 bytes)'')])))))))"

section \<open>Ordering blocks\<close>

fun BLOCK_HEADER_FIELD_ERROR :: "headerField \<Rightarrow> string" where
  "BLOCK_HEADER_FIELD_ERROR F_protocolVersion = ''Ordering block header missing protocolVersion''"
| "BLOCK_HEADER_FIELD_ERROR F_height = ''Ordering block invalid height''"
| "BLOCK_HEADER_FIELD_ERROR F_prevBlockHash = ''Ordering block header missing or invalid prevBlockHash''"
| "BLOCK_HEADER_FIELD_ERROR F_utxoTxRoot = ''Ordering block header missing utxoTxRoot''"
| "BLOCK_HEADER_FIELD_ERROR F_stateRoot = ''Ordering block header missing or invalid stateRoot''"
| "BLOCK_HEADER_FIELD_ERROR F_validatorId = ''Ordering block header missing or invalid validatorId''"
| "BLOCK_HEADER_FIELD_ERROR F_powNonce = ''Ordering block missing or invalid powNonce''"
| "BLOCK_HEADER_FIELD_ERROR F_powTargetBits = ''Ordering block missing or invalid powTargetBits''"
| "BLOCK_HEADER_FIELD_ERROR F_createdAt = ''Ordering block header missing or invalid createdAt''"
| "BLOCK_HEADER_FIELD_ERROR F_interlinkRoot = ''Ordering block header missing or invalid interlinkRoot''"
| "BLOCK_HEADER_FIELD_ERROR F_adProofsRoot = ''Ordering block header missing or invalid adProofsRoot''"

text \<open>Every element but the last against the transaction bound, the last against the settlement's.\<close>
fun weighBody :: "byte list list \<Rightarrow> verdict" where
  "weighBody [] = Inr ()"
| "weighBody [t] = firstRefusal
     [(int (length t) > MAX_SETTLEMENT_BYTES, ''Ordering block settlement too large (max 100000 bytes)'')]"
| "weighBody (t # u # ts) = ebind (firstRefusal
     [(int (length t) > MAX_TX_BYTES, ''Ordering block utxoTx too large (max 10000 bytes)'')]) (\<lambda>_. weighBody (u # ts))"

definition verifyOrderingBlockStructure :: "orderingBlock \<Rightarrow> verdict" where
  "verifyOrderingBlockStructure block =
     (let h = header block; tree = ob_utxoTxTree block in
      case firstHeaderDomainFailure h of
        Some (field, _) \<Rightarrow> Inl (Refused (BLOCK_HEADER_FIELD_ERROR field))
      | None \<Rightarrow>
          ebind (firstRefusal
            [(length (validatorSignature block) \<noteq> 64, ''Ordering block missing or invalid validatorSignature''),
             (h_height h < 1, ''Ordering block invalid height''),
             (powTargetBits h < ORDERING_BLOCK_POW_TARGET_FLOOR, ''Ordering block missing or invalid powTargetBits''),
             (utxoTxIds tree = [], ''Ordering block body carries no settlement transaction'')]) (\<lambda>_.
          ebind (echeck (\<lambda>i. firstRefusal
            [(\<not> isHex64 i, ''Ordering block utxoTxId must be 64 lowercase hex characters'')]) (utxoTxIds tree)) (\<lambda>_.
          ebind (firstRefusal
            [(length (utxoTxs tree) \<noteq> length (utxoTxIds tree), ''Ordering block utxoTxs must align with utxoTxIds'')]) (\<lambda>_.
          ebind (weighBody (utxoTxs tree)) (\<lambda>_.
          firstRefusal
            [(utxoTxTreeByteLength tree > MAX_BLOCK_BODY_BYTES, ''Ordering block body too large (max 2000000 bytes)'')])))))"

definition verifyUtxoTxRoot :: "hash \<Rightarrow> orderingBlock \<Rightarrow> bool res" where
  "verifyUtxoTxRoot H block =
     (let root = utxoTxRoot (header block); ids = utxoTxIds (ob_utxoTxTree block); txs = utxoTxs (ob_utxoTxTree block) in
      if \<not> isHex64 root then Inr False
      else if length ids \<noteq> length txs then Inr False
      else if \<not> list_all isHex64 ids then Inr False
      else ebind (computeUtxoTxRoot H \<lparr>utxoTxIds = ids, utxoTxs = txs\<rparr>) (\<lambda>r. Inr (r = root)))"

text \<open>The first byte that is not zero decides.\<close>
definition isValidVouchTarget :: "byte list \<Rightarrow> bool" where
  "isValidVouchTarget userId \<longleftrightarrow> length userId = 32 \<and> \<not> list_all (\<lambda>b. b = 0) userId"

end
