(* ===== verification/StructureLaws.thy ===== *)
theory StructureLaws
  imports Structure BlockLaws HeaderChainLaws
begin

text \<open>
  What the structural checks establish: the content of an accepted post and its
  binding to the content hash, that an accepted block is one the codec writes and
  reads back within the stated bound, that an accepted transaction encodes, and that
  no check throws.
\<close>

section \<open>Code points and their bytes\<close>

definition scalarValue :: "int \<Rightarrow> bool" where
  "scalarValue cp \<longleftrightarrow> 0 \<le> cp \<and> cp < 0x110000 \<and> \<not> (0xD800 \<le> cp \<and> cp \<le> 0xDFFF)"

text \<open>The code units a code point came from.\<close>
definition codeUnits :: "int \<Rightarrow> jsString" where
  "codeUnits cp = (if cp < 0x10000 then [word_of_int cp]
     else [word_of_int (0xD800 + (cp - 0x10000) div 0x400), word_of_int (0xDC00 + (cp - 0x10000) mod 0x400)])"

lemma unit_below: "uint (u :: 16 word) < 0x10000"
  using uint_bounded [of u] by simp

lemma surrogate_range:
  "isHighSurrogate u \<longleftrightarrow> 0xD800 \<le> uint u \<and> uint u \<le> 0xDBFF"
  "isLowSurrogate u \<longleftrightarrow> 0xDC00 \<le> uint u \<and> uint u \<le> 0xDFFF"
  by (simp_all add: isHighSurrogate_def isLowSurrogate_def word_le_def)

lemma pair_units:
  assumes "isHighSurrogate u" "isLowSurrogate v"
  shows "codeUnits ((uint u - 0xD800) * 0x400 + (uint v - 0xDC00) + 0x10000) = [u, v]"
proof -
  have b: "0xD800 \<le> uint u" "uint u \<le> 0xDBFF" "0xDC00 \<le> uint v" "uint v \<le> 0xDFFF"
    using assms by (simp_all add: surrogate_range)
  let ?c = "(uint u - 0xD800) * 0x400 + (uint v - 0xDC00) + 0x10000"
  have e: "?c - 0x10000 = (uint v - 0xDC00) + 0x400 * (uint u - 0xD800)" by simp
  have "(?c - 0x10000) div 0x400 = uint u - 0xD800" "(?c - 0x10000) mod 0x400 = uint v - 0xDC00"
    unfolding e using b by (simp_all only: mod_mult_self2 div_mult_self2) simp_all
  then show ?thesis using b by (simp add: codeUnits_def)
qed

lemma codePoints_units: "concat (map codeUnits (codePoints s)) = s"
proof (induction s rule: codePoints.induct)
  case (3 u v us)
  then show ?case using pair_units [of u v] by (simp add: codeUnits_def unit_below)
qed (simp_all add: codeUnits_def unit_below)

lemma codePoints_inject: "codePoints a = codePoints b \<Longrightarrow> a = b"
  by (metis codePoints_units)

lemma codePoints_range: "cp \<in> set (codePoints s) \<Longrightarrow> 0 \<le> cp \<and> cp < 0x110000"
proof (induction s rule: codePoints.induct)
  case (2 u)
  then show ?case using unit_below [of u] by simp
next
  case (3 u v us)
  then show ?case using unit_below [of u] by (auto simp: surrogate_range split: if_splits)
qed simp

text \<open>A reader of one code point, to show that the encoding is uniquely readable.\<close>
definition utf8Take :: "byte list \<Rightarrow> int \<times> byte list" where
  "utf8Take bs = (let b = uint (bs ! 0); t = (\<lambda>i. uint (bs ! i) - 0x80) in
     if b < 0x80 then (b, drop 1 bs)
     else if b < 0xE0 then ((b - 0xC0) * 0x40 + t 1, drop 2 bs)
     else if b < 0xF0 then (((b - 0xE0) * 0x40 + t 1) * 0x40 + t 2, drop 3 bs)
     else ((((b - 0xF0) * 0x40 + t 1) * 0x40 + t 2) * 0x40 + t 3, drop 4 bs))"

lemma byte_of_int: "0 \<le> x \<Longrightarrow> x < 256 \<Longrightarrow> uint (word_of_int x :: byte) = x"
  by (simp add: uint_word_of_int)

lemma radix64:
  fixes cp :: int
  shows "cp div 0x40 * 0x40 + cp mod 0x40 = cp"
    "(cp div 0x1000 * 0x40 + cp div 0x40 mod 0x40) * 0x40 + cp mod 0x40 = cp"
    "((cp div 0x40000 * 0x40 + cp div 0x1000 mod 0x40) * 0x40 + cp div 0x40 mod 0x40) * 0x40 + cp mod 0x40 = cp"
proof -
  have a: "cp div 0x1000 = cp div 0x40 div 0x40" "cp div 0x40000 = cp div 0x1000 div 0x40"
    by (simp_all add: zdiv_zmult2_eq [symmetric])
  show "cp div 0x40 * 0x40 + cp mod 0x40 = cp" by (rule div_mult_mod_eq)
  then show "(cp div 0x1000 * 0x40 + cp div 0x40 mod 0x40) * 0x40 + cp mod 0x40 = cp"
    unfolding a by (simp only: div_mult_mod_eq)
  then show "((cp div 0x40000 * 0x40 + cp div 0x1000 mod 0x40) * 0x40 + cp div 0x40 mod 0x40) * 0x40 + cp mod 0x40 = cp"
    unfolding a(2) by (simp only: div_mult_mod_eq)
qed

lemma take_bytes:
  "0 \<le> x \<Longrightarrow> x < 0x80 \<Longrightarrow> utf8Take (word_of_int x # rest) = (x, rest)"
  "0xC0 \<le> x \<Longrightarrow> x < 0xE0 \<Longrightarrow> 0 \<le> y \<Longrightarrow> y < 256 \<Longrightarrow>
     utf8Take (word_of_int x # word_of_int y # rest) = ((x - 0xC0) * 0x40 + (y - 0x80), rest)"
  "0xE0 \<le> x \<Longrightarrow> x < 0xF0 \<Longrightarrow> 0 \<le> y \<Longrightarrow> y < 256 \<Longrightarrow> 0 \<le> z \<Longrightarrow> z < 256 \<Longrightarrow>
     utf8Take (word_of_int x # word_of_int y # word_of_int z # rest) =
       (((x - 0xE0) * 0x40 + (y - 0x80)) * 0x40 + (z - 0x80), rest)"
  "0xF0 \<le> x \<Longrightarrow> x < 0x100 \<Longrightarrow> 0 \<le> y \<Longrightarrow> y < 256 \<Longrightarrow> 0 \<le> z \<Longrightarrow> z < 256 \<Longrightarrow> 0 \<le> w \<Longrightarrow> w < 256 \<Longrightarrow>
     utf8Take (word_of_int x # word_of_int y # word_of_int z # word_of_int w # rest) =
       ((((x - 0xF0) * 0x40 + (y - 0x80)) * 0x40 + (z - 0x80)) * 0x40 + (w - 0x80), rest)"
  by (simp_all add: utf8Take_def byte_of_int Let_def)

lemma utf8_take:
  assumes "scalarValue cp"
  shows "utf8Take (utf8 cp @ rest) = (cp, rest)"
proof -
  have b: "0 \<le> cp" "cp < 0x110000" "\<not> (0xD800 \<le> cp \<and> cp \<le> 0xDFFF)" using assms by (auto simp: scalarValue_def)
  define A B C D where v: "A = cp div 0x40000" "B = cp div 0x1000 mod 0x40" "C = cp div 0x40 mod 0x40" "D = cp mod 0x40"
  have m: "0 \<le> B" "B < 0x40" "0 \<le> C" "C < 0x40" "0 \<le> D" "D < 0x40" by (simp_all add: v)
  consider "cp < 0x80" | "0x80 \<le> cp" "cp < 0x800" | "0x800 \<le> cp" "cp < 0x10000" | "0x10000 \<le> cp" by linarith
  then show ?thesis
  proof cases
    case 1
    then show ?thesis using b take_bytes(1) [of cp rest] by (simp add: utf8_def)
  next
    case 2
    define E where E: "E = cp div 0x40"
    have d: "0 \<le> E" "E < 0x20" using 2 unfolding E by linarith+
    have u: "utf8 cp = [word_of_int (0xC0 + E), word_of_int (0x80 + D)]"
      unfolding utf8_def E v using 2 by simp
    have "E * 0x40 + D = cp" unfolding E v by (rule radix64)
    moreover have "utf8Take (utf8 cp @ rest) = ((0xC0 + E - 0xC0) * 0x40 + (0x80 + D - 0x80), rest)"
      unfolding u append_Cons append_Nil using d m by (subst take_bytes(2)) (linarith | rule refl)+
    ultimately show ?thesis by simp
  next
    case 3
    define E where E: "E = cp div 0x1000"
    have d: "0 \<le> E" "E < 0x10" using 3 unfolding E by linarith+
    have u: "utf8 cp = [word_of_int (0xE0 + E), word_of_int (0x80 + C), word_of_int (0x80 + D)]"
      unfolding utf8_def E v using 3 b(3) by (simp only: if_False) simp
    have "(E * 0x40 + C) * 0x40 + D = cp" unfolding E v by (rule radix64)
    moreover have "utf8Take (utf8 cp @ rest) = (((0xE0 + E - 0xE0) * 0x40 + (0x80 + C - 0x80)) * 0x40 + (0x80 + D - 0x80), rest)"
      unfolding u append_Cons append_Nil using d m by (subst take_bytes(3)) (linarith | rule refl)+
    ultimately show ?thesis by simp
  next
    case 4
    have d: "0 \<le> A" "A < 0x8" using 4 b unfolding v by linarith+
    have u: "utf8 cp = [word_of_int (0xF0 + A), word_of_int (0x80 + B), word_of_int (0x80 + C), word_of_int (0x80 + D)]"
      unfolding utf8_def v using 4 by simp
    have e: "((A * 0x40 + B) * 0x40 + C) * 0x40 + D = cp" unfolding v by (rule radix64)
    have "utf8Take (utf8 cp @ rest) =
        ((((0xF0 + A - 0xF0) * 0x40 + (0x80 + B - 0x80)) * 0x40 + (0x80 + C - 0x80)) * 0x40 + (0x80 + D - 0x80), rest)"
      unfolding u append_Cons append_Nil using d m by (subst take_bytes(4)) (linarith | rule refl)+
    then show ?thesis using e by simp
  qed
qed

lemma utf8_nonempty: "utf8 cp \<noteq> []"
  by (simp add: utf8_def)

lemma utf8_concat_inject:
  assumes "list_all scalarValue xs" "list_all scalarValue ys" "concat (map utf8 xs) = concat (map utf8 ys)"
  shows "xs = ys"
  using assms
proof (induction xs arbitrary: ys)
  case Nil
  then show ?case by (cases ys) (simp_all add: utf8_nonempty)
next
  case (Cons x xs)
  obtain y ys' where y: "ys = y # ys'"
    using Cons.prems(3) utf8_nonempty [of x] by (cases ys) simp_all
  have v: "scalarValue x" "scalarValue y" using Cons.prems y by simp_all
  have "utf8Take (utf8 x @ concat (map utf8 xs)) = utf8Take (utf8 y @ concat (map utf8 ys'))"
    using Cons.prems(3) y by (simp del: append_eq_append_conv)
  then have "(x, concat (map utf8 xs)) = (y, concat (map utf8 ys'))"
    unfolding v [THEN utf8_take] .
  then have "x = y" "concat (map utf8 xs) = concat (map utf8 ys')" unfolding prod.inject by (rule conjunct1, rule conjunct2)
  moreover have "list_all scalarValue xs" "list_all scalarValue ys'" using Cons.prems(1,2) y by simp_all
  ultimately show ?case using Cons.IH y by blast
qed

section \<open>The table of code points\<close>

lemma scanRanges_iff:
  assumes "sorted_wrt (\<lambda>a b. snd a < fst b) rs" "list_all (\<lambda>(a, b). a \<le> b) rs"
  shows "scanRanges rs cp \<longleftrightarrow> (\<exists>(a, b)\<in>set rs. a \<le> cp \<and> cp \<le> b)"
  using assms
proof (induction rs cp rule: scanRanges.induct)
  case (2 lo hi rs cp)
  show ?case
  proof (cases "cp < lo")
    case True
    then show ?thesis using 2(2,3) by (fastforce simp: list_all_iff)
  next
    case False
    then show ?thesis using 2 by auto
  qed
qed simp

lemma table_sorted: "sorted_wrt (\<lambda>a b. snd a < fst b) DISALLOWED_RANGES" "list_all (\<lambda>(a, b). a \<le> b) DISALLOWED_RANGES"
  by code_simp+

lemma disallowed_iff:
  "isDisallowedContentCodepoint cp \<longleftrightarrow> (\<exists>(a, b)\<in>set DISALLOWED_RANGES. a \<le> cp \<and> cp \<le> b)"
  unfolding isDisallowedContentCodepoint_def by (rule scanRanges_iff [OF table_sorted])

lemma surrogates_disallowed: "0xD800 \<le> cp \<Longrightarrow> cp \<le> 0xDFFF \<Longrightarrow> isDisallowedContentCodepoint cp"
  by (simp add: disallowed_iff DISALLOWED_RANGES_def)

section \<open>The body of a post\<close>

lemma echeck_ok: "echeck f xs = Inr () \<longleftrightarrow> (\<forall>x\<in>set xs. f x = Inr ())"
  by (induction xs) (auto simp: ebind_def split: sum.splits)

lemma content_ok:
  "verifyContentLimits content = Inr () \<longleftrightarrow> 1 \<le> length (textEncode content) \<and> int (length (textEncode content)) \<le> MAX_CONTENT_BYTES"
  "verifyContentCharacters content = Inr () \<longleftrightarrow> (\<forall>cp\<in>set (codePoints content). \<not> isDisallowedContentCodepoint cp)"
  by (auto simp: verifyContentLimits_def verifyContentCharacters_def echeck_ok Let_def Suc_le_eq)

lemma postBody_ok:
  "verifyPostBody H content ch = Inr () \<longleftrightarrow>
     verifyContentLimits content = Inr () \<and> verifyContentCharacters content = Inr () \<and>
     length ch = 32 \<and> computeContentHash H content = ch"
proof -
  have "xs = ch" if "length xs = 32" "length ch = 32" "\<forall>i\<in>{0..<32}. xs ! i = ch ! i" for xs :: "byte list"
    using that by (auto intro: nth_equalityI)
  then show ?thesis by (auto simp: verifyPostBody_def bind_iff Let_def list_all_iff)
qed

lemma accepted_scalars: "verifyContentCharacters c = Inr () \<Longrightarrow> list_all scalarValue (codePoints c)"
  using surrogates_disallowed codePoints_range unfolding content_ok scalarValue_def list_all_iff by blast

lemma accepted_encoding_inject:
  "verifyContentCharacters a = Inr () \<Longrightarrow> verifyContentCharacters b = Inr () \<Longrightarrow> textEncode a = textEncode b \<Longrightarrow> a = b"
  using utf8_concat_inject accepted_scalars codePoints_inject unfolding textEncode_def by blast

text \<open>C28: An accepted post body.  Its encoding has between one and \<open>MAX_CONTENT_BYTES\<close>
  bytes, none of its code points lies in a range of the pinned table (the scan that stops
  early decides membership in the union of the ranges), and the content hash commits to it:
  a second body accepted under that hash is the same string, unless two different preimages
  share a truncated digest.  Strings with lone surrogates, which the text encoder maps to one
  replacement character, are the ones the character policy keeps out.\<close>
theorem post_body_binds:
  assumes "verifyPostBody H c ch = Inr ()"
  shows "1 \<le> length (textEncode c) \<and> int (length (textEncode c)) \<le> MAX_CONTENT_BYTES \<and>
    (\<forall>cp\<in>set (codePoints c). \<forall>(a, b)\<in>set DISALLOWED_RANGES. cp < a \<or> b < cp) \<and>
    (verifyPostBody H c' ch = Inr () \<longrightarrow> c' = c \<or>
      (\<exists>p q. p = POST_CONTENT_DOMAIN @ textEncode c \<and> q = POST_CONTENT_DOMAIN @ textEncode c' \<and> p \<noteq> q \<and>
         hash32 H [p] = hash32 H [q]))"
proof -
  have a: "verifyContentLimits c = Inr ()" "verifyContentCharacters c = Inr ()" "computeContentHash H c = ch"
    using assms by (simp_all add: postBody_ok)
  have t: "\<forall>cp\<in>set (codePoints c). \<forall>(a, b)\<in>set DISALLOWED_RANGES. cp < a \<or> b < cp"
    using a(2) unfolding content_ok disallowed_iff by fastforce
  have "c' = c \<or> POST_CONTENT_DOMAIN @ textEncode c \<noteq> POST_CONTENT_DOMAIN @ textEncode c' \<and>
      hash32 H [POST_CONTENT_DOMAIN @ textEncode c] = hash32 H [POST_CONTENT_DOMAIN @ textEncode c']"
    if c': "verifyPostBody H c' ch = Inr ()"
  proof -
    have "verifyContentCharacters c' = Inr ()" "computeContentHash H c' = ch" using c' by (simp_all add: postBody_ok)
    then show ?thesis using a accepted_encoding_inject [of c' c] by (auto simp: computeContentHash_def hash32_def)
  qed
  then show ?thesis using a(1) t by (auto simp: content_ok)
qed

text \<open>A greeting with a character outside the basic plane, under a toy hash of the bytes' sum.\<close>
definition greeting :: jsString where
  "greeting = [0x48, 0x69, 0x20, 0xD83D, 0xDE00]"

definition lengthHash :: hash where
  "lengthHash bs = replicate 64 (fold (+) bs 0)"

lemma greeting_accepted: "verifyPostBody lengthHash greeting (computeContentHash lengthHash greeting) = Inr ()"
  by code_simp

lemma post_body_binds_witness:
  "1 \<le> length (textEncode greeting) \<and> int (length (textEncode greeting)) \<le> MAX_CONTENT_BYTES"
  using post_body_binds [OF greeting_accepted] by blast

section \<open>Transactions\<close>

lemma txStructure_ok:
  "verifyTxStructure tx = Inr () \<longleftrightarrow> inputs tx \<noteq> [] \<and> outputs tx \<noteq> [] \<and>
     (\<forall>out\<in>set (outputs tx). boxTypeOf out \<noteq> BT_genesis_proof \<and>
        (boxTypeOf out = BT_username \<longrightarrow> isValidUsernameBytes (tail_name (boxTail out))) \<and>
        (boxTypeOf out = BT_backer_stake \<or> boxTypeOf out = BT_backer_unstake \<longrightarrow> tail_weight (boxTail out) \<noteq> 0)) \<and>
     distinct (inputs tx) \<and> (\<forall>p. post tx = Some p \<longrightarrow> verifyPostCommitDomains p = Inr ()) \<and>
     (\<exists>encoded. encodeTx tx = Inr encoded \<and> int (length encoded) \<le> MAX_TX_BYTES)"
  by (auto simp: verifyTxStructure_def bind_iff echeck_ok split: option.splits sum.splits)

lemma encodeTx_id: "encodeTx tx = Inr bs \<Longrightarrow> \<exists>i. computeTxId H tx = Inr i"
  by (auto simp: encodeTx_def encodeStruct_def TX_def computeTxId_def bind_iff)

section \<open>Ordering blocks\<close>

lemma weighBody_ok:
  "weighBody ts = Inr () \<longleftrightarrow> ts = [] \<or>
     (\<forall>t\<in>set (butlast ts). int (length t) \<le> MAX_TX_BYTES) \<and> int (length (List.last ts)) \<le> MAX_SETTLEMENT_BYTES"
  by (induction ts rule: weighBody.induct) (auto simp: bind_iff)

lemma blockStructure_ok:
  "verifyOrderingBlockStructure b = Inr () \<longleftrightarrow>
     firstHeaderDomainFailure (header b) = None \<and> length (validatorSignature b) = 64 \<and> h_height (header b) \<ge> 1 \<and>
     powTargetBits (header b) \<ge> ORDERING_BLOCK_POW_TARGET_FLOOR \<and> utxoTxIds (ob_utxoTxTree b) \<noteq> [] \<and>
     (\<forall>i\<in>set (utxoTxIds (ob_utxoTxTree b)). isHex64 i) \<and>
     length (utxoTxs (ob_utxoTxTree b)) = length (utxoTxIds (ob_utxoTxTree b)) \<and>
     weighBody (utxoTxs (ob_utxoTxTree b)) = Inr () \<and> utxoTxTreeByteLength (ob_utxoTxTree b) \<le> MAX_BLOCK_BODY_BYTES"
  by (auto simp: verifyOrderingBlockStructure_def bind_iff echeck_ok Let_def split: option.splits)

lemma body_elements_small:
  assumes "weighBody ts = Inr ()" "t \<in> set ts"
  shows "int (length t) \<le> MAX_SETTLEMENT_BYTES"
proof -
  have "t \<in> set (butlast ts) \<or> t = List.last ts" using assms(2) by (cases ts rule: rev_cases) auto
  then show ?thesis using assms by (auto simp: weighBody_ok MAX_TX_BYTES_def MAX_SETTLEMENT_BYTES_def)
qed

lemma vlqUByteLength_pos: "vlqUByteLength v \<ge> 1"
proof -
  have "vlqWidth_loop v n \<ge> n" for v n
  proof (induction v n rule: vlqWidth_loop.induct)
    case (1 v n)
    then show ?case by (subst vlqWidth_loop.simps) auto
  qed
  then show ?thesis by (simp add: vlqUByteLength_def VLQ_SENTINEL_BYTE_LENGTH_def vlqBigIntWidth_def)
qed

lemma tree_count_bound: "32 * int (length (utxoTxIds t)) \<le> utxoTxTreeByteLength t"
proof -
  have a: "foldl (\<lambda>t x. t + 32) n xs = n + 32 * int (length xs)" for n and xs :: "string list"
    by (induction xs arbitrary: n) auto
  have b: "foldl (\<lambda>t x. t + lpByteLength x) n xs \<ge> n" for n xs
  proof (induction xs arbitrary: n)
    case (Cons x xs)
    have "lpByteLength x \<ge> 0" using vlqUByteLength_pos [of "int (length x)"] by (simp add: lpByteLength_def)
    then show ?case using Cons [of "n + lpByteLength x"] by simp
  qed simp
  show ?thesis
    using a b [of "vlqUByteLength (int (length (utxoTxs t)))" "utxoTxs t"] vlqUByteLength_pos [of "int (length (utxoTxs t))"]
      vlqUByteLength_pos [of "int (length (utxoTxIds t))"]
    by (simp add: utxoTxTreeByteLength_def arrByteLength_def)
qed

lemma tree_encodes:
  assumes "\<forall>i\<in>set (utxoTxIds t). isHex64 i" "length (utxoTxs t) = length (utxoTxIds t)"
    "\<forall>x\<in>set (utxoTxs t). int (length x) \<le> MAX_SETTLEMENT_BYTES" "utxoTxTreeByteLength t \<le> MAX_BLOCK_BODY_BYTES"
  shows "tree_dom t" "\<exists>bs. encodeUtxoTxTree t = Inr bs"
proof -
  have n: "int (length (utxoTxIds t)) \<le> 62500"
    using tree_count_bound [of t] assms(4) by (simp add: MAX_BLOCK_BODY_BYTES_def)
  show "tree_dom t" using n assms(2) by (simp add: tree_dom_def MAX_ARRAY_LENGTH_def)
  have i: "\<exists>bs. writeArr (utxoTxIds t) (\<lambda>i. writeHexNOrThrow i 32) = Inr bs"
    by (rule writeArr_total) (use assms(1) n in \<open>auto simp: isHex64_width writeHexN_eq MAX_SAFE_INTEGER_def\<close>)
  have x: "\<exists>bs. writeArr (utxoTxs t) writeLp = Inr bs"
    by (rule writeArr_total) (use assms(2,3) n in \<open>auto simp: writeLp_eq MAX_SAFE_INTEGER_def MAX_SETTLEMENT_BYTES_def\<close>)
  show "\<exists>bs. encodeUtxoTxTree t = Inr bs"
    using i x by (auto simp: encodeUtxoTxTree_def encodeStruct_def UTXO_TX_TREE_def writeTree_def)
qed

lemma vlq_short: "0 \<le> v \<Longrightarrow> v < 2 ^ 21 \<Longrightarrow> length (vlq v) \<le> 3"
  using vlq_length_le [of v 2] by simp

text \<open>C27: A structurally valid block is one the codec can carry.  It encodes, the encoding is at
  most \<open>MAX_ORDERING_BLOCK_BYTES\<close> long and decodes to the same block; it names at least one
  transaction, every transaction but the last is within \<open>MAX_TX_BYTES\<close> and the last, the
  settlement, within \<open>MAX_SETTLEMENT_BYTES\<close>.\<close>
theorem valid_block_encodes:
  assumes "verifyOrderingBlockStructure b = Inr ()"
  shows "(\<exists>bytes. encodeOrderingBlock b = Inr bytes \<and> int (length bytes) \<le> MAX_ORDERING_BLOCK_BYTES \<and>
      decodeOrderingBlock bytes = Inr b) \<and>
    utxoTxs (ob_utxoTxTree b) \<noteq> [] \<and>
    (\<forall>t\<in>set (butlast (utxoTxs (ob_utxoTxTree b))). int (length t) \<le> MAX_TX_BYTES) \<and>
    int (length (List.last (utxoTxs (ob_utxoTxTree b)))) \<le> MAX_SETTLEMENT_BYTES"
proof -
  note a = assms [unfolded blockStructure_ok]
  have small: "\<forall>x\<in>set (utxoTxs (ob_utxoTxTree b)). int (length x) \<le> MAX_SETTLEMENT_BYTES"
    using a body_elements_small by blast
  obtain hb where h: "encodeHeader (header b) = Inr hb" "header_dom (header b)"
    using a domain_encodes [of "header b"] by blast
  obtain tb where t: "encodeUtxoTxTree (ob_utxoTxTree b) = Inr tb" "tree_dom (ob_utxoTxTree b)"
    using a small tree_encodes [of "ob_utxoTxTree b"] by blast
  have hl: "int (length hb) \<le> 233" using header_length [OF h] by (simp add: MAX_HEADER_BYTES_def)
  have tl: "int (length tb) \<le> 2000000" using tree_length [OF t(1)] a by (simp add: MAX_BLOCK_BODY_BYTES_def)
  define bytes where "bytes = lpBytes hb @ lpBytes tb @ validatorSignature b"
  have e: "encodeOrderingBlock b = Inr bytes"
    unfolding encode_block_eq bytes_def using h(1) t(1) a hl tl
    by (simp add: encodeHeader_def encodeUtxoTxTree_def MAX_SAFE_INTEGER_def)
  have "length (vlq (int (length hb))) \<le> 2" using vlq_length_le [of "int (length hb)" 1] hl by simp
  moreover have "length (vlq (int (length tb))) \<le> 3" using vlq_short [of "int (length tb)"] tl by simp
  ultimately have "int (length bytes) \<le> MAX_ORDERING_BLOCK_BYTES"
    using hl tl a by (simp add: bytes_def lpBytes_def MAX_ORDERING_BLOCK_BYTES_def)
  then show ?thesis using e h(2) t(2) block_decode_encode [of b bytes] a by (auto simp: weighBody_ok)
qed

lemma sample_block_valid: "verifyOrderingBlockStructure (sampleBlock\<lparr>header := (header sampleBlock)\<lparr>powTargetBits := 5984\<rparr>\<rparr>) = Inr ()"
  by code_simp

lemma valid_block_encodes_witness:
  "\<exists>bytes. encodeOrderingBlock (sampleBlock\<lparr>header := (header sampleBlock)\<lparr>powTargetBits := 5984\<rparr>\<rparr>) = Inr bytes \<and>
     int (length bytes) \<le> MAX_ORDERING_BLOCK_BYTES"
  using valid_block_encodes [OF sample_block_valid] by blast

section \<open>No check throws\<close>

lemma hexToBytes_of: "isHex64 s \<Longrightarrow> \<exists>bs. hexToBytes s = Inr bs"
  using hex_roundtrip by (auto simp: isHex64_width)

lemma root_total:
  assumes "\<forall>i\<in>set (utxoTxIds t). isHex64 i"
  shows "\<exists>r. computeUtxoTxRoot H t = Inr r"
proof -
  have "\<exists>ys. emap (\<lambda>i. ebind (hexToBytes i) (\<lambda>bs. Inr (leafHash H ''utxotx'' bs))) (utxoTxIds t) = Inr ys"
    by (rule emap_total) (use assms hexToBytes_of in \<open>fastforce simp: bind_iff\<close>)
  then show ?thesis by (auto simp: computeUtxoTxRoot_def)
qed

lemma txSignatures_eq:
  "verifyTxSignatures H tx batch = Inr (list_all (\<lambda>(key, _). isHex64 key) (signatures tx) \<and>
     (\<exists>bs. txIdBytes tx = Inr bs \<and> batch (map (\<lambda>(key, sig).
        \<lparr>be_signature = sig, be_message = hash32 H [TX_ID_DOMAIN, bs], be_publicKey = projr (hexToBytes key)\<rparr>) (signatures tx))))"
proof (cases "list_all (\<lambda>(key, _). isHex64 key) (signatures tx)")
  case True
  have e: "emap (\<lambda>(key, sig). ebind (hexToBytes key) (\<lambda>k.
        Inr \<lparr>be_signature = sig, be_message = m, be_publicKey = k\<rparr>)) ss = Inr (map (\<lambda>(key, sig).
        \<lparr>be_signature = sig, be_message = m, be_publicKey = projr (hexToBytes key)\<rparr>) ss)"
    if "list_all (\<lambda>(key, _). isHex64 key) ss" for ss m
    using that hexToBytes_of by (induction ss) fastforce+
  show ?thesis using True e [OF True] hex_roundtrip
    by (cases "txIdBytes tx") (simp_all add: verifyTxSignatures_def computeTxId_def)
qed (simp add: verifyTxSignatures_def)

lemma validatorSignature_eq:
  "verifyValidatorSignature H lib h sig = Inr (firstHeaderDomainFailure h = None \<and>
     (\<exists>bs. encodeHeader h = Inr bs \<and> verifyEd25519 lib sig (hash32 H [bs]) (validatorId h)))"
proof (cases "firstHeaderDomainFailure h = None")
  case True
  then obtain bs where "encodeHeader h = Inr bs" using domain_encodes(1) [OF True] by blast
  then show ?thesis using True hex_roundtrip by (simp add: verifyValidatorSignature_def blockHash_def)
next
  case False
  then show ?thesis by (auto simp: verifyValidatorSignature_def blockHash_def)
qed

text \<open>The structural checks answer on every input, and the answer is stated.  The body root
  check is true exactly when the two lists align, the ids and the root are well formed and the
  recomputed root is the header's; the signatures of a transaction go to the batch over the
  32 bytes of its id, one entry per key in map order, and are refused when a key is malformed or
  the id cannot be computed; the validator's signature is checked over the digest of the encoded
  header, and a header outside its domain is refused, never thrown on.\<close>
theorem structural_checks_total:
  "verifyUtxoTxRoot H b = Inr (isHex64 (utxoTxRoot (header b)) \<and> list_all isHex64 (utxoTxIds (ob_utxoTxTree b)) \<and>
      length (utxoTxIds (ob_utxoTxTree b)) = length (utxoTxs (ob_utxoTxTree b)) \<and>
      computeUtxoTxRoot H (ob_utxoTxTree b) = Inr (utxoTxRoot (header b))) \<and>
   verifyTxSignatures H tx batch = Inr (list_all (\<lambda>(key, _). isHex64 key) (signatures tx) \<and>
     (\<exists>bs. txIdBytes tx = Inr bs \<and> batch (map (\<lambda>(key, sig).
        \<lparr>be_signature = sig, be_message = hash32 H [TX_ID_DOMAIN, bs], be_publicKey = projr (hexToBytes key)\<rparr>)
        (signatures tx)))) \<and>
   verifyValidatorSignature H lib h sig = Inr (firstHeaderDomainFailure h = None \<and>
     (\<exists>bs. encodeHeader h = Inr bs \<and> verifyEd25519 lib sig (hash32 H [bs]) (validatorId h)))"
proof -
  have t: "\<lparr>utxoTxIds = utxoTxIds (ob_utxoTxTree b), utxoTxs = utxoTxs (ob_utxoTxTree b)\<rparr> = ob_utxoTxTree b" by simp
  have "verifyUtxoTxRoot H b = Inr (isHex64 (utxoTxRoot (header b)) \<and> list_all isHex64 (utxoTxIds (ob_utxoTxTree b)) \<and>
      length (utxoTxIds (ob_utxoTxTree b)) = length (utxoTxs (ob_utxoTxTree b)) \<and>
      computeUtxoTxRoot H (ob_utxoTxTree b) = Inr (utxoTxRoot (header b)))"
    unfolding verifyUtxoTxRoot_def Let_def t
    using root_total [of "ob_utxoTxTree b" H] by (auto simp: list_all_iff)
  then show ?thesis using txSignatures_eq validatorSignature_eq by simp
qed

end
