(* ===== verification/Batch.thy ===== *)
theory Batch
  imports Structure
begin

text \<open>
  The batched signature check of \<open>packages/validation/src/ed25519-batch.ts\<close>: the
  coefficients derived from the batch, the bucket method of multi-scalar multiplication
  and the one cofactored equation.  The curve library is a parameter: the points are a
  commutative group \<open>'p\<close>, whose other operations are the fields of \<open>curve\<close>.  Its
  decoder throws on a malformed encoding, which is \<open>None\<close> here.
\<close>

unbundle bit_operations_syntax

record 'p curve =
  pDouble :: "'p \<Rightarrow> 'p"
  pClearCofactor :: "'p \<Rightarrow> 'p"
  pIs0 :: "'p \<Rightarrow> bool"
  pIsSmallOrder :: "'p \<Rightarrow> bool"
  pFromBytes :: "byte list \<Rightarrow> 'p option"
  pBase :: 'p
  fnOrder :: int
  fnBits :: nat
  sha512 :: hash

definition BATCH_DOMAIN :: "byte list" where
  "BATCH_DOMAIN = ascii ''dagsocial/ed25519-batch/1''"

definition BATCH_COEFFICIENT_BYTES :: nat where "BATCH_COEFFICIENT_BYTES = 16"

definition hasEntryShape :: "batchEntry \<Rightarrow> bool" where
  "hasEntryShape e \<longleftrightarrow> length (be_signature e) = 64 \<and> length (be_publicKey e) = 32"

section \<open>The coefficients\<close>

definition writeLE32 :: "int \<Rightarrow> byte list" where
  "writeLE32 v = [word_of_int (v AND 0xff), word_of_int (drop_bit 8 v AND 0xff),
     word_of_int (drop_bit 16 v AND 0xff), word_of_int (drop_bit 24 v AND 0xff)]"

definition writeLE64 :: "int \<Rightarrow> byte list" where
  "writeLE64 v = writeLE32 (v mod 2 ^ 32) @ writeLE32 (v div 2 ^ 32)"

text \<open>\<open>bytesToNumberLE\<close>.\<close>
fun leValue :: "byte list \<Rightarrow> int" where
  "leValue [] = 0"
| "leValue (b # bs) = uint b + 256 * leValue bs"

definition entryBytes :: "batchEntry \<Rightarrow> byte list" where
  "entryBytes e = be_signature e @ be_publicKey e @ writeLE64 (int (length (be_message e))) @ be_message e"

definition transcriptPreimage :: "batchEntry list \<Rightarrow> byte list" where
  "transcriptPreimage entries =
     BATCH_DOMAIN @ writeLE32 (int (length entries)) @ concat (map entryBytes entries)"

definition transcriptOf :: "'p curve \<Rightarrow> batchEntry list \<Rightarrow> byte list" where
  "transcriptOf C entries = sha512 C (transcriptPreimage entries)"

definition coefficientFrom :: "byte list \<Rightarrow> int" where
  "coefficientFrom digest =
     (let z = leValue (take BATCH_COEFFICIENT_BYTES digest) in if z = 0 then 1 else z)"

definition coefficientsOf :: "'p curve \<Rightarrow> byte list \<Rightarrow> nat \<Rightarrow> int list" where
  "coefficientsOf C transcript n =
     map (\<lambda>i. coefficientFrom (sha512 C (transcript @ writeLE32 (int i)))) [0..<n]"

section \<open>Multi-scalar multiplication\<close>

definition windowBitsFor :: "nat \<Rightarrow> nat" where
  "windowBitsFor pointCount =
     (if pointCount < 64 then 4 else if pointCount < 512 then 6 else if pointCount < 4096 then 9
      else if pointCount < 20000 then 11 else 12)"

text \<open>One point into the bucket of its digit.\<close>
definition bucketStep :: "nat \<Rightarrow> nat \<Rightarrow> ('p::ab_group_add) option list \<Rightarrow> 'p \<times> int \<Rightarrow> 'p option list" where
  "bucketStep c w buckets = (\<lambda>(point, scalar).
     let digit = nat (drop_bit (w * c) scalar AND (2 ^ c - 1)) in
     if digit = 0 then buckets
     else buckets[digit := Some (case buckets ! digit of Some bucket \<Rightarrow> bucket + point | None \<Rightarrow> point)])"

text \<open>The running sum of the buckets from the top, added once per step down.\<close>
definition sweepStep :: "('p::ab_group_add) option list \<Rightarrow> 'p \<times> 'p \<Rightarrow> nat \<Rightarrow> 'p \<times> 'p" where
  "sweepStep buckets = (\<lambda>(running, windowSum) d.
     let running = (case buckets ! d of Some bucket \<Rightarrow> running + bucket | None \<Rightarrow> running)
     in (running, windowSum + running))"

definition windowStep ::
    "('p::ab_group_add) curve \<Rightarrow> nat \<Rightarrow> 'p list \<Rightarrow> int list \<Rightarrow> 'p \<Rightarrow> nat \<Rightarrow> 'p" where
  "windowStep C c points scalars acc w =
     (let acc = (pDouble C ^^ c) acc;
          buckets = foldl (bucketStep c w) (replicate (2 ^ c) None) (zip points scalars);
          (running, windowSum) = foldl (sweepStep buckets) (0, 0) (rev [1..<2 ^ c])
      in acc + windowSum)"

definition multiScalarMultiply :: "('p::ab_group_add) curve \<Rightarrow> 'p list \<Rightarrow> int list \<Rightarrow> 'p" where
  "multiScalarMultiply C points scalars =
     (let c = windowBitsFor (length points);
          windows = (fnBits C + c - 1) div c
      in foldl (windowStep C c points scalars) 0 (rev [0..<windows]))"

section \<open>The batch\<close>

record 'p batchState =
  bt_points :: "'p list"
  bt_scalars :: "int list"
  bt_keySlot :: "string \<rightharpoonup> nat"
  bt_sumZS :: int

text \<open>The slot of an entry's key: the one it has, or a new point.\<close>
definition slotOf :: "'p curve \<Rightarrow> byte list \<Rightarrow> 'p batchState \<Rightarrow> (nat \<times> 'p batchState) option" where
  "slotOf C publicKey st = (let key = bytesToHex publicKey in
     case bt_keySlot st key of
       Some slot \<Rightarrow> Some (slot, st)
     | None \<Rightarrow> (case pFromBytes C publicKey of
         None \<Rightarrow> None
       | Some a \<Rightarrow>
           if pIsSmallOrder C a then None
           else let slot = length (bt_points st) in
             Some (slot, st\<lparr>bt_points := bt_points st @ [a], bt_scalars := bt_scalars st @ [0],
               bt_keySlot := (bt_keySlot st)(key \<mapsto> slot)\<rparr>)))"

definition challengeOf :: "'p curve \<Rightarrow> batchEntry \<Rightarrow> int" where
  "challengeOf C e = leValue (sha512 C (take 32 (be_signature e) @ be_publicKey e @ be_message e)) mod fnOrder C"

definition batchStep :: "('p::ab_group_add) curve \<Rightarrow> batchEntry \<times> int \<Rightarrow> 'p batchState \<Rightarrow> 'p batchState option" where
  "batchStep C = (\<lambda>(e, zi) st.
     let s = leValue (take 32 (drop 32 (be_signature e))) in
     if s \<ge> fnOrder C then None
     else (case slotOf C (be_publicKey e) st of
       None \<Rightarrow> None
     | Some (slot, st') \<Rightarrow> (case pFromBytes C (take 32 (be_signature e)) of
         None \<Rightarrow> None
       | Some r \<Rightarrow>
           let k = challengeOf C e; scalars = bt_scalars st' @ [zi] in
           Some (st'\<lparr>bt_points := bt_points st' @ [r],
             bt_scalars := scalars[slot := (scalars ! slot + zi * k) mod fnOrder C],
             bt_sumZS := (bt_sumZS st' + zi * s) mod fnOrder C\<rparr>))))"

fun batchLoop :: "('p::ab_group_add) curve \<Rightarrow> (batchEntry \<times> int) list \<Rightarrow> 'p batchState \<Rightarrow> 'p batchState option" where
  "batchLoop C [] st = Some st"
| "batchLoop C (x # xs) st = (case batchStep C x st of None \<Rightarrow> None | Some st' \<Rightarrow> batchLoop C xs st')"

definition verifyEd25519Batch :: "libVerify \<Rightarrow> ('p::ab_group_add) curve \<Rightarrow> batchEntry list \<Rightarrow> bool" where
  "verifyEd25519Batch lib C entries = (case entries of
     [] \<Rightarrow> True
   | [e] \<Rightarrow> verifyEd25519 lib (be_signature e) (be_message e) (be_publicKey e)
   | _ \<Rightarrow>
       if \<not> list_all hasEntryShape entries then False
       else let z = coefficientsOf C (transcriptOf C entries) (length entries) in
         (case batchLoop C (zip entries z) \<lparr>bt_points = [], bt_scalars = [], bt_keySlot = Map.empty, bt_sumZS = 0\<rparr> of
           None \<Rightarrow> False
         | Some st \<Rightarrow>
             let points = bt_points st @ [pBase C]; scalars = bt_scalars st @ [(- bt_sumZS st) mod fnOrder C] in
             pIs0 C (pClearCofactor C (multiScalarMultiply C points scalars))))"

end
