(* ===== verification/BatchLaws.thy ===== *)
theory BatchLaws
  imports Batch PowLaws
begin

text \<open>
  The bucket method computes the sum of the scaled points, and the batch decides one
  equation over the entries' own equations: a batch of valid signatures is accepted
  whatever the coefficients are.
\<close>

section \<open>Scaling a point\<close>

primrec nmul :: "nat \<Rightarrow> 'p::ab_group_add \<Rightarrow> 'p" where
  "nmul 0 P = 0"
| "nmul (Suc n) P = P + nmul n P"

named_theorems scaling

lemma nmul_zero [simp]: "nmul n 0 = 0"
  by (induction n) simp_all

lemma nmul_plus [scaling]: "nmul n (P + Q) = nmul n P + nmul n Q"
  by (induction n) (simp_all add: algebra_simps)

lemma nmul_minus [scaling]: "nmul n (P - Q) = nmul n P - nmul n Q"
  by (induction n) (simp_all add: algebra_simps)

lemma nmul_add [scaling]: "nmul (m + n) P = nmul m P + nmul n P"
  by (induction m) (simp_all add: algebra_simps)

lemma nmul_mult: "nmul (m * n) P = nmul m (nmul n P)"
  by (induction m) (simp_all add: nmul_add)

lemma nmul_commute: "nmul m (nmul n P) = nmul n (nmul m P)"
  by (metis mult.commute nmul_mult)

lemma nmul_sum_list: "nmul n (sum_list Ps) = (\<Sum>P\<leftarrow>Ps. nmul n P)"
  by (induction Ps) (simp_all add: nmul_plus)

lemma nmul_sum: "nmul n (\<Sum>i\<in>A. f i) = (\<Sum>i\<in>A. nmul n (f i))"
  by (induction A rule: infinite_finite_induct) (simp_all add: nmul_plus)

text \<open>The reference: each point scaled on its own.\<close>
definition scaledSum :: "('p::ab_group_add) list \<Rightarrow> int list \<Rightarrow> 'p" where
  "scaledSum points scalars = (\<Sum>(P, s)\<leftarrow>zip points scalars. nmul (nat s) P)"

section \<open>The buckets\<close>

definition bucketValue :: "('p::ab_group_add) option \<Rightarrow> 'p" where
  "bucketValue b = (case b of None \<Rightarrow> 0 | Some P \<Rightarrow> P)"

abbreviation digitAt :: "nat \<Rightarrow> nat \<Rightarrow> int \<Rightarrow> nat" where
  "digitAt c w s \<equiv> nat (drop_bit (w * c) s AND (2 ^ c - 1))"

lemma digit_int: "drop_bit m (s :: int) AND (2 ^ c - 1) = s div 2 ^ m mod 2 ^ c"
  by (simp add: drop_bit_eq_div take_bit_eq_mod [symmetric] take_bit_eq_mask mask_eq_exp_minus_1)

lemma digit_nat: "0 \<le> s \<Longrightarrow> digitAt c w s = nat s div 2 ^ (w * c) mod 2 ^ c"
  unfolding digit_int
  by (subst nat_mod_distrib) (simp_all add: nat_div_distrib nat_power_eq pos_imp_zdiv_nonneg_iff)

lemma digit_bound: "digitAt c w s < 2 ^ c"
proof -
  have "s div 2 ^ (w * c) mod 2 ^ c < (2 ^ c :: int)" by simp
  then show ?thesis unfolding digit_int by (simp add: nat_less_iff)
qed

lemma bucketStep_value:
  assumes "length buckets = 2 ^ c" "d \<noteq> 0" "d < 2 ^ c"
  shows "length (bucketStep c w buckets (P, s)) = 2 ^ c"
    "bucketValue (bucketStep c w buckets (P, s) ! d) = bucketValue (buckets ! d) + (if digitAt c w s = d then P else 0)"
  using assms digit_bound [of w c s]
  by (auto simp: bucketStep_def Let_def bucketValue_def nth_list_update split: option.splits)

text \<open>After the pass, a bucket holds the points of its digit.\<close>
lemma buckets_filled:
  assumes "length buckets = 2 ^ c" "d \<noteq> 0" "d < 2 ^ c"
  shows "length (foldl (bucketStep c w) buckets ps) = 2 ^ c \<and>
    bucketValue (foldl (bucketStep c w) buckets ps ! d) =
      bucketValue (buckets ! d) + (\<Sum>(P, s)\<leftarrow>ps. if digitAt c w s = d then P else 0)"
  using assms(1)
proof (induction ps arbitrary: buckets)
  case (Cons p ps)
  obtain P s where p: "p = (P, s)" by fastforce
  note b = bucketStep_value [OF Cons.prems assms(2,3), of w P s]
  show ?case using Cons.IH [OF b(1)] b(2) by (simp add: p add.assoc)
qed simp

text \<open>The running sum counts the bucket of digit \<open>d\<close> \<open>d\<close> times.\<close>
lemma sweep_sum:
  fixes buckets :: "('p::ab_group_add) option list"
  shows "foldl (sweepStep buckets) (r, t) (rev [1..<Suc n]) =
     (r + (\<Sum>d\<in>{1..n}. bucketValue (buckets ! d)),
      t + nmul n r + (\<Sum>d\<in>{1..n}. nmul d (bucketValue (buckets ! d))))"
proof (induction n arbitrary: r t)
  case (Suc n)
  define v where "v = bucketValue (buckets ! Suc n)"
  have s: "sweepStep buckets (r, t) (Suc n) = (r + v, t + (r + v))"
    by (simp add: sweepStep_def v_def bucketValue_def Let_def split: option.splits)
  have "rev [1..<Suc (Suc n)] = Suc n # rev [1..<Suc n]" by simp
  then have "foldl (sweepStep buckets) (r, t) (rev [1..<Suc (Suc n)]) =
      foldl (sweepStep buckets) (r + v, t + (r + v)) (rev [1..<Suc n])" by (simp only: foldl_Cons s)
  then show ?case unfolding Suc.IH by (simp add: v_def nmul_plus algebra_simps)
qed simp

lemma digit_regroup:
  fixes ps :: "(('p::ab_group_add) \<times> int) list"
  shows "(\<Sum>d\<in>{1..<2 ^ c}. nmul d (\<Sum>(P, s)\<leftarrow>ps. if digitAt c w s = d then P else 0)) =
    (\<Sum>(P, s)\<leftarrow>ps. nmul (digitAt c w s) P)"
proof (induction ps)
  case (Cons p ps)
  obtain P s where p: "p = (P, s)" by fastforce
  have "(\<Sum>d\<in>{1..<2 ^ c}. nmul d (if digitAt c w s = d then P else 0)) = (\<Sum>d\<in>{1..<2 ^ c}. if d = digitAt c w s then nmul d P else 0)"
    by (rule sum.cong) auto
  also have "\<dots> = nmul (digitAt c w s) P"
    using digit_bound [of w c s] by (cases "digitAt c w s = 0") (auto simp: sum.delta')
  finally show ?case using Cons by (simp add: p nmul_plus sum.distrib)
qed simp

lemma window_sum:
  fixes C :: "('p::ab_group_add) curve"
  assumes "c > 0"
  shows "windowStep C c points scalars acc w =
    (pDouble C ^^ c) acc + (\<Sum>(P, s)\<leftarrow>zip points scalars. nmul (digitAt c w s) P)"
proof -
  let ?ps = "zip points scalars"
  define buckets where "buckets = foldl (bucketStep c w) (replicate (2 ^ c) None) ?ps"
  have v: "bucketValue (buckets ! d) = (\<Sum>(P, s)\<leftarrow>?ps. if digitAt c w s = d then P else 0)" if "d \<in> {1..<2 ^ c}" for d
    using buckets_filled [of "replicate (2 ^ c) (None :: 'p option)" c d w ?ps] that
    by (simp add: buckets_def bucketValue_def)
  obtain n where n: "(2 :: nat) ^ c = Suc n" by (metis not0_implies_Suc power_not_zero zero_neq_numeral)
  have r: "{1..n} = {1..<2 ^ c}" by (auto simp: n)
  have "snd (foldl (sweepStep buckets) (0, 0) (rev [1..<2 ^ c])) = (\<Sum>d\<in>{1..<2 ^ c}. nmul d (bucketValue (buckets ! d)))"
    unfolding n sweep_sum unfolding r [symmetric] n [symmetric] by (simp add: r)
  also have "\<dots> = (\<Sum>(P, s)\<leftarrow>?ps. nmul (digitAt c w s) P)"
    unfolding digit_regroup [symmetric] by (rule sum.cong) (simp_all add: v)
  finally show ?thesis
    by (simp add: windowStep_def Let_def buckets_def case_prod_unfold)
qed

section \<open>The windows\<close>

lemma double_power: "(\<forall>P. pDouble C P = P + P) \<Longrightarrow> (pDouble C ^^ c) P = nmul (2 ^ c) P"
proof (induction c)
  case (Suc c)
  have "nmul (2 * 2 ^ c) P = nmul (2 ^ c) P + nmul (2 ^ c) P" by (simp only: mult_2 nmul_add)
  then show ?case using Suc by simp
qed simp

lemma horner:
  fixes C :: "('p::ab_group_add) curve"
  assumes "\<forall>P. pDouble C P = P + P" "c > 0" "\<forall>s\<in>set scalars. 0 \<le> s \<and> s < 2 ^ (c * k)"
  shows "j \<le> k \<Longrightarrow> foldl (windowStep C c points scalars) 0 (rev [j..<k]) =
    (\<Sum>(P, s)\<leftarrow>zip points scalars. nmul (nat s div 2 ^ (j * c)) P)"
proof (induction "k - j" arbitrary: j)
  case 0
  have "nat s div 2 ^ (k * c) = 0" if "(P, s) \<in> set (zip points scalars)" for P s
  proof -
    have "0 \<le> s \<and> s < 2 ^ (c * k)" using assms(3) that by (auto dest: set_zip_rightD)
    then have "nat s < 2 ^ (k * c)" by (simp add: nat_less_iff mult.commute)
    then show ?thesis by simp
  qed
  then have "(\<Sum>(P, s)\<leftarrow>zip points scalars. nmul (nat s div 2 ^ (k * c)) P) = (\<Sum>x\<leftarrow>zip points scalars. 0)"
    by (intro arg_cong [where f = sum_list] map_cong refl) auto
  then show ?case using 0 by simp
next
  case (Suc n)
  have jk: "j < k" using Suc(2) by simp
  then have u: "rev [j..<k] = rev [Suc j..<k] @ [j]" by (simp add: upt_conv_Cons)
  have ih: "foldl (windowStep C c points scalars) 0 (rev [Suc j..<k]) =
     (\<Sum>(P, s)\<leftarrow>zip points scalars. nmul (nat s div 2 ^ (Suc j * c)) P)"
    by (rule Suc(1)) (use Suc(2) jk in auto)
  have e: "nmul (2 ^ c) (nmul (nat s div 2 ^ (Suc j * c)) P) + nmul (digitAt c j s) P = nmul (nat s div 2 ^ (j * c)) P"
    if "(P, s) \<in> set (zip points scalars)" for P s
  proof -
    have "0 \<le> s" using assms(3) that by (auto dest: set_zip_rightD)
    then have d: "digitAt c j s = nat s div 2 ^ (j * c) mod 2 ^ c" by (rule digit_nat)
    have "nat s div 2 ^ (Suc j * c) = nat s div 2 ^ (j * c) div 2 ^ c"
      by (simp add: div_mult2_eq [symmetric] power_add mult.commute)
    then show ?thesis
      unfolding d nmul_mult [symmetric] nmul_add [symmetric] by simp
  qed
  show ?case
    unfolding u foldl_append foldl_Cons foldl_Nil ih window_sum [OF assms(2)] double_power [OF assms(1)]
      nmul_sum_list map_map comp_def
    unfolding sum_list_addf [symmetric] case_prod_unfold
    by (intro arg_cong [where f = sum_list] map_cong refl) (use e in \<open>auto simp: case_prod_unfold\<close>)
qed

lemma windowBits_pos: "windowBitsFor n > 0"
  by (simp add: windowBitsFor_def)

lemma msm_sum:
  assumes "\<forall>P. pDouble C P = P + P" "\<forall>s\<in>set scalars. 0 \<le> s \<and> s < 2 ^ fnBits C"
  shows "multiScalarMultiply C points scalars = scaledSum points scalars"
proof -
  let ?c = "windowBitsFor (length points)"
  let ?k = "(fnBits C + ?c - 1) div ?c"
  have "fnBits C \<le> ?c * ?k"
  proof -
    have "fnBits C + ?c - 1 < ?c * ?k + ?c"
      using windowBits_pos [of "length points"] by (metis dividend_less_div_times mult.commute add.commute)
    then show ?thesis by simp
  qed
  then have "(2 :: int) ^ fnBits C \<le> 2 ^ (?c * ?k)" by (rule power_increasing) simp
  then have "\<forall>s\<in>set scalars. 0 \<le> s \<and> s < 2 ^ (?c * ?k)" using assms(2) by (meson order_less_le_trans)
  from horner [OF assms(1) windowBits_pos this, of 0 points] show ?thesis
    by (simp add: multiScalarMultiply_def Let_def scaledSum_def)
qed

section \<open>The equation of a batch\<close>

text \<open>The documented behaviour of the curve library: a group whose points all have an order
  dividing eight times \<open>fnOrder\<close>.\<close>
definition edwards :: "('p::ab_group_add) curve \<Rightarrow> bool" where
  "edwards C \<longleftrightarrow> (\<forall>P. pDouble C P = P + P) \<and> (\<forall>P. pClearCofactor C P = nmul 8 P) \<and> (\<forall>P. pIs0 C P \<longleftrightarrow> P = 0) \<and>
     0 < fnOrder C \<and> fnOrder C \<le> 2 ^ fnBits C \<and> 128 \<le> fnBits C \<and> (\<forall>P :: 'p. nmul (8 * nat (fnOrder C)) P = 0)"

definition goodKey :: "'p curve \<Rightarrow> byte list \<Rightarrow> bool" where
  "goodKey C pk \<longleftrightarrow> (\<exists>a. pFromBytes C pk = Some a \<and> \<not> pIsSmallOrder C a)"

definition sigScalar :: "batchEntry \<Rightarrow> int" where
  "sigScalar e = leValue (take 32 (drop 32 (be_signature e)))"

text \<open>What one entry must satisfy besides its equation: a reduced scalar, a key that decodes and
  is not of small order, a commitment that decodes.\<close>
definition entryForm :: "'p curve \<Rightarrow> batchEntry \<Rightarrow> bool" where
  "entryForm C e \<longleftrightarrow> sigScalar e < fnOrder C \<and> goodKey C (be_publicKey e) \<and> pFromBytes C (take 32 (be_signature e)) \<noteq> None"

text \<open>\<open>R + k A - s B\<close>.\<close>
definition entryEquation :: "('p::ab_group_add) curve \<Rightarrow> batchEntry \<Rightarrow> 'p" where
  "entryEquation C e = the (pFromBytes C (take 32 (be_signature e))) +
     nmul (nat (challengeOf C e)) (the (pFromBytes C (be_publicKey e))) - nmul (nat (sigScalar e)) (pBase C)"

lemma leValue_bounds: "0 \<le> leValue bs \<and> leValue bs < 256 ^ length bs"
proof (induction bs)
  case (Cons b bs)
  have "uint b < 256" using uint_bounded [of b] by simp
  moreover have "0 \<le> uint b" by simp
  moreover have "0 \<le> leValue bs" "leValue bs + 1 \<le> 256 ^ length bs" using Cons by simp_all
  ultimately have "0 \<le> uint b + 256 * leValue bs" "uint b + 256 * leValue bs < 256 * 256 ^ length bs" by linarith+
  then show ?case by simp
qed simp

lemma coefficients:
  "length (coefficientsOf C t n) = n" "\<forall>z\<in>set (coefficientsOf C t n). 0 < z \<and> z < 2 ^ 128"
proof -
  have "0 < coefficientFrom d \<and> coefficientFrom d < 2 ^ 128" for d
  proof -
    have "length (take BATCH_COEFFICIENT_BYTES d) \<le> 16" by (simp add: BATCH_COEFFICIENT_BYTES_def)
    then have "(256 :: int) ^ length (take BATCH_COEFFICIENT_BYTES d) \<le> 256 ^ 16" by (rule power_increasing) simp
    then show ?thesis using leValue_bounds [of "take BATCH_COEFFICIENT_BYTES d"]
      by (simp add: coefficientFrom_def Let_def)
  qed
  then show "\<forall>z\<in>set (coefficientsOf C t n). 0 < z \<and> z < 2 ^ 128" by (auto simp: coefficientsOf_def)
qed (simp add: coefficientsOf_def)

lemma clear_mod:
  fixes C :: "('p::ab_group_add) curve" and P :: 'p
  assumes "edwards C" "0 \<le> n"
  shows "nmul 8 (nmul (nat (n mod fnOrder C)) P) = nmul 8 (nmul (nat n) P)"
proof -
  have L: "0 < fnOrder C" "\<forall>P :: 'p. nmul (8 * nat (fnOrder C)) P = 0" using assms(1) by (simp_all add: edwards_def)
  define q where "q = nat (n div fnOrder C)"
  have "n = fnOrder C * (n div fnOrder C) + n mod fnOrder C" by simp
  moreover have "0 \<le> n div fnOrder C" "0 \<le> n mod fnOrder C" using L assms(2) by (simp_all add: pos_imp_zdiv_nonneg_iff)
  ultimately have n: "nat n = nat (fnOrder C) * q + nat (n mod fnOrder C)"
    using L(1) unfolding q_def by (metis nat_add_distrib nat_mult_distrib mult_nonneg_nonneg order_less_imp_le)
  have "nmul 8 (nmul (nat (fnOrder C) * q) P) = nmul q (nmul (8 * nat (fnOrder C)) P)"
    by (metis nmul_mult mult.commute mult.left_commute)
  then show ?thesis unfolding n nmul_add nmul_plus using L(2) by simp
qed

lemma scaledSum_snoc:
  "length ps = length ss \<Longrightarrow> scaledSum (ps @ [P]) (ss @ [s]) = scaledSum ps ss + nmul (nat s) P"
  by (simp add: scaledSum_def)

lemma sum_list_set:
  fixes xs :: "('p::ab_group_add) list"
  shows "j < length xs \<Longrightarrow> sum_list (xs[j := x]) = sum_list xs + x - xs ! j"
proof (induction xs arbitrary: j)
  case (Cons a xs)
  then show ?case by (cases j) (simp_all add: algebra_simps)
qed simp

lemma scaledSum_update:
  assumes "length ps = length ss" "j < length ss"
  shows "scaledSum ps (ss[j := x]) = scaledSum ps ss + nmul (nat x) (ps ! j) - nmul (nat (ss ! j)) (ps ! j)"
proof -
  have "zip ps (ss[j := x]) = (zip ps ss)[j := (ps ! j, x)]"
    by (metis list_update_id zip_update)
  then show ?thesis using assms
    by (simp add: scaledSum_def map_update sum_list_set case_prod_unfold)
qed

definition batchValue :: "('p::ab_group_add) curve \<Rightarrow> 'p batchState \<Rightarrow> 'p" where
  "batchValue C st = scaledSum (bt_points st) (bt_scalars st) - nmul (nat (bt_sumZS st)) (pBase C)"

definition batchInv :: "('p::ab_group_add) curve \<Rightarrow> 'p batchState \<Rightarrow> bool" where
  "batchInv C st \<longleftrightarrow> length (bt_points st) = length (bt_scalars st) \<and>
     (\<forall>s\<in>set (bt_scalars st). 0 \<le> s \<and> s < 2 ^ fnBits C) \<and> 0 \<le> bt_sumZS st \<and> bt_sumZS st < fnOrder C \<and>
     (\<forall>pk j. bt_keySlot st (bytesToHex pk) = Some j \<longrightarrow>
        j < length (bt_points st) \<and> goodKey C pk \<and> pFromBytes C pk = Some (bt_points st ! j))"

lemma slotOf_ok:
  assumes "batchInv C st"
  shows "case slotOf C pk st of None \<Rightarrow> \<not> goodKey C pk
    | Some (j, st') \<Rightarrow> goodKey C pk \<and> batchInv C st' \<and> batchValue C st' = batchValue C st \<and>
        j < length (bt_points st') \<and> pFromBytes C pk = Some (bt_points st' ! j)"
proof (cases "bt_keySlot st (bytesToHex pk)")
  case (Some j)
  then have "slotOf C pk st = Some (j, st)" by (simp add: slotOf_def)
  then show ?thesis using assms Some unfolding batchInv_def by auto
next
  case None
  show ?thesis
  proof (cases "goodKey C pk")
    case True
    then obtain a where a: "pFromBytes C pk = Some a" "\<not> pIsSmallOrder C a" by (auto simp: goodKey_def)
    define st' where "st' = st\<lparr>bt_points := bt_points st @ [a], bt_scalars := bt_scalars st @ [0],
        bt_keySlot := (bt_keySlot st)(bytesToHex pk \<mapsto> length (bt_points st))\<rparr>"
    have s: "slotOf C pk st = Some (length (bt_points st), st')"
      using None a by (simp add: slotOf_def st'_def Let_def)
    have "batchInv C st'" using assms True a by (auto simp: batchInv_def st'_def nth_append less_Suc_eq)
    moreover have "batchValue C st' = batchValue C st"
      using assms by (simp add: batchValue_def st'_def scaledSum_snoc batchInv_def)
    ultimately show ?thesis using True a by (simp add: s) (simp add: st'_def)
  next
    case False
    then show ?thesis using None by (auto simp: slotOf_def goodKey_def split: option.splits)
  qed
qed

lemma batchStep_ok:
  assumes "edwards C" "batchInv C st" "0 \<le> zi" "zi < 2 ^ 128"
  shows "case batchStep C (e, zi) st of None \<Rightarrow> \<not> entryForm C e
    | Some st' \<Rightarrow> entryForm C e \<and> batchInv C st' \<and>
        nmul 8 (batchValue C st') = nmul 8 (batchValue C st) + nmul 8 (nmul (nat zi) (entryEquation C e))"
proof (cases "entryForm C e")
  case False
  then have "batchStep C (e, zi) st = None"
    using slotOf_ok [OF assms(2), of "be_publicKey e"]
    by (auto simp: batchStep_def entryForm_def sigScalar_def Let_def split: option.splits prod.splits)
  then show ?thesis using False by simp
next
  case True
  have s: "\<not> sigScalar e \<ge> fnOrder C" using True by (simp add: entryForm_def)
  obtain j st1 where st1: "slotOf C (be_publicKey e) st = Some (j, st1)" "batchInv C st1"
      "batchValue C st1 = batchValue C st" "j < length (bt_points st1)" "pFromBytes C (be_publicKey e) = Some (bt_points st1 ! j)"
    using slotOf_ok [OF assms(2), of "be_publicKey e"] True by (auto simp: entryForm_def split: option.splits)
  obtain r where r: "pFromBytes C (take 32 (be_signature e)) = Some r" using True by (auto simp: entryForm_def)
  define k where "k = challengeOf C e"
  define a where "a = bt_points st1 ! j"
  define x where "x = bt_scalars st1 ! j"
  define st' where "st' = st1\<lparr>bt_points := bt_points st1 @ [r],
      bt_scalars := (bt_scalars st1 @ [zi])[j := (x + zi * k) mod fnOrder C],
      bt_sumZS := (bt_sumZS st1 + zi * sigScalar e) mod fnOrder C\<rparr>"
  have len: "length (bt_points st1) = length (bt_scalars st1)" using st1(2) by (simp add: batchInv_def)
  have b: "batchStep C (e, zi) st = Some st'"
    using s st1(1,4) r len by (simp add: batchStep_def Let_def sigScalar_def st'_def k_def x_def nth_append)
  have L: "0 < fnOrder C" "fnOrder C \<le> 2 ^ fnBits C" "128 \<le> fnBits C" using assms(1) by (simp_all add: edwards_def)
  have "(2 :: int) ^ 128 \<le> 2 ^ fnBits C" using L(3) by (rule power_increasing) simp
  then have zi: "zi < 2 ^ fnBits C" using assms(4) by linarith
  have red: "0 \<le> v mod fnOrder C" "v mod fnOrder C < 2 ^ fnBits C" for v
    using L(1,2) pos_mod_bound [OF L(1), of v] by (simp, linarith)
  have "batchInv C st'"
    unfolding batchInv_def st'_def
    using st1(2,4) len zi assms(3) red L(1)
    by (auto simp: batchInv_def nth_append intro: less_SucI dest!: set_update_subset_insert [THEN subsetD])
  moreover have "nmul 8 (batchValue C st') = nmul 8 (batchValue C st) + nmul 8 (nmul (nat zi) (entryEquation C e))"
  proof -
    have x0: "0 \<le> x" "0 \<le> k" "0 \<le> sigScalar e" "0 \<le> bt_sumZS st1"
      using st1(2,4) len L(1) leValue_bounds by (simp_all add: batchInv_def x_def k_def challengeOf_def sigScalar_def)
    have pj: "(bt_points st1 @ [r]) ! j = a" "(bt_scalars st1 @ [zi]) ! j = x"
      using st1(4) len by (simp_all add: nth_append a_def x_def)
    have sum: "scaledSum (bt_points st') (bt_scalars st') =
        scaledSum (bt_points st1) (bt_scalars st1) + nmul (nat zi) r + nmul (nat ((x + zi * k) mod fnOrder C)) a - nmul (nat x) a"
      using st1(4) len pj by (simp add: st'_def scaledSum_update scaledSum_snoc)
    have m1: "nmul 8 (nmul (nat ((x + zi * k) mod fnOrder C)) a) = nmul 8 (nmul (nat x) a) + nmul 8 (nmul (nat zi) (nmul (nat k) a))"
      using clear_mod [OF assms(1), of "x + zi * k" a] x0 assms(3)
      by (simp add: nat_add_distrib nat_mult_distrib nmul_add nmul_mult nmul_plus)
    have m2: "nmul 8 (nmul (nat (bt_sumZS st')) (pBase C)) =
        nmul 8 (nmul (nat (bt_sumZS st1)) (pBase C)) + nmul 8 (nmul (nat zi) (nmul (nat (sigScalar e)) (pBase C)))"
      using clear_mod [OF assms(1), of "bt_sumZS st1 + zi * sigScalar e" "pBase C"] x0 assms(3)
      by (simp add: st'_def nat_add_distrib nat_mult_distrib nmul_add nmul_mult nmul_plus)
    have eq: "entryEquation C e = r + nmul (nat k) a - nmul (nat (sigScalar e)) (pBase C)"
      using r st1(5) by (simp add: entryEquation_def k_def a_def)
    show ?thesis
      unfolding st1(3) [symmetric]
      unfolding batchValue_def sum eq nmul_minus nmul_plus m1 m2 by (simp add: algebra_simps)
  qed
  ultimately show ?thesis using True by (simp add: b)
qed

lemma batchLoop_ok:
  assumes "edwards C" "batchInv C st" "\<forall>(e, z)\<in>set xs. 0 \<le> z \<and> z < 2 ^ 128"
  shows "case batchLoop C xs st of None \<Rightarrow> \<not> list_all (\<lambda>(e, z). entryForm C e) xs
    | Some st' \<Rightarrow> list_all (\<lambda>(e, z). entryForm C e) xs \<and> batchInv C st' \<and>
        nmul 8 (batchValue C st') = nmul 8 (batchValue C st) + nmul 8 (\<Sum>(e, z)\<leftarrow>xs. nmul (nat z) (entryEquation C e))"
  using assms(2,3)
proof (induction xs arbitrary: st)
  case (Cons y xs)
  obtain e z where y: "y = (e, z)" by fastforce
  note one = batchStep_ok [OF assms(1) Cons.prems(1), of z e]
  show ?case
  proof (cases "batchStep C (e, z) st")
    case None
    then show ?thesis using one Cons.prems(2) by (simp add: y)
  next
    case (Some st1)
    then have s: "entryForm C e" "batchInv C st1"
        "nmul 8 (batchValue C st1) = nmul 8 (batchValue C st) + nmul 8 (nmul (nat z) (entryEquation C e))"
      using one Cons.prems(2) by (simp_all add: y)
    show ?thesis
      using Cons.IH [OF s(2)] Cons.prems(2) s(1,3) Some by (auto simp: y nmul_plus algebra_simps split: option.splits)
  qed
qed simp

lemma batch_many:
  assumes "2 \<le> length es"
  shows "verifyEd25519Batch lib C es = (list_all hasEntryShape es \<and>
     (case batchLoop C (zip es (coefficientsOf C (transcriptOf C es) (length es)))
         \<lparr>bt_points = [], bt_scalars = [], bt_keySlot = Map.empty, bt_sumZS = 0\<rparr> of
        None \<Rightarrow> False
      | Some st \<Rightarrow> pIs0 C (pClearCofactor C (multiScalarMultiply C (bt_points st @ [pBase C])
          (bt_scalars st @ [(- bt_sumZS st) mod fnOrder C])))))"
proof -
  obtain e f es' where "es = e # f # es'" using assms by (cases es rule: remdups_adj.cases) auto
  then show ?thesis by (auto simp: verifyEd25519Batch_def Let_def split: option.splits)
qed

lemma batch_final:
  fixes C :: "('p::ab_group_add) curve"
  assumes "edwards C" "batchInv C st"
  shows "nmul 8 (scaledSum (bt_points st @ [pBase C]) (bt_scalars st @ [(- bt_sumZS st) mod fnOrder C])) = nmul 8 (batchValue C st)"
proof -
  have L: "0 < fnOrder C" and i: "0 \<le> bt_sumZS st" "length (bt_points st) = length (bt_scalars st)"
    using assms by (simp_all add: edwards_def batchInv_def)
  let ?m = "(- bt_sumZS st) mod fnOrder C"
  have m: "0 \<le> ?m" using L by simp
  have "(?m + bt_sumZS st) mod fnOrder C = 0" by (simp add: mod_add_left_eq)
  then have "nmul 8 (nmul (nat (?m + bt_sumZS st)) (pBase C)) = 0"
    using clear_mod [OF assms(1), of "?m + bt_sumZS st" "pBase C"] m i(1) by simp
  then have "nmul 8 (nmul (nat ?m) (pBase C)) = - nmul 8 (nmul (nat (bt_sumZS st)) (pBase C))"
    using m i(1) by (simp add: nat_add_distrib nmul_add nmul_plus eq_neg_iff_add_eq_0)
  then show ?thesis
    by (simp add: scaledSum_snoc [OF i(2)] batchValue_def nmul_plus nmul_minus)
qed

lemma batch_equation_of:
  fixes C :: "('p::ab_group_add) curve"
  assumes "edwards C" "2 \<le> length es"
  shows "verifyEd25519Batch lib C es \<longleftrightarrow> list_all (\<lambda>e. hasEntryShape e \<and> entryForm C e) es \<and>
     nmul 8 (\<Sum>(e, z)\<leftarrow>zip es (coefficientsOf C (transcriptOf C es) (length es)). nmul (nat z) (entryEquation C e)) = 0"
proof -
  define z where "z = coefficientsOf C (transcriptOf C es) (length es)"
  define st0 :: "'p batchState" where "st0 = \<lparr>bt_points = [], bt_scalars = [], bt_keySlot = Map.empty, bt_sumZS = 0\<rparr>"
  have "batchInv C st0" using assms(1) by (simp add: st0_def batchInv_def edwards_def)
  moreover have "\<forall>(e, z)\<in>set (zip es z). 0 \<le> z \<and> z < 2 ^ 128"
    using coefficients(2) [of C "transcriptOf C es" "length es"] by (fastforce simp: z_def dest: set_zip_rightD)
  ultimately have loop: "case batchLoop C (zip es z) st0 of None \<Rightarrow> \<not> list_all (\<lambda>(e, z). entryForm C e) (zip es z)
    | Some st' \<Rightarrow> list_all (\<lambda>(e, z). entryForm C e) (zip es z) \<and> batchInv C st' \<and>
        nmul 8 (batchValue C st') = nmul 8 (batchValue C st0) + nmul 8 (\<Sum>(e, z)\<leftarrow>zip es z. nmul (nat z) (entryEquation C e))"
    by (rule batchLoop_ok [OF assms(1)])
  have lz: "length z = length es" by (simp add: z_def coefficients)
  then have forms: "list_all (\<lambda>(e, z). entryForm C e) (zip es z) \<longleftrightarrow> list_all (entryForm C) es"
    unfolding list_all_length by simp
  have v0: "batchValue C st0 = 0" by (simp add: st0_def batchValue_def scaledSum_def)
  have fin: "pIs0 C (pClearCofactor C (multiScalarMultiply C (bt_points st @ [pBase C]) (bt_scalars st @ [(- bt_sumZS st) mod fnOrder C])))
      \<longleftrightarrow> nmul 8 (batchValue C st) = 0" if "batchInv C st" for st
  proof -
    have "0 < fnOrder C" "fnOrder C \<le> 2 ^ fnBits C" using assms(1) by (simp_all add: edwards_def)
    then have "0 \<le> (- bt_sumZS st) mod fnOrder C" "(- bt_sumZS st) mod fnOrder C < 2 ^ fnBits C"
      using pos_mod_bound [of "fnOrder C" "- bt_sumZS st"] by (simp, linarith)
    then have "\<forall>s\<in>set (bt_scalars st @ [(- bt_sumZS st) mod fnOrder C]). 0 \<le> s \<and> s < 2 ^ fnBits C"
      using that by (auto simp: batchInv_def)
    then show ?thesis
      using assms(1) batch_final [OF assms(1) that] msm_sum [of C] by (simp add: edwards_def)
  qed
  have both: "list_all (\<lambda>e. hasEntryShape e \<and> entryForm C e) es \<longleftrightarrow> list_all hasEntryShape es \<and> list_all (entryForm C) es"
    by (auto simp: list_all_iff)
  show ?thesis
    unfolding batch_many [OF assms(2)] z_def [symmetric] st0_def [symmetric] both
    using loop fin by (auto simp: forms v0 split: option.splits)
qed

text \<open>C26: The bucket method computes the multi-scalar product.  For scalars of the field's width
  the windowed run, with its buckets, its running sum and its doublings, returns the sum of the
  points each scaled on its own, whatever the number of points and so the window width.\<close>
theorem msm_is_scaled_sum:
  assumes "\<forall>P. pDouble C P = P + P" "list_all (\<lambda>s. 0 \<le> s \<and> s < 2 ^ fnBits C) scalars"
  shows "multiScalarMultiply C points scalars = (\<Sum>(P, s)\<leftarrow>zip points scalars. nmul (nat s) P)"
  using msm_sum [of C scalars points] assms by (simp add: scaledSum_def list_all_iff)

text \<open>C25: What a batch decides.  On two or more entries the batch is true exactly when every entry
  has the shape, a reduced scalar and points that decode (the key not of small order) and the
  cofactored sum of the entries' equations under the coefficients is zero: one point per distinct
  key with its scalars added up, the reductions modulo the group order and the collected base
  scalar change nothing.\<close>
theorem batch_decides_equation:
  fixes C :: "('p::ab_group_add) curve"
  assumes "edwards C" "2 \<le> length es"
  shows "verifyEd25519Batch lib C es \<longleftrightarrow> list_all (\<lambda>e. hasEntryShape e \<and> entryForm C e) es \<and>
     nmul 8 (\<Sum>(e, z)\<leftarrow>zip es (coefficientsOf C (transcriptOf C es) (length es)). nmul (nat z) (entryEquation C e)) = 0"
  by (rule batch_equation_of [OF assms])

text \<open>The library's verdict on one signature: the strict form and the cofactored equation.\<close>
definition singleVerifier :: "libVerify \<Rightarrow> ('p::ab_group_add) curve \<Rightarrow> bool" where
  "singleVerifier lib C \<longleftrightarrow> (\<forall>e. hasEntryShape e \<longrightarrow>
     (lib (be_signature e) (be_message e) (be_publicKey e) = Inr True \<longleftrightarrow> entryForm C e \<and> nmul 8 (entryEquation C e) = 0))"

lemma single_accepts:
  "verifyEd25519 lib s m k \<Longrightarrow> length s = 64 \<and> length k = 32 \<and> lib s m k = Inr True"
  by (auto simp: verifyEd25519_def split: sum.splits if_splits)

text \<open>C24: No valid signature is lost in a batch.  When every entry would pass the single check, the
  batch passes, for every batch length: the empty batch, the batch of one that is the single check
  itself, and the equation of a larger one, whatever coefficients the transcript yields.\<close>
theorem valid_batch_accepted:
  fixes C :: "('p::ab_group_add) curve"
  assumes "edwards C" "singleVerifier lib C"
    "list_all (\<lambda>e. verifyEd25519 lib (be_signature e) (be_message e) (be_publicKey e)) es"
  shows "verifyEd25519Batch lib C es"
proof -
  have one: "hasEntryShape e \<and> entryForm C e \<and> nmul 8 (entryEquation C e) = 0" if "e \<in> set es" for e
  proof -
    have a: "length (be_signature e) = 64 \<and> length (be_publicKey e) = 32 \<and>
        lib (be_signature e) (be_message e) (be_publicKey e) = Inr True"
      by (rule single_accepts) (use assms(3) that in \<open>simp add: list_all_iff\<close>)
    then have "hasEntryShape e" by (simp add: hasEntryShape_def)
    then show ?thesis using a assms(2) unfolding singleVerifier_def by blast
  qed
  consider "es = []" | e where "es = [e]" | "2 \<le> length es" by (cases es rule: remdups_adj.cases) auto
  then show ?thesis
  proof cases
    case 3
    define z where "z = coefficientsOf C (transcriptOf C es) (length es)"
    have "nmul 8 (nmul (nat w) (entryEquation C e)) = 0" if "(e, w) \<in> set (zip es z)" for e w
      using one [of e] that by (auto simp: nmul_commute [of 8] dest: set_zip_leftD)
    then have "(\<Sum>x\<leftarrow>zip es z. nmul 8 (nmul (nat (snd x)) (entryEquation C (fst x)))) = (\<Sum>x\<leftarrow>zip es z. 0)"
      by (intro arg_cong [where f = sum_list] map_cong refl) auto
    then show ?thesis
      unfolding batch_equation_of [OF assms(1) 3] z_def [symmetric] nmul_sum_list map_map
      using one by (auto simp: comp_def case_prod_unfold list_all_iff)
  qed (use assms(3) in \<open>simp_all add: verifyEd25519Batch_def\<close>)
qed

section \<open>The transcript\<close>

lemma leValue_LE32:
  assumes "0 \<le> v" "v < 2 ^ 32"
  shows "leValue (writeLE32 v) = v"
proof -
  have b: "v AND 0xff = v mod 256" for v :: int
    using take_bit_eq_mask [of 8 v] by (simp add: take_bit_eq_mod mask_eq_exp_minus_1)
  have u: "uint (word_of_int (v mod 256) :: byte) = v mod 256" for v by (simp add: uint_word_of_int)
  have "leValue (writeLE32 v) = v mod 256 + 256 * (v div 256 mod 256 + 256 * (v div 65536 mod 256 + 256 * (v div 16777216 mod 256)))"
    by (simp add: writeLE32_def b u drop_bit_eq_div)
  also have "\<dots> = v"
  proof -
    have n: "v div 65536 = v div 256 div 256" "v div 16777216 = v div 256 div 256 div 256"
      by (simp_all add: zdiv_zmult2_eq [symmetric])
    define a b c where ab: "a = v div 256" "b = a div 256" "c = b div 256"
    have r: "v = a * 256 + v mod 256" "a = b * 256 + a mod 256" "b = c * 256 + b mod 256"
      by (simp_all add: ab)
    have m: "0 \<le> v mod 256" "0 \<le> a mod 256" "0 \<le> b mod 256" by simp_all
    have "0 \<le> c" using assms(1) by (simp add: ab pos_imp_zdiv_nonneg_iff)
    moreover have "c < 256"
    proof -
      have "v < 4294967296" using assms(2) by simp
      then show ?thesis using r m by linarith
    qed
    ultimately have "c mod 256 = c" by simp
    then show ?thesis unfolding n ab by (simp only: mod_mult_div_eq)
  qed
  finally show ?thesis .
qed

lemma LE32_inject: "0 \<le> v \<Longrightarrow> v < 2 ^ 32 \<Longrightarrow> 0 \<le> w \<Longrightarrow> w < 2 ^ 32 \<Longrightarrow> writeLE32 v = writeLE32 w \<Longrightarrow> v = w"
  by (metis leValue_LE32)

lemma LE_length [simp]: "length (writeLE32 v) = 4" "length (writeLE64 v) = 8"
  by (simp_all add: writeLE32_def writeLE64_def)

lemma LE64_inject:
  assumes "0 \<le> v" "v < 2 ^ 64" "0 \<le> w" "w < 2 ^ 64" "writeLE64 v = writeLE64 w"
  shows "v = w"
proof -
  have d: "v div 2 ^ 32 < 2 ^ 32" "w div 2 ^ 32 < 2 ^ 32" "0 \<le> v div 2 ^ 32" "0 \<le> w div 2 ^ 32"
  proof -
    have e: "(2 :: int) ^ 32 = 4294967296" "(2 :: int) ^ 64 = 18446744073709551616" by simp_all
    show "v div 2 ^ 32 < 2 ^ 32" "w div 2 ^ 32 < 2 ^ 32" "0 \<le> v div 2 ^ 32" "0 \<le> w div 2 ^ 32"
      using assms(1-4) div_mult_mod_eq [of v "2 ^ 32"] div_mult_mod_eq [of w "2 ^ 32"]
        pos_mod_sign [of "2 ^ 32" v] pos_mod_sign [of "2 ^ 32" w]
      unfolding e by (linarith, linarith, simp_all add: pos_imp_zdiv_nonneg_iff)
  qed
  have "writeLE32 (v mod 2 ^ 32) = writeLE32 (w mod 2 ^ 32)" "writeLE32 (v div 2 ^ 32) = writeLE32 (w div 2 ^ 32)"
    using assms(5) by (simp_all add: writeLE64_def)
  moreover have "0 \<le> u mod 2 ^ 32" "u mod 2 ^ 32 < 2 ^ 32" for u :: int by simp_all
  ultimately have "v mod 2 ^ 32 = w mod 2 ^ 32" "v div 2 ^ 32 = w div 2 ^ 32"
    using LE32_inject d by blast+
  then show ?thesis by (metis div_mult_mod_eq)
qed

definition entryBounded :: "batchEntry \<Rightarrow> bool" where
  "entryBounded e \<longleftrightarrow> hasEntryShape e \<and> int (length (be_message e)) < 2 ^ 64"

lemma entryBytes_inject:
  assumes "entryBounded e" "entryBounded f" "entryBytes e @ x = entryBytes f @ y"
  shows "e = f \<and> x = y"
proof -
  have l: "length (be_signature e) = 64" "length (be_signature f) = 64" "length (be_publicKey e) = 32" "length (be_publicKey f) = 32"
    using assms by (simp_all add: entryBounded_def hasEntryShape_def)
  have a: "be_signature e = be_signature f" "be_publicKey e = be_publicKey f"
      "writeLE64 (int (length (be_message e))) = writeLE64 (int (length (be_message f)))"
      "be_message e @ x = be_message f @ y"
    using assms(3) l by (simp_all add: entryBytes_def append_eq_append_conv)
  have "length (be_message e) = length (be_message f)"
    using LE64_inject [OF _ _ _ _ a(3)] assms(1,2) by (simp add: entryBounded_def)
  then show ?thesis using a by (cases e; cases f) simp
qed

text \<open>The transcript commits to the batch.  Two batches of well-formed entries with one transcript
  preimage are the same list of signatures, keys and messages in the same order, so no entry can
  be moved across a boundary without changing what the coefficients are derived from; and every
  coefficient is a positive number below \<open>2 ^ 128\<close>.\<close>
theorem transcript_binds_batch:
  assumes "list_all entryBounded es" "list_all entryBounded fs" "int (length es) < 2 ^ 32" "int (length fs) < 2 ^ 32"
  shows "(transcriptPreimage es = transcriptPreimage fs \<longleftrightarrow> es = fs) \<and>
    length (coefficientsOf C t n) = n \<and> list_all (\<lambda>z. 0 < z \<and> z < 2 ^ 128) (coefficientsOf C t n)"
proof -
  have c: "es = fs" if "length es = length fs" "concat (map entryBytes es) = concat (map entryBytes fs)"
    using that assms(1,2)
  proof (induction es fs rule: list_induct2)
    case (Cons e es f fs)
    then show ?case using entryBytes_inject [of e f "concat (map entryBytes es)" "concat (map entryBytes fs)"] by auto
  qed simp
  have "es = fs" if "transcriptPreimage es = transcriptPreimage fs"
  proof -
    have "writeLE32 (int (length es)) = writeLE32 (int (length fs))" "concat (map entryBytes es) = concat (map entryBytes fs)"
      using that by (simp_all add: transcriptPreimage_def append_eq_append_conv)
    moreover from this(1) have "int (length es) = int (length fs)" by (rule LE32_inject [rotated 4]) (use assms(3,4) in simp_all)
    ultimately show ?thesis using c by simp
  qed
  then show ?thesis using coefficients [where C = C and t = t and n = n] by (auto simp: list_all_iff)
qed

section \<open>A small group\<close>

text \<open>Bytes under addition, of order \<open>256 = 8 * 32\<close>, with a toy digest.\<close>
definition toyCurve :: "8 word curve" where
  "toyCurve = \<lparr>pDouble = (\<lambda>P. P + P), pClearCofactor = nmul 8, pIs0 = (\<lambda>P. P = 0),
     pIsSmallOrder = (\<lambda>P. nmul 8 P = 0), pFromBytes = (\<lambda>bs. if length bs = 32 then Some (hd bs) else None),
     pBase = 1, fnOrder = 32, fnBits = 128, sha512 = (\<lambda>bs. replicate 64 (fold (+) bs 0))\<rparr>"

definition toyEntry :: "byte \<Rightarrow> byte \<Rightarrow> byte list \<Rightarrow> byte \<Rightarrow> batchEntry" where
  "toyEntry a r m s = \<lparr>be_signature = (r # replicate 31 0) @ (s # replicate 31 0), be_message = m, be_publicKey = a # replicate 31 0\<rparr>"

definition toyLib :: libVerify where
  "toyLib sig m pk = (let e = \<lparr>be_signature = sig, be_message = m, be_publicKey = pk\<rparr> in
     Inr (entryForm toyCurve e \<and> nmul 8 (entryEquation toyCurve e) = 0))"

text \<open>Three entries, two under one key.\<close>
definition toyEntries :: "batchEntry list" where
  "toyEntries = [toyEntry 3 5 [2] 3, toyEntry 3 7 [4] 17, toyEntry 9 1 [] 27]"

lemma nmul_word: "nmul n (P :: 8 word) = of_nat n * P"
  by (induction n) (simp_all add: algebra_simps)

lemma toy_edwards: "edwards toyCurve"
proof -
  have e: "(256 :: 8 word) = 0" by code_simp
  have "256 * P = 0" for P :: "8 word" by (simp only: e mult_zero_left)
  then show ?thesis by (simp add: edwards_def toyCurve_def nmul_word)
qed

lemma toy_single: "singleVerifier toyLib toyCurve"
proof -
  have e: "\<lparr>be_signature = be_signature e, be_message = be_message e, be_publicKey = be_publicKey e\<rparr> = e" for e :: batchEntry
    by (cases e) simp
  show ?thesis by (simp add: singleVerifier_def toyLib_def Let_def e)
qed

lemma toy_entries_pass:
  "list_all (\<lambda>e. verifyEd25519 toyLib (be_signature e) (be_message e) (be_publicKey e)) toyEntries"
  by code_simp

lemma valid_batch_accepted_witness: "verifyEd25519Batch toyLib toyCurve toyEntries"
  by (rule valid_batch_accepted [OF toy_edwards toy_single toy_entries_pass])

lemma msm_is_scaled_sum_witness: "multiScalarMultiply toyCurve [3, 5] [7, 100] = 9"
  using msm_is_scaled_sum [of toyCurve "[7, 100]" "[3, 5]"] by (simp add: toyCurve_def nmul_word)

lemma batch_decides_equation_witness:
  "\<not> verifyEd25519Batch toyLib toyCurve [toyEntry 3 5 [2] 3, toyEntry 3 7 [4] 49]"
proof -
  have "\<not> entryForm toyCurve (toyEntry 3 7 [4] 49)" by code_simp
  then show ?thesis
    using batch_decides_equation [OF toy_edwards, of "[toyEntry 3 5 [2] 3, toyEntry 3 7 [4] 49]" toyLib] by simp
qed

lemma transcript_binds_batch_witness:
  "transcriptPreimage [toyEntry 3 5 [2] 3] \<noteq> transcriptPreimage [toyEntry 3 5 [2, 0] 3]"
  using transcript_binds_batch [of "[toyEntry 3 5 [2] 3]" "[toyEntry 3 5 [2, 0] 3]" toyCurve "[]" 0]
  by (simp add: entryBounded_def hasEntryShape_def toyEntry_def)

end
