(* ===== verification/TreeRecords.thy ===== *)
theory TreeRecords
  imports Overlay
begin

text \<open>
  The values of the authenticated tree (\<open>packages/types/src/tree-records.ts\<close>): one
  positional codec per kind of row, each opening with its own tag byte, and the
  decoder from a box's record bytes.
\<close>

section \<open>The record codecs\<close>

definition NETWORK_RECORD_TAG :: int where "NETWORK_RECORD_TAG = 0x81"
definition NAME_RECORD_TAG :: int where "NAME_RECORD_TAG = 0x82"
definition HOLDER_RECORD_TAG :: int where "HOLDER_RECORD_TAG = 0x83"
definition POST_RECORD_TAG :: int where "POST_RECORD_TAG = 0x84"
definition LIKE_MARKER_TAG :: int where "LIKE_MARKER_TAG = 0x85"
definition INDEX_MARKER_TAG :: int where "INDEX_MARKER_TAG = 0x86"
definition VOUCH_PAIR_TAG :: int where "VOUCH_PAIR_TAG = 0x87"
definition CAST_COUNT_TAG :: int where "CAST_COUNT_TAG = 0x88"

text \<open>A tag byte, then the fields; the reader refuses another tag.\<close>
definition tagged :: "int \<Rightarrow> ('a \<Rightarrow> byte list res) \<Rightarrow> 'a rd \<Rightarrow> 'a structCodec" where
  "tagged tag w r = \<lparr>c_write = (\<lambda>v. wcat [writeU8OrThrow tag, w v]),
     c_read = rbind readU8 (\<lambda>t. if t \<noteq> tag then rfail (ReaderErr InvalidTag) else r)\<rparr>"

definition NETWORK_RECORD :: "networkRecord structCodec" where
  "NETWORK_RECORD = tagged NETWORK_RECORD_TAG (\<lambda>n. writeVlqU (memberCount n))
     (rbind readVlqU (\<lambda>c. rret \<lparr>memberCount = c\<rparr>))"

definition networkRecordBytes :: "networkRecord \<Rightarrow> byte list res" where
  "networkRecordBytes n = encodeStruct NETWORK_RECORD n"

definition networkRecordFromBytes :: "byte list \<Rightarrow> networkRecord res" where
  "networkRecordFromBytes bytes = decodeStruct NETWORK_RECORD bytes"

record nameRecord =
  nr_boxId :: string
  nr_claimedAtBlock :: int

definition NAME_RECORD :: "nameRecord structCodec" where
  "NAME_RECORD = tagged NAME_RECORD_TAG
     (\<lambda>n. wcat [writeHexNOrThrow (nr_boxId n) 32, writeVlqU (nr_claimedAtBlock n)])
     (rbind (readHexN 32) (\<lambda>b. rbind readVlqU (\<lambda>c. rret \<lparr>nr_boxId = b, nr_claimedAtBlock = c\<rparr>)))"

definition nameRecordBytes :: "nameRecord \<Rightarrow> byte list res" where
  "nameRecordBytes n = encodeStruct NAME_RECORD n"

definition nameRecordFromBytes :: "byte list \<Rightarrow> nameRecord res" where
  "nameRecordFromBytes bytes = decodeStruct NAME_RECORD bytes"

text \<open>The holder's row of the tree: the box is absent where no name is held.\<close>
record holderRow =
  hr_claimAvailable :: bool
  hr_boxId :: "string option"

definition HOLDER_RECORD :: "holderRow structCodec" where
  "HOLDER_RECORD = tagged HOLDER_RECORD_TAG
     (\<lambda>h. wcat [writeU8OrThrow (if hr_claimAvailable h then 1 else 0), writeOpt (hr_boxId h) (\<lambda>b. writeHexNOrThrow b 32)])
     (rbind readU8 (\<lambda>c. rbind (readOpt (readHexN 32)) (\<lambda>b. rret \<lparr>hr_claimAvailable = (c \<noteq> 0), hr_boxId = b\<rparr>)))"

definition holderRecordBytes :: "holderRow \<Rightarrow> byte list res" where
  "holderRecordBytes h = encodeStruct HOLDER_RECORD h"

definition holderRecordFromBytes :: "byte list \<Rightarrow> holderRow res" where
  "holderRecordFromBytes bytes = decodeStruct HOLDER_RECORD bytes"

datatype rowStanding = RowLive | RowWithdrawn

record postRecord =
  pr_author :: "byte list"
  pr_height :: int
  pr_standing :: rowStanding

definition POST_RECORD :: "postRecord structCodec" where
  "POST_RECORD = tagged POST_RECORD_TAG
     (\<lambda>p. wcat [writeBytesNOrThrow (pr_author p) 32, writeVlqU (pr_height p),
        writeU8OrThrow (if pr_standing p = RowWithdrawn then 1 else 0)])
     (rbind (readBytesN 32) (\<lambda>a. rbind readVlqU (\<lambda>ht. rbind readU8 (\<lambda>s.
        if s = 0 then rret \<lparr>pr_author = a, pr_height = ht, pr_standing = RowLive\<rparr>
        else if s = 1 then rret \<lparr>pr_author = a, pr_height = ht, pr_standing = RowWithdrawn\<rparr>
        else rfail (ReaderErr OutOfDomain)))))"

definition postRecordBytes :: "postRecord \<Rightarrow> byte list res" where
  "postRecordBytes p = encodeStruct POST_RECORD p"

definition postRecordFromBytes :: "byte list \<Rightarrow> postRecord res" where
  "postRecordFromBytes bytes = decodeStruct POST_RECORD bytes"

definition LIKE_MARKER :: "byte list" where "LIKE_MARKER = [word_of_int LIKE_MARKER_TAG]"
definition INDEX_MARKER :: "byte list" where "INDEX_MARKER = [word_of_int INDEX_MARKER_TAG]"

definition VOUCH_PAIR_VALUE :: "byte list structCodec" where
  "VOUCH_PAIR_VALUE = tagged VOUCH_PAIR_TAG (\<lambda>b. writeBytesNOrThrow b 32) (readBytesN 32)"

definition vouchPairValue :: "byte list \<Rightarrow> byte list res" where
  "vouchPairValue i = encodeStruct VOUCH_PAIR_VALUE i"

definition vouchPairBoxId :: "byte list \<Rightarrow> byte list res" where
  "vouchPairBoxId v = decodeStruct VOUCH_PAIR_VALUE v"

text \<open>The writer refuses a count that is not positive before it writes a byte.\<close>
definition CAST_COUNT :: "int structCodec" where
  "CAST_COUNT = (let t = tagged CAST_COUNT_TAG writeVlqU (rbind readVlqU (\<lambda>c.
       if c = 0 then rfail (ReaderErr OutOfDomain) else rret c)) in
     \<lparr>c_write = (\<lambda>c. if \<not> isSafeInteger c \<or> c \<le> 0 then Inl OtherErr else c_write t c), c_read = c_read t\<rparr>)"

definition castCountBytes :: "int \<Rightarrow> byte list res" where
  "castCountBytes c = encodeStruct CAST_COUNT c"

definition castCountFromBytes :: "byte list \<Rightarrow> int res" where
  "castCountFromBytes bytes = decodeStruct CAST_COUNT bytes"

section \<open>The box decoder\<close>

definition boxFromRecordBytes :: "string \<Rightarrow> byte list \<Rightarrow> anyBox res" where
  "boxFromRecordBytes i bytes =
     (if bytes \<noteq> [] \<and> uint (hd bytes) \<ge> IDENTITY_RECORD_TAG \<and> uint (hd bytes) \<le> CAST_COUNT_TAG then Inl OtherErr
      else ebind (boxRecordFromBytes bytes) (\<lambda>r. Inr
        \<lparr>boxValue = boxValue (rec_candidate r), createdAtBlock = createdAtBlock (rec_candidate r),
         boxTail = boxTail (rec_candidate r), boxId = i, boxTxId = rec_txId r, boxIndex = rec_index r\<rparr>))"

section \<open>Round trips\<close>

lemma tagged_write: "c_write (tagged tag w r) v = Inr bs \<longleftrightarrow>
    0 \<le> tag \<and> tag \<le> 255 \<and> (\<exists>cs. w v = Inr cs \<and> bs = word_of_int tag # cs)"
  by (auto simp: tagged_def bind_iff)

lemma tagged_exact:
  assumes "\<And>cs. w v = Inr cs \<Longrightarrow> parses r cs v" "c_write (tagged tag w r) v = Inr bs"
  shows "parses (c_read (tagged tag w r)) bs v"
proof -
  obtain cs where c: "0 \<le> tag" "tag \<le> 255" "w v = Inr cs" "bs = [word_of_int tag] @ cs"
    using assms(2) by (auto simp: tagged_write)
  have p: "parses readU8 [word_of_int tag] tag" by (rule parses_writeU8) (use c in \<open>simp add: writeU8_eq\<close>)
  show ?thesis unfolding c(4) tagged_def structCodec.simps
    by (rule parses_rbind [OF p]) (simp add: assms(1) [OF c(3)])
qed

interpretation network_record: struct_codec NETWORK_RECORD "\<lambda>n. isEncodableVlqU (memberCount n)"
proof unfold_locales
  fix v bs assume d: "isEncodableVlqU (memberCount v)" "c_write NETWORK_RECORD v = Inr bs"
  show "parses (c_read NETWORK_RECORD) bs v"
    unfolding NETWORK_RECORD_def
  proof (rule tagged_exact)
    fix cs assume "writeVlqU (memberCount v) = Inr cs"
    then have "parses (rbind readVlqU (\<lambda>c. rret \<lparr>memberCount = c\<rparr>)) (cs @ []) \<lparr>memberCount = memberCount v\<rparr>"
      by (rule parses_rbind [OF parses_writeVlqU [OF _ d(1)]]) (rule parses_rret)
    then show "parses (rbind readVlqU (\<lambda>c. rret \<lparr>memberCount = c\<rparr>)) cs v" by (cases v) simp
  qed (use d in \<open>simp add: NETWORK_RECORD_def\<close>)
qed

interpretation name_record: struct_codec NAME_RECORD "\<lambda>n. isEncodableVlqU (nr_claimedAtBlock n)"
proof unfold_locales
  fix v bs assume d: "isEncodableVlqU (nr_claimedAtBlock v)" "c_write NAME_RECORD v = Inr bs"
  show "parses (c_read NAME_RECORD) bs v"
    unfolding NAME_RECORD_def
  proof (rule tagged_exact)
    fix cs assume "wcat [writeHexNOrThrow (nr_boxId v) 32, writeVlqU (nr_claimedAtBlock v)] = Inr cs"
    then obtain a b where c: "writeHexNOrThrow (nr_boxId v) 32 = Inr a" "writeVlqU (nr_claimedAtBlock v) = Inr b" "cs = a @ b @ []"
      by (auto simp: wcat_Cons_eq wcat_Nil_eq simp del: wcat.simps)
    have "parses (rbind (readHexN 32) (\<lambda>b. rbind readVlqU (\<lambda>c. rret \<lparr>nr_boxId = b, nr_claimedAtBlock = c\<rparr>))) cs
        \<lparr>nr_boxId = nr_boxId v, nr_claimedAtBlock = nr_claimedAtBlock v\<rparr>"
      unfolding c(3) by (rule parses_rbind [OF parses_writeHexN [OF c(1)]], rule parses_rbind [OF parses_writeVlqU [OF c(2) d(1)]], rule parses_rret)
    then show "parses (rbind (readHexN 32) (\<lambda>b. rbind readVlqU (\<lambda>c. rret \<lparr>nr_boxId = b, nr_claimedAtBlock = c\<rparr>))) cs v" by (cases v) simp
  qed (use d in \<open>simp add: NAME_RECORD_def\<close>)
qed

interpretation holder_record: struct_codec HOLDER_RECORD "\<lambda>h. True"
proof unfold_locales
  fix v bs assume d: "c_write HOLDER_RECORD v = Inr bs"
  let ?r = "rbind readU8 (\<lambda>c. rbind (readOpt (readHexN 32)) (\<lambda>b. rret \<lparr>hr_claimAvailable = (c \<noteq> 0), hr_boxId = b\<rparr>))"
  show "parses (c_read HOLDER_RECORD) bs v"
    unfolding HOLDER_RECORD_def
  proof (rule tagged_exact)
    fix cs assume "wcat [writeU8OrThrow (if hr_claimAvailable v then 1 else 0), writeOpt (hr_boxId v) (\<lambda>b. writeHexNOrThrow b 32)] = Inr cs"
    then obtain a b where c: "writeU8OrThrow (if hr_claimAvailable v then 1 else 0) = Inr a"
        "writeOpt (hr_boxId v) (\<lambda>b. writeHexNOrThrow b 32) = Inr b" "cs = a @ b @ []"
      by (auto simp: wcat_Cons_eq wcat_Nil_eq simp del: wcat.simps)
    have o: "parses (readOpt (readHexN 32)) b (hr_boxId v)"
      by (rule parses_writeOpt [OF c(2)]) (rule parses_writeHexN)
    have "parses ?r cs \<lparr>hr_claimAvailable = ((if hr_claimAvailable v then 1 else 0) \<noteq> (0 :: int)), hr_boxId = hr_boxId v\<rparr>"
      unfolding c(3) by (rule parses_rbind [OF parses_writeU8 [OF c(1)]], rule parses_rbind [OF o], rule parses_rret)
    then show "parses ?r cs v" by (cases v) (auto split: if_splits)
  qed (use d in \<open>simp add: HOLDER_RECORD_def\<close>)
qed

interpretation post_record: struct_codec POST_RECORD "\<lambda>p. isEncodableVlqU (pr_height p)"
proof unfold_locales
  fix v bs assume d: "isEncodableVlqU (pr_height v)" "c_write POST_RECORD v = Inr bs"
  let ?r = "rbind (readBytesN 32) (\<lambda>a. rbind readVlqU (\<lambda>ht. rbind readU8 (\<lambda>s.
        if s = 0 then rret \<lparr>pr_author = a, pr_height = ht, pr_standing = RowLive\<rparr>
        else if s = 1 then rret \<lparr>pr_author = a, pr_height = ht, pr_standing = RowWithdrawn\<rparr>
        else rfail (ReaderErr OutOfDomain))))"
  show "parses (c_read POST_RECORD) bs v"
    unfolding POST_RECORD_def
  proof (rule tagged_exact)
    fix cs assume "wcat [writeBytesNOrThrow (pr_author v) 32, writeVlqU (pr_height v),
        writeU8OrThrow (if pr_standing v = RowWithdrawn then 1 else 0)] = Inr cs"
    then obtain a b e where c: "writeBytesNOrThrow (pr_author v) 32 = Inr a" "writeVlqU (pr_height v) = Inr b"
        "writeU8OrThrow (if pr_standing v = RowWithdrawn then 1 else 0) = Inr e" "cs = a @ b @ e @ []"
      by (auto simp: wcat_Cons_eq wcat_Nil_eq simp del: wcat.simps)
    have pa: "parses (readBytesN 32) a (pr_author v)" using parses_writeBytesN [OF c(1)] by simp
    have pd: "parses (if (if pr_standing v = RowWithdrawn then 1 else 0) = (0 :: int)
        then rret \<lparr>pr_author = pr_author v, pr_height = pr_height v, pr_standing = RowLive\<rparr>
        else if (if pr_standing v = RowWithdrawn then 1 else 0) = (1 :: int)
        then rret \<lparr>pr_author = pr_author v, pr_height = pr_height v, pr_standing = RowWithdrawn\<rparr>
        else rfail (ReaderErr OutOfDomain)) [] v"
      using parses_rret [of v] by (cases v; cases "pr_standing v") simp_all
    show "parses ?r cs v"
      unfolding c(4) by (rule parses_rbind [OF pa], rule parses_rbind [OF parses_writeVlqU [OF c(2) d(1)]],
        rule parses_rbind [OF parses_writeU8 [OF c(3)]], rule pd)
  qed (use d in \<open>simp add: POST_RECORD_def\<close>)
qed

interpretation vouch_pair: struct_codec VOUCH_PAIR_VALUE "\<lambda>b. True"
proof unfold_locales
  fix v bs assume d: "c_write VOUCH_PAIR_VALUE v = Inr bs"
  show "parses (c_read VOUCH_PAIR_VALUE) bs v"
    unfolding VOUCH_PAIR_VALUE_def
    by (rule tagged_exact) (use d parses_writeBytesN [of v 32] in \<open>auto simp: VOUCH_PAIR_VALUE_def\<close>)
qed

interpretation cast_count: struct_codec CAST_COUNT "\<lambda>c. True"
proof unfold_locales
  fix v bs assume d: "c_write CAST_COUNT v = Inr bs"
  let ?r = "rbind readVlqU (\<lambda>c. if c = 0 then rfail (ReaderErr OutOfDomain) else rret c)"
  have v: "isSafeInteger v" "0 < v" and w: "c_write (tagged CAST_COUNT_TAG writeVlqU ?r) v = Inr bs"
    using d by (auto simp: CAST_COUNT_def Let_def split: if_splits)
  have "parses (c_read (tagged CAST_COUNT_TAG writeVlqU ?r)) bs v"
  proof (rule tagged_exact [OF _ w])
    fix cs assume c: "writeVlqU v = Inr cs"
    have "parses ?r (cs @ []) v"
      by (rule parses_rbind [OF parses_writeVlqU [OF c]]) (use v parses_rret [of v] in \<open>simp_all add: isEncodableVlqU_def\<close>)
    then show "parses ?r cs v" by simp
  qed
  then show "parses (c_read CAST_COUNT) bs v" by (simp add: CAST_COUNT_def Let_def)
qed

end
