(* ===== verification/TreeKeys.thy ===== *)
theory TreeKeys
  imports TreeRecords "HOL-Library.List_Lexorder"
begin

text \<open>
  The keys of the authenticated tree (\<open>packages/types/src/tree-keys.ts\<close>), the index
  entries a box places beside its own key (\<open>packages/consensus/src/tree-index.ts\<close>) and
  the order of keys (\<open>packages/consensus/src/tree-session.ts\<close>).
\<close>

section \<open>Keys\<close>

definition TREE_KEY_LENGTH :: nat where "TREE_KEY_LENGTH = 65"

datatype treeTag = TT_box | TT_identity | TT_network | TT_name | TT_holder | TT_post | TT_like | TT_karmaOf
  | TT_creditOf | TT_escrowOf | TT_escrowDue | TT_bondDue | TT_vouchPair | TT_lapsed | TT_accrualOf | TT_type | TT_castCount

fun TREE_TAG :: "treeTag \<Rightarrow> byte" where
  "TREE_TAG TT_box = 0x01"
| "TREE_TAG TT_identity = 0x02"
| "TREE_TAG TT_network = 0x03"
| "TREE_TAG TT_name = 0x04"
| "TREE_TAG TT_holder = 0x05"
| "TREE_TAG TT_post = 0x06"
| "TREE_TAG TT_like = 0x07"
| "TREE_TAG TT_karmaOf = 0x10"
| "TREE_TAG TT_creditOf = 0x11"
| "TREE_TAG TT_escrowOf = 0x12"
| "TREE_TAG TT_escrowDue = 0x13"
| "TREE_TAG TT_bondDue = 0x14"
| "TREE_TAG TT_vouchPair = 0x15"
| "TREE_TAG TT_lapsed = 0x16"
| "TREE_TAG TT_accrualOf = 0x17"
| "TREE_TAG TT_type = 0x18"
| "TREE_TAG TT_castCount = 0x19"

definition b32 :: "byte list \<Rightarrow> byte list res" where
  "b32 bytes = (if length bytes \<noteq> 32 then Inl OtherErr else Inr bytes)"

text \<open>\<open>setBigUint64(0, n, false)\<close>: eight bytes, big endian.\<close>
definition u64be :: "int \<Rightarrow> byte list res" where
  "u64be n = (if \<not> isSafeInteger n \<or> n < 0 then Inl OtherErr
     else Inr (map (\<lambda>i. word_of_int (drop_bit (8 * i) n)) [7, 6, 5, 4, 3, 2, 1, 0]))"

definition treeKey :: "treeTag \<Rightarrow> byte list list \<Rightarrow> byte list res" where
  "treeKey tag parts =
     (let body = TREE_TAG tag # concat parts in
      if length body > TREE_KEY_LENGTH then Inl OtherErr
      else Inr (body @ replicate (TREE_KEY_LENGTH - length body) 0))"

definition treePrefix :: "treeTag \<Rightarrow> byte list list \<Rightarrow> byte list" where
  "treePrefix tag parts = TREE_TAG tag # concat parts"

text \<open>The tag with one 32-byte field, with two, and with a height and a field.\<close>
definition oneKey :: "treeTag \<Rightarrow> byte list \<Rightarrow> byte list res" where
  "oneKey tag a = ebind (b32 a) (\<lambda>a. treeKey tag [a])"

definition twoKey :: "treeTag \<Rightarrow> byte list \<Rightarrow> byte list \<Rightarrow> byte list res" where
  "twoKey tag a b = ebind (b32 a) (\<lambda>a. ebind (b32 b) (\<lambda>b. treeKey tag [a, b]))"

definition dueKey :: "treeTag \<Rightarrow> int \<Rightarrow> byte list \<Rightarrow> byte list res" where
  "dueKey tag h b = ebind (u64be h) (\<lambda>h. ebind (b32 b) (\<lambda>b. treeKey tag [h, b]))"

definition boxKey :: "byte list \<Rightarrow> byte list res" where "boxKey i = oneKey TT_box i"
definition identityKey :: "byte list \<Rightarrow> byte list res" where "identityKey identityId = oneKey TT_identity identityId"
definition networkKey :: "byte list res" where "networkKey = treeKey TT_network []"

definition nameKey :: "byte list \<Rightarrow> byte list res" where
  "nameKey lower =
     (if \<not> isValidUsernameBytes lower then Inl OtherErr
      else if \<not> equalBytes lower (canonicalUsernameBytes lower) then Inl OtherErr
      else treeKey TT_name [lower])"

definition holderKey :: "byte list \<Rightarrow> byte list res" where "holderKey owner = oneKey TT_holder owner"
definition postKey :: "byte list \<Rightarrow> byte list res" where "postKey postId = oneKey TT_post postId"
definition likeEntryKey :: "byte list \<Rightarrow> byte list \<Rightarrow> byte list res" where
  "likeEntryKey postId likerId = twoKey TT_like postId likerId"
definition karmaOfKey :: "byte list \<Rightarrow> byte list \<Rightarrow> byte list res" where
  "karmaOfKey owner i = twoKey TT_karmaOf owner i"
definition creditOfKey :: "byte list \<Rightarrow> byte list \<Rightarrow> byte list res" where
  "creditOfKey owner i = twoKey TT_creditOf owner i"
definition escrowOfKey :: "byte list \<Rightarrow> byte list \<Rightarrow> byte list res" where
  "escrowOfKey owner i = twoKey TT_escrowOf owner i"
definition escrowDueKey :: "int \<Rightarrow> byte list \<Rightarrow> byte list res" where
  "escrowDueKey releaseAtBlock i = dueKey TT_escrowDue releaseAtBlock i"
definition bondDueKey :: "int \<Rightarrow> byte list \<Rightarrow> byte list res" where
  "bondDueKey invitedAt i = dueKey TT_bondDue invitedAt i"
definition vouchPairKey :: "byte list \<Rightarrow> byte list \<Rightarrow> byte list res" where
  "vouchPairKey voucherId targetId = twoKey TT_vouchPair voucherId targetId"
definition lapsedKey :: "byte list \<Rightarrow> byte list res" where "lapsedKey identityId = oneKey TT_lapsed identityId"
definition accrualOfKey :: "byte list \<Rightarrow> byte list \<Rightarrow> byte list res" where
  "accrualOfKey auth i = twoKey TT_accrualOf auth i"

text \<open>The four box types a type key covers.\<close>
definition typeTagByte :: "boxType \<Rightarrow> byte list res" where
  "typeTagByte t = (if t \<in> {BT_emission, BT_treasury, BT_karma_pool, BT_backer_pool}
     then enum8_write BOX_TYPE_TAGS t else Inl OtherErr)"

definition typeKey :: "boxType \<Rightarrow> byte list \<Rightarrow> byte list res" where
  "typeKey t i = ebind (typeTagByte t) (\<lambda>tb. ebind (b32 i) (\<lambda>b. treeKey TT_type [tb, b]))"

definition castCountKey :: "byte list \<Rightarrow> byte list res" where "castCountKey voucherId = oneKey TT_castCount voucherId"

section \<open>Ranges\<close>

type_synonym treeRange = "byte list"

definition oneRange :: "treeTag \<Rightarrow> byte list \<Rightarrow> treeRange res" where
  "oneRange tag a = ebind (b32 a) (\<lambda>a. Inr (treePrefix tag [a]))"

definition karmaOfRange :: "byte list \<Rightarrow> treeRange res" where "karmaOfRange owner = oneRange TT_karmaOf owner"
definition creditOfRange :: "byte list \<Rightarrow> treeRange res" where "creditOfRange owner = oneRange TT_creditOf owner"
definition escrowOfRange :: "byte list \<Rightarrow> treeRange res" where "escrowOfRange owner = oneRange TT_escrowOf owner"
definition accrualOfRange :: "byte list \<Rightarrow> treeRange res" where "accrualOfRange auth = oneRange TT_accrualOf auth"
definition vouchPairRange :: "byte list \<Rightarrow> treeRange res" where "vouchPairRange voucherId = oneRange TT_vouchPair voucherId"
definition escrowDueRange :: treeRange where "escrowDueRange = treePrefix TT_escrowDue []"
definition bondDueRange :: treeRange where "bondDueRange = treePrefix TT_bondDue []"
definition lapsedRange :: treeRange where "lapsedRange = treePrefix TT_lapsed []"
definition typeRange :: "boxType \<Rightarrow> treeRange res" where
  "typeRange t = ebind (typeTagByte t) (\<lambda>tb. Inr (treePrefix TT_type [tb]))"

text \<open>\<open>out.set(prefix, 0)\<close> on a zeroed key; every prefix is shorter than a key.\<close>
definition rangeStart :: "treeRange \<Rightarrow> byte list" where
  "rangeStart pre = pre @ replicate (TREE_KEY_LENGTH - length pre) 0"

definition inRange :: "byte list \<Rightarrow> treeRange \<Rightarrow> bool" where
  "inRange key pre \<longleftrightarrow> length pre \<le> length key \<and> list_all (\<lambda>i. key ! i = pre ! i) [0..<length pre]"

definition keyHeight :: "byte list \<Rightarrow> int res" where
  "keyHeight key =
     (if length key \<noteq> TREE_KEY_LENGTH then Inl OtherErr
      else let raw = foldl (\<lambda>a b. a * 256 + uint b) 0 (take 8 (drop 1 key)) in
        if raw > MAX_SAFE_INTEGER then Inl OtherErr else Inr raw)"

section \<open>Index entries\<close>

definition marker :: "byte list res \<Rightarrow> (byte list \<times> byte list) res" where
  "marker key = ebind key (\<lambda>k. Inr (k, INDEX_MARKER))"

definition indexEntriesOfBox :: "anyBox \<Rightarrow> int option \<Rightarrow> (byte list \<times> byte list) list res" where
  "indexEntriesOfBox bx grant = ebind (hexToBytes (boxId bx)) (\<lambda>i.
     (case boxTail bx of
        Karma owner _ \<Rightarrow> emap marker [karmaOfKey owner i]
      | Credit owner _ \<Rightarrow> emap marker [creditOfKey owner i]
      | VouchEscrow owner release \<Rightarrow> emap marker [escrowOfKey owner i, escrowDueKey release i]
      | Bond _ _ \<Rightarrow> (case grant of
          None \<Rightarrow> Inl OtherErr
        | Some h \<Rightarrow> if \<not> isSafeInteger h \<or> h < 1 then Inl OtherErr else emap marker [bondDueKey h i])
      | Vouch voucher target \<Rightarrow> ebind (vouchPairKey voucher target) (\<lambda>k. ebind (vouchPairValue i) (\<lambda>v. Inr [(k, v)]))
      | LikeAccrual auth \<Rightarrow> emap marker [accrualOfKey auth i]
      | Emission \<Rightarrow> emap marker [typeKey BT_emission i]
      | Treasury \<Rightarrow> emap marker [typeKey BT_treasury i]
      | KarmaPool \<Rightarrow> emap marker [typeKey BT_karma_pool i]
      | BackerPool _ _ \<Rightarrow> emap marker [typeKey BT_backer_pool i]
      | _ \<Rightarrow> Inr []))"

section \<open>The order of keys\<close>

definition isSentinel :: "byte list \<Rightarrow> bool" where
  "isSentinel key \<longleftrightarrow> list_all (\<lambda>b. b = 0) key \<or> list_all (\<lambda>b. b = 0xff) key"

fun compareBytes :: "byte list \<Rightarrow> byte list \<Rightarrow> int" where
  "compareBytes (a # as) (b # bs) = (if a \<noteq> b then (if a < b then -1 else 1) else compareBytes as bs)"
| "compareBytes as bs = int (length as) - int (length bs)"

lemma Nil_below [simp]: "[] < bs \<longleftrightarrow> bs \<noteq> []" for bs :: "byte list"
  by (cases bs) simp_all

lemma compareBytes_less: "compareBytes a b < 0 \<longleftrightarrow> a < b"
  by (induction a b rule: compareBytes.induct) auto

lemma compareBytes_eq: "compareBytes a b = 0 \<longleftrightarrow> a = b"
  by (induction a b rule: compareBytes.induct) auto

lemma compareBytes_order [simp]:
  "compareBytes a b \<le> 0 \<longleftrightarrow> a \<le> b" "compareBytes a b \<ge> 0 \<longleftrightarrow> b \<le> a" "compareBytes a b > 0 \<longleftrightarrow> b < a"
  using compareBytes_less [of a b] compareBytes_eq [of a b] by (auto simp: order_le_less not_less)

end
