(* ===== verification/TreeKeyLaws.thy ===== *)
theory TreeKeyLaws
  imports TreeKeys
begin

text \<open>
  Every row of the tree has its own key: the derivations are injective together, a due
  key sorts by its height, and a range is a contiguous run of keys.
\<close>

section \<open>Widths\<close>

lemma treeKey_ok:
  "treeKey tag parts = Inr k \<longleftrightarrow> length (concat parts) \<le> 64 \<and>
     k = TREE_TAG tag # concat parts @ replicate (64 - length (concat parts)) 0"
  by (auto simp: treeKey_def TREE_KEY_LENGTH_def Let_def)

lemma b32_ok [simp]: "b32 a = Inr b \<longleftrightarrow> length a = 32 \<and> b = a"
  by (auto simp: b32_def)

lemma oneKey_ok: "oneKey tag a = Inr k \<longleftrightarrow> length a = 32 \<and> k = TREE_TAG tag # a @ replicate 32 0"
  by (auto simp: oneKey_def bind_iff treeKey_ok)

lemma twoKey_ok: "twoKey tag a b = Inr k \<longleftrightarrow> length a = 32 \<and> length b = 32 \<and> k = TREE_TAG tag # a @ b"
  by (auto simp: twoKey_def bind_iff treeKey_ok)

text \<open>A big-endian height.\<close>
definition beNum :: "byte list \<Rightarrow> int" where
  "beNum bs = foldl (\<lambda>a b. a * 256 + uint b) 0 bs"

lemma beNum_fold: "foldl (\<lambda>a b. a * 256 + uint b) n bs = n * 256 ^ length bs + beNum bs"
proof (induction bs arbitrary: n)
  case (Cons b bs)
  show ?case using Cons [of "n * 256 + uint b"] Cons [of "uint b"] by (simp add: beNum_def algebra_simps)
qed (simp add: beNum_def)

lemma beNum_Cons: "beNum (b # bs) = uint b * 256 ^ length bs + beNum bs"
  using beNum_fold [of "uint b" bs] by (simp add: beNum_def)

lemma beNum_bounds: "0 \<le> beNum bs \<and> beNum bs < 256 ^ length bs"
proof (induction bs)
  case (Cons b bs)
  have "uint b + 1 \<le> 256" using uint_bounded [of b] by simp
  then have "(uint b + 1) * 256 ^ length bs \<le> 256 * 256 ^ length bs" by (rule mult_right_mono) simp
  then have "uint b * 256 ^ length bs + 256 ^ length bs \<le> 256 * 256 ^ length bs" by (simp add: algebra_simps)
  moreover have "0 \<le> uint b * 256 ^ length bs" by simp
  ultimately have "0 \<le> uint b * 256 ^ length bs + beNum bs" "uint b * 256 ^ length bs + beNum bs < 256 * 256 ^ length bs"
    using Cons by linarith+
  then show ?case by (simp add: beNum_Cons)
qed (simp add: beNum_def)

lemma beNum_less:
  "length a = length b \<Longrightarrow> a < b \<longleftrightarrow> beNum a < beNum b"
proof (induction a b rule: list_induct2)
  case (Cons x xs y ys)
  let ?n = "256 ^ length xs :: int"
  have b: "0 \<le> beNum xs" "beNum xs < ?n" "0 \<le> beNum ys" "beNum ys < ?n"
    using beNum_bounds [of xs] beNum_bounds [of ys] Cons.hyps by simp_all
  have step: "uint u * ?n + beNum us < uint v * ?n + beNum vs"
    if "u < v" "beNum us < ?n" "0 \<le> beNum vs" for u v :: byte and us vs
  proof -
    have "uint u + 1 \<le> uint v" using that(1) by (simp add: word_less_def)
    then have "(uint u + 1) * ?n \<le> uint v * ?n" by (rule mult_right_mono) simp
    then have "uint u * ?n + ?n \<le> uint v * ?n" by (simp add: algebra_simps)
    then show ?thesis using that(2,3) by linarith
  qed
  consider "x < y" | "y < x" | "x = y" by (rule linorder_cases)
  then show ?case
  proof cases
    case 1
    then show ?thesis using step [of x y xs ys] b Cons.hyps by (simp add: beNum_Cons)
  next
    case 2
    then show ?thesis using step [of y x ys xs] b Cons.hyps by (auto simp: beNum_Cons)
  next
    case 3
    then show ?thesis using Cons by (simp add: beNum_Cons)
  qed
qed (simp add: beNum_def)

lemma beNum_digits: "beNum (map (\<lambda>i. word_of_int (drop_bit (8 * i) n)) (rev [0..<k])) = n mod 256 ^ k"
proof (induction k)
  case (Suc k)
  have e: "(2 :: int) ^ (8 * k) = 256 ^ k" by (simp add: power_mult)
  have "beNum (map (\<lambda>i. word_of_int (drop_bit (8 * i) n)) (rev [0..<Suc k])) = n div 256 ^ k mod 256 * 256 ^ k + n mod 256 ^ k"
    using Suc by (simp add: beNum_Cons uint_word_of_int drop_bit_eq_div e)
  also have "\<dots> = n mod (256 ^ k * 256)" by (simp add: zmod_zmult2_eq)
  finally show ?case by (simp add: mult.commute)
qed (simp add: beNum_def)

lemma u64be_ok:
  assumes "u64be n = Inr bs"
  shows "length bs = 8" "beNum bs = n" "0 \<le> n" "n \<le> MAX_SAFE_INTEGER"
proof -
  have n: "0 \<le> n" "isSafeInteger n" and bs: "bs = map (\<lambda>i. word_of_int (drop_bit (8 * i) n)) [7, 6, 5, 4, 3, 2, 1, 0]"
    using assms by (auto simp: u64be_def split: if_splits)
  then show "length bs = 8" "0 \<le> n" "n \<le> MAX_SAFE_INTEGER" by (auto simp: isSafeInteger_def MAX_SAFE_INTEGER_def)
  have le: "n < 256 ^ 8" using n(2) by (simp add: isSafeInteger_def MAX_SAFE_INTEGER_def)
  have "[7, 6, 5, 4, 3, 2, 1, 0 :: nat] = rev [0..<8]" by code_simp
  then have "beNum bs = n mod 256 ^ 8" unfolding bs by (simp only: beNum_digits)
  then have "beNum bs = n" using n(1) le by simp
  then show "beNum bs = n" .
qed

lemma u64be_inject: "u64be m = Inr a \<Longrightarrow> u64be n = Inr a \<Longrightarrow> m = n"
  by (metis u64be_ok(2))

lemma dueKey_ok:
  "dueKey tag h i = Inr k \<longleftrightarrow> (\<exists>hb. u64be h = Inr hb \<and> length i = 32 \<and> k = TREE_TAG tag # hb @ i @ replicate 24 0)"
  using u64be_ok(1) [of h] by (auto simp: dueKey_def bind_iff treeKey_ok)

lemma typeTagByte_ok:
  "typeTagByte t = Inr tb \<Longrightarrow> length tb = 1"
  "typeTagByte t = Inr tb \<Longrightarrow> typeTagByte u = Inr tb \<Longrightarrow> t = u"
  by (auto simp: typeTagByte_def enum8_write_def BOX_TYPE_TAGS_def writeU8_eq split: if_splits)

lemma typeKey_ok:
  "typeKey t i = Inr k \<longleftrightarrow> (\<exists>tb. typeTagByte t = Inr tb \<and> length i = 32 \<and> k = TREE_TAG TT_type # tb @ i @ replicate 31 0)"
  using typeTagByte_ok(1) [of t] by (auto simp: typeKey_def bind_iff treeKey_ok)

lemma tag_inject: "TREE_TAG a = TREE_TAG b \<Longrightarrow> a = b"
  by (cases a; cases b; simp)

lemma tag_bounds: "TREE_TAG a \<noteq> 0" "TREE_TAG a \<noteq> 0xff"
  by (cases a; simp)+

lemma username_nonzero: "isValidUsernameBytes n \<Longrightarrow> b \<in> set n \<Longrightarrow> b \<noteq> 0"
  by (auto simp: isValidUsernameBytes_def list_all_iff isAlphabetByte_def split: if_splits)

lemma padded_inject:
  fixes a b :: "byte list"
  assumes "\<forall>x\<in>set a. x \<noteq> 0" "\<forall>x\<in>set b. x \<noteq> 0" "a @ replicate m 0 = b @ replicate n 0"
  shows "a = b"
proof -
  have t: "takeWhile (\<lambda>x. x \<noteq> 0) (c @ replicate k 0) = c" if "\<forall>x\<in>set c. x \<noteq> 0" for c :: "byte list" and k
  proof -
    have "takeWhile (\<lambda>x. x \<noteq> 0) (replicate k (0 :: byte)) = []" by (cases k) simp_all
    then show ?thesis using that by (simp add: takeWhile_append2)
  qed
  show ?thesis using t [OF assms(1), of m] t [OF assms(2), of n] assms(3) by simp
qed

section \<open>One key, one row\<close>

text \<open>The rows of the tree.\<close>
datatype treeEntity = E_box "byte list" | E_identity "byte list" | E_network | E_name "byte list" | E_holder "byte list"
  | E_post "byte list" | E_like "byte list" "byte list" | E_karmaOf "byte list" "byte list"
  | E_creditOf "byte list" "byte list" | E_escrowOf "byte list" "byte list" | E_escrowDue int "byte list"
  | E_bondDue int "byte list" | E_vouchPair "byte list" "byte list" | E_lapsed "byte list"
  | E_accrualOf "byte list" "byte list" | E_type boxType "byte list" | E_castCount "byte list"

fun entityKey :: "treeEntity \<Rightarrow> byte list res" where
  "entityKey (E_box i) = boxKey i"
| "entityKey (E_identity i) = identityKey i"
| "entityKey E_network = networkKey"
| "entityKey (E_name n) = nameKey n"
| "entityKey (E_holder i) = holderKey i"
| "entityKey (E_post i) = postKey i"
| "entityKey (E_like i j) = likeEntryKey i j"
| "entityKey (E_karmaOf i j) = karmaOfKey i j"
| "entityKey (E_creditOf i j) = creditOfKey i j"
| "entityKey (E_escrowOf i j) = escrowOfKey i j"
| "entityKey (E_escrowDue h i) = escrowDueKey h i"
| "entityKey (E_bondDue h i) = bondDueKey h i"
| "entityKey (E_vouchPair i j) = vouchPairKey i j"
| "entityKey (E_lapsed i) = lapsedKey i"
| "entityKey (E_accrualOf i j) = accrualOfKey i j"
| "entityKey (E_type t i) = typeKey t i"
| "entityKey (E_castCount i) = castCountKey i"

fun entityTag :: "treeEntity \<Rightarrow> treeTag" where
  "entityTag (E_box i) = TT_box"
| "entityTag (E_identity i) = TT_identity"
| "entityTag E_network = TT_network"
| "entityTag (E_name n) = TT_name"
| "entityTag (E_holder i) = TT_holder"
| "entityTag (E_post i) = TT_post"
| "entityTag (E_like i j) = TT_like"
| "entityTag (E_karmaOf i j) = TT_karmaOf"
| "entityTag (E_creditOf i j) = TT_creditOf"
| "entityTag (E_escrowOf i j) = TT_escrowOf"
| "entityTag (E_escrowDue h i) = TT_escrowDue"
| "entityTag (E_bondDue h i) = TT_bondDue"
| "entityTag (E_vouchPair i j) = TT_vouchPair"
| "entityTag (E_lapsed i) = TT_lapsed"
| "entityTag (E_accrualOf i j) = TT_accrualOf"
| "entityTag (E_type t i) = TT_type"
| "entityTag (E_castCount i) = TT_castCount"

lemmas key_defs = boxKey_def identityKey_def networkKey_def nameKey_def holderKey_def postKey_def likeEntryKey_def
  karmaOfKey_def creditOfKey_def escrowOfKey_def escrowDueKey_def bondDueKey_def vouchPairKey_def lapsedKey_def
  accrualOfKey_def castCountKey_def

lemma name_length: "isValidUsernameBytes n \<Longrightarrow> length n \<le> 24"
  by (auto simp: isValidUsernameBytes_def USERNAME_MAX_BYTES_def split: if_splits)

lemma nameKey_ok:
  "nameKey n = Inr k \<longleftrightarrow> isValidUsernameBytes n \<and> equalBytes n (canonicalUsernameBytes n) \<and>
     k = TREE_TAG TT_name # n @ replicate (64 - length n) 0"
  using name_length [of n] by (auto simp: nameKey_def treeKey_ok)

lemma entityKey_shape:
  assumes "entityKey e = Inr k"
  shows "length k = TREE_KEY_LENGTH \<and> hd k = TREE_TAG (entityTag e)"
proof (cases e)
  case (E_name n)
  then show ?thesis using assms name_length [of n] by (auto simp: nameKey_ok TREE_KEY_LENGTH_def)
next
  case (E_escrowDue h i)
  then show ?thesis using assms u64be_ok(1) [of h] by (auto simp: key_defs dueKey_ok TREE_KEY_LENGTH_def)
next
  case (E_bondDue h i)
  then show ?thesis using assms u64be_ok(1) [of h] by (auto simp: key_defs dueKey_ok TREE_KEY_LENGTH_def)
next
  case (E_type t i)
  then show ?thesis using assms typeTagByte_ok(1) [of t] by (auto simp: typeKey_ok TREE_KEY_LENGTH_def)
qed (use assms in \<open>auto simp: key_defs oneKey_ok twoKey_ok treeKey_ok TREE_KEY_LENGTH_def\<close>)

lemma entityKey_inject:
  assumes "entityKey e = Inr k" "entityKey f = Inr k"
  shows "e = f"
proof -
  have "TREE_TAG (entityTag e) = TREE_TAG (entityTag f)"
    using entityKey_shape [OF assms(1)] entityKey_shape [OF assms(2)] by simp
  then have t: "entityTag e = entityTag f" by (rule tag_inject)
  show ?thesis
  proof (cases e)
    case (E_name n)
    then obtain m where f: "f = E_name m" using t by (cases f) auto
    have "n @ replicate (64 - length n) 0 = m @ replicate (64 - length m) 0"
      using assms E_name f by (simp add: nameKey_ok)
    moreover have "\<forall>x\<in>set n. x \<noteq> 0" "\<forall>x\<in>set m. x \<noteq> 0"
      using assms E_name f username_nonzero by (auto simp: nameKey_ok)
    ultimately show ?thesis using padded_inject E_name f by blast
  next
    case (E_escrowDue h i)
    then obtain g j where f: "f = E_escrowDue g j" using t by (cases f) auto
    obtain a b where "u64be h = Inr a" "u64be g = Inr b" "a @ i @ replicate 24 0 = b @ j @ replicate 24 0"
      using assms E_escrowDue f by (auto simp: key_defs dueKey_ok)
    then show ?thesis using u64be_ok(1) [of h a] u64be_ok(1) [of g b] u64be_inject [of h a g] E_escrowDue f by auto
  next
    case (E_bondDue h i)
    then obtain g j where f: "f = E_bondDue g j" using t by (cases f) auto
    obtain a b where "u64be h = Inr a" "u64be g = Inr b" "a @ i @ replicate 24 0 = b @ j @ replicate 24 0"
      using assms E_bondDue f by (auto simp: key_defs dueKey_ok)
    then show ?thesis using u64be_ok(1) [of h a] u64be_ok(1) [of g b] u64be_inject [of h a g] E_bondDue f by auto
  next
    case (E_type u i)
    then obtain v j where f: "f = E_type v j" using t by (cases f) auto
    obtain a b where "typeTagByte u = Inr a" "typeTagByte v = Inr b" "a @ i @ replicate 31 0 = b @ j @ replicate 31 0"
      using assms E_type f by (auto simp: typeKey_ok)
    moreover from this have "length a = length b" by (simp add: typeTagByte_ok(1))
    ultimately have "a = b" "i = j" "typeTagByte u = Inr a" "typeTagByte v = Inr b" by simp_all
    then show ?thesis using typeTagByte_ok(2) [of u a v] E_type f by simp
  qed (use t assms in \<open>cases f; clarsimp simp: key_defs oneKey_ok twoKey_ok\<close>)+
qed

lemma entityKey_no_sentinel: "entityKey e = Inr k \<Longrightarrow> \<not> isSentinel k"
  using entityKey_shape [of e k] tag_bounds [of "entityTag e"] by (cases k) (auto simp: isSentinel_def TREE_KEY_LENGTH_def)

section \<open>Ranges\<close>

lemma inRange_iff: "inRange k p \<longleftrightarrow> (\<exists>s. k = p @ s)"
proof
  assume "inRange k p"
  then have l: "length p \<le> length k" "\<forall>i<length p. k ! i = p ! i" by (auto simp: inRange_def list_all_iff)
  then have "take (length p) k = p" by (intro nth_equalityI) auto
  then show "\<exists>s. k = p @ s" by (metis append_take_drop_id)
qed (auto simp: inRange_def list_all_iff nth_append)

lemma append_mono [simp]: "(p @ s \<le> p @ t) \<longleftrightarrow> s \<le> t" for p s t :: "byte list"
  by (induction p) simp_all

lemma range_contiguous:
  assumes "inRange a p" "inRange c p" "a \<le> b" "b \<le> c"
  shows "inRange b p"
proof -
  have "\<exists>s. b = p @ s" if "p @ x \<le> b" "b \<le> p @ y" for x y using that
  proof (induction p arbitrary: b)
    case (Cons u p)
    then obtain w b' where b: "b = w # b'" by (cases b) auto
    then have "w = u" using Cons.prems by auto
    then show ?case using Cons b by auto
  qed simp
  then show ?thesis using assms unfolding inRange_iff by blast
qed

lemma zeros_least: "replicate (length s) 0 \<le> s" for s :: "byte list"
  by (induction s) (auto simp: word_gt_0)

lemma rangeStart_in: "length p \<le> TREE_KEY_LENGTH \<Longrightarrow> inRange (rangeStart p) p \<and> length (rangeStart p) = TREE_KEY_LENGTH"
  by (auto simp: rangeStart_def inRange_iff)

lemma rangeStart_least: "inRange k p \<Longrightarrow> length k = TREE_KEY_LENGTH \<Longrightarrow> rangeStart p \<le> k"
proof -
  assume "inRange k p" "length k = TREE_KEY_LENGTH"
  then obtain s where s: "k = p @ s" "length s = TREE_KEY_LENGTH - length p" by (auto simp: inRange_iff)
  then show ?thesis using zeros_least [of s] by (simp add: rangeStart_def)
qed

lemma due_order:
  assumes "dueKey tag h i = Inr k" "dueKey tag g j = Inr l"
  shows "keyHeight k = Inr h" "h < g \<Longrightarrow> k < l"
proof -
  obtain a b where a: "u64be h = Inr a" "k = TREE_TAG tag # a @ i @ replicate 24 0" "length i = 32"
      and b: "u64be g = Inr b" "l = TREE_TAG tag # b @ j @ replicate 24 0"
    using assms by (auto simp: dueKey_ok)
  note u = u64be_ok [OF a(1)] and v = u64be_ok [OF b(1)]
  have "take 8 (drop 1 k) = a" using u(1) by (simp add: a(2))
  moreover have "length k = TREE_KEY_LENGTH" using u(1) a(2,3) by (simp add: TREE_KEY_LENGTH_def)
  ultimately show "keyHeight k = Inr h" using u(2,4) by (simp add: keyHeight_def beNum_def [symmetric] Let_def)
  assume "h < g"
  then have "a < b" using beNum_less [of a b] u(1,2) v(1,2) by simp
  then have "a @ x < b @ y" for x y using u(1) v(1)
  proof -
    have "length a = length b" using u(1) v(1) by simp
    then show ?thesis using \<open>a < b\<close> by (induction a b rule: list_induct2) auto
  qed
  then show "k < l" by (simp add: a(2) b(2))
qed

text \<open>C34: One key, one row.  Whatever two rows of the tree are, boxes, identities, names, holders,
  posts, likes or index entries, equal keys mean the same row: the tag, the fixed widths and the
  zero-free names keep the derivations apart.  Every key has the tree's length and is never one
  of the sentinels that bound the key space.\<close>
theorem tree_keys_injective:
  assumes "entityKey e = Inr k"
  shows "length k = TREE_KEY_LENGTH \<and> \<not> isSentinel k \<and> (entityKey f = Inr k \<longleftrightarrow> f = e)"
  using assms entityKey_shape [OF assms] entityKey_no_sentinel [OF assms] entityKey_inject [OF assms, of f] by blast

lemma tree_keys_injective_witness:
  "entityKey (E_vouchPair (replicate 32 9) (replicate 32 1)) \<noteq> entityKey (E_vouchPair (replicate 32 1) (replicate 32 9))"
proof -
  have "is_ok (entityKey (E_vouchPair (replicate 32 9) (replicate 32 1)))" by code_simp
  then obtain k where k: "entityKey (E_vouchPair (replicate 32 9) (replicate 32 1)) = Inr k"
    by (cases "entityKey (E_vouchPair (replicate 32 9) (replicate 32 1))") auto
  have "(1 :: byte) \<noteq> 9" by simp
  then show ?thesis
    using tree_keys_injective [OF k, of "E_vouchPair (replicate 32 1) (replicate 32 9)"] k
    by (auto simp: replicate_eq_replicate)
qed

end
