(* ===== verification/TreeView.thy ===== *)
theory TreeView
  imports TreeKeyLaws ApplyBlock
begin

text \<open>
  The tree view (\<open>packages/consensus/src/tree-view.ts\<close>): the reads of the rules answered by
  lookups in an authenticated tree, and the holdings page (\<open>holdings.ts\<close>).  The session
  that answers a lookup is a parameter (a prover or a verifier of the tree library).  The
  view's memo is passed through every read, in the order the keys were first asked.  A walk
  whose session never ends its range does not return: walks are partial functions.
\<close>

section \<open>Lookups\<close>

datatype treeLookup = Found (found_value: "byte list") (nextKey: "byte list")
  | Absent (prevKey: "byte list") (nextKey: "byte list")

datatype treeError = Inconsistent | RangeErr | Thrown exn

type_synonym 'a tres = "treeError + 'a"
type_synonym treeSession = "byte list \<Rightarrow> treeLookup tres"
type_synonym memo = "(byte list \<times> treeLookup) list"
type_synonym 'a tv = "memo \<Rightarrow> ('a \<times> memo) tres"

definition tbind :: "'a tv \<Rightarrow> ('a \<Rightarrow> 'b tv) \<Rightarrow> 'b tv" where
  "tbind m f = (\<lambda>memo. ebind (m memo) (\<lambda>(a, memo'). f a memo'))"

definition tret :: "'a \<Rightarrow> 'a tv" where "tret a = (\<lambda>memo. Inr (a, memo))"
definition tfail :: "treeError \<Rightarrow> 'a tv" where "tfail e = (\<lambda>memo. Inl e)"

text \<open>A throw of a key or a codec passes through.\<close>
definition tlift :: "'a res \<Rightarrow> 'a tv" where
  "tlift r = (case r of Inl e \<Rightarrow> tfail (Thrown e) | Inr a \<Rightarrow> tret a)"

definition look :: "treeSession \<Rightarrow> byte list \<Rightarrow> treeLookup tv" where
  "look sess key = (\<lambda>memo. case map_of memo key of
     Some known \<Rightarrow> Inr (known, memo)
   | None \<Rightarrow> ebind (sess key) (\<lambda>answer.
       if compareBytes (nextKey answer) key \<le> 0 then Inl Inconsistent
       else if (case answer of Found _ _ \<Rightarrow> False | Absent prev _ \<Rightarrow> compareBytes prev key \<ge> 0) then Inl Inconsistent
       else Inr (answer, memo @ [(key, answer)])))"

definition lookupCount :: "memo \<Rightarrow> nat" where "lookupCount memo = length memo"

section \<open>Walks\<close>

text \<open>What a consumer does with a leaf: whether it breaks off, and its state.\<close>
type_synonym 's walkBody = "byte list \<Rightarrow> byte list \<Rightarrow> byte list \<Rightarrow> 's \<Rightarrow> memo \<Rightarrow> ((bool \<times> 's) \<times> memo) tres option"

text \<open>No limit is \<open>Infinity\<close>.\<close>
definition reached :: "int option \<Rightarrow> int \<Rightarrow> bool" where
  "reached limit n = (case limit of None \<Rightarrow> False | Some l \<Rightarrow> n \<ge> l)"

partial_function (option) walkLoop :: "treeSession \<Rightarrow> treeRange \<Rightarrow> int option \<Rightarrow> (byte list \<Rightarrow> bool tres) \<Rightarrow>
    's walkBody \<Rightarrow> int \<Rightarrow> byte list \<Rightarrow> 's \<Rightarrow> memo \<Rightarrow> ('s \<times> memo) tres option" where
  "walkLoop sess rng limit within body n next s memo =
     (if reached limit n \<or> isSentinel next \<or> \<not> inRange next rng then Some (Inr (s, memo))
      else (case within next of
          Inl e \<Rightarrow> Some (Inl e)
        | Inr ok \<Rightarrow> (if \<not> ok then Some (Inr (s, memo)) else (case look sess next memo of
              Inl e \<Rightarrow> Some (Inl e)
            | Inr p \<Rightarrow> (case fst p of
                Absent _ _ \<Rightarrow> Some (Inl Inconsistent)
              | Found v nk \<Rightarrow> Option.bind (body next v nk s (snd p)) (\<lambda>r. case r of
                    Inl e \<Rightarrow> Some (Inl e)
                  | Inr q \<Rightarrow> (if fst (fst q) then Some (Inr (snd (fst q), snd q))
                      else walkLoop sess rng limit within body (n + 1) nk (snd (fst q)) (snd q)))))))) "

definition walk :: "treeSession \<Rightarrow> treeRange \<Rightarrow> int option \<Rightarrow> (byte list \<Rightarrow> bool tres) \<Rightarrow> byte list option \<Rightarrow>
    's walkBody \<Rightarrow> 's \<Rightarrow> memo \<Rightarrow> ('s \<times> memo) tres option" where
  "walk sess rng limit within origin body s memo =
     (if reached limit 0 then Some (Inr (s, memo))
      else let start = (case origin of Some f \<Rightarrow> f | None \<Rightarrow> rangeStart rng) in
        (case look sess start memo of
           Inl e \<Rightarrow> Some (Inl e)
         | Inr (Absent _ nk, memo1) \<Rightarrow> walkLoop sess rng limit within body 0 nk s memo1
         | Inr (Found v nk, memo1) \<Rightarrow> (case within start of
             Inl e \<Rightarrow> Some (Inl e)
           | Inr False \<Rightarrow> walkLoop sess rng limit within body 0 nk s memo1
           | Inr True \<Rightarrow> (case body start v nk s memo1 of
               None \<Rightarrow> None
             | Some (Inl e) \<Rightarrow> Some (Inl e)
             | Some (Inr ((stop, s'), memo2)) \<Rightarrow>
                 if stop then Some (Inr (s', memo2)) else walkLoop sess rng limit within body 1 nk s' memo2))))"

abbreviation always :: "byte list \<Rightarrow> bool tres" where "always \<equiv> \<lambda>_. Inr True"

section \<open>Pages\<close>

record treeRangePage =
  entries :: "(byte list \<times> byte list) list"
  page_next :: "byte list option"

definition collectEntry :: "((byte list \<times> byte list) list \<times> byte list option) walkBody" where
  "collectEntry key v nk s memo = Some (Inr ((False, (fst s @ [(key, v)], Some nk)), memo))"

definition pageRange :: "treeSession \<Rightarrow> treeRange \<Rightarrow> byte list option \<Rightarrow> int \<Rightarrow> memo \<Rightarrow> (treeRangePage \<times> memo) tres option" where
  "pageRange sess rng origin limit memo =
     (if limit \<le> 0 then Some (Inl RangeErr)
      else if (case origin of None \<Rightarrow> False | Some f \<Rightarrow> length f \<noteq> TREE_KEY_LENGTH) then Some (Inl RangeErr)
      else if (case origin of None \<Rightarrow> False | Some f \<Rightarrow> \<not> inRange f rng) then Some (Inl RangeErr)
      else (case walk sess rng (Some limit) always origin collectEntry ([], None) memo of
        None \<Rightarrow> None
      | Some (Inl e) \<Rightarrow> Some (Inl e)
      | Some (Inr ((es, lst), memo')) \<Rightarrow>
          Some (Inr (\<lparr>entries = es, page_next = (case lst of None \<Rightarrow> None
            | Some l \<Rightarrow> if \<not> isSentinel l \<and> inRange l rng then Some l else None)\<rparr>, memo'))))"

section \<open>Keyed reads\<close>

definition tv_getBox :: "treeSession \<Rightarrow> string \<Rightarrow> anyBox option tv" where
  "tv_getBox sess i = tbind (tlift (hexToBytes i)) (\<lambda>raw. tbind (tlift (boxKey raw)) (\<lambda>key.
     tbind (look sess key) (\<lambda>answer. case answer of
       Found v _ \<Rightarrow> tbind (tlift (boxFromRecordBytes i v)) (\<lambda>b. tret (Some b))
     | Absent _ _ \<Rightarrow> tret None)))"

definition tv_getBoxProvenance :: "treeSession \<Rightarrow> string \<Rightarrow> (string \<times> int) option tv" where
  "tv_getBoxProvenance sess i = tbind (tv_getBox sess i) (\<lambda>b. tret (map_option (\<lambda>b. (boxTxId b, boxIndex b)) b))"

text \<open>A keyed row: its decoded value, or nothing.\<close>
definition rowAt :: "treeSession \<Rightarrow> byte list res \<Rightarrow> (byte list \<Rightarrow> 'a res) \<Rightarrow> 'a option tv" where
  "rowAt sess key decode = tbind (tlift key) (\<lambda>k. tbind (look sess k) (\<lambda>answer. case answer of
     Found v _ \<Rightarrow> tbind (tlift (decode v)) (\<lambda>r. tret (Some r)) | Absent _ _ \<Rightarrow> tret None))"

definition tv_getIdentityRecord :: "treeSession \<Rightarrow> byte list \<Rightarrow> identityRecord option tv" where
  "tv_getIdentityRecord sess identityId = rowAt sess (identityKey identityId) identityRecordFromBytes"

definition tv_getNetworkRecord :: "treeSession \<Rightarrow> networkRecord tv" where
  "tv_getNetworkRecord sess = tbind (rowAt sess networkKey networkRecordFromBytes) (\<lambda>r. case r of
     None \<Rightarrow> tfail Inconsistent | Some n \<Rightarrow> tret n)"

definition postRecordAt :: "treeSession \<Rightarrow> string \<Rightarrow> postRecord option tv" where
  "postRecordAt sess postId = tbind (tlift (hexToBytes postId)) (\<lambda>raw. rowAt sess (postKey raw) postRecordFromBytes)"

definition tv_getTopologyAuthor :: "treeSession \<Rightarrow> string \<Rightarrow> byte list option tv" where
  "tv_getTopologyAuthor sess postId = tbind (postRecordAt sess postId) (\<lambda>p. tret (map_option pr_author p))"

definition tv_getTopologyHeight :: "treeSession \<Rightarrow> string \<Rightarrow> int option tv" where
  "tv_getTopologyHeight sess postId = tbind (postRecordAt sess postId) (\<lambda>p. tret (map_option pr_height p))"

definition tv_getPostStanding :: "treeSession \<Rightarrow> string \<Rightarrow> postStanding tv" where
  "tv_getPostStanding sess postId = tbind (postRecordAt sess postId) (\<lambda>p. tret (case p of
     None \<Rightarrow> NoPost | Some r \<Rightarrow> (case pr_standing r of RowLive \<Rightarrow> Live | RowWithdrawn \<Rightarrow> Withdrawn)))"

definition tv_hasLikeRecord :: "treeSession \<Rightarrow> string \<Rightarrow> byte list \<Rightarrow> bool tv" where
  "tv_hasLikeRecord sess targetPostId likerId = tbind (tlift (hexToBytes targetPostId)) (\<lambda>raw.
     tbind (tlift (likeEntryKey raw likerId)) (\<lambda>k. tbind (look sess k) (\<lambda>answer.
     tret (case answer of Found _ _ \<Rightarrow> True | Absent _ _ \<Rightarrow> False))))"

definition castCountOf :: "treeSession \<Rightarrow> byte list \<Rightarrow> int tv" where
  "castCountOf sess voucherId = tbind (rowAt sess (castCountKey voucherId) castCountFromBytes) (\<lambda>c.
     tret (case c of None \<Rightarrow> 0 | Some n \<Rightarrow> n))"

text \<open>The live box an entry names, of the type the entry is for.\<close>
definition namedBox :: "treeSession \<Rightarrow> string \<Rightarrow> boxType \<Rightarrow> anyBox tv" where
  "namedBox sess i t = tbind (tv_getBox sess i) (\<lambda>b. case b of
     None \<Rightarrow> tfail Inconsistent
   | Some box \<Rightarrow> if boxTypeOf box \<noteq> t then tfail Inconsistent else tret box)"

definition rowOf :: "anyBox \<Rightarrow> int \<Rightarrow> usernameRow" where
  "rowOf bx claimed = \<lparr>nameLower = canonicalUsername (tail_name (boxTail bx)),
     row_name = usernameString (tail_name (boxTail bx)), row_owner = bytesToHex (ownerOf bx),
     row_boxId = boxId bx, claimedAtBlock = claimed\<rparr>"

definition tv_getUsername :: "treeSession \<Rightarrow> string \<Rightarrow> usernameRow option tv" where
  "tv_getUsername sess lower = tbind (rowAt sess (nameKey (ascii lower)) nameRecordFromBytes) (\<lambda>r. case r of
     None \<Rightarrow> tret None
   | Some n \<Rightarrow> tbind (namedBox sess (nr_boxId n) BT_username) (\<lambda>box.
       let row = rowOf box (nr_claimedAtBlock n) in
       if nameLower row \<noteq> lower then tfail Inconsistent else tret (Some row)))"

definition tv_getUsernameByOwner :: "treeSession \<Rightarrow> byte list \<Rightarrow> usernameRow option tv" where
  "tv_getUsernameByOwner sess owner = tbind (rowAt sess (holderKey owner) holderRecordFromBytes) (\<lambda>r.
     case r of None \<Rightarrow> tret None
   | Some h \<Rightarrow> (case hr_boxId h of None \<Rightarrow> tret None
     | Some i \<Rightarrow> tbind (namedBox sess i BT_username) (\<lambda>box.
         tbind (rowAt sess (nameKey (canonicalUsernameBytes (tail_name (boxTail box)))) nameRecordFromBytes) (\<lambda>named.
         case named of None \<Rightarrow> tfail Inconsistent
         | Some n \<Rightarrow> if nr_boxId n \<noteq> i then tfail Inconsistent else tret (Some (rowOf box (nr_claimedAtBlock n)))))))"

section \<open>Range reads\<close>

definition OWNED_BOX_ID_AT :: nat where "OWNED_BOX_ID_AT = 33"
definition DUE_BOX_ID_AT :: nat where "DUE_BOX_ID_AT = 9"
definition TYPE_BOX_ID_AT :: nat where "TYPE_BOX_ID_AT = 2"
definition LAPSED_IDENTITY_AT :: nat where "LAPSED_IDENTITY_AT = 1"

definition idAt :: "byte list \<Rightarrow> nat \<Rightarrow> string" where
  "idAt key i = bytesToHex (take 32 (drop i key))"

text \<open>A walk over a range whose derivation may throw.\<close>
definition overRange :: "treeRange res \<Rightarrow> (treeRange \<Rightarrow> memo \<Rightarrow> 'a tres option) \<Rightarrow> memo \<Rightarrow> 'a tres option" where
  "overRange r f memo = (case r of Inl e \<Rightarrow> Some (Inl (Thrown e)) | Inr rng \<Rightarrow> f rng memo)"

definition takeBox :: "treeSession \<Rightarrow> (byte list \<Rightarrow> byte list \<Rightarrow> string tv) \<Rightarrow> boxType \<Rightarrow> anyBox list walkBody" where
  "takeBox sess idOf t key v nk boxes memo =
     Some (ebind (tbind (idOf key v) (\<lambda>i. namedBox sess i t) memo) (\<lambda>(b, memo'). Inr ((False, boxes @ [b]), memo')))"

definition indexedBoxes :: "treeSession \<Rightarrow> treeRange \<Rightarrow> nat \<Rightarrow> boxType \<Rightarrow> int option \<Rightarrow> (byte list \<Rightarrow> bool tres) \<Rightarrow>
    memo \<Rightarrow> (anyBox list \<times> memo) tres option" where
  "indexedBoxes sess rng boxIdAt t limit within memo =
     walk sess rng limit within None (takeBox sess (\<lambda>key _. tret (idAt key boxIdAt)) t) [] memo"

definition firstOfType :: "treeSession \<Rightarrow> boxType \<Rightarrow> memo \<Rightarrow> (anyBox option \<times> memo) tres option" where
  "firstOfType sess t memo = overRange (typeRange t) (\<lambda>rng memo.
     map_option (\<lambda>r. ebind r (\<lambda>(bs, memo'). Inr (case bs of [] \<Rightarrow> None | b # _ \<Rightarrow> Some b, memo')))
       (indexedBoxes sess rng TYPE_BOX_ID_AT t (Some 1) always memo)) memo"

definition tv_getEmissionBox where "tv_getEmissionBox sess = firstOfType sess BT_emission"
definition tv_getTreasuryBox where "tv_getTreasuryBox sess = firstOfType sess BT_treasury"
definition tv_getKarmaPoolBox where "tv_getKarmaPoolBox sess = firstOfType sess BT_karma_pool"
definition tv_getBackerPoolBox where "tv_getBackerPoolBox sess = firstOfType sess BT_backer_pool"

definition tv_getKarmaBoxes :: "treeSession \<Rightarrow> byte list \<Rightarrow> memo \<Rightarrow> (anyBox list \<times> memo) tres option" where
  "tv_getKarmaBoxes sess owner memo = overRange (karmaOfRange owner) (\<lambda>rng memo.
     map_option (\<lambda>r. ebind r (\<lambda>(bs, memo').
       if length bs \<ge> 3 then Inl Inconsistent else Inr (byValueDescThenId bs, memo')))
       (indexedBoxes sess rng OWNED_BOX_ID_AT BT_karma (Some 3) always memo)) memo"

definition tv_getVouchEscrowsFor :: "treeSession \<Rightarrow> byte list \<Rightarrow> memo \<Rightarrow> (anyBox list \<times> memo) tres option" where
  "tv_getVouchEscrowsFor sess voucherId memo = overRange (escrowOfRange voucherId) (\<lambda>rng memo.
     indexedBoxes sess rng OWNED_BOX_ID_AT BT_vouch_escrow None always memo) memo"

definition tv_getLikeAccrualBoxes :: "treeSession \<Rightarrow> byte list \<Rightarrow> memo \<Rightarrow> (anyBox list \<times> memo) tres option" where
  "tv_getLikeAccrualBoxes sess auth memo = overRange (accrualOfRange auth) (\<lambda>rng memo.
     indexedBoxes sess rng OWNED_BOX_ID_AT BT_like_accrual None always memo) memo"

definition tv_getVouchBoxes :: "treeSession \<Rightarrow> byte list \<Rightarrow> byte list \<Rightarrow> anyBox list tv" where
  "tv_getVouchBoxes sess voucherId targetId = tbind (rowAt sess (vouchPairKey voucherId targetId) vouchPairBoxId) (\<lambda>r.
     case r of None \<Rightarrow> tret [] | Some i \<Rightarrow> tbind (namedBox sess (bytesToHex i) BT_vouch) (\<lambda>b. tret [b]))"

definition heightWithin :: "int \<Rightarrow> byte list \<Rightarrow> bool tres" where
  "heightWithin h key = (case keyHeight key of Inl e \<Rightarrow> Inl (Thrown e) | Inr k \<Rightarrow> Inr (k \<le> h))"

definition tv_getBondsInvitedAt :: "treeSession \<Rightarrow> int \<Rightarrow> int \<Rightarrow> memo \<Rightarrow> (anyBox list \<times> memo) tres option" where
  "tv_getBondsInvitedAt sess maxInvitedAt limit memo =
     indexedBoxes sess bondDueRange DUE_BOX_ID_AT BT_bond (Some limit) (heightWithin maxInvitedAt) memo"

definition tv_getVouchEscrowsReleasableAt :: "treeSession \<Rightarrow> int \<Rightarrow> int \<Rightarrow> memo \<Rightarrow> (anyBox list \<times> memo) tres option" where
  "tv_getVouchEscrowsReleasableAt sess height limit memo =
     indexedBoxes sess escrowDueRange DUE_BOX_ID_AT BT_vouch_escrow (Some limit) (heightWithin height) memo"

definition pairBoxId :: "byte list \<Rightarrow> byte list \<Rightarrow> string tv" where
  "pairBoxId key v = tbind (tlift (vouchPairBoxId v)) (\<lambda>i. tret (bytesToHex i))"

text \<open>One lapsed voucher: the vouches of its pair range, under what is left of the limit.\<close>
definition lapsedBody :: "treeSession \<Rightarrow> int \<Rightarrow> anyBox list walkBody" where
  "lapsedBody sess limit key v nk vouches memo =
     overRange (vouchPairRange (take 32 (drop LAPSED_IDENTITY_AT key))) (\<lambda>rng memo.
       map_option (\<lambda>r. ebind r (\<lambda>(vs, memo').
         if length vs = length vouches then Inl Inconsistent
         else Inr ((int (length vs) \<ge> limit, vs), memo')))
       (walk sess rng (Some (limit - int (length vouches))) always None (takeBox sess pairBoxId BT_vouch) vouches memo)) memo"

definition tv_getLapsedVouches :: "treeSession \<Rightarrow> int \<Rightarrow> memo \<Rightarrow> (anyBox list \<times> memo) tres option" where
  "tv_getLapsedVouches sess limit memo =
     (if limit \<le> 0 then Some (Inr ([], memo))
      else walk sess lapsedRange None always None (lapsedBody sess limit) [] memo)"

section \<open>Holdings\<close>

datatype holdingKind = HK_karma | HK_credit | HK_escrow | HK_vouch | HK_accrual

fun RANGE_OF :: "holdingKind \<Rightarrow> byte list \<Rightarrow> treeRange res" where
  "RANGE_OF HK_karma = karmaOfRange"
| "RANGE_OF HK_credit = creditOfRange"
| "RANGE_OF HK_escrow = escrowOfRange"
| "RANGE_OF HK_vouch = vouchPairRange"
| "RANGE_OF HK_accrual = accrualOfRange"

fun BOX_TYPE_OF :: "holdingKind \<Rightarrow> boxType" where
  "BOX_TYPE_OF HK_karma = BT_karma"
| "BOX_TYPE_OF HK_credit = BT_credit"
| "BOX_TYPE_OF HK_escrow = BT_vouch_escrow"
| "BOX_TYPE_OF HK_vouch = BT_vouch"
| "BOX_TYPE_OF HK_accrual = BT_like_accrual"

definition holdingBoxId :: "holdingKind \<Rightarrow> byte list \<Rightarrow> byte list \<Rightarrow> string tv" where
  "holdingBoxId kind key v = (if kind = HK_vouch then pairBoxId key v else tret (idAt key OWNED_BOX_ID_AT))"

fun holdingBoxes :: "treeSession \<Rightarrow> holdingKind \<Rightarrow> (byte list \<times> byte list) list \<Rightarrow> anyBox list tv" where
  "holdingBoxes sess kind [] = tret []"
| "holdingBoxes sess kind ((key, v) # es) = tbind (holdingBoxId kind key v) (\<lambda>i.
     tbind (namedBox sess i (BOX_TYPE_OF kind)) (\<lambda>b. tbind (holdingBoxes sess kind es) (\<lambda>bs. tret (b # bs))))"

record holdingsPageOut =
  hp_boxes :: "anyBox list"
  hp_next :: "byte list option"

definition holdingsPage :: "treeSession \<Rightarrow> holdingKind \<Rightarrow> byte list \<Rightarrow> byte list option \<Rightarrow> int \<Rightarrow> memo \<Rightarrow>
    (holdingsPageOut \<times> memo) tres option" where
  "holdingsPage sess kind owner origin limit memo =
     (if length owner \<noteq> 32 then Some (Inl RangeErr)
      else overRange (RANGE_OF kind owner) (\<lambda>rng memo. (case pageRange sess rng origin limit memo of
          None \<Rightarrow> None
        | Some (Inl e) \<Rightarrow> Some (Inl e)
        | Some (Inr (page, memo1)) \<Rightarrow>
            Some (ebind (holdingBoxes sess kind (entries page) memo1) (\<lambda>(bs, memo2).
              Inr (\<lparr>hp_boxes = bs, hp_next = page_next page\<rparr>, memo2))))) memo)"

end
