(* ===== verification/TreeViewLaws.thy ===== *)
theory TreeViewLaws
  imports TreeView
begin

text \<open>
  What the tree view answers over a session that is true to a tree: a walk is the run of
  the tree's leaves in the range, a page is a slice of it, pages tile the range, and a
  page of holdings is the boxes its entries name, with the lookups counted.
\<close>

section \<open>A session true to a tree\<close>

type_synonym leaves = "(byte list \<times> byte list) list"

definition hiKey :: "byte list" where "hiKey = replicate TREE_KEY_LENGTH 0xff"
definition loKey :: "byte list" where "loKey = replicate TREE_KEY_LENGTH 0"

definition firstKey :: "leaves \<Rightarrow> byte list" where
  "firstKey R = (case R of [] \<Rightarrow> hiKey | e # _ \<Rightarrow> fst e)"

text \<open>The answer of a tree with these leaves.\<close>
definition honest :: "leaves \<Rightarrow> byte list \<Rightarrow> treeLookup" where
  "honest T k = (let nk = firstKey (filter (\<lambda>e. k < fst e) T);
       pk = (case rev (filter (\<lambda>e. fst e < k) T) of [] \<Rightarrow> loKey | e # _ \<Rightarrow> fst e) in
     case map_of T k of Some v \<Rightarrow> Found v nk | None \<Rightarrow> Absent pk nk)"

definition realKey :: "byte list \<Rightarrow> bool" where
  "realKey k \<longleftrightarrow> length k = TREE_KEY_LENGTH \<and> \<not> isSentinel k"

definition leavesOk :: "leaves \<Rightarrow> bool" where
  "leavesOk T \<longleftrightarrow> sorted_wrt (<) (map fst T) \<and> list_all realKey (map fst T)"

definition backs :: "treeSession \<Rightarrow> leaves \<Rightarrow> bool" where
  "backs sess T \<longleftrightarrow> (\<forall>k. realKey k \<longrightarrow> sess k = Inr (honest T k))"

definition memoOk :: "leaves \<Rightarrow> memo \<Rightarrow> bool" where
  "memoOk T memo \<longleftrightarrow> list_all (\<lambda>(k, a). a = honest T k) memo"

definition memoAdd :: "leaves \<Rightarrow> byte list \<Rightarrow> memo \<Rightarrow> memo" where
  "memoAdd T k memo = (if map_of memo k = None then memo @ [(k, honest T k)] else memo)"

lemma memoAdd_ok [simp]: "memoOk T memo \<Longrightarrow> memoOk T (memoAdd T k memo)"
  by (simp add: memoOk_def memoAdd_def)

lemma memoAdd_length: "length (memoAdd T k memo) \<le> length memo + 1"
  by (simp add: memoAdd_def)

lemma memoAdd_twice [simp]: "memoAdd T k (memoAdd T k memo) = memoAdd T k memo"
  by (simp add: memoAdd_def)

lemma below_hi: "\<not> list_all (\<lambda>b. b = 0xff) k \<Longrightarrow> k < replicate (length k) (0xff :: byte)"
proof (induction k)
  case (Cons b k)
  have m: "(0xff :: byte) = - 1" by simp
  have "b \<le> 0xff" unfolding m by (rule word_order.extremum)
  then show ?case using Cons by auto
qed simp

lemma above_lo: "\<not> list_all (\<lambda>b. b = 0) k \<Longrightarrow> replicate (length k) (0 :: byte) < k"
  by (induction k) (auto simp: word_gt_0)

lemma real_bounds: "realKey k \<Longrightarrow> loKey < k \<and> k < hiKey"
  using below_hi [of k] above_lo [of k] by (auto simp: realKey_def isSentinel_def hiKey_def loKey_def)

lemma hi_sentinel [simp]: "isSentinel hiKey"
  by (simp add: isSentinel_def hiKey_def list_all_iff)

lemma firstKey_above: "realKey k \<Longrightarrow> list_all (\<lambda>e. k < fst e) R \<Longrightarrow> k < firstKey R"
  using real_bounds by (cases R) (auto simp: firstKey_def)

lemma look_honest:
  assumes "backs sess T" "memoOk T memo" "realKey k"
  shows "look sess k memo = Inr (honest T k, memoAdd T k memo)"
proof (cases "map_of memo k")
  case (Some a)
  then have "a = honest T k" using assms(2) map_of_SomeD [OF Some] by (auto simp: memoOk_def list_all_iff)
  then show ?thesis using Some by (simp add: look_def memoAdd_def)
next
  case None
  have s: "sess k = Inr (honest T k)" using assms(1,3) by (simp add: backs_def)
  have n: "k < nextKey (honest T k)"
    using firstKey_above [OF assms(3), of "filter (\<lambda>e. k < fst e) T"]
    by (simp add: honest_def Let_def list_all_iff split: option.splits)
  have p: "prev < k" if "honest T k = Absent prev nk" for prev nk
  proof -
    have e: "prev = (case rev (filter (\<lambda>e. fst e < k) T) of [] \<Rightarrow> loKey | e # _ \<Rightarrow> fst e)"
      using that by (simp add: honest_def Let_def split: option.splits)
    show ?thesis
    proof (cases "rev (filter (\<lambda>e. fst e < k) T)")
      case Nil
      then show ?thesis using e real_bounds [OF assms(3)] by simp
    next
      case (Cons x xs)
      then have "x \<in> set (rev (filter (\<lambda>e. fst e < k) T))" by (metis list.set_intros(1))
      then have "fst x < k" by simp
      then show ?thesis using e Cons by simp
    qed
  qed
  have n': "\<not> nextKey (honest T k) \<le> k" using n by simp
  have p': "\<not> (case honest T k of Found _ _ \<Rightarrow> False | Absent prev _ \<Rightarrow> compareBytes prev k \<ge> 0)"
    using p by (simp split: treeLookup.split) force
  show ?thesis by (simp add: look_def memoAdd_def None s n' p')
qed

text \<open>The answer at a leaf.\<close>
lemma honest_leaf:
  assumes "leavesOk (P @ (k, v) # R)"
  shows "honest (P @ (k, v) # R) k = Found v (firstKey R)"
proof -
  have s: "\<forall>e\<in>set P. fst e < k" "\<forall>e\<in>set R. k < fst e"
    using assms by (auto simp: leavesOk_def sorted_wrt_append)
  have "filter (\<lambda>e. k < fst e) P = []" using s(1) by (auto simp: filter_empty_conv dest: order_less_asym)
  moreover have "filter (\<lambda>e. k < fst e) R = R" using s(2) by (simp add: filter_id_conv)
  moreover have "map_of P k = None" using s(1) by (force simp: map_of_eq_None_iff)
  ultimately show ?thesis by (simp add: honest_def map_add_def)
qed

section \<open>A walk is a run of leaves\<close>

fun walkRef :: "leaves \<Rightarrow> treeRange \<Rightarrow> int option \<Rightarrow> (byte list \<Rightarrow> bool tres) \<Rightarrow> 's walkBody \<Rightarrow> leaves \<Rightarrow> int \<Rightarrow>
    's \<Rightarrow> memo \<Rightarrow> ('s \<times> memo) tres option" where
  "walkRef T rng limit within body [] n s memo = Some (Inr (s, memo))"
| "walkRef T rng limit within body ((k, v) # R) n s memo =
     (if reached limit n \<or> \<not> inRange k rng then Some (Inr (s, memo))
      else (case within k of
          Inl e \<Rightarrow> Some (Inl e)
        | Inr ok \<Rightarrow> (if \<not> ok then Some (Inr (s, memo))
            else (case body k v (firstKey R) s (memoAdd T k memo) of
                None \<Rightarrow> None
              | Some (Inl e) \<Rightarrow> Some (Inl e)
              | Some (Inr q) \<Rightarrow> (if fst (fst q) then Some (Inr (snd (fst q), snd q))
                  else walkRef T rng limit within body R (n + 1) (snd (fst q)) (snd q))))))"

text \<open>A consumer keeps the memo true.\<close>
definition keepsMemo :: "leaves \<Rightarrow> 's walkBody \<Rightarrow> bool" where
  "keepsMemo T body \<longleftrightarrow> (\<forall>k v nk s memo q. memoOk T memo \<longrightarrow> body k v nk s memo = Some (Inr q) \<longrightarrow> memoOk T (snd q))"

lemma walkLoop_ref:
  assumes "backs sess T" "leavesOk T" "keepsMemo T body"
  shows "T = P @ R \<Longrightarrow> memoOk T memo \<Longrightarrow>
    walkLoop sess rng limit within body n (firstKey R) s memo = walkRef T rng limit within body R n s memo"
proof (induction R arbitrary: P n s memo)
  case Nil
  show ?case by (subst walkLoop.simps) (simp add: firstKey_def)
next
  case (Cons e R)
  obtain k v where e: "e = (k, v)" by fastforce
  have real: "realKey k" using assms(2) Cons.prems(1) e by (simp add: leavesOk_def)
  have fk: "firstKey (e # R) = k" by (simp add: firstKey_def e)
  have lk: "look sess k memo = Inr (Found v (firstKey R), memoAdd T k memo)"
    using look_honest [OF assms(1) Cons.prems(2) real] honest_leaf [of P k v R] assms(2) Cons.prems(1) e by simp
  have ih: "walkLoop sess rng limit within body (n + 1) (firstKey R) (snd (fst q)) (snd q) =
      walkRef T rng limit within body R (n + 1) (snd (fst q)) (snd q)"
    if "body k v (firstKey R) s (memoAdd T k memo) = Some (Inr q)" for q
  proof (rule Cons.IH [of "P @ [e]"])
    show "T = (P @ [e]) @ R" using Cons.prems(1) by simp
    show "memoOk T (snd q)" using assms(3) that memoAdd_ok [OF Cons.prems(2)] unfolding keepsMemo_def by blast
  qed
  show ?case
    unfolding fk
    by (subst walkLoop.simps)
      (use real ih in \<open>auto simp: e lk realKey_def Option.bind_eq_None_conv split: sum.splits option.splits bind_splits\<close>)
qed

lemma dropWhile_sorted:
  "sorted_wrt (<) (map fst T) \<Longrightarrow> dropWhile (\<lambda>e. fst e < x) T = filter (\<lambda>e. x \<le> fst e) T"
  for x :: "byte list"
proof (induction T)
  case (Cons e T)
  show ?case
  proof (cases "fst e < x")
    case False
    then have "\<forall>f\<in>set T. x \<le> fst f" using Cons.prems by force
    then show ?thesis using False by (simp add: filter_id_conv)
  qed (use Cons in auto)
qed simp

definition fromKey :: "leaves \<Rightarrow> byte list \<Rightarrow> leaves" where
  "fromKey T x = filter (\<lambda>e. x \<le> fst e) T"

lemma walk_ref:
  assumes "backs sess T" "leavesOk T" "keepsMemo T body" "memoOk T memo"
    and "start = (case origin of Some f \<Rightarrow> f | None \<Rightarrow> rangeStart rng)" "realKey start" "inRange start rng"
    and "within start = Inr True" "\<not> reached limit 0"
  shows "walk sess rng limit within origin body s memo =
    walkRef T rng limit within body (fromKey T start) 0 s (memoAdd T start memo)"
proof -
  have T: "T = takeWhile (\<lambda>e. fst e < start) T @ fromKey T start"
    using assms(2) dropWhile_sorted [of T start] takeWhile_dropWhile_id [of "\<lambda>e. fst e < start" T]
    by (simp add: leavesOk_def fromKey_def)
  note lk = look_honest [OF assms(1,4,6)]
  have mo: "memoOk T (memoAdd T start memo)" using assms(4) by simp
  show ?thesis
  proof (cases "map_of T start")
    case None
    have "fst e \<noteq> start" if "e \<in> set T" for e using None that by (auto simp: map_of_eq_None_iff)
    then have f: "filter (\<lambda>e. start < fst e) T = fromKey T start"
      unfolding fromKey_def by (intro filter_cong refl) (auto simp: order_le_less)
    then obtain prev where h: "honest T start = Absent prev (firstKey (fromKey T start))"
      using None by (simp add: honest_def Let_def)
    show ?thesis
      using walkLoop_ref [OF assms(1-3) T mo] lk h assms(5,9) by (simp add: walk_def Let_def)
  next
    case (Some v)
    then have "(start, v) \<in> set (fromKey T start)" using map_of_SomeD [OF Some] by (simp add: fromKey_def)
    then obtain e R where R: "fromKey T start = e # R" by (cases "fromKey T start") auto
    have srt: "sorted_wrt (<) (map fst (e # R))"
      using assms(2) R unfolding leavesOk_def fromKey_def by (metis sorted_wrt_filter sorted_wrt_map)
    have "start \<le> fst e" using R unfolding fromKey_def by (metis (no_types, lifting) filter_eq_ConsD)
    moreover have "fst e \<le> start" using srt \<open>(start, v) \<in> set (fromKey T start)\<close> R by (auto simp: order_le_less)
    ultimately have "e = (start, v)"
      using \<open>(start, v) \<in> set (fromKey T start)\<close> R srt by (cases e) (force)
    then have R': "fromKey T start = (start, v) # R" using R by simp
    let ?P = "takeWhile (\<lambda>e. fst e < start) T"
    have h: "honest T start = Found v (firstKey R)"
      using honest_leaf [of ?P start v R] assms(2) T R' by metis
    have lp: "walkLoop sess rng limit within body 1 (firstKey R) (snd (fst q)) (snd q) =
        walkRef T rng limit within body R 1 (snd (fst q)) (snd q)"
      if "body start v (firstKey R) s (memoAdd T start memo) = Some (Inr q)" for q
    proof (rule walkLoop_ref [OF assms(1-3)])
      show "T = (?P @ [(start, v)]) @ R" using T R' by simp
      show "memoOk T (snd q)" using assms(3) that mo unfolding keepsMemo_def by blast
    qed
    show ?thesis
      unfolding R'
      using lk h assms(5,7-9) lp
      by (auto simp: walk_def Let_def split: option.splits sum.splits prod.splits)
  qed
qed

section \<open>Pages\<close>

definition rangeLeaves :: "leaves \<Rightarrow> treeRange \<Rightarrow> byte list \<Rightarrow> leaves" where
  "rangeLeaves T rng start = filter (\<lambda>e. start \<le> fst e \<and> inRange (fst e) rng) T"

lemma walkRef_collect:
  "walkRef T rng (Some l) always collectEntry R n (es, lst) memo =
     (let X = take (nat (l - n)) (takeWhile (\<lambda>e. inRange (fst e) rng) R) in
      Some (Inr ((es @ X, if X = [] then lst else Some (firstKey (drop (length X) R))),
        foldl (\<lambda>m e. memoAdd T (fst e) m) memo X)))"
proof (induction R arbitrary: n es lst memo)
  case (Cons e R)
  obtain k v where e: "e = (k, v)" by fastforce
  show ?case
  proof (cases "n < l \<and> inRange k rng")
    case True
    then have "n < l" by simp
    then have "nat (l - n) = Suc (nat (l - (n + 1)))" by arith
    then show ?thesis using True Cons [of "n + 1" "es @ [(k, v)]" "Some (firstKey R)"]
      by (simp add: e reached_def collectEntry_def Let_def)
  next
    case False
    then show ?thesis by (auto simp: e reached_def Let_def)
  qed
qed (simp add: Let_def)

lemma collect_keeps: "keepsMemo T collectEntry"
  by (simp add: keepsMemo_def collectEntry_def)

lemma run_is_range:
  assumes "leavesOk T" "inRange start rng"
  shows "takeWhile (\<lambda>e. inRange (fst e) rng) (fromKey T start) = rangeLeaves T rng start"
proof -
  have "takeWhile (\<lambda>e. inRange (fst e) rng) R = filter (\<lambda>e. inRange (fst e) rng) R"
    if "sorted_wrt (<) (map fst R)" "\<forall>e\<in>set R. start \<le> fst e" for R :: leaves
    using that
  proof (induction R)
    case (Cons e R)
    show ?case
    proof (cases "inRange (fst e) rng")
      case False
      have "\<not> inRange (fst f) rng" if "f \<in> set R" for f
        using False range_contiguous [OF assms(2), of "fst f" "fst e"] that Cons.prems by fastforce
      then show ?thesis using False by (simp add: filter_empty_conv)
    qed (use Cons in simp)
  qed simp
  moreover have "sorted_wrt (<) (map fst (fromKey T start))"
    using assms(1) unfolding leavesOk_def fromKey_def by (simp add: sorted_wrt_map sorted_wrt_filter)
  ultimately show ?thesis by (simp add: fromKey_def rangeLeaves_def conj_commute)
qed

lemma memo_growth: "memoOk T memo \<Longrightarrow> memoOk T (foldl (\<lambda>m e. memoAdd T (fst e) m) memo X)"
  "length (foldl (\<lambda>m e. memoAdd T (fst e) m) memo X) \<le> length memo + length X"
proof (induction X arbitrary: memo)
  case (Cons e X)
  { case 1 then show ?case using Cons(1) by simp }
  { case 2 show ?case using Cons(2) [of "memoAdd T (fst e) memo"] memoAdd_length [of T "fst e" memo] by simp }
qed simp_all

text \<open>A range: a tag that bounds no key space, and no longer than a key.\<close>
definition rangeOk :: "treeRange \<Rightarrow> bool" where
  "rangeOk rng \<longleftrightarrow> rng \<noteq> [] \<and> length rng \<le> TREE_KEY_LENGTH \<and> hd rng \<noteq> 0 \<and> hd rng \<noteq> 0xff"

lemma real_in_range: "rangeOk rng \<Longrightarrow> inRange k rng \<Longrightarrow> length k = TREE_KEY_LENGTH \<Longrightarrow> realKey k"
  by (cases rng) (auto simp: rangeOk_def inRange_iff realKey_def isSentinel_def)

definition startOf :: "treeRange \<Rightarrow> byte list option \<Rightarrow> byte list" where
  "startOf rng origin = (case origin of Some f \<Rightarrow> f | None \<Rightarrow> rangeStart rng)"

definition originOk :: "treeRange \<Rightarrow> byte list option \<Rightarrow> bool" where
  "originOk rng origin \<longleftrightarrow> (case origin of None \<Rightarrow> True | Some f \<Rightarrow> length f = TREE_KEY_LENGTH \<and> inRange f rng)"

lemma start_in: "rangeOk rng \<Longrightarrow> originOk rng origin \<Longrightarrow> inRange (startOf rng origin) rng \<and> realKey (startOf rng origin)"
  using rangeStart_in [of rng] real_in_range [of rng "startOf rng origin"]
  by (auto simp: startOf_def originOk_def rangeOk_def split: option.splits)

lemma page_next_leaf:
  assumes "leavesOk T" "inRange start rng" "n \<le> length (rangeLeaves T rng start)"
  shows "\<not> isSentinel (firstKey (drop n (fromKey T start))) \<and> inRange (firstKey (drop n (fromKey T start))) rng \<longleftrightarrow>
      n < length (rangeLeaves T rng start)"
    "n < length (rangeLeaves T rng start) \<Longrightarrow> firstKey (drop n (fromKey T start)) = fst (rangeLeaves T rng start ! n)"
proof -
  let ?L = "rangeLeaves T rng start"
  let ?D = "dropWhile (\<lambda>e. inRange (fst e) rng) (fromKey T start)"
  have s: "fromKey T start = ?L @ ?D"
    using takeWhile_dropWhile_id [of "\<lambda>e. inRange (fst e) rng" "fromKey T start"] run_is_range [OF assms(1,2)] by simp
  have d: "drop n (fromKey T start) = drop n ?L @ ?D" using assms(3) by (subst s) simp
  have in_L: "realKey (fst e) \<and> inRange (fst e) rng" if "e \<in> set ?L" for e
    using that assms(1) by (auto simp: rangeLeaves_def leavesOk_def list_all_iff)
  show two: "firstKey (drop n (fromKey T start)) = fst (?L ! n)" if "n < length ?L"
    using that by (simp add: d firstKey_def Cons_nth_drop_Suc [symmetric])
  show "\<not> isSentinel (firstKey (drop n (fromKey T start))) \<and> inRange (firstKey (drop n (fromKey T start))) rng \<longleftrightarrow> n < length ?L"
  proof (cases "n < length ?L")
    case True
    then show ?thesis using two in_L [OF nth_mem [OF True]] by (simp add: realKey_def)
  next
    case False
    then have "drop n (fromKey T start) = ?D" using d assms(3) by simp
    moreover have "\<not> inRange (fst x) rng" if "?D = x # xs" for x xs
      using that hd_dropWhile [of "\<lambda>e. inRange (fst e) rng" "fromKey T start"] by simp
    ultimately show ?thesis using False by (cases ?D) (auto simp: firstKey_def)
  qed
qed

lemma page_slice:
  assumes "backs sess T" "leavesOk T" "memoOk T memo" "rangeOk rng" "originOk rng origin" "0 < limit"
  defines "L \<equiv> rangeLeaves T rng (startOf rng origin)"
  shows "\<exists>memo'. pageRange sess rng origin limit memo = Some (Inr (\<lparr>entries = take (nat limit) L,
      page_next = (if nat limit < length L then Some (fst (L ! nat limit)) else None)\<rparr>, memo')) \<and>
    memoOk T memo' \<and> lookupCount memo' \<le> lookupCount memo + 1 + length (take (nat limit) L)"
proof -
  define start where "start = startOf rng origin"
  have st: "inRange start rng" "realKey start" using start_in [OF assms(4,5)] by (simp_all add: start_def)
  have run: "takeWhile (\<lambda>e. inRange (fst e) rng) (fromKey T start) = L"
    using run_is_range [OF assms(2) st(1)] by (simp add: L_def start_def)
  let ?X = "take (nat limit) L"
  let ?m = "foldl (\<lambda>m e. memoAdd T (fst e) m) (memoAdd T start memo) ?X"
  have w: "walk sess rng (Some limit) always origin collectEntry ([], None) memo =
      Some (Inr ((?X, if ?X = [] then None else Some (firstKey (drop (length ?X) (fromKey T start)))), ?m))"
  proof -
    have se: "start = (case origin of Some f \<Rightarrow> f | None \<Rightarrow> rangeStart rng)" by (simp add: start_def startOf_def)
    have l0: "\<not> reached (Some limit) 0" using assms(6) by (simp add: reached_def)
    show ?thesis
      unfolding walk_ref [OF assms(1,2) collect_keeps assms(3) se st(2,1) refl l0] walkRef_collect run Let_def
      by simp
  qed
  have n: "length ?X \<le> length L" by simp
  note pn = page_next_leaf [OF assms(2) st(1), of "length ?X", folded L_def [folded start_def]]
  have nx: "(case (if ?X = [] then None else Some (firstKey (drop (length ?X) (fromKey T start)))) of
      None \<Rightarrow> None | Some l \<Rightarrow> if \<not> isSentinel l \<and> inRange l rng then Some l else None) =
    (if nat limit < length L then Some (fst (L ! nat limit)) else None)"
  proof (cases "nat limit < length L")
    case True
    then have "length ?X = nat limit" "?X \<noteq> []" using assms(6) by auto
    then show ?thesis using pn True by simp
  next
    case False
    then have "length ?X = length L" by simp
    then show ?thesis using pn False by auto
  qed
  have "memoOk T ?m" by (rule memo_growth(1)) (simp add: assms(3))
  moreover have "length ?m \<le> length memo + 1 + length ?X"
    using memo_growth(2) [where T = T and memo = "memoAdd T start memo" and X = ?X] memoAdd_length [of T start memo] by linarith
  ultimately show ?thesis
    using assms(5,6) w nx
    by (auto simp: pageRange_def originOk_def lookupCount_def split: option.splits)
qed

lemma rest_of_range:
  assumes "leavesOk T" "n < length (rangeLeaves T rng start)"
  shows "rangeLeaves T rng (fst (rangeLeaves T rng start ! n)) = drop n (rangeLeaves T rng start)"
proof -
  let ?L = "rangeLeaves T rng start" and ?x = "fst (rangeLeaves T rng start ! n)"
  have srt: "sorted_wrt (<) (map fst ?L)"
    using assms(1) unfolding leavesOk_def rangeLeaves_def by (simp add: sorted_wrt_map sorted_wrt_filter)
  have "start \<le> ?x" using nth_mem [OF assms(2)] by (simp add: rangeLeaves_def)
  then have "rangeLeaves T rng ?x = filter (\<lambda>e. ?x \<le> fst e) ?L"
    unfolding rangeLeaves_def filter_filter by (intro filter_cong refl) auto
  also have "\<dots> = dropWhile (\<lambda>e. fst e < ?x) ?L" by (rule dropWhile_sorted [OF srt, symmetric])
  also have "\<dots> = drop n ?L"
  proof -
    have "fst (?L ! i) < ?x" if "i < n" for i
      using sorted_wrt_nth_less [OF srt, of i n] that assms(2) by simp
    then have "fst e < ?x" if inside: "e \<in> set (take n ?L)" for e
    proof -
      obtain i where "i < length (take n ?L)" "take n ?L ! i = e" using inside unfolding in_set_conv_nth by blast
      then show ?thesis using \<open>\<And>i. i < n \<Longrightarrow> fst (?L ! i) < ?x\<close> [of i] by simp
    qed
    then have "dropWhile (\<lambda>e. fst e < ?x) (take n ?L @ drop n ?L) = dropWhile (\<lambda>e. fst e < ?x) (drop n ?L)"
      by (rule dropWhile_append2)
    then have "dropWhile (\<lambda>e. fst e < ?x) ?L = dropWhile (\<lambda>e. fst e < ?x) (drop n ?L)" unfolding append_take_drop_id .
    also have "\<dots> = drop n ?L" unfolding Cons_nth_drop_Suc [OF assms(2), symmetric] by simp
    finally show ?thesis .
  qed
  finally show ?thesis .
qed

text \<open>C32: Pages tile a range.  Over a session true to the tree a page never throws and is the next run
  of at most \<open>limit\<close> leaves of the range, in key order; its \<open>next\<close> is absent exactly where the
  range ends, and otherwise names the leaf the following page begins with, so the entries of a
  page and the leaves from its \<open>next\<close> on are the range from its origin, none lost and none
  twice.  The view asks the session for at most one key more than the page has entries.\<close>
theorem pages_tile:
  assumes "backs sess T" "leavesOk T" "memoOk T memo" "rangeOk rng" "originOk rng origin" "0 < limit"
  shows "\<exists>page memo'. pageRange sess rng origin limit memo = Some (Inr (page, memo')) \<and>
    entries page @ (case page_next page of None \<Rightarrow> [] | Some k \<Rightarrow> rangeLeaves T rng k) = rangeLeaves T rng (startOf rng origin) \<and>
    length (entries page) \<le> nat limit \<and> (page_next page = None \<longleftrightarrow> length (rangeLeaves T rng (startOf rng origin)) \<le> nat limit) \<and>
    originOk rng (page_next page) \<and> memoOk T memo' \<and> lookupCount memo' \<le> lookupCount memo + 1 + length (entries page)"
proof -
  define L where "L = rangeLeaves T rng (startOf rng origin)"
  obtain memo' where p: "pageRange sess rng origin limit memo = Some (Inr (\<lparr>entries = take (nat limit) L,
      page_next = (if nat limit < length L then Some (fst (L ! nat limit)) else None)\<rparr>, memo'))"
      "memoOk T memo'" "lookupCount memo' \<le> lookupCount memo + 1 + length (take (nat limit) L)"
    using page_slice [OF assms] unfolding L_def by blast
  have r: "rangeLeaves T rng (fst (L ! nat limit)) = drop (nat limit) L" if "nat limit < length L"
    using rest_of_range [OF assms(2)] that unfolding L_def by blast
  have o: "originOk rng (Some (fst (L ! nat limit)))" if "nat limit < length L"
    using nth_mem [OF that] assms(2) by (auto simp: L_def rangeLeaves_def originOk_def leavesOk_def realKey_def list_all_iff)
  have o': "originOk rng None" by (simp add: originOk_def)
  show ?thesis
    unfolding L_def [symmetric]
    by (intro exI conjI, rule p(1)) (use p(2,3) r o o' in auto)
qed

section \<open>The boxes entries name\<close>

text \<open>The live box of an id.\<close>
definition boxIn :: "leaves \<Rightarrow> string \<Rightarrow> anyBox option" where
  "boxIn T i = (case ebind (hexToBytes i) boxKey of Inl _ \<Rightarrow> None
     | Inr k \<Rightarrow> (case map_of T k of None \<Rightarrow> None
       | Some v \<Rightarrow> (case boxFromRecordBytes i v of Inl _ \<Rightarrow> None | Inr b \<Rightarrow> Some b)))"

lemma namedBox_ok:
  assumes "backs sess T" "memoOk T memo" "boxIn T i = Some b" "boxTypeOf b = t"
  shows "\<exists>memo'. namedBox sess i t memo = Inr (b, memo') \<and> memoOk T memo' \<and> length memo' \<le> length memo + 1"
proof -
  obtain raw k v where k: "hexToBytes i = Inr raw" "boxKey raw = Inr k" "map_of T k = Some v" "boxFromRecordBytes i v = Inr b"
    using assms(3) by (auto simp: boxIn_def ebind_def split: sum.splits option.splits)
  have "entityKey (E_box raw) = Inr k" using k(2) by simp
  then have "realKey k" using entityKey_shape entityKey_no_sentinel unfolding realKey_def by blast
  note l = look_honest [OF assms(1,2) this]
  obtain nk where "honest T k = Found v nk" using k(3) by (simp add: honest_def Let_def)
  then have "namedBox sess i t memo = Inr (b, memoAdd T k memo)"
    using k l assms(4) by (simp add: namedBox_def tv_getBox_def tbind_def tlift_def tret_def)
  then show ?thesis using assms(2) memoAdd_length [of T k memo] by simp
qed

text \<open>The box an entry of a kind names, when it is live and of the kind's type.\<close>
definition holdingIn :: "leaves \<Rightarrow> holdingKind \<Rightarrow> byte list \<times> byte list \<Rightarrow> anyBox option" where
  "holdingIn T kind e = (case (if kind = HK_vouch then map_option bytesToHex
        (case vouchPairBoxId (snd e) of Inl _ \<Rightarrow> None | Inr i \<Rightarrow> Some i) else Some (idAt (fst e) OWNED_BOX_ID_AT)) of
     None \<Rightarrow> None
   | Some i \<Rightarrow> (case boxIn T i of None \<Rightarrow> None | Some b \<Rightarrow> if boxTypeOf b = BOX_TYPE_OF kind then Some b else None))"

lemma holdingBoxes_ok:
  assumes "backs sess T"
  shows "memoOk T memo \<Longrightarrow> list_all (\<lambda>e. holdingIn T kind e \<noteq> None) es \<Longrightarrow>
    \<exists>memo'. holdingBoxes sess kind es memo = Inr (map (\<lambda>e. the (holdingIn T kind e)) es, memo') \<and>
      memoOk T memo' \<and> length memo' \<le> length memo + length es"
proof (induction es arbitrary: memo)
  case (Cons e es)
  obtain key v where e: "e = (key, v)" by fastforce
  obtain b where b: "holdingIn T kind e = Some b" using Cons.prems(2) by auto
  then obtain i where i: "holdingBoxId kind key v memo = Inr (i, memo)" "boxIn T i = Some b" "boxTypeOf b = BOX_TYPE_OF kind"
    by (auto simp: holdingIn_def e holdingBoxId_def pairBoxId_def tbind_def tlift_def tret_def
        split: sum.splits option.splits if_splits)
  obtain m1 where m1: "namedBox sess i (BOX_TYPE_OF kind) memo = Inr (b, m1)" "memoOk T m1" "length m1 \<le> length memo + 1"
    using namedBox_ok [OF assms Cons.prems(1) i(2,3)] by blast
  obtain m2 where m2: "holdingBoxes sess kind es m1 = Inr (map (\<lambda>e. the (holdingIn T kind e)) es, m2)"
      "memoOk T m2" "length m2 \<le> length m1 + length es"
    using Cons.IH [OF m1(2)] Cons.prems(2) by auto
  show ?case using i(1) m1 m2 b by (simp add: e tbind_def tret_def)
qed (simp add: tret_def)

lemma range_of_ok:
  "length owner = 32 \<Longrightarrow> \<exists>rng. RANGE_OF kind owner = Inr rng \<and> rangeOk rng"
  by (cases kind)
    (simp_all add: karmaOfRange_def creditOfRange_def escrowOfRange_def vouchPairRange_def accrualOfRange_def oneRange_def
      b32_def treePrefix_def rangeOk_def TREE_KEY_LENGTH_def)

text \<open>C33: A page of holdings.  Over a session true to a tree whose entries name live boxes of their
  kind, a page is those boxes in key order, at most \<open>limit\<close> of them from the origin on, and the
  view has asked for at most \<open>1 + 2 * limit\<close> keys; the key to go on from is absent exactly where
  the owner's range ends.\<close>
theorem holdings_page_exact:
  assumes "backs sess T" "leavesOk T" "memoOk T memo" "length owner = 32" "RANGE_OF kind owner = Inr rng"
    "originOk rng origin" "0 < limit"
    "list_all (\<lambda>e. holdingIn T kind e \<noteq> None) (rangeLeaves T rng (startOf rng origin))"
  shows "\<exists>page memo'. holdingsPage sess kind owner origin limit memo = Some (Inr (page, memo')) \<and>
    hp_boxes page = map (\<lambda>e. the (holdingIn T kind e)) (take (nat limit) (rangeLeaves T rng (startOf rng origin))) \<and>
    (hp_next page = None \<longleftrightarrow> length (rangeLeaves T rng (startOf rng origin)) \<le> nat limit) \<and>
    lookupCount memo' \<le> lookupCount memo + 1 + 2 * nat limit"
proof -
  define L where "L = rangeLeaves T rng (startOf rng origin)"
  have rk: "rangeOk rng" using range_of_ok [OF assms(4), of kind] assms(5) by auto
  obtain m1 where p: "pageRange sess rng origin limit memo = Some (Inr (\<lparr>entries = take (nat limit) L,
      page_next = (if nat limit < length L then Some (fst (L ! nat limit)) else None)\<rparr>, m1))"
      "memoOk T m1" "lookupCount m1 \<le> lookupCount memo + 1 + length (take (nat limit) L)"
    using page_slice [OF assms(1-3) rk assms(6,7)] unfolding L_def by blast
  have "list_all (\<lambda>e. holdingIn T kind e \<noteq> None) (take (nat limit) L)"
    using assms(8) set_take_subset [of "nat limit" L] unfolding L_def list_all_iff by blast
  from holdingBoxes_ok [OF assms(1) p(2) this] obtain m2 where
    h: "holdingBoxes sess kind (take (nat limit) L) m1 = Inr (map (\<lambda>e. the (holdingIn T kind e)) (take (nat limit) L), m2)"
      "length m2 \<le> length m1 + length (take (nat limit) L)" by blast
  have n: "length (take (nat limit) L) \<le> nat limit" by simp
  have "holdingsPage sess kind owner origin limit memo = Some (Inr (\<lparr>hp_boxes = map (\<lambda>e. the (holdingIn T kind e)) (take (nat limit) L),
      hp_next = (if nat limit < length L then Some (fst (L ! nat limit)) else None)\<rparr>, m2))"
    using assms(4,5) p(1) h(1) by (simp add: holdingsPage_def overRange_def)
  then show ?thesis
    unfolding L_def [symmetric] using p(3) h(2) n by (auto simp: lookupCount_def)
qed

section \<open>The due queues\<close>

lemma tv_ok:
  "tbind m f s = Inr r \<longleftrightarrow> (\<exists>a s'. m s = Inr (a, s') \<and> f a s' = Inr r)"
  "tret x s = Inr q \<longleftrightarrow> q = (x, s)"
  "tfail e s = Inr q' \<longleftrightarrow> False"
  "tlift v s = Inr q'' \<longleftrightarrow> (\<exists>a. v = Inr a \<and> q'' = (a, s))"
  by (auto simp: tbind_def tret_def tfail_def tlift_def bind_iff split: sum.splits)

lemma namedBox_keeps:
  assumes "backs sess T" "memoOk T memo" "namedBox sess i t memo = Inr (b, memo')"
  shows "memoOk T memo'"
proof -
  obtain raw k where k: "hexToBytes i = Inr raw" "boxKey raw = Inr k"
    using assms(3) by (auto simp: namedBox_def tv_getBox_def tv_ok)
  have "entityKey (E_box raw) = Inr k" using k(2) by simp
  then have "realKey k" using entityKey_shape entityKey_no_sentinel unfolding realKey_def by blast
  note l = look_honest [OF assms(1,2) this]
  have "memo' = memoAdd T k memo"
    using assms(3) k l
    by (auto simp: namedBox_def tv_getBox_def tv_ok split: treeLookup.splits option.splits if_splits)
  then show ?thesis using assms(2) by simp
qed

lemma takeBox_keeps: "backs sess T \<Longrightarrow> keepsMemo T (takeBox sess (\<lambda>key _. tret (idAt key pos)) t)"
  unfolding keepsMemo_def
  using namedBox_keeps by (fastforce simp: takeBox_def tbind_def tret_def bind_iff)

text \<open>The box an entry names at a place of its key.\<close>
definition entryBox :: "leaves \<Rightarrow> nat \<Rightarrow> boxType \<Rightarrow> byte list \<times> byte list \<Rightarrow> anyBox option" where
  "entryBox T pos t e = (case boxIn T (idAt (fst e) pos) of None \<Rightarrow> None | Some b \<Rightarrow> if boxTypeOf b = t then Some b else None)"

lemma walkRef_full: "\<not> n < l \<Longrightarrow> walkRef T rng (Some l) within body Q n s memo = Some (Inr (s, memo))"
  by (cases Q) (auto simp: reached_def)

lemma walkRef_outside: "list_all (\<lambda>e. \<not> inRange (fst e) rng) Q \<Longrightarrow> walkRef T rng limit within body Q n s memo = Some (Inr (s, memo))"
  by (cases Q) auto

lemma walkRef_boxes:
  assumes "backs sess T" "list_all (\<lambda>e. entryBox T pos t e \<noteq> None) R"
    "list_all (\<lambda>e. within (fst e) = Inr (fits (fst e)) \<and> inRange (fst e) rng) R"
  shows "memoOk T memo \<Longrightarrow> \<exists>memo'. memoOk T memo' \<and>
    walkRef T rng (Some l) within (takeBox sess (\<lambda>key _. tret (idAt key pos)) t) (R @ Q) n bs memo =
      (let X = take (nat (l - n)) (takeWhile (\<lambda>e. fits (fst e)) R) in
       if length X < nat (l - n) \<and> length X = length R
       then walkRef T rng (Some l) within (takeBox sess (\<lambda>key _. tret (idAt key pos)) t) Q (n + int (length X))
         (bs @ map (\<lambda>e. the (entryBox T pos t e)) X) memo'
       else Some (Inr (bs @ map (\<lambda>e. the (entryBox T pos t e)) X, memo')))"
  using assms(2,3)
proof (induction R arbitrary: n bs memo)
  case (Cons e R)
  obtain k v where e: "e = (k, v)" by fastforce
  have h: "within k = Inr (fits k)" "inRange k rng" using Cons.prems(3) by (simp_all add: e)
  show ?case
  proof (cases "n < l \<and> fits k")
    case True
    then have "n < l" by simp
    then have d: "nat (l - n) = Suc (nat (l - (n + 1)))" by arith
    obtain b where b: "boxIn T (idAt k pos) = Some b" "boxTypeOf b = t" "entryBox T pos t e = Some b"
      using Cons.prems(2) by (auto simp: entryBox_def e split: option.splits if_splits)
    obtain m1 where m1: "namedBox sess (idAt k pos) t (memoAdd T k memo) = Inr (b, m1)" "memoOk T m1"
      using namedBox_ok [OF assms(1) memoAdd_ok [OF Cons.prems(1)] b(1,2)] by blast
    define Y where "Y = take (nat (l - (n + 1))) (takeWhile (\<lambda>e. fits (fst e)) R)"
    obtain m2 where ok: "memoOk T m2" and m2: "walkRef T rng (Some l) within (takeBox sess (\<lambda>key _. tret (idAt key pos)) t) (R @ Q) (n + 1) (bs @ [b]) m1 =
       (if length Y < nat (l - (n + 1)) \<and> length Y = length R
       then walkRef T rng (Some l) within (takeBox sess (\<lambda>key _. tret (idAt key pos)) t) Q (n + 1 + int (length Y))
         ((bs @ [b]) @ map (\<lambda>e. the (entryBox T pos t e)) Y) m2
       else Some (Inr ((bs @ [b]) @ map (\<lambda>e. the (entryBox T pos t e)) Y, m2)))"
      using Cons.IH [OF m1(2)] Cons.prems(2,3) unfolding Y_def Let_def list.pred_inject by blast
    have first: "walkRef T rng (Some l) within (takeBox sess (\<lambda>key _. tret (idAt key pos)) t) ((e # R) @ Q) n bs memo =
       walkRef T rng (Some l) within (takeBox sess (\<lambda>key _. tret (idAt key pos)) t) (R @ Q) (n + 1) (bs @ [b]) m1"
      using True h m1(1) by (simp add: e reached_def takeBox_def tbind_def tret_def)
    have X: "take (nat (l - n)) (takeWhile (\<lambda>e. fits (fst e)) (e # R)) = e # Y"
      using True by (simp add: d e Y_def)
    have eqs: "length (e # Y) < nat (l - n) \<longleftrightarrow> length Y < nat (l - (n + 1))"
      "length (e # Y) = length (e # R) \<longleftrightarrow> length Y = length R"
      "n + int (length (e # Y)) = n + 1 + int (length Y)"
      "bs @ map (\<lambda>e. the (entryBox T pos t e)) (e # Y) = (bs @ [b]) @ map (\<lambda>e. the (entryBox T pos t e)) Y"
      by (simp_all add: d b(3))
    show ?thesis unfolding first X Let_def eqs using ok m2 by blast
  next
    case False
    have "walkRef T rng (Some l) within (takeBox sess (\<lambda>key _. tret (idAt key pos)) t) ((e # R) @ Q) n bs memo = Some (Inr (bs, memo))"
      using False h by (auto simp: e reached_def)
    then have w: "walkRef T rng (Some l) within (takeBox sess (\<lambda>key _. tret (idAt key pos)) t) ((e # R) @ Q) n bs memo = Some (Inr (bs, memo))" .
    have X: "take (nat (l - n)) (takeWhile (\<lambda>e. fits (fst e)) (e # R)) = []" using False by (auto simp: e)
    show ?thesis unfolding w X Let_def using Cons.prems(1) by auto
  qed
qed (auto simp: Let_def walkRef_full)

text \<open>Whether the height in a queue key is due.\<close>
definition dueBy :: "int \<Rightarrow> byte list \<Rightarrow> bool" where
  "dueBy h k = (case keyHeight k of Inl _ \<Rightarrow> False | Inr g \<Rightarrow> g \<le> h)"

lemma take_mono: "xs \<le> ys \<Longrightarrow> take n xs \<le> take n ys" for xs ys :: "byte list"
proof (induction xs arbitrary: ys n)
  case (Cons x xs)
  then show ?case by (cases ys; cases n) auto
qed simp

lemma heights_rise:
  assumes "inRange k [c]" "inRange l [c]" "length k = TREE_KEY_LENGTH" "length l = TREE_KEY_LENGTH" "k < l"
    "keyHeight k = Inr x" "keyHeight l = Inr y"
  shows "x \<le> y"
proof -
  obtain k' l' where k: "k = c # k'" "l = c # l'" using assms(1,2) by (auto simp: inRange_iff)
  have "k' \<le> l'" using assms(5) by (auto simp: k order_le_less)
  then have "take 8 k' \<le> take 8 l'" by (rule take_mono)
  moreover have "length (take 8 k') = length (take 8 l')" using assms(3,4) by (simp add: k)
  ultimately have "beNum (take 8 k') \<le> beNum (take 8 l')" using beNum_less [of "take 8 k'" "take 8 l'"] by (auto simp: order_le_less)
  then show ?thesis using assms(3,4,6,7) by (simp add: keyHeight_def k beNum_def [symmetric] Let_def split: if_splits)
qed

lemma takeWhile_falling:
  assumes "sorted_wrt R xs" "\<And>x y. x \<in> set xs \<Longrightarrow> y \<in> set xs \<Longrightarrow> R x y \<Longrightarrow> P y \<Longrightarrow> P x"
  shows "takeWhile P xs = filter P xs"
  using assms
proof (induction xs)
  case (Cons x xs)
  have "takeWhile P xs = filter P xs"
    by (rule Cons.IH) (use Cons.prems in \<open>simp, meson list.set_intros(2)\<close>)
  moreover have "filter P xs = []" if "\<not> P x" using Cons.prems that by (auto simp: filter_empty_conv)
  ultimately show ?case by simp
qed simp

lemma due_run:
  assumes "leavesOk T" "list_all (\<lambda>e. \<not> isl (keyHeight (fst e))) (rangeLeaves T [c] start)"
  shows "takeWhile (\<lambda>e. dueBy h (fst e)) (rangeLeaves T [c] start) = filter (\<lambda>e. dueBy h (fst e)) (rangeLeaves T [c] start)"
proof (rule takeWhile_falling)
  show "sorted_wrt (\<lambda>a b. fst a < fst b) (rangeLeaves T [c] start)"
    using assms(1) by (simp add: leavesOk_def rangeLeaves_def sorted_wrt_map sorted_wrt_filter)
next
  fix a b
  assume m: "a \<in> set (rangeLeaves T [c] start)" "b \<in> set (rangeLeaves T [c] start)" "fst a < fst b" "dueBy h (fst b)"
  obtain x y where xy: "keyHeight (fst a) = Inr x" "keyHeight (fst b) = Inr y"
    using assms(2) m(1,2) by (auto simp: list_all_iff isl_def) (metis sum.exhaust)
  have "length (fst a) = TREE_KEY_LENGTH" "length (fst b) = TREE_KEY_LENGTH"
    using m(1,2) assms(1) by (auto simp: leavesOk_def rangeLeaves_def realKey_def list_all_iff)
  then have "x \<le> y" using heights_rise [where c = c, OF _ _ _ _ m(3) xy] m(1,2) by (simp add: rangeLeaves_def)
  then show "dueBy h (fst a)" using m(4) xy by (simp add: dueBy_def)
qed

lemma due_walk:
  assumes "backs sess T" "leavesOk T" "memoOk T memo" "c \<noteq> 0" "c \<noteq> 0xff" "0 < limit" "0 \<le> h"
  defines "L \<equiv> rangeLeaves T [c] (rangeStart [c])"
  assumes "list_all (\<lambda>e. \<not> isl (keyHeight (fst e))) L" "list_all (\<lambda>e. entryBox T pos t e \<noteq> None) L"
  shows "\<exists>memo'. indexedBoxes sess [c] pos t (Some limit) (heightWithin h) memo =
    Some (Inr (map (\<lambda>e. the (entryBox T pos t e)) (take (nat limit) (filter (\<lambda>e. dueBy h (fst e)) L)), memo'))"
proof -
  have rk: "rangeOk [c]" using assms(4,5) by (simp add: rangeOk_def TREE_KEY_LENGTH_def)
  have st: "inRange (rangeStart [c]) [c]" "realKey (rangeStart [c])"
    using start_in [OF rk, of None] by (simp_all add: originOk_def startOf_def)
  have h0: "heightWithin h (rangeStart [c]) = Inr True"
    using assms(7) by (simp add: heightWithin_def keyHeight_def rangeStart_def TREE_KEY_LENGTH_def eval_nat_numeral MAX_SAFE_INTEGER_def)
  have l0: "\<not> reached (Some limit) 0" using assms(6) by (simp add: reached_def)
  have run: "takeWhile (\<lambda>e. inRange (fst e) [c]) (fromKey T (rangeStart [c])) = L"
    using run_is_range [OF assms(2) st(1)] by (simp add: L_def)
  define Q where "Q = dropWhile (\<lambda>e. inRange (fst e) [c]) (fromKey T (rangeStart [c]))"
  have split: "fromKey T (rangeStart [c]) = L @ Q" unfolding run [symmetric] Q_def by simp
  have fitsL: "list_all (\<lambda>e. heightWithin h (fst e) = Inr (dueBy h (fst e)) \<and> inRange (fst e) [c]) L"
    using assms(9) by (auto simp: L_def rangeLeaves_def list_all_iff heightWithin_def dueBy_def split: sum.splits)
  have Q: "walkRef T [c] (Some limit) (heightWithin h) body Q n s m = Some (Inr (s, m))" for body :: "anyBox list walkBody" and n s m
  proof (cases Q)
    case (Cons e Q')
    then have "\<not> inRange (fst e) [c]" unfolding Q_def by (simp add: dropWhile_eq_Cons_conv)
    then show ?thesis by (cases e) (simp add: Cons)
  qed simp
  obtain m where "walkRef T [c] (Some limit) (heightWithin h) (takeBox sess (\<lambda>key _. tret (idAt key pos)) t) (L @ Q) 0 []
      (memoAdd T (rangeStart [c]) memo) =
      (let X = take (nat (limit - 0)) (takeWhile (\<lambda>e. dueBy h (fst e)) L) in
       if length X < nat (limit - 0) \<and> length X = length L
       then walkRef T [c] (Some limit) (heightWithin h) (takeBox sess (\<lambda>key _. tret (idAt key pos)) t) Q (0 + int (length X))
         ([] @ map (\<lambda>e. the (entryBox T pos t e)) X) m
       else Some (Inr ([] @ map (\<lambda>e. the (entryBox T pos t e)) X, m)))"
    using walkRef_boxes [OF assms(1,10) fitsL memoAdd_ok [OF assms(3)]] by blast
  then have "walkRef T [c] (Some limit) (heightWithin h) (takeBox sess (\<lambda>key _. tret (idAt key pos)) t) (L @ Q) 0 []
      (memoAdd T (rangeStart [c]) memo) =
      Some (Inr (map (\<lambda>e. the (entryBox T pos t e)) (take (nat limit) (filter (\<lambda>e. dueBy h (fst e)) L)), m))"
    unfolding due_run [OF assms(2) assms(9) [unfolded L_def], folded L_def] Q by (simp add: Let_def)
  then show ?thesis
    unfolding indexedBoxes_def
      walk_ref [OF assms(1,2) takeBox_keeps [OF assms(1)] assms(3), where origin = None and rng = "[c]" and within = "heightWithin h"
        and limit = "Some limit" and start = "rangeStart [c]", unfolded option.case, OF refl st(2,1) h0 l0] split
    by blast
qed

text \<open>C31: The due queues.  Over a session true to a tree whose queue leaves name live bonds, the sweep of
  a block's bonds is exactly those whose queue height is at most the block's, earliest first and at
  most \<open>limit\<close> of them: the walk's early stop at the first later height leaves out none, because
  the key orders the queue by height.  The same holds of the vouch escrows falling due.\<close>
theorem due_queues_exact:
  assumes "backs sess T" "leavesOk T" "memoOk T memo" "0 < limit" "0 \<le> h"
    "\<forall>rng\<in>{bondDueRange, escrowDueRange}. list_all (\<lambda>e. \<not> isl (keyHeight (fst e))) (rangeLeaves T rng (rangeStart rng))"
    "list_all (\<lambda>e. entryBox T DUE_BOX_ID_AT BT_bond e \<noteq> None) (rangeLeaves T bondDueRange (rangeStart bondDueRange))"
    "list_all (\<lambda>e. entryBox T DUE_BOX_ID_AT BT_vouch_escrow e \<noteq> None) (rangeLeaves T escrowDueRange (rangeStart escrowDueRange))"
  shows "(\<exists>m. tv_getBondsInvitedAt sess h limit memo = Some (Inr (map (\<lambda>e. the (entryBox T DUE_BOX_ID_AT BT_bond e))
      (take (nat limit) (filter (\<lambda>e. dueBy h (fst e)) (rangeLeaves T bondDueRange (rangeStart bondDueRange)))), m))) \<and>
    (\<exists>m. tv_getVouchEscrowsReleasableAt sess h limit memo = Some (Inr (map (\<lambda>e. the (entryBox T DUE_BOX_ID_AT BT_vouch_escrow e))
      (take (nat limit) (filter (\<lambda>e. dueBy h (fst e)) (rangeLeaves T escrowDueRange (rangeStart escrowDueRange)))), m)))"
proof -
  have r: "bondDueRange = [0x14]" "escrowDueRange = [0x13]"
    by (simp_all add: bondDueRange_def escrowDueRange_def treePrefix_def)
  have c: "(0x14 :: byte) \<noteq> 0" "(0x14 :: byte) \<noteq> 0xff" "(0x13 :: byte) \<noteq> 0" "(0x13 :: byte) \<noteq> 0xff" by simp_all
  have k: "list_all (\<lambda>e. \<not> isl (keyHeight (fst e))) (rangeLeaves T [0x14] (rangeStart [0x14]))"
    "list_all (\<lambda>e. \<not> isl (keyHeight (fst e))) (rangeLeaves T [0x13] (rangeStart [0x13]))"
    using assms(6) unfolding r by blast+
  have b: "\<exists>m. tv_getBondsInvitedAt sess h limit memo = Some (Inr (map (\<lambda>e. the (entryBox T DUE_BOX_ID_AT BT_bond e))
      (take (nat limit) (filter (\<lambda>e. dueBy h (fst e)) (rangeLeaves T bondDueRange (rangeStart bondDueRange)))), m))"
    unfolding tv_getBondsInvitedAt_def r by (rule due_walk [OF assms(1-3) c(1,2) assms(4,5) k(1) assms(7) [unfolded r]])
  have e: "\<exists>m. tv_getVouchEscrowsReleasableAt sess h limit memo = Some (Inr (map (\<lambda>e. the (entryBox T DUE_BOX_ID_AT BT_vouch_escrow e))
      (take (nat limit) (filter (\<lambda>e. dueBy h (fst e)) (rangeLeaves T escrowDueRange (rangeStart escrowDueRange)))), m))"
    unfolding tv_getVouchEscrowsReleasableAt_def r by (rule due_walk [OF assms(1-3) c(3,4) assms(4,5) k(2) assms(8) [unfolded r]])
  show ?thesis using b e by (rule conjI)
qed

section \<open>A small tree\<close>

definition leafOf :: "byte list res \<Rightarrow> byte list res \<Rightarrow> leaves" where
  "leafOf k v = (case k of Inl _ \<Rightarrow> [] | Inr k \<Rightarrow> (case v of Inl _ \<Rightarrow> [] | Inr v \<Rightarrow> [(k, v)]))"

definition sampleTree :: leaves where
  "sampleTree =
     leafOf (boxKey (replicate 32 1)) (boxRecordBytes sampleBox (bytesToHex (replicate 32 255)) 2) @
     leafOf (boxKey (replicate 32 2)) (boxRecordBytes \<lparr>boxValue = 5, createdAtBlock = 290, boxTail = Bond (replicate 32 7) (replicate 32 8)\<rparr>
       (bytesToHex (replicate 32 254)) 0) @
     leafOf (boxKey (replicate 32 3)) (boxRecordBytes sampleBox (bytesToHex (replicate 32 253)) 1) @
     leafOf (karmaOfKey (replicate 32 7) (replicate 32 1)) (Inr INDEX_MARKER) @
     leafOf (karmaOfKey (replicate 32 7) (replicate 32 3)) (Inr INDEX_MARKER) @
     leafOf (bondDueKey 290 (replicate 32 2)) (Inr INDEX_MARKER)"

lemma sample_ok: "leavesOk sampleTree" by code_simp

definition sampleTreeSession :: treeSession where "sampleTreeSession k = Inr (honest sampleTree k)"

lemma sample_backs: "backs sampleTreeSession sampleTree" by (simp add: backs_def sampleTreeSession_def)

lemma memoOk_Nil [simp]: "memoOk T []" by (simp add: memoOk_def)

definition sampleRange :: treeRange where "sampleRange = treePrefix TT_karmaOf [replicate 32 7]"

lemma sample_range: "karmaOfRange (replicate 32 7) = Inr sampleRange" "rangeOk sampleRange" by code_simp+

lemma sample_run: "length (rangeLeaves sampleTree sampleRange (startOf sampleRange None)) = 2" by code_simp

lemma pages_tile_witness:
  "\<exists>page memo'. pageRange sampleTreeSession sampleRange None 1 [] = Some (Inr (page, memo')) \<and>
     page_next page \<noteq> None \<and> length (entries page) \<le> 1 \<and> lookupCount memo' \<le> 2"
proof -
  have o: "originOk sampleRange None" by (simp add: originOk_def)
  obtain page memo' where p: "pageRange sampleTreeSession sampleRange None 1 [] = Some (Inr (page, memo'))"
      "length (entries page) \<le> nat 1" "lookupCount memo' \<le> lookupCount [] + 1 + length (entries page)"
      "page_next page = None \<longleftrightarrow> length (rangeLeaves sampleTree sampleRange (startOf sampleRange None)) \<le> nat 1"
    using pages_tile [OF sample_backs sample_ok memoOk_Nil sample_range(2) o zero_less_one] by (elim exE conjE) (rule that)
  show ?thesis using p by (intro exI [of _ page] exI [of _ memo']) (simp add: sample_run lookupCount_def)
qed

lemma sample_holdings:
  "list_all (\<lambda>e. holdingIn sampleTree HK_karma e \<noteq> None) (rangeLeaves sampleTree sampleRange (startOf sampleRange None))"
  by code_simp

lemma sample_first:
  "map (\<lambda>e. boxIndex (the (holdingIn sampleTree HK_karma e))) (take 1 (rangeLeaves sampleTree sampleRange (startOf sampleRange None))) = [2]"
  by code_simp

lemma holdings_page_exact_witness:
  "\<exists>page memo'. holdingsPage sampleTreeSession HK_karma (replicate 32 7) None 1 [] = Some (Inr (page, memo')) \<and>
     map boxIndex (hp_boxes page) = [2] \<and> hp_next page \<noteq> None"
proof -
  have o: "originOk sampleRange None" by (simp add: originOk_def)
  have r: "RANGE_OF HK_karma (replicate 32 7) = Inr sampleRange" by (simp add: sample_range(1))
  obtain page memo' where p: "holdingsPage sampleTreeSession HK_karma (replicate 32 7) None 1 [] = Some (Inr (page, memo'))"
      "hp_boxes page = map (\<lambda>e. the (holdingIn sampleTree HK_karma e)) (take (nat 1) (rangeLeaves sampleTree sampleRange (startOf sampleRange None)))"
      "hp_next page = None \<longleftrightarrow> length (rangeLeaves sampleTree sampleRange (startOf sampleRange None)) \<le> nat 1"
    using holdings_page_exact [OF sample_backs sample_ok memoOk_Nil length_replicate r o zero_less_one sample_holdings] by (elim exE conjE) (rule that)
  have "map boxIndex (hp_boxes page) = [2]"
    using sample_first unfolding p(2) map_map comp_def by (simp only: nat_one_as_int [symmetric])
  then show ?thesis using p by (intro exI [of _ page] exI [of _ memo']) (simp add: sample_run)
qed

lemma sample_due:
  "list_all (\<lambda>e. \<not> isl (keyHeight (fst e))) (rangeLeaves sampleTree bondDueRange (rangeStart bondDueRange))"
  "rangeLeaves sampleTree escrowDueRange (rangeStart escrowDueRange) = []"
  "list_all (\<lambda>e. entryBox sampleTree DUE_BOX_ID_AT BT_bond e \<noteq> None) (rangeLeaves sampleTree bondDueRange (rangeStart bondDueRange))"
  "map (\<lambda>e. boxValue (the (entryBox sampleTree DUE_BOX_ID_AT BT_bond e)))
    (take (nat 8) (filter (\<lambda>e. dueBy 290 (fst e)) (rangeLeaves sampleTree bondDueRange (rangeStart bondDueRange)))) = [5]"
  by code_simp+

lemma due_queues_exact_witness:
  "\<exists>bs m. tv_getBondsInvitedAt sampleTreeSession 290 8 [] = Some (Inr (bs, m)) \<and> map boxValue bs = [5]"
proof -
  have "list_all (\<lambda>e. \<not> isl (keyHeight (fst e))) (rangeLeaves sampleTree rng (rangeStart rng))"
    if "rng \<in> {bondDueRange, escrowDueRange}" for rng
    using that sample_due(1,2) by auto
  then have r: "\<forall>rng\<in>{bondDueRange, escrowDueRange}. list_all (\<lambda>e. \<not> isl (keyHeight (fst e))) (rangeLeaves sampleTree rng (rangeStart rng))"
    by blast
  have e: "list_all (\<lambda>e. entryBox sampleTree DUE_BOX_ID_AT BT_vouch_escrow e \<noteq> None) (rangeLeaves sampleTree escrowDueRange (rangeStart escrowDueRange))"
    unfolding sample_due(2) by simp
  obtain m where m: "tv_getBondsInvitedAt sampleTreeSession 290 8 [] = Some (Inr (map (\<lambda>e. the (entryBox sampleTree DUE_BOX_ID_AT BT_bond e))
      (take (nat 8) (filter (\<lambda>e. dueBy 290 (fst e)) (rangeLeaves sampleTree bondDueRange (rangeStart bondDueRange)))), m))"
    using due_queues_exact [OF sample_backs sample_ok memoOk_Nil _ _ r sample_due(3) e, of 8 290] by auto
  show ?thesis
    by (intro exI conjI, rule m) (use sample_due(4) in \<open>simp only: map_map comp_def\<close>)
qed

end
