(* ===== verification/TreeWrites.thy ===== *)
theory TreeWrites
  imports TreeView
begin

text \<open>
  The writes of a block to the authenticated tree
  (\<open>packages/consensus/src/tree-writes.ts\<close>): the block's effects netted into one
  operation per key, the cast counts and lapsed entries that follow from them, genesis
  as writes, and their consensus order.  What a write needs from before the block it
  reads through the block's own tree view.
\<close>

section \<open>Writes\<close>

datatype treeWrite =
    Remove (tw_key: "byte list")
  | Insert (tw_key: "byte list") "byte list"
  | Update (tw_key: "byte list") "byte list"
  | InsertOrUpdate (tw_key: "byte list") "byte list"

fun TAG_RANK :: "treeWrite \<Rightarrow> nat" where
  "TAG_RANK (Remove _) = 0"
| "TAG_RANK (Insert _ _) = 1"
| "TAG_RANK (Update _ _) = 2"
| "TAG_RANK (InsertOrUpdate _ _) = 3"

text \<open>Tag rank, then key: the sort is stable and its keys are lexicographic pairs.\<close>
definition ordered :: "treeWrite list \<Rightarrow> treeWrite list res" where
  "ordered writes =
     (if \<not> distinct (map (\<lambda>w. bytesToHex (tw_key w)) writes) then Inl OtherErr
      else Inr (sort_key (\<lambda>w. (TAG_RANK w, tw_key w)) writes))"

fun tmap :: "('a \<Rightarrow> 'b tv) \<Rightarrow> 'a list \<Rightarrow> 'b list tv" where
  "tmap f [] = tret []"
| "tmap f (x # xs) = tbind (f x) (\<lambda>y. tbind (tmap f xs) (\<lambda>ys. tret (y # ys)))"

definition keyed :: "(byte list \<Rightarrow> byte list \<Rightarrow> treeWrite) \<Rightarrow> byte list res \<Rightarrow> byte list res \<Rightarrow> treeWrite res" where
  "keyed op key val = ebind key (\<lambda>k. ebind val (\<lambda>v. Inr (op k v)))"

section \<open>Boxes and cast counts\<close>

text \<open>A \<open>Map\<close> keeps a key's place when it is set again.\<close>
fun netStep :: "blockMutation \<Rightarrow> (string \<times> anyBox) list \<times> string list \<Rightarrow> (string \<times> anyBox) list \<times> string list" where
  "netStep (BoxInsert i b) (ins, sp) = (AList.update i b ins, sp)"
| "netStep (BoxRemove i) (ins, sp) = (if map_of ins i \<noteq> None then (AList.delete i ins, sp) else (ins, sp @ [i]))"
| "netStep _ q = q"

definition netBoxes :: "blockMutation list \<Rightarrow> anyBox list \<times> string list" where
  "netBoxes ms = (let (ins, sp) = fold netStep ms ([], []) in (map snd ins, sp))"

type_synonym casts = "(string \<times> byte list \<times> int) list"

definition moveCast :: "byte list \<times> int \<Rightarrow> casts \<Rightarrow> casts" where
  "moveCast = (\<lambda>(voucherId, delta) m. case map_of m (bytesToHex voucherId) of
     Some (v, d) \<Rightarrow> AList.update (bytesToHex voucherId) (v, d + delta) m
   | None \<Rightarrow> m @ [(bytesToHex voucherId, (voucherId, delta))])"

definition castMove :: "anyBox \<Rightarrow> int \<Rightarrow> (byte list \<times> int) list" where
  "castMove bx delta = (case boxTail bx of Vouch voucher _ \<Rightarrow> [(voucher, delta)] | _ \<Rightarrow> [])"

definition grantHeightOf :: "treeSession \<Rightarrow> byte list \<Rightarrow> int tv" where
  "grantHeightOf sess invitee = tbind (tv_getIdentityRecord sess invitee) (\<lambda>r. case r of
     None \<Rightarrow> tfail Inconsistent | Some rcd \<Rightarrow> tret (invitedAtBlock rcd))"

definition spendWrites :: "treeSession \<Rightarrow> string \<Rightarrow> (treeWrite list \<times> (byte list \<times> int) list) tv" where
  "spendWrites sess i = tbind (tv_getBox sess i) (\<lambda>b. case b of
     None \<Rightarrow> tfail (Thrown OtherErr)
   | Some bx \<Rightarrow> tbind (tlift (ebind (hexToBytes i) boxKey)) (\<lambda>k.
       tbind (case boxTail bx of Bond _ invitee \<Rightarrow> tbind (grantHeightOf sess invitee) (\<lambda>h. tret (Some h)) | _ \<Rightarrow> tret None) (\<lambda>grant.
       tbind (tlift (indexEntriesOfBox bx grant)) (\<lambda>es.
       tret (Remove k # map (\<lambda>(key, _). Remove key) es, castMove bx (-1))))))"

definition boxWrites :: "anyBox \<Rightarrow> int option \<Rightarrow> treeWrite list res" where
  "boxWrites bx grant =
     ebind (keyed Insert (ebind (hexToBytes (boxId bx)) boxKey) (boxRecordBytes (candidate_of bx) (boxTxId bx) (boxIndex bx))) (\<lambda>w.
     ebind (indexEntriesOfBox bx grant) (\<lambda>es. Inr (w # map (\<lambda>(key, v). Insert key v) es)))"

definition createWrites :: "int \<Rightarrow> anyBox \<Rightarrow> (treeWrite list \<times> (byte list \<times> int) list) res" where
  "createWrites height bx = ebind (boxWrites bx (Some height)) (\<lambda>ws. Inr (ws, castMove bx 1))"

section \<open>Records, names and holders\<close>

record gathered =
  g_records :: "(string \<times> byte list \<times> identityRecord) list"
  g_network :: "networkRecord option"
  g_names :: "(string \<times> bool \<times> usernameRow option) list"
  g_holders :: "(string \<times> byte list \<times> bool \<times> holderRecord option) list"

definition newGathered :: gathered where
  "newGathered = \<lparr>g_records = [], g_network = None, g_names = [], g_holders = []\<rparr>"

text \<open>The last write to each; a name and a holder keep the \<open>heldBefore\<close> of their first.\<close>
fun gather :: "blockMutation \<Rightarrow> gathered \<Rightarrow> gathered" where
  "gather (RecordWrite k r) g = g\<lparr>g_records := AList.update (bytesToHex k) (k, r) (g_records g)\<rparr>"
| "gather (NetworkWrite n) g = g\<lparr>g_network := Some n\<rparr>"
| "gather (UsernameWrite lower row held) g = g\<lparr>g_names := (case map_of (g_names g) lower of
     Some (h, _) \<Rightarrow> AList.update lower (h, row) (g_names g)
   | None \<Rightarrow> g_names g @ [(lower, held, row)])\<rparr>"
| "gather (HolderWrite owner rcd held) g = g\<lparr>g_holders := (case map_of (g_holders g) (bytesToHex owner) of
     Some (o1, h, _) \<Rightarrow> AList.update (bytesToHex owner) (o1, h, rcd) (g_holders g)
   | None \<Rightarrow> g_holders g @ [(bytesToHex owner, owner, held, rcd)])\<rparr>"
| "gather _ g = g"

definition recordWrite :: "string \<times> byte list \<times> identityRecord \<Rightarrow> treeWrite res" where
  "recordWrite = (\<lambda>(_, identityId, r). keyed InsertOrUpdate (identityKey identityId) (identityRecordBytes r))"

text \<open>\<open>countBefore\<close>: what \<open>counted\<close> keeps, the view's memo answers again.\<close>
definition castWrites :: "treeSession \<Rightarrow> byte list \<Rightarrow> int option \<Rightarrow> treeWrite list tv" where
  "castWrites sess identityId moved = (case moved of
     None \<Rightarrow> tret []
   | Some delta \<Rightarrow> tbind (tlift (castCountKey identityId)) (\<lambda>key. tbind (castCountOf sess identityId) (\<lambda>before.
       let after = before + delta in
       if after < 0 then tfail Inconsistent
       else if delta = 0 then tret []
       else if after = 0 then tret [Remove key]
       else tbind (tlift (castCountBytes after)) (\<lambda>v. tret [if before = 0 then Insert key v else Update key v]))))"

definition lapsedMember :: "treeSession \<Rightarrow> byte list \<Rightarrow> identityRecord option \<Rightarrow> int \<Rightarrow> bool tv" where
  "lapsedMember sess identityId r delta =
     (if isLapsedMember r then tbind (castCountOf sess identityId) (\<lambda>n. tret (n + delta > 0)) else tret False)"

definition identityWrites :: "treeSession \<Rightarrow> casts \<Rightarrow> (string \<times> byte list \<times> identityRecord) list \<Rightarrow> string \<Rightarrow> treeWrite list tv" where
  "identityWrites sess cs records identity =
     (let moved = map_of cs identity;
          identityId = (case moved of Some (v, _) \<Rightarrow> v | None \<Rightarrow> fst (the (map_of records identity)));
          delta = map_option snd moved in
      tbind (castWrites sess identityId delta) (\<lambda>ws.
      tbind (tv_getIdentityRecord sess identityId) (\<lambda>before.
      let after = (case map_of records identity of Some (_, r) \<Rightarrow> Some r | None \<Rightarrow> before) in
      tbind (lapsedMember sess identityId before 0) (\<lambda>heldBefore.
      tbind (lapsedMember sess identityId after (case delta of None \<Rightarrow> 0 | Some d \<Rightarrow> d)) (\<lambda>heldAfter.
      if heldAfter \<and> \<not> heldBefore then tbind (tlift (lapsedKey identityId)) (\<lambda>k. tret (ws @ [InsertOrUpdate k INDEX_MARKER]))
      else if heldBefore \<and> \<not> heldAfter then tbind (tlift (lapsedKey identityId)) (\<lambda>k. tret (ws @ [Remove k]))
      else tret ws)))))"

definition networkWrites :: "networkRecord option \<Rightarrow> treeWrite list res" where
  "networkWrites n = (case n of None \<Rightarrow> Inr []
     | Some r \<Rightarrow> ebind (keyed Update networkKey (networkRecordBytes r)) (\<lambda>w. Inr [w]))"

definition heldWrites :: "byte list res \<Rightarrow> bool \<Rightarrow> byte list res option \<Rightarrow> treeWrite list res" where
  "heldWrites key heldBefore val = ebind key (\<lambda>k. case val of
     Some v \<Rightarrow> ebind v (\<lambda>v. Inr [InsertOrUpdate k v])
   | None \<Rightarrow> Inr (if heldBefore then [Remove k] else []))"

definition nameWrites :: "string \<times> bool \<times> usernameRow option \<Rightarrow> treeWrite list res" where
  "nameWrites = (\<lambda>(lower, heldBefore, lastRow). heldWrites (nameKey (ascii lower)) heldBefore
     (map_option (\<lambda>row. nameRecordBytes \<lparr>nr_boxId = row_boxId row, nr_claimedAtBlock = claimedAtBlock row\<rparr>) lastRow))"

definition holderWrites :: "string \<times> byte list \<times> bool \<times> holderRecord option \<Rightarrow> treeWrite list res" where
  "holderWrites = (\<lambda>(_, owner, heldBefore, lastRow). heldWrites (holderKey owner) heldBefore
     (map_option (\<lambda>h. holderRecordBytes \<lparr>hr_claimAvailable = claimAvailable h, hr_boxId = Some (holder_boxId h)\<rparr>) lastRow))"

section \<open>Posts and likes\<close>

definition postWrite :: "int \<Rightarrow> blockPost \<Rightarrow> treeWrite res" where
  "postWrite height p = keyed Insert (ebind (hexToBytes (bp_postId p)) postKey)
     (postRecordBytes \<lparr>pr_author = author (bp_post p), pr_height = height, pr_standing = RowLive\<rparr>)"

definition withdrawalWrite :: "treeSession \<Rightarrow> string \<Rightarrow> treeWrite tv" where
  "withdrawalWrite sess postId =
     tbind (tv_getTopologyAuthor sess postId) (\<lambda>auth.
     tbind (tv_getTopologyHeight sess postId) (\<lambda>confirmedAt.
     case (auth, confirmedAt) of
       (Some a, Some h) \<Rightarrow> tlift (keyed Update (ebind (hexToBytes postId) postKey)
         (postRecordBytes \<lparr>pr_author = a, pr_height = h, pr_standing = RowWithdrawn\<rparr>))
     | _ \<Rightarrow> tfail (Thrown OtherErr)))"

definition likeWrite :: "string \<times> byte list \<Rightarrow> treeWrite res" where
  "likeWrite = (\<lambda>(target, liker). keyed Insert (ebind (hexToBytes target) (\<lambda>raw. likeEntryKey raw liker)) (Inr LIKE_MARKER))"

section \<open>A block's writes, and genesis\<close>

definition treeWritesOf :: "blockEffects \<Rightarrow> int \<Rightarrow> treeSession \<Rightarrow> treeWrite list tv" where
  "treeWritesOf effects height sess =
     (let (created, spentIds) = netBoxes (ef_mutations effects) in
      tbind (tmap (spendWrites sess) spentIds) (\<lambda>sp.
      tbind (tlift (emap (createWrites height) created)) (\<lambda>cr.
      let cs = fold moveCast (concat (map snd sp) @ concat (map snd cr)) [];
          g = fold gather (ef_mutations effects) newGathered in
      tbind (tlift (emap recordWrite (g_records g))) (\<lambda>rw.
      tbind (tmap (identityWrites sess cs (g_records g)) (sort (remdups (map fst cs @ map fst (g_records g))))) (\<lambda>iw.
      tbind (tlift (networkWrites (g_network g))) (\<lambda>nw.
      tbind (tlift (emap nameWrites (g_names g))) (\<lambda>un.
      tbind (tlift (emap holderWrites (g_holders g))) (\<lambda>hw.
      tbind (tlift (emap (postWrite height) (ef_posts effects))) (\<lambda>pw.
      tbind (tmap (withdrawalWrite sess) (ef_withdrawals effects)) (\<lambda>ww.
      tbind (tlift (emap likeWrite (ef_likeRecords effects))) (\<lambda>lw.
      tlift (ordered (concat (map fst sp) @ concat (map fst cr) @ rw @ concat iw @ nw @ concat un @ concat hw @
        pw @ ww @ lw)))))))))))))"

definition seedBoxWrites :: "(string \<times> identityRecord) list \<Rightarrow> anyBox \<Rightarrow> treeWrite list res" where
  "seedBoxWrites recordOf bx = (case boxTail bx of
     Bond _ invitee \<Rightarrow>
       ebind (keyed Insert (ebind (hexToBytes (boxId bx)) boxKey) (boxRecordBytes (candidate_of bx) (boxTxId bx) (boxIndex bx))) (\<lambda>_.
       case map_of recordOf (bytesToHex invitee) of
         None \<Rightarrow> Inl OtherErr
       | Some r \<Rightarrow> boxWrites bx (Some (invitedAtBlock r)))
   | _ \<Rightarrow> boxWrites bx None)"

definition seedRecordWrites :: "casts \<Rightarrow> byte list \<times> identityRecord \<Rightarrow> treeWrite list res" where
  "seedRecordWrites cs = (\<lambda>(identityId, r).
     ebind (keyed Insert (identityKey identityId) (identityRecordBytes r)) (\<lambda>w.
     if isLapsedMember (Some r) \<and> map_of cs (bytesToHex identityId) \<noteq> None
     then ebind (lapsedKey identityId) (\<lambda>k. Inr [w, Insert k INDEX_MARKER]) else Inr [w]))"

text \<open>\<open>new Map(...)\<close> keeps the last record of an identity.\<close>
definition seedTreeWrites :: "anyBox list \<Rightarrow> (byte list \<times> identityRecord) list \<Rightarrow> networkRecord \<Rightarrow> treeWrite list res" where
  "seedTreeWrites boxes records net =
     (let recordOf = fold (\<lambda>(k, r). AList.update (bytesToHex k) r) records [];
          cs = fold moveCast (concat (map (\<lambda>b. castMove b 1) boxes)) [] in
      ebind (emap (seedBoxWrites recordOf) boxes) (\<lambda>bw.
      ebind (emap (\<lambda>(_, v, n). keyed Insert (castCountKey v) (castCountBytes n)) cs) (\<lambda>cw.
      ebind (emap (seedRecordWrites cs) records) (\<lambda>rw.
      ebind (keyed Insert networkKey (networkRecordBytes net)) (\<lambda>nw.
      ordered (concat bw @ cw @ concat rw @ [nw]))))))"

end
