(* ===== verification/TreeWriteLaws.thy ===== *)
theory TreeWriteLaws
  imports TreeWrites TreeViewLaws Chain
begin

text \<open>
  The writes of a block carry its ledger into the tree: each key takes one write, in the
  consensus order, and where the tree held the boxes and identity records of the ledger
  before the block, it holds those of the ledger after it.
\<close>

section \<open>The order\<close>

lemma ordered_ok:
  assumes "ordered ws = Inr rs"
  shows "set rs = set ws" "mset rs = mset ws" "distinct (map tw_key rs)"
    "sorted_wrt (\<lambda>a b. (TAG_RANK a, tw_key a) < (TAG_RANK b, tw_key b)) rs"
proof -
  have d: "distinct (map (\<lambda>w. bytesToHex (tw_key w)) ws)" and rs: "rs = sort_key (\<lambda>w. (TAG_RANK w, tw_key w)) ws"
    using assms by (auto simp: ordered_def split: if_splits)
  show "set rs = set ws" "mset rs = mset ws" by (simp_all add: rs)
  have "distinct (map bytesToHex (map tw_key ws))" using d by (simp add: comp_def)
  then have "distinct (map tw_key ws)" unfolding distinct_map by blast
  then show k: "distinct (map tw_key rs)"
    using \<open>mset rs = mset ws\<close> by (metis mset_eq_imp_distinct_iff mset_map)
  have "sorted (map (\<lambda>w. (TAG_RANK w, tw_key w)) rs)" unfolding rs by simp
  moreover have "distinct (map (\<lambda>w. (TAG_RANK w, tw_key w)) rs)"
    using k by (auto simp: distinct_map inj_on_def)
  ultimately have "sorted_wrt (<) (map (\<lambda>w. (TAG_RANK w, tw_key w)) rs)" by (simp add: strict_sorted_iff)
  then show "sorted_wrt (\<lambda>a b. (TAG_RANK a, tw_key a) < (TAG_RANK b, tw_key b)) rs"
    by (simp add: sorted_wrt_map)
qed

section \<open>Applying writes\<close>

fun applyWrite :: "treeWrite \<Rightarrow> (byte list \<rightharpoonup> byte list) \<Rightarrow> (byte list \<rightharpoonup> byte list)" where
  "applyWrite (Remove k) T = T(k := None)"
| "applyWrite (Insert k v) T = T(k \<mapsto> v)"
| "applyWrite (Update k v) T = T(k \<mapsto> v)"
| "applyWrite (InsertOrUpdate k v) T = T(k \<mapsto> v)"

lemma applyWrite_other: "tw_key w \<noteq> k \<Longrightarrow> applyWrite w T k = T k"
  by (cases w) simp_all

lemma applyWrite_here: "tw_key w = k \<Longrightarrow> applyWrite w T k = applyWrite w Map.empty k"
  by (cases w) simp_all

lemma fold_writes_none: "\<forall>w\<in>set ws. tw_key w \<noteq> k \<Longrightarrow> fold applyWrite ws T k = T k"
  by (induction ws arbitrary: T) (simp_all add: applyWrite_other)

lemma fold_writes_one:
  assumes "distinct (map tw_key ws)" "w \<in> set ws"
  shows "fold applyWrite ws T (tw_key w) = applyWrite w Map.empty (tw_key w)"
  using assms
proof (induction ws arbitrary: T)
  case (Cons x ws)
  show ?case
  proof (cases "x = w")
    case True
    then have "\<forall>y\<in>set ws. tw_key y \<noteq> tw_key w" using Cons.prems(1) by (metis distinct.simps(2) image_eqI list.simps(9) set_map)
    from fold_writes_none [OF this] show ?thesis using True applyWrite_here [of w "tw_key w" T] by simp
  next
    case False
    then show ?thesis using Cons by simp
  qed
qed simp

section \<open>The reads of a run\<close>

lemma tv_ok_run:
  "tbind m f s = Inr r \<longleftrightarrow> (\<exists>a s'. m s = Inr (a, s') \<and> f a s' = Inr r)"
  "tret x s = Inr q \<longleftrightarrow> q = (x, s)"
  "tfail e s = Inr q' \<longleftrightarrow> False"
  "tlift v s = Inr q'' \<longleftrightarrow> (\<exists>a. v = Inr a \<and> q'' = (a, s))"
  by (auto simp: tbind_def tret_def tfail_def tlift_def bind_iff split: sum.splits)

lemma tmap_ok: "tmap f xs m = Inr (ys, m') \<Longrightarrow> list_all2 (\<lambda>x y. \<exists>m1 m2. f x m1 = Inr (y, m2)) xs ys"
proof (induction xs arbitrary: m ys)
  case (Cons x xs)
  then show ?case by (fastforce simp: tv_ok_run)
qed (simp add: tv_ok_run)

lemma emap_ok: "emap f xs = Inr ys \<Longrightarrow> list_all2 (\<lambda>x y. f x = Inr y) xs ys"
  by (induction xs arbitrary: ys) (auto simp: bind_iff)

lemma list_all2_in1: "list_all2 P xs ys \<Longrightarrow> x \<in> set xs \<Longrightarrow> \<exists>y\<in>set ys. P x y"
  by (induction rule: list_all2_induct) auto

lemma list_all2_in2: "list_all2 P xs ys \<Longrightarrow> y \<in> set ys \<Longrightarrow> \<exists>x\<in>set xs. P x y"
  by (induction rule: list_all2_induct) auto

section \<open>Which write goes where\<close>

text \<open>A write to a row that is neither a box nor an identity.\<close>
definition asideKey :: "byte list \<Rightarrow> bool" where
  "asideKey k \<longleftrightarrow> (\<exists>e. entityKey e = Inr k \<and> entityTag e \<noteq> TT_box \<and> entityTag e \<noteq> TT_identity)"

lemma aside_of: "entityKey e = Inr k \<Longrightarrow> entityTag e \<noteq> TT_box \<and> entityTag e \<noteq> TT_identity \<Longrightarrow> asideKey k"
  unfolding asideKey_def by blast

lemmas aside_intros = aside_of [of "E_name n" for n, simplified] aside_of [of E_network, simplified] aside_of [of "E_holder i" for i, simplified]
  aside_of [of "E_post i" for i, simplified] aside_of [of "E_like i j" for i j, simplified] aside_of [of "E_karmaOf i j" for i j, simplified]
  aside_of [of "E_creditOf i j" for i j, simplified] aside_of [of "E_escrowOf i j" for i j, simplified]
  aside_of [of "E_escrowDue h i" for h i, simplified] aside_of [of "E_bondDue h i" for h i, simplified]
  aside_of [of "E_vouchPair i j" for i j, simplified] aside_of [of "E_lapsed i" for i, simplified]
  aside_of [of "E_accrualOf i j" for i j, simplified] aside_of [of "E_type t i" for t i, simplified]
  aside_of [of "E_castCount i" for i, simplified]

lemma aside_not_box: assumes "asideKey k" shows "boxKey raw \<noteq> Inr k"
proof
  assume "boxKey raw = Inr k"
  then have "entityKey (E_box raw) = Inr k" by simp
  moreover obtain e where e: "entityKey e = Inr k" "entityTag e \<noteq> TT_box" using assms unfolding asideKey_def by blast
  ultimately have "e = E_box raw" using entityKey_inject by blast
  then show False using e(2) by simp
qed

lemma aside_not_identity: assumes "asideKey k" shows "identityKey raw \<noteq> Inr k"
proof
  assume "identityKey raw = Inr k"
  then have "entityKey (E_identity raw) = Inr k" by simp
  moreover obtain e where e: "entityKey e = Inr k" "entityTag e \<noteq> TT_identity" using assms unfolding asideKey_def by blast
  ultimately have "e = E_identity raw" using entityKey_inject by blast
  then show False using e(2) by simp
qed

lemma emap_marker: "emap marker ks = Inr es \<Longrightarrow> e \<in> set es \<Longrightarrow> \<exists>k\<in>set ks. k = Inr (fst e)"
  by (induction ks arbitrary: es) (auto simp: bind_iff marker_def)

lemma index_aside: "indexEntriesOfBox bx g = Inr es \<Longrightarrow> e \<in> set es \<Longrightarrow> asideKey (fst e)"
  by (cases "boxTail bx"; cases g)
    (auto simp del: emap.simps simp: indexEntriesOfBox_def bind_iff dest!: emap_marker
      dest: aside_intros aside_intros [OF sym] split: if_splits)

section \<open>The parts of a block's writes\<close>

lemma keyed_ok: "keyed op key val = Inr w \<longleftrightarrow> (\<exists>k v. key = Inr k \<and> val = Inr v \<and> w = op k v)"
  by (auto simp: keyed_def bind_iff)

lemma boxKey_inject: "boxKey a = Inr k \<Longrightarrow> boxKey b = Inr k \<Longrightarrow> a = b"
  using entityKey_inject [of "E_box a" k "E_box b"] by simp

lemma identityKey_inject: "identityKey a = Inr k \<Longrightarrow> identityKey b = Inr k \<Longrightarrow> a = b"
  using entityKey_inject [of "E_identity a" k "E_identity b"] by simp

lemma box_not_identity: "boxKey a = Inr k \<Longrightarrow> identityKey b \<noteq> Inr k"
  using entityKey_inject [of "E_box a" k "E_identity b"] by auto

definition allAside :: "treeWrite list \<Rightarrow> bool" where
  "allAside ws \<longleftrightarrow> (\<forall>w\<in>set ws. asideKey (tw_key w))"

lemma spend_parts:
  assumes "spendWrites sess i m = Inr ((ws, mv), m')"
  shows "\<exists>k rest. ebind (hexToBytes i) boxKey = Inr k \<and> ws = Remove k # rest \<and> allAside rest"
  using assms index_aside
  by (fastforce simp: spendWrites_def tv_ok_run allAside_def split: option.splits)

lemma box_parts:
  assumes "boxWrites bx g = Inr ws"
  shows "\<exists>k v rest. ebind (hexToBytes (boxId bx)) boxKey = Inr k \<and>
    boxRecordBytes (candidate_of bx) (boxTxId bx) (boxIndex bx) = Inr v \<and> ws = Insert k v # rest \<and> allAside rest"
  using assms index_aside
  by (fastforce simp: boxWrites_def keyed_ok bind_iff allAside_def)

lemma cast_aside: "castWrites sess k d m = Inr (ws, m') \<Longrightarrow> allAside ws"
  by (auto simp: castWrites_def tv_ok_run Let_def allAside_def dest: aside_intros split: option.splits if_splits)

lemma identity_aside: "identityWrites sess cs rs i m = Inr (ws, m') \<Longrightarrow> allAside ws"
  using cast_aside
  by (fastforce simp: identityWrites_def tv_ok_run Let_def allAside_def dest: aside_intros split: if_splits)

lemma held_aside: "heldWrites key h v = Inr ws \<Longrightarrow> (\<And>k. key = Inr k \<Longrightarrow> asideKey k) \<Longrightarrow> allAside ws"
  by (auto simp: heldWrites_def bind_iff allAside_def split: option.splits if_splits)

lemma name_aside: "nameWrites n = Inr ws \<Longrightarrow> allAside ws"
  by (auto simp: nameWrites_def dest: aside_intros elim!: held_aside split: prod.splits)

lemma holder_aside: "holderWrites n = Inr ws \<Longrightarrow> allAside ws"
  by (auto simp: holderWrites_def dest: aside_intros elim!: held_aside split: prod.splits)

lemma network_aside: "networkWrites n = Inr ws \<Longrightarrow> allAside ws"
  by (auto simp: networkWrites_def keyed_ok bind_iff allAside_def dest: aside_intros split: option.splits)

lemma post_aside: "postWrite h p = Inr w \<Longrightarrow> asideKey (tw_key w)"
  by (auto simp: postWrite_def keyed_ok bind_iff dest: aside_intros)

lemma withdrawal_aside:
  assumes "withdrawalWrite sess p m = Inr (w, m')"
  shows "asideKey (tw_key w)"
proof -
  obtain auth h m1 m2 where "tv_getTopologyAuthor sess p m = Inr (auth, m1)" "tv_getTopologyHeight sess p m1 = Inr (h, m2)"
      and r: "(case (auth, h) of (Some a, Some h) \<Rightarrow> tlift (keyed Update (ebind (hexToBytes p) postKey)
         (postRecordBytes \<lparr>pr_author = a, pr_height = h, pr_standing = RowWithdrawn\<rparr>)) | _ \<Rightarrow> tfail (Thrown OtherErr)) m2 = Inr (w, m')"
    using assms unfolding withdrawalWrite_def tv_ok_run by blast
  show ?thesis
    by (cases auth; cases h) (use r in \<open>auto simp: tv_ok_run keyed_ok bind_iff dest: aside_intros\<close>)
qed

lemma like_aside: "likeWrite l = Inr w \<Longrightarrow> asideKey (tw_key w)"
  by (auto simp: likeWrite_def keyed_ok bind_iff dest: aside_intros split: prod.splits)

definition recordPart :: "string \<times> byte list \<times> identityRecord \<Rightarrow> treeWrite \<Rightarrow> bool" where
  "recordPart q w \<longleftrightarrow> (\<exists>k v. identityKey (fst (snd q)) = Inr k \<and> identityRecordBytes (snd (snd q)) = Inr v \<and> w = InsertOrUpdate k v)"

definition spentPart :: "string \<Rightarrow> treeWrite \<Rightarrow> bool" where
  "spentPart i w \<longleftrightarrow> (\<exists>k. ebind (hexToBytes i) boxKey = Inr k \<and> w = Remove k)"

definition createdPart :: "anyBox \<Rightarrow> treeWrite \<Rightarrow> bool" where
  "createdPart bx w \<longleftrightarrow> (\<exists>k v. ebind (hexToBytes (boxId bx)) boxKey = Inr k \<and>
     boxRecordBytes (candidate_of bx) (boxTxId bx) (boxIndex bx) = Inr v \<and> w = Insert k v)"

lemma run_all_aside: "list_all2 P xs wss \<Longrightarrow> (\<And>x ws. P x ws \<Longrightarrow> allAside ws) \<Longrightarrow> allAside (concat wss)"
  by (induction rule: list_all2_induct) (auto simp: allAside_def)

lemma run_all_aside1: "list_all2 P xs ws \<Longrightarrow> (\<And>x w. P x w \<Longrightarrow> asideKey (tw_key w)) \<Longrightarrow> allAside ws"
  by (induction rule: list_all2_induct) (auto simp: allAside_def)

lemma run_parts:
  assumes "list_all2 P xs wss" "\<And>x ws. P x ws \<Longrightarrow> \<exists>w rest. Q x w \<and> ws = w # rest \<and> allAside rest"
  shows "\<forall>x\<in>set xs. \<exists>w\<in>set (concat wss). Q x w" "\<forall>w\<in>set (concat wss). asideKey (tw_key w) \<or> (\<exists>x\<in>set xs. Q x w)"
proof -
  show "\<forall>x\<in>set xs. \<exists>w\<in>set (concat wss). Q x w"
  proof
    fix x assume "x \<in> set xs"
    then obtain ws where ws: "ws \<in> set wss" "P x ws" using list_all2_in1 [OF assms(1)] by blast
    obtain w rest where w: "Q x w" "ws = w # rest" using assms(2) [OF ws(2)] by blast
    have "w \<in> set ws" unfolding w(2) by simp
    then have "w \<in> set (concat wss)" using ws(1) unfolding set_concat by blast
    then show "\<exists>w\<in>set (concat wss). Q x w" using w(1) by blast
  qed
  show "\<forall>w\<in>set (concat wss). asideKey (tw_key w) \<or> (\<exists>x\<in>set xs. Q x w)"
  proof
    fix w assume "w \<in> set (concat wss)"
    then obtain ws where ws: "ws \<in> set wss" "w \<in> set ws" by auto
    then obtain x where x: "x \<in> set xs" "P x ws" using list_all2_in2 [OF assms(1)] by blast
    obtain u rest where "Q x u" "ws = u # rest" "allAside rest" using assms(2) [OF x(2)] by blast
    then show "asideKey (tw_key w) \<or> (\<exists>x\<in>set xs. Q x w)" using ws(2) x(1) unfolding allAside_def by auto
  qed
qed

text \<open>What a block writes at the rows of boxes and identities, and that every other write is elsewhere.\<close>
lemma writes_of_parts:
  assumes "treeWritesOf eff height sess m = Inr (ws, m')" "netBoxes (ef_mutations eff) = (created, sp)"
  defines "rs \<equiv> g_records (fold gather (ef_mutations eff) newGathered)"
  shows "distinct (map tw_key ws)" "sorted_wrt (\<lambda>a b. (TAG_RANK a, tw_key a) < (TAG_RANK b, tw_key b)) ws"
    "\<forall>i\<in>set sp. \<exists>w\<in>set ws. spentPart i w" "\<forall>b\<in>set created. \<exists>w\<in>set ws. createdPart b w"
    "\<forall>q\<in>set rs. \<exists>w\<in>set ws. recordPart q w"
    "\<forall>w\<in>set ws. asideKey (tw_key w) \<or> (\<exists>i\<in>set sp. spentPart i w) \<or> (\<exists>b\<in>set created. createdPart b w) \<or>
      (\<exists>q\<in>set rs. recordPart q w)"
proof -
  obtain spw crw rw iw nw un hw pw ww lw cs ids m1 m2 m3 m4 m5 where
    a: "tmap (spendWrites sess) sp m = Inr (spw, m1)" "emap (createWrites height) created = Inr crw"
      "emap recordWrite rs = Inr rw" "tmap (identityWrites sess cs rs) ids m2 = Inr (iw, m3)"
      "networkWrites (g_network (fold gather (ef_mutations eff) newGathered)) = Inr nw"
      "emap nameWrites (g_names (fold gather (ef_mutations eff) newGathered)) = Inr un"
      "emap holderWrites (g_holders (fold gather (ef_mutations eff) newGathered)) = Inr hw"
      "emap (postWrite height) (ef_posts eff) = Inr pw" "tmap (withdrawalWrite sess) (ef_withdrawals eff) m4 = Inr (ww, m5)"
      "emap likeWrite (ef_likeRecords eff) = Inr lw" and
    o: "ordered (concat (map fst spw) @ concat (map fst crw) @ rw @ concat iw @ nw @ concat un @ concat hw @ pw @ ww @ lw) = Inr ws"
    using assms(1,2) unfolding rs_def treeWritesOf_def Let_def by (auto simp: tv_ok_run)
  let ?all = "concat (map fst spw) @ concat (map fst crw) @ rw @ concat iw @ nw @ concat un @ concat hw @ pw @ ww @ lw"
  note ord = ordered_ok [OF o]
  show "distinct (map tw_key ws)" "sorted_wrt (\<lambda>a b. (TAG_RANK a, tw_key a) < (TAG_RANK b, tw_key b)) ws"
    by (fact ord(3), fact ord(4))
  have sp: "list_all2 (\<lambda>i q. \<exists>m1 m2. spendWrites sess i m1 = Inr (q, m2)) sp spw" by (rule tmap_ok [OF a(1)])
  have "list_all2 (\<lambda>i ws. \<exists>mv m1 m2. spendWrites sess i m1 = Inr ((ws, mv), m2)) sp (map fst spw)"
    unfolding list_all2_map2 by (rule list_all2_mono [OF sp]) (metis prod.collapse)
  note sp = run_parts [OF this, of spentPart]
  have "list_all2 (\<lambda>b q. createWrites height b = Inr q) created crw" by (rule emap_ok [OF a(2)])
  then have "list_all2 (\<lambda>b ws. boxWrites b (Some height) = Inr ws) created (map fst crw)"
    unfolding list_all2_map2 by (rule list_all2_mono) (auto simp: createWrites_def bind_iff)
  note cr = run_parts [OF this, of createdPart]
  have rr: "list_all2 (\<lambda>q w. recordPart q w) rs rw"
    by (rule list_all2_mono [OF emap_ok [OF a(3)]]) (auto simp: recordWrite_def keyed_ok recordPart_def split: prod.splits)
  have rest: "allAside (concat iw @ nw @ concat un @ concat hw @ pw @ ww @ lw)"
  proof -
    have "allAside (concat iw)" by (rule run_all_aside [OF tmap_ok [OF a(4)]]) (use identity_aside in blast)
    moreover have "allAside nw" by (rule network_aside [OF a(5)])
    moreover have "allAside (concat un)" by (rule run_all_aside [OF emap_ok [OF a(6)] name_aside])
    moreover have "allAside (concat hw)" by (rule run_all_aside [OF emap_ok [OF a(7)] holder_aside])
    moreover have "allAside pw" by (rule run_all_aside1 [OF emap_ok [OF a(8)] post_aside])
    moreover have "allAside ww" by (rule run_all_aside1 [OF tmap_ok [OF a(9)]]) (use withdrawal_aside in blast)
    moreover have "allAside lw" by (rule run_all_aside1 [OF emap_ok [OF a(10)] like_aside])
    ultimately show ?thesis unfolding allAside_def by auto
  qed
  have spp: "\<exists>w rest. spentPart i w \<and> ws = w # rest \<and> allAside rest" if "\<exists>mv m1 m2. spendWrites sess i m1 = Inr ((ws, mv), m2)" for i ws
    using that spend_parts unfolding spentPart_def by blast
  have crp: "\<exists>w rest. createdPart b w \<and> ws = w # rest \<and> allAside rest" if "boxWrites b (Some height) = Inr ws" for b ws
    using box_parts [OF that] unfolding createdPart_def by blast
  note sp = sp [OF spp] and cr = cr [OF crp]
  show "\<forall>i\<in>set sp. \<exists>w\<in>set ws. spentPart i w" using sp(1) unfolding ord(1) by (auto simp del: set_concat)
  show "\<forall>b\<in>set created. \<exists>w\<in>set ws. createdPart b w" using cr(1) unfolding ord(1) by (auto simp del: set_concat)
  show "\<forall>q\<in>set rs. \<exists>w\<in>set ws. recordPart q w"
    using list_all2_in1 [OF rr] unfolding ord(1) set_append by blast
  show "\<forall>w\<in>set ws. asideKey (tw_key w) \<or> (\<exists>i\<in>set sp. spentPart i w) \<or> (\<exists>b\<in>set created. createdPart b w) \<or>
      (\<exists>q\<in>set rs. recordPart q w)"
  proof
    fix w assume "w \<in> set ws"
    then have "w \<in> set (concat (map fst spw)) \<or> w \<in> set (concat (map fst crw)) \<or> w \<in> set rw \<or>
        w \<in> set (concat iw @ nw @ concat un @ concat hw @ pw @ ww @ lw)"
      unfolding ord(1) by (simp del: set_concat)
    then show "asideKey (tw_key w) \<or> (\<exists>i\<in>set sp. spentPart i w) \<or> (\<exists>b\<in>set created. createdPart b w) \<or>
        (\<exists>q\<in>set rs. recordPart q w)"
      using sp(2) cr(2) list_all2_in2 [OF rr] rest unfolding allAside_def by (elim disjE) blast+
  qed
qed

section \<open>The netted log\<close>

definition netted :: "(string \<times> anyBox) list \<times> string list \<Rightarrow> live \<Rightarrow> live" where
  "netted q B = (\<lambda>i. case map_of (fst q) i of Some b \<Rightarrow> Some b | None \<Rightarrow> if i \<in> set (snd q) then None else B i)"

definition netOk :: "(string \<times> anyBox) list \<times> string list \<Rightarrow> live \<Rightarrow> bool" where
  "netOk q B \<longleftrightarrow> distinct (map fst (fst q)) \<and> (\<forall>(i, b)\<in>set (fst q). boxId b = i \<and> (i \<in> set (snd q) \<or> B i = None))"

lemma netStep_ok:
  assumes "netOk q B" "writeOk m lg" "lg_boxes lg = netted q B"
  shows "netOk (netStep m q) B \<and> lg_boxes (replay m lg) = netted (netStep m q) B"
proof -
  obtain ins sp where q: "q = (ins, sp)" by fastforce
  show ?thesis
  proof (cases m)
    case (BoxInsert i b)
    then have n: "boxId b = i" "map_of ins i = None" "i \<in> set sp \<or> B i = None"
      using assms(2,3) by (auto simp: netted_def q split: option.splits if_splits)
    have "i \<notin> fst ` set ins" using n(2) by (simp add: map_of_eq_None_iff)
    then have u: "AList.update i b ins = ins @ [(i, b)]" by (induction ins) auto
    show ?thesis
      using assms(1,3) n \<open>i \<notin> fst ` set ins\<close>
      by (auto simp: BoxInsert q netOk_def netted_def u fun_eq_iff map_add_def split: option.splits)
  next
    case (BoxRemove i)
    show ?thesis
    proof (cases "map_of ins i")
      case None
      then show ?thesis using assms(1,3)
        by (auto simp: BoxRemove q netOk_def netted_def fun_eq_iff split: option.splits)
    next
      case (Some b)
      have g: "i \<in> set sp \<or> B i = None" using assms(1) map_of_SomeD [OF Some] by (auto simp: netOk_def q)
      have st: "netStep m q = (AList.delete i ins, sp)" using Some by (simp add: BoxRemove q)
      have sub: "set (AList.delete i ins) \<subseteq> set ins" by (simp add: AList.delete_eq)
      have "netOk (netStep m q) B"
        unfolding netOk_def st fst_conv snd_conv
      proof (intro conjI ballI)
        show "distinct (map fst (AList.delete i ins))" using assms(1) by (simp add: netOk_def q distinct_delete)
      next
        fix e assume "e \<in> set (AList.delete i ins)"
        then have "e \<in> set ins" using sub by blast
        then show "case e of (i, b) \<Rightarrow> boxId b = i \<and> (i \<in> set sp \<or> B i = None)" using assms(1) unfolding netOk_def q by simp
      qed
      moreover have "lg_boxes (replay m lg) = netted (netStep m q) B"
        unfolding st using assms(3) g by (auto simp: BoxRemove q netted_def fun_eq_iff delete_conv')
      ultimately show ?thesis ..
    qed
  qed (use assms in \<open>simp_all add: q\<close>)
qed

lemma net_replay:
  "netOk q B \<Longrightarrow> logOk ms lg \<Longrightarrow> lg_boxes lg = netted q B \<Longrightarrow>
    netOk (fold netStep ms q) B \<and> lg_boxes (fold replay ms lg) = netted (fold netStep ms q) B"
proof (induction ms arbitrary: q lg)
  case (Cons m ms)
  then have "netOk (netStep m q) B \<and> lg_boxes (replay m lg) = netted (netStep m q) B"
    using netStep_ok [of q B m lg] by simp
  then show ?case using Cons.IH [of "netStep m q" "replay m lg"] Cons.prems(2) by simp
qed simp

lemma update_in: "e \<in> set (AList.update k v al) \<Longrightarrow> e = (k, v) \<or> e \<in> set al"
  by (induction al) (auto split: if_splits)

definition recordsIn :: "(string \<times> byte list \<times> identityRecord) list \<Rightarrow> (byte list \<Rightarrow> identityRecord option) \<Rightarrow> byte list \<Rightarrow> identityRecord option" where
  "recordsIn rs R = (\<lambda>k. case map_of rs (bytesToHex k) of Some (_, r) \<Rightarrow> Some r | None \<Rightarrow> R k)"

definition recordsOk :: "(string \<times> byte list \<times> identityRecord) list \<Rightarrow> bool" where
  "recordsOk rs \<longleftrightarrow> distinct (map fst rs) \<and> (\<forall>(h, k, r)\<in>set rs. h = bytesToHex k)"

lemma gather_replay:
  "recordsOk (g_records g) \<Longrightarrow> lg_records lg = recordsIn (g_records g) R \<Longrightarrow>
    recordsOk (g_records (fold gather ms g)) \<and> lg_records (fold replay ms lg) = recordsIn (g_records (fold gather ms g)) R"
proof (induction ms arbitrary: g lg)
  case (Cons m ms)
  have "recordsOk (g_records (gather m g)) \<and> lg_records (replay m lg) = recordsIn (g_records (gather m g)) R"
  proof (cases m)
    case (RecordWrite k r)
    have "recordsOk (AList.update (bytesToHex k) (k, r) (g_records g))"
      using Cons.prems(1) by (auto simp: recordsOk_def distinct_update dest: update_in)
    then show ?thesis using Cons.prems(2)
      by (auto simp: RecordWrite recordsIn_def update_conv' fun_eq_iff)
  qed (use Cons.prems in \<open>simp_all split: option.splits\<close>)
  then show ?case using Cons.IH [of "gather m g" "replay m lg"] by simp
qed simp

section \<open>The tree of a ledger\<close>

text \<open>The tree holds a leaf for every live box and every identity record, with its record bytes, and
  no leaf at the key of a box that is not live or of an identity without a record.\<close>
definition treeHolds :: "(byte list \<rightharpoonup> byte list) \<Rightarrow> ledger \<Rightarrow> bool" where
  "treeHolds T lg \<longleftrightarrow>
     (\<forall>raw k. boxKey raw = Inr k \<longrightarrow> (case lg_boxes lg (bytesToHex raw) of
        None \<Rightarrow> T k = None
      | Some b \<Rightarrow> (\<exists>v. boxRecordBytes (candidate_of b) (boxTxId b) (boxIndex b) = Inr v \<and> T k = Some v))) \<and>
     (\<forall>p k. identityKey p = Inr k \<longrightarrow> (case lg_records lg p of
        None \<Rightarrow> T k = None
      | Some r \<Rightarrow> (\<exists>v. identityRecordBytes r = Inr v \<and> T k = Some v)))"

lemma write_at_box:
  assumes "treeWritesOf eff height sess m = Inr (ws, m')" "fold netStep (ef_mutations eff) ([], []) = q"
    "netOk q B" "recordsOk (g_records (fold gather (ef_mutations eff) newGathered))" "boxKey raw = Inr k"
  shows "(case map_of (fst q) (bytesToHex raw) of
      Some b \<Rightarrow> (\<exists>v. boxRecordBytes (candidate_of b) (boxTxId b) (boxIndex b) = Inr v \<and> fold applyWrite ws T k = Some v)
    | None \<Rightarrow> fold applyWrite ws T k = (if bytesToHex raw \<in> set (snd q) then None else T k))"
proof -
  obtain ins sp where q: "q = (ins, sp)" by fastforce
  have nb: "netBoxes (ef_mutations eff) = (map snd ins, sp)" using assms(2) by (simp add: netBoxes_def q)
  note w = writes_of_parts [OF assms(1) nb]
  have ids: "boxId b = i" if "(i, b) \<in> set ins" for i b using assms(3) that by (auto simp: netOk_def q)
  have dist: "distinct (map fst ins)" using assms(3) by (simp add: netOk_def q)
  have hex: "ebind (hexToBytes i) boxKey = Inr k \<longleftrightarrow> i = bytesToHex raw" for i
  proof
    assume "ebind (hexToBytes i) boxKey = Inr k"
    then obtain c where "hexToBytes i = Inr c" "boxKey c = Inr k" by (auto simp: bind_iff)
    then show "i = bytesToHex raw" using boxKey_inject [OF assms(5)] by (simp add: hexToBytes_iff)
  qed (simp add: assms(5))
  have one: "fold applyWrite ws T k = applyWrite u Map.empty k" if "u \<in> set ws" "tw_key u = k" for u
    using fold_writes_one [OF w(1) that(1)] that(2) by simp
  show ?thesis
  proof (cases "map_of ins (bytesToHex raw)")
    case (Some b)
    then have b: "(bytesToHex raw, b) \<in> set ins" by (rule map_of_SomeD)
    then obtain u where u: "u \<in> set ws" "createdPart b u" using w(4) by force
    have "boxId b = bytesToHex raw" using ids [OF b] .
    then obtain v where "u = Insert k v" "boxRecordBytes (candidate_of b) (boxTxId b) (boxIndex b) = Inr v"
      using u(2) assms(5) by (auto simp: createdPart_def)
    then show ?thesis using one [OF u(1)] Some by (simp add: q)
  next
    case None
    show ?thesis
    proof (cases "bytesToHex raw \<in> set sp")
      case True
      then obtain u where u: "u \<in> set ws" "spentPart (bytesToHex raw) u" using w(3) by blast
      then have "u = Remove k" using assms(5) by (auto simp: spentPart_def)
      then show ?thesis using one [OF u(1)] None True by (simp add: q)
    next
      case False
      have "tw_key u \<noteq> k" if uw: "u \<in> set ws" for u
      proof
        assume k: "tw_key u = k"
        have "\<not> asideKey k" using aside_not_box [of k raw] assms(5) by blast
        moreover have "\<not> spentPart i u" if "i \<in> set sp" for i
          using that False hex [of i] k by (auto simp: spentPart_def)
        moreover have "\<not> createdPart b u" if made: "b \<in> set (map snd ins)" for b
        proof
          assume c: "createdPart b u"
          obtain i where i: "(i, b) \<in> set ins" using made by auto
          have "ebind (hexToBytes (boxId b)) boxKey = Inr k" using c k by (auto simp: createdPart_def)
          then have "i = bytesToHex raw" using ids [OF i] hex [of i] by simp
          then show False using i None by (auto simp: map_of_eq_None_iff intro: rev_image_eqI)
        qed
        moreover have "\<not> recordPart r u" for r
          using k box_not_identity [OF assms(5)] by (auto simp: recordPart_def)
        ultimately show False using w(6) uw k by blast
      qed
      then have "fold applyWrite ws T k = T k" by (intro fold_writes_none) blast
      then show ?thesis using None False by (simp add: q)
    qed
  qed
qed

lemma write_at_identity:
  assumes "treeWritesOf eff height sess m = Inr (ws, m')"
    and rs: "rs = g_records (fold gather (ef_mutations eff) newGathered)" "recordsOk rs" and k: "identityKey p = Inr k"
  shows "(case map_of rs (bytesToHex p) of
      Some (_, r) \<Rightarrow> (\<exists>v. identityRecordBytes r = Inr v \<and> fold applyWrite ws T k = Some v)
    | None \<Rightarrow> fold applyWrite ws T k = T k)"
proof -
  obtain created sp where nb: "netBoxes (ef_mutations eff) = (created, sp)" by fastforce
  note w = writes_of_parts [OF assms(1) nb, folded rs(1)]
  have one: "fold applyWrite ws T k = applyWrite u Map.empty k" if "u \<in> set ws" "tw_key u = k" for u
    using fold_writes_one [OF w(1) that(1)] that(2) by simp
  show ?thesis
  proof (cases "map_of rs (bytesToHex p)")
    case (Some q)
    then have q: "(bytesToHex p, q) \<in> set rs" by (rule map_of_SomeD)
    obtain p' r where pr: "q = (p', r)" by fastforce
    have "p' = p" using rs(2) q by (auto simp: recordsOk_def pr)
    obtain u where u: "u \<in> set ws" "recordPart (bytesToHex p, q) u" using w(5) q by blast
    then obtain v where "u = InsertOrUpdate k v" "identityRecordBytes r = Inr v"
      using k \<open>p' = p\<close> by (auto simp: recordPart_def pr)
    then show ?thesis using one [OF u(1)] Some by (simp add: pr)
  next
    case None
    have "tw_key u \<noteq> k" if uw: "u \<in> set ws" for u
    proof
      assume e: "tw_key u = k"
      have "\<not> asideKey k" using aside_not_identity [of k p] k by blast
      moreover have "\<not> spentPart i u" for i using e k box_not_identity by (fastforce simp: spentPart_def bind_iff)
      moreover have "\<not> createdPart b u" for b using e k box_not_identity by (fastforce simp: createdPart_def bind_iff)
      moreover have "\<not> recordPart r u" if r: "r \<in> set rs" for r
      proof
        assume "recordPart r u"
        then have "identityKey (fst (snd r)) = Inr k" using e by (auto simp: recordPart_def)
        then have "fst (snd r) = p" using identityKey_inject k by blast
        then have "fst r = bytesToHex p" using rs(2) r by (cases r) (auto simp: recordsOk_def)
        then show False using None r imageI [OF r, of fst] by (simp add: map_of_eq_None_iff)
      qed
      ultimately show False using w(6) uw e by blast
    qed
    then have "fold applyWrite ws T k = T k" by (intro fold_writes_none) blast
    then show ?thesis using None by simp
  qed
qed

lemma log_to_tree:
  assumes "treeWritesOf eff height sess m = Inr (ws, m')" "logOk (ef_mutations eff) lg" "treeHolds T lg"
  shows "treeHolds (fold applyWrite ws T) (fold replay (ef_mutations eff) lg)"
proof -
  define q where "q = fold netStep (ef_mutations eff) ([], [])"
  define rs where "rs = g_records (fold gather (ef_mutations eff) newGathered)"
  have n: "netOk q (lg_boxes lg)" "lg_boxes (fold replay (ef_mutations eff) lg) = netted q (lg_boxes lg)"
    using net_replay [of "([], [])" "lg_boxes lg" "ef_mutations eff" lg] assms(2)
    by (simp_all add: q_def netOk_def netted_def fun_eq_iff)
  have r: "recordsOk rs" "lg_records (fold replay (ef_mutations eff) lg) = recordsIn rs (lg_records lg)"
    using gather_replay [of newGathered lg "lg_records lg" "ef_mutations eff"]
    by (simp_all add: rs_def newGathered_def recordsOk_def recordsIn_def fun_eq_iff)
  show ?thesis
    unfolding treeHolds_def
  proof (intro conjI allI impI)
    fix raw k assume k: "boxKey raw = Inr k"
    note at = write_at_box [OF assms(1) q_def [symmetric] n(1) r(1) [unfolded rs_def] k, of T]
    have old: "case lg_boxes lg (bytesToHex raw) of None \<Rightarrow> T k = None
        | Some b \<Rightarrow> (\<exists>v. boxRecordBytes (candidate_of b) (boxTxId b) (boxIndex b) = Inr v \<and> T k = Some v)"
      using assms(3) k unfolding treeHolds_def by blast
    show "case lg_boxes (fold replay (ef_mutations eff) lg) (bytesToHex raw) of None \<Rightarrow> fold applyWrite ws T k = None
        | Some b \<Rightarrow> (\<exists>v. boxRecordBytes (candidate_of b) (boxTxId b) (boxIndex b) = Inr v \<and> fold applyWrite ws T k = Some v)"
      unfolding n(2) netted_def
      using at old
      by (cases "map_of (fst q) (bytesToHex raw)"; cases "bytesToHex raw \<in> set (snd q)"; cases "lg_boxes lg (bytesToHex raw)") simp_all
  next
    fix p k assume k: "identityKey p = Inr k"
    note at = write_at_identity [OF assms(1) rs_def r(1) k, of T]
    have old: "case lg_records lg p of None \<Rightarrow> T k = None | Some r \<Rightarrow> (\<exists>v. identityRecordBytes r = Inr v \<and> T k = Some v)"
      using assms(3) k unfolding treeHolds_def by blast
    show "case lg_records (fold replay (ef_mutations eff) lg) p of None \<Rightarrow> fold applyWrite ws T k = None
        | Some r \<Rightarrow> (\<exists>v. identityRecordBytes r = Inr v \<and> fold applyWrite ws T k = Some v)"
      unfolding r(2) recordsIn_def
      using at old by (cases "map_of rs (bytesToHex p)"; cases "lg_records lg p") auto
  qed
qed

lemma block_log_ok:
  assumes "view_ok v" "applyBlock H v block ctx = Inr eff"
  shows "logOk (ef_mutations eff) (ledgerOf v)"
proof -
  obtain queue acc4 s4 where "tracks v s4" "eff = effectsOf (postsOf H block) queue (acc4, s4)"
    by (rule block_stages [OF assms], rule that)
  then show ?thesis by (simp add: tracks_def effectsOf_def)
qed

text \<open>C30: The tree follows the ledger.  Where the tree holds the boxes and the identity records of the
  state before an accepted block, the writes of the block leave it with exactly those of the state
  after it: a box the block both made and spent leaves nothing, every other spent box loses its
  leaf, and a record keeps only its last write.  No key takes two writes, and they come removals
  first, then insertions, updates and the rest, each by key.\<close>
theorem tree_follows_ledger:
  assumes "view_ok v" "applyBlock H v block ctx = Inr eff" "treeWritesOf eff height sess memo = Inr (ws, memo')"
    "treeHolds T (ledgerOf v)"
  shows "treeHolds (fold applyWrite ws T) (afterBlock eff (ledgerOf v)) \<and> distinct (map tw_key ws) \<and>
    sorted_wrt (\<lambda>a b. (TAG_RANK a, tw_key a) < (TAG_RANK b, tw_key b)) ws"
proof -
  obtain created sp where nb: "netBoxes (ef_mutations eff) = (created, sp)" by fastforce
  show ?thesis
    unfolding afterBlock_def
    using log_to_tree [OF assms(3) block_log_ok [OF assms(1,2)] assms(4)] writes_of_parts(1,2) [OF assms(3) nb] by blast
qed

section \<open>A block's writes, run\<close>

definition boxLeaf :: "anyBox \<Rightarrow> byte list \<times> byte list \<Rightarrow> bool" where
  "boxLeaf b e \<longleftrightarrow> ebind (hexToBytes (boxId b)) boxKey = Inr (fst e) \<and>
     boxRecordBytes (candidate_of b) (boxTxId b) (boxIndex b) = Inr (snd e)"

definition recordLeaf :: "byte list \<times> identityRecord \<Rightarrow> byte list \<times> byte list \<Rightarrow> bool" where
  "recordLeaf q e \<longleftrightarrow> identityKey (fst q) = Inr (fst e) \<and> identityRecordBytes (snd q) = Inr (snd e)"

lemma leaf_hex: "boxLeaf b e \<Longrightarrow> boxKey raw = Inr k \<Longrightarrow> fst e = k \<longleftrightarrow> boxId b = bytesToHex raw"
  using boxKey_inject by (auto simp: boxLeaf_def bind_iff hexToBytes_iff)

lemma boxes_held:
  "list_all2 boxLeaf bs L \<Longrightarrow> boxKey raw = Inr k \<Longrightarrow>
    (case map_of (map (\<lambda>b. (boxId b, b)) bs) (bytesToHex raw) of None \<Rightarrow> map_of L k = None
     | Some b \<Rightarrow> (\<exists>v. boxRecordBytes (candidate_of b) (boxTxId b) (boxIndex b) = Inr v \<and> map_of L k = Some v))"
proof (induction rule: list_all2_induct)
  case (Cons b bs e L)
  then show ?case using leaf_hex [OF Cons.hyps(1) Cons.prems]
    by (cases e; cases "map_of (map (\<lambda>b. (boxId b, b)) bs) (bytesToHex raw)") (auto simp: boxLeaf_def)
qed simp

lemma records_held:
  "list_all2 recordLeaf rs L \<Longrightarrow> identityKey p = Inr k \<Longrightarrow>
    (case map_of rs p of None \<Rightarrow> map_of L k = None | Some r \<Rightarrow> (\<exists>v. identityRecordBytes r = Inr v \<and> map_of L k = Some v))"
proof (induction rule: list_all2_induct)
  case (Cons q rs e L)
  have "fst e = k \<longleftrightarrow> fst q = p" using Cons.hyps(1) Cons.prems identityKey_inject by (auto simp: recordLeaf_def)
  then show ?case using Cons by (cases e; cases q; cases "map_of rs p") (auto simp: recordLeaf_def)
qed simp

lemma holds_of_lists:
  assumes "list_all2 boxLeaf bs L" "list_all2 recordLeaf rs M"
    "lg_boxes lg = map_of (map (\<lambda>b. (boxId b, b)) bs)" "lg_records lg = map_of rs"
  shows "treeHolds (map_of (L @ M)) lg"
  unfolding treeHolds_def assms(3,4)
proof (intro conjI allI impI)
  fix raw k assume k: "boxKey raw = Inr k"
  have "map_of M k = None"
    using list_all2_in2 [OF assms(2)] box_not_identity [OF k] by (fastforce simp: recordLeaf_def map_of_eq_None_iff)
  then have "map_of (L @ M) k = map_of L k" by (simp add: map_add_def split: option.splits)
  then show "case map_of (map (\<lambda>b. (boxId b, b)) bs) (bytesToHex raw) of None \<Rightarrow> map_of (L @ M) k = None
     | Some b \<Rightarrow> (\<exists>v. boxRecordBytes (candidate_of b) (boxTxId b) (boxIndex b) = Inr v \<and> map_of (L @ M) k = Some v)"
    using boxes_held [OF assms(1) k] by (simp only:)
next
  fix p k assume k: "identityKey p = Inr k"
  have "map_of L k = None"
    using list_all2_in2 [OF assms(1)] box_not_identity k by (fastforce simp: boxLeaf_def bind_iff map_of_eq_None_iff)
  then have "map_of (L @ M) k = map_of M k" by (simp add: map_add_def split: option.splits)
  then show "case map_of rs p of None \<Rightarrow> map_of (L @ M) k = None
      | Some r \<Rightarrow> (\<exists>v. identityRecordBytes r = Inr v \<and> map_of (L @ M) k = Some v)"
    using records_held [OF assms(2) k] by (simp only:)
qed

definition okBytes :: "byte list res \<Rightarrow> byte list" where
  "okBytes r = (case r of Inl _ \<Rightarrow> [] | Inr v \<Rightarrow> v)"

definition chainRecords :: "(byte list \<times> identityRecord) list" where
  "chainRecords = [(kB, chainRecord 1 0), (kA, chainRecord 2 1)]"

definition chainBoxLeaves :: leaves where
  "chainBoxLeaves = map (\<lambda>b. (okBytes (ebind (hexToBytes (boxId b)) boxKey),
     okBytes (boxRecordBytes (candidate_of b) (boxTxId b) (boxIndex b)))) chainBoxes"

definition chainRecordLeaves :: leaves where
  "chainRecordLeaves = map (\<lambda>(p, r). (okBytes (identityKey p), okBytes (identityRecordBytes r))) chainRecords"

definition chainTree :: treeSession where
  "chainTree k = Inr (honest (chainBoxLeaves @ chainRecordLeaves) k)"

lemma chain_leaves: "list_all2 boxLeaf chainBoxes chainBoxLeaves" "list_all2 recordLeaf chainRecords chainRecordLeaves"
  by code_simp+

lemma chain_tree_holds: "treeHolds (map_of (chainBoxLeaves @ chainRecordLeaves)) (ledgerOf chainView)"
proof (rule holds_of_lists [OF chain_leaves])
  show "lg_boxes (ledgerOf chainView) = map_of (map (\<lambda>b. (boxId b, b)) chainBoxes)" by (simp add: ledgerOf_def chainView_def)
  show "lg_records (ledgerOf chainView) = map_of chainRecords"
    by (simp add: ledgerOf_def chainView_def chainRecords_def)
qed

lemma chain_writes: "is_ok (treeWritesOf chainEffects 5 chainTree [])" by code_simp

lemma tree_follows_ledger_witness:
  "\<exists>ws memo'. treeWritesOf chainEffects 5 chainTree [] = Inr (ws, memo') \<and>
     treeHolds (fold applyWrite ws (map_of (chainBoxLeaves @ chainRecordLeaves))) (afterBlock chainEffects (ledgerOf chainView))"
proof -
  obtain r where "treeWritesOf chainEffects 5 chainTree [] = Inr r" using ok_result [OF chain_writes] by blast
  then obtain ws memo' where w: "treeWritesOf chainEffects 5 chainTree [] = Inr (ws, memo')" by (cases r) simp
  show ?thesis using w tree_follows_ledger [OF chain_view_ok chain_block_effects w chain_tree_holds] by blast
qed

end
