(* ===== verification/ScreenBody.thy ===== *)
theory ScreenBody
  imports ApplyBlock
begin

text \<open>
  The screening of a candidate body (\<open>packages/consensus/src/screen-body.ts\<close>): which of its
  user transactions apply, each against the state the ones before it leave.  A pass runs the
  phases of \<open>applyBlock\<close> over the survivors of the passes before it; the passes end because
  one that refuses anything leaves fewer survivors.  The signature check of one entry is a
  parameter, as it is in the context.
\<close>

section \<open>One pass\<close>

type_synonym sigCheck = "byte list \<Rightarrow> byte list \<Rightarrow> byte list \<Rightarrow> bool"

text \<open>A throw leaves the screen; a refusal refuses its index.\<close>
fun refusalOf :: "refusal + 'a \<Rightarrow> (string + 'a) res" where
  "refusalOf (Inl Threw) = Inl OtherErr"
| "refusalOf (Inl (Refused reason)) = Inr (Inl reason)"
| "refusalOf (Inr a) = Inr (Inr a)"

text \<open>The entries of the survivors' block: an index past the bodies has none to read.\<close>
definition survivorsBlock :: "orderingBlock \<Rightarrow> nat list \<Rightarrow> nat \<Rightarrow> orderingBlock" where
  "survivorsBlock block survivors lastIndex =
     (let ids = utxoTxIds (ob_utxoTxTree block); raws = utxoTxs (ob_utxoTxTree block);
          kept = filter (\<lambda>i. i < length raws) (survivors @ [lastIndex]) in
      block\<lparr>ob_utxoTxTree := \<lparr>utxoTxIds = map ((!) ids) kept, utxoTxs = map ((!) raws) kept\<rparr>\<rparr>)"

fun allVerify :: "sigCheck \<Rightarrow> byte list \<Rightarrow> (string \<times> byte list) list \<Rightarrow> bool res" where
  "allVerify check message [] = Inr True"
| "allVerify check message ((keyHex, sig) # rest) = ebind (hexToBytes keyHex) (\<lambda>key.
     if check sig message key then allVerify check message rest else Inr False)"

definition screenEntry :: "hash \<Rightarrow> sigCheck \<Rightarrow> applyContext \<Rightarrow> orderingBlock \<Rightarrow> int \<Rightarrow> nat \<Rightarrow> refusal + queuedTx" where
  "screenEntry H check ctx block height i =
     ebind (decodeBodyEntry H ctx block i False height) (\<lambda>item.
     ebind (overSignedReason (q_tx item)) (\<lambda>_.
     ebind (orThrow (hexToBytes (q_txId item))) (\<lambda>message.
     ebind (orThrow (allVerify check message (signatures (q_tx item)))) (\<lambda>ok.
     if ok then Inr item else Inl (Refused ''a signature in the body does not verify'')))))"

type_synonym refusals = "(nat \<times> string) list"

text \<open>The decoded survivors and the refusals of the gates before the body applies.\<close>
fun screenEntries :: "(nat \<Rightarrow> refusal + queuedTx) \<Rightarrow> nat list \<Rightarrow> ((nat \<times> queuedTx) list \<times> refusals) res" where
  "screenEntries f [] = Inr ([], [])"
| "screenEntries f (i # is) = ebind (refusalOf (f i)) (\<lambda>r. ebind (screenEntries f is) (\<lambda>(ds, rs).
     Inr (case r of Inl reason \<Rightarrow> (ds, (i, reason) # rs) | Inr item \<Rightarrow> ((i, item) # ds, rs))))"

text \<open>A refused transaction applies nothing: the next meets the state it met.\<close>
fun applyEach :: "(queuedTx \<Rightarrow> 's \<Rightarrow> refusal + 's) \<Rightarrow> (nat \<times> queuedTx) list \<Rightarrow> 's \<Rightarrow> ('s \<times> refusals) res" where
  "applyEach f [] s = Inr (s, [])"
| "applyEach f ((i, item) # ds) s = ebind (refusalOf (f item s)) (\<lambda>r. case r of
     Inl reason \<Rightarrow> ebind (applyEach f ds s) (\<lambda>(s', rs). Inr (s', (i, reason) # rs))
   | Inr s1 \<Rightarrow> applyEach f ds s1)"

text \<open>\<open>indexByTxId\<close>: the last entry under an id.  A withdrawal of a transaction that did not reach
  the loop, or that the loop refused, is passed over.\<close>
fun withdrawEach :: "int \<Rightarrow> (string \<Rightarrow> nat option) \<Rightarrow> nat list \<Rightarrow> blockWithdrawal list \<Rightarrow> overlay \<Rightarrow> refusals res" where
  "withdrawEach height place skipped [] s = Inr []"
| "withdrawEach height place skipped (bw # bws) s = (case place (bw_txId bw) of
     None \<Rightarrow> withdrawEach height place skipped bws s
   | Some i \<Rightarrow> if i \<in> set skipped then withdrawEach height place skipped bws s
       else ebind (refusalOf (applyBlockWithdrawal height bw s)) (\<lambda>r. case r of
         Inl reason \<Rightarrow> ebind (withdrawEach height place skipped bws s) (\<lambda>rs. Inr ((i, reason) # rs))
       | Inr s1 \<Rightarrow> withdrawEach height place skipped bws s1))"

definition indexByTxId :: "(nat \<times> queuedTx) list \<Rightarrow> string \<Rightarrow> nat option" where
  "indexByTxId ds = map_of (rev (map (\<lambda>(i, item). (q_txId item, i)) ds))"

definition passStart :: "hash \<Rightarrow> stateView \<Rightarrow> orderingBlock \<Rightarrow> nat list \<Rightarrow> nat \<Rightarrow> overlay" where
  "passStart H v block survivors lastIndex =
     recordPosts (postsOf H (survivorsBlock block survivors lastIndex)) (h_height (header block)) (newOverlay v)"

definition passOwed :: "applyContext \<Rightarrow> int \<Rightarrow> queuedTx list \<Rightarrow> overlay \<Rightarrow> (string \<times> int) list" where
  "passOwed ctx height items s = snd (capturePreBodyOwed s (map bodyTxOf items) height (cx_decayCfg ctx) [])"

text \<open>The refusals a pass adds, in the order it makes them.\<close>
definition runPass :: "hash \<Rightarrow> sigCheck \<Rightarrow> stateView \<Rightarrow> orderingBlock \<Rightarrow> applyContext \<Rightarrow> nat \<Rightarrow> nat list \<Rightarrow> refusals res" where
  "runPass H check v block ctx lastIndex survivors =
     (let height = h_height (header block); s0 = passStart H v block survivors lastIndex in
      ebind (screenEntries (screenEntry H check ctx block height) survivors) (\<lambda>(ds, rs1).
      let items = map snd ds in
      ebind (applyEach (applyQueuedTx H ctx (verifiedKeys items) (passOwed ctx height items s0) height) ds (newTxApplyAcc, s0))
        (\<lambda>((acc, s1), rs2).
      ebind (withdrawEach height (indexByTxId ds) (map fst rs2)
          (withdrawalsOf (o_getTopologyAuthor s1) (survivorsBlock block survivors lastIndex)) s1) (\<lambda>rs3.
      Inr (rs1 @ rs2 @ rs3)))))"

section \<open>A pass refuses survivors\<close>

lemma refusalOf_ok [simp]:
  "refusalOf x = Inr (Inl e) \<longleftrightarrow> x = Inl (Refused e)" "refusalOf x = Inr (Inr a) \<longleftrightarrow> x = Inr a"
  by (induction x rule: refusalOf.induct; simp)+

lemma screenEntries_cases:
  assumes "screenEntries f (i # is) = Inr (ds, rs)"
  obtains reason rs' where "f i = Inl (Refused reason)" "screenEntries f is = Inr (ds, rs')" "rs = (i, reason) # rs'"
  | item ds' where "f i = Inr item" "screenEntries f is = Inr (ds', rs)" "ds = (i, item) # ds'"
proof -
  obtain r ds' rs' where r: "refusalOf (f i) = Inr r" "screenEntries f is = Inr (ds', rs')"
      "(ds, rs) = (case r of Inl reason \<Rightarrow> (ds', (i, reason) # rs') | Inr item \<Rightarrow> ((i, item) # ds', rs'))"
    using assms by (auto simp: bind_iff)
  show ?thesis by (cases r) (use r that in auto)
qed

lemma applyEach_cases:
  assumes "applyEach f ((i, item) # ds) s = Inr (s', rs)"
  obtains reason rs' where "f item s = Inl (Refused reason)" "applyEach f ds s = Inr (s', rs')" "rs = (i, reason) # rs'"
  | s1 where "f item s = Inr s1" "applyEach f ds s1 = Inr (s', rs)"
proof -
  obtain r where r: "refusalOf (f item s) = Inr r"
      "(case r of Inl reason \<Rightarrow> ebind (applyEach f ds s) (\<lambda>(s', rs). Inr (s', (i, reason) # rs)) | Inr s1 \<Rightarrow> applyEach f ds s1) = Inr (s', rs)"
    using assms by (auto simp: bind_iff simp del: refusalOf.simps)
  show ?thesis by (cases r) (use r that in \<open>auto simp: bind_iff\<close>)
qed

lemma withdrawEach_cases:
  assumes "withdrawEach h g sk (bw # bws) s = Inr rs"
  obtains "g (bw_txId bw) = None \<or> (\<exists>i\<in>set sk. g (bw_txId bw) = Some i)" "withdrawEach h g sk bws s = Inr rs"
  | i reason rs' where "g (bw_txId bw) = Some i" "i \<notin> set sk" "applyBlockWithdrawal h bw s = Inl (Refused reason)"
      "withdrawEach h g sk bws s = Inr rs'" "rs = (i, reason) # rs'"
  | i s1 where "g (bw_txId bw) = Some i" "i \<notin> set sk" "applyBlockWithdrawal h bw s = Inr s1" "withdrawEach h g sk bws s1 = Inr rs"
proof (cases "g (bw_txId bw)")
  case None
  then show ?thesis using assms that(1) by simp
next
  case (Some i)
  show ?thesis
  proof (cases "i \<in> set sk")
    case True
    then show ?thesis using assms Some that(1) by simp
  next
    case False
    obtain r where r: "refusalOf (applyBlockWithdrawal h bw s) = Inr r"
        "(case r of Inl reason \<Rightarrow> ebind (withdrawEach h g sk bws s) (\<lambda>rs. Inr ((i, reason) # rs))
          | Inr s1 \<Rightarrow> withdrawEach h g sk bws s1) = Inr rs"
      using assms Some False by (auto simp: bind_iff simp del: refusalOf.simps)
    show ?thesis by (cases r) (use r that(2,3) Some False in \<open>auto simp: bind_iff\<close>)
  qed
qed

lemma screenEntries_parts: "screenEntries f is = Inr (ds, rs) \<Longrightarrow> set (map fst ds) \<union> set (map fst rs) = set is"
proof (induction "is" arbitrary: ds rs)
  case (Cons i "is")
  from Cons.prems show ?case by (cases rule: screenEntries_cases) (use Cons.IH in fastforce)+
qed simp

lemma applyEach_parts: "applyEach f ds s = Inr (s', rs) \<Longrightarrow> set (map fst rs) \<subseteq> set (map fst ds)"
proof (induction ds arbitrary: s rs)
  case (Cons d ds)
  obtain i item where d: "d = (i, item)" by fastforce
  from Cons.prems show ?case unfolding d by (cases rule: applyEach_cases) (use Cons.IH in fastforce)+
qed simp

lemma indexByTxId_in:
  assumes "indexByTxId ds t = Some i"
  shows "i \<in> set (map fst ds)"
proof -
  have "(t, i) \<in> set (map (\<lambda>(i, item). (q_txId item, i)) ds)"
    using map_of_SomeD [OF assms [unfolded indexByTxId_def]] by simp
  then show ?thesis by force
qed

lemma withdrawEach_parts:
  "withdrawEach h g sk bws s = Inr rs \<Longrightarrow> \<forall>i\<in>set (map fst rs). \<exists>t. g t = Some i"
proof (induction bws arbitrary: s rs)
  case (Cons bw bws)
  from Cons.prems show ?case by (cases rule: withdrawEach_cases) (use Cons.IH in fastforce)+
qed simp

lemma runPass_parts:
  assumes "runPass H check v block ctx l survivors = Inr rs"
  shows "set (map fst rs) \<subseteq> set survivors"
proof -
  obtain ds rs1 s1 rs2 rs3 where p: "screenEntries (screenEntry H check ctx block (h_height (header block))) survivors = Inr (ds, rs1)"
      "applyEach (applyQueuedTx H ctx (verifiedKeys (map snd ds)) (passOwed ctx (h_height (header block)) (map snd ds)
        (passStart H v block survivors l)) (h_height (header block))) ds (newTxApplyAcc, passStart H v block survivors l) = Inr (s1, rs2)"
      "withdrawEach (h_height (header block)) (indexByTxId ds) (map fst rs2)
        (withdrawalsOf (o_getTopologyAuthor (snd s1)) (survivorsBlock block survivors l)) (snd s1) = Inr rs3"
      "rs = rs1 @ rs2 @ rs3"
    using assms unfolding runPass_def Let_def by (auto simp: bind_iff)
  note e = screenEntries_parts [OF p(1)]
  have "set (map fst rs2) \<subseteq> set survivors" using applyEach_parts [OF p(2)] e by blast
  moreover have "set (map fst rs3) \<subseteq> set survivors"
    using withdrawEach_parts [OF p(3)] indexByTxId_in e by fastforce
  ultimately show ?thesis using e unfolding p(4) by auto
qed

section \<open>The screen\<close>

definition noteRefusals :: "refusals \<Rightarrow> refusals \<Rightarrow> refusals" where
  "noteRefusals new refused = fold (\<lambda>(i, reason). AList.update i reason) new refused"

function screenLoop :: "hash \<Rightarrow> sigCheck \<Rightarrow> stateView \<Rightarrow> orderingBlock \<Rightarrow> applyContext \<Rightarrow> nat \<Rightarrow> nat list \<Rightarrow> refusals \<Rightarrow> refusals res" where
  "screenLoop H check v block ctx lastIndex survivors refused =
     (case runPass H check v block ctx lastIndex survivors of
        Inl e \<Rightarrow> Inl e
      | Inr new \<Rightarrow>
          if new = [] then Inr refused
          else screenLoop H check v block ctx lastIndex (filter (\<lambda>i. i \<notin> set (map fst new)) survivors) (noteRefusals new refused))"
  by pat_completeness auto
termination
proof (relation "measure (\<lambda>(_, _, _, _, _, _, survivors, _). length survivors)")
  fix H check v block ctx l survivors refused new
  assume r: "runPass H check v block ctx l survivors = Inr new" and n: "new \<noteq> []"
  obtain q rest where "new = q # rest" using n by (cases new) auto
  then have "fst q \<in> set survivors" "fst q \<in> set (map fst new)" using runPass_parts [OF r] by auto
  then have "length (filter (\<lambda>i. i \<notin> set (map fst new)) survivors) < length survivors"
    by (intro length_filter_less) auto
  then show "((H, check, v, block, ctx, l, filter (\<lambda>i. i \<notin> set (map fst new)) survivors, noteRefusals new refused),
      H, check, v, block, ctx, l, survivors, refused) \<in> measure (\<lambda>(_, _, _, _, _, _, survivors, _). length survivors)"
    by simp
qed simp

declare screenLoop.simps [simp del]

text \<open>Nothing precedes the settlement of a body of one entry; an empty body has no last index.\<close>
definition screenBody :: "hash \<Rightarrow> sigCheck \<Rightarrow> stateView \<Rightarrow> orderingBlock \<Rightarrow> applyContext \<Rightarrow> refusals res" where
  "screenBody H check v block ctx =
     (let lastIndex = length (utxoTxIds (ob_utxoTxTree block)) - 1 in
      if lastIndex < 1 then Inr []
      else ebind (screenLoop H check v block ctx lastIndex [0..<lastIndex] []) (\<lambda>refused. Inr (sort_key fst refused)))"

end
