(* ===== verification/ScreenLaws.thy ===== *)
theory ScreenLaws
  imports ScreenBody ChainSample
begin

text \<open>
  What the screen of a body answers: the refused indices in order, each once, and survivors
  that all apply, one after the other, over the block of the survivors.
\<close>

section \<open>A pass that refuses nothing\<close>

lemma screenEntries_clean: "screenEntries f is = Inr (ds, []) \<Longrightarrow> emap f is = Inr (map snd ds)"
proof (induction "is" arbitrary: ds)
  case (Cons i "is")
  from Cons.prems show ?case by (cases rule: screenEntries_cases) (use Cons.IH in auto)
qed simp

lemma applyEach_clean: "applyEach f ds s = Inr (s', []) \<Longrightarrow> efold f (map snd ds) s = Inr s'"
proof (induction ds arbitrary: s)
  case (Cons d ds)
  obtain i item where d: "d = (i, item)" by fastforce
  from Cons.prems show ?case unfolding d by (cases rule: applyEach_cases) (use Cons.IH in auto)
qed simp

lemma withdrawEach_clean:
  "withdrawEach h g [] bws s = Inr [] \<Longrightarrow>
    \<exists>s2. efold (applyBlockWithdrawal h) (filter (\<lambda>bw. g (bw_txId bw) \<noteq> None) bws) s = Inr s2"
proof (induction bws arbitrary: s)
  case (Cons bw bws)
  from Cons.prems show ?case by (cases rule: withdrawEach_cases) (use Cons.IH in auto)
qed simp

lemma indexByTxId_ids: "indexByTxId ds t \<noteq> None \<longleftrightarrow> t \<in> set (map q_txId (map snd ds))"
  unfolding indexByTxId_def map_of_eq_None_iff by force

definition passApplies :: "hash \<Rightarrow> sigCheck \<Rightarrow> stateView \<Rightarrow> orderingBlock \<Rightarrow> applyContext \<Rightarrow> nat \<Rightarrow> nat list \<Rightarrow> queuedTx list \<Rightarrow> bool" where
  "passApplies H check v block ctx l S items \<longleftrightarrow>
     (let height = h_height (header block); s0 = passStart H v block S l in
      emap (screenEntry H check ctx block height) S = Inr items \<and>
      (\<exists>acc s1 s2. efold (applyQueuedTx H ctx (verifiedKeys items) (passOwed ctx height items s0) height) items (newTxApplyAcc, s0) = Inr (acc, s1) \<and>
        efold (applyBlockWithdrawal height) (filter (\<lambda>bw. bw_txId bw \<in> set (map q_txId items))
          (withdrawalsOf (o_getTopologyAuthor s1) (survivorsBlock block S l))) s1 = Inr s2))"

lemma clean_pass:
  assumes "runPass H check v block ctx l S = Inr []"
  shows "\<exists>items. passApplies H check v block ctx l S items"
proof -
  let ?h = "h_height (header block)" and ?s = "passStart H v block S l"
  obtain ds acc s1 where p: "screenEntries (screenEntry H check ctx block ?h) S = Inr (ds, [])"
      "applyEach (applyQueuedTx H ctx (verifiedKeys (map snd ds)) (passOwed ctx ?h (map snd ds) ?s) ?h) ds (newTxApplyAcc, ?s)
        = Inr ((acc, s1), [])"
      "withdrawEach ?h (indexByTxId ds) [] (withdrawalsOf (o_getTopologyAuthor s1) (survivorsBlock block S l)) s1 = Inr []"
    using assms unfolding runPass_def Let_def by (auto simp: bind_iff)
  show ?thesis
    unfolding passApplies_def Let_def
    using screenEntries_clean [OF p(1)] applyEach_clean [OF p(2)] withdrawEach_clean [OF p(3)]
    unfolding indexByTxId_ids by blast
qed

section \<open>The passes\<close>

lemma note_keys: "set (map fst (noteRefusals new refused)) = set (map fst new) \<union> set (map fst refused)"
  unfolding noteRefusals_def
  by (induction new arbitrary: refused) (auto simp: dom_update [unfolded] split: prod.splits)

lemma note_distinct: "distinct (map fst refused) \<Longrightarrow> distinct (map fst (noteRefusals new refused))"
  unfolding noteRefusals_def
  by (induction new arbitrary: refused) (auto simp: distinct_update split: prod.splits)

lemma loop_clean:
  "screenLoop H check v block ctx l survivors refused = Inr final \<Longrightarrow>
    survivors = filter (\<lambda>i. i \<notin> set (map fst refused)) [0..<l] \<Longrightarrow> distinct (map fst refused) \<Longrightarrow>
    set (map fst refused) \<subseteq> {..<l} \<Longrightarrow>
    distinct (map fst final) \<and> set (map fst final) \<subseteq> {..<l} \<and>
    runPass H check v block ctx l (filter (\<lambda>i. i \<notin> set (map fst final)) [0..<l]) = Inr []"
proof (induction H check v block ctx l survivors refused rule: screenLoop.induct)
  case (1 H check v block ctx l survivors refused)
  obtain new where new: "runPass H check v block ctx l survivors = Inr new"
    using "1.prems"(1) by (cases "runPass H check v block ctx l survivors") (auto simp: screenLoop.simps)
  show ?case
  proof (cases "new = []")
    case True
    then have "final = refused" using "1.prems"(1) new by (simp add: screenLoop.simps)
    then show ?thesis using "1.prems" new True by simp
  next
    case False
    have sub: "set (map fst new) \<subseteq> {..<l}" using runPass_parts [OF new] "1.prems"(2) by auto
    have "screenLoop H check v block ctx l (filter (\<lambda>i. i \<notin> set (map fst new)) survivors) (noteRefusals new refused) = Inr final"
      using "1.prems"(1) new False by (simp add: screenLoop.simps [of H check v block ctx l survivors refused])
    moreover have "filter (\<lambda>i. i \<notin> set (map fst new)) survivors = filter (\<lambda>i. i \<notin> set (map fst (noteRefusals new refused))) [0..<l]"
      unfolding "1.prems"(2) note_keys filter_filter by (rule filter_cong) auto
    moreover have "set (map fst (noteRefusals new refused)) \<subseteq> {..<l}"
      unfolding note_keys using sub "1.prems"(4) by blast
    ultimately show ?thesis using "1.IH" [OF new False] note_distinct [OF "1.prems"(3)] by blast
  qed
qed

lemma sorted_refusals: "distinct (map fst rs) \<Longrightarrow> sorted_wrt (<) (map fst (sort_key fst rs))" for rs :: refusals
proof -
  assume "distinct (map fst rs)"
  moreover have "set (map fst (sort_key fst rs)) = set (map fst rs)" by simp
  ultimately have "distinct (map fst (sort_key fst rs))" by (metis card_distinct distinct_card length_map length_sort)
  then show ?thesis by (simp add: strict_sorted_iff)
qed

text \<open>C29: The screen answers, and its survivors apply.  The refused indices are in body order, each
  once and none the settlement's; the transactions left all decode under their ids, carry no
  spare signature and only signatures that verify, and apply one after the other over the block
  of the survivors, and their withdrawals after them.  The passes always end.\<close>
theorem screen_survivors_apply:
  assumes "screenBody H check v block ctx = Inr refused"
  defines "l \<equiv> length (utxoTxIds (ob_utxoTxTree block)) - 1"
  shows "sorted_wrt (<) (map fst refused) \<and> set (map fst refused) \<subseteq> {..<l} \<and>
    (\<exists>items. passApplies H check v block ctx l (filter (\<lambda>i. i \<notin> set (map fst refused)) [0..<l]) items)"
proof (cases "l < 1")
  case True
  then have "refused = []" "l = 0" using assms(1) by (simp_all add: screenBody_def l_def)
  moreover have "passApplies H check v block ctx 0 [] []"
    by (simp add: passApplies_def Let_def)
  ultimately show ?thesis by auto
next
  case False
  have run: "screenBody H check v block ctx = ebind (screenLoop H check v block ctx l [0..<l] []) (\<lambda>refused. Inr (sort_key fst refused))"
    unfolding screenBody_def l_def [symmetric] Let_def using False by (rule if_not_P)
  obtain final where f: "screenLoop H check v block ctx l [0..<l] [] = Inr final" "refused = sort_key fst final"
    using assms(1) unfolding run bind_iff by auto
  have "set (map fst refused) = set (map fst final)" by (simp add: f(2))
  moreover have "distinct (map fst final) \<and> set (map fst final) \<subseteq> {..<l} \<and>
      runPass H check v block ctx l (filter (\<lambda>i. i \<notin> set (map fst final)) [0..<l]) = Inr []"
    by (rule loop_clean [OF f(1)]) simp_all
  ultimately show ?thesis using sorted_refusals [of final] clean_pass unfolding f(2) by metis
qed

definition anySignature :: sigCheck where "anySignature sig message key = True"

lemma chain_entry: "screenEntry chainH anySignature chainCtx chainBlock 5 0 = Inr likeQueued"
  by code_simp

lemma chain_survivors: "postsOf chainH (survivorsBlock chainBlock [0] 1) = []"
  "withdrawalsOf g (survivorsBlock chainBlock [0] 1) = []"
proof -
  have e: "bodyEntries (survivorsBlock chainBlock [0] 1) = bodyEntries chainBlock"
    by (simp add: survivorsBlock_def chainBlock_def bodyEntries_def)
  show "postsOf chainH (survivorsBlock chainBlock [0] 1) = []" using chain_no_posts(1) unfolding postsOf_def e .
  show "withdrawalsOf g (survivorsBlock chainBlock [0] 1) = []" using chain_no_posts(2) unfolding withdrawalsOf_def e .
qed

lemma chain_owed: "passOwed chainCtx 5 [likeQueued] fresh = ca_preBodyOwed chainCaptures" by code_simp

lemma chain_pass: "runPass chainH anySignature chainView chainBlock chainCtx 1 [0] = Inr []"
proof -
  have h: "h_height (header chainBlock) = 5" by (simp add: chainBlock_def chainHeader_def)
  have s: "passStart chainH chainView chainBlock [0] 1 = fresh"
    by (simp add: passStart_def chain_survivors recordPosts_def del: One_nat_def)
  show ?thesis
    by (simp add: runPass_def h s chain_entry chain_owed like_step chain_survivors Let_def del: One_nat_def)
qed

lemma chain_two: "length (utxoTxIds (ob_utxoTxTree chainBlock)) = 2" by (simp add: chainBlock_def)

lemma screen_survivors_apply_witness:
  "\<exists>items. passApplies chainH anySignature chainView chainBlock chainCtx 1 [0] items"
proof -
  have e: "screenBody chainH anySignature chainView chainBlock chainCtx = Inr []"
    by (simp add: screenBody_def chain_two screenLoop.simps chain_pass [simplified])
  have l: "length (utxoTxIds (ob_utxoTxTree chainBlock)) - 1 = 1" by (simp add: chain_two)
  have u: "filter (\<lambda>i. i \<notin> set (map fst ([] :: refusals))) [0..<1] = [0]" by simp
  show ?thesis using screen_survivors_apply [OF e] unfolding l u by blast
qed

end
