(* ===== verification/Spec2Isabelle.thy ===== *)
theory Spec2Isabelle
  imports Frame Tx Arms Rent OverlayLaws SettlementProps InterlinkLaws Chain DecaySettles PowTarget NipopowCompare NipopowProver StructureLaws BatchLaws TreeViewLaws TreeWriteLaws ScreenLaws
begin

text \<open>
  A model of the notis consensus code: \<open>src/packages\<close> \<open>wire\<close>, \<open>types\<close>, \<open>validation\<close>,
  \<open>consensus\<close> and \<open>nipopow\<close>.  A block is bytes that \<open>types\<close> decodes; \<open>validation\<close> checks its
  structure, its header and its signatures; \<open>consensus\<close> applies it to a state it reads through
  a view, and returns the effects, which become writes to an authenticated tree; \<open>nipopow\<close>
  proves a chain to a client that holds none of it.

  Theories, bottom up.  Definitions carry the names of the functions they translate.
  \<^item> \<open>Prelude\<close>: the exceptions of the codecs, the error monad (\<open>ebind\<close>, \<open>emap\<close>, \<open>efold\<close>) every
    throwing or refusing function is written in, and its laws.
  \<^item> \<open>Wire\<close>, \<open>Writer\<close>, \<open>Frame\<close> (\<open>wire/src\<close>): the byte reader and the growable writer as states
    passed along, the VLQ encodings, the frame.
  \<^item> \<open>Codec\<close>, \<open>Boxes\<close>, \<open>Tx\<close> (\<open>types/src/codec.ts\<close>, \<open>utxo.ts\<close>, \<open>serialization.ts\<close>): the field
    codecs, the boundary check, boxes, transactions and their ids.  The locale \<open>struct_codec\<close> is
    the contract of a codec; it is interpreted for every record codec, here and in \<open>BlockLaws\<close>,
    \<open>NipopowCodec\<close> and \<open>TreeRecords\<close>, and gives round trips and canonicity once.
  \<^item> \<open>Valuation\<close>, \<open>Coinbase\<close>: identity records, karma decay, membership bars, the block reward.
  \<^item> \<open>Checks\<close>, \<open>Transitions\<close>, \<open>Engine\<close> (\<open>consensus/src/utxo-engine.ts\<close>): \<open>validateTx\<close> step by
    step, its transition arms, \<open>applyTx\<close> over a store interface.  \<open>Samples\<close>, \<open>Accepted\<close>, \<open>Arms\<close>,
    \<open>Rent\<close>: what acceptance establishes (value conserved, owners signed, karma not moved, the
    floor and the rent).
  \<^item> \<open>Overlay\<close>, \<open>OverlayLaws\<close>, \<open>Decay\<close> (\<open>overlay.ts\<close>, \<open>decay.ts\<close>): a block's writes over a view;
    the overlay refines the state with the writes applied.
  \<^item> \<open>Settlement\<close>, \<open>SettlementText\<close>, \<open>SettlementCheck\<close>, \<open>SettlementWorth\<close>, \<open>SettlementProps\<close>
    (\<open>settlement.ts\<close>): the settlement a body derives, its verifier, their equivalence, and the
    conservation of value in every leg.
  \<^item> \<open>Blocks\<close>, \<open>BlockLaws\<close>, \<open>InterlinkLaws\<close> (\<open>block.ts\<close>, \<open>merkle.ts\<close>, \<open>interlinks.ts\<close>): the
    bytes of a block, its transaction root, its interlink vector.
  \<^item> \<open>ApplyBlock\<close> (\<open>apply-block.ts\<close>, \<open>block-posts.ts\<close>, \<open>block-cost.ts\<close>), \<open>ApplyLaws\<close>,
    \<open>ChainSample\<close>, \<open>Chain\<close>: \<open>applyBlock\<close> phase by phase; the log of a block replayed on a
    ledger; an accepted block evaluated; the inductive relation \<open>chain\<close> of accepted blocks and
    its invariants.
  \<^item> \<open>DecaySettles\<close>: the clocks of the records through those phases, and that no owner a block
    touches or pays owes decay after it.
  \<^item> \<open>ScreenBody\<close>, \<open>ScreenLaws\<close> (\<open>screen-body.ts\<close>): the passes that screen a candidate body over
    the same phases, and that what they leave applies.
  \<^item> \<open>Pow\<close>, \<open>HeaderChain\<close>, \<open>Structure\<close>, \<open>Batch\<close> and their \<open>Laws\<close> (\<open>validation/src\<close>): proof of
    work and its schedule, a page of headers, the structural checks, the batched Ed25519 check.
    \<open>PowTarget\<close>: the integer target is the exact root of its difficulty.
  \<^item> \<open>Nipopow\<close>, \<open>NipopowCodec\<close>, \<open>NipopowLaws\<close>, \<open>NipopowCompare\<close>, \<open>NipopowProver\<close>
    (\<open>nipopow/src\<close>): superblock proofs, their codec, verifier, comparison and prover.
  \<^item> \<open>TreeRecords\<close>, \<open>TreeKeys\<close>, \<open>TreeKeyLaws\<close> (\<open>types/src/tree-records.ts\<close>, \<open>tree-keys.ts\<close>,
    \<open>consensus/src/tree-index.ts\<close>): the rows of the authenticated tree, one key per row.
    \<open>TreeView\<close>, \<open>TreeViewLaws\<close> (\<open>tree-view.ts\<close>, \<open>holdings.ts\<close>): the reads by lookups and walks,
    against the leaves of the tree a session answers for.  \<open>TreeWrites\<close>, \<open>TreeWriteLaws\<close>
    (\<open>tree-writes.ts\<close>): the writes of a block, which carry the ledger of \<open>Chain\<close> into the tree.

  State: a TypeScript class is a record passed through its methods (reader, writer, overlay); a
  \<open>Map\<close> is an association list, where a set key keeps its place; a \<open>Set\<close> a list without
  repetitions.  A throw, a refusal and an early return are values of a sum type; a refusal
  carries a short name of its check, not the English text.  Numbers are \<open>int\<close>, with the safe
  integer and the 64-bit bounds written out where the code checks them; bytes are 8-bit words.

  Termination: structural loops are \<open>fun\<close>, others \<open>function\<close> with a measure.  The level loop of
  the proof of work, the prover's walk down a level and the tree walk may run forever in the
  code, and are partial functions into \<open>option\<close> without fuel; that they return is proved in
  \<open>level_loop_terminates\<close>, \<open>honest_proof_accepted\<close> and \<open>pages_tile\<close>.

  Parameters, for code that is not in the repository: the hash function; the Ed25519 check, its
  curve group and the batch coefficients; the session that looks a key up in the AVL tree, whose
  truth to a set of leaves is the hypothesis \<open>backs\<close> of the tree view's theorems; the header
  reader of the prover.  Properties that rest on collision freedom exhibit the collision instead.

  Not modelled: the verifier session over the AVL library (\<open>verifier-session.ts\<close>), network
  profiles and seed lists of \<open>types\<close>; \<open>packages/net\<close>, \<open>node\<close>, \<open>node-reads\<close>, \<open>web\<close> and
  \<open>tools\<close>, which are sockets, timers, SQL, HTTP and user interface around these packages; \<open>packages/avltree\<close>, a wrapper of a compiled library.
\<close>

end
